(* ===== verification/Prelude.thy ===== *)
theory Prelude
  imports
    Main
    "HOL-Library.Word"
    "HOL-Library.Monad_Syntax"
begin

text \<open>
  Shared vocabulary of the development: the machine integer types of the kernel (x86-64,
  LP64), the page and alignment macros of \<^verbatim>\<open>src/kernel/mm/mm_types.h\<close>, and the lemmas on
  words, loops and the option monad that the component theories share.

  Conventions. An operation of the C code that can touch memory outside an object (or
  otherwise leave the defined part of C) returns an \<open>option\<close>: \<open>None\<close> is "undefined
  behaviour", never an error value the code returns itself. A null pointer is the word 0.
\<close>

unbundle bit_operations_syntax

text \<open>
  \<open>hcf()\<close> (\<^verbatim>\<open>src/kernel/arch/x86_64/cpu/halt.h\<close>) never returns: a routine that may call it
  yields \<open>Halted\<close> there, and \<open>Running\<close> with its result otherwise.
\<close>

datatype 'a outcome = Halted | Running 'a

type_synonym u8 = "8 word"
type_synonym u16 = "16 word"
type_synonym u32 = "32 word"
type_synonym u64 = "64 word"

named_theorems bounds_simps "arithmetic facts about page numbers and offsets"
named_theorems frame_simps "what an operation leaves unchanged"

subsection \<open>Pages and alignment\<close>

definition PAGE_SIZE :: u64 where "PAGE_SIZE = 0x1000"
definition PAGE_SIZE_2M :: u64 where "PAGE_SIZE_2M = 0x200000"
definition PAGE_SIZE_1G :: u64 where "PAGE_SIZE_1G = 0x40000000"

definition BYTES_TO_PAGES :: "u64 \<Rightarrow> u64" where
  "BYTES_TO_PAGES bytes = bytes div PAGE_SIZE"

definition ALIGN_DOWN :: "u64 \<Rightarrow> u64 \<Rightarrow> u64" where
  "ALIGN_DOWN addr align = addr AND NOT (align - 1)"

definition ALIGN_UP :: "u64 \<Rightarrow> u64 \<Rightarrow> u64" where
  "ALIGN_UP addr align = (addr + align - 1) AND NOT (align - 1)"

definition IS_PAGE_ALIGNED :: "u64 \<Rightarrow> bool" where
  "IS_PAGE_ALIGNED num = ((num AND (PAGE_SIZE - 1)) = 0)"

lemma word_and_not_mask:
  "(w :: 'a::len word) AND NOT (mask n) = w - take_bit n w"
proof -
  have "w AND NOT (mask n) = push_bit n (drop_bit n w)"
    by (rule bit_word_eqI) (auto simp: bit_simps)
  moreover have "push_bit n (drop_bit n w) + take_bit n w = w"
    by (rule bits_ident)
  ultimately show ?thesis
    by (metis add_diff_cancel_right')
qed

lemma unat_take_bit_mod: "unat (take_bit n (w :: 'a::len word)) = unat w mod 2 ^ n"
  by (simp add: unsigned_take_bit_eq take_bit_eq_mod [where 'a = nat])

lemma unat_align_down_pow2:
  fixes w :: u64
  assumes "n < 64"
  shows "unat (ALIGN_DOWN w (2 ^ n)) = unat w - unat w mod 2 ^ n"
proof -
  have "ALIGN_DOWN w (2 ^ n) = w - take_bit n w"
    by (simp add: ALIGN_DOWN_def word_and_not_mask flip: mask_eq_exp_minus_1)
  moreover have "unat (take_bit n w) = unat w mod 2 ^ n"
    by (rule unat_take_bit_mod)
  moreover have "take_bit n w \<le> w"
    by (simp add: word_le_nat_alt unat_take_bit_mod)
  ultimately show ?thesis
    by (simp add: unat_sub)
qed

lemma PAGE_SIZE_pow2: "PAGE_SIZE = 2 ^ 12" by (simp add: PAGE_SIZE_def)
lemma PAGE_SIZE_2M_pow2: "PAGE_SIZE_2M = 2 ^ 21" by (simp add: PAGE_SIZE_2M_def)
lemma PAGE_SIZE_1G_pow2: "PAGE_SIZE_1G = 2 ^ 30" by (simp add: PAGE_SIZE_1G_def)

lemma unat_PAGE_SIZE [simp]: "unat PAGE_SIZE = 4096" by (simp add: PAGE_SIZE_def)
lemma PAGE_SIZE_nonzero [simp]: "PAGE_SIZE \<noteq> 0" by (simp add: PAGE_SIZE_def)

lemma unat_ALIGN_DOWN_page [bounds_simps]:
  "unat (ALIGN_DOWN w PAGE_SIZE) = unat w - unat w mod 4096"
  using unat_align_down_pow2 [of 12 w] by (simp add: PAGE_SIZE_def)

lemma unat_ALIGN_DOWN_page_div:
  "unat (ALIGN_DOWN w PAGE_SIZE) = 4096 * (unat w div 4096)"
  by (simp add: unat_ALIGN_DOWN_page minus_mod_eq_mult_div)

lemma unat_ALIGN_UP_page:
  assumes "unat w + 4095 < 2 ^ 64"
  shows "unat (ALIGN_UP w PAGE_SIZE) = 4096 * ((unat w + 4095) div 4096)"
proof -
  have eq: "ALIGN_UP w PAGE_SIZE = ALIGN_DOWN (w + (PAGE_SIZE - 1)) PAGE_SIZE"
    by (simp add: ALIGN_UP_def ALIGN_DOWN_def add_diff_eq)
  have "unat (w + (PAGE_SIZE - 1)) = unat w + 4095"
    using assms by (simp add: PAGE_SIZE_def unat_word_ariths)
  then show ?thesis
    by (simp add: eq unat_ALIGN_DOWN_page_div)
qed

lemma ALIGN_DOWN_le: "ALIGN_DOWN w PAGE_SIZE \<le> w"
  by (simp add: word_le_nat_alt unat_ALIGN_DOWN_page)

lemma IS_PAGE_ALIGNED_iff: "IS_PAGE_ALIGNED w \<longleftrightarrow> unat w mod 4096 = 0"
proof -
  have "w AND (PAGE_SIZE - 1) = take_bit 12 w"
    by (simp only: PAGE_SIZE_pow2 take_bit_eq_mask mask_eq_exp_minus_1)
  then have "unat (w AND (PAGE_SIZE - 1)) = unat w mod 4096"
    by (simp add: unat_take_bit_mod)
  then show ?thesis
    by (metis IS_PAGE_ALIGNED_def unat_eq_0)
qed

subsection \<open>Counting loops over words\<close>

lemma unat_Suc_less:
  fixes i n :: "'a::len word"
  assumes "i < n"
  shows "unat (i + 1) = Suc (unat i)"
proof -
  have "unat i < unat n" using assms by (simp add: word_less_nat_alt)
  moreover have "unat n < 2 ^ LENGTH('a)" by simp
  ultimately have "Suc (unat i) < 2 ^ LENGTH('a)" by linarith
  then show ?thesis
    by (simp add: unat_word_ariths)
qed

lemma count_up_decreases [simp]:
  "(i :: 'a::len word) < n \<Longrightarrow> unat n - unat (i + 1) < unat n - unat i"
  by (simp add: unat_Suc_less word_less_nat_alt)

lemma unat_ucast_u32_u64 [simp]: "unat (ucast (w :: u32) :: u64) = unat w"
proof -
  have "unat w < 2 ^ 32" by (rule order_less_le_trans [OF unsigned_less]) simp
  then have "unat w < 2 ^ 64" by simp
  then show ?thesis by (simp add: unsigned_ucast_eq take_bit_nat_eq_self_iff)
qed

lemma count_up_512 [simp]: "(i :: u64) < 512 \<Longrightarrow> 512 - unat (i + 1) < 512 - unat i"
  using count_up_decreases [of i 512] by simp

lemma count_up_256 [simp]: "(i :: u64) < 256 \<Longrightarrow> 256 - unat (i + 1) < 256 - unat i"
  using count_up_decreases [of i 256] by simp

lemma count_up_le: "(i :: 'a::len word) < n \<Longrightarrow> i + 1 \<le> n"
  by (simp add: unat_Suc_less word_le_nat_alt word_less_nat_alt)

lemma count_up_split:
  fixes i j n :: "'a::len word"
  assumes "i < n"
  shows "i \<le> j \<longleftrightarrow> j = i \<or> i + 1 \<le> j"
proof -
  have "unat (i + 1) = Suc (unat i)" using assms by (rule unat_Suc_less)
  then show ?thesis
    by (auto simp: word_le_nat_alt word_unat_eq_iff)
qed

lemma div_PAGE_SIZE_mult:
  "unat (i :: u64) < 2 ^ 52 \<Longrightarrow> unat (i * PAGE_SIZE) = 4096 * unat i"
  by (simp add: unat_word_ariths PAGE_SIZE_def)

lemma unat_div_PAGE_SIZE: "unat (a div PAGE_SIZE) = unat (a :: u64) div 4096"
  by (simp add: unat_div)

lemma PAGE_SIZE_mult_div:
  assumes "unat (i :: u64) < 2 ^ 52"
  shows "i * PAGE_SIZE div PAGE_SIZE = i"
proof -
  have "unat (i * PAGE_SIZE div PAGE_SIZE) = unat i"
    using assms by (simp add: unat_div_PAGE_SIZE div_PAGE_SIZE_mult)
  then show ?thesis by (simp only: word_unat_eq_iff)
qed

subsection \<open>Page arithmetic on numbers\<close>

lemma aligned_less:
  assumes "(a :: nat) mod n = 0" and "b mod n = 0" and "a < b"
  shows "a + n \<le> b"
proof -
  obtain x y where "a = n * x" "b = n * y"
    using assms(1,2) by (auto simp: mod_eq_0_iff_dvd elim!: dvdE)
  then have "x < y" using assms(3) by simp
  then have "n * Suc x \<le> n * y" by (intro mult_le_mono2) simp
  then show ?thesis using \<open>a = n * x\<close> \<open>b = n * y\<close> by simp
qed

lemma unat_add_no_wrap:
  "unat (a :: u64) + unat b < 2 ^ 64 \<Longrightarrow> unat (a + b) = unat a + unat b"
  by (simp only: unat_word_ariths) simp

lemma page_ceiling_le: "4096 * (((b :: nat) + 4095) div 4096) \<le> 4096 * k \<longleftrightarrow> b \<le> 4096 * k"
proof -
  have "4096 * ((b + 4095) div 4096) \<le> 4096 * k \<longleftrightarrow> (b + 4095) div 4096 < Suc k" by auto
  also have "\<dots> \<longleftrightarrow> b \<le> 4096 * k" by (auto simp: div_less_iff_less_mult)
  finally show ?thesis .
qed

lemma page_floor_less: "4096 * k < 4096 * ((x :: nat) div 4096) \<longleftrightarrow> 4096 * k + 4096 \<le> x"
proof -
  have "4096 * k < 4096 * (x div 4096) \<longleftrightarrow> Suc k \<le> x div 4096" by auto
  also have "\<dots> \<longleftrightarrow> 4096 * k + 4096 \<le> x" by (auto simp: less_eq_div_iff_mult_less_eq)
  finally show ?thesis .
qed

subsection \<open>Conversion to int\<close>

text \<open>
  A \<open>uint64_t\<close> passed where an \<open>int\<close> is expected is truncated to 32 bits and read as
  two's complement: it arrives unchanged exactly below $2^{31}$.
\<close>

lemma u64_uint_bounds:
  "unat (i :: u64) < 2 ^ n \<longleftrightarrow> uint i < 2 ^ n" "2 ^ n \<le> unat i \<longleftrightarrow> 2 ^ n \<le> uint i"
proof -
  have "int (2 ^ n) = 2 ^ n" by simp
  then show "unat i < 2 ^ n \<longleftrightarrow> uint i < 2 ^ n" "2 ^ n \<le> unat i \<longleftrightarrow> 2 ^ n \<le> uint i"
    unfolding uint_nat by linarith+
qed

lemma sint_ucast_u64:
  assumes "unat (i :: u64) < 2 ^ 31"
  shows "sint (ucast i :: u32) = int (unat i)"
proof -
  have "sint (ucast i :: u32) = signed_take_bit 31 (uint i)"
    by (simp add: signed_ucast_eq)
  also have "\<dots> = uint i"
  proof (rule signed_take_bit_int_eq_self)
    show "- (2 ^ 31) \<le> uint i" by (rule order_trans [of _ 0]) simp_all
    show "uint i < 2 ^ 31" using assms unfolding u64_uint_bounds by auto
  qed
  finally show ?thesis by (simp only: uint_nat)
qed

lemma sint_ucast_u64_negative:
  assumes "2 ^ 31 \<le> unat (i :: u64)" and "unat i < 2 ^ 32"
  shows "sint (ucast i :: u32) < 0"
proof -
  have "2 ^ 31 \<le> uint i" "uint i < 2 ^ 32"
    using assms unfolding u64_uint_bounds by auto
  then have "uint i div 2 ^ 31 = 1" by simp
  then have "bit (uint i) 31" by (simp add: bit_iff_odd)
  then show ?thesis
    by (simp add: signed_ucast_eq signed_take_bit_negative_iff)
qed

end
