(* ===== verification/Bitmap.thy ===== *)
theory Bitmap
  imports Prelude
begin

text \<open>
  The bitmap of \<^verbatim>\<open>src/kernel/include/bitmap.h\<close>: an array of bytes whose bits are numbered from
  the least significant bit of byte 0. The three accessors take the bit number as a C
  \<open>int\<close>: a \<open>32 word\<close> read as two's complement. A negative number, or one past the array,
  is an access outside the object, so the accessors return \<open>None\<close> there.
\<close>

record bitmap_t =
  bm_size :: u64
  bm_map :: "u8 list"

definition bitmap_in_range :: "bitmap_t \<Rightarrow> u32 \<Rightarrow> bool" where
  "bitmap_in_range bm b \<longleftrightarrow> 0 \<le> sint b \<and> nat (sint b) div 8 < length (bm_map bm)"

definition bitmap_set_bit :: "bitmap_t \<Rightarrow> u32 \<Rightarrow> bitmap_t option" where
  "bitmap_set_bit bm b =
     (if bitmap_in_range bm b then
        (let k = nat (sint b); m = bm_map bm in
         Some (bm\<lparr>bm_map := m[k div 8 := (m ! (k div 8)) OR push_bit (k mod 8) 1]\<rparr>))
      else None)"

definition bitmap_unset_bit :: "bitmap_t \<Rightarrow> u32 \<Rightarrow> bitmap_t option" where
  "bitmap_unset_bit bm b =
     (if bitmap_in_range bm b then
        (let k = nat (sint b); m = bm_map bm in
         Some (bm\<lparr>bm_map := m[k div 8 := (m ! (k div 8)) AND NOT (push_bit (k mod 8) 1)]\<rparr>))
      else None)"

definition bitmap_check_bit :: "bitmap_t \<Rightarrow> u32 \<Rightarrow> bool option" where
  "bitmap_check_bit bm b =
     (if bitmap_in_range bm b then
        (let k = nat (sint b) in
         Some ((bm_map bm ! (k div 8)) AND push_bit (k mod 8) 1 \<noteq> 0))
      else None)"

subsection \<open>The bits as a predicate on numbers\<close>

definition bm_used :: "bitmap_t \<Rightarrow> nat \<Rightarrow> bool" where
  "bm_used bm k \<longleftrightarrow> k div 8 < length (bm_map bm) \<and> bit (bm_map bm ! (k div 8)) (k mod 8)"

definition bm_capacity :: "bitmap_t \<Rightarrow> nat" where
  "bm_capacity bm = 8 * length (bm_map bm)"

lemma div8_less_iff: "k div 8 < n \<longleftrightarrow> k < 8 * (n :: nat)"
  by linarith

lemma div_mod8_eq: "(j :: nat) = k \<longleftrightarrow> j div 8 = k div 8 \<and> j mod 8 = k mod 8"
  by (metis mod_mult_div_eq)

definition bm_reach :: "bitmap_t \<Rightarrow> nat \<Rightarrow> bool" where
  "bm_reach bm k \<longleftrightarrow> k < 2 ^ 31 \<and> k < bm_capacity bm"

lemma bitmap_in_range_reach:
  assumes "bm_reach bm (unat i)"
  shows "bitmap_in_range bm (ucast i)" and "nat (sint (ucast (i :: u64) :: u32)) = unat i"
proof -
  have "sint (ucast i :: u32) = int (unat i)"
    using assms by (intro sint_ucast_u64) (simp add: bm_reach_def)
  then show "bitmap_in_range bm (ucast i)" "nat (sint (ucast i :: u32)) = unat i"
    using assms
    by (simp_all add: bitmap_in_range_def bm_reach_def bm_capacity_def div8_less_iff del: of_nat_unat)
qed

lemma bitmap_check_bit_reach:
  "bm_reach bm (unat i) \<Longrightarrow> bitmap_check_bit bm (ucast (i :: u64)) = Some (bm_used bm (unat i))"
  using bitmap_in_range_reach [of bm i]
  by (simp add: bitmap_check_bit_def bm_used_def bm_reach_def bm_capacity_def div8_less_iff
      bit_iff_and_push_bit_not_eq_0 Let_def)

lemma bm_used_update:
  assumes "k < bm_capacity bm"
    and "\<And>j. j < 8 \<Longrightarrow> bit w j = (if j = k mod 8 then v else bit (bm_map bm ! (k div 8)) j)"
  shows "bm_used (bm\<lparr>bm_map := (bm_map bm)[k div 8 := w]\<rparr>) j = (if j = k then v else bm_used bm j)"
  using assms
  by (auto simp: bm_used_def nth_list_update bm_capacity_def div8_less_iff div_mod8_eq [of j k]
      simp flip: div8_less_iff)

lemma bitmap_set_bit_reach:
  assumes "bm_reach bm (unat i)"
  shows "\<exists>bm'. bitmap_set_bit bm (ucast (i :: u64)) = Some bm' \<and> bm_size bm' = bm_size bm
     \<and> length (bm_map bm') = length (bm_map bm)
     \<and> (\<forall>j. bm_used bm' j \<longleftrightarrow> j = unat i \<or> bm_used bm j)"
  using bitmap_in_range_reach [OF assms] assms
  by (simp add: bitmap_set_bit_def bm_used_update [where v = True] bm_reach_def bit_simps Let_def)

lemma bitmap_unset_bit_reach:
  assumes "bm_reach bm (unat i)"
  shows "\<exists>bm'. bitmap_unset_bit bm (ucast (i :: u64)) = Some bm' \<and> bm_size bm' = bm_size bm
     \<and> length (bm_map bm') = length (bm_map bm)
     \<and> (\<forall>j. bm_used bm' j \<longleftrightarrow> j \<noteq> unat i \<and> bm_used bm j)"
  using bitmap_in_range_reach [OF assms] assms
  by (simp add: bitmap_unset_bit_def bm_used_update [where v = False] bm_reach_def bit_simps Let_def)

text \<open>Past $2^{31}$ the converted bit number is negative: every accessor is undefined.\<close>

lemma bitmap_accessors_undefined:
  assumes "2 ^ 31 \<le> unat (i :: u64)" and "unat i < 2 ^ 32"
  shows "bitmap_check_bit bm (ucast i) = None" "bitmap_set_bit bm (ucast i) = None"
    "bitmap_unset_bit bm (ucast i) = None"
  using sint_ucast_u64_negative [OF assms]
  by (simp_all add: bitmap_check_bit_def bitmap_set_bit_def bitmap_unset_bit_def bitmap_in_range_def)

end
