(* ===== verification/Memory_Map.thy ===== *)
theory Memory_Map
  imports Prelude
begin

text \<open>
  The boot memory map: \<^verbatim>\<open>src/kernel/mm/memory_map.h\<close> and \<^verbatim>\<open>memory_map.c\<close>. The array of 256
  entries is a list of length 256; reading past the source array is undefined.
\<close>

definition MEMMAP_USABLE :: u64 where "MEMMAP_USABLE = 0"
definition MEMMAP_BAD_MEMORY :: u64 where "MEMMAP_BAD_MEMORY = 4"
definition MEMMAP_EXECUTABLE_AND_MODULES :: u64 where "MEMMAP_EXECUTABLE_AND_MODULES = 6"
definition MAX_MEMMAP_ENTRIES :: nat where "MAX_MEMMAP_ENTRIES = 256"

record memory_map_entry_t =
  me_base :: u64
  me_length :: u64
  me_type :: u64

record memory_map_t =
  mm_entries :: "memory_map_entry_t list"
  entry_count :: u64

primrec copy_entries ::
  "nat \<Rightarrow> memory_map_entry_t list \<Rightarrow> memory_map_entry_t list \<Rightarrow> memory_map_entry_t list option" where
  "copy_entries 0 src dst = Some dst"
| "copy_entries (Suc n) src dst =
     do {
       dst' \<leftarrow> copy_entries n src dst;
       if n < length src \<and> n < length dst' then Some (dst'[n := src ! n]) else None
     }"

definition memmap_init ::
  "memory_map_t \<Rightarrow> memory_map_entry_t list \<Rightarrow> u64 \<Rightarrow> memory_map_t option" where
  "memmap_init m entries count =
     (let count' = (if 256 < count then 256 else count) in
      do {
        es \<leftarrow> copy_entries (unat count') entries (mm_entries m);
        Some (m\<lparr>entry_count := count', mm_entries := es\<rparr>)
      })"

text \<open>The entries a loop \<open>for (int i = 0; i < (int)map->entry_count; i++)\<close> visits.\<close>

definition memmap_entries :: "memory_map_t \<Rightarrow> memory_map_entry_t list option" where
  "memmap_entries m =
     (let n = nat (sint (ucast (entry_count m) :: u32)) in
      if n \<le> length (mm_entries m) then Some (take n (mm_entries m)) else None)"

lemma copy_entries_eq:
  assumes "n \<le> length src" and "n \<le> length dst"
  shows "copy_entries n src dst = Some (take n src @ drop n dst)"
  using assms
proof (induction n)
  case 0
  then show ?case by simp
next
  case (Suc n)
  then have "(take n src @ drop n dst)[n := src ! n] = take (Suc n) src @ drop (Suc n) dst"
    by (simp add: list_update_append take_Suc_conv_app_nth Cons_nth_drop_Suc [symmetric])
  with Suc show ?case by simp
qed

lemma memmap_init_entries:
  assumes "length (mm_entries m) = 256" and "unat count \<le> length entries" and "unat count \<le> 256"
  shows "\<exists>m'. memmap_init m entries count = Some m' \<and> length (mm_entries m') = 256
     \<and> memmap_entries m' = Some (take (unat count) entries)"
proof -
  have le: "\<not> 256 < count" using assms(3) by (simp add: word_less_nat_alt)
  have "nat (sint (ucast count :: u32)) = unat count"
    using assms(3) by (simp add: sint_ucast_u64 del: of_nat_unat)
  with le assms show ?thesis
    by (simp add: memmap_init_def memmap_entries_def copy_entries_eq)
qed

end
