(* ===== verification/Page_Allocator.thy ===== *)
theory Page_Allocator
  imports Prelude
begin

text \<open>
  The interface the slab allocator, the page tables and the memory maps call: give me a
  physical page, take this one back. \<open>avail\<close> is the set of free page numbers, \<open>pages\<close> the
  number of pages managed; a result 0 of \<open>alloc\<close> means that there is no page left. An
  operation that returns \<open>None\<close> has left the defined part of C: the laws exclude it.
\<close>

locale page_allocator =
  fixes alloc :: "'s \<Rightarrow> (u64 \<times> 's) option"
    and free :: "'s \<Rightarrow> u64 \<Rightarrow> 's option"
    and invar :: "'s \<Rightarrow> bool"
    and avail :: "'s \<Rightarrow> nat set"
    and pages :: "'s \<Rightarrow> nat"
  assumes avail_range: "invar s \<Longrightarrow> k \<in> avail s \<Longrightarrow> 0 < k \<and> k < pages s"
    and pages_bound: "invar s \<Longrightarrow> pages s \<le> 2 ^ 31"
    and alloc_none: "invar s \<Longrightarrow> avail s = {} \<Longrightarrow> alloc s = Some (0, s)"
    and alloc_some: "invar s \<Longrightarrow> avail s \<noteq> {} \<Longrightarrow>
      \<exists>k a s'. k \<in> avail s \<and> alloc s = Some (a, s') \<and> unat a = 4096 * k
        \<and> invar s' \<and> pages s' = pages s \<and> avail s' = avail s - {k}"
    and free_some: "invar s \<Longrightarrow> PAGE_SIZE \<le> a \<Longrightarrow>
      \<exists>s'. free s a = Some s' \<and> invar s' \<and> pages s' = pages s
        \<and> avail s' = (if unat a div 4096 < pages s then insert (unat a div 4096) (avail s)
                      else avail s)"
begin

lemma alloc_cases:
  assumes "invar s"
  obtains (oom) "avail s = {}" "alloc s = Some (0, s)"
  | (page) k a s' where "k \<in> avail s" "alloc s = Some (a, s')" "unat a = 4096 * k" "a \<noteq> 0"
      "invar s'" "pages s' = pages s" "avail s' = avail s - {k}"
proof (cases "avail s = {}")
  case True
  with alloc_none [OF assms] oom show thesis by blast
next
  case False
  then obtain k a s' where *: "k \<in> avail s" "alloc s = Some (a, s')" "unat a = 4096 * k"
      "invar s'" "pages s' = pages s" "avail s' = avail s - {k}"
    using alloc_some [OF assms] by blast
  moreover have "a \<noteq> 0" using avail_range [OF assms *(1)] *(3) by auto
  ultimately show thesis using page by blast
qed

lemma alloc_total: "invar s \<Longrightarrow> \<exists>a s'. alloc s = Some (a, s') \<and> invar s'"
  using alloc_cases [of s] by metis

lemma alloc_zero_iff: "invar s \<Longrightarrow> alloc s = Some (a, s') \<Longrightarrow> a = 0 \<longleftrightarrow> avail s = {}"
  by (erule alloc_cases) auto

lemma alloc_nonzero:
  assumes "invar s" "alloc s = Some (a, s')" "a \<noteq> 0"
  shows "unat a mod 4096 = 0" "unat a div 4096 \<in> avail s" "PAGE_SIZE \<le> a" "invar s'"
    "pages s' = pages s" "avail s' = avail s - {unat a div 4096}"
    "unat a + 4096 \<le> 4096 * pages s"
proof -
  from assms obtain k where k: "k \<in> avail s" "unat a = 4096 * k" and
    rest: "invar s'" "pages s' = pages s" "avail s' = avail s - {k}"
    by (cases rule: alloc_cases [OF assms(1)]) auto
  have kd: "unat a div 4096 = k" using k(2) by simp
  show "unat a mod 4096 = 0" using k(2) by simp
  show "unat a div 4096 \<in> avail s" unfolding kd by (rule k(1))
  show "PAGE_SIZE \<le> a" using avail_range [OF assms(1) k(1)] k(2) by (simp add: word_le_nat_alt)
  show "invar s'" "pages s' = pages s" "avail s' = avail s - {unat a div 4096}"
    using rest unfolding kd by auto
  show "unat a + 4096 \<le> 4096 * pages s" using avail_range [OF assms(1) k(1)] k(2) by linarith
qed

lemma alloc_free_restores:
  assumes "invar s" "alloc s = Some (a, s1)" "a \<noteq> 0"
  shows "\<exists>s2. free s1 a = Some s2 \<and> invar s2 \<and> avail s2 = avail s"
proof -
  note a = alloc_nonzero [OF assms]
  have "unat a div 4096 < pages s1" using a(5) avail_range [OF assms(1) a(2)] by simp
  then show ?thesis using free_some [OF a(4) a(3)] a(2,6) by (auto simp: insert_absorb)
qed

end

end
