(* ===== verification/Pmm.thy ===== *)
theory Pmm
  imports Bitmap Memory_Map Page_Allocator
begin

text \<open>
  The physical page allocator, \<^verbatim>\<open>src/kernel/mm/pmm/pmm.c\<close>. The state is the C
  \<^verbatim>\<open>struct bitmap_pmm pmm_map\<close> together with the static \<open>cached_index\<close>; the bitmap's bytes are
  the list \<open>bm_map\<close>. Bit k of the bitmap is 1 when page k is in use. Log output is not part of
  this component's state.
\<close>

record pmm_state =
  max_addressable :: u64
  pm_bitmap :: bitmap_t
  total_pages :: u64
  cached_index :: u64

subsection \<open>Allocation of one page\<close>

text \<open>Both search loops of \<open>pmm_alloc_page\<close>: the first clear bit in \<open>[i, hi)\<close>.\<close>

function pmm_scan :: "bitmap_t \<Rightarrow> u64 \<Rightarrow> u64 \<Rightarrow> u64 option option" where
  "pmm_scan bm i hi =
     (if i < hi then
        do {
          used \<leftarrow> bitmap_check_bit bm (ucast i);
          if \<not> used then Some (Some i) else pmm_scan bm (i + 1) hi
        }
      else Some None)"
  by pat_completeness auto
termination
  by (relation "measure (\<lambda>(bm, i, hi). unat hi - unat i)") auto

declare pmm_scan.simps [simp del]

definition pmm_take_page :: "pmm_state \<Rightarrow> u64 \<Rightarrow> (u64 \<times> pmm_state) option" where
  "pmm_take_page p i =
     do {
       bm \<leftarrow> bitmap_set_bit (pm_bitmap p) (ucast i);
       Some (i * PAGE_SIZE, p\<lparr>pm_bitmap := bm, cached_index := i + 1\<rparr>)
     }"

definition pmm_alloc_page :: "pmm_state \<Rightarrow> (u64 \<times> pmm_state) option" where
  "pmm_alloc_page p =
     do {
       r \<leftarrow> pmm_scan (pm_bitmap p) (cached_index p) (total_pages p);
       case r of
         Some i \<Rightarrow> pmm_take_page p i
       | None \<Rightarrow>
           do {
             r' \<leftarrow> pmm_scan (pm_bitmap p) 0 (cached_index p);
             case r' of
               Some i \<Rightarrow> pmm_take_page p i
             | None \<Rightarrow> Some (0, p)
           }
     }"

subsection \<open>Allocation of a run of pages\<close>

function pmm_scan_run ::
  "bitmap_t \<Rightarrow> u64 \<Rightarrow> u64 \<Rightarrow> u64 \<Rightarrow> u64 \<Rightarrow> u64 \<Rightarrow> u64 option option" where
  "pmm_scan_run bm count i hi run_start run_length =
     (if i < hi then
        do {
          used \<leftarrow> bitmap_check_bit bm (ucast i);
          if \<not> used then
            (let run_start' = (if run_length = 0 then i else run_start);
                 run_length' = run_length + 1 in
             if run_length' = count then Some (Some run_start')
             else pmm_scan_run bm count (i + 1) hi run_start' run_length')
          else pmm_scan_run bm count (i + 1) hi run_start 0
        }
      else Some None)"
  by pat_completeness auto
termination
  by (relation "measure (\<lambda>(bm, count, i, hi, s, l). unat hi - unat i)") auto

declare pmm_scan_run.simps [simp del]

text \<open>The loop that marks the pages \<open>run_start + j\<close> for \<open>j\<close> below \<open>count\<close>.\<close>

function pmm_set_run :: "bitmap_t \<Rightarrow> u64 \<Rightarrow> u64 \<Rightarrow> u64 \<Rightarrow> bitmap_t option" where
  "pmm_set_run bm run_start j count =
     (if j < count then
        do {
          bm' \<leftarrow> bitmap_set_bit bm (ucast (run_start + j));
          pmm_set_run bm' run_start (j + 1) count
        }
      else Some bm)"
  by pat_completeness auto
termination
  by (relation "measure (\<lambda>(bm, s, j, count). unat count - unat j)") auto

declare pmm_set_run.simps [simp del]

definition pmm_alloc_pages :: "pmm_state \<Rightarrow> u64 \<Rightarrow> (u64 \<times> pmm_state) option" where
  "pmm_alloc_pages p count =
     (if count = 0 then Some (0, p)
      else do {
        r \<leftarrow> pmm_scan_run (pm_bitmap p) count (cached_index p) (total_pages p) 0 0;
        case r of
          None \<Rightarrow> Some (0, p)
        | Some run_start \<Rightarrow>
            do {
              bm \<leftarrow> pmm_set_run (pm_bitmap p) run_start 0 count;
              Some (run_start * PAGE_SIZE,
                    p\<lparr>pm_bitmap := bm, cached_index := run_start + count\<rparr>)
            }
      })"

subsection \<open>Release\<close>

definition pmm_lower_cache :: "pmm_state \<Rightarrow> u64 \<Rightarrow> pmm_state" where
  "pmm_lower_cache p index =
     (if index < cached_index p then p\<lparr>cached_index := index\<rparr> else p)"

definition pmm_free_page :: "pmm_state \<Rightarrow> u64 \<Rightarrow> pmm_state option" where
  "pmm_free_page p phys_addr =
     (let index = phys_addr div PAGE_SIZE in
      if total_pages p \<le> index then Some p
      else do {
        bm \<leftarrow> bitmap_unset_bit (pm_bitmap p) (ucast index);
        Some (pmm_lower_cache (p\<lparr>pm_bitmap := bm\<rparr>) index)
      })"

function pmm_unset_run :: "bitmap_t \<Rightarrow> u64 \<Rightarrow> u64 \<Rightarrow> bitmap_t option" where
  "pmm_unset_run bm i hi =
     (if i < hi then
        do {
          bm' \<leftarrow> bitmap_unset_bit bm (ucast i);
          pmm_unset_run bm' (i + 1) hi
        }
      else Some bm)"
  by pat_completeness auto
termination
  by (relation "measure (\<lambda>(bm, i, hi). unat hi - unat i)") auto

declare pmm_unset_run.simps [simp del]

definition pmm_free_pages :: "pmm_state \<Rightarrow> u64 \<Rightarrow> u64 \<Rightarrow> pmm_state option" where
  "pmm_free_pages p phys_addr count =
     (if count = 0 then Some p
      else
        (let index = phys_addr div PAGE_SIZE; last = index + count in
         if total_pages p \<le> index then Some p
         else
           (let last' = (if total_pages p < last then total_pages p else last) in
            do {
              bm \<leftarrow> pmm_unset_run (pm_bitmap p) index last';
              Some (pmm_lower_cache (p\<lparr>pm_bitmap := bm\<rparr>) index)
            })))"

subsection \<open>The free pages and the invariant\<close>

definition pmm_free_set :: "pmm_state \<Rightarrow> nat set" where
  "pmm_free_set p = {k. k < unat (total_pages p) \<and> \<not> bm_used (pm_bitmap p) k}"

text \<open>
  Well-formed: every page number fits an \<open>int\<close> and the bitmap, and the cache is in range.
  The invariant adds that page 0 is never free, so that a result 0 means failure.
\<close>

definition pmm_wf :: "pmm_state \<Rightarrow> bool" where
  "pmm_wf p \<longleftrightarrow> unat (total_pages p) \<le> 2 ^ 31
     \<and> unat (total_pages p) \<le> bm_capacity (pm_bitmap p)
     \<and> cached_index p \<le> total_pages p"

definition pmm_inv :: "pmm_state \<Rightarrow> bool" where
  "pmm_inv p \<longleftrightarrow> pmm_wf p \<and> bm_used (pm_bitmap p) 0"

lemma pmm_wf_reach:
  "pmm_wf p \<Longrightarrow> k < unat (total_pages p) \<Longrightarrow> bm_reach (pm_bitmap p) k"
  by (simp add: pmm_wf_def bm_reach_def)

lemma pmm_inv_reach:
  "pmm_inv p \<Longrightarrow> k < unat (total_pages p) \<Longrightarrow> bm_reach (pm_bitmap p) k"
  by (simp add: pmm_inv_def pmm_wf_reach)

lemmas pmm_inv_defs = pmm_inv_def pmm_wf_def

subsection \<open>What the searches find\<close>

text \<open>The first clear position at or after \<open>n\<close>, if there is one below \<open>hi\<close>.\<close>

fun first_clear :: "(nat \<Rightarrow> bool) \<Rightarrow> nat \<Rightarrow> nat \<Rightarrow> u64 option \<Rightarrow> bool" where
  "first_clear used n hi None \<longleftrightarrow> (\<forall>k. n \<le> k \<and> k < hi \<longrightarrow> used k)"
| "first_clear used n hi (Some j) \<longleftrightarrow>
     n \<le> unat j \<and> unat j < hi \<and> \<not> used (unat j) \<and> (\<forall>k. n \<le> k \<and> k < unat j \<longrightarrow> used k)"

lemma first_clear_step: "used n \<Longrightarrow> first_clear used (Suc n) hi r \<Longrightarrow> first_clear used n hi r"
  by (cases r) (auto, (metis Suc_leI le_neq_implies_less)+)

lemma pmm_scan_correct:
  assumes "\<And>k. k < unat hi \<Longrightarrow> bm_reach bm k"
  shows "\<exists>r. pmm_scan bm i hi = Some r \<and> first_clear (bm_used bm) (unat i) (unat hi) r"
  using assms
proof (induction bm i hi rule: pmm_scan.induct)
  case (1 bm i hi)
  show ?case
  proof (cases "i < hi")
    case False
    then show ?thesis by (auto simp: pmm_scan.simps [of bm i hi] word_less_nat_alt)
  next
    case True
    then have chk: "bitmap_check_bit bm (ucast i) = Some (bm_used bm (unat i))"
      using "1.prems" by (simp add: bitmap_check_bit_reach word_less_nat_alt)
    show ?thesis
    proof (cases "bm_used bm (unat i)")
      case False
      with True chk show ?thesis
        by (auto simp: pmm_scan.simps [of bm i hi] word_less_nat_alt)
    next
      case used: True
      with "1.IH" [OF True chk] "1.prems" obtain r where
        "pmm_scan bm (i + 1) hi = Some r" "first_clear (bm_used bm) (unat (i + 1)) (unat hi) r"
        by blast
      with True used chk show ?thesis
        by (simp add: pmm_scan.simps [of bm i hi] unat_Suc_less first_clear_step)
    qed
  qed
qed

lemma pmm_take_page_spec:
  assumes inv: "pmm_inv p" and k: "unat i \<in> pmm_free_set p"
  shows "\<exists>p'. pmm_take_page p i = Some (i * PAGE_SIZE, p') \<and> pmm_inv p'
    \<and> total_pages p' = total_pages p \<and> cached_index p' = i + 1
    \<and> pmm_free_set p' = pmm_free_set p - {unat i}"
proof -
  have lt: "i < total_pages p" using k by (simp add: pmm_free_set_def word_less_nat_alt)
  then have "bm_reach (pm_bitmap p) (unat i)"
    using inv by (simp add: pmm_inv_reach word_less_nat_alt)
  from bitmap_set_bit_reach [OF this] show ?thesis
    using inv lt
    by (auto simp: pmm_take_page_def pmm_inv_defs bm_capacity_def pmm_free_set_def count_up_le)
qed

lemma unat_page_number: "pmm_inv p \<Longrightarrow> k < unat (total_pages p) \<Longrightarrow> k < 2 ^ 52"
  by (simp add: pmm_inv_defs)

text \<open>Next-fit: the first free page at or after the cache, else the first free page.\<close>

definition next_fit :: "nat \<Rightarrow> nat set \<Rightarrow> nat" where
  "next_fit c F = (if \<exists>j \<in> F. c \<le> j then LEAST j. j \<in> F \<and> c \<le> j else LEAST j. j \<in> F)"

lemma next_fit_at_or_after:
  "k \<in> F \<Longrightarrow> c \<le> k \<Longrightarrow> (\<And>j. j \<in> F \<Longrightarrow> c \<le> j \<Longrightarrow> k \<le> j) \<Longrightarrow> next_fit c F = k"
  unfolding next_fit_def by (auto intro!: Least_equality)

lemma next_fit_wrapped:
  assumes "k \<in> F" "\<And>j. j \<in> F \<Longrightarrow> j < c" "\<And>j. j \<in> F \<Longrightarrow> k \<le> j"
  shows "next_fit c F = k"
proof -
  have "\<not> (\<exists>j \<in> F. c \<le> j)" using assms(2) by (auto simp: not_le)
  moreover have "(LEAST j. j \<in> F) = k" using assms by (intro Least_equality) auto
  ultimately show ?thesis by (simp add: next_fit_def)
qed

lemma next_fit_in: "F \<noteq> {} \<Longrightarrow> next_fit c F \<in> F"
  unfolding next_fit_def
  using LeastI_ex [of "\<lambda>j. j \<in> F \<and> c \<le> j"] LeastI_ex [of "\<lambda>j. j \<in> F"] by auto

definition alloc_post :: "pmm_state \<Rightarrow> nat \<Rightarrow> u64 \<Rightarrow> pmm_state \<Rightarrow> bool" where
  "alloc_post p k a p' \<longleftrightarrow> pmm_inv p' \<and> total_pages p' = total_pages p \<and> unat a = 4096 * k
     \<and> pmm_free_set p' = pmm_free_set p - {k} \<and> unat (cached_index p') = Suc k"

lemma pmm_take_page_post:
  assumes inv: "pmm_inv p" and k: "unat i \<in> pmm_free_set p"
  shows "\<exists>a p'. pmm_take_page p i = Some (a, p') \<and> alloc_post p (unat i) a p'"
proof -
  have lt: "unat i < unat (total_pages p)" using k by (simp add: pmm_free_set_def)
  have "unat (i * PAGE_SIZE) = 4096 * unat i"
    by (intro div_PAGE_SIZE_mult unat_page_number [OF inv lt])
  moreover have "unat (i + 1) = Suc (unat i)"
    using lt by (intro unat_Suc_less [of _ "total_pages p"]) (simp add: word_less_nat_alt)
  ultimately show ?thesis
    using pmm_take_page_spec [OF inv k] by (auto simp: alloc_post_def)
qed

lemma pmm_alloc_page_correct:
  assumes inv: "pmm_inv p"
  shows "if pmm_free_set p = {} then pmm_alloc_page p = Some (0, p)
    else \<exists>a p'. pmm_alloc_page p = Some (a, p')
           \<and> alloc_post p (next_fit (unat (cached_index p)) (pmm_free_set p)) a p'"
proof -
  let ?bm = "pm_bitmap p" and ?c = "cached_index p" and ?n = "total_pages p"
  let ?F = "pmm_free_set p"
  have cn: "unat ?c \<le> unat ?n" using inv by (simp add: pmm_inv_defs word_le_nat_alt)
  obtain r where r: "pmm_scan ?bm ?c ?n = Some r" "first_clear (bm_used ?bm) (unat ?c) (unat ?n) r"
    using pmm_scan_correct inv pmm_inv_reach by blast
  show ?thesis
  proof (cases r)
    case (Some i)
    with r have F: "unat i \<in> ?F" by (simp add: pmm_free_set_def)
    moreover have "next_fit (unat ?c) ?F = unat i"
      using r Some F by (intro next_fit_at_or_after) (auto simp: pmm_free_set_def not_less [symmetric])
    ultimately show ?thesis
      using r Some pmm_take_page_post [OF inv F] by (auto simp: pmm_alloc_page_def)
  next
    case None
    obtain r' where r': "pmm_scan ?bm 0 ?c = Some r'" "first_clear (bm_used ?bm) (unat (0::u64)) (unat ?c) r'"
      using pmm_scan_correct [of ?c ?bm 0] inv pmm_inv_reach cn by force
    have low: "j < unat ?c" if "j \<in> ?F" for j
      using that None r by (auto simp: pmm_free_set_def not_less [symmetric])
    show ?thesis
    proof (cases r')
      case Nothing: None
      with r' low have "?F = {}" by (auto simp: pmm_free_set_def)
      with Nothing None r r' show ?thesis by (simp add: pmm_alloc_page_def)
    next
      case (Some i)
      with r' cn have F: "unat i \<in> ?F" by (simp add: pmm_free_set_def)
      moreover have "next_fit (unat ?c) ?F = unat i"
        using r' Some F low by (intro next_fit_wrapped) (auto simp: pmm_free_set_def not_less [symmetric])
      ultimately show ?thesis
        using Some None r r' pmm_take_page_post [OF inv F] by (auto simp: pmm_alloc_page_def)
    qed
  qed
qed

subsection \<open>Runs of pages\<close>

fun first_run :: "(nat \<Rightarrow> bool) \<Rightarrow> nat \<Rightarrow> nat \<Rightarrow> nat \<Rightarrow> u64 option \<Rightarrow> bool" where
  "first_run used count n hi None \<longleftrightarrow>
     (\<forall>k. n \<le> k \<and> k + count \<le> hi \<longrightarrow> (\<exists>j. k \<le> j \<and> j < k + count \<and> used j))"
| "first_run used count n hi (Some s) \<longleftrightarrow>
     n \<le> unat s \<and> unat s + count \<le> hi \<and> (\<forall>j. unat s \<le> j \<and> j < unat s + count \<longrightarrow> \<not> used j)
     \<and> (\<forall>k. n \<le> k \<and> k < unat s \<longrightarrow> (\<exists>j. k \<le> j \<and> j < k + count \<and> used j))"

lemma first_run_skip:
  assumes "used i" and "i < m + count" and "m \<le> i" and "first_run used count (Suc i) hi r"
  shows "first_run used count m hi r"
proof -
  have hit: "\<exists>j. k \<le> j \<and> j < k + count \<and> used j" if "m \<le> k" "k \<le> i" for k
    using that assms(1,2) by (intro exI [of _ i]) auto
  show ?thesis
  proof (cases r)
    case None
    with assms(4) hit show ?thesis by (simp add: not_less_eq_eq [symmetric]) (metis not_less_eq_eq)
  next
    case (Some s)
    with assms(3,4) hit show ?thesis by simp (metis not_less_eq_eq)
  qed
qed

lemma pmm_scan_run_correct:
  assumes "\<And>k. k < unat hi \<Longrightarrow> bm_reach bm k"
    and "unat l < unat count" and "unat l \<le> unat i" and "unat l \<noteq> 0 \<Longrightarrow> unat rs + unat l = unat i"
    and "\<And>j. unat i - unat l \<le> j \<Longrightarrow> j < unat i \<Longrightarrow> \<not> bm_used bm j"
  shows "\<exists>r. pmm_scan_run bm count i hi rs l = Some r
    \<and> first_run (bm_used bm) (unat count) (unat i - unat l) (unat hi) r"
  using assms
proof (induction bm count i hi rs l rule: pmm_scan_run.induct)
  case (1 bm count i hi rs l)
  note unfold = pmm_scan_run.simps [of bm count i hi rs l]
  show ?case
  proof (cases "i < hi")
    case False
    then have "unat hi \<le> unat i" by (simp add: word_less_nat_alt)
    with "1.prems"(2) have "first_run (bm_used bm) (unat count) (unat i - unat l) (unat hi) None"
      by (auto simp: )
    with False show ?thesis by (simp add: unfold)
  next
    case True
    then have chk: "bitmap_check_bit bm (ucast i) = Some (bm_used bm (unat i))"
      using "1.prems"(1) by (simp add: bitmap_check_bit_reach word_less_nat_alt)
    have Suc_i: "unat (i + 1) = Suc (unat i)" using True by (rule unat_Suc_less)
    have Suc_l: "unat (l + 1) = Suc (unat l)"
      using "1.prems"(2) by (intro unat_Suc_less [of _ count]) (simp add: word_less_nat_alt)
    show ?thesis
    proof (cases "bm_used bm (unat i)")
      case used: True
      with "1.IH"(2) [OF True chk] "1.prems"(1,2) obtain r where
        r: "pmm_scan_run bm count (i + 1) hi rs 0 = Some r"
          "first_run (bm_used bm) (unat count) (Suc (unat i)) (unat hi) r"
        by (auto simp: Suc_i)
      have "first_run (bm_used bm) (unat count) (unat i - unat l) (unat hi) r"
        using "1.prems"(2,3) by (intro first_run_skip [where i = "unat i", OF used _ _ r(2)]) auto
      with True used chk r(1) show ?thesis by (simp add: unfold)
    next
      case free: False
      let ?s = "if l = 0 then i else rs"
      have s: "unat ?s + unat l = unat i" using "1.prems"(4) by (auto simp: unat_eq_0)
      have clear: "\<not> bm_used bm j" if "unat i - unat l \<le> j" "j < Suc (unat i)" for j
        using that free "1.prems"(5) [of j] by (cases "j = unat i") auto
      show ?thesis
      proof (cases "l + 1 = count")
        case full: True
        then have "unat count = Suc (unat l)" using Suc_l by simp
        then have "first_run (bm_used bm) (unat count) (unat i - unat l) (unat hi) (Some ?s)"
          using s clear True by (auto simp: word_less_nat_alt)
        with True free chk full show ?thesis by (simp add: unfold Let_def)
      next
        case False
        then have "unat (l + 1) < unat count"
          using Suc_l "1.prems"(2) by (metis Suc_lessI word_unat_eq_iff)
        with "1.IH"(1) [OF True chk _ refl refl False] free "1.prems"(1) s clear
        have "\<exists>r. pmm_scan_run bm count (i + 1) hi ?s (l + 1) = Some r
          \<and> first_run (bm_used bm) (unat count) (unat i - unat l) (unat hi) r"
          by (simp add: Suc_i Suc_l)
        with True free chk False show ?thesis by (simp add: unfold Let_def)
      qed
    qed
  qed
qed

lemma pmm_set_run_correct:
  assumes "unat s + unat count \<le> 2 ^ 31" and "unat s + unat count \<le> bm_capacity bm" and "j \<le> count"
  shows "\<exists>bm'. pmm_set_run bm s j count = Some bm' \<and> bm_capacity bm' = bm_capacity bm
    \<and> (\<forall>k. bm_used bm' k \<longleftrightarrow> (unat s + unat j \<le> k \<and> k < unat s + unat count) \<or> bm_used bm k)"
  using assms
proof (induction bm s j count rule: pmm_set_run.induct)
  case (1 bm s j count)
  note unfold = pmm_set_run.simps [of bm s j count]
  show ?case
  proof (cases "j < count")
    case False
    then show ?thesis by (simp add: unfold) (auto simp: word_less_nat_alt)
  next
    case True
    then have j: "unat j < unat count" by (simp add: word_less_nat_alt)
    have sj: "unat (s + j) = unat s + unat j"
      using j "1.prems"(1) by (simp add: unat_word_ariths)
    have "bm_reach bm (unat (s + j))" using j "1.prems" by (simp add: sj bm_reach_def)
    from bitmap_set_bit_reach [OF this] obtain bm1 where
      bm1: "bitmap_set_bit bm (ucast (s + j)) = Some bm1" "bm_capacity bm1 = bm_capacity bm"
        "\<And>k. bm_used bm1 k \<longleftrightarrow> k = unat s + unat j \<or> bm_used bm k"
      by (auto simp: sj bm_capacity_def)
    with "1.IH" [OF True bm1(1)] "1.prems" count_up_le [OF True] obtain bm' where bm':
      "pmm_set_run bm1 s (j + 1) count = Some bm'" "bm_capacity bm' = bm_capacity bm"
      "\<And>k. bm_used bm' k \<longleftrightarrow> (unat s + Suc (unat j) \<le> k \<and> k < unat s + unat count) \<or> bm_used bm1 k"
      by (auto simp: unat_Suc_less [OF True])
    have "bm_used bm' k \<longleftrightarrow> (unat s + unat j \<le> k \<and> k < unat s + unat count) \<or> bm_used bm k" for k
      unfolding bm'(3) bm1(3) using j by linarith
    with True bm1(1) bm'(1,2) show ?thesis by (simp add: unfold)
  qed
qed

definition run_of :: "nat \<Rightarrow> nat \<Rightarrow> nat set" where
  "run_of k count = {j. k \<le> j \<and> j < k + count}"

definition alloc_run_post :: "pmm_state \<Rightarrow> nat \<Rightarrow> nat \<Rightarrow> u64 \<Rightarrow> pmm_state \<Rightarrow> bool" where
  "alloc_run_post p k count a p' \<longleftrightarrow> pmm_inv p' \<and> total_pages p' = total_pages p
     \<and> unat a = 4096 * k \<and> run_of k count \<subseteq> pmm_free_set p
     \<and> pmm_free_set p' = pmm_free_set p - run_of k count"

lemma pmm_alloc_pages_correct:
  assumes inv: "pmm_inv p" and count: "count \<noteq> 0"
  shows "(pmm_alloc_pages p count = Some (0, p)
           \<and> (\<forall>k. unat (cached_index p) \<le> k \<longrightarrow> \<not> run_of k (unat count) \<subseteq> pmm_free_set p))
     \<or> (\<exists>k a p'. pmm_alloc_pages p count = Some (a, p') \<and> unat (cached_index p) \<le> k \<and> k \<noteq> 0
           \<and> alloc_run_post p k (unat count) a p')"
proof -
  let ?bm = "pm_bitmap p" and ?c = "cached_index p" and ?n = "total_pages p"
  have c0: "0 < unat count" using count by (simp add: unat_gt_0)
  obtain r where r: "pmm_scan_run ?bm count ?c ?n 0 0 = Some r"
    "first_run (bm_used ?bm) (unat count) (unat ?c) (unat ?n) r"
    using pmm_scan_run_correct [of ?n ?bm 0 count ?c 0] c0 pmm_inv_reach [OF inv] by auto
  show ?thesis
  proof (cases r)
    case None
    have "\<not> run_of k (unat count) \<subseteq> pmm_free_set p" if "unat ?c \<le> k" for k
    proof
      assume sub: "run_of k (unat count) \<subseteq> pmm_free_set p"
      have "k + unat count - 1 \<in> run_of k (unat count)" using c0 by (simp add: run_of_def)
      with sub have "k + unat count \<le> unat ?n" by (auto simp: pmm_free_set_def)
      with r None that obtain j where "k \<le> j" "j < k + unat count" "bm_used ?bm j" by auto
      with sub show False by (auto simp: run_of_def pmm_free_set_def)
    qed
    with r None count show ?thesis by (simp add: pmm_alloc_pages_def)
  next
    case (Some s)
    have lim: "unat s + unat count \<le> unat ?n" "unat ?n \<le> 2 ^ 31" "unat ?n \<le> bm_capacity ?bm"
      using r Some inv by (auto simp: pmm_inv_defs)
    then have lim': "unat s + unat count \<le> 2 ^ 31" "unat s + unat count \<le> bm_capacity ?bm"
      by linarith+
    obtain bm' where bm': "pmm_set_run ?bm s 0 count = Some bm'" "bm_capacity bm' = bm_capacity ?bm"
      "\<And>k. bm_used bm' k \<longleftrightarrow> (unat s \<le> k \<and> k < unat s + unat count) \<or> bm_used ?bm k"
      using pmm_set_run_correct [OF lim', of 0] by auto
    have "unat s < 2 ^ 52" using lim'(1) by simp
    then have a: "unat (s * PAGE_SIZE) = 4096 * unat s" by (rule div_PAGE_SIZE_mult)
    have "unat (s + count) = unat s + unat count"
      using lim'(1) by (simp add: unat_word_ariths)
    then have cache: "s + count \<le> ?n" using lim(1) by (simp add: word_le_nat_alt)
    let ?p' = "p\<lparr>pm_bitmap := bm', cached_index := s + count\<rparr>"
    have "run_of (unat s) (unat count) \<subseteq> pmm_free_set p"
      using r Some lim(1) by (auto simp: run_of_def pmm_free_set_def)
    moreover have "pmm_free_set ?p' = pmm_free_set p - run_of (unat s) (unat count)"
      by (auto simp: pmm_free_set_def run_of_def bm'(3))
    moreover have "pmm_inv ?p'"
      using inv cache bm' by (simp add: pmm_inv_defs)
    moreover have "unat s \<noteq> 0"
    proof
      assume "unat s = 0"
      then have "\<not> bm_used ?bm 0" using r Some c0 by auto
      with inv show False by (simp add: pmm_inv_defs)
    qed
    moreover have "pmm_alloc_pages p count = Some (s * PAGE_SIZE, ?p')"
      using count r(1) Some bm'(1) by (simp add: pmm_alloc_pages_def)
    ultimately show ?thesis using a r Some
      by (intro disjI2 exI [of _ "unat s"]) (simp add: alloc_run_post_def)
  qed
qed

lemma pmm_lower_cache_simps [simp]:
  "pm_bitmap (pmm_lower_cache p i) = pm_bitmap p" "total_pages (pmm_lower_cache p i) = total_pages p"
  by (simp_all add: pmm_lower_cache_def)

lemma pmm_lower_cache_le: "i \<le> n \<Longrightarrow> cached_index p \<le> n \<Longrightarrow> cached_index (pmm_lower_cache p i) \<le> n"
  by (simp add: pmm_lower_cache_def)

lemma pmm_free_page_wf:
  assumes inv: "pmm_wf p"
  shows "\<exists>p'. pmm_free_page p a = Some p' \<and> pmm_wf p' \<and> total_pages p' = total_pages p
    \<and> (PAGE_SIZE \<le> a \<and> bm_used (pm_bitmap p) 0 \<longrightarrow> bm_used (pm_bitmap p') 0)
    \<and> bm_capacity (pm_bitmap p') = bm_capacity (pm_bitmap p)
    \<and> (cached_index p = 0 \<longrightarrow> cached_index p' = 0)
    \<and> pmm_free_set p' = (if unat a div 4096 < unat (total_pages p)
                         then insert (unat a div 4096) (pmm_free_set p) else pmm_free_set p)"
proof (cases "total_pages p \<le> a div PAGE_SIZE")
  case True
  then show ?thesis
    using inv by (auto simp: pmm_free_page_def Let_def word_le_nat_alt unat_div)
next
  case False
  then have lt: "unat a div 4096 < unat (total_pages p)"
    by (simp add: word_le_nat_alt unat_div)
  then have reach: "bm_reach (pm_bitmap p) (unat (a div PAGE_SIZE))"
    by (simp add: pmm_wf_reach [OF inv] unat_div)
  from bitmap_unset_bit_reach [OF reach] obtain bm' where
    bm': "bitmap_unset_bit (pm_bitmap p) (ucast (a div PAGE_SIZE)) = Some bm'"
      "bm_capacity bm' = bm_capacity (pm_bitmap p)"
      "\<And>j. bm_used bm' j \<longleftrightarrow> j \<noteq> unat a div 4096 \<and> bm_used (pm_bitmap p) j"
    by (auto simp: bm_capacity_def unat_div)
  let ?p' = "pmm_lower_cache (p\<lparr>pm_bitmap := bm'\<rparr>) (a div PAGE_SIZE)"
  have "cached_index ?p' \<le> total_pages p"
    using False inv by (intro pmm_lower_cache_le) (auto simp: pmm_wf_def)
  moreover have "0 < unat a div 4096" if "PAGE_SIZE \<le> a"
    using that by (simp add: word_le_nat_alt div_greater_zero_iff)
  ultimately have "pmm_wf ?p'" and
    "PAGE_SIZE \<le> a \<and> bm_used (pm_bitmap p) 0 \<longrightarrow> bm_used (pm_bitmap ?p') 0"
    using inv bm' by (auto simp: pmm_wf_def)
  moreover have "pmm_free_set ?p' = insert (unat a div 4096) (pmm_free_set p)"
    using lt by (auto simp: pmm_free_set_def bm'(3))
  ultimately show ?thesis
    using False lt bm'(1,2) by (simp add: pmm_free_page_def Let_def pmm_lower_cache_def)
qed

lemma pmm_free_page_correct:
  assumes "pmm_inv p"
  shows "\<exists>p'. pmm_free_page p a = Some p' \<and> total_pages p' = total_pages p
    \<and> (PAGE_SIZE \<le> a \<longrightarrow> pmm_inv p')
    \<and> pmm_free_set p' = (if unat a div 4096 < unat (total_pages p)
                         then insert (unat a div 4096) (pmm_free_set p) else pmm_free_set p)"
  using assms pmm_free_page_wf [of p a] by (auto simp: pmm_inv_def)

lemma pmm_unset_run_correct:
  assumes "\<And>k. k < unat hi \<Longrightarrow> bm_reach bm k"
  shows "\<exists>bm'. pmm_unset_run bm i hi = Some bm' \<and> bm_capacity bm' = bm_capacity bm
    \<and> (\<forall>k. bm_used bm' k \<longleftrightarrow> \<not> (unat i \<le> k \<and> k < unat hi) \<and> bm_used bm k)"
  using assms
proof (induction bm i hi rule: pmm_unset_run.induct)
  case (1 bm i hi)
  note unfold = pmm_unset_run.simps [of bm i hi]
  show ?case
  proof (cases "i < hi")
    case False
    then show ?thesis by (simp add: unfold) (auto simp: word_less_nat_alt)
  next
    case True
    then have i: "unat i < unat hi" by (simp add: word_less_nat_alt)
    from bitmap_unset_bit_reach [OF "1.prems" [OF i]] obtain bm1 where
      bm1: "bitmap_unset_bit bm (ucast i) = Some bm1" "bm_capacity bm1 = bm_capacity bm"
        "\<And>k. bm_used bm1 k \<longleftrightarrow> k \<noteq> unat i \<and> bm_used bm k"
      by (auto simp: bm_capacity_def)
    then have "\<And>k. k < unat hi \<Longrightarrow> bm_reach bm1 k"
      using "1.prems" by (simp add: bm_reach_def)
    from "1.IH" [OF True bm1(1) this] obtain bm' where
      bm': "pmm_unset_run bm1 (i + 1) hi = Some bm'" "bm_capacity bm' = bm_capacity bm1"
        "\<And>k. bm_used bm' k \<longleftrightarrow> \<not> (Suc (unat i) \<le> k \<and> k < unat hi) \<and> bm_used bm1 k"
      by (auto simp: unat_Suc_less [OF True])
    have "bm_used bm' k \<longleftrightarrow> \<not> (unat i \<le> k \<and> k < unat hi) \<and> bm_used bm k" for k
      unfolding bm'(3) bm1(3) using i by (cases "k = unat i") auto
    with True bm1(1,2) bm'(1,2) show ?thesis by (simp add: unfold)
  qed
qed

lemma pmm_free_pages_correct:
  assumes inv: "pmm_inv p" and nowrap: "unat a div 4096 + unat count < 2 ^ 64" and a: "PAGE_SIZE \<le> a"
  shows "\<exists>p'. pmm_free_pages p a count = Some p' \<and> pmm_inv p' \<and> total_pages p' = total_pages p
    \<and> pmm_free_set p' = pmm_free_set p
         \<union> {k \<in> run_of (unat a div 4096) (unat count). k < unat (total_pages p)}"
proof -
  let ?i = "a div PAGE_SIZE" and ?n = "total_pages p"
  have i: "unat ?i = unat a div 4096" by (simp add: unat_div)
  have ipos: "0 < unat ?i" using a by (simp add: i word_le_nat_alt div_greater_zero_iff)
  have ic: "unat (?i + count) = unat ?i + unat count"
    using nowrap by (intro unat_add_no_wrap) (simp add: i)
  show ?thesis
  proof (cases "count = 0 \<or> ?n \<le> ?i")
    case True
    then have "{k \<in> run_of (unat a div 4096) (unat count). k < unat ?n} = {}"
      by (auto simp: run_of_def word_le_nat_alt i)
    with True inv show ?thesis by (auto simp: pmm_free_pages_def Let_def)
  next
    case False
    let ?hi = "if ?n < ?i + count then ?n else ?i + count"
    have hi: "unat ?hi = min (unat ?n) (unat ?i + unat count)"
      by (simp add: word_less_nat_alt ic)
    then have "\<And>k. k < unat ?hi \<Longrightarrow> bm_reach (pm_bitmap p) k"
      using pmm_inv_reach [OF inv] by simp
    then obtain bm where
      bm: "pmm_unset_run (pm_bitmap p) ?i ?hi = Some bm" "bm_capacity bm = bm_capacity (pm_bitmap p)"
        "\<And>k. bm_used bm k \<longleftrightarrow> \<not> (unat ?i \<le> k \<and> k < unat ?hi) \<and> bm_used (pm_bitmap p) k"
      using pmm_unset_run_correct [of ?hi "pm_bitmap p" ?i] by blast
    let ?p' = "pmm_lower_cache (p\<lparr>pm_bitmap := bm\<rparr>) ?i"
    have "cached_index ?p' \<le> ?n"
      using False inv by (intro pmm_lower_cache_le) (auto simp: pmm_inv_defs)
    then have "pmm_inv ?p'" using inv bm ipos by (auto simp: pmm_inv_defs)
    moreover have "pmm_free_set ?p' = pmm_free_set p
        \<union> {k \<in> run_of (unat a div 4096) (unat count). k < unat ?n}"
      unfolding pmm_free_set_def pmm_lower_cache_simps run_of_def
      using bm(3) by (auto simp: hi i)
    moreover have "pmm_free_pages p a count = Some ?p'"
      using False bm(1) by (simp add: pmm_free_pages_def Let_def)
    ultimately show ?thesis by auto
  qed
qed

subsection \<open>The allocator provides the page interface\<close>

interpretation pg: page_allocator pmm_alloc_page pmm_free_page pmm_inv pmm_free_set
  "\<lambda>p. unat (total_pages p)"
proof unfold_locales
  fix p k
  assume "pmm_inv p" "k \<in> pmm_free_set p"
  then show "0 < k \<and> k < unat (total_pages p)"
    by (auto simp: pmm_free_set_def pmm_inv_def intro!: gr0I)
next
  fix p
  assume "pmm_inv p"
  then show "unat (total_pages p) \<le> 2 ^ 31" by (simp add: pmm_inv_defs)
next
  fix p
  assume "pmm_inv p" "pmm_free_set p = {}"
  then show "pmm_alloc_page p = Some (0, p)" using pmm_alloc_page_correct [of p] by simp
next
  fix p
  assume "pmm_inv p" "pmm_free_set p \<noteq> {}"
  then show "\<exists>k a p'. k \<in> pmm_free_set p \<and> pmm_alloc_page p = Some (a, p') \<and> unat a = 4096 * k
      \<and> pmm_inv p' \<and> unat (total_pages p') = unat (total_pages p)
      \<and> pmm_free_set p' = pmm_free_set p - {k}"
    using pmm_alloc_page_correct [of p] next_fit_in [of "pmm_free_set p" "unat (cached_index p)"]
    by (intro exI [of _ "next_fit (unat (cached_index p)) (pmm_free_set p)"])
      (auto simp: alloc_post_def)
next
  fix p a
  assume "pmm_inv p" "PAGE_SIZE \<le> a"
  then show "\<exists>p'. pmm_free_page p a = Some p' \<and> pmm_inv p'
      \<and> unat (total_pages p') = unat (total_pages p)
      \<and> pmm_free_set p' = (if unat a div 4096 < unat (total_pages p)
           then insert (unat a div 4096) (pmm_free_set p) else pmm_free_set p)"
    using pmm_free_page_correct [of p a] by auto
qed

subsection \<open>Properties\<close>

text \<open>A sample state: eight pages, 0 and 4 in use, the search position at 5.\<close>

definition pmm_sample :: pmm_state where
  "pmm_sample = \<lparr>max_addressable = 0x8000, pm_bitmap = \<lparr>bm_size = 1, bm_map = [0x11]\<rparr>,
     total_pages = 8, cached_index = 5\<rparr>"

lemma pmm_sample_inv: "pmm_inv pmm_sample"
  by (simp add: pmm_inv_defs pmm_sample_def bm_capacity_def bm_used_def)

text \<open>
  C1: \<open>pmm_alloc_page\<close> never leaves the bitmap; it fails exactly when no page is free, and
  otherwise hands out the next free page at or after \<open>cached_index\<close>, wrapping to the first free
  page, marks just that page used and moves \<open>cached_index\<close> behind it.
\<close>

theorem pmm_alloc_page_next_fit:
  assumes "pmm_inv p"
  shows "if pmm_free_set p = {} then pmm_alloc_page p = Some (0, p)
    else \<exists>a p'. pmm_alloc_page p = Some (a, p')
      \<and> unat a = 4096 * next_fit (unat (cached_index p)) (pmm_free_set p)
      \<and> pmm_inv p' \<and> total_pages p' = total_pages p
      \<and> pmm_free_set p' = pmm_free_set p - {next_fit (unat (cached_index p)) (pmm_free_set p)}
      \<and> unat (cached_index p') = Suc (next_fit (unat (cached_index p)) (pmm_free_set p))"
  using pmm_alloc_page_correct [OF assms]
  by (cases "pmm_free_set p = {}") (auto simp: alloc_post_def)

theorem pmm_alloc_page_next_fit_witness:
  "pmm_inv pmm_sample \<and> (if pmm_free_set pmm_sample = {} then pmm_alloc_page pmm_sample = Some (0, pmm_sample)
    else \<exists>a p'. pmm_alloc_page pmm_sample = Some (a, p')
      \<and> unat a = 4096 * next_fit (unat (cached_index pmm_sample)) (pmm_free_set pmm_sample)
      \<and> pmm_inv p')"
  using pmm_sample_inv pmm_alloc_page_next_fit [OF pmm_sample_inv] by (auto split: if_splits)

text \<open>
  \<open>pmm_alloc_pages\<close> with a positive count either returns 0, unchanged, when no run of that
  many free pages starts at or after \<open>cached_index\<close>, or hands out such a run, never page 0, and
  marks exactly the pages of the run used.
\<close>

theorem pmm_alloc_pages_run:
  assumes "pmm_inv p" and "count \<noteq> 0"
  shows "(pmm_alloc_pages p count = Some (0, p)
       \<and> (\<forall>k. unat (cached_index p) \<le> k \<longrightarrow> \<not> run_of k (unat count) \<subseteq> pmm_free_set p))
   \<or> (\<exists>k a p'. pmm_alloc_pages p count = Some (a, p') \<and> unat a = 4096 * k
       \<and> 0 < k \<and> unat (cached_index p) \<le> k \<and> run_of k (unat count) \<subseteq> pmm_free_set p
       \<and> pmm_inv p' \<and> pmm_free_set p' = pmm_free_set p - run_of k (unat count))"
  using pmm_alloc_pages_correct [OF assms] by (auto simp: alloc_run_post_def)

theorem pmm_alloc_pages_run_witness:
  "pmm_inv pmm_sample \<and> (3 :: u64) \<noteq> 0
   \<and> ((pmm_alloc_pages pmm_sample 3 = Some (0, pmm_sample)
       \<and> (\<forall>k. unat (cached_index pmm_sample) \<le> k \<longrightarrow> \<not> run_of k (unat (3 :: u64)) \<subseteq> pmm_free_set pmm_sample))
     \<or> (\<exists>k a p'. pmm_alloc_pages pmm_sample 3 = Some (a, p') \<and> unat a = 4096 * k
       \<and> 0 < k \<and> unat (cached_index pmm_sample) \<le> k \<and> run_of k (unat (3 :: u64)) \<subseteq> pmm_free_set pmm_sample
       \<and> pmm_inv p' \<and> pmm_free_set p' = pmm_free_set pmm_sample - run_of k (unat (3 :: u64))))"
proof -
  have nz: "(3 :: u64) \<noteq> 0" by simp
  show ?thesis using pmm_sample_inv nz pmm_alloc_pages_run [OF pmm_sample_inv nz] by blast
qed

text \<open>
  Giving back a page that \<open>pmm_alloc_page\<close> has just handed out restores the set of free
  pages, and the allocator's invariant holds throughout.
\<close>

theorem pmm_alloc_then_free:
  assumes "pmm_inv p" and "pmm_alloc_page p = Some (a, p1)" and "a \<noteq> 0"
  shows "\<exists>p2. pmm_free_page p1 a = Some p2 \<and> pmm_inv p2 \<and> pmm_free_set p2 = pmm_free_set p"
  by (rule pg.alloc_free_restores [OF assms])

definition pmm_sample1 :: pmm_state where
  "pmm_sample1 = \<lparr>max_addressable = 0x8000, pm_bitmap = \<lparr>bm_size = 1, bm_map = [0x31]\<rparr>,
     total_pages = 8, cached_index = 6\<rparr>"

lemma pmm_sample_alloc: "pmm_alloc_page pmm_sample = Some (0x5000, pmm_sample1)"
  by (simp add: pmm_alloc_page_def pmm_sample_def pmm_sample1_def pmm_scan.simps pmm_take_page_def
      bitmap_check_bit_def bitmap_set_bit_def bitmap_in_range_def PAGE_SIZE_def)

theorem pmm_alloc_then_free_witness:
  "pmm_inv pmm_sample \<and> pmm_alloc_page pmm_sample = Some (0x5000, pmm_sample1) \<and> (0x5000 :: u64) \<noteq> 0
   \<and> (\<exists>p2. pmm_free_page pmm_sample1 0x5000 = Some p2 \<and> pmm_inv p2
          \<and> pmm_free_set p2 = pmm_free_set pmm_sample)"
proof -
  have nz: "(0x5000 :: u64) \<noteq> 0" by simp
  show ?thesis
    using pmm_sample_inv pmm_sample_alloc nz pmm_alloc_then_free [OF pmm_sample_inv pmm_sample_alloc nz]
    by blast
qed

text \<open>
  \<open>pmm_free_pages\<close> of \<open>count\<close> pages from a non-zero page frees exactly the pages of that run
  that the allocator manages, and keeps the invariant.
\<close>

theorem pmm_free_pages_run:
  assumes "pmm_inv p" and "PAGE_SIZE \<le> a" and "unat a div 4096 + unat count < 2 ^ 64"
  shows "\<exists>p'. pmm_free_pages p a count = Some p' \<and> pmm_inv p' \<and> total_pages p' = total_pages p
    \<and> pmm_free_set p' = pmm_free_set p
         \<union> {k \<in> run_of (unat a div 4096) (unat count). k < unat (total_pages p)}"
  using pmm_free_pages_correct [OF assms(1,3,2)] .

theorem pmm_free_pages_run_witness:
  "pmm_inv pmm_sample \<and> PAGE_SIZE \<le> 0x4000
   \<and> (\<exists>p'. pmm_free_pages pmm_sample 0x4000 2 = Some p' \<and> pmm_inv p')"
proof -
  have "PAGE_SIZE \<le> 0x4000" by (simp add: PAGE_SIZE_def)
  then show ?thesis
    using pmm_sample_inv pmm_free_pages_run [OF pmm_sample_inv, of "0x4000" 2] by auto
qed

text \<open>
  With more than $2^{31}$ pages (8 TiB) the page index no longer fits the \<open>int\<close> the bitmap
  accessors take: once the search position is past that index, the very first probe of
  \<open>pmm_alloc_page\<close> reads outside the bitmap.
\<close>

theorem pmm_alloc_page_int_overflow:
  assumes "2 ^ 31 \<le> unat (cached_index p)" and "unat (cached_index p) < 2 ^ 32"
    and "cached_index p < total_pages p"
  shows "pmm_alloc_page p = None"
  using bitmap_accessors_undefined(1) [OF assms(1,2), of "pm_bitmap p"] assms(3)
  by (simp add: pmm_alloc_page_def pmm_scan.simps)

theorem pmm_alloc_page_int_overflow_witness:
  "pmm_alloc_page \<lparr>max_addressable = 0x90000000000, pm_bitmap = \<lparr>bm_size = 0, bm_map = []\<rparr>,
     total_pages = 0x90000000, cached_index = 0x80000000\<rparr> = None"
  by (rule pmm_alloc_page_int_overflow) simp_all

text \<open>
  Unlike \<open>pmm_alloc_page\<close>, \<open>pmm_alloc_pages\<close> does not wrap around: there is a well-formed
  state where pages 1, 2 and 3 are free and a request for three pages fails, because the search
  starts behind them.
\<close>

theorem pmm_alloc_pages_misses_low_run:
  "\<exists>p. pmm_inv p \<and> run_of 1 3 \<subseteq> pmm_free_set p \<and> pmm_alloc_pages p 3 = Some (0, p)"
proof (intro exI conjI)
  let ?p = "\<lparr>max_addressable = 0x8000, pm_bitmap = \<lparr>bm_size = 1, bm_map = [0xF1]\<rparr>,
     total_pages = 8, cached_index = 8\<rparr>"
  show "pmm_inv ?p" by (simp add: pmm_inv_defs bm_capacity_def bm_used_def)
  have "run_of 1 3 = {1, 2, 3}" by (auto simp: run_of_def)
  then show "run_of 1 3 \<subseteq> pmm_free_set ?p" by (simp add: pmm_free_set_def bm_used_def)
  show "pmm_alloc_pages ?p 3 = Some (0, ?p)"
    by (simp add: pmm_alloc_pages_def pmm_scan_run.simps)
qed

end
