(* ===== verification/Pmm_Init.thy ===== *)
theory Pmm_Init
  imports Pmm
begin

text \<open>
  Bringing the page allocator up: \<open>init_bitmap_pmm\<close> of \<^verbatim>\<open>src/kernel/mm/pmm/pmm.c\<close>, which sizes
  the bitmap from the boot memory map, places it in the first usable region that can hold it,
  marks everything used and then frees the whole pages of the usable regions.
\<close>

fun highest_usable :: "memory_map_entry_t list \<Rightarrow> u64 \<Rightarrow> u64" where
  "highest_usable [] highest = highest"
| "highest_usable (e # es) highest =
     (if me_type e \<noteq> MEMMAP_USABLE then highest_usable es highest
      else
        (let top = me_base e + me_length e in
         highest_usable es (if highest < top then top else highest)))"

definition ULONG_MAX :: u64 where "ULONG_MAX = 0xFFFFFFFFFFFFFFFF"

fun find_bitmap_region :: "memory_map_entry_t list \<Rightarrow> u64 \<Rightarrow> u64" where
  "find_bitmap_region [] bsize = ULONG_MAX"
| "find_bitmap_region (e # es) bsize =
     (if me_type e = MEMMAP_USABLE \<and> bsize \<le> me_length e then me_base e
      else find_bitmap_region es bsize)"

text \<open>The inner loop over the pages of one region; \<open>None\<close> also covers "does not return".\<close>

partial_function (option) free_region ::
  "u64 \<Rightarrow> u64 \<Rightarrow> u64 \<Rightarrow> u64 \<Rightarrow> pmm_state \<Rightarrow> pmm_state option" where
  "free_region bitmap_phys bsize addr hi p =
     (if addr < hi then
        (if bitmap_phys \<le> addr \<and> addr < bitmap_phys + bsize then
           free_region bitmap_phys bsize (addr + PAGE_SIZE) hi p
         else
           do {
             p' \<leftarrow> pmm_free_page p addr;
             free_region bitmap_phys bsize (addr + PAGE_SIZE) hi p'
           })
      else Some p)"

fun free_usable :: "u64 \<Rightarrow> u64 \<Rightarrow> memory_map_entry_t list \<Rightarrow> pmm_state \<Rightarrow> pmm_state option" where
  "free_usable bitmap_phys bsize [] p = Some p"
| "free_usable bitmap_phys bsize (e # es) p =
     (if me_type e \<noteq> MEMMAP_USABLE then free_usable bitmap_phys bsize es p
      else
        do {
          p' \<leftarrow> free_region bitmap_phys bsize (ALIGN_UP (me_base e) PAGE_SIZE)
                  (ALIGN_DOWN (me_base e + me_length e) PAGE_SIZE) p;
          free_usable bitmap_phys bsize es p'
        })"

text \<open>\<open>memset (map, 0xFF, bsize)\<close> fills the bitmap's bytes.\<close>

definition init_bitmap_pmm :: "memory_map_t \<Rightarrow> pmm_state \<Rightarrow> pmm_state outcome option" where
  "init_bitmap_pmm m p =
     do {
       es \<leftarrow> memmap_entries m;
       let highest = highest_usable es 0;
       let pages = BYTES_TO_PAGES highest;
       let bsize = ALIGN_UP ((pages + 7) div 8) PAGE_SIZE;
       let phys = find_bitmap_region es bsize;
       if phys = ULONG_MAX then Some Halted
       else do {
         p' \<leftarrow> free_usable phys bsize es
                (p\<lparr>max_addressable := highest, total_pages := pages,
                   pm_bitmap := \<lparr>bm_size = bsize, bm_map = replicate (unat bsize) 0xFF\<rparr>\<rparr>);
         bm \<leftarrow> bitmap_set_bit (pm_bitmap p') 0;
         Some (Running (p'\<lparr>pm_bitmap := bm\<rparr>))
       }
     }"

lemma bm_used_all_ones: "bm_used \<lparr>bm_size = s, bm_map = replicate n 0xFF\<rparr> k \<longleftrightarrow> k < 8 * n"
proof -
  have ones: "(0xFF :: u8) = - 1" by simp
  have "bit (0xFF :: u8) (k mod 8)"
    unfolding ones by (simp only: bit_minus_1_iff) simp
  then show ?thesis
    by (auto simp: bm_used_def div8_less_iff simp flip: div8_less_iff)
qed

text \<open>The page numbers whose address lies in \<open>[lo, hi)\<close> and not in the bitmap's own memory.\<close>

definition region_pages :: "u64 \<Rightarrow> u64 \<Rightarrow> nat \<Rightarrow> nat \<Rightarrow> nat \<Rightarrow> nat set" where
  "region_pages bp bsize lo hi n = {k. lo \<le> 4096 * k \<and> 4096 * k < hi \<and> k < n
     \<and> \<not> (unat bp \<le> 4096 * k \<and> 4096 * k < unat (bp + bsize))}"

lemma region_pages_empty: "hi \<le> lo \<Longrightarrow> region_pages bp bsize lo hi n = {}"
  by (auto simp: region_pages_def)

lemma region_pages_step:
  assumes "4096 * q < hi"
  shows "region_pages bp bsize (4096 * q) hi n =
    (if q < n \<and> \<not> (unat bp \<le> 4096 * q \<and> 4096 * q < unat (bp + bsize)) then {q} else {})
    \<union> region_pages bp bsize (4096 * q + 4096) hi n"
proof -
  have "4096 * q \<le> 4096 * k \<longleftrightarrow> k = q \<or> 4096 * q + 4096 \<le> 4096 * k" for k by arith
  then show ?thesis using assms by (auto simp: region_pages_def)
qed

definition free_post :: "pmm_state \<Rightarrow> nat set \<Rightarrow> pmm_state \<Rightarrow> bool" where
  "free_post p F p' \<longleftrightarrow> pmm_wf p' \<and> total_pages p' = total_pages p
    \<and> bm_capacity (pm_bitmap p') = bm_capacity (pm_bitmap p)
    \<and> pmm_free_set p' = pmm_free_set p \<union> F"

lemma free_post_trans: "free_post p F p1 \<Longrightarrow> free_post p1 G p2 \<Longrightarrow> free_post p (F \<union> G) p2"
  by (auto simp: free_post_def)

lemma free_post_refl: "pmm_wf p \<Longrightarrow> free_post p {} p"
  by (simp add: free_post_def)

lemma pmm_free_page_post:
  assumes "pmm_wf p"
  shows "\<exists>p'. pmm_free_page p a = Some p'
     \<and> free_post p (if unat a div 4096 < unat (total_pages p) then {unat a div 4096} else {}) p'"
  using pmm_free_page_wf [OF assms, of a] by (auto simp: free_post_def)

lemma free_region_correct:
  assumes "pmm_wf p" and "unat addr mod 4096 = 0" and "unat hi mod 4096 = 0"
  shows "\<exists>p'. free_region bp bsize addr hi p = Some p'
    \<and> free_post p (region_pages bp bsize (unat addr) (unat hi) (unat (total_pages p))) p'"
  using assms
proof (induction "unat hi - unat addr" arbitrary: addr p rule: less_induct)
  case less
  note unfold = free_region.simps [of bp bsize addr hi p]
  show ?case
  proof (cases "addr < hi")
    case False
    then show ?thesis
      using free_post_refl [OF less.prems(1)]
      by (simp add: unfold region_pages_empty word_less_nat_alt)
  next
    case True
    then have lt: "unat addr < unat hi" by (simp add: word_less_nat_alt)
    then have le: "unat addr + 4096 \<le> unat hi" by (rule aligned_less [OF less.prems(2,3)])
    moreover have "unat hi < 2 ^ 64" by (rule order_less_le_trans [OF unsigned_less]) simp
    ultimately have next_addr: "unat (addr + PAGE_SIZE) = unat addr + 4096"
      by (simp add: unat_add_no_wrap)
    obtain q where q: "unat addr = 4096 * q" using less.prems(2) by auto
    have IH: "\<exists>p'. free_region bp bsize (addr + PAGE_SIZE) hi p1 = Some p' \<and>
        free_post p1 (region_pages bp bsize (4096 * q + 4096) (unat hi) (unat (total_pages p1))) p'"
      if "pmm_wf p1" for p1
    proof -
      have dec: "unat hi - unat (addr + PAGE_SIZE) < unat hi - unat addr"
        using lt unfolding next_addr by linarith
      have al: "unat (addr + PAGE_SIZE) mod 4096 = 0"
        unfolding next_addr q by simp
      show ?thesis
        using less.hyps [OF dec that al less.prems(3)] unfolding next_addr q .
    qed
    note step = region_pages_step [of q "unat hi" bp bsize "unat (total_pages p)"]
    show ?thesis
    proof (cases "bp \<le> addr \<and> addr < bp + bsize")
      case skip: True
      with IH [OF less.prems(1)] True lt show ?thesis
        by (simp add: unfold q step word_le_nat_alt word_less_nat_alt)
    next
      case free: False
      have qd: "unat addr div 4096 = q" by (simp add: q)
      obtain p1 where p1: "pmm_free_page p addr = Some p1"
        "free_post p (if q < unat (total_pages p) then {q} else {}) p1"
        using pmm_free_page_post [OF less.prems(1), of addr] unfolding qd by auto
      then have "pmm_wf p1" "total_pages p1 = total_pages p" by (simp_all add: free_post_def)
      with IH [of p1] obtain p' where p': "free_region bp bsize (addr + PAGE_SIZE) hi p1 = Some p'"
        "free_post p1 (region_pages bp bsize (4096 * q + 4096) (unat hi) (unat (total_pages p))) p'"
        by auto
      have "region_pages bp bsize (4096 * q) (unat hi) (unat (total_pages p)) =
        (if q < unat (total_pages p) then {q} else {})
        \<union> region_pages bp bsize (4096 * q + 4096) (unat hi) (unat (total_pages p))"
        using free lt by (auto simp: step q word_le_nat_alt word_less_nat_alt)
      moreover have "free_region bp bsize addr hi p = Some p'"
        using free True p1(1) p'(1) by (auto simp: unfold)
      ultimately show ?thesis
        using free_post_trans [OF p1(2) p'(2)] by (simp add: q)
    qed
  qed
qed

fun usable_pages :: "u64 \<Rightarrow> u64 \<Rightarrow> nat \<Rightarrow> memory_map_entry_t list \<Rightarrow> nat set" where
  "usable_pages bp bsize n [] = {}"
| "usable_pages bp bsize n (e # es) =
     (if me_type e = MEMMAP_USABLE then
        {k. unat (me_base e) \<le> 4096 * k \<and> 4096 * k + 4096 \<le> unat (me_base e) + unat (me_length e)
          \<and> k < n \<and> \<not> (unat bp \<le> 4096 * k \<and> 4096 * k < unat (bp + bsize))}
      else {}) \<union> usable_pages bp bsize n es"

definition entry_ok :: "memory_map_entry_t \<Rightarrow> bool" where
  "entry_ok e \<longleftrightarrow> unat (me_base e) + unat (me_length e) + 4095 < 2 ^ 64"

lemma region_pages_entry:
  assumes "entry_ok e"
  shows "region_pages bp bsize (unat (ALIGN_UP (me_base e) PAGE_SIZE))
      (unat (ALIGN_DOWN (me_base e + me_length e) PAGE_SIZE)) n =
    {k. unat (me_base e) \<le> 4096 * k \<and> 4096 * k + 4096 \<le> unat (me_base e) + unat (me_length e)
      \<and> k < n \<and> \<not> (unat bp \<le> 4096 * k \<and> 4096 * k < unat (bp + bsize))}"
proof -
  let ?b = "unat (me_base e)" and ?l = "unat (me_length e)"
  have up: "unat (ALIGN_UP (me_base e) PAGE_SIZE) = 4096 * ((?b + 4095) div 4096)"
    using assms by (intro unat_ALIGN_UP_page) (simp add: entry_ok_def)
  have "unat (me_base e + me_length e) = ?b + ?l"
    using assms by (intro unat_add_no_wrap) (simp add: entry_ok_def)
  then have down: "unat (ALIGN_DOWN (me_base e + me_length e) PAGE_SIZE) = 4096 * ((?b + ?l) div 4096)"
    by (simp add: unat_ALIGN_DOWN_page_div)
  show ?thesis unfolding region_pages_def up down page_ceiling_le page_floor_less by simp
qed

lemma free_usable_correct:
  assumes "pmm_wf p" and "\<forall>e \<in> set es. me_type e = MEMMAP_USABLE \<longrightarrow> entry_ok e"
  shows "\<exists>p'. free_usable bp bsize es p = Some p'
    \<and> free_post p (usable_pages bp bsize (unat (total_pages p)) es) p'"
  using assms
proof (induction es arbitrary: p)
  case Nil
  then show ?case by (simp add: free_post_refl)
next
  case (Cons e es)
  show ?case
  proof (cases "me_type e = MEMMAP_USABLE")
    case False
    with Cons show ?thesis by simp
  next
    case True
    have ok: "entry_ok e" using True Cons.prems(2) by simp
    have "unat (me_base e) + 4095 < 2 ^ 64" using ok by (simp add: entry_ok_def)
    then have "unat (ALIGN_UP (me_base e) PAGE_SIZE) mod 4096 = 0"
      by (simp add: unat_ALIGN_UP_page)
    moreover have "unat (ALIGN_DOWN (me_base e + me_length e) PAGE_SIZE) mod 4096 = 0"
      by (simp add: unat_ALIGN_DOWN_page_div)
    ultimately have "\<exists>p1. free_region bp bsize (ALIGN_UP (me_base e) PAGE_SIZE)
        (ALIGN_DOWN (me_base e + me_length e) PAGE_SIZE) p = Some p1
      \<and> free_post p (region_pages bp bsize (unat (ALIGN_UP (me_base e) PAGE_SIZE))
          (unat (ALIGN_DOWN (me_base e + me_length e) PAGE_SIZE)) (unat (total_pages p))) p1"
      by (rule free_region_correct [OF Cons.prems(1)])
    then obtain p1 where
      p1: "free_region bp bsize (ALIGN_UP (me_base e) PAGE_SIZE)
             (ALIGN_DOWN (me_base e + me_length e) PAGE_SIZE) p = Some p1"
        "free_post p {k. unat (me_base e) \<le> 4096 * k
          \<and> 4096 * k + 4096 \<le> unat (me_base e) + unat (me_length e) \<and> k < unat (total_pages p)
          \<and> \<not> (unat bp \<le> 4096 * k \<and> 4096 * k < unat (bp + bsize))} p1"
      unfolding region_pages_entry [OF ok] by blast
    then have "pmm_wf p1" "total_pages p1 = total_pages p" by (simp_all add: free_post_def)
    with Cons.IH [of p1] Cons.prems(2) obtain p' where
      "free_usable bp bsize es p1 = Some p'"
      "free_post p1 (usable_pages bp bsize (unat (total_pages p)) es) p'" by auto
    with True p1(1) free_post_trans [OF p1(2)] show ?thesis by auto
  qed
qed

fun usable_top :: "memory_map_entry_t list \<Rightarrow> nat \<Rightarrow> nat" where
  "usable_top [] h = h"
| "usable_top (e # es) h =
     usable_top es (if me_type e = MEMMAP_USABLE then max h (unat (me_base e) + unat (me_length e)) else h)"

lemma highest_usable_correct:
  "\<forall>e \<in> set es. me_type e = MEMMAP_USABLE \<longrightarrow> entry_ok e
   \<Longrightarrow> unat (highest_usable es h) = usable_top es (unat h)"
proof (induction es arbitrary: h)
  case Nil
  then show ?case by simp
next
  case (Cons e es)
  have "unat (me_base e + me_length e) = unat (me_base e) + unat (me_length e)"
    if "me_type e = MEMMAP_USABLE"
    using Cons.prems that by (intro unat_add_no_wrap) (simp add: entry_ok_def)
  with Cons show ?case by (auto simp: Let_def word_less_nat_alt max_def)
qed

definition fits_bitmap :: "nat \<Rightarrow> memory_map_entry_t \<Rightarrow> bool" where
  "fits_bitmap bytes e \<longleftrightarrow> me_type e = MEMMAP_USABLE \<and> bytes \<le> unat (me_length e)"

lemma find_bitmap_region_eq:
  "find_bitmap_region es bsize =
    (case find (fits_bitmap (unat bsize)) es of None \<Rightarrow> ULONG_MAX | Some e \<Rightarrow> me_base e)"
  by (induction es) (auto simp: fits_bitmap_def word_le_nat_alt)

definition bitmap_bytes :: "nat \<Rightarrow> nat" where
  "bitmap_bytes pages = 4096 * (((pages + 7) div 8 + 4095) div 4096)"

lemma unat_bitmap_size:
  assumes "unat pages \<le> 2 ^ 31"
  shows "unat (ALIGN_UP ((pages + 7) div 8) PAGE_SIZE) = bitmap_bytes (unat pages)"
proof -
  have "unat (pages + 7) = unat pages + 7" using assms by (simp add: unat_word_ariths)
  then have d: "unat ((pages + 7) div 8) = (unat pages + 7) div 8" by (simp add: unat_div)
  have "(unat pages + 7) div 8 \<le> 2 ^ 31 + 7" using assms by linarith
  then have "unat ((pages + 7) div 8) + 4095 < 2 ^ 64" unfolding d by simp
  from unat_ALIGN_UP_page [OF this] show ?thesis by (simp add: d bitmap_bytes_def)
qed

lemma bitmap_bytes_enough: "n \<le> 8 * bitmap_bytes n"
  unfolding bitmap_bytes_def by linarith

lemma usable_pages_eq:
  "usable_pages bp bsize n es = {k. k < n \<and> \<not> (unat bp \<le> 4096 * k \<and> 4096 * k < unat (bp + bsize))
     \<and> (\<exists>e \<in> set es. me_type e = MEMMAP_USABLE \<and> unat (me_base e) \<le> 4096 * k
          \<and> 4096 * k + 4096 \<le> unat (me_base e) + unat (me_length e))}"
  by (induction es) auto

text \<open>
  C24: when the usable entries of the memory map are in range and end below 8 TiB, initialisation either halts, exactly
  when no usable entry can hold the bitmap, or leaves a well-formed allocator for all pages below
  the highest usable address whose free pages are exactly the whole pages inside usable entries,
  less page 0 and the pages that hold the bitmap.
\<close>

theorem init_bitmap_pmm_spec:
  assumes es: "memmap_entries m = Some es"
    and ok: "\<forall>e \<in> set es. me_type e = MEMMAP_USABLE \<longrightarrow> entry_ok e"
    and cache: "cached_index p = 0"
    and n: "n = usable_top es 0 div 4096" "0 < n" "n \<le> 2 ^ 31"
  shows "case find (fits_bitmap (bitmap_bytes n)) es of
      None \<Rightarrow> init_bitmap_pmm m p = Some Halted
    | Some b \<Rightarrow> \<exists>p'. init_bitmap_pmm m p = Some (Running p') \<and> pmm_inv p' \<and> unat (total_pages p') = n
        \<and> pmm_free_set p' = {k. 0 < k \<and> k < n
            \<and> \<not> (unat (me_base b) \<le> 4096 * k \<and> 4096 * k < unat (me_base b) + bitmap_bytes n)
            \<and> (\<exists>e \<in> set es. me_type e = MEMMAP_USABLE \<and> unat (me_base e) \<le> 4096 * k
                 \<and> 4096 * k + 4096 \<le> unat (me_base e) + unat (me_length e))}"
proof -
  define h where "h = highest_usable es 0"
  define bs where "bs = ALIGN_UP ((BYTES_TO_PAGES h + 7) div 8) PAGE_SIZE"
  have n_eq: "unat (BYTES_TO_PAGES h) = n"
    using highest_usable_correct [OF ok, of 0] n(1)
    by (simp add: h_def BYTES_TO_PAGES_def unat_div_PAGE_SIZE)
  then have bs_eq: "unat bs = bitmap_bytes n"
    using unat_bitmap_size [of "BYTES_TO_PAGES h"] n(3) by (simp add: bs_def)
  let ?bp = "find_bitmap_region es bs"
  note unfold = init_bitmap_pmm_def es h_def [symmetric] bs_def [symmetric] Let_def
  show ?thesis
  proof (cases "find (fits_bitmap (bitmap_bytes n)) es")
    case None
    then show ?thesis by (simp add: unfold find_bitmap_region_eq bs_eq)
  next
    case (Some b)
    then have b: "b \<in> set es" "fits_bitmap (bitmap_bytes n) b" by (auto simp: find_Some_iff)
    then have okb: "entry_ok b" "bitmap_bytes n \<le> unat (me_length b)"
      using ok by (auto simp: fits_bitmap_def)
    have bp: "?bp = me_base b" by (simp add: find_bitmap_region_eq bs_eq Some)
    have "me_base b \<noteq> ULONG_MAX"
      using okb(1) by (auto simp: entry_ok_def ULONG_MAX_def)
    moreover have bp_end: "unat (me_base b + bs) = unat (me_base b) + bitmap_bytes n"
      using okb by (subst unat_add_no_wrap) (simp_all add: entry_ok_def bs_eq)
    let ?p = "p\<lparr>max_addressable := h, total_pages := BYTES_TO_PAGES h,
        pm_bitmap := \<lparr>bm_size = bs, bm_map = replicate (unat bs) 0xFF\<rparr>\<rparr>"
    have "pmm_wf ?p"
      using n(3) cache bitmap_bytes_enough [of n]
      by (simp add: pmm_wf_def n_eq bm_capacity_def bs_eq)
    from free_usable_correct [OF this ok, of "me_base b" bs] obtain p1 where
      p1: "free_usable (me_base b) bs es ?p = Some p1"
        "free_post ?p (usable_pages (me_base b) bs n es) p1"
      by (auto simp: n_eq)
    have "pmm_free_set ?p = {}"
      using bitmap_bytes_enough [of n] by (auto simp: pmm_free_set_def bm_used_all_ones n_eq bs_eq)
    with p1(2) have p1': "pmm_wf p1" "unat (total_pages p1) = n"
      "pmm_free_set p1 = usable_pages (me_base b) bs n es"
      by (simp_all add: free_post_def n_eq)
    then have "bm_reach (pm_bitmap p1) (unat (0 :: u64))" using n(2) by (intro pmm_wf_reach) auto
    from bitmap_set_bit_reach [OF this] obtain bm where
      bm: "bitmap_set_bit (pm_bitmap p1) 0 = Some bm" "bm_capacity bm = bm_capacity (pm_bitmap p1)"
        "\<And>j. bm_used bm j \<longleftrightarrow> j = 0 \<or> bm_used (pm_bitmap p1) j"
      by (auto simp: bm_capacity_def)
    let ?p' = "p1\<lparr>pm_bitmap := bm\<rparr>"
    have "pmm_inv ?p'" using p1'(1) bm by (simp add: pmm_inv_defs)
    moreover have "pmm_free_set ?p' = pmm_free_set p1 - {0}"
      by (auto simp: pmm_free_set_def bm(3))
    ultimately show ?thesis
      using Some p1(1) p1'(2,3) bm(1) bp bp_end
      by (auto simp: unfold usable_pages_eq)
  qed
qed


definition boot_map_sample :: memory_map_t where
  "boot_map_sample = \<lparr>mm_entries =
     \<lparr>me_base = 0, me_length = 0x1000, me_type = 1\<rparr> #
     \<lparr>me_base = 0x1000, me_length = 0x7800, me_type = MEMMAP_USABLE\<rparr> #
     replicate 254 \<lparr>me_base = 0, me_length = 0, me_type = 0\<rparr>, entry_count = 2\<rparr>"

theorem init_bitmap_pmm_spec_witness:
  "\<exists>p'. init_bitmap_pmm boot_map_sample (pmm_sample\<lparr>cached_index := 0\<rparr>) = Some (Running p') \<and> pmm_inv p'
     \<and> unat (total_pages p') = 8"
proof -
  let ?e = "\<lparr>me_base = 0x1000, me_length = 0x7800, me_type = MEMMAP_USABLE\<rparr>"
  let ?es = "[\<lparr>me_base = 0, me_length = 0x1000, me_type = 1\<rparr>, ?e]"
  have es: "memmap_entries boot_map_sample = Some ?es"
    by (simp add: memmap_entries_def boot_map_sample_def)
  have ok: "\<forall>e \<in> set ?es. me_type e = MEMMAP_USABLE \<longrightarrow> entry_ok e"
    by (simp add: entry_ok_def MEMMAP_USABLE_def)
  have n: "(8 :: nat) = usable_top ?es 0 div 4096" by (simp add: MEMMAP_USABLE_def)
  have b: "find (fits_bitmap (bitmap_bytes 8)) ?es = Some ?e"
    by (simp add: fits_bitmap_def bitmap_bytes_def MEMMAP_USABLE_def)
  show ?thesis using init_bitmap_pmm_spec [OF es ok _ n, of "pmm_sample\<lparr>cached_index := 0\<rparr>"] b
    by auto
qed

end
