(* ===== verification/Kstate.thy ===== *)
theory Kstate
  imports Pmm
begin

text \<open>
  The memory-management state the kernel's allocators share.

  \<^item> \<open>hhdm\<close> is \<open>kernel_hhdm_offset\<close> of \<^verbatim>\<open>src/kernel/boot/boot.c\<close>: physical memory is visible at
    this offset (\<^verbatim>\<open>src/kernel/mm/address.h\<close>).
  \<^item> \<open>mem\<close> is memory as 64-bit cells, by virtual address: page-table entries and the free-list
    pointer in the first word of a free slab object.
  \<^item> \<open>slabs\<close> holds the \<open>struct slab_t\<close> headers, by the address of the page they head. A header
    occupies the first 32 bytes of its page, which no object or page-table access reaches.
  \<^item> \<open>cache_pool\<close> is the static array of \<open>struct kmem_cache\<close>; a pointer to a cache is its
    index, a null one \<open>None\<close>.
  \<^item> \<open>kernel_pml4\<close> is \<open>kernel_vm_map->page_table->pml4_virt\<close>, 0 before \<open>kernel_vm_map\<close> is set.
\<close>

record slab_t =
  sl_freelist :: u64
  sl_next :: u64
  sl_cache :: nat
  sl_inuse :: u16
  sl_objects :: u16

record kmem_cache =
  kc_size :: u64
  kc_obj_size :: u64
  kc_obj_per_slab :: u64
  kc_partial :: u64
  kc_cpu_freelist :: u64
  kc_cpu_slab :: u64

record kstate =
  hhdm :: u64
  mem :: "u64 \<Rightarrow> u64"
  pmm :: pmm_state
  slabs :: "u64 \<Rightarrow> slab_t"
  cache_pool :: "kmem_cache list"
  cache_pool_idx :: nat
  kernel_pml4 :: u64
  page_table_cache :: "nat option"
  vm_area_cache :: "nat option"
  vm_map_cache :: "nat option"

definition phys_to_higher_half_data :: "kstate \<Rightarrow> u64 \<Rightarrow> u64" where
  "phys_to_higher_half_data s address = hhdm s + address"

definition higher_half_data_to_phys :: "kstate \<Rightarrow> u64 \<Rightarrow> u64" where
  "higher_half_data_to_phys s address = address - hhdm s"

definition kernel_virt_to_phys :: "u64 \<Rightarrow> u64 \<Rightarrow> u64 \<Rightarrow> u64" where
  "kernel_virt_to_phys k_phys k_virt address = k_phys + (address - k_virt)"

definition kernel_phys_to_virt :: "u64 \<Rightarrow> u64 \<Rightarrow> u64 \<Rightarrow> u64" where
  "kernel_phys_to_virt k_phys k_virt address = k_virt + (address - k_phys)"

text \<open>Allocating and freeing a page through the shared state.\<close>

definition k_alloc_page :: "kstate \<Rightarrow> (u64 \<times> kstate) option" where
  "k_alloc_page s =
     do {
       (phys, p) \<leftarrow> pmm_alloc_page (pmm s);
       Some (phys, s\<lparr>pmm := p\<rparr>)
     }"

definition k_free_page :: "kstate \<Rightarrow> u64 \<Rightarrow> kstate option" where
  "k_free_page s phys =
     do {
       p \<leftarrow> pmm_free_page (pmm s) phys;
       Some (s\<lparr>pmm := p\<rparr>)
     }"

definition write_cell :: "kstate \<Rightarrow> u64 \<Rightarrow> u64 \<Rightarrow> kstate" where
  "write_cell s a v = s\<lparr>mem := (mem s)(a := v)\<rparr>"

text \<open>\<open>memset (p, 0, PAGE_SIZE)\<close>.\<close>

definition clear_page :: "kstate \<Rightarrow> u64 \<Rightarrow> kstate" where
  "clear_page s p = s\<lparr>mem := (\<lambda>a. if a - p < PAGE_SIZE then 0 else mem s a)\<rparr>"

lemma address_roundtrip [simp]:
  "higher_half_data_to_phys s (phys_to_higher_half_data s a) = a"
  "phys_to_higher_half_data s (higher_half_data_to_phys s a) = a"
  by (simp_all add: higher_half_data_to_phys_def phys_to_higher_half_data_def)

lemma write_cell_simps [frame_simps]:
  "hhdm (write_cell s a v) = hhdm s" "pmm (write_cell s a v) = pmm s"
  "slabs (write_cell s a v) = slabs s" "cache_pool (write_cell s a v) = cache_pool s"
  "kernel_pml4 (write_cell s a v) = kernel_pml4 s"
  "mem (write_cell s a v) b = (if b = a then v else mem s b)"
  by (simp_all add: write_cell_def)

lemma clear_page_simps [frame_simps]:
  "hhdm (clear_page s p) = hhdm s" "pmm (clear_page s p) = pmm s"
  "slabs (clear_page s p) = slabs s" "cache_pool (clear_page s p) = cache_pool s"
  "kernel_pml4 (clear_page s p) = kernel_pml4 s"
  "mem (clear_page s p) b = (if b - p < PAGE_SIZE then 0 else mem s b)"
  by (simp_all add: clear_page_def)

subsection \<open>The shared state provides the page interface\<close>

definition k_inv :: "kstate \<Rightarrow> bool" where
  "k_inv s \<longleftrightarrow> pmm_inv (pmm s) \<and> unat (hhdm s) mod 4096 = 0 \<and> unat (hhdm s) + 4096 * unat (total_pages (pmm s)) \<le> 2 ^ 64"

definition k_free_set :: "kstate \<Rightarrow> nat set" where
  "k_free_set s = pmm_free_set (pmm s)"

definition k_pages :: "kstate \<Rightarrow> nat" where
  "k_pages s = unat (total_pages (pmm s))"

interpretation kpg: page_allocator k_alloc_page k_free_page k_inv k_free_set k_pages
proof unfold_locales
  fix s k
  assume "k_inv s" "k \<in> k_free_set s"
  then show "0 < k \<and> k < k_pages s"
    using pg.avail_range [of "pmm s" k] by (simp add: k_inv_def k_free_set_def k_pages_def)
next
  fix s
  assume "k_inv s"
  then show "k_pages s \<le> 2 ^ 31"
    using pg.pages_bound [of "pmm s"] by (simp add: k_inv_def k_pages_def)
next
  fix s
  assume "k_inv s" "k_free_set s = {}"
  then show "k_alloc_page s = Some (0, s)"
    using pg.alloc_none [of "pmm s"] by (simp add: k_inv_def k_free_set_def k_alloc_page_def)
next
  fix s
  assume "k_inv s" "k_free_set s \<noteq> {}"
  then show "\<exists>k a s'. k \<in> k_free_set s \<and> k_alloc_page s = Some (a, s') \<and> unat a = 4096 * k
      \<and> k_inv s' \<and> k_pages s' = k_pages s \<and> k_free_set s' = k_free_set s - {k}"
    using pg.alloc_some [of "pmm s"]
    by (fastforce simp: k_inv_def k_free_set_def k_pages_def k_alloc_page_def)
next
  fix s a
  assume "k_inv s" "PAGE_SIZE \<le> a"
  then show "\<exists>s'. k_free_page s a = Some s' \<and> k_inv s' \<and> k_pages s' = k_pages s
      \<and> k_free_set s' = (if unat a div 4096 < k_pages s
           then insert (unat a div 4096) (k_free_set s) else k_free_set s)"
    using pg.free_some [of "pmm s" a]
    by (fastforce simp: k_inv_def k_free_set_def k_pages_def k_free_page_def)
qed

lemma k_alloc_page_frame:
  "k_alloc_page s = Some (a, s') \<Longrightarrow> \<exists>p. s' = s\<lparr>pmm := p\<rparr>"
  by (auto simp: k_alloc_page_def bind_eq_Some_conv)

end
