(* ===== verification/Slab.thy ===== *)
theory Slab
  imports Kstate
begin

text \<open>
  The fixed-size object caches, \<^verbatim>\<open>src/kernel/mm/vm/slab.c\<close> and \<^verbatim>\<open>slab.h\<close>. A slab is one page: a
  header, then objects of the cache's size. Free objects are chained through their first word
  (\<open>get_fp\<close>, \<open>set_fp\<close>). A cache keeps the chain of its active slab in \<open>cpu_freelist\<close> and a list
  of partly free slabs; full slabs are on no list until an object comes back. The default build
  defines \<open>NDEBUG\<close>, so the assertions are no code: what they guard (a null free list, an object
  size no page can hold) is undefined behaviour and yields \<open>None\<close>.
\<close>

text \<open>\<open>sizeof (struct slab_t)\<close> is 32: three pointers, two 16-bit counters and the padding.\<close>

definition SLAB_HDR :: u64 where "SLAB_HDR = ALIGN_UP 32 8"
definition MAX_CACHES :: nat where "MAX_CACHES = 64"

definition get_fp :: "kstate \<Rightarrow> u64 \<Rightarrow> u64" where
  "get_fp s obj = mem s obj"

definition set_fp :: "kstate \<Rightarrow> u64 \<Rightarrow> u64 \<Rightarrow> kstate" where
  "set_fp s obj fp = write_cell s obj fp"

definition get_cache :: "kstate \<Rightarrow> nat \<Rightarrow> kmem_cache option" where
  "get_cache s c = (if c < length (cache_pool s) then Some (cache_pool s ! c) else None)"

definition put_cache :: "kstate \<Rightarrow> nat \<Rightarrow> kmem_cache \<Rightarrow> kstate" where
  "put_cache s c kc = s\<lparr>cache_pool := (cache_pool s)[c := kc]\<rparr>"

definition put_slab :: "kstate \<Rightarrow> u64 \<Rightarrow> slab_t \<Rightarrow> kstate" where
  "put_slab s p sl = s\<lparr>slabs := (slabs s)(p := sl)\<rparr>"

text \<open>The loop that chains objects \<open>i, i + 1, \<dots>\<close> up to \<open>last\<close>, each to its successor.\<close>

function link_objects :: "kstate \<Rightarrow> u64 \<Rightarrow> u64 \<Rightarrow> u64 \<Rightarrow> u64 \<Rightarrow> kstate" where
  "link_objects s start osize i lst =
     (if i < lst then
        link_objects (set_fp s (start + i * osize) (start + (i + 1) * osize)) start osize (i + 1) lst
      else s)"
  by pat_completeness auto
termination
  by (relation "measure (\<lambda>(s, start, osize, i, lst). unat lst - unat i)") auto

declare link_objects.simps [simp del]

definition alloc_new_slab :: "kstate \<Rightarrow> nat \<Rightarrow> (u64 \<times> kstate) option" where
  "alloc_new_slab s c =
     do {
       (phys, s1) \<leftarrow> k_alloc_page s;
       if phys = 0 then Some (0, s1)
       else do {
         kc \<leftarrow> get_cache s1 c;
         let slab = phys_to_higher_half_data s1 phys;
         let n = (PAGE_SIZE - SLAB_HDR) div kc_size kc;
         if kc_size kc = 0 \<or> n = 0 then None
         else do {
           let start = slab + SLAB_HDR;
           let s2 = link_objects s1 start (kc_size kc) 0 (n - 1);
           let s3 = set_fp s2 (start + (n - 1) * kc_size kc) 0;
           let s4 = put_slab s3 slab \<lparr>sl_freelist = start, sl_next = 0, sl_cache = c,
                      sl_inuse = 0, sl_objects = ucast n\<rparr>;
           Some (slab, put_cache s4 c (kc\<lparr>kc_obj_per_slab := n\<rparr>))
         }
       }
     }"

definition refill_take :: "kstate \<Rightarrow> nat \<Rightarrow> u64 \<Rightarrow> (u64 \<times> kstate) option" where
  "refill_take s c slab =
     do {
       kc \<leftarrow> get_cache s c;
       let sl = slabs s slab;
       let obj = sl_freelist sl;
       if obj = 0 then None
       else do {
         let s1 = put_cache s c (kc\<lparr>kc_cpu_freelist := get_fp s obj, kc_cpu_slab := slab\<rparr>);
         Some (obj, put_slab s1 slab (sl\<lparr>sl_freelist := 0, sl_inuse := sl_inuse sl + 1\<rparr>))
       }
     }"

definition refill :: "kstate \<Rightarrow> nat \<Rightarrow> (u64 \<times> kstate) option" where
  "refill s c =
     do {
       kc \<leftarrow> get_cache s c;
       if kc_partial kc = 0 then
         do {
           (slab, s1) \<leftarrow> alloc_new_slab s c;
           if slab = 0 then Some (0, s1) else refill_take s1 c slab
         }
       else
         (let slab = kc_partial kc; sl = slabs s slab;
              s1 = put_cache s c (kc\<lparr>kc_partial := sl_next sl\<rparr>) in
          refill_take (put_slab s1 slab (sl\<lparr>sl_next := 0\<rparr>)) c slab)
     }"

definition kmem_cache_create :: "kstate \<Rightarrow> u64 \<Rightarrow> (nat \<times> kstate) option" where
  "kmem_cache_create s obj_size =
     (let osize = (if obj_size < 8 then 8 else obj_size);
          c = cache_pool_idx s;
          csize = ALIGN_UP osize 8 in
      if length (cache_pool s) \<le> c \<or> csize = 0 then None
      else Some (c, (put_cache s c
        \<lparr>kc_size = csize, kc_obj_size = osize,
         kc_obj_per_slab = (PAGE_SIZE - SLAB_HDR) div csize, kc_partial = 0,
         kc_cpu_freelist = 0, kc_cpu_slab = 0\<rparr>)\<lparr>cache_pool_idx := c + 1\<rparr>))"

definition kmem_cache_alloc :: "kstate \<Rightarrow> nat \<Rightarrow> (u64 \<times> kstate) option" where
  "kmem_cache_alloc s c =
     do {
       kc \<leftarrow> get_cache s c;
       let obj = kc_cpu_freelist kc;
       if obj \<noteq> 0 then
         (let slab = kc_cpu_slab kc; sl = slabs s slab;
              s1 = put_cache s c (kc\<lparr>kc_cpu_freelist := get_fp s obj\<rparr>) in
          if slab = 0 then None
          else Some (obj, put_slab s1 slab (sl\<lparr>sl_inuse := sl_inuse sl + 1\<rparr>)))
       else refill s c
     }"

definition kmem_cache_free :: "kstate \<Rightarrow> nat \<Rightarrow> u64 \<Rightarrow> kstate option" where
  "kmem_cache_free s c obj =
     do {
       kc \<leftarrow> get_cache s c;
       let slab = obj AND NOT (PAGE_SIZE - 1);
       let s0 = put_slab s slab ((slabs s slab)\<lparr>sl_inuse := sl_inuse (slabs s slab) - 1\<rparr>);
       let sl = slabs s0 slab;
       if slab = kc_cpu_slab kc then
         Some (put_cache (set_fp s0 obj (kc_cpu_freelist kc)) c (kc\<lparr>kc_cpu_freelist := obj\<rparr>))
       else
         (let s1 = set_fp s0 obj (sl_freelist sl) in
          if sl_freelist sl = 0 then
            Some (put_cache (put_slab s1 slab (sl\<lparr>sl_freelist := obj, sl_next := kc_partial kc\<rparr>))
                    c (kc\<lparr>kc_partial := slab\<rparr>))
          else Some (put_slab s1 slab (sl\<lparr>sl_freelist := obj\<rparr>)))
     }"

end
