(* ===== verification/Pmap.thy ===== *)
theory Pmap
  imports Slab
begin

text \<open>
  The x86-64 page tables: \<^verbatim>\<open>src/kernel/arch/x86_64/mm/pmap/pmap.c\<close>. A table is a page of 512
  entries; the code reaches it through its higher-half address, so an entry is the cell
  \<open>table + 8 * index\<close> of the shared memory. The \<open>invlpg\<close> and \<open>cr3\<close> instructions act on the
  translation cache only and have no counterpart here.
\<close>

definition PAGE_PRESENT :: u64 where "PAGE_PRESENT = 0x1"
definition PAGE_RW :: u64 where "PAGE_RW = 0x2"
definition PAGE_USER :: u64 where "PAGE_USER = 0x4"
definition PAGE_PWT :: u64 where "PAGE_PWT = 0x8"
definition PAGE_PCD :: u64 where "PAGE_PCD = 0x10"
definition PAGE_XD :: u64 where "PAGE_XD = 0x8000000000000000"
definition PDE_PS :: u64 where "PDE_PS = 0x80"
definition PDPTE_PS :: u64 where "PDPTE_PS = 0x80"
definition PAGE_PHYS_MASK :: u64 where "PAGE_PHYS_MASK = 0x000FFFFFFFFFF000"

definition GET_PML4_IDX :: "u64 \<Rightarrow> u16" where "GET_PML4_IDX v = ucast (drop_bit 39 v AND 0x1ff)"
definition GET_PDPT_IDX :: "u64 \<Rightarrow> u16" where "GET_PDPT_IDX v = ucast (drop_bit 30 v AND 0x1ff)"
definition GET_PD_IDX :: "u64 \<Rightarrow> u16" where "GET_PD_IDX v = ucast (drop_bit 21 v AND 0x1ff)"
definition GET_PT_IDX :: "u64 \<Rightarrow> u16" where "GET_PT_IDX v = ucast (drop_bit 12 v AND 0x1ff)"

definition MMU_FLAG_PRESENT :: u32 where "MMU_FLAG_PRESENT = 0x1"
definition MMU_FLAG_WRITE :: u32 where "MMU_FLAG_WRITE = 0x2"
definition MMU_FLAG_USER :: u32 where "MMU_FLAG_USER = 0x4"
definition MMU_FLAG_NO_EXEC :: u32 where "MMU_FLAG_NO_EXEC = 0x8"
definition MMU_FLAG_UC :: u32 where "MMU_FLAG_UC = 0x10"
definition MMU_FLAG_HUGE_OK :: u32 where "MMU_FLAG_HUGE_OK = 0x20"

record page_table_t =
  pt_addr :: u64
  pml4_virt :: u64
  pml4_phy :: u64

definition read_entry :: "kstate \<Rightarrow> u64 \<Rightarrow> u16 \<Rightarrow> u64" where
  "read_entry s table i = mem s (table + 8 * ucast i)"

definition write_entry :: "kstate \<Rightarrow> u64 \<Rightarrow> u16 \<Rightarrow> u64 \<Rightarrow> kstate" where
  "write_entry s table i e = write_cell s (table + 8 * ucast i) e"

definition get_next_level :: "kstate \<Rightarrow> u64 \<Rightarrow> u16 \<Rightarrow> bool \<Rightarrow> (u64 \<times> kstate) option" where
  "get_next_level s table i allocate =
     (let entry = read_entry s table i in
      if entry AND PAGE_PRESENT \<noteq> 0 then
        (if entry AND PDE_PS \<noteq> 0 \<or> entry AND PDPTE_PS \<noteq> 0 then Some (0, s)
         else Some (phys_to_higher_half_data s (entry AND PAGE_PHYS_MASK), s))
      else if \<not> allocate then Some (0, s)
      else do {
        (next_phys, s1) \<leftarrow> k_alloc_page s;
        if next_phys = 0 then Some (0, s1)
        else
          (let next_virt = phys_to_higher_half_data s1 next_phys;
               s2 = clear_page s1 next_virt in
           Some (next_virt,
                 write_entry s2 table i (next_phys OR PAGE_PRESENT OR PAGE_RW OR PAGE_USER)))
      })"

definition parse_common_flags :: "u32 \<Rightarrow> u64" where
  "parse_common_flags flags =
     (let f0 = PAGE_PRESENT;
          f1 = (if flags AND MMU_FLAG_WRITE \<noteq> 0 then f0 OR PAGE_RW else f0);
          f2 = (if flags AND MMU_FLAG_USER \<noteq> 0 then f1 OR PAGE_USER else f1);
          f3 = (if flags AND MMU_FLAG_UC \<noteq> 0 then (f2 OR PAGE_PCD) AND NOT PAGE_PWT else f2) in
      if flags AND MMU_FLAG_NO_EXEC \<noteq> 0 then f3 OR PAGE_XD else f3)"

definition map_4k :: "kstate \<Rightarrow> u64 \<Rightarrow> u64 \<Rightarrow> u64 \<Rightarrow> u64 \<Rightarrow> (u64 \<times> kstate) option" where
  "map_4k s pml4 virt phys arch_flags =
     do {
       (pdpt, s1) \<leftarrow> get_next_level s pml4 (GET_PML4_IDX virt) True;
       if pdpt = 0 then Some (0, s1)
       else do {
         (pd, s2) \<leftarrow> get_next_level s1 pdpt (GET_PDPT_IDX virt) True;
         if pd = 0 then Some (0, s2)
         else do {
           (pt, s3) \<leftarrow> get_next_level s2 pd (GET_PD_IDX virt) True;
           if pt = 0 then Some (0, s3)
           else Some (PAGE_SIZE, write_entry s3 pt (GET_PT_IDX virt) (phys OR arch_flags))
         }
       }
     }"

definition map_2m :: "kstate \<Rightarrow> u64 \<Rightarrow> u64 \<Rightarrow> u64 \<Rightarrow> u64 \<Rightarrow> (u64 \<times> kstate) option" where
  "map_2m s pml4 virt phys arch_flags =
     do {
       (pdpt, s1) \<leftarrow> get_next_level s pml4 (GET_PML4_IDX virt) True;
       if pdpt = 0 then Some (0, s1)
       else do {
         (pd, s2) \<leftarrow> get_next_level s1 pdpt (GET_PDPT_IDX virt) True;
         if pd = 0 then Some (0, s2)
         else Some (PAGE_SIZE_2M, write_entry s2 pd (GET_PD_IDX virt) (phys OR arch_flags))
       }
     }"

definition map_1g :: "kstate \<Rightarrow> u64 \<Rightarrow> u64 \<Rightarrow> u64 \<Rightarrow> u64 \<Rightarrow> (u64 \<times> kstate) option" where
  "map_1g s pml4 virt phys arch_flags =
     do {
       (pdpt, s1) \<leftarrow> get_next_level s pml4 (GET_PML4_IDX virt) True;
       if pdpt = 0 then Some (0, s1)
       else Some (PAGE_SIZE_1G, write_entry s1 pdpt (GET_PDPT_IDX virt) (phys OR arch_flags))
     }"

definition map_huge_ok ::
  "kstate \<Rightarrow> u64 \<Rightarrow> u64 \<Rightarrow> u64 \<Rightarrow> u64 \<Rightarrow> u64 \<Rightarrow> (u64 \<times> kstate) option" where
  "map_huge_ok s pml4 virt phys arch_flags remain =
     (if phys mod PAGE_SIZE_1G = 0 \<and> virt mod PAGE_SIZE_1G = 0 \<and> PAGE_SIZE_1G \<le> remain then
        map_1g s pml4 virt phys (arch_flags OR PDPTE_PS)
      else if phys mod PAGE_SIZE_2M = 0 \<and> virt mod PAGE_SIZE_2M = 0 \<and> PAGE_SIZE_2M \<le> remain then
        map_2m s pml4 virt phys (arch_flags OR PDE_PS)
      else map_4k s pml4 virt phys arch_flags)"

text \<open>The loop of \<open>pmap_map_range\<close>; \<open>None\<close> also covers "does not return".\<close>

partial_function (option) map_range_loop ::
  "u64 \<Rightarrow> u32 \<Rightarrow> u64 \<Rightarrow> kstate \<Rightarrow> u64 \<Rightarrow> u64 \<Rightarrow> u64 \<Rightarrow> u64 \<Rightarrow> (u64 \<times> kstate) option" where
  "map_range_loop pml4 flags arch_flags s virt phys remain mapped =
     (if 0 < remain then
        Option.bind
          (if flags AND MMU_FLAG_HUGE_OK \<noteq> 0 then map_huge_ok s pml4 virt phys arch_flags remain
           else map_4k s pml4 virt phys arch_flags)
          (\<lambda>r. if fst r = 0 then Some (mapped, snd r)
               else map_range_loop pml4 flags arch_flags (snd r) (virt + fst r) (phys + fst r)
                      (remain - fst r) (mapped + fst r))
      else Some (mapped, s))"

definition pmap_map_range ::
  "kstate \<Rightarrow> page_table_t \<Rightarrow> u64 \<Rightarrow> u64 \<Rightarrow> u32 \<Rightarrow> u64 \<Rightarrow> (u64 \<times> kstate) option" where
  "pmap_map_range s table virt phys flags remain =
     (let arch_flags = parse_common_flags flags;
          start_virt = ALIGN_DOWN virt PAGE_SIZE;
          end_virt = ALIGN_UP (virt + remain) PAGE_SIZE in
      map_range_loop (pml4_virt table) flags arch_flags s start_virt (ALIGN_DOWN phys PAGE_SIZE)
        (end_virt - start_virt) 0)"

definition pmap_map_page ::
  "kstate \<Rightarrow> page_table_t \<Rightarrow> u64 \<Rightarrow> u64 \<Rightarrow> u32 \<Rightarrow> (u64 \<times> kstate) option" where
  "pmap_map_page s table virt phys flags =
     map_4k s (pml4_virt table) (ALIGN_DOWN virt PAGE_SIZE) (ALIGN_DOWN phys PAGE_SIZE)
       (parse_common_flags flags)"

definition pmap_unmap_page :: "kstate \<Rightarrow> page_table_t \<Rightarrow> u64 \<Rightarrow> (u64 \<times> kstate) option" where
  "pmap_unmap_page s table virt =
     do {
       (pdpt, s1) \<leftarrow> get_next_level s (pml4_virt table) (GET_PML4_IDX virt) False;
       if pdpt = 0 then Some (0, s1)
       else do {
         (pd, s2) \<leftarrow> get_next_level s1 pdpt (GET_PDPT_IDX virt) False;
         if pd = 0 then Some (0, s2)
         else do {
           (pt, s3) \<leftarrow> get_next_level s2 pd (GET_PD_IDX virt) False;
           if pt = 0 then Some (0, s3)
           else
             Some (read_entry s3 pt (GET_PT_IDX virt) AND PAGE_PHYS_MASK,
                   write_entry s3 pt (GET_PT_IDX virt) 0)
         }
       }
     }"

text \<open>
  Creating an address space: the table structure comes from a slab cache (16 bytes: the
  higher-half and the physical address of the PML4), the PML4 from the page allocator, and the
  kernel half of the PML4 from the kernel's own table, when there is one.
\<close>

function copy_kernel_half :: "kstate \<Rightarrow> u64 \<Rightarrow> u64 \<Rightarrow> u64 \<Rightarrow> kstate" where
  "copy_kernel_half s dst src i =
     (if i < 512 then copy_kernel_half (write_cell s (dst + 8 * i) (mem s (src + 8 * i))) dst src (i + 1)
      else s)"
  by pat_completeness auto
termination by (relation "measure (\<lambda>(s, dst, src, i). 512 - unat i)") auto

declare copy_kernel_half.simps [simp del]

definition pmap_copy_kernel_mappings :: "kstate \<Rightarrow> page_table_t \<Rightarrow> kstate" where
  "pmap_copy_kernel_mappings s table =
     (if kernel_pml4 s = 0 then s else copy_kernel_half s (pml4_virt table) (kernel_pml4 s) 256)"

definition ensure_page_table_cache :: "kstate \<Rightarrow> (nat \<times> kstate) option" where
  "ensure_page_table_cache s =
     (case page_table_cache s of
        Some c \<Rightarrow> Some (c, s)
      | None \<Rightarrow> do {
          (c, s1) \<leftarrow> kmem_cache_create s 16;
          Some (c, s1\<lparr>page_table_cache := Some c\<rparr>)
        })"

definition pmap_create_table :: "kstate \<Rightarrow> (page_table_t option \<times> kstate) option" where
  "pmap_create_table s =
     do {
       (c, s0) \<leftarrow> ensure_page_table_cache s;
       (phys, s1) \<leftarrow> k_alloc_page s0;
       if phys = 0 then Some (None, s1)
       else do {
         let virt = phys_to_higher_half_data s1 phys;
         let s2 = clear_page s1 virt;
         let s3 = (if kernel_pml4 s2 = 0 then s2 else copy_kernel_half s2 virt (kernel_pml4 s2) 256);
         (table, s4) \<leftarrow> kmem_cache_alloc s3 c;
         if table = 0 then do {
           s5 \<leftarrow> k_free_page s4 phys;
           Some (None, s5)
         }
         else
           Some (Some \<lparr>pt_addr = table, pml4_virt = virt, pml4_phy = phys\<rparr>,
                 write_cell (write_cell s4 table virt) (table + 8) phys)
       }
     }"

text \<open>Destroying one frees the table pages of the user half, level by level.\<close>

function free_pd_entries :: "kstate \<Rightarrow> u64 \<Rightarrow> u64 \<Rightarrow> kstate option" where
  "free_pd_entries s pd k =
     (if k < 512 then
        (let e = mem s (pd + 8 * k) in
         if e AND PAGE_PRESENT = 0 then free_pd_entries s pd (k + 1)
         else Option.bind (k_free_page s (e AND PAGE_PHYS_MASK)) (\<lambda>s1. free_pd_entries s1 pd (k + 1)))
      else Some s)"
  by pat_completeness auto
termination by (relation "measure (\<lambda>(s, pd, k). 512 - unat k)") auto

declare free_pd_entries.simps [simp del]

function free_pdpt_entries :: "kstate \<Rightarrow> u64 \<Rightarrow> u64 \<Rightarrow> kstate option" where
  "free_pdpt_entries s pdpt j =
     (if j < 512 then
        (let e = mem s (pdpt + 8 * j) in
         if e AND PAGE_PRESENT = 0 then free_pdpt_entries s pdpt (j + 1)
         else
           Option.bind (free_pd_entries s (phys_to_higher_half_data s (e AND PAGE_PHYS_MASK)) 0)
             (\<lambda>s1. Option.bind (k_free_page s1 (mem s1 (pdpt + 8 * j) AND PAGE_PHYS_MASK))
               (\<lambda>s2. free_pdpt_entries s2 pdpt (j + 1))))
      else Some s)"
  by pat_completeness auto
termination by (relation "measure (\<lambda>(s, pdpt, j). 512 - unat j)") auto

declare free_pdpt_entries.simps [simp del]

function free_pml4_entries :: "kstate \<Rightarrow> u64 \<Rightarrow> u64 \<Rightarrow> kstate option" where
  "free_pml4_entries s pml4 i =
     (if i < 256 then
        (let e = mem s (pml4 + 8 * i) in
         if e AND PAGE_PRESENT = 0 then free_pml4_entries s pml4 (i + 1)
         else
           Option.bind (free_pdpt_entries s (phys_to_higher_half_data s (e AND PAGE_PHYS_MASK)) 0)
             (\<lambda>s1. Option.bind (k_free_page s1 (mem s1 (pml4 + 8 * i) AND PAGE_PHYS_MASK))
               (\<lambda>s2. free_pml4_entries s2 pml4 (i + 1))))
      else Some s)"
  by pat_completeness auto
termination by (relation "measure (\<lambda>(s, pml4, i). 256 - unat i)") auto

declare free_pml4_entries.simps [simp del]

definition pmap_destroy_table :: "kstate \<Rightarrow> page_table_t option \<Rightarrow> kstate option" where
  "pmap_destroy_table s t =
     (case t of
        None \<Rightarrow> Some s
      | Some table \<Rightarrow> do {
          s1 \<leftarrow> free_pml4_entries s (pml4_virt table) 0;
          s2 \<leftarrow> k_free_page s1 (pml4_phy table);
          c \<leftarrow> page_table_cache s2;
          kmem_cache_free s2 c (pt_addr table)
        })"

end
