(* ===== verification/Vm_Map.thy ===== *)
theory Vm_Map
  imports Pmap
begin

text \<open>
  Virtual memory maps: \<^verbatim>\<open>src/kernel/mm/vm/vm_map.c\<close>, \<^verbatim>\<open>vm_map.h\<close>, \<^verbatim>\<open>vm_area.h\<close>. A map owns a page
  table and a list of areas. The list is the C list \<open>space->areas\<close>; an area is a record with the
  address of the slab object that holds it. A segmentation fault of the kernel halts, one of a
  user task ends the task; log output is not part of the state.
\<close>

definition VM_ALLOC_BASE :: u64 where "VM_ALLOC_BASE = 0x1000"

record vm_area =
  va_addr :: u64
  va_start :: u64
  va_end :: u64
  va_flags :: u32

record vm_map =
  vm_addr :: u64
  vm_pt :: page_table_t
  areas :: "vm_area list"

definition vma_alloc ::
  "kstate \<Rightarrow> u64 \<Rightarrow> u64 \<Rightarrow> u32 \<Rightarrow> (vm_area option \<times> kstate) option" where
  "vma_alloc s st en flags =
     do {
       c \<leftarrow> vm_area_cache s;
       (vma, s1) \<leftarrow> kmem_cache_alloc s c;
       if vma = 0 then Some (None, s1)
       else Some (Some \<lparr>va_addr = vma, va_start = st, va_end = en, va_flags = flags\<rparr>, s1)
     }"

fun vma_overlaps :: "vm_area list \<Rightarrow> u64 \<Rightarrow> u64 \<Rightarrow> bool" where
  "vma_overlaps [] st sz = False"
| "vma_overlaps (vma # vs) st sz =
     (if st < va_end vma \<and> va_start vma < st + sz then True else vma_overlaps vs st sz)"

fun insert_vma :: "vm_area list \<Rightarrow> vm_area \<Rightarrow> vm_area list" where
  "insert_vma [] new = [new]"
| "insert_vma (vma # vs) new =
     (if va_start vma < va_start new then vma # insert_vma vs new else new # vma # vs)"

definition init_vm :: "kstate \<Rightarrow> kstate option" where
  "init_vm s =
     do {
       s1 \<leftarrow> (case vm_area_cache s of
                Some _ \<Rightarrow> Some s
              | None \<Rightarrow> do {
                  (c, s') \<leftarrow> kmem_cache_create s 48;
                  Some (s'\<lparr>vm_area_cache := Some c\<rparr>)
                });
       case vm_map_cache s1 of
         Some _ \<Rightarrow> Some s1
       | None \<Rightarrow> do {
           (c, s') \<leftarrow> kmem_cache_create s1 16;
           Some (s'\<lparr>vm_map_cache := Some c\<rparr>)
         }
     }"

definition vm_map_create :: "kstate \<Rightarrow> (vm_map option \<times> kstate) option" where
  "vm_map_create s =
     do {
       c \<leftarrow> vm_map_cache s;
       (space, s1) \<leftarrow> kmem_cache_alloc s c;
       if space = 0 then Some (None, s1)
       else do {
         (table, s2) \<leftarrow> pmap_create_table s1;
         case table of
           None \<Rightarrow> do {
             s3 \<leftarrow> kmem_cache_free s2 c space;
             Some (None, s3)
           }
         | Some t \<Rightarrow>
             Some (Some \<lparr>vm_addr = space, vm_pt = t, areas = []\<rparr>, pmap_copy_kernel_mappings s2 t)
       }
     }"

text \<open>The loop over the pages of a range; \<open>None\<close> also covers "does not return".\<close>

partial_function (option) unmap_range :: "page_table_t \<Rightarrow> u64 \<Rightarrow> u64 \<Rightarrow> kstate \<Rightarrow> kstate option" where
  "unmap_range t va en s =
     (if va < en then
        do {
          (pa, s1) \<leftarrow> pmap_unmap_page s t va;
          s2 \<leftarrow> (if pa \<noteq> 0 then k_free_page s1 pa else Some s1);
          unmap_range t (va + 0x1000) en s2
        }
      else Some s)"

fun destroy_areas :: "page_table_t \<Rightarrow> vm_area list \<Rightarrow> kstate \<Rightarrow> kstate option" where
  "destroy_areas t [] s = Some s"
| "destroy_areas t (vma # vs) s =
     do {
       s1 \<leftarrow> unmap_range t (va_start vma) (va_end vma) s;
       c \<leftarrow> vm_area_cache s1;
       s2 \<leftarrow> kmem_cache_free s1 c (va_addr vma);
       destroy_areas t vs s2
     }"

definition vm_map_destroy :: "kstate \<Rightarrow> vm_map option \<Rightarrow> kstate option" where
  "vm_map_destroy s space =
     (case space of
        None \<Rightarrow> Some s
      | Some m \<Rightarrow> do {
          s1 \<leftarrow> destroy_areas (vm_pt m) (areas m) s;
          s2 \<leftarrow> pmap_destroy_table s1 (Some (vm_pt m));
          c \<leftarrow> vm_map_cache s2;
          kmem_cache_free s2 c (vm_addr m)
        })"

definition vm_map_allocate_region ::
  "kstate \<Rightarrow> vm_map \<Rightarrow> u64 \<Rightarrow> u64 \<Rightarrow> u32 \<Rightarrow> (u64 \<times> vm_map \<times> kstate) option" where
  "vm_map_allocate_region s space st sz flags =
     (let sz = ALIGN_UP sz PAGE_SIZE in
      if vma_overlaps (areas space) st sz then Some (0, space, s)
      else do {
        (vma, s1) \<leftarrow> vma_alloc s st (st + sz) flags;
        case vma of
          None \<Rightarrow> Some (0, space, s1)
        | Some v \<Rightarrow> Some (va_start v, space\<lparr>areas := insert_vma (areas space) v\<rparr>, s1)
      })"

text \<open>The search for a gap.\<close>

fun find_gap :: "vm_area list \<Rightarrow> u64 \<Rightarrow> u64 \<Rightarrow> u64" where
  "find_gap [] sz candidate = candidate"
| "find_gap (vma # vs) sz candidate =
     (if candidate + sz \<le> va_start vma then candidate
      else find_gap vs sz (if candidate < va_end vma then va_end vma else candidate))"

definition vm_map_allocate ::
  "kstate \<Rightarrow> vm_map option \<Rightarrow> u64 \<Rightarrow> u32 \<Rightarrow> (u64 \<times> vm_map option \<times> kstate) option" where
  "vm_map_allocate s space sz flags =
     (case space of
        None \<Rightarrow> Some (0, None, s)
      | Some m \<Rightarrow>
          if sz = 0 then Some (0, Some m, s)
          else
            (let sz = ALIGN_UP sz PAGE_SIZE;
                 candidate = find_gap (areas m) sz VM_ALLOC_BASE in
             do {
               (r, m', s') \<leftarrow> vm_map_allocate_region s m candidate sz flags;
               if r = 0 then Some (0, Some m', s') else Some (candidate, Some m', s')
             }))"

fun vm_map_lookup :: "vm_area list \<Rightarrow> u64 \<Rightarrow> vm_area option" where
  "vm_map_lookup [] addr = None"
| "vm_map_lookup (vma # vs) addr =
     (if va_start vma \<le> addr \<and> addr < va_end vma then Some vma else vm_map_lookup vs addr)"

text \<open>The second loop of \<open>vm_map_free_region\<close>: cut \<open>[st, en)\<close> out of the areas.\<close>

fun cut_areas :: "u64 \<Rightarrow> u64 \<Rightarrow> vm_area list \<Rightarrow> kstate \<Rightarrow> (vm_area list \<times> kstate) option" where
  "cut_areas st en [] s = Some ([], s)"
| "cut_areas st en (vma # vs) s =
     (if va_end vma \<le> st \<or> en \<le> va_start vma then
        do { (rest, s1) \<leftarrow> cut_areas st en vs s; Some (vma # rest, s1) }
      else if st \<le> va_start vma \<and> va_end vma \<le> en then
        do {
          c \<leftarrow> vm_area_cache s;
          s1 \<leftarrow> kmem_cache_free s c (va_addr vma);
          cut_areas st en vs s1
        }
      else if va_start vma < st \<and> en < va_end vma then
        do {
          (tail, s1) \<leftarrow> vma_alloc s en (va_end vma) (va_flags vma);
          (rest, s2) \<leftarrow> cut_areas st en vs s1;
          Some (case tail of
                  Some t \<Rightarrow> (vma\<lparr>va_end := st\<rparr> # t # rest, s2)
                | None \<Rightarrow> (vma\<lparr>va_end := st\<rparr> # rest, s2))
        }
      else if va_start vma < st then
        do { (rest, s1) \<leftarrow> cut_areas st en vs s; Some (vma\<lparr>va_end := st\<rparr> # rest, s1) }
      else
        do { (rest, s1) \<leftarrow> cut_areas st en vs s; Some (vma\<lparr>va_start := en\<rparr> # rest, s1) })"

definition vm_map_free_region ::
  "kstate \<Rightarrow> vm_map option \<Rightarrow> u64 \<Rightarrow> u64 \<Rightarrow> (vm_map option \<times> kstate) option" where
  "vm_map_free_region s space st sz =
     (case space of
        None \<Rightarrow> Some (None, s)
      | Some m \<Rightarrow>
          if sz = 0 then Some (Some m, s)
          else
            (let sz = (sz + 0xFFF) AND NOT 0xFFF; en = st + sz in
             do {
               s1 \<leftarrow> unmap_range (vm_pt m) st en s;
               (as, s2) \<leftarrow> cut_areas st en (areas m) s1;
               Some (Some (m\<lparr>areas := as\<rparr>), s2)
             }))"

datatype fault_result = Resolved | Segfault_task_exit

definition segfault :: "u32 \<Rightarrow> kstate \<Rightarrow> (fault_result \<times> kstate) outcome" where
  "segfault error_code s =
     (if error_code AND 0x4 = 0 then Halted else Running (Segfault_task_exit, s))"

definition vm_fault_handler ::
  "kstate \<Rightarrow> vm_map \<Rightarrow> u64 \<Rightarrow> u32 \<Rightarrow> (fault_result \<times> kstate) outcome option" where
  "vm_fault_handler s space fault_address error_code =
     (case vm_map_lookup (areas space) fault_address of
        None \<Rightarrow> Some (segfault error_code s)
      | Some vma \<Rightarrow>
          if fault_address < va_start vma \<or> va_end vma \<le> fault_address then
            Some (segfault error_code s)
          else if error_code AND 0x1 = 0 then
            (let va = fault_address AND NOT 0xFFF in
             case vm_map_lookup (areas space) va of
               None \<Rightarrow> Some (segfault error_code s)
             | Some vma' \<Rightarrow> do {
                 (pa, s1) \<leftarrow> k_alloc_page s;
                 if pa = 0 then Some (segfault error_code s1)
                 else do {
                   let s2 = clear_page s1 (phys_to_higher_half_data s1 pa);
                   (_, s3) \<leftarrow> pmap_map_page s2 (vm_pt space) va pa (va_flags vma');
                   Some (Running (Resolved, s3))
                 }
               })
          else Some (Running (Resolved, s)))"

text \<open>
  The areas of a user task, \<^verbatim>\<open>src/kernel/arch/x86_64/sched/task.c\<close>: the code area is put in front
  of the list and then the stack area in front of that.
\<close>

definition map_user_vm_area_code_and_stack :: "u64 \<Rightarrow> u64 \<Rightarrow> vm_area list \<Rightarrow> vm_area list" where
  "map_user_vm_area_code_and_stack code stack vs =
     (let code_area = \<lparr>va_addr = code, va_start = 0x1000, va_end = 0x1000 + 2 * PAGE_SIZE,
            va_flags = MMU_FLAG_USER OR MMU_FLAG_PRESENT\<rparr>;
          stack_area = \<lparr>va_addr = stack, va_start = 0x3000, va_end = 0x5000,
            va_flags = MMU_FLAG_USER OR MMU_FLAG_WRITE OR MMU_FLAG_PRESENT\<rparr> in
      stack_area # code_area # vs)"

end
