(* ===== verification/Slab_Layout.thy ===== *)
theory Slab_Layout
  imports Slab
begin

definition slab_objects :: "u64 \<Rightarrow> nat" where
  "slab_objects sz = 4064 div unat sz"

definition obj_at :: "u64 \<Rightarrow> u64 \<Rightarrow> nat \<Rightarrow> u64" where
  "obj_at slab sz i = slab + SLAB_HDR + of_nat i * sz"

definition slab_page :: "u64 \<Rightarrow> bool" where
  "slab_page slab \<longleftrightarrow> slab \<noteq> 0 \<and> unat slab mod 4096 = 0"

definition objs :: "u64 \<Rightarrow> u64 \<Rightarrow> u64 set" where
  "objs sz slab = obj_at slab sz ` {..<slab_objects sz}"

definition good_size :: "u64 \<Rightarrow> bool" where
  "good_size sz \<longleftrightarrow> 8 \<le> unat sz \<and> unat sz \<le> 4064 \<and> 8 dvd unat sz"

lemma SLAB_HDR_eq [simp]: "SLAB_HDR = 32" by (simp add: SLAB_HDR_def ALIGN_UP_def)

lemma slab_objects_bound: "slab_objects sz * unat sz \<le> 4064"
  by (simp add: slab_objects_def div_times_less_eq_dividend)

lemma slab_page_room:
  assumes "slab_page slab" shows "unat slab + 4096 \<le> 2 ^ 64"
proof -
  obtain k where "unat slab = 4096 * k" using assms by (auto simp: slab_page_def)
  moreover have "unat slab < 2 ^ 64" using unsigned_less [of slab] by simp
  ultimately show ?thesis by simp
qed

lemma unat_obj_at:
  assumes "slab_page slab" "i < slab_objects sz"
  shows "unat (obj_at slab sz i) = unat slab + 32 + i * unat sz" "i * unat sz + unat sz \<le> 4064"
proof -
  have "Suc i * unat sz \<le> slab_objects sz * unat sz" using assms(2) by (intro mult_le_mono1) simp
  then show b: "i * unat sz + unat sz \<le> 4064" using slab_objects_bound [of sz] by simp
  have r: "unat slab + 4096 \<le> 2 ^ 64" by (rule slab_page_room [OF assms(1)])
  have "obj_at slab sz i = of_nat (unat slab + 32 + i * unat sz)" by (simp add: obj_at_def)
  moreover have "unat slab + 32 + i * unat sz < 2 ^ LENGTH(64)"
    using r b assms(2) by (cases "unat sz") (simp_all add: slab_objects_def)
  ultimately show "unat (obj_at slab sz i) = unat slab + 32 + i * unat sz"
    by (metis of_nat_inverse)
qed

lemma unat_page_of: "unat (a AND NOT (PAGE_SIZE - 1) :: u64) = unat a - unat a mod 4096"
  using unat_ALIGN_DOWN_page [of a] by (simp add: ALIGN_DOWN_def)

lemma page_of_obj_at:
  assumes "slab_page slab" "i < slab_objects sz" "0 < unat sz"
  shows "obj_at slab sz i AND NOT (PAGE_SIZE - 1) = slab"
proof -
  have "unat slab mod 4096 = 0" using assms(1) by (simp add: slab_page_def)
  then obtain k where k: "unat slab = 4096 * k" by auto
  define d where "d = 32 + i * unat sz"
  have "d < 4096" using unat_obj_at(2) [OF assms(1,2)] assms(3) by (simp add: d_def)
  moreover have u: "unat (obj_at slab sz i) = 4096 * k + d"
    using unat_obj_at(1) [OF assms(1,2)] k by (simp add: d_def)
  ultimately have "unat (obj_at slab sz i AND NOT (PAGE_SIZE - 1)) = unat slab"
    unfolding unat_page_of u k by simp
  then show ?thesis by (simp only: word_unat_eq_iff)
qed

lemma obj_at_inj:
  assumes "slab_page slab" "i < slab_objects sz" "j < slab_objects sz" "0 < unat sz"
    "obj_at slab sz i = obj_at slab sz j"
  shows "i = j"
proof -
  have "i * unat sz = j * unat sz"
    using unat_obj_at(1) [OF assms(1,2)] unat_obj_at(1) [OF assms(1,3)] unfolding assms(5) by linarith
  then show ?thesis using assms(4) by (simp only: mult_cancel2) simp
qed

lemma obj_at_nonzero: "slab_page slab \<Longrightarrow> i < slab_objects sz \<Longrightarrow> obj_at slab sz i \<noteq> 0"
  using unat_obj_at(1) [of slab i sz] by auto

lemma obj_at_aligned:
  assumes "slab_page slab" "i < slab_objects sz" "8 dvd unat sz"
  shows "8 dvd unat (obj_at slab sz i)"
proof -
  have "(4096 :: nat) dvd unat slab" using assms(1) by (simp add: slab_page_def mod_eq_0_iff_dvd)
  then have "8 dvd unat slab" by (rule dvd_trans [rotated]) simp
  then show ?thesis by (simp add: unat_obj_at(1) [OF assms(1,2)] assms(3))
qed

lemma objs_disjoint:
  assumes "slab_page a" "slab_page b" "0 < unat sz" "x \<in> objs sz a" "0 < unat sz'" "x \<in> objs sz' b"
  shows "a = b"
proof -
  from assms(4,6) obtain i j where "i < slab_objects sz" "x = obj_at a sz i"
      "j < slab_objects sz'" "x = obj_at b sz' j" by (auto simp: objs_def)
  then show ?thesis
    using page_of_obj_at [OF assms(1) _ assms(3)] page_of_obj_at [OF assms(2) _ assms(5)] by metis
qed

text \<open>Two objects of a slab do not overlap.\<close>

lemma objs_apart:
  assumes "slab_page a" "slab_page b" "0 < unat sz" "x \<in> objs sz a" "y \<in> objs sz b" "unat x < unat y"
  shows "unat x + unat sz \<le> unat y"
proof -
  obtain i j where i: "x = obj_at a sz i" "i < slab_objects sz"
    and j: "y = obj_at b sz j" "j < slab_objects sz" using assms(4,5) by (auto simp: objs_def)
  note ui = unat_obj_at [OF assms(1) i(2)] and uj = unat_obj_at [OF assms(2) j(2)]
  show ?thesis
  proof (cases "a = b")
    case True
    have "i * unat sz < j * unat sz"
      using assms(6) ui(1) uj(1) unfolding i(1) j(1) True by linarith
    then have "i < j" by simp
    then have "Suc i * unat sz \<le> j * unat sz" by (intro mult_le_mono1) simp
    then show ?thesis using ui(1) uj(1) unfolding i(1) j(1) True by simp
  next
    case False
    then have ne: "unat a \<noteq> unat b" by (simp only: word_unat_eq_iff) simp
    obtain k l where kl: "unat a = 4096 * k" "unat b = 4096 * l"
      using assms(1,2) by (metis slab_page_def mod_eq_0_iff_dvd dvdE)
    have "k \<noteq> l" using ne kl by simp
    moreover have "\<not> l < k"
    proof
      assume "l < k"
      then have "4096 * l + 4096 \<le> 4096 * k" by simp
      then show False
        using assms(3,6) ui uj kl unfolding i(1) j(1) by linarith
    qed
    ultimately have "unat a + 4096 \<le> unat b" using kl by simp
    then show ?thesis using ui uj assms(3) unfolding i(1) j(1) by linarith
  qed
qed


text \<open>A free list: the objects chained through their first word from a start pointer.\<close>

fun chain :: "(u64 \<Rightarrow> u64) \<Rightarrow> u64 \<Rightarrow> u64 list \<Rightarrow> bool" where
  "chain m p [] \<longleftrightarrow> p = 0"
| "chain m p (x # xs) \<longleftrightarrow> p = x \<and> x \<noteq> 0 \<and> chain m (m x) xs"

lemma chain_cong: "(\<And>x. x \<in> set xs \<Longrightarrow> m x = m' x) \<Longrightarrow> chain m p xs = chain m' p xs"
  by (induction xs arbitrary: p) auto

lemma chain_update [simp]: "a \<notin> set xs \<Longrightarrow> chain (m(a := v)) p xs = chain m p xs"
  by (rule chain_cong) auto

lemma chain_null [simp]: "chain m 0 xs \<longleftrightarrow> xs = []"
  by (cases xs) auto

lemma chain_nonnull: "p \<noteq> 0 \<Longrightarrow> chain m p xs \<longleftrightarrow> (\<exists>ys. xs = p # ys \<and> chain m (m p) ys)"
  by (cases xs) auto

lemma chain_unique: "chain m p xs \<Longrightarrow> chain m p ys \<Longrightarrow> xs = ys"
  by (induction xs arbitrary: p ys) (auto simp: chain_nonnull)

lemma link_objects_mem: "\<exists>m. link_objects s st z i l = s\<lparr>mem := m\<rparr>"
proof (induction s st z i l rule: link_objects.induct)
  case (1 s st z i l)
  then show ?case
    by (subst link_objects.simps) (auto simp: set_fp_def write_cell_def intro: exI [of _ "mem s"])
qed

lemma link_objects_frame:
  "hhdm (link_objects s st z i l) = hhdm s" "pmm (link_objects s st z i l) = pmm s"
  "slabs (link_objects s st z i l) = slabs s"
  "cache_pool (link_objects s st z i l) = cache_pool s"
  "cache_pool_idx (link_objects s st z i l) = cache_pool_idx s"
  "kernel_pml4 (link_objects s st z i l) = kernel_pml4 s"
  "page_table_cache (link_objects s st z i l) = page_table_cache s"
  "vm_area_cache (link_objects s st z i l) = vm_area_cache s"
  "vm_map_cache (link_objects s st z i l) = vm_map_cache s"
  using link_objects_mem [of s st z i l] by auto

lemma mem_link_objects:
  assumes "\<And>j k. unat i \<le> j \<Longrightarrow> j < unat l \<Longrightarrow> unat i \<le> k \<Longrightarrow> k < unat l \<Longrightarrow>
      st + of_nat j * z = st + of_nat k * z \<Longrightarrow> j = k"
  shows "(\<forall>j. unat i \<le> j \<and> j < unat l \<longrightarrow>
            mem (link_objects s st z i l) (st + of_nat j * z) = st + of_nat (Suc j) * z)
    \<and> (\<forall>a. (\<forall>j. unat i \<le> j \<and> j < unat l \<longrightarrow> a \<noteq> st + of_nat j * z) \<longrightarrow>
            mem (link_objects s st z i l) a = mem s a)"
  using assms
proof (induction s st z i l rule: link_objects.induct)
  case (1 s st z i l)
  show ?case
  proof (cases "i < l")
    case False
    then show ?thesis
      by (subst (1 2) link_objects.simps) (auto simp: word_less_nat_alt)
  next
    case True
    have ui: "unat (i + 1) = Suc (unat i)" using True by (rule unat_Suc_less)
    have oi: "of_nat (unat i) = i" by simp
    define s1 where "s1 = set_fp s (st + i * z) (st + (i + 1) * z)"
    have eq: "link_objects s st z i l = link_objects s1 st z (i + 1) l"
      by (subst link_objects.simps) (simp add: True s1_def)
    have IH: "(\<forall>j. Suc (unat i) \<le> j \<and> j < unat l \<longrightarrow>
            mem (link_objects s1 st z (i + 1) l) (st + of_nat j * z) = st + of_nat (Suc j) * z)
      \<and> (\<forall>a. (\<forall>j. Suc (unat i) \<le> j \<and> j < unat l \<longrightarrow> a \<noteq> st + of_nat j * z) \<longrightarrow>
            mem (link_objects s1 st z (i + 1) l) a = mem s1 a)"
      using 1(1) [OF True] 1(2) unfolding ui s1_def by (meson Suc_leD)
    have il: "unat i < unat l" using True by (simp add: word_less_nat_alt)
    have fresh: "\<forall>j. Suc (unat i) \<le> j \<and> j < unat l \<longrightarrow> st + i * z \<noteq> st + of_nat j * z"
      using 1(2) [of "unat i"] il oi by (metis Suc_le_eq less_imp_le less_irrefl order_refl)
    have at_i: "mem (link_objects s1 st z (i + 1) l) (st + i * z) = st + (i + 1) * z"
      using IH fresh by (simp add: s1_def set_fp_def write_cell_simps)
    show ?thesis unfolding eq
    proof (intro conjI allI impI)
      fix j assume j: "unat i \<le> j \<and> j < unat l"
      show "mem (link_objects s1 st z (i + 1) l) (st + of_nat j * z) = st + of_nat (Suc j) * z"
      proof (cases "j = unat i")
        case True
        then show ?thesis using at_i by (simp add: add.commute)
      next
        case False
        then show ?thesis using IH j by simp
      qed
    next
      fix a assume a: "\<forall>j. unat i \<le> j \<and> j < unat l \<longrightarrow> a \<noteq> st + of_nat j * z"
      then have "a \<noteq> st + i * z" using il oi by auto
      with a IH show "mem (link_objects s1 st z (i + 1) l) a = mem s a"
        by (simp add: s1_def set_fp_def write_cell_simps)
    qed
  qed
qed

text \<open>The chain a fresh slab starts with: all its objects, in address order.\<close>

lemma chain_upt:
  assumes "\<And>j. i \<le> j \<Longrightarrow> j < n \<Longrightarrow> m (f j) = (if Suc j = n then 0 else f (Suc j))"
    "\<And>j. i \<le> j \<Longrightarrow> j < n \<Longrightarrow> f j \<noteq> 0" "i < n"
  shows "chain m (f i) (map f [i..<n])"
  using assms
proof (induction "n - i" arbitrary: i)
  case 0
  then show ?case by simp
next
  case (Suc d)
  show ?case
  proof (cases "Suc i = n")
    case True
    then show ?thesis using Suc.prems(1) [of i] Suc.prems(2) [of i] by (simp add: upt_rec)
  next
    case False
    with Suc have "Suc i < n" by simp
    moreover have "chain m (f (Suc i)) (map f [Suc i..<n])"
      using Suc.hyps(2) Suc.prems False by (intro Suc.hyps(1)) auto
    ultimately show ?thesis using Suc.prems by (subst upt_rec) auto
  qed
qed

end
