(* ===== verification/Slab_Inv.thy ===== *)
theory Slab_Inv
  imports Slab_Layout
begin

text \<open>
  The representation invariant of a slab cache and what creating, filling and refilling slabs do
  to it. \<open>S\<close> is the set of slabs the cache owns (full slabs are on no list, so the code itself
  cannot name it), \<open>fl\<close> the free objects of each slab in list order and \<open>ps\<close> the partial list.
\<close>

definition page_no :: "kstate \<Rightarrow> u64 \<Rightarrow> nat" where
  "page_no s a = (unat a - unat (hhdm s)) div 4096"

text \<open>\<open>a\<close> is the higher-half address of an allocated page.\<close>

definition used_page :: "kstate \<Rightarrow> u64 \<Rightarrow> bool" where
  "used_page s a \<longleftrightarrow> unat a = unat (hhdm s) + 4096 * page_no s a \<and> 0 < page_no s a
     \<and> page_no s a < k_pages s \<and> page_no s a \<notin> k_free_set s"

definition slab_ok :: "kstate \<Rightarrow> nat \<Rightarrow> u64 \<Rightarrow> u64 \<Rightarrow> u64 list \<Rightarrow> bool" where
  "slab_ok s c z a l \<longleftrightarrow> slab_page a \<and> used_page s a \<and> distinct l \<and> set l \<subseteq> objs z a
     \<and> sl_cache (slabs s a) = c \<and> unat (sl_objects (slabs s a)) = slab_objects z
     \<and> unat (sl_inuse (slabs s a)) + length l = slab_objects z"

definition cache_rep_but ::
  "u64 set \<Rightarrow> kstate \<Rightarrow> nat \<Rightarrow> u64 set \<Rightarrow> (u64 \<Rightarrow> u64 list) \<Rightarrow> u64 list \<Rightarrow> bool" where
  "cache_rep_but X s c S fl ps \<longleftrightarrow>
     c < length (cache_pool s) \<and> finite S \<and>
     (let kc = cache_pool s ! c; z = kc_size kc; cpu = kc_cpu_slab kc in
      good_size z \<and> (\<forall>a\<in>S. slab_ok s c z a (fl a)) \<and>
      (if cpu = 0 then kc_cpu_freelist kc = 0
       else cpu \<in> S \<and> chain (mem s) (kc_cpu_freelist kc) (fl cpu)
            \<and> sl_freelist (slabs s cpu) = 0) \<and>
      (\<forall>a\<in>S. a \<noteq> cpu \<longrightarrow> chain (mem s) (sl_freelist (slabs s a)) (fl a)) \<and>
      chain (\<lambda>a. sl_next (slabs s a)) (kc_partial kc) ps \<and> distinct ps \<and>
      set ps = {a \<in> S. a \<noteq> cpu \<and> a \<notin> X \<and> fl a \<noteq> []})"

lemma cache_rep_butI:
  assumes "c < length (cache_pool s)" "finite S" "cache_pool s ! c = kc" "good_size (kc_size kc)"
    "\<And>a. a \<in> S \<Longrightarrow> slab_ok s c (kc_size kc) a (fl a)"
    "kc_cpu_slab kc = 0 \<Longrightarrow> kc_cpu_freelist kc = 0"
    "kc_cpu_slab kc \<noteq> 0 \<Longrightarrow> kc_cpu_slab kc \<in> S
       \<and> chain (mem s) (kc_cpu_freelist kc) (fl (kc_cpu_slab kc))
       \<and> sl_freelist (slabs s (kc_cpu_slab kc)) = 0"
    "\<And>a. a \<in> S \<Longrightarrow> a \<noteq> kc_cpu_slab kc \<Longrightarrow> chain (mem s) (sl_freelist (slabs s a)) (fl a)"
    "chain (\<lambda>a. sl_next (slabs s a)) (kc_partial kc) ps" "distinct ps"
    "set ps = {a \<in> S. a \<noteq> kc_cpu_slab kc \<and> a \<notin> X \<and> fl a \<noteq> []}"
  shows "cache_rep_but X s c S fl ps"
  using assms by (simp add: cache_rep_but_def)

lemma cache_rep_butD:
  assumes "cache_rep_but X s c S fl ps" "kc = cache_pool s ! c"
  shows "c < length (cache_pool s)" "finite S" "good_size (kc_size kc)"
    "\<And>a. a \<in> S \<Longrightarrow> slab_ok s c (kc_size kc) a (fl a)"
    "kc_cpu_slab kc = 0 \<Longrightarrow> kc_cpu_freelist kc = 0"
    "kc_cpu_slab kc \<noteq> 0 \<Longrightarrow> kc_cpu_slab kc \<in> S"
    "kc_cpu_slab kc \<noteq> 0 \<Longrightarrow> chain (mem s) (kc_cpu_freelist kc) (fl (kc_cpu_slab kc))"
    "kc_cpu_slab kc \<noteq> 0 \<Longrightarrow> sl_freelist (slabs s (kc_cpu_slab kc)) = 0"
    "\<And>a. a \<in> S \<Longrightarrow> a \<noteq> kc_cpu_slab kc \<Longrightarrow> chain (mem s) (sl_freelist (slabs s a)) (fl a)"
    "chain (\<lambda>a. sl_next (slabs s a)) (kc_partial kc) ps" "distinct ps"
    "set ps = {a \<in> S. a \<noteq> kc_cpu_slab kc \<and> a \<notin> X \<and> fl a \<noteq> []}"
  using assms unfolding cache_rep_but_def Let_def by auto

definition slab_live :: "u64 \<Rightarrow> u64 set \<Rightarrow> (u64 \<Rightarrow> u64 list) \<Rightarrow> u64 set" where
  "slab_live z S fl = (\<Union>a\<in>S. objs z a - set (fl a))"

abbreviation "page_base (x :: u64) \<equiv> x AND NOT (PAGE_SIZE - 1)"

definition slab_frame :: "kstate \<Rightarrow> kstate \<Rightarrow> nat \<Rightarrow> u64 set \<Rightarrow> bool" where
  "slab_frame s s' c T \<longleftrightarrow>
     hhdm s' = hhdm s \<and> kernel_pml4 s' = kernel_pml4 s \<and> cache_pool_idx s' = cache_pool_idx s
     \<and> page_table_cache s' = page_table_cache s \<and> vm_area_cache s' = vm_area_cache s
     \<and> vm_map_cache s' = vm_map_cache s
     \<and> length (cache_pool s') = length (cache_pool s)
     \<and> (\<forall>d. d \<noteq> c \<longrightarrow> cache_pool s' ! d = cache_pool s ! d)
     \<and> kc_size (cache_pool s' ! c) = kc_size (cache_pool s ! c)
     \<and> (\<forall>x. page_base x \<notin> T \<longrightarrow> mem s' x = mem s x)
     \<and> (\<forall>a. a \<notin> T \<longrightarrow> slabs s' a = slabs s a)"

lemma used_page_cong:
  "hhdm s' = hhdm s \<Longrightarrow> k_pages s' = k_pages s \<Longrightarrow> k_free_set s' \<subseteq> k_free_set s \<Longrightarrow>
   used_page s a \<Longrightarrow> used_page s' a"
  by (auto simp: used_page_def page_no_def)

lemma used_page_inj: "used_page s a \<Longrightarrow> used_page s b \<Longrightarrow> page_no s a = page_no s b \<Longrightarrow> a = b"
  by (simp add: used_page_def word_unat_eq_iff)

lemma used_page_slab_page:
  assumes "k_inv s" "used_page s a" shows "slab_page a"
proof -
  have "unat (hhdm s) mod 4096 = 0" using assms(1) by (simp add: k_inv_def)
  moreover have "unat a = unat (hhdm s) + 4096 * page_no s a" "0 < page_no s a"
    using assms(2) unfolding used_page_def by blast+
  ultimately show ?thesis unfolding slab_page_def by (auto simp: mod_add_left_eq)
qed

lemma objs_page_base:
  "slab_page a \<Longrightarrow> good_size z \<Longrightarrow> x \<in> objs z a \<Longrightarrow> page_base x = a"
  using page_of_obj_at [of a _ z] by (auto simp: objs_def good_size_def)

lemma finite_objs [simp]: "finite (objs z a)" by (simp add: objs_def)

lemma card_objs: "slab_page a \<Longrightarrow> good_size z \<Longrightarrow> card (objs z a) = slab_objects z"
  unfolding objs_def
  by (subst card_image) (auto intro!: inj_onI dest: obj_at_inj simp: good_size_def)

lemma put_get_cache [simp]:
  "c < length (cache_pool s) \<Longrightarrow> cache_pool (put_cache s c kc) ! c = kc"
  "c \<noteq> d \<Longrightarrow> cache_pool (put_cache s c kc) ! d = cache_pool s ! d"
  "length (cache_pool (put_cache s c kc)) = length (cache_pool s)"
  by (simp_all add: put_cache_def)

lemma put_cache_frame [frame_simps, simp]:
  "hhdm (put_cache s c kc) = hhdm s" "pmm (put_cache s c kc) = pmm s"
  "mem (put_cache s c kc) = mem s" "slabs (put_cache s c kc) = slabs s"
  "cache_pool_idx (put_cache s c kc) = cache_pool_idx s"
  "kernel_pml4 (put_cache s c kc) = kernel_pml4 s"
  "page_table_cache (put_cache s c kc) = page_table_cache s"
  "vm_area_cache (put_cache s c kc) = vm_area_cache s"
  "vm_map_cache (put_cache s c kc) = vm_map_cache s"
  by (simp_all add: put_cache_def)

lemma put_slab_frame [frame_simps, simp]:
  "hhdm (put_slab s a sl) = hhdm s" "pmm (put_slab s a sl) = pmm s"
  "mem (put_slab s a sl) = mem s" "slabs (put_slab s a sl) = (slabs s)(a := sl)"
  "cache_pool (put_slab s a sl) = cache_pool s"
  "cache_pool_idx (put_slab s a sl) = cache_pool_idx s"
  "kernel_pml4 (put_slab s a sl) = kernel_pml4 s"
  "page_table_cache (put_slab s a sl) = page_table_cache s"
  "vm_area_cache (put_slab s a sl) = vm_area_cache s"
  "vm_map_cache (put_slab s a sl) = vm_map_cache s"
  by (simp_all add: put_slab_def)

lemma set_fp_frame [frame_simps, simp]:
  "hhdm (set_fp s a v) = hhdm s" "pmm (set_fp s a v) = pmm s"
  "mem (set_fp s a v) = (mem s)(a := v)" "slabs (set_fp s a v) = slabs s"
  "cache_pool (set_fp s a v) = cache_pool s"
  "cache_pool_idx (set_fp s a v) = cache_pool_idx s"
  "kernel_pml4 (set_fp s a v) = kernel_pml4 s"
  "page_table_cache (set_fp s a v) = page_table_cache s"
  "vm_area_cache (set_fp s a v) = vm_area_cache s"
  "vm_map_cache (set_fp s a v) = vm_map_cache s"
  by (simp_all add: set_fp_def write_cell_def)

lemma k_of_pmm:
  "pmm s' = pmm s \<Longrightarrow> k_free_set s' = k_free_set s" "pmm s' = pmm s \<Longrightarrow> k_pages s' = k_pages s"
  "pmm s' = pmm s \<Longrightarrow> hhdm s' = hhdm s \<Longrightarrow> k_inv s' = k_inv s"
  "pmm s' = pmm s \<Longrightarrow> hhdm s' = hhdm s \<Longrightarrow> used_page s' a = used_page s a"
  by (simp_all add: k_free_set_def k_pages_def k_inv_def used_page_def page_no_def)

text \<open>Taking the free list of a detached slab: the second half of \<open>_refill\<close>.\<close>

lemma inuse_up:
  assumes "unat (n :: u16) + Suc l = k" "k \<le> 4064"
  shows "unat (n + 1) + l = k"
proof -
  have "unat (n + 1) = unat n + 1"
    unfolding unat_word_ariths using assms by simp
  then show ?thesis using assms by simp
qed

lemma slab_objects_le: "slab_objects z \<le> 4064" by (simp add: slab_objects_def)

lemma slab_ok_take:
  assumes "slab_ok s c z a (x # xs)" "hhdm s' = hhdm s" "pmm s' = pmm s"
    "sl_cache (slabs s' a) = sl_cache (slabs s a)" "sl_objects (slabs s' a) = sl_objects (slabs s a)"
    "sl_inuse (slabs s' a) = sl_inuse (slabs s a) + 1"
  shows "slab_ok s' c z a xs"
  using assms inuse_up [of "sl_inuse (slabs s a)" "length xs" "slab_objects z", OF _ slab_objects_le]
    k_of_pmm(4) [of s' s a]
  by (auto simp: slab_ok_def)

lemma slab_ok_cong:
  assumes "slab_ok s c z a l" "hhdm s' = hhdm s" "pmm s' = pmm s"
    "sl_cache (slabs s' a) = sl_cache (slabs s a)" "sl_objects (slabs s' a) = sl_objects (slabs s a)"
    "sl_inuse (slabs s' a) = sl_inuse (slabs s a)"
  shows "slab_ok s' c z a l"
  using assms k_of_pmm(4) [of s' s a] by (simp add: slab_ok_def)

lemma refill_take_correct:
  assumes rep: "cache_rep_but {a} s c S fl ps" and a: "a \<in> S" "fl a = x # xs"
    and drained: "kc_cpu_freelist (cache_pool s ! c) = 0" "a \<noteq> kc_cpu_slab (cache_pool s ! c)"
  shows "\<exists>s'. refill_take s c a = Some (x, s') \<and> cache_rep_but {} s' c S (fl(a := xs)) ps
    \<and> slab_frame s s' c S \<and> pmm s' = pmm s"
proof -
  define kc where "kc = cache_pool s ! c"
  define sl where "sl = slabs s a"
  define kc' where "kc' = kc\<lparr>kc_cpu_freelist := get_fp s x, kc_cpu_slab := a\<rparr>"
  define s' where "s' = put_slab (put_cache s c kc') a (sl\<lparr>sl_freelist := 0, sl_inuse := sl_inuse sl + 1\<rparr>)"
  note r = cache_rep_butD [OF rep kc_def]
  have nc: "a \<noteq> kc_cpu_slab kc" using drained by (simp add: kc_def)
  have ch: "chain (mem s) (sl_freelist sl) (x # xs)" using r(9) [OF a(1) nc] a(2) by (simp add: sl_def)
  have oka: "slab_ok s c (kc_size kc) a (x # xs)" using r(4) [OF a(1)] a(2) by simp
  have a0: "a \<noteq> 0" using oka by (simp add: slab_ok_def slab_page_def)
  have run: "refill_take s c a = Some (x, s')"
    using ch r(1) by (simp add: refill_take_def get_cache_def s'_def kc'_def kc_def sl_def Let_def)
  have cpu: "kc_cpu_slab kc \<noteq> 0 \<Longrightarrow> fl (kc_cpu_slab kc) = []"
    using r(7) drained(1) by (simp flip: kc_def)
  have "cache_rep_but {} s' c S (fl(a := xs)) ps"
  proof (rule cache_rep_butI [where kc = kc'])
    show "slab_ok s' c (kc_size kc') b ((fl(a := xs)) b)" if "b \<in> S" for b
    proof (cases "b = a")
      case True
      then show ?thesis using slab_ok_take [OF oka] r(1) by (simp add: s'_def kc'_def sl_def)
    next
      case False
      then show ?thesis using slab_ok_cong [OF r(4) [OF that]] r(1) by (simp add: s'_def kc'_def)
    qed
    show "chain (mem s') (sl_freelist (slabs s' b)) ((fl(a := xs)) b)"
      if "b \<in> S" "b \<noteq> kc_cpu_slab kc'" for b
      using that r(8) r(9) [of b] cpu r(4) [OF that(1)] r(1)
      by (cases "b = kc_cpu_slab kc") (auto simp: s'_def kc'_def slab_ok_def slab_page_def)
    have "set ps = {b \<in> S. b \<noteq> kc_cpu_slab kc \<and> b \<noteq> a \<and> fl b \<noteq> []}" using r(12) by auto
    moreover have "fl b = []" if "b \<in> S" "b = kc_cpu_slab kc" for b
      using cpu that r(4) [OF that(1)] by (auto simp: slab_ok_def slab_page_def)
    ultimately show "set ps = {b \<in> S. b \<noteq> kc_cpu_slab kc' \<and> b \<notin> {} \<and> (fl(a := xs)) b \<noteq> []}"
      by (auto simp: kc'_def)
    have "chain (\<lambda>b. sl_next (slabs s' b)) (kc_partial kc) ps"
      using r(10) by (rule chain_cong [THEN iffD1, rotated]) (simp add: s'_def sl_def)
    then show "chain (\<lambda>b. sl_next (slabs s' b)) (kc_partial kc') ps" by (simp add: kc'_def)
  qed (use r a0 a ch in \<open>simp_all add: s'_def kc'_def get_fp_def\<close>)
  moreover have "slab_frame s s' c S"
    using a r(1) by (auto simp: slab_frame_def s'_def kc'_def kc_def)
  ultimately show ?thesis using run by (auto simp: s'_def)
qed

subsection \<open>Fresh slabs\<close>

definition obj_list :: "u64 \<Rightarrow> u64 \<Rightarrow> u64 list" where
  "obj_list z a = map (obj_at a z) [0..<slab_objects z]"

lemma set_obj_list [simp]: "set (obj_list z a) = objs z a"
  by (auto simp: obj_list_def objs_def)

lemma obj_list_facts:
  assumes "slab_page a" "good_size z"
  shows "distinct (obj_list z a)" "length (obj_list z a) = slab_objects z" "0 < slab_objects z"
    "obj_list z a \<noteq> []"
proof -
  show p: "0 < slab_objects z"
    using assms(2) by (auto simp: slab_objects_def good_size_def div_greater_zero_iff)
  then show "obj_list z a \<noteq> []" by (simp add: obj_list_def)
  have "inj_on (obj_at a z) {0..<slab_objects z}"
    using assms obj_at_inj by (auto intro!: inj_onI simp: good_size_def)
  then show "distinct (obj_list z a)" by (simp add: obj_list_def distinct_map)
qed (simp add: obj_list_def)

lemma of_nat_unat_id: "(of_nat (unat (w :: u64)) :: u64) = w" by simp

lemma slab_count_word:
  assumes "good_size z"
  shows "unat ((PAGE_SIZE - SLAB_HDR) div z) = slab_objects z"
  by (simp add: slab_objects_def unat_div PAGE_SIZE_def)

lemma new_page_facts:
  assumes "k_inv s" "k \<in> k_free_set s" "unat phys = 4096 * k"
  shows "unat (hhdm s + phys) = unat (hhdm s) + 4096 * k" "page_no s (hhdm s + phys) = k"
    "slab_page (hhdm s + phys)" "0 < k" "k < k_pages s"
proof -
  show k: "0 < k" "k < k_pages s" using kpg.avail_range [OF assms(1,2)] by auto
  have "unat (hhdm s) + 4096 * k_pages s \<le> 2 ^ 64"
    using assms(1) by (simp add: k_inv_def k_pages_def)
  then have "unat (hhdm s) + 4096 * k < 2 ^ 64" using k by linarith
  then show u: "unat (hhdm s + phys) = unat (hhdm s) + 4096 * k"
    using unat_add_no_wrap [of "hhdm s" phys] assms(3) by simp
  then show "page_no s (hhdm s + phys) = k" by (simp add: page_no_def)
  have "unat (hhdm s) mod 4096 = 0" using assms(1) by (simp add: k_inv_def)
  then have "unat (hhdm s + phys) mod 4096 = 0" unfolding u by simp
  moreover have "hhdm s + phys \<noteq> 0" using u k by auto
  ultimately show "slab_page (hhdm s + phys)" by (simp add: slab_page_def)
qed

text \<open>The objects of a fresh slab are chained in address order and nothing else changes.\<close>

lemma fresh_chain:
  assumes a: "slab_page a" and z: "good_size z" and n: "unat n = slab_objects z"
    and st: "st = a + SLAB_HDR"
    and s2_def: "s2 = set_fp (link_objects s st z 0 (n - 1)) (st + (n - 1) * z) 0"
  shows "chain (mem s2) st (obj_list z a)" "\<And>x. page_base x \<noteq> a \<Longrightarrow> mem s2 x = mem s x"
proof -
  have zp: "0 < unat z" using z by (simp add: good_size_def)
  have np: "0 < slab_objects z" by (rule obj_list_facts(3) [OF a z])
  have n1: "unat (n - 1) = slab_objects z - 1"
    using np n by (metis unat_minus_one unat_0 less_irrefl)
  have at: "st + of_nat j * z = obj_at a z j" for j by (simp add: st obj_at_def)
  have last: "st + (n - 1) * z = obj_at a z (slab_objects z - 1)"
    by (metis n1 at of_nat_unat_id)
  have inj: "j = k" if "j < slab_objects z" "k < slab_objects z" "obj_at a z j = obj_at a z k" for j k
    using obj_at_inj [OF a that(1,2) zp that(3)] .
  note L = mem_link_objects [of 0 "n - 1" st z s, unfolded n1 at unat_0]
  have L1: "mem (link_objects s st z 0 (n - 1)) (obj_at a z j) = obj_at a z (Suc j)"
    if "j < slab_objects z - 1" for j
    using L inj that by fastforce
  have L2: "mem (link_objects s st z 0 (n - 1)) x = mem s x"
    if "\<forall>j < slab_objects z - 1. x \<noteq> obj_at a z j" for x
    using L inj that by fastforce
  have m: "mem s2 (obj_at a z j) = (if Suc j = slab_objects z then 0 else obj_at a z (Suc j))"
    if "j < slab_objects z" for j
  proof (cases "Suc j = slab_objects z")
    case True
    then have "j = slab_objects z - 1" by simp
    then show ?thesis using True by (simp add: s2_def last)
  next
    case False
    then have "obj_at a z j \<noteq> obj_at a z (slab_objects z - 1)"
      using inj [of j "slab_objects z - 1"] that np by auto
    then show ?thesis using False L1 [of j] that by (simp add: s2_def last)
  qed
  have "chain (mem s2) (obj_at a z 0) (obj_list z a)"
    unfolding obj_list_def using m np obj_at_nonzero [OF a] by (intro chain_upt) auto
  then show "chain (mem s2) st (obj_list z a)" using at [of 0] by simp
  show "mem s2 x = mem s x" if x: "page_base x \<noteq> a" for x
  proof -
    have "x \<noteq> obj_at a z j" if "j < slab_objects z" for j
      using page_of_obj_at [OF a that zp] x by auto
    then show ?thesis using L2 [of x] np by (auto simp: s2_def last)
  qed
qed

lemma alloc_new_slab_correct:
  assumes inv: "k_inv s" and rep: "cache_rep_but {} s c S fl ps"
  obtains (oom) "k_free_set s = {}" "alloc_new_slab s c = Some (0, s)"
  | (slab) a s' where "alloc_new_slab s c = Some (a, s')" "a \<notin> S" "slab_page a" "k_inv s'"
      "k_pages s' = k_pages s" "page_no s a \<in> k_free_set s" "used_page s' a"
      "k_free_set s' = k_free_set s - {page_no s a}"
      "cache_rep_but {a} s' c (insert a S)
         (fl(a := obj_list (kc_size (cache_pool s ! c)) a)) ps"
      "slab_frame s s' c {a}"
      "kc_cpu_slab (cache_pool s' ! c) = kc_cpu_slab (cache_pool s ! c)"
      "kc_cpu_freelist (cache_pool s' ! c) = kc_cpu_freelist (cache_pool s ! c)"
proof (cases rule: kpg.alloc_cases [OF inv])
  case 1
  then show thesis using oom by (simp add: alloc_new_slab_def)
next
  case (2 k phys s1)
  define kc where "kc = cache_pool s ! c"
  define z where "z = kc_size kc"
  define a where "a = hhdm s + phys"
  define n where "n = (PAGE_SIZE - SLAB_HDR) div z"
  define s2 where "s2 = set_fp (link_objects s1 (a + SLAB_HDR) z 0 (n - 1)) (a + SLAB_HDR + (n - 1) * z) 0"
  define sl where "sl = \<lparr>sl_freelist = a + SLAB_HDR, sl_next = 0, sl_cache = c, sl_inuse = 0,
                      sl_objects = ucast n\<rparr>"
  define kc' where "kc' = kc\<lparr>kc_obj_per_slab := n\<rparr>"
  define s' where "s' = put_cache (put_slab s2 a sl) c kc'"
  note r = cache_rep_butD [OF rep kc_def]
  have z: "good_size z" using r(3) by (simp add: z_def)
  obtain p where p: "s1 = s\<lparr>pmm := p\<rparr>" using k_alloc_page_frame [OF 2(2)] by blast
  note nf = new_page_facts [OF inv 2(1,3), folded a_def]
  have n: "unat n = slab_objects z" unfolding n_def by (rule slab_count_word [OF z])
  have npos: "0 < slab_objects z" by (rule obj_list_facts(3) [OF nf(3) z])
  have n0: "n \<noteq> 0" using n npos by auto
  have z0: "z \<noteq> 0" using z by (auto simp: good_size_def)
  have lf: "hhdm s2 = hhdm s" "pmm s2 = p" "slabs s2 = slabs s" "cache_pool s2 = cache_pool s"
    "cache_pool_idx s2 = cache_pool_idx s" "kernel_pml4 s2 = kernel_pml4 s"
    "page_table_cache s2 = page_table_cache s" "vm_area_cache s2 = vm_area_cache s"
    "vm_map_cache s2 = vm_map_cache s"
    using link_objects_frame [of s1 "a + SLAB_HDR" z 0 "n - 1"] by (simp_all add: s2_def p)
  have run: "alloc_new_slab s c = Some (a, s')"
    using r(1) 2(2,4) n0 z0
    by (simp add: alloc_new_slab_def get_cache_def p phys_to_higher_half_data_def Let_def
        s'_def s2_def sl_def kc'_def kc_def z_def n_def a_def del: SLAB_HDR_eq)
  show thesis
  proof (rule slab [OF run])
    show aS: "a \<notin> S"
      using r(4) [of a] 2(1) nf(2) by (auto simp: slab_ok_def used_page_def)
    show "slab_page a" by (rule nf(3))
    have same: "pmm s' = pmm s1" "hhdm s' = hhdm s1" by (simp_all add: s'_def lf p)
    show "k_inv s'" using 2(5) same by (simp add: k_inv_def)
    show pages: "k_pages s' = k_pages s" using 2(6) same by (simp add: k_pages_def)
    show "page_no s a \<in> k_free_set s" using nf(2) 2(1) by simp
    show free: "k_free_set s' = k_free_set s - {page_no s a}"
      using 2(7) same nf(2) by (simp add: k_free_set_def)
    have hh: "hhdm s' = hhdm s" using same p by simp
    show ua: "used_page s' a"
      using nf free pages hh by (simp add: used_page_def page_no_def)
    have slabs': "slabs s' = (slabs s)(a := sl)" by (simp add: s'_def lf)
    have kc's: "cache_pool s' ! c = kc'" using r(1) by (simp add: s'_def lf)
    have fr: "mem s' x = mem s x" if "page_base x \<noteq> a" for x
      using fresh_chain(2) [OF nf(3) z n refl s2_def that] by (simp add: s'_def p)
    have elsewhere: "x \<in> objs z b \<Longrightarrow> b \<in> S \<Longrightarrow> mem s' x = mem s x" for x b
      using fr [of x] objs_page_base [of b z x] z r(4) [of b] aS by (auto simp: slab_ok_def)
    have ch: "chain (mem s') (a + SLAB_HDR) (obj_list z a)"
      using fresh_chain(1) [OF nf(3) z n refl s2_def] by (simp add: s'_def)
    have others: "chain (mem s') q (fl b) = chain (mem s) q (fl b)" if "b \<in> S" for b q
      using elsewhere [OF _ that] r(4) [OF that] by (intro chain_cong) (auto simp: slab_ok_def z_def)
    have ucn: "unat (ucast n :: u16) = slab_objects z"
      using slab_objects_le [of z] n by (simp add: unsigned_ucast_eq take_bit_nat_eq_self_iff)
    have oka: "slab_ok s' c z a (obj_list z a)"
      using ua nf(3) obj_list_facts(1,2) [OF nf(3) z] n ucn
      by (simp add: slab_ok_def slabs' sl_def)
    have okb: "slab_ok s' c z b (fl b)" if "b \<in> S" for b
      using r(4) [OF that] that aS used_page_cong [OF hh pages, of b] free
      by (auto simp: slab_ok_def slabs' z_def)
    show "cache_rep_but {a} s' c (insert a S)
         (fl(a := obj_list (kc_size (cache_pool s ! c)) a)) ps"
    proof (rule cache_rep_butI [OF _ _ kc's])
      show "slab_ok s' c (kc_size kc') b ((fl(a := obj_list (kc_size (cache_pool s ! c)) a)) b)"
        if "b \<in> insert a S" for b
        using that oka okb by (auto simp: kc'_def kc_def z_def)
      show "chain (mem s') (sl_freelist (slabs s' b)) ((fl(a := obj_list (kc_size (cache_pool s ! c)) a)) b)"
        if "b \<in> insert a S" "b \<noteq> kc_cpu_slab kc'" for b
        using that ch others r(9) [of b] by (auto simp: slabs' sl_def kc'_def kc_def z_def)
      show "kc_cpu_slab kc' \<in> insert a S
         \<and> chain (mem s') (kc_cpu_freelist kc') ((fl(a := obj_list (kc_size (cache_pool s ! c)) a)) (kc_cpu_slab kc'))
         \<and> sl_freelist (slabs s' (kc_cpu_slab kc')) = 0" if "kc_cpu_slab kc' \<noteq> 0"
        using that r(6,7,8) aS others by (auto simp: slabs' kc'_def)
      have "chain (\<lambda>b. sl_next (slabs s' b)) (kc_partial kc) ps"
        using r(10) by (rule chain_cong [THEN iffD1, rotated]) (use r(12) aS in \<open>auto simp: slabs'\<close>)
      then show "chain (\<lambda>b. sl_next (slabs s' b)) (kc_partial kc') ps" by (simp add: kc'_def)
      show "set ps = {b \<in> insert a S. b \<noteq> kc_cpu_slab kc' \<and> b \<notin> {a} \<and> (fl(a := obj_list (kc_size (cache_pool s ! c)) a)) b \<noteq> []}"
        using r(12) aS by (auto simp: kc'_def)
    qed (use r in \<open>simp_all add: s'_def lf kc'_def\<close>)
    show "slab_frame s s' c {a}"
      using fr r(1) by (auto simp: slab_frame_def s'_def lf kc'_def kc_def)
    show "kc_cpu_slab (cache_pool s' ! c) = kc_cpu_slab (cache_pool s ! c)"
      "kc_cpu_freelist (cache_pool s' ! c) = kc_cpu_freelist (cache_pool s ! c)"
      by (simp_all add: kc's kc'_def kc_def)
  qed
qed

end
