(* ===== verification/Object_Allocator.thy ===== *)
theory Object_Allocator
  imports Prelude
begin

text \<open>
  The interface the virtual memory maps and \<open>kmalloc\<close> call: give me an object, take this one
  back. \<open>rep s L\<close> says that the allocator is well formed and that exactly the objects \<open>L\<close> are
  handed out; \<open>room\<close> is the number of bytes each of them has to itself.
\<close>

fun allocate_n :: "('s \<Rightarrow> (u64 \<times> 's) option) \<Rightarrow> nat \<Rightarrow> 's \<Rightarrow> (u64 list \<times> 's) option" where
  "allocate_n alloc 0 s = Some ([], s)"
| "allocate_n alloc (Suc n) s =
     do {
       (x, s1) \<leftarrow> alloc s;
       if x = 0 then Some ([], s1)
       else do {
         (xs, s2) \<leftarrow> allocate_n alloc n s1;
         Some (x # xs, s2)
       }
     }"

locale object_allocator =
  fixes alloc :: "'s \<Rightarrow> (u64 \<times> 's) option"
    and free :: "'s \<Rightarrow> u64 \<Rightarrow> 's option"
    and rep :: "'s \<Rightarrow> u64 set \<Rightarrow> bool"
    and room :: "'s \<Rightarrow> nat"
  assumes alloc_law: "rep s L \<Longrightarrow> \<exists>x s'. alloc s = Some (x, s') \<and>
      (if x = 0 then s' = s else x \<notin> L \<and> rep s' (insert x L) \<and> room s' = room s)"
    and free_law: "rep s L \<Longrightarrow> x \<in> L \<Longrightarrow>
      \<exists>s'. free s x = Some s' \<and> rep s' (L - {x}) \<and> room s' = room s"
    and live_nonnull: "rep s L \<Longrightarrow> 0 \<notin> L"
    and live_apart: "rep s L \<Longrightarrow> x \<in> L \<Longrightarrow> y \<in> L \<Longrightarrow> unat x < unat y \<Longrightarrow>
      unat x + room s \<le> unat y"
begin

lemma alloc_new:
  assumes "rep s L" "alloc s = Some (x, s')" "x \<noteq> 0"
  shows "x \<notin> L" "rep s' (insert x L)" "room s' = room s"
  using alloc_law [OF assms(1)] assms(2,3) by auto

lemma alloc_fail: "rep s L \<Longrightarrow> alloc s = Some (0, s') \<Longrightarrow> s' = s"
  using alloc_law [of s L] by auto

lemma allocate_n_law:
  assumes "rep s L"
  shows "\<exists>xs s'. allocate_n alloc n s = Some (xs, s') \<and> length xs \<le> n \<and> distinct xs
    \<and> set xs \<inter> L = {} \<and> rep s' (L \<union> set xs) \<and> room s' = room s"
  using assms
proof (induction n arbitrary: s L)
  case 0
  then show ?case by simp
next
  case (Suc n)
  obtain x s1 where x: "alloc s = Some (x, s1)" using alloc_law [OF Suc.prems] by blast
  show ?case
  proof (cases "x = 0")
    case True
    then show ?thesis using x alloc_fail Suc.prems by auto
  next
    case False
    note a = alloc_new [OF Suc.prems x False]
    obtain xs s2 where "allocate_n alloc n s1 = Some (xs, s2)" "length xs \<le> n" "distinct xs"
        "set xs \<inter> insert x L = {}" "rep s2 (insert x L \<union> set xs)" "room s2 = room s1"
      using Suc.IH [OF a(2)] by blast
    then show ?thesis using x False a by auto
  qed
qed

lemma alloc_then_free:
  assumes "rep s L" "alloc s = Some (x, s1)" "x \<noteq> 0"
  shows "\<exists>s2. free s1 x = Some s2 \<and> rep s2 L"
proof -
  note a = alloc_new [OF assms]
  have "insert x L - {x} = L" using a(1) by simp
  then show ?thesis using free_law [OF a(2), of x] by auto
qed

lemma new_apart:
  assumes "rep s L" "alloc s = Some (x, s1)" "x \<noteq> 0" "y \<in> L"
  shows "unat x + room s \<le> unat y \<or> unat y + room s \<le> unat x"
proof -
  note a = alloc_new [OF assms(1-3)]
  have "x \<noteq> y" using a(1) assms(4) by auto
  then have "unat x < unat y \<or> unat y < unat x" by (metis linorder_neqE_nat word_unat_eq_iff)
  then show ?thesis using live_apart [OF a(2), of x y] live_apart [OF a(2), of y x] assms(4) a(3) by auto
qed

end

end
