(* ===== verification/Slab_Ops.thy ===== *)
theory Slab_Ops
  imports Slab_Inv Object_Allocator
begin

text \<open>
  The operations of the slab allocator keep its representation, change nothing outside the
  slabs the cache owns, and meet the contract of \<open>object_allocator\<close>; then the properties.
\<close>

lemma slab_frame_refl [simp]: "slab_frame s s c T" by (simp add: slab_frame_def)

lemma slab_frame_trans:
  "slab_frame s s1 c T1 \<Longrightarrow> slab_frame s1 s2 c T2 \<Longrightarrow> T1 \<subseteq> T \<Longrightarrow> T2 \<subseteq> T \<Longrightarrow> slab_frame s s2 c T"
  unfolding slab_frame_def by (intro conjI) (simp_all add: subset_iff, (metis)+)

text \<open>What an allocation that hands out object \<open>x\<close> does to the cache, the memory and the PMM.\<close>

definition cache_alloc_post ::
  "kstate \<Rightarrow> nat \<Rightarrow> u64 set \<Rightarrow> (u64 \<Rightarrow> u64 list) \<Rightarrow> u64 \<Rightarrow> kstate \<Rightarrow> u64 set \<Rightarrow> (u64 \<Rightarrow> u64 list)
    \<Rightarrow> u64 list \<Rightarrow> bool" where
  "cache_alloc_post s c S fl x s' S' fl' ps' \<longleftrightarrow>
     k_inv s' \<and> k_pages s' = k_pages s \<and> cache_rep_but {} s' c S' fl' ps' \<and> S \<subseteq> S'
     \<and> slab_frame s s' c S' \<and> k_free_set s' = k_free_set s - page_no s ` (S' - S)
     \<and> page_no s ` (S' - S) \<subseteq> k_free_set s
     \<and> (let z = kc_size (cache_pool s ! c) in
        x \<notin> slab_live z S fl \<and> slab_live z S' fl' = insert x (slab_live z S fl))"

lemma live_take:
  assumes "a \<in> S" "fl a = x # xs" "distinct (x # xs)" "x \<in> objs z a" "slab_page a" "good_size z"
    "\<And>b. b \<in> S \<Longrightarrow> slab_page b"
  shows "x \<notin> slab_live z S fl" "slab_live z S (fl(a := xs)) = insert x (slab_live z S fl)"
proof -
  have "b = a" if "b \<in> S" "x \<in> objs z b" for b
    using objs_page_base [OF assms(7) [OF that(1)] assms(6) that(2)]
      objs_page_base [OF assms(5,6,4)] by simp
  then show "x \<notin> slab_live z S fl" using assms(2) by (auto simp: slab_live_def)
  show "slab_live z S (fl(a := xs)) = insert x (slab_live z S fl)"
    using assms(1-4) by (auto simp: slab_live_def split: if_splits)
qed

lemma live_new_slab:
  assumes "a \<notin> S" shows "slab_live z (insert a S) (fl(a := obj_list z a)) = slab_live z S fl"
proof -
  have "(\<Union>b\<in>S. objs z b - set ((fl(a := obj_list z a)) b)) = (\<Union>b\<in>S. objs z b - set (fl b))"
    using assms by (intro SUP_cong) auto
  then show ?thesis by (simp add: slab_live_def)
qed

lemma cache_rep_live_take:
  assumes "cache_rep_but X s c S fl ps" "a \<in> S" "fl a = x # xs"
  shows "x \<notin> slab_live (kc_size (cache_pool s ! c)) S fl"
    "slab_live (kc_size (cache_pool s ! c)) S (fl(a := xs))
       = insert x (slab_live (kc_size (cache_pool s ! c)) S fl)"
  using live_take [of a S fl x xs "kc_size (cache_pool s ! c)"] cache_rep_butD(3,4) [OF assms(1) refl]
    assms(2,3) by (force simp: slab_ok_def)+

lemma slab_frame_size:
  "slab_frame s s' c T \<Longrightarrow> kc_size (cache_pool s' ! c) = kc_size (cache_pool s ! c)"
  by (simp add: slab_frame_def)

lemma refill_correct:
  assumes inv: "k_inv s" and rep: "cache_rep_but {} s c S fl ps"
    and drained: "kc_cpu_freelist (cache_pool s ! c) = 0"
  obtains (oom) "k_free_set s = {}" "ps = []" "refill s c = Some (0, s)"
  | (object) x s' S' fl' ps' where "refill s c = Some (x, s')" "x \<noteq> 0"
      "cache_alloc_post s c S fl x s' S' fl' ps'"
proof -
  define kc where "kc = cache_pool s ! c"
  note r = cache_rep_butD [OF rep kc_def]
  show thesis
  proof (cases ps)
    case (Cons a ps1)
    define sl where "sl = slabs s a"
    define s1 where "s1 = put_slab (put_cache s c (kc\<lparr>kc_partial := sl_next sl\<rparr>)) a (sl\<lparr>sl_next := 0\<rparr>)"
    have pa: "kc_partial kc = a" "a \<noteq> 0" "chain (\<lambda>a. sl_next (slabs s a)) (sl_next sl) ps1"
      using r(10) Cons by (auto simp: sl_def)
    have a: "a \<in> S" "a \<noteq> kc_cpu_slab kc" "fl a \<noteq> []" "a \<notin> set ps1" "distinct ps1"
      using r(11,12) Cons by auto
    obtain x xs where x: "fl a = x # xs" using a(3) by (cases "fl a") auto
    have kc1: "cache_pool s1 ! c = kc\<lparr>kc_partial := sl_next sl\<rparr>" using r(1) by (simp add: s1_def)
    have run1: "refill s c = refill_take s1 c a"
      using r(1) pa by (simp add: refill_def get_cache_def kc_def s1_def sl_def Let_def)
    have same: "hhdm s1 = hhdm s" "pmm s1 = pmm s" "mem s1 = mem s" by (simp_all add: s1_def)
    have rep1: "cache_rep_but {a} s1 c S fl ps1"
    proof (rule cache_rep_butI [OF _ _ kc1])
      show "slab_ok s1 c (kc_size (kc\<lparr>kc_partial := sl_next sl\<rparr>)) b (fl b)" if "b \<in> S" for b
        using slab_ok_cong [OF r(4) [OF that] same(1,2)] by (simp add: s1_def sl_def)
      have "chain (\<lambda>b. sl_next (slabs s1 b)) (sl_next sl) ps1"
        using pa(3) by (rule chain_cong [THEN iffD1, rotated]) (use a(4) in \<open>auto simp: s1_def\<close>)
      then show "chain (\<lambda>b. sl_next (slabs s1 b)) (kc_partial (kc\<lparr>kc_partial := sl_next sl\<rparr>)) ps1"
        by simp
      show "set ps1 = {b \<in> S. b \<noteq> kc_cpu_slab (kc\<lparr>kc_partial := sl_next sl\<rparr>) \<and> b \<notin> {a} \<and> fl b \<noteq> []}"
        using r(12) Cons a by auto
    qed (use r a in \<open>auto simp: s1_def sl_def\<close>)
    have "kc_cpu_freelist (cache_pool s1 ! c) = 0" "a \<noteq> kc_cpu_slab (cache_pool s1 ! c)"
      using drained a kc1 by (simp_all add: kc_def)
    then obtain s' where s': "refill_take s1 c a = Some (x, s')"
        "cache_rep_but {} s' c S (fl(a := xs)) ps1" "slab_frame s1 s' c S" "pmm s' = pmm s1"
      using refill_take_correct [OF rep1 a(1) x] by blast
    have "x \<noteq> 0" using r(4) [OF a(1)] r(9) [OF a(1,2)] x by auto
    moreover have "slab_frame s s1 c S"
      using r(1) a(1) by (auto simp: slab_frame_def s1_def kc_def)
    then have "slab_frame s s' c S" by (rule slab_frame_trans) (use s'(3) in auto)
    moreover have "hhdm s' = hhdm s" using calculation(2) by (simp add: slab_frame_def)
    ultimately have "cache_alloc_post s c S fl x s' S (fl(a := xs)) ps1"
      using s' same cache_rep_live_take [OF rep a(1) x] k_of_pmm [of s' s] inv
      by (simp add: cache_alloc_post_def Let_def)
    then show thesis using object run1 s'(1) \<open>x \<noteq> 0\<close> by simp
  next
    case Nil
    then have p0: "kc_partial kc = 0" using r(10) by simp
    have run: "refill s c = Option.bind (alloc_new_slab s c)
        (\<lambda>(slab, s1). if slab = 0 then Some (0, s1) else refill_take s1 c slab)"
      using r(1) p0 by (simp add: refill_def get_cache_def kc_def)
    show thesis
    proof (cases rule: alloc_new_slab_correct [OF inv rep])
      case 1
      then show thesis using oom Nil run by simp
    next
      case (2 a s1)
      define z where "z = kc_size (cache_pool s ! c)"
      obtain x xs where x: "obj_list z a = x # xs"
        using obj_list_facts(4) [OF 2(3), of z] r(3) by (cases "obj_list z a") (auto simp: z_def kc_def)
      have a0: "a \<noteq> 0" using 2(3) by (simp add: slab_page_def)
      have acpu: "a \<noteq> kc_cpu_slab (cache_pool s1 ! c)"
        using 2(2,11) r(6) a0 by (auto simp: kc_def)
      obtain s' where s': "refill_take s1 c a = Some (x, s')"
        "cache_rep_but {} s' c (insert a S) (fl(a := xs)) ps" "slab_frame s1 s' c (insert a S)"
        "pmm s' = pmm s1"
        using refill_take_correct [OF 2(9) _ _ _ acpu] x drained 2(12) by (fastforce simp: z_def)
      have fr: "slab_frame s s' c (insert a S)"
        by (rule slab_frame_trans [OF 2(10) s'(3)]) auto
      have hh: "hhdm s' = hhdm s1" using s'(3) by (simp add: slab_frame_def)
      have "x \<in> objs z a" using x by (metis list.set_intros(1) set_obj_list)
      then have x0: "x \<noteq> 0" using obj_at_nonzero [OF 2(3)] by (auto simp: objs_def)
      have z1: "kc_size (cache_pool s1 ! c) = z" using slab_frame_size [OF 2(10)] by (simp add: z_def)
      have "x \<notin> slab_live z S fl \<and> slab_live z (insert a S) (fl(a := xs)) = insert x (slab_live z S fl)"
        using cache_rep_live_take [OF 2(9), of a x xs] x z1 live_new_slab [OF 2(2), of z fl]
        by (simp add: z_def)
      then have "cache_alloc_post s c S fl x s' (insert a S) (fl(a := xs)) ps"
        using s' 2 fr k_of_pmm [OF s'(4)] hh
        by (simp add: cache_alloc_post_def Let_def z_def insert_Diff_if subset_insertI)
      then show thesis using object run 2(1) s'(1) a0 x0 by simp
    qed
  qed
qed


lemma kmem_cache_alloc_correct:
  assumes inv: "k_inv s" and rep: "cache_rep_but {} s c S fl ps"
  obtains (oom) "k_free_set s = {}" "kmem_cache_alloc s c = Some (0, s)"
      "slab_live (kc_size (cache_pool s ! c)) S fl = (\<Union>a\<in>S. objs (kc_size (cache_pool s ! c)) a)"
  | (object) x s' S' fl' ps' where "kmem_cache_alloc s c = Some (x, s')" "x \<noteq> 0"
      "cache_alloc_post s c S fl x s' S' fl' ps'"
proof -
  define kc where "kc = cache_pool s ! c"
  note r = cache_rep_butD [OF rep kc_def]
  show thesis
  proof (cases "kc_cpu_freelist kc = 0")
    case True
    then have run: "kmem_cache_alloc s c = refill s c"
      using r(1) by (simp add: kmem_cache_alloc_def get_cache_def kc_def)
    show thesis
    proof (cases rule: refill_correct [OF inv rep True [unfolded kc_def]])
      case oom_case: 1
      have "fl a = []" if "a \<in> S" for a
        using r(7,12) True oom_case(2) that r(4) [OF that]
        by (cases "a = kc_cpu_slab kc") (auto simp: slab_ok_def slab_page_def)
      then show thesis using oom oom_case run by (simp add: slab_live_def)
    next
      case (2 x s' S' fl' ps')
      then show thesis using object run by simp
    qed
  next
    case False
    define a where "a = kc_cpu_slab kc"
    define x where "x = kc_cpu_freelist kc"
    have a0: "a \<noteq> 0" using False r(5) by (auto simp: a_def)
    have aS: "a \<in> S" and f0: "sl_freelist (slabs s a) = 0" using r(6,8) a0 by (auto simp: a_def)
    obtain xs where x: "fl a = x # xs" and ch: "chain (mem s) (mem s x) xs"
      using r(7) a0 False by (auto simp: a_def x_def chain_nonnull)
    define kc' where "kc' = kc\<lparr>kc_cpu_freelist := get_fp s x\<rparr>"
    define s' where "s' = put_slab (put_cache s c kc') a
      ((slabs s a)\<lparr>sl_inuse := sl_inuse (slabs s a) + 1\<rparr>)"
    have run: "kmem_cache_alloc s c = Some (x, s')"
      using r(1) False a0
      by (simp add: kmem_cache_alloc_def get_cache_def s'_def kc'_def a_def x_def kc_def Let_def)
    have same: "hhdm s' = hhdm s" "pmm s' = pmm s" "mem s' = mem s" by (simp_all add: s'_def)
    have kc's: "cache_pool s' ! c = kc'" using r(1) by (simp add: s'_def)
    have "cache_rep_but {} s' c S (fl(a := xs)) ps"
    proof (rule cache_rep_butI [OF _ _ kc's])
      show "slab_ok s' c (kc_size kc') b ((fl(a := xs)) b)" if "b \<in> S" for b
      proof (cases "b = a")
        case True
        then show ?thesis
          using slab_ok_take [of s c _ a x xs s'] r(4) [OF aS] x same by (simp add: s'_def kc'_def)
      next
        case False
        then show ?thesis using slab_ok_cong [OF r(4) [OF that] same(1,2)] by (simp add: s'_def kc'_def)
      qed
      have "chain (\<lambda>b. sl_next (slabs s' b)) (kc_partial kc) ps"
        using r(10) by (rule chain_cong [THEN iffD1, rotated]) (simp add: s'_def)
      then show "chain (\<lambda>b. sl_next (slabs s' b)) (kc_partial kc') ps" by (simp add: kc'_def)
    qed (use r a0 aS f0 ch a_def in \<open>auto simp: s'_def kc'_def get_fp_def\<close>)
    moreover have "slab_frame s s' c S"
      using r(1) aS by (auto simp: slab_frame_def s'_def kc'_def kc_def)
    moreover have "x \<noteq> 0" using False by (simp add: x_def)
    ultimately have "cache_alloc_post s c S fl x s' S (fl(a := xs)) ps"
      using cache_rep_live_take [OF rep aS x] k_of_pmm [of s' s] same inv
      by (simp add: cache_alloc_post_def Let_def)
    then show thesis using object run \<open>x \<noteq> 0\<close> by blast
  qed
qed


lemma slab_ok_give:
  assumes ok: "slab_ok s c z a l" and z: "good_size z" and x: "x \<in> objs z a" "x \<notin> set l"
    and same: "hhdm s' = hhdm s" "pmm s' = pmm s"
    "sl_cache (slabs s' a) = sl_cache (slabs s a)" "sl_objects (slabs s' a) = sl_objects (slabs s a)"
    "sl_inuse (slabs s' a) = sl_inuse (slabs s a) - 1"
  shows "slab_ok s' c z a (x # l)"
proof -
  have d: "distinct (x # l)" "set (x # l) \<subseteq> objs z a" using ok x by (auto simp: slab_ok_def)
  have "card (set (x # l)) \<le> card (objs z a)" by (rule card_mono [OF finite_objs d(2)])
  moreover have "card (objs z a) = slab_objects z" using ok z by (simp add: slab_ok_def card_objs)
  moreover have "card (set (x # l)) = Suc (length l)" using distinct_card [OF d(1)] by simp
  ultimately have "Suc (length l) \<le> slab_objects z" by simp
  then have pos: "0 < unat (sl_inuse (slabs s a))" using ok by (simp add: slab_ok_def)
  then have "unat (sl_inuse (slabs s a) - 1) = unat (sl_inuse (slabs s a)) - 1"
    by (metis unat_minus_one unat_0 less_irrefl)
  then show ?thesis
    using ok d same pos k_of_pmm(4) [OF same(2,1), of a] by (simp add: slab_ok_def)
qed

lemma live_give:
  assumes "a \<in> S" "x \<in> objs z a" "good_size z" "\<And>b. b \<in> S \<Longrightarrow> slab_page b" "x \<notin> set (fl a)"
  shows "slab_live z S (fl(a := x # fl a)) = slab_live z S fl - {x}"
proof -
  have only: "b = a" if "b \<in> S" "x \<in> objs z b" for b
    using objs_page_base [OF assms(4) [OF that(1)] assms(3) that(2)]
      objs_page_base [OF assms(4) [OF assms(1)] assms(3,2)] by (rule trans [OF sym])
  have "objs z b - set ((fl(a := x # fl a)) b) = objs z b - set (fl b) - {x}" if "b \<in> S" for b
    using only [OF that] by (cases "b = a") auto
  then have "slab_live z S (fl(a := x # fl a)) = (\<Union>b\<in>S. objs z b - set (fl b) - {x})"
    unfolding slab_live_def by (intro SUP_cong) auto
  then show ?thesis by (auto simp: slab_live_def)
qed

text \<open>What a deallocation does: the object leaves the live set and nothing else does.\<close>

definition cache_free_post ::
  "kstate \<Rightarrow> nat \<Rightarrow> u64 set \<Rightarrow> (u64 \<Rightarrow> u64 list) \<Rightarrow> u64 \<Rightarrow> kstate \<Rightarrow> (u64 \<Rightarrow> u64 list)
    \<Rightarrow> u64 list \<Rightarrow> bool" where
  "cache_free_post s c S fl x s' fl' ps' \<longleftrightarrow>
     k_inv s' \<and> pmm s' = pmm s \<and> cache_rep_but {} s' c S fl' ps' \<and> slab_frame s s' c S
     \<and> (let z = kc_size (cache_pool s ! c) in slab_live z S fl' = slab_live z S fl - {x})"

lemma kmem_cache_free_correct:
  assumes inv: "k_inv s" and rep: "cache_rep_but {} s c S fl ps"
    and live: "x \<in> slab_live (kc_size (cache_pool s ! c)) S fl"
  obtains s' fl' ps' where "kmem_cache_free s c x = Some s'" "cache_free_post s c S fl x s' fl' ps'"
proof -
  note goal = that
  define kc where "kc = cache_pool s ! c"
  note r = cache_rep_butD [OF rep kc_def]
  from live obtain a where aS: "a \<in> S" and xo: "x \<in> objs (kc_size kc) a" "x \<notin> set (fl a)"
    by (auto simp: slab_live_def kc_def)
  have oka: "slab_ok s c (kc_size kc) a (fl a)" by (rule r(4) [OF aS])
  then have pa: "slab_page a" by (simp add: slab_ok_def)
  then have a0: "a \<noteq> 0" by (simp add: slab_page_def)
  have base: "page_base x = a" by (rule objs_page_base [OF pa r(3) xo(1)])
  have x0: "x \<noteq> 0" using xo(1) obj_at_nonzero [OF pa] by (auto simp: objs_def)
  define s0 where "s0 = put_slab s a ((slabs s a)\<lparr>sl_inuse := sl_inuse (slabs s a) - 1\<rparr>)"
  define fl' where "fl' = fl(a := x # fl a)"
  have other: "x \<notin> set (fl b)" if "b \<in> S" "b \<noteq> a" for b
    using objs_page_base [of b "kc_size kc" x] r(3) r(4) [OF that(1)] base that(2)
    by (auto simp: slab_ok_def)
  have live': "slab_live (kc_size kc) S fl' = slab_live (kc_size kc) S fl - {x}"
    unfolding fl'_def
    by (rule live_give [of a S x "kc_size kc" fl]) (use aS xo r(3,4) in \<open>auto simp: slab_ok_def\<close>)
  have okb: "slab_ok s' c (kc_size kc) b (fl' b)"
    if "b \<in> S" "hhdm s' = hhdm s" "pmm s' = pmm s"
      "\<And>b. b \<noteq> a \<Longrightarrow> slabs s' b = slabs s b"
      "sl_cache (slabs s' a) = sl_cache (slabs s a)" "sl_objects (slabs s' a) = sl_objects (slabs s a)"
      "sl_inuse (slabs s' a) = sl_inuse (slabs s a) - 1" for b s'
  proof (cases "b = a")
    case True
    then show ?thesis using slab_ok_give [OF oka r(3) xo that(2,3,5-7)] by (simp add: fl'_def)
  next
    case False
    then show ?thesis using slab_ok_cong [OF r(4) [OF that(1)] that(2,3)] that(4) [OF False]
      by (simp add: fl'_def)
  qed
  have finish: thesis
    if "kmem_cache_free s c x = Some s'" "cache_rep_but {} s' c S fl' ps'" "slab_frame s s' c S"
      "pmm s' = pmm s" for s' ps'
    using live' inv k_of_pmm(3) [OF that(4)] that(2-4)
    by (intro goal [OF that(1)]) (simp_all add: cache_free_post_def slab_frame_def kc_def Let_def)
  show thesis
  proof (cases "a = kc_cpu_slab kc")
    case True
    define kc' where "kc' = kc\<lparr>kc_cpu_freelist := x\<rparr>"
    define s' where "s' = put_cache (set_fp s0 x (kc_cpu_freelist kc)) c kc'"
    have kc's: "cache_pool s' ! c = kc'" using r(1) by (simp add: s'_def s0_def)
    have "kmem_cache_free s c x = Some s'"
      using r(1) True base by (simp add: kmem_cache_free_def get_cache_def kc_def s'_def s0_def kc'_def Let_def)
    moreover have "cache_rep_but {} s' c S fl' ps"
    proof (rule cache_rep_butI [OF _ _ kc's])
      show "slab_ok s' c (kc_size kc') b (fl' b)" if "b \<in> S" for b
        using okb [OF that, of s'] by (simp add: s'_def s0_def kc'_def)
      have "chain (\<lambda>b. sl_next (slabs s' b)) (kc_partial kc) ps"
        using r(10) by (rule chain_cong [THEN iffD1, rotated]) (simp add: s'_def s0_def)
      then show "chain (\<lambda>b. sl_next (slabs s' b)) (kc_partial kc') ps" by (simp add: kc'_def)
      show "chain (mem s') (sl_freelist (slabs s' b)) (fl' b)" if "b \<in> S" "b \<noteq> kc_cpu_slab kc'" for b
        using r(9) [OF that(1)] that other [of b] True
        by (simp add: s'_def s0_def kc'_def fl'_def)
      show "kc_cpu_slab kc' \<in> S \<and> chain (mem s') (kc_cpu_freelist kc') (fl' (kc_cpu_slab kc'))
          \<and> sl_freelist (slabs s' (kc_cpu_slab kc')) = 0"
        using r(7,8) True a0 aS x0 xo(2) by (simp add: s'_def s0_def kc'_def fl'_def)
      show "set ps = {b \<in> S. b \<noteq> kc_cpu_slab kc' \<and> b \<notin> {} \<and> fl' b \<noteq> []}"
        using r(12) True by (auto simp: kc'_def fl'_def)
    qed (use r a0 True in \<open>auto simp: s'_def s0_def kc'_def\<close>)
    moreover have "slab_frame s s' c S"
      using r(1) aS base by (auto simp: slab_frame_def s'_def s0_def kc'_def kc_def)
    ultimately show thesis using finish by (simp add: s'_def s0_def)
  next
    case False
    define f where "f = sl_freelist (slabs s a)"
    have cha: "chain (mem s) f (fl a)" using r(9) [OF aS False] by (simp add: f_def)
    define kc' where "kc' = (if f = 0 then kc\<lparr>kc_partial := a\<rparr> else kc)"
    have kcz: "kc_size kc' = kc_size kc" by (simp add: kc'_def)
    define sl' where "sl' = (slabs s a)\<lparr>sl_inuse := sl_inuse (slabs s a) - 1, sl_freelist := x,
       sl_next := (if f = 0 then kc_partial kc else sl_next (slabs s a))\<rparr>"
    define s' where "s' = put_cache (put_slab (set_fp s0 x f) a sl') c kc'"
    define ps' where "ps' = (if f = 0 then a # ps else ps)"
    have kc's: "cache_pool s' ! c = kc'" using r(1) by (simp add: s'_def s0_def)
    have kid: "put_cache t c kc = t" if "cache_pool t = cache_pool s" for t
      using that by (simp add: put_cache_def kc_def flip: that)
    have "kmem_cache_free s c x = Some s'"
      using r(1) False base kid
      by (simp add: kmem_cache_free_def get_cache_def s'_def s0_def kc'_def Let_def f_def sl'_def
          flip: kc_def)
    moreover have "cache_rep_but {} s' c S fl' ps'"
    proof (rule cache_rep_butI [OF _ _ kc's])
      show "slab_ok s' c (kc_size kc') b (fl' b)" if "b \<in> S" for b
        unfolding kcz by (rule okb [OF that]) (simp_all add: s'_def s0_def sl'_def)
      show "chain (\<lambda>b. sl_next (slabs s' b)) (kc_partial kc') ps'"
      proof -
        have "chain (\<lambda>b. sl_next (slabs s' b)) (kc_partial kc) ps"
          using r(10)
        proof (rule chain_cong [THEN iffD1, rotated])
          fix b assume "b \<in> set ps"
          then have "fl b \<noteq> []" unfolding r(12) by simp
          then have "b = a \<Longrightarrow> f \<noteq> 0" using cha by (cases "fl a") simp_all
          then show "sl_next (slabs s b) = sl_next (slabs s' b)"
            by (auto simp: s'_def s0_def sl'_def)
        qed
        then show ?thesis using a0 by (simp add: kc'_def ps'_def s'_def s0_def sl'_def)
      qed
      show "chain (mem s') (sl_freelist (slabs s' b)) (fl' b)" if "b \<in> S" "b \<noteq> kc_cpu_slab kc'" for b
        using r(9) [OF that(1)] that other [of b] cha x0 xo(2)
        by (simp add: s'_def s0_def kc'_def fl'_def sl'_def split: if_splits)
      show "kc_cpu_slab kc' \<in> S \<and> chain (mem s') (kc_cpu_freelist kc') (fl' (kc_cpu_slab kc'))
          \<and> sl_freelist (slabs s' (kc_cpu_slab kc')) = 0" if "kc_cpu_slab kc' \<noteq> 0"
        using r(6,7,8) False other [of "kc_cpu_slab kc"] that
        by (simp add: s'_def s0_def kc'_def fl'_def split: if_splits)
      show "set ps' = {b \<in> S. b \<noteq> kc_cpu_slab kc' \<and> b \<notin> {} \<and> fl' b \<noteq> []}"
      proof -
        have "f = 0 \<longleftrightarrow> fl a = []" using cha by (cases "fl a") auto
        moreover have "kc_cpu_slab kc' = kc_cpu_slab kc" by (simp add: kc'_def)
        moreover have "set ps' = (if f = 0 then insert a (set ps) else set ps)" by (simp add: ps'_def)
        ultimately show ?thesis
          unfolding r(12) fl'_def using False aS by (cases "f = 0") (simp_all, blast+)
      qed
      have "a \<notin> set ps" if "f = 0"
        using cha that unfolding r(12) by simp
      then show "distinct ps'" using r(11) by (simp add: ps'_def)
    qed (use r in \<open>auto simp: s'_def s0_def kc'_def split: if_splits\<close>)
    moreover have "slab_frame s s' c S"
      using r(1) aS base by (auto simp: slab_frame_def s'_def s0_def kc'_def kc_def)
    ultimately show thesis using finish by (simp add: s'_def s0_def)
  qed
qed


subsection \<open>The contract\<close>

definition cache_rep :: "nat \<Rightarrow> kstate \<Rightarrow> u64 set \<Rightarrow> bool" where
  "cache_rep c s L \<longleftrightarrow> k_inv s \<and>
     (\<exists>S fl ps. cache_rep_but {} s c S fl ps \<and> L = slab_live (kc_size (cache_pool s ! c)) S fl)"

definition cache_room :: "nat \<Rightarrow> kstate \<Rightarrow> nat" where
  "cache_room c s = unat (kc_size (cache_pool s ! c))"

lemma cache_repI:
  "k_inv s \<Longrightarrow> cache_rep_but {} s c S fl ps \<Longrightarrow> L = slab_live (kc_size (cache_pool s ! c)) S fl \<Longrightarrow>
   cache_rep c s L"
  by (auto simp: cache_rep_def)

lemma cache_rep_objs:
  assumes "cache_rep c s L" "x \<in> L"
  obtains a where "x \<in> objs (kc_size (cache_pool s ! c)) a" "slab_page a" "used_page s a"
    "good_size (kc_size (cache_pool s ! c))"
proof -
  obtain S fl ps where rep: "cache_rep_but {} s c S fl ps"
    and L: "L = slab_live (kc_size (cache_pool s ! c)) S fl"
    using assms(1) by (auto simp: cache_rep_def)
  obtain a where a: "a \<in> S" "x \<in> objs (kc_size (cache_pool s ! c)) a"
    using assms(2) by (auto simp: slab_live_def L)
  show thesis
    using that [OF a(2)] cache_rep_butD(3,4) [OF rep refl] a(1) by (simp add: slab_ok_def)
qed

lemma cache_rep_nonnull: "cache_rep c s L \<Longrightarrow> 0 \<notin> L"
proof
  assume "cache_rep c s L" "0 \<in> L"
  then obtain a where "0 \<in> objs (kc_size (cache_pool s ! c)) a" "slab_page a"
    by (rule cache_rep_objs)
  then show False using obj_at_nonzero [of a] unfolding objs_def by force
qed

lemma cache_rep_apart:
  assumes "cache_rep c s L" "x \<in> L" "y \<in> L" "unat x < unat y"
  shows "unat x + unat (kc_size (cache_pool s ! c)) \<le> unat y"
proof -
  obtain a where a: "x \<in> objs (kc_size (cache_pool s ! c)) a" "slab_page a"
      "good_size (kc_size (cache_pool s ! c))" using cache_rep_objs [OF assms(1,2)] .
  obtain b where b: "y \<in> objs (kc_size (cache_pool s ! c)) b" "slab_page b"
    using cache_rep_objs [OF assms(1,3)] .
  show ?thesis
    by (rule objs_apart [OF a(2) b(2) _ a(1) b(1) assms(4)]) (use a(3) in \<open>simp add: good_size_def\<close>)
qed

interpretation slab: object_allocator "\<lambda>s. kmem_cache_alloc s c" "\<lambda>s. kmem_cache_free s c"
  "cache_rep c" "cache_room c" for c
proof unfold_locales
  fix s L
  assume "cache_rep c s L"
  then obtain S fl ps where inv: "k_inv s" and rep: "cache_rep_but {} s c S fl ps"
    and L: "L = slab_live (kc_size (cache_pool s ! c)) S fl" by (auto simp: cache_rep_def)
  show "\<exists>x s'. kmem_cache_alloc s c = Some (x, s') \<and> (if x = 0 then s' = s
      else x \<notin> L \<and> cache_rep c s' (insert x L) \<and> cache_room c s' = cache_room c s)"
  proof (cases rule: kmem_cache_alloc_correct [OF inv rep])
    case 1
    then show ?thesis by simp
  next
    case (2 x s' S' fl' ps')
    have z: "kc_size (cache_pool s' ! c) = kc_size (cache_pool s ! c)"
      using 2(3) slab_frame_size by (auto simp: cache_alloc_post_def)
    have p: "k_inv s'" "cache_rep_but {} s' c S' fl' ps'" "x \<notin> L"
      "insert x L = slab_live (kc_size (cache_pool s' ! c)) S' fl'"
      using 2(3) by (simp_all add: cache_alloc_post_def L Let_def z)
    then have "x \<notin> L \<and> cache_rep c s' (insert x L) \<and> cache_room c s' = cache_room c s"
      using cache_repI [OF p(1,2,4)] by (simp add: cache_room_def z)
    then show ?thesis using 2(1,2) by auto
  qed
next
  fix s L x
  assume "cache_rep c s L" "x \<in> L"
  then obtain S fl ps where inv: "k_inv s" and rep: "cache_rep_but {} s c S fl ps"
    and L: "L = slab_live (kc_size (cache_pool s ! c)) S fl" by (auto simp: cache_rep_def)
  obtain s' fl' ps' where *: "kmem_cache_free s c x = Some s'" "cache_free_post s c S fl x s' fl' ps'"
    using kmem_cache_free_correct [OF inv rep] \<open>x \<in> L\<close> L by blast
  then have z: "kc_size (cache_pool s' ! c) = kc_size (cache_pool s ! c)"
    using slab_frame_size by (auto simp: cache_free_post_def)
  have p: "k_inv s'" "cache_rep_but {} s' c S fl' ps'"
    "L - {x} = slab_live (kc_size (cache_pool s' ! c)) S fl'"
    using *(2) by (simp_all add: cache_free_post_def L Let_def z)
  show "\<exists>s'. kmem_cache_free s c x = Some s' \<and> cache_rep c s' (L - {x})
      \<and> cache_room c s' = cache_room c s"
    using *(1) cache_repI [OF p] by (simp add: cache_room_def z)
next
  fix s L
  assume "cache_rep c s L"
  then show "0 \<notin> L" by (rule cache_rep_nonnull)
next
  fix s L x y
  assume "cache_rep c s L" "x \<in> L" "y \<in> L" "unat x < unat y"
  then show "unat x + cache_room c s \<le> unat y"
    unfolding cache_room_def by (rule cache_rep_apart)
qed

text \<open>An operation on one cache leaves every other cache as it was.\<close>

lemma cache_rep_other:
  assumes rep: "cache_rep_but {} s d S fl ps" and fr: "slab_frame s s' c T" and "c \<noteq> d"
    and disj: "S \<inter> T = {}" and pages: "k_pages s' = k_pages s" and free: "k_free_set s' \<subseteq> k_free_set s"
  shows "cache_rep_but {} s' d S fl ps"
proof -
  note r = cache_rep_butD [OF rep refl]
  have same: "hhdm s' = hhdm s" "length (cache_pool s') = length (cache_pool s)"
    "cache_pool s' ! d = cache_pool s ! d" using fr assms(3) by (simp_all add: slab_frame_def)
  have sl: "slabs s' a = slabs s a" if "a \<in> S" for a
    using fr disj that by (auto simp: slab_frame_def)
  have mm: "mem s' x = mem s x" if "a \<in> S" "x \<in> set (fl a)" for a x
  proof -
    have "page_base x = a"
      using objs_page_base [of a "kc_size (cache_pool s ! d)" x] r(3) r(4) [OF that(1)] that(2)
      by (auto simp: slab_ok_def)
    then show ?thesis using fr disj that by (auto simp: slab_frame_def)
  qed
  have ch: "chain (mem s') p (fl a) = chain (mem s) p (fl a)" if "a \<in> S" for p a
    using mm [OF that] by (rule chain_cong)
  show ?thesis
  proof (rule cache_rep_butI [OF _ _ same(3)])
    show "slab_ok s' d (kc_size (cache_pool s ! d)) a (fl a)" if "a \<in> S" for a
      using r(4) [OF that] used_page_cong [OF same(1) pages free, of a] sl [OF that]
      by (simp add: slab_ok_def)
    show "chain (\<lambda>a. sl_next (slabs s' a)) (kc_partial (cache_pool s ! d)) ps"
      using r(10) by (rule chain_cong [THEN iffD1, rotated]) (use r(12) sl in auto)
  qed (use r same ch sl in auto)
qed

lemma unat_ALIGN_UP_8:
  assumes "unat (x :: u64) + 7 < 2 ^ 64"
  shows "unat (ALIGN_UP x 8) = 8 * ((unat x + 7) div 8)"
proof -
  have "ALIGN_UP x 8 = ALIGN_DOWN (x + 7) (2 ^ 3)"
    by (simp add: ALIGN_UP_def ALIGN_DOWN_def add_diff_eq add.commute)
  moreover have "unat (x + 7) = unat x + 7"
    using unat_add_no_wrap [of x 7] assms by simp
  ultimately show ?thesis
    using unat_align_down_pow2 [of 3 "x + 7"] by (simp add: minus_mod_eq_mult_div)
qed

subsection \<open>Properties\<close>

text \<open>A sample state: the eight pages of \<open>pmm_sample\<close> and an empty cache pool.\<close>

definition null_cache :: kmem_cache where
  "null_cache = \<lparr>kc_size = 0, kc_obj_size = 0, kc_obj_per_slab = 0, kc_partial = 0,
     kc_cpu_freelist = 0, kc_cpu_slab = 0\<rparr>"

definition null_slab :: slab_t where
  "null_slab = \<lparr>sl_freelist = 0, sl_next = 0, sl_cache = 0, sl_inuse = 0, sl_objects = 0\<rparr>"

definition k_sample :: kstate where
  "k_sample = \<lparr>hhdm = 0xffff800000000000, mem = (\<lambda>_. 0), pmm = pmm_sample,
     slabs = (\<lambda>_. null_slab), cache_pool = replicate 64 null_cache, cache_pool_idx = 0,
     kernel_pml4 = 0, page_table_cache = None, vm_area_cache = None, vm_map_cache = None\<rparr>"

lemma k_sample_inv: "k_inv k_sample"
  using pmm_sample_inv by (simp add: k_inv_def k_sample_def) (simp add: pmm_sample_def)

lemma kmem_cache_create_correct:
  assumes "k_inv s" "cache_pool_idx s < length (cache_pool s)" "unat sz \<le> 4064"
  shows "\<exists>s'. kmem_cache_create s sz = Some (cache_pool_idx s, s')
    \<and> cache_rep (cache_pool_idx s) s' {}
    \<and> cache_room (cache_pool_idx s) s' = 8 * ((max 8 (unat sz) + 7) div 8)
    \<and> cache_pool_idx s' = Suc (cache_pool_idx s) \<and> length (cache_pool s') = length (cache_pool s)
    \<and> (\<forall>d. d \<noteq> cache_pool_idx s \<longrightarrow> cache_pool s' ! d = cache_pool s ! d)
    \<and> pmm s' = pmm s \<and> mem s' = mem s \<and> slabs s' = slabs s \<and> hhdm s' = hhdm s"
proof -
  define os where "os = (if sz < 8 then 8 else sz)"
  define z where "z = ALIGN_UP os 8"
  define c where "c = cache_pool_idx s"
  define kc where "kc = \<lparr>kc_size = z, kc_obj_size = os,
         kc_obj_per_slab = (PAGE_SIZE - SLAB_HDR) div z, kc_partial = 0,
         kc_cpu_freelist = 0, kc_cpu_slab = 0\<rparr>"
  define s' where "s' = (put_cache s c kc)\<lparr>cache_pool_idx := c + 1\<rparr>"
  have os: "unat os = max 8 (unat sz)" by (auto simp: os_def word_less_nat_alt)
  then have uz: "unat z = 8 * ((max 8 (unat sz) + 7) div 8)"
    using unat_ALIGN_UP_8 [of os] assms(3) by (simp add: z_def)
  have b: "8 * ((m + 7) div 8) \<le> m + 7" "m \<le> 8 * ((m + 7) div 8)" for m :: nat by simp_all
  have le: "8 * ((m + 7) div 8) \<le> 4064" if "m \<le> 4064" for m :: nat
    using div_le_mono [of "m + 7" 4071 8] that by simp
  have z: "good_size z" using b(2) [of "max 8 (unat sz)"] le [of "max 8 (unat sz)"] assms(3)
    by (simp add: good_size_def uz)
  then have z0: "z \<noteq> 0" by (auto simp: good_size_def)
  have run: "kmem_cache_create s sz = Some (c, s')"
    using z0 assms(2)
    by (simp add: kmem_cache_create_def Let_def s'_def kc_def c_def z_def os_def del: SLAB_HDR_eq)
  have c: "c < length (cache_pool s)" using assms(2) by (simp add: c_def)
  have kc's: "cache_pool s' ! c = kc" using c by (simp add: s'_def put_cache_def)
  have "cache_rep_but {} s' c {} (\<lambda>_. []) []"
    by (rule cache_rep_butI [OF _ _ kc's]) (use z c in \<open>simp_all add: kc_def s'_def\<close>)
  moreover have "k_inv s'" using assms(1) by (simp add: k_inv_def s'_def)
  ultimately have "cache_rep c s' {}" by (intro cache_repI) (auto simp: slab_live_def)
  moreover have "cache_room c s' = unat z" by (simp add: cache_room_def kc's kc_def)
  ultimately show ?thesis
    using run uz by (auto simp: s'_def simp flip: c_def)
qed

text \<open>
  A cache created for objects of up to 4064 bytes starts empty and well formed, rounds the
  object size up to a positive multiple of 8, and takes the next entry of the pool.
\<close>

theorem kmem_cache_create_spec:
  assumes "k_inv s" and "cache_pool_idx s < length (cache_pool s)" and "unat sz \<le> 4064"
  shows "\<exists>s'. kmem_cache_create s sz = Some (cache_pool_idx s, s')
    \<and> cache_rep (cache_pool_idx s) s' {}
    \<and> cache_room (cache_pool_idx s) s' = 8 * ((max 8 (unat sz) + 7) div 8)
    \<and> cache_pool_idx s' = Suc (cache_pool_idx s)
    \<and> (\<forall>d. d \<noteq> cache_pool_idx s \<longrightarrow> cache_pool s' ! d = cache_pool s ! d)"
  using kmem_cache_create_correct [OF assms] by blast

theorem kmem_cache_create_spec_witness:
  "\<exists>s'. kmem_cache_create k_sample 20 = Some (0, s') \<and> cache_rep 0 s' {} \<and> cache_room 0 s' = 24"
proof -
  have "cache_pool_idx k_sample < length (cache_pool k_sample)" "unat (20 :: u64) \<le> 4064"
    "cache_pool_idx k_sample = 0" by (simp_all add: k_sample_def)
  with kmem_cache_create_spec [OF k_sample_inv this(1,2)] show ?thesis by auto
qed

text \<open>A cache of 24-byte objects in the sample state, with two objects handed out.\<close>

definition cache_sample :: kstate where
  "cache_sample = snd (the (kmem_cache_create k_sample 20))"

lemma cache_sample_rep: "cache_rep 0 cache_sample {}"
proof -
  have "cache_pool_idx k_sample < length (cache_pool k_sample)" "unat (20 :: u64) \<le> 4064"
    "cache_pool_idx k_sample = 0" by (simp_all add: k_sample_def)
  with kmem_cache_create_correct [OF k_sample_inv this(1,2)] show ?thesis
    by (auto simp: cache_sample_def)
qed

lemma cache_alloc_layout:
  assumes "cache_rep c s L" "x \<in> L"
  shows "8 dvd unat x" "32 \<le> unat x mod 4096" "unat x mod 4096 + cache_room c s \<le> 4096"
proof -
  obtain a where a: "x \<in> objs (kc_size (cache_pool s ! c)) a" "slab_page a"
      "good_size (kc_size (cache_pool s ! c))" using cache_rep_objs [OF assms] .
  then obtain i where i: "x = obj_at a (kc_size (cache_pool s ! c)) i"
      "i < slab_objects (kc_size (cache_pool s ! c))" by (auto simp: objs_def)
  define z where "z = kc_size (cache_pool s ! c)"
  note u = unat_obj_at [OF a(2) i(2), folded i(1) z_def]
  show "8 dvd unat x" unfolding i(1)
    by (rule obj_at_aligned [OF a(2) i(2)]) (use a(3) in \<open>simp add: good_size_def\<close>)
  define d where "d = 32 + i * unat z"
  have d: "d < 4096" "32 \<le> d" "d + unat z \<le> 4096"
    using u(2) a(3) by (simp_all add: d_def good_size_def z_def)
  have "unat a mod 4096 = 0" using a(2) by (simp add: slab_page_def)
  then obtain k where "unat a = 4096 * k" by auto
  then have "unat x = 4096 * k + d" using u(1) by (simp add: d_def)
  then have "unat x mod 4096 = d" using d(1) by simp
  then show "32 \<le> unat x mod 4096" "unat x mod 4096 + cache_room c s \<le> 4096"
    using d by (simp_all add: cache_room_def z_def)
qed

text \<open>
  C8: \<open>kmem_cache_alloc\<close> on a well-formed cache always returns. It returns a null pointer, with
  the state unchanged, only when no page is free; otherwise the object was not handed out before,
  is 8-byte aligned, lies behind the header of its page and within the page, and does not overlap
  any other handed-out object; exactly it becomes handed out.
\<close>

theorem kmem_cache_alloc_spec:
  assumes "cache_rep c s L"
  shows "\<exists>x s'. kmem_cache_alloc s c = Some (x, s')
    \<and> (if x = 0 then s' = s \<and> k_free_set s = {}
       else x \<notin> L \<and> cache_rep c s' (insert x L) \<and> cache_room c s' = cache_room c s
         \<and> 8 dvd unat x \<and> 32 \<le> unat x mod 4096 \<and> unat x mod 4096 + cache_room c s \<le> 4096
         \<and> (\<forall>y\<in>L. unat x + cache_room c s \<le> unat y \<or> unat y + cache_room c s \<le> unat x))"
proof -
  obtain x s' where x: "kmem_cache_alloc s c = Some (x, s')" using slab.alloc_law [OF assms] by blast
  show ?thesis
  proof (cases "x = 0")
    case True
    obtain S fl ps where "k_inv s" "cache_rep_but {} s c S fl ps" using assms by (auto simp: cache_rep_def)
    then have "k_free_set s = {}" using x True by (cases rule: kmem_cache_alloc_correct) auto
    then show ?thesis using x True slab.alloc_fail [OF assms] by auto
  next
    case False
    note n = slab.alloc_new [OF assms x False]
    show ?thesis
      using x False n cache_alloc_layout [OF n(2), of x] slab.new_apart [OF assms x False] by simp
  qed
qed

theorem kmem_cache_alloc_spec_witness:
  "cache_rep 0 cache_sample {}
   \<and> (\<exists>x s'. kmem_cache_alloc cache_sample 0 = Some (x, s')
     \<and> (if x = 0 then s' = cache_sample \<and> k_free_set cache_sample = {}
        else cache_rep 0 s' {x} \<and> 8 dvd unat x))"
proof -
  obtain x s' where "kmem_cache_alloc cache_sample 0 = Some (x, s')"
    "if x = 0 then s' = cache_sample \<and> k_free_set cache_sample = {}
       else cache_rep 0 s' (insert x {}) \<and> 8 dvd unat x"
    using kmem_cache_alloc_spec [OF cache_sample_rep] by (auto split: if_splits)
  then show ?thesis using cache_sample_rep by blast
qed

text \<open>
  C18: \<open>kmem_cache_free\<close> of a handed-out object always returns, takes exactly that object out of
  the handed-out set, and keeps the cache well formed.
\<close>

theorem kmem_cache_free_spec:
  assumes "cache_rep c s L" and "x \<in> L"
  shows "\<exists>s'. kmem_cache_free s c x = Some s' \<and> cache_rep c s' (L - {x})
    \<and> cache_room c s' = cache_room c s"
  by (rule slab.free_law [OF assms])

lemma cache_sample_object:
  "\<exists>x s'. kmem_cache_alloc cache_sample 0 = Some (x, s') \<and> x \<noteq> 0 \<and> cache_rep 0 s' {x}"
proof -
  have "5 \<in> pmm_free_set pmm_sample" by (simp add: pmm_free_set_def pmm_sample_def bm_used_def)
  moreover have "pmm cache_sample = pmm_sample"
    using kmem_cache_create_correct [OF k_sample_inv, of 20]
    by (auto simp: cache_sample_def k_sample_def)
  ultimately have "k_free_set cache_sample \<noteq> {}" by (auto simp: k_free_set_def)
  obtain S fl ps where "k_inv cache_sample" "cache_rep_but {} cache_sample 0 S fl ps"
    using cache_sample_rep by (auto simp: cache_rep_def)
  then obtain x s' where "kmem_cache_alloc cache_sample 0 = Some (x, s')" "x \<noteq> 0"
    using \<open>k_free_set cache_sample \<noteq> {}\<close> by (cases rule: kmem_cache_alloc_correct) auto
  then show ?thesis using slab.alloc_new(2) [OF cache_sample_rep] by blast
qed

theorem kmem_cache_free_spec_witness:
  "\<exists>s x s'. cache_rep 0 s {x} \<and> kmem_cache_free s 0 x = Some s' \<and> cache_rep 0 s' {}"
proof -
  obtain x s where s: "cache_rep 0 s {x}" using cache_sample_object by blast
  then show ?thesis using kmem_cache_free_spec [OF s, of x] by auto
qed

text \<open>
  \<open>n\<close> allocations in a row hand out pairwise different objects, none of them handed out
  before, and stop early only at the first failure.
\<close>

theorem kmem_cache_alloc_distinct:
  assumes "cache_rep c s L"
  shows "\<exists>xs s'. allocate_n (\<lambda>s. kmem_cache_alloc s c) n s = Some (xs, s') \<and> length xs \<le> n
    \<and> distinct xs \<and> set xs \<inter> L = {} \<and> cache_rep c s' (L \<union> set xs)"
  using slab.allocate_n_law [OF assms, of n] by blast

theorem kmem_cache_alloc_distinct_witness:
  "\<exists>xs s'. allocate_n (\<lambda>s. kmem_cache_alloc s 0) 100 cache_sample = Some (xs, s') \<and> length xs \<le> 100
    \<and> distinct xs \<and> cache_rep 0 s' (set xs)"
  using kmem_cache_alloc_distinct [OF cache_sample_rep, of 100] by auto


lemma cache_rep_disjoint:
  assumes "cache_rep_but X s c S fl ps" "cache_rep_but Y s d T fm qs" "c \<noteq> d"
  shows "S \<inter> T = {}"
proof -
  have "sl_cache (slabs s a) = c" if "a \<in> S" for a
    using cache_rep_butD(4) [OF assms(1) refl that] by (simp add: slab_ok_def)
  moreover have "sl_cache (slabs s a) = d" if "a \<in> T" for a
    using cache_rep_butD(4) [OF assms(2) refl that] by (simp add: slab_ok_def)
  ultimately show ?thesis using assms(3) by auto
qed

lemma slab_frame_pool: "slab_frame s s' c T \<Longrightarrow> c \<noteq> d \<Longrightarrow> cache_pool s' ! d = cache_pool s ! d"
  by (simp add: slab_frame_def)

lemma cache_alloc_other:
  assumes rep: "cache_rep c s L" and other: "cache_rep d s M" and "c \<noteq> d"
    and run: "kmem_cache_alloc s c = Some (x, s')"
  shows "cache_rep d s' M"
proof -
  obtain S fl ps where inv: "k_inv s" and S: "cache_rep_but {} s c S fl ps"
    using rep by (auto simp: cache_rep_def)
  obtain T fm qs where T: "cache_rep_but {} s d T fm qs"
    and M: "M = slab_live (kc_size (cache_pool s ! d)) T fm" using other by (auto simp: cache_rep_def)
  show ?thesis
  proof (cases rule: kmem_cache_alloc_correct [OF inv S])
    case 1
    then show ?thesis using run other by simp
  next
    case (2 y t S' fl' ps')
    then have t: "t = s'" using run by simp
    note p = 2(3) [unfolded cache_alloc_post_def t]
    have "b \<notin> T" if "b \<in> S' - S" for b
    proof
      assume "b \<in> T"
      then have "used_page s b" using cache_rep_butD(4) [OF T refl] by (simp add: slab_ok_def)
      then show False using p that by (auto simp: used_page_def)
    qed
    then have "T \<inter> S' = {}" using cache_rep_disjoint [OF S T assms(3)] by blast
    then have "cache_rep_but {} s' d T fm qs"
      using p by (intro cache_rep_other [OF T _ assms(3)]) auto
    then show ?thesis
      using p M slab_frame_pool [OF _ assms(3), of s s' S'] by (intro cache_repI) auto
  qed
qed

lemma cache_free_other:
  assumes rep: "cache_rep c s L" and other: "cache_rep d s M" and "c \<noteq> d"
    and run: "kmem_cache_free s c x = Some s'" and x: "x \<in> L"
  shows "cache_rep d s' M"
proof -
  obtain S fl ps where inv: "k_inv s" and S: "cache_rep_but {} s c S fl ps"
    and L: "L = slab_live (kc_size (cache_pool s ! c)) S fl" using rep by (auto simp: cache_rep_def)
  obtain T fm qs where T: "cache_rep_but {} s d T fm qs"
    and M: "M = slab_live (kc_size (cache_pool s ! d)) T fm" using other by (auto simp: cache_rep_def)
  obtain fl' ps' where p: "cache_free_post s c S fl x s' fl' ps'"
    using kmem_cache_free_correct [OF inv S] x L run by (metis option.inject)
  note p = p [unfolded cache_free_post_def]
  have "T \<inter> S = {}" using cache_rep_disjoint [OF S T assms(3)] by blast
  then have "cache_rep_but {} s' d T fm qs"
    using p k_of_pmm [of s' s] by (intro cache_rep_other [OF T _ assms(3)]) auto
  then show ?thesis
    using p M slab_frame_pool [OF _ assms(3), of s s' S] by (intro cache_repI) auto
qed


lemma cache_rep_cong:
  assumes "cache_rep d s M" "cache_pool s' ! d = cache_pool s ! d"
    "length (cache_pool s') = length (cache_pool s)" "mem s' = mem s" "slabs s' = slabs s"
    "pmm s' = pmm s" "hhdm s' = hhdm s"
  shows "cache_rep d s' M"
proof -
  have "used_page s' = used_page s" "k_inv s' = k_inv s"
    using k_of_pmm(3,4) [OF assms(6,7)] by auto
  moreover from this have "cache_rep_but {} s' d S fl ps = cache_rep_but {} s d S fl ps" for S fl ps
    using assms by (simp add: cache_rep_but_def slab_ok_def)
  ultimately show ?thesis using assms(1,2) by (simp add: cache_rep_def)
qed

definition cache_sample2 :: kstate where
  "cache_sample2 = snd (the (kmem_cache_create cache_sample 100))"

lemma cache_sample2_rep: "cache_rep 0 cache_sample2 {}" "cache_rep 1 cache_sample2 {}"
proof -
  have "cache_pool_idx k_sample < length (cache_pool k_sample)" "unat (20 :: u64) \<le> 4064"
    "cache_pool_idx k_sample = 0" "length (cache_pool k_sample) = 64" by (simp_all add: k_sample_def)
  with kmem_cache_create_correct [OF k_sample_inv this(1,2)]
  have s: "cache_pool_idx cache_sample = 1" "length (cache_pool cache_sample) = 64"
    by (auto simp: cache_sample_def)
  have "k_inv cache_sample" using cache_sample_rep by (simp add: cache_rep_def)
  with kmem_cache_create_correct [of cache_sample 100] s cache_sample_rep
  show "cache_rep 0 cache_sample2 {}" "cache_rep 1 cache_sample2 {}"
    by (auto simp: cache_sample2_def elim!: cache_rep_cong)
qed


text \<open>
  An object freed into the active slab of its cache is the next one handed out, and the two
  calls together leave the memory, the slab headers and the cache as if only the object's first
  word had been used as its link.
\<close>

theorem kmem_cache_lifo:
  assumes "cache_rep c s L" and "x \<in> L" and "page_base x = kc_cpu_slab (cache_pool s ! c)"
  shows "\<exists>s1 s2. kmem_cache_free s c x = Some s1 \<and> kmem_cache_alloc s1 c = Some (x, s2)
    \<and> cache_pool s2 = cache_pool s \<and> slabs s2 = slabs s
    \<and> mem s2 = (mem s)(x := kc_cpu_freelist (cache_pool s ! c))"
proof -
  obtain a where a: "x \<in> objs (kc_size (cache_pool s ! c)) a" "slab_page a"
      "good_size (kc_size (cache_pool s ! c))" using cache_rep_objs [OF assms(1,2)] .
  have "page_base x = a" by (rule objs_page_base [OF a(2,3,1)])
  then have "page_base x \<noteq> 0" using a(2) by (simp add: slab_page_def)
  moreover have "x \<noteq> 0" using cache_rep_nonnull [OF assms(1)] assms(2) by auto
  moreover have "c < length (cache_pool s)"
    using assms(1) cache_rep_butD(1) by (auto simp: cache_rep_def)
  moreover have "kmem_cache_free s c x \<noteq> None" using slab.free_law [OF assms(1,2)] by auto
  ultimately show ?thesis
    using assms(3)
    by (auto simp: kmem_cache_free_def kmem_cache_alloc_def get_cache_def get_fp_def Let_def
        put_cache_def put_slab_def set_fp_def write_cell_def)
qed


definition cache_sample3 :: kstate where
  "cache_sample3 = snd (the (kmem_cache_create k_sample 2000))"

lemma cache_sample3_alloc:
  "\<exists>s. kmem_cache_alloc cache_sample3 0 = Some (0xffff800000005020, s)
     \<and> kc_cpu_slab (cache_pool s ! 0) = 0xffff800000005000"
  by (simp add: cache_sample3_def kmem_cache_create_def k_sample_def null_cache_def put_cache_def
      put_slab_def set_fp_def get_fp_def write_cell_def kmem_cache_alloc_def get_cache_def refill_def
      alloc_new_slab_def k_alloc_page_def pmm_sample_alloc refill_take_def Let_def link_objects.simps
      phys_to_higher_half_data_def PAGE_SIZE_def ALIGN_UP_def)

lemma cache_sample3_rep: "cache_rep 0 cache_sample3 {}"
proof -
  have "cache_pool_idx k_sample < length (cache_pool k_sample)" "unat (2000 :: u64) \<le> 4064"
    "cache_pool_idx k_sample = 0" by (simp_all add: k_sample_def)
  with kmem_cache_create_correct [OF k_sample_inv this(1,2)] show ?thesis
    by (auto simp: cache_sample3_def)
qed

theorem kmem_cache_lifo_witness:
  "\<exists>s x s1 s2. cache_rep 0 s {x} \<and> kmem_cache_free s 0 x = Some s1 \<and> kmem_cache_alloc s1 0 = Some (x, s2)"
proof -
  obtain s where s: "kmem_cache_alloc cache_sample3 0 = Some (0xffff800000005020, s)"
    "kc_cpu_slab (cache_pool s ! 0) = 0xffff800000005000" using cache_sample3_alloc by blast
  have r: "cache_rep 0 s {0xffff800000005020}" using slab.alloc_new(2) [OF cache_sample3_rep s(1)] by simp
  have p: "page_base 0xffff800000005020 = kc_cpu_slab (cache_pool s ! 0)"
    by (simp add: s(2) PAGE_SIZE_def)
  show ?thesis using r kmem_cache_lifo [OF r _ p] by blast
qed

text \<open>
  Creation does not refuse objects that no page can hold: a cache for objects of more than
  4064 bytes is handed out, and its first allocation divides the page into no objects at all,
  which the assertion would catch but the default build compiles out.
\<close>

theorem kmem_cache_create_oversized:
  assumes "k_inv s" and "cache_pool_idx s < length (cache_pool s)" and "k_free_set s \<noteq> {}"
    and "4064 < unat sz" and "unat sz \<le> 2 ^ 63"
  shows "\<exists>s'. kmem_cache_create s sz = Some (cache_pool_idx s, s')
    \<and> kmem_cache_alloc s' (cache_pool_idx s) = None"
proof -
  define z where "z = ALIGN_UP sz 8"
  have uz: "unat z = 8 * ((unat sz + 7) div 8)" using unat_ALIGN_UP_8 [of sz] assms(5) by (simp add: z_def)
  have "unat sz \<le> 8 * ((unat sz + 7) div 8)" by simp
  then have z: "4064 < unat z" using assms(4) uz by linarith
  then have z0: "z \<noteq> 0" by auto
  have sz: "\<not> sz < 8" using assms(4) by (simp add: word_less_nat_alt)
  have "unat ((PAGE_SIZE - SLAB_HDR) div z) = 0" using z by (simp add: unat_div PAGE_SIZE_def)
  then have n: "(PAGE_SIZE - SLAB_HDR) div z = 0" by (simp only: unsigned_eq_0_iff)
  obtain a t where a: "k_alloc_page s = Some (a, t)" "a \<noteq> 0"
    using kpg.alloc_cases [OF assms(1)] assms(3) by metis
  then obtain p where "pmm_alloc_page (pmm s) = Some (a, p)"
    by (auto simp: k_alloc_page_def bind_eq_Some_conv)
  then show ?thesis using sz z0 n assms(2) a(2)
    by (simp add: kmem_cache_create_def kmem_cache_alloc_def refill_def alloc_new_slab_def
        get_cache_def put_cache_def k_alloc_page_def Let_def flip: z_def del: SLAB_HDR_eq)
qed

theorem kmem_cache_create_oversized_witness:
  "\<exists>s'. kmem_cache_create k_sample 5000 = Some (0, s') \<and> kmem_cache_alloc s' 0 = None"
proof -
  have "cache_pool_idx k_sample < length (cache_pool k_sample)" "cache_pool_idx k_sample = 0"
    "5 \<in> k_free_set k_sample"
    by (simp_all add: k_sample_def k_free_set_def pmm_free_set_def pmm_sample_def bm_used_def)
  then show ?thesis
    using kmem_cache_create_oversized [OF k_sample_inv, of 5000] by auto
qed

end
