(* ===== verification/Vm_Areas.thy ===== *)
theory Vm_Areas
  imports Vm_Map Slab_Ops
begin

text \<open>
  The area lists of the memory maps: an area list denotes a partial function from addresses to
  flags; finding a gap is first fit, inserting an area and cutting a range out update that
  function and keep the areas sorted, disjoint and backed by live slab objects.
\<close>

subsection \<open>Areas as a partial function\<close>

fun areas_wf :: "vm_area list \<Rightarrow> bool" where
  "areas_wf [] \<longleftrightarrow> True"
| "areas_wf (v # vs) \<longleftrightarrow> va_start v < va_end v \<and> (\<forall>w\<in>set vs. va_end v \<le> va_start w) \<and> areas_wf vs"

definition flags_at :: "vm_area list \<Rightarrow> u64 \<Rightarrow> u32 option" where
  "flags_at vs a = map_option va_flags (vm_map_lookup vs a)"

lemma flags_at_simps [simp]:
  "flags_at [] a = None"
  "flags_at (v # vs) a = (if va_start v \<le> a \<and> a < va_end v then Some (va_flags v) else flags_at vs a)"
  by (simp_all add: flags_at_def)

lemma areas_wf_nonempty: "areas_wf vs \<Longrightarrow> v \<in> set vs \<Longrightarrow> va_start v < va_end v"
  by (induction vs) auto

lemma flags_at_none: "(\<forall>v\<in>set vs. a < va_start v \<or> va_end v \<le> a) \<Longrightarrow> flags_at vs a = None"
  by (induction vs) auto

lemma vma_overlaps_iff:
  "vma_overlaps vs st sz \<longleftrightarrow> (\<exists>v\<in>set vs. st < va_end v \<and> va_start v < st + sz)"
  by (induction vs) auto

lemma set_insert_vma [simp]: "set (insert_vma vs v) = insert v (set vs)"
  by (induction vs) auto

lemma insert_vma_wf:
  assumes "areas_wf vs" "va_start v < va_end v"
    "\<forall>w\<in>set vs. va_end w \<le> va_start v \<or> va_end v \<le> va_start w"
  shows "areas_wf (insert_vma vs v)"
  using assms
proof (induction vs)
  case (Cons w ws)
  then have IH: "areas_wf (insert_vma ws v)" by simp
  show ?case
  proof (cases "va_start w < va_start v")
    case True
    then have "va_end w \<le> va_start v" using Cons.prems by auto
    then show ?thesis using IH True Cons.prems by simp
  next
    case False
    then have "va_end v \<le> va_start w" using Cons.prems by (auto simp: not_less)
    moreover have "va_end v \<le> va_start u" if "u \<in> set ws" for u
      using that calculation Cons.prems(1) areas_wf_nonempty [OF Cons.prems(1), of w]
      by (meson areas_wf.simps(2) dual_order.strict_implies_order list.set_intros(1) order_trans)
    ultimately show ?thesis using False Cons.prems by auto
  qed
qed simp

lemma insert_vma_flags:
  assumes "\<forall>w\<in>set vs. va_end w \<le> va_start v \<or> va_end v \<le> va_start w" "areas_wf vs"
  shows "flags_at (insert_vma vs v) a =
    (if va_start v \<le> a \<and> a < va_end v then Some (va_flags v) else flags_at vs a)"
  using assms
proof (induction vs)
  case (Cons w ws)
  then have IH: "flags_at (insert_vma ws v) a =
    (if va_start v \<le> a \<and> a < va_end v then Some (va_flags v) else flags_at ws a)" by simp
  have "\<not> (va_start v \<le> a \<and> a < va_end v \<and> va_start w \<le> a \<and> a < va_end w)"
    using Cons.prems(1) by (auto simp: not_less dest: order_trans)
  then show ?case using IH by auto
qed simp

text \<open>First fit: the gap found is free and nothing below it would have done.\<close>

lemma find_gap_ge: "c \<le> find_gap vs sz c"
proof (induction vs arbitrary: c)
  case (Cons v vs)
  then show ?case using order_trans [OF less_imp_le Cons.IH [of "va_end v"]] by auto
qed simp

lemma find_gap_cases: "find_gap vs sz c = c \<or> (\<exists>v\<in>set vs. find_gap vs sz c = va_end v)"
  by (induction vs arbitrary: c) (auto split: if_splits)

lemma find_gap_free:
  assumes "areas_wf vs" "\<forall>v\<in>set vs. unat (va_end v) + unat sz < 2 ^ 64" "unat c + unat sz < 2 ^ 64"
  shows "(\<forall>v\<in>set vs. va_end v \<le> find_gap vs sz c \<or> find_gap vs sz c + sz \<le> va_start v)
    \<and> unat (find_gap vs sz c) + unat sz < 2 ^ 64"
  using assms
proof (induction vs arbitrary: c)
  case (Cons v vs)
  show ?case
  proof (cases "c + sz \<le> va_start v")
    case True
    have "c + sz \<le> va_start w" if "w \<in> set vs" for w
      using that True Cons.prems(1) areas_wf_nonempty [OF Cons.prems(1), of v]
      by (meson areas_wf.simps(2) dual_order.strict_implies_order list.set_intros(1) order_trans)
    then show ?thesis using True Cons.prems by auto
  next
    case False
    define c' where "c' = (if c < va_end v then va_end v else c)"
    have "unat c' + unat sz < 2 ^ 64" using Cons.prems by (simp add: c'_def)
    then have IH: "(\<forall>w\<in>set vs. va_end w \<le> find_gap vs sz c' \<or> find_gap vs sz c' + sz \<le> va_start w)
      \<and> unat (find_gap vs sz c') + unat sz < 2 ^ 64" using Cons by simp
    have "va_end v \<le> c'" by (simp add: c'_def not_less)
    then have "va_end v \<le> find_gap vs sz c'" using find_gap_ge order_trans by blast
    then show ?thesis using IH False by (simp add: c'_def)
  qed
qed simp

lemma find_gap_first:
  assumes "areas_wf vs" "\<forall>v\<in>set vs. unat (va_end v) + unat sz < 2 ^ 64" "unat c + unat sz < 2 ^ 64"
    and "sz \<noteq> 0" "c \<le> a" "a < find_gap vs sz c"
  shows "vma_overlaps vs a sz"
  using assms
proof (induction vs arbitrary: c)
  case Nil
  then show ?case by simp
next
  case (Cons v vs)
  have ng: "\<not> c + sz \<le> va_start v" using Cons.prems(5,6) by (auto split: if_splits)
  define c' where "c' = (if c < va_end v then va_end v else c)"
  have g: "find_gap (v # vs) sz c = find_gap vs sz c'" using ng by (simp add: c'_def)
  show ?case
  proof (cases "c' \<le> a")
    case True
    have "unat c' + unat sz < 2 ^ 64" using Cons.prems by (simp add: c'_def)
    then have "vma_overlaps vs a sz"
      using Cons.prems True g by (intro Cons.IH [of c']) auto
    then show ?thesis by simp
  next
    case False
    then have a: "c \<le> a" "a < va_end v" using Cons.prems(5) by (auto simp: c'_def split: if_splits)
    have "unat (va_end v) + unat sz < 2 ^ 64" using Cons.prems(2) by simp
    then have "unat (a + sz) = unat a + unat sz" "unat (c + sz) = unat c + unat sz"
      using a Cons.prems(3) by (auto intro!: unat_add_no_wrap simp: word_less_nat_alt)
    then have "va_start v < a + sz"
      using ng a by (simp add: word_less_nat_alt word_le_nat_alt)
    then show ?thesis using a by simp
  qed
qed


subsection \<open>The kernel operations the maps use\<close>

lemma cache_free_step:
  assumes "cache_rep c s L" "x \<in> L"
  obtains s' where "kmem_cache_free s c x = Some s'" "cache_rep c s' (L - {x})" "pmm s' = pmm s"
    "vm_area_cache s' = vm_area_cache s"
proof -
  obtain S fl ps where inv: "k_inv s" and rep: "cache_rep_but {} s c S fl ps"
    and L: "L = slab_live (kc_size (cache_pool s ! c)) S fl"
    using assms(1) by (auto simp: cache_rep_def)
  obtain s' fl' ps' where "kmem_cache_free s c x = Some s'" "cache_free_post s c S fl x s' fl' ps'"
    using kmem_cache_free_correct [OF inv rep] assms(2) L by blast
  moreover have "cache_rep c s' (L - {x})"
    using slab.free_law [OF assms] calculation(1) by simp
  ultimately show thesis
    using that by (simp add: cache_free_post_def slab_frame_def)
qed

lemma cache_alloc_step:
  assumes "cache_rep c s L"
  obtains (none) "kmem_cache_alloc s c = Some (0, s)" "k_free_set s = {}"
  | (obj) x s' where "kmem_cache_alloc s c = Some (x, s')" "x \<noteq> 0" "x \<notin> L"
    "cache_rep c s' (insert x L)" "k_free_set s' \<subseteq> k_free_set s" "vm_area_cache s' = vm_area_cache s"
proof -
  obtain S fl ps where inv: "k_inv s" and rep: "cache_rep_but {} s c S fl ps"
    using assms(1) by (auto simp: cache_rep_def)
  show thesis
  proof (cases rule: kmem_cache_alloc_correct [OF inv rep])
    case 1
    then show thesis using none by blast
  next
    case (2 x s' S' fl' ps')
    then show thesis
      using obj [of x s'] slab.alloc_new [OF assms 2(1,2)] by (auto simp: cache_alloc_post_def slab_frame_def)
  qed
qed

text \<open>A map and its areas: the areas are handed-out objects of the area cache \<open>c\<close>.\<close>

definition vm_wf :: "nat \<Rightarrow> u64 set \<Rightarrow> kstate \<Rightarrow> vm_area list \<Rightarrow> bool" where
  "vm_wf c L s vs \<longleftrightarrow> vm_area_cache s = Some c \<and> cache_rep c s L \<and> areas_wf vs
     \<and> distinct (map va_addr vs) \<and> va_addr ` set vs \<subseteq> L"

lemma vma_alloc_step:
  assumes "vm_area_cache s = Some c" "cache_rep c s L"
  obtains (none) "vma_alloc s st en fl = Some (None, s)" "k_free_set s = {}"
  | (area) x s' where
    "vma_alloc s st en fl = Some (Some \<lparr>va_addr = x, va_start = st, va_end = en, va_flags = fl\<rparr>, s')"
    "x \<notin> L" "cache_rep c s' (insert x L)" "k_free_set s' \<subseteq> k_free_set s" "vm_area_cache s' = Some c"
proof (cases rule: cache_alloc_step [OF assms(2)])
  case 1
  then show thesis using none assms(1) by (simp add: vma_alloc_def)
next
  case (2 x s')
  then show thesis using area assms(1) by (simp add: vma_alloc_def)
qed

lemma align_up_bound:
  assumes "unat sz + 4095 < 2 ^ 64"
  shows "unat sz \<le> unat (ALIGN_UP sz PAGE_SIZE)" "unat (ALIGN_UP sz PAGE_SIZE) < unat sz + 4096"
    "sz \<noteq> 0 \<Longrightarrow> ALIGN_UP sz PAGE_SIZE \<noteq> 0"
proof -
  have u: "unat (ALIGN_UP sz PAGE_SIZE) = 4096 * ((unat sz + 4095) div 4096)"
    by (rule unat_ALIGN_UP_page [OF assms])
  show l: "unat sz \<le> unat (ALIGN_UP sz PAGE_SIZE)" unfolding u by linarith
  show "unat (ALIGN_UP sz PAGE_SIZE) < unat sz + 4096" unfolding u by linarith
  show "ALIGN_UP sz PAGE_SIZE \<noteq> 0" if "sz \<noteq> 0"
    using l that by (metis le_zero_eq unat_eq_zero)
qed

lemma region_correct:
  assumes wf: "vm_wf c L s (areas m)" and sz: "sz \<noteq> 0" "unat st + unat sz + 4095 < 2 ^ 64"
  defines "len \<equiv> ALIGN_UP sz PAGE_SIZE"
  obtains (overlap) "vma_overlaps (areas m) st len"
      "vm_map_allocate_region s m st sz fl = Some (0, m, s)"
  | (nomem) "\<not> vma_overlaps (areas m) st len" "k_free_set s = {}"
      "vm_map_allocate_region s m st sz fl = Some (0, m, s)"
  | (ok) x s' m' where "\<not> vma_overlaps (areas m) st len"
      "vm_map_allocate_region s m st sz fl = Some (st, m', s')" "x \<notin> L"
      "vm_wf c (insert x L) s' (areas m')" "vm_pt m' = vm_pt m" "vm_addr m' = vm_addr m"
      "\<And>a. flags_at (areas m') a = (if st \<le> a \<and> a < st + len then Some fl else flags_at (areas m) a)"
proof (cases "vma_overlaps (areas m) st len")
  case True
  then show thesis using overlap by (simp add: vm_map_allocate_region_def len_def)
next
  case no: False
  have w: "vm_area_cache s = Some c" "cache_rep c s L" "areas_wf (areas m)"
    "distinct (map va_addr (areas m))" "va_addr ` set (areas m) \<subseteq> L" using wf by (simp_all add: vm_wf_def)
  note b = align_up_bound [of sz, folded len_def]
  have u: "unat (st + len) = unat st + unat len" using sz b by (intro unat_add_no_wrap) simp
  show thesis
  proof (cases rule: vma_alloc_step [OF w(1,2), of st "st + len" fl])
    case 1
    then show thesis using no nomem by (simp add: vm_map_allocate_region_def len_def)
  next
    case (2 x s')
    let ?v = "\<lparr>va_addr = x, va_start = st, va_end = st + len, va_flags = fl\<rparr>"
    let ?m = "m\<lparr>areas := insert_vma (areas m) ?v\<rparr>"
    have run: "vm_map_allocate_region s m st sz fl = Some (st, ?m, s')"
      using no 2(1) by (simp add: vm_map_allocate_region_def len_def Let_def)
    have d: "\<forall>w\<in>set (areas m). va_end w \<le> va_start ?v \<or> va_end ?v \<le> va_start w"
      using no by (auto simp: vma_overlaps_iff not_less)
    have "0 < unat len" using b sz by (simp add: unat_gt_0)
    then have "va_start ?v < va_end ?v" using u by (simp add: word_less_nat_alt)
    then have wfi: "areas_wf (insert_vma (areas m) ?v)" using insert_vma_wf [OF w(3) _ d] by simp
    have xd: "distinct (map va_addr (insert_vma vs ?v))"
      if "distinct (map va_addr vs)" "x \<notin> va_addr ` set vs" for vs
      using that by (induction vs) auto
    have "vm_wf c (insert x L) s' (areas ?m)"
      using 2 w wfi xd [OF w(4)] by (auto simp: vm_wf_def)
    then show thesis
      using ok [OF no run 2(2)] insert_vma_flags [OF d w(3)] by simp
  qed
qed


subsection \<open>Cutting a range out\<close>

lemma cut_areas_above:
  "\<forall>v\<in>set vs. en \<le> va_start v \<Longrightarrow> cut_areas st en vs s = Some (vs, s)"
  by (induction vs) auto

definition cut_post ::
  "nat \<Rightarrow> u64 \<Rightarrow> u64 \<Rightarrow> u64 set \<Rightarrow> kstate \<Rightarrow> vm_area list \<Rightarrow> u64 set \<Rightarrow> kstate \<Rightarrow> vm_area list \<Rightarrow> bool" where
  "cut_post c st en L s vs L' s' vs' \<longleftrightarrow>
     vm_wf c L' s' vs' \<and> L - va_addr ` set vs \<subseteq> L' \<and> va_addr ` set vs' \<inter> L \<subseteq> va_addr ` set vs
     \<and> (\<forall>w\<in>set vs'. \<exists>v\<in>set vs. va_start v \<le> va_start w)
     \<and> (\<forall>a. flags_at vs' a = (if st \<le> a \<and> a < en then None else flags_at vs a)
            \<or> k_free_set s = {} \<and> en \<le> a \<and> flags_at vs' a = None)"

lemma vm_wfD:
  assumes "vm_wf c L s (v # vs)"
  shows "vm_area_cache s = Some c" "cache_rep c s L" "va_start v < va_end v"
    "\<forall>w\<in>set vs. va_end v \<le> va_start w" "areas_wf vs" "va_addr v \<in> L"
    "va_addr v \<notin> va_addr ` set vs" "vm_wf c L s vs" "distinct (map va_addr vs)" "va_addr ` set vs \<subseteq> L"
  using assms by (auto simp: vm_wf_def)

lemma flags_at_below:
  assumes "areas_wf vs" "\<forall>w\<in>set vs. b \<le> va_start w" "a < b"
  shows "flags_at vs a = None"
  using assms by (intro flags_at_none) auto

lemma cut_keep_head:
  assumes wf: "vm_wf c L s (v # vs)" and post: "cut_post c st en L s vs L' s' vs'"
    and v': "va_addr v' = va_addr v" "va_start v' < va_end v'" "va_end v' \<le> va_end v"
      "va_start v \<le> va_start v'" "va_flags v' = va_flags v"
    and fl: "\<And>a. (va_start v' \<le> a \<and> a < va_end v') \<longleftrightarrow>
      (va_start v \<le> a \<and> a < va_end v) \<and> \<not> (st \<le> a \<and> a < en)"
  shows "cut_post c st en L s (v # vs) L' s' (v' # vs')"
proof -
  note w = vm_wfD [OF wf]
  have p: "vm_wf c L' s' vs'" "L - va_addr ` set vs \<subseteq> L'" "va_addr ` set vs' \<inter> L \<subseteq> va_addr ` set vs"
    "\<And>u. u \<in> set vs' \<Longrightarrow> \<exists>v\<in>set vs. va_start v \<le> va_start u"
    "\<And>a. flags_at vs' a = (if st \<le> a \<and> a < en then None else flags_at vs a)
       \<or> k_free_set s = {} \<and> en \<le> a \<and> flags_at vs' a = None"
    using post by (auto simp: cut_post_def)
  have above: "va_end v \<le> va_start u" if "u \<in> set vs'" for u
    using p(4) [OF that] w(4) order_trans by blast
  have "vm_wf c L' s' (v' # vs')"
  proof -
    have "va_addr v \<in> L'" using p(2) w(6,7) by auto
    moreover have "va_addr v \<notin> va_addr ` set vs'" using p(3) w(6,7) by auto
    moreover have "\<forall>u\<in>set vs'. va_end v' \<le> va_start u" using above v'(3) order_trans by blast
    ultimately show ?thesis using p(1) v'(1,2) by (simp add: vm_wf_def)
  qed
  moreover have "\<forall>u\<in>set (v' # vs'). \<exists>x\<in>set (v # vs). va_start x \<le> va_start u"
    using p(4) v'(4) by auto
  moreover have "flags_at (v' # vs') a = (if st \<le> a \<and> a < en then None else flags_at (v # vs) a)
      \<or> k_free_set s = {} \<and> en \<le> a \<and> flags_at (v' # vs') a = None" for a
  proof (cases "va_start v \<le> a \<and> a < va_end v")
    case True
    have "flags_at vs' a = None" using above True by (intro flags_at_none) (meson less_le_trans)
    then show ?thesis using True fl [of a] v'(5) by auto
  next
    case False
    then show ?thesis using p(5) [of a] fl [of a] by auto
  qed
  ultimately show ?thesis using p(2,3) w(7) v'(1) by (auto simp: cut_post_def)
qed

lemma cut_areas_correct:
  assumes "vm_wf c L s vs" "st < en"
  shows "\<exists>vs' s' L'. cut_areas st en vs s = Some (vs', s') \<and> cut_post c st en L s vs L' s' vs'"
  using assms
proof (induction vs arbitrary: s L)
  case Nil
  then show ?case by (auto simp: cut_post_def vm_wf_def)
next
  case (Cons v vs)
  note w = vm_wfD [OF Cons.prems(1)]
  obtain vs1 s1 L1 where r: "cut_areas st en vs s = Some (vs1, s1)" "cut_post c st en L s vs L1 s1 vs1"
    using Cons.IH [OF w(8) Cons.prems(2)] by blast
  consider (out) "va_end v \<le> st \<or> en \<le> va_start v"
    | (inside) "\<not> (va_end v \<le> st \<or> en \<le> va_start v)" "st \<le> va_start v" "va_end v \<le> en"
    | (split) "va_start v < st" "en < va_end v"
    | (front) "\<not> (va_end v \<le> st \<or> en \<le> va_start v)" "va_start v < st" "va_end v \<le> en"
    | (rear) "\<not> (va_end v \<le> st \<or> en \<le> va_start v)" "st \<le> va_start v" "en < va_end v"
    by (metis not_le)
  then show ?case
  proof cases
    case out
    have "cut_post c st en L s (v # vs) L1 s1 (v # vs1)"
      using w(3) out by (intro cut_keep_head [OF Cons.prems(1) r(2)]) auto
    then show ?thesis using out r(1) by auto
  next
    case front
    have "cut_post c st en L s (v # vs) L1 s1 (v\<lparr>va_end := st\<rparr> # vs1)"
      using w(3) front by (intro cut_keep_head [OF Cons.prems(1) r(2)]) auto
    then show ?thesis using front r(1) by auto
  next
    case rear
    have "cut_post c st en L s (v # vs) L1 s1 (v\<lparr>va_start := en\<rparr> # vs1)"
      using w(3) rear by (intro cut_keep_head [OF Cons.prems(1) r(2)]) auto
    then show ?thesis using rear r(1) by (auto simp: not_less)
  next
    case inside
    obtain s0 where s0: "kmem_cache_free s c (va_addr v) = Some s0" "cache_rep c s0 (L - {va_addr v})"
      "pmm s0 = pmm s" "vm_area_cache s0 = vm_area_cache s"
      using cache_free_step [OF w(2,6)] by blast
    have wf0: "vm_wf c (L - {va_addr v}) s0 vs"
    proof -
      have "va_addr ` set vs \<subseteq> L - {va_addr v}" using w(7,10) by blast
      then show ?thesis using s0(2,4) w(1,5,9) by (simp add: vm_wf_def)
    qed
    obtain vs2 s2 L2 where r2: "cut_areas st en vs s0 = Some (vs2, s2)"
      "cut_post c st en (L - {va_addr v}) s0 vs L2 s2 vs2"
      using Cons.IH [OF wf0 Cons.prems(2)] by blast
    have run: "cut_areas st en (v # vs) s = Some (vs2, s2)"
      using inside s0(1) w(1) r2(1) by simp
    have free: "k_free_set s0 = k_free_set s" using s0(3) by (simp add: k_free_set_def)
    have p: "vm_wf c L2 s2 vs2" "L - {va_addr v} - va_addr ` set vs \<subseteq> L2"
      "va_addr ` set vs2 \<inter> (L - {va_addr v}) \<subseteq> va_addr ` set vs"
      "\<forall>u\<in>set vs2. \<exists>x\<in>set vs. va_start x \<le> va_start u"
      "flags_at vs2 a = (if st \<le> a \<and> a < en then None else flags_at vs a)
        \<or> k_free_set s = {} \<and> en \<le> a \<and> flags_at vs2 a = None" for a
      using r2(2) unfolding cut_post_def free by blast+
    have "flags_at vs2 a = (if st \<le> a \<and> a < en then None else flags_at (v # vs) a)
        \<or> k_free_set s = {} \<and> en \<le> a \<and> flags_at vs2 a = None" for a
      using p(5) [of a] order_trans [OF inside(2), of a] less_le_trans [OF _ inside(3), of a] by auto
    moreover have "L - va_addr ` set (v # vs) \<subseteq> L2" using p(2) by auto
    moreover have "va_addr ` set vs2 \<inter> L \<subseteq> va_addr ` set (v # vs)" using p(3) by auto
    moreover have "\<forall>u\<in>set vs2. \<exists>x\<in>set (v # vs). va_start x \<le> va_start u" using p(4) by auto
    ultimately have "cut_post c st en L s (v # vs) L2 s2 vs2"
      using p(1) unfolding cut_post_def by blast
    then show ?thesis using run by blast
  next
    case split
    have above: "\<forall>u\<in>set vs. en \<le> va_start u" using w(4) split by (meson less_imp_le order_trans)
    have cut: "cut_areas st en vs s' = Some (vs, s')" for s' by (rule cut_areas_above [OF above])
    have conds: "\<not> (va_end v \<le> st \<or> en \<le> va_start v)" "\<not> st \<le> va_start v"
      using split Cons.prems(2) by auto
    have vsa: "flags_at vs a = None" if "a < va_end v" for a
      using flags_at_below [OF w(5,4) that] .
    have o1: "a < va_end v" if "a < en" for a using that split(2) by (rule less_trans)
    have o2: "a < en" if "a < st" for a using that Cons.prems(2) by (rule less_trans)
    have o3: "va_start v \<le> a" if "st \<le> a" for a using split(1) that by simp
    have o4: "st \<le> a" if "en \<le> a" for a using Cons.prems(2) that by simp
    note ord = vsa o1 o2 o3 o4
    show ?thesis
    proof (cases rule: vma_alloc_step [OF w(1,2), of en "va_end v" "va_flags v"])
      case 1
      have run: "cut_areas st en (v # vs) s = Some (v\<lparr>va_end := st\<rparr> # vs, s)"
        using conds split 1(1) cut by simp
      have "vm_wf c L s (v\<lparr>va_end := st\<rparr> # vs)"
        using w split conds by (auto simp: vm_wf_def)
      then have "cut_post c st en L s (v # vs) L s (v\<lparr>va_end := st\<rparr> # vs)"
      proof -
        have "flags_at (v\<lparr>va_end := st\<rparr> # vs) a = (if st \<le> a \<and> a < en then None else flags_at (v # vs) a)
          \<or> k_free_set s = {} \<and> en \<le> a \<and> flags_at (v\<lparr>va_end := st\<rparr> # vs) a = None" for a
          using ord [of a] 1(2)
          by (cases "a < st"; cases "a < en"; cases "a < va_end v") (auto simp: not_less dest: leD)
        moreover have "\<forall>u\<in>set (v\<lparr>va_end := st\<rparr> # vs). \<exists>x\<in>set (v # vs). va_start x \<le> va_start u" by auto
        ultimately show ?thesis using \<open>vm_wf c L s (v\<lparr>va_end := st\<rparr> # vs)\<close>
          by (simp add: cut_post_def)
      qed
      then show ?thesis using run by blast
    next
      case (2 x s')
      let ?t = "\<lparr>va_addr = x, va_start = en, va_end = va_end v, va_flags = va_flags v\<rparr>"
      have run: "cut_areas st en (v # vs) s = Some (v\<lparr>va_end := st\<rparr> # ?t # vs, s')"
        using conds split 2(1) cut by simp
      have "vm_wf c (insert x L) s' (v\<lparr>va_end := st\<rparr> # ?t # vs)"
        using w split conds 2 Cons.prems(2) by (auto simp: vm_wf_def)
      then have "cut_post c st en L s (v # vs) (insert x L) s' (v\<lparr>va_end := st\<rparr> # ?t # vs)"
      proof -
        have "flags_at (v\<lparr>va_end := st\<rparr> # ?t # vs) a = (if st \<le> a \<and> a < en then None else flags_at (v # vs) a)" for a
          using ord [of a]
          by (cases "a < st"; cases "a < en"; cases "a < va_end v") (auto simp: not_less dest: leD)
        moreover have "\<forall>u\<in>set (v\<lparr>va_end := st\<rparr> # ?t # vs). \<exists>x\<in>set (v # vs). va_start x \<le> va_start u"
          using split Cons.prems(2) by fastforce
        ultimately show ?thesis using \<open>vm_wf c (insert x L) s' (v\<lparr>va_end := st\<rparr> # ?t # vs)\<close> 2(2)
          by (auto simp: cut_post_def)
      qed
      then show ?thesis using run by blast
    qed
  qed
qed

end
