(* ===== verification/Pmap_Walk.thy ===== *)
theory Pmap_Walk
  imports Pmap Slab_Ops
begin

text \<open>
  What the page tables mean: the hardware's walk, the paths to a table, and the invariant of a
  page-table tree. \<open>lv\<close> gives each table page its level (4 the root, 0 not a table): the pages
  are in use, an entry at level 2 or above that points to a table points one level down, and no
  two entries point to the same table. Then a write to a leaf entry changes the translation of
  exactly the addresses that reach it.
\<close>

text \<open>The index a level uses: 4 for the PML4 down to 1 for the page table.\<close>

definition level_idx :: "nat \<Rightarrow> u64 \<Rightarrow> u16" where
  "level_idx l va = ucast (drop_bit (3 + 9 * l) va AND 0x1ff)"

lemma level_idx_simps:
  "GET_PML4_IDX va = level_idx 4 va" "GET_PDPT_IDX va = level_idx 3 va"
  "GET_PD_IDX va = level_idx 2 va" "GET_PT_IDX va = level_idx 1 va"
  by (simp_all add: level_idx_def GET_PML4_IDX_def GET_PDPT_IDX_def GET_PD_IDX_def GET_PT_IDX_def)

lemma level_idx_less: "unat (level_idx l va) < 512"
proof -
  have "unat (drop_bit (3 + 9 * l) va AND 0x1ff) \<le> unat (0x1ff :: u64)"
    by (simp only: word_le_nat_alt [symmetric] word_and_le1)
  then show ?thesis
    by (simp add: level_idx_def unsigned_ucast_eq take_bit_nat_eq_self)
qed

text \<open>The hardware's walk: the level and the entry that map an address.\<close>

fun walk :: "kstate \<Rightarrow> nat \<Rightarrow> u64 \<Rightarrow> u64 \<Rightarrow> (nat \<times> u64) option" where
  "walk s 0 t va = None"
| "walk s (Suc l) t va =
     (let e = read_entry s t (level_idx (Suc l) va) in
      if e AND PAGE_PRESENT = 0 then None
      else if l = 0 \<or> e AND PDE_PS \<noteq> 0 then Some (Suc l, e)
      else walk s l (phys_to_higher_half_data s (e AND PAGE_PHYS_MASK)) va)"

definition child :: "kstate \<Rightarrow> u64 \<Rightarrow> u16 \<Rightarrow> u64 option" where
  "child s t i =
     (let e = read_entry s t i in
      if e AND PAGE_PRESENT \<noteq> 0 \<and> e AND PDE_PS = 0
      then Some (phys_to_higher_half_data s (e AND PAGE_PHYS_MASK)) else None)"

fun descend :: "kstate \<Rightarrow> nat \<Rightarrow> nat \<Rightarrow> u64 \<Rightarrow> u64 \<Rightarrow> u64 option" where
  "descend s k 0 t va = Some t"
| "descend s k (Suc n) t va =
     Option.bind (child s t (level_idx (k + Suc n) va)) (\<lambda>b. descend s k n b va)"

definition pt_wf :: "kstate \<Rightarrow> (u64 \<Rightarrow> nat) \<Rightarrow> u64 \<Rightarrow> bool" where
  "pt_wf s lv root \<longleftrightarrow> k_inv s \<and> lv root = 4
     \<and> (\<forall>a. lv a \<noteq> 0 \<longrightarrow> lv a \<le> 4 \<and> used_page s a)
     \<and> (\<forall>a i b. 2 \<le> lv a \<longrightarrow> unat i < 512 \<longrightarrow> child s a i = Some b \<longrightarrow> lv b = lv a - 1)
     \<and> (\<forall>a i b c j. 2 \<le> lv a \<longrightarrow> unat i < 512 \<longrightarrow> 2 \<le> lv c \<longrightarrow> unat j < 512 \<longrightarrow>
          child s a i = Some b \<longrightarrow> child s c j = Some b \<longrightarrow> a = c \<and> i = j)"

lemma pt_wfD:
  assumes "pt_wf s lv root"
  shows "k_inv s" "lv root = 4" "\<And>a. lv a \<noteq> 0 \<Longrightarrow> lv a \<le> 4" "\<And>a. lv a \<noteq> 0 \<Longrightarrow> used_page s a"
    "\<And>a. lv a \<noteq> 0 \<Longrightarrow> slab_page a"
    "\<And>a i b. 2 \<le> lv a \<Longrightarrow> unat i < 512 \<Longrightarrow> child s a i = Some b \<Longrightarrow> lv b = lv a - 1"
    "\<And>a i b c j. 2 \<le> lv a \<Longrightarrow> unat i < 512 \<Longrightarrow> 2 \<le> lv c \<Longrightarrow> unat j < 512 \<Longrightarrow>
       child s a i = Some b \<Longrightarrow> child s c j = Some b \<Longrightarrow> a = c \<and> i = j"
  using assms used_page_slab_page unfolding pt_wf_def by blast+

text \<open>Where an entry lives.\<close>

definition entry_addr :: "u64 \<Rightarrow> u16 \<Rightarrow> u64" where
  "entry_addr t i = t + 8 * ucast i"

lemma unat_entry_addr:
  assumes "slab_page t" "unat i < 512"
  shows "unat (entry_addr t i) = unat t + 8 * unat i"
proof -
  have r: "unat t + 4096 \<le> 2 ^ 64" by (rule slab_page_room [OF assms(1)])
  have u: "unat (ucast i :: u64) = unat i" by (simp add: unsigned_ucast_eq take_bit_nat_eq_self_iff) (use assms(2) in simp)
  have "unat (8 * ucast i :: u64) = 8 * unat i"
    unfolding unat_word_ariths u using assms(2) by simp
  then show ?thesis unfolding entry_addr_def using r assms(2) by (subst unat_add_no_wrap) simp_all
qed

lemma page_base_entry:
  assumes "slab_page t" "unat i < 512" shows "page_base (entry_addr t i) = t"
proof -
  obtain k where k: "unat t = 4096 * k" using assms(1) by (auto simp: slab_page_def)
  have "unat (page_base (entry_addr t i)) = unat t"
    unfolding unat_page_of unat_entry_addr [OF assms] k using assms(2) by simp
  then show ?thesis by (simp only: word_unat_eq_iff)
qed

lemma entry_addr_eq:
  assumes "slab_page t" "slab_page u" "unat i < 512" "unat j < 512" "entry_addr t i = entry_addr u j"
  shows "t = u \<and> i = j"
proof -
  have "t = u" using page_base_entry [OF assms(1,3)] page_base_entry [OF assms(2,4)] assms(5) by simp
  then have "unat i = unat j"
    using unat_entry_addr [OF assms(1,3)] unat_entry_addr [OF assms(2,4)] assms(5) by simp
  then show ?thesis using \<open>t = u\<close> by (simp only: word_unat_eq_iff simp_thms)
qed

lemma read_write_entry:
  assumes "slab_page t" "slab_page u" "unat i < 512" "unat j < 512"
  shows "read_entry (write_entry s t i e) u j = (if u = t \<and> j = i then e else read_entry s u j)"
proof (cases "entry_addr u j = entry_addr t i")
  case True
  then have "u = t \<and> j = i" using assms by (intro entry_addr_eq)
  then show ?thesis by (simp add: read_entry_def write_entry_def write_cell_def)
next
  case False
  then have "\<not> (u = t \<and> j = i)" by auto
  then show ?thesis using False
    by (auto simp: read_entry_def write_entry_def write_cell_def entry_addr_def)
qed

lemma write_entry_frame [simp]:
  "hhdm (write_entry s t i e) = hhdm s" "pmm (write_entry s t i e) = pmm s"
  "slabs (write_entry s t i e) = slabs s" "cache_pool (write_entry s t i e) = cache_pool s"
  "cache_pool_idx (write_entry s t i e) = cache_pool_idx s"
  "kernel_pml4 (write_entry s t i e) = kernel_pml4 s"
  "page_table_cache (write_entry s t i e) = page_table_cache s"
  "vm_area_cache (write_entry s t i e) = vm_area_cache s"
  "vm_map_cache (write_entry s t i e) = vm_map_cache s"
  by (simp_all add: write_entry_def write_cell_def)

subsection \<open>Paths\<close>

lemma descend_level:
  assumes wf: "pt_wf s lv root"
  shows "lv t = k + n \<Longrightarrow> 1 \<le> k \<Longrightarrow> descend s k n t va = Some x \<Longrightarrow> lv x = k"
proof (induction n arbitrary: t)
  case (Suc n)
  then obtain b where b: "child s t (level_idx (k + Suc n) va) = Some b" "descend s k n b va = Some x"
    by (auto simp: bind_eq_Some_conv)
  have "lv b = k + n" using pt_wfD(6) [OF wf _ level_idx_less b(1)] Suc.prems by simp
  then show ?case using Suc.IH b(2) Suc.prems by blast
qed simp

lemma descend_inj:
  assumes wf: "pt_wf s lv root"
  shows "lv t = k + n \<Longrightarrow> lv u = k + n \<Longrightarrow> 1 \<le> k \<Longrightarrow> descend s k n t va = Some x \<Longrightarrow>
    descend s k n u vb = Some x \<Longrightarrow>
    t = u \<and> (\<forall>j. k < j \<and> j \<le> k + n \<longrightarrow> level_idx j va = level_idx j vb)"
proof (induction n arbitrary: t u)
  case (Suc n)
  then obtain b c where b: "child s t (level_idx (k + Suc n) va) = Some b" "descend s k n b va = Some x"
    and c: "child s u (level_idx (k + Suc n) vb) = Some c" "descend s k n c vb = Some x"
    by (auto simp: bind_eq_Some_conv)
  have lb: "lv b = k + n" using pt_wfD(6) [OF wf _ level_idx_less b(1)] Suc.prems by simp
  have lc: "lv c = k + n" using pt_wfD(6) [OF wf _ level_idx_less c(1)] Suc.prems by simp
  have IH: "b = c \<and> (\<forall>j. k < j \<and> j \<le> k + n \<longrightarrow> level_idx j va = level_idx j vb)"
    by (rule Suc.IH [OF lb lc Suc.prems(3) b(2) c(2)])
  then have "t = u \<and> level_idx (k + Suc n) va = level_idx (k + Suc n) vb"
    by (intro pt_wfD(7) [OF wf _ level_idx_less _ level_idx_less b(1)]) (use c IH Suc.prems in auto)
  then show ?case using IH by (metis add_Suc_right le_Suc_eq)
qed auto

lemma descend_cong:
  "(\<And>j. k < j \<Longrightarrow> j \<le> k + n \<Longrightarrow> level_idx j va = level_idx j vb) \<Longrightarrow>
   descend s k n t va = descend s k n t vb"
proof (induction n arbitrary: t)
  case (Suc n)
  have "level_idx (k + Suc n) va = level_idx (k + Suc n) vb" using Suc.prems by simp
  moreover have "descend s k n b va = descend s k n b vb" for b using Suc by simp
  ultimately show ?case by simp
qed simp

lemma descend_snoc:
  "descend s k n t va = Some x \<Longrightarrow> descend s (k - 1) (Suc n) t va = child s x (level_idx k va)"
  if "1 \<le> k"
proof (induction n arbitrary: t)
  case 0
  then show ?case using that by (simp add: Option.bind_eq_Some_conv)
next
  case (Suc n)
  then show ?case using that
    by (auto simp: bind_eq_Some_conv simp del: descend.simps(1))
qed


subsection \<open>Entries\<close>

lemma PAGE_PHYS_MASK_eq: "PAGE_PHYS_MASK = mask 52 AND NOT (mask 12)"
  by (simp add: PAGE_PHYS_MASK_def mask_eq_exp_minus_1)

lemma phys_entry_mask:
  assumes "unat p mod 4096 = 0" "unat p < 2 ^ 52"
  shows "p AND PAGE_PHYS_MASK = p" "p AND mask 12 = 0"
proof -
  have "take_bit 12 p = 0"
    using assms(1) unat_take_bit_mod [of 12 p] by (simp add: word_unat_eq_iff)
  then show m: "p AND mask 12 = 0" by (simp add: take_bit_eq_mask)
  have "take_bit 52 p = p"
    using assms(2) unat_take_bit_mod [of 52 p] by (simp add: word_unat_eq_iff)
  then have "p AND mask 52 = p" by (simp add: take_bit_eq_mask)
  then have "p AND (mask 52 AND NOT (mask 12)) = p AND NOT (mask 12)"
    by (simp flip: and.assoc)
  also have "\<dots> = p"
    using m by (metis \<open>take_bit 12 p = 0\<close> diff_zero word_and_not_mask)
  finally show "p AND PAGE_PHYS_MASK = p" by (simp add: PAGE_PHYS_MASK_eq)
qed

lemma or_flags_mask:
  fixes p f m :: u64
  assumes "p AND m = p" "f AND m = 0"
  shows "(p OR f) AND m = p"
  using assms by (simp add: bit.conj_disj_distrib2)

lemma or_flags_low:
  fixes p f m :: u64
  assumes "p AND m = 0"
  shows "(p OR f) AND m = f AND m"
  using assms by (simp add: bit.conj_disj_distrib2)

lemma and_submask_zero: "(p :: u64) AND m = 0 \<Longrightarrow> m' AND m = m' \<Longrightarrow> p AND m' = 0"
proof -
  assume m: "p AND m = 0" "m' AND m = m'"
  have "p AND m' = m' AND (p AND m)" using m(2) by (metis and.left_commute)
  then show ?thesis by (simp add: m(1))
qed

definition pt_frame :: "kstate \<Rightarrow> kstate \<Rightarrow> u64 set \<Rightarrow> bool" where
  "pt_frame s s' T \<longleftrightarrow> hhdm s' = hhdm s \<and> slabs s' = slabs s \<and> cache_pool s' = cache_pool s
     \<and> cache_pool_idx s' = cache_pool_idx s \<and> kernel_pml4 s' = kernel_pml4 s
     \<and> page_table_cache s' = page_table_cache s \<and> vm_area_cache s' = vm_area_cache s
     \<and> vm_map_cache s' = vm_map_cache s
     \<and> k_pages s' = k_pages s \<and> k_free_set s' \<subseteq> k_free_set s
     \<and> (\<forall>a. page_base a \<notin> T \<longrightarrow> mem s' a = mem s a)"

text \<open>The tables of \<open>lv'\<close> are those of \<open>lv\<close> and pages that were free.\<close>

definition pt_grow :: "kstate \<Rightarrow> (u64 \<Rightarrow> nat) \<Rightarrow> (u64 \<Rightarrow> nat) \<Rightarrow> bool" where
  "pt_grow s lv lv' \<longleftrightarrow>
     (\<forall>a. lv a \<noteq> 0 \<longrightarrow> lv' a = lv a) \<and> (\<forall>a. lv a = 0 \<longrightarrow> lv' a \<noteq> 0 \<longrightarrow> page_no s a \<in> k_free_set s)"

lemma pt_frame_refl [simp]: "pt_frame s s T" by (simp add: pt_frame_def)

lemma pt_frame_trans:
  "pt_frame s s1 T \<Longrightarrow> pt_frame s1 s2 U \<Longrightarrow> T \<subseteq> V \<Longrightarrow> U \<subseteq> V \<Longrightarrow> pt_frame s s2 V"
  unfolding pt_frame_def by (intro conjI) (simp_all add: subset_iff, metis)

lemma pt_grow_refl [simp]: "pt_grow s lv lv" by (simp add: pt_grow_def)

lemma pt_grow_trans:
  "pt_grow s lv l1 \<Longrightarrow> pt_grow s1 l1 l2 \<Longrightarrow> pt_frame s s1 T \<Longrightarrow> pt_grow s lv l2"
proof -
  assume g: "pt_grow s lv l1" "pt_grow s1 l1 l2" and fr: "pt_frame s s1 T"
  have pn: "page_no s1 a = page_no s a" for a using fr by (simp add: pt_frame_def page_no_def)
  have sub: "k_free_set s1 \<subseteq> k_free_set s" using fr by (simp add: pt_frame_def)
  have "page_no s a \<in> k_free_set s" if "lv a = 0" "l2 a \<noteq> 0" for a
    using g that sub pn [of a] unfolding pt_grow_def
    by (cases "l1 a = 0") (metis subsetD, metis)
  then show ?thesis using g unfolding pt_grow_def by auto
qed

subsection \<open>Writing a leaf entry\<close>

lemma child_eq:
  "read_entry s' t i = read_entry s t i \<Longrightarrow> hhdm s' = hhdm s \<Longrightarrow> child s' t i = child s t i"
  by (simp add: child_def phys_to_higher_half_data_def Let_def)

lemma walk_step:
  "walk s (Suc l) t va =
     (case child s t (level_idx (Suc l) va) of
        Some b \<Rightarrow> if l = 0 then Some (Suc l, read_entry s t (level_idx (Suc l) va)) else walk s l b va
      | None \<Rightarrow> (let e = read_entry s t (level_idx (Suc l) va) in
                  if e AND PAGE_PRESENT = 0 then None else Some (Suc l, e)))"
  by (simp add: child_def Let_def)

lemma walk_unchanged:
  assumes wf: "pt_wf s lv root" and hh: "hhdm s' = hhdm s"
    and same: "\<And>t j. lv t \<noteq> 0 \<Longrightarrow> lv t \<le> m \<Longrightarrow> unat j < 512 \<Longrightarrow> read_entry s' t j = read_entry s t j"
  shows "lv t = l \<Longrightarrow> l \<le> m \<Longrightarrow> walk s' l t va = walk s l t va"
proof (induction l arbitrary: t)
  case (Suc l)
  have e: "read_entry s' t (level_idx (Suc l) va) = read_entry s t (level_idx (Suc l) va)"
    by (rule same) (use Suc.prems level_idx_less in auto)
  have c: "child s' t (level_idx (Suc l) va) = child s t (level_idx (Suc l) va)"
    by (rule child_eq [OF e hh])
  have "walk s' l b va = walk s l b va" if "child s t (level_idx (Suc l) va) = Some b" "l \<noteq> 0" for b
    using pt_wfD(6) [OF wf _ level_idx_less that(1)] Suc that(2) by simp
  then show ?case unfolding walk_step c e
    by (auto split: option.split)
qed simp

definition leaf_of :: "nat \<Rightarrow> u64 \<Rightarrow> (nat \<times> u64) option" where
  "leaf_of k e = (if e AND PAGE_PRESENT = 0 then None else Some (k, e))"

lemma walk_leaf:
  assumes wf: "pt_wf s lv root" and x: "lv x = k" "1 \<le> k" and i: "unat i < 512"
    and e: "e AND PAGE_PRESENT = 0 \<or> k = 1 \<or> e AND PDE_PS \<noteq> 0"
  defines "s' \<equiv> write_entry s x i e"
  shows "lv t = k + n \<Longrightarrow> walk s' (k + n) t va =
    (if descend s k n t va = Some x \<and> level_idx k va = i then leaf_of k e else walk s (k + n) t va)"
proof (induction n arbitrary: t)
  case 0
  have px: "slab_page x" using pt_wfD(5) [OF wf] x by simp
  have pt: "slab_page t" using pt_wfD(5) [OF wf] 0 x by simp
  obtain l where l: "k = Suc l" using x(2) by (cases k) auto
  have r: "read_entry s' t (level_idx k va) =
     (if t = x \<and> level_idx k va = i then e else read_entry s t (level_idx k va))"
    unfolding s'_def by (rule read_write_entry [OF px pt i level_idx_less])
  have hh: "hhdm s' = hhdm s" by (simp add: s'_def)
  show ?case
  proof (cases "t = x \<and> level_idx k va = i")
    case True
    then show ?thesis using r e unfolding l by (auto simp: leaf_of_def Let_def)
  next
    case False
    have c: "child s' t (level_idx k va) = child s t (level_idx k va)"
      using child_eq [OF _ hh] r False by auto
    have same: "read_entry s' u j = read_entry s u j" if "lv u \<noteq> 0" "lv u \<le> l" "unat j < 512" for u j
      using read_write_entry [OF px pt_wfD(5) [OF wf that(1)] i that(3), of s e] that(2) x l
      by (auto simp: s'_def)
    have "walk s' l b va = walk s l b va" if "child s t (level_idx k va) = Some b" "l \<noteq> 0" for b
      using pt_wfD(6) [OF wf _ level_idx_less that(1)] 0 l that(2)
        walk_unchanged [OF wf hh same, where t = b and l = l] by simp
    then have "walk s' k t va = walk s k t va"
      using r c False unfolding l walk_step by (auto split: option.split)
    then show ?thesis using False by auto
  qed
next
  case (Suc n)
  have px: "slab_page x" using pt_wfD(5) [OF wf] x by simp
  have pt: "slab_page t" using pt_wfD(5) [OF wf] Suc.prems by simp
  have "t \<noteq> x" using Suc.prems x by auto
  then have r: "read_entry s' t (level_idx (k + Suc n) va) = read_entry s t (level_idx (k + Suc n) va)"
    unfolding s'_def using read_write_entry [OF px pt i level_idx_less] by simp
  have hh: "hhdm s' = hhdm s" by (simp add: s'_def)
  have c: "child s' t (level_idx (k + Suc n) va) = child s t (level_idx (k + Suc n) va)"
    by (rule child_eq [OF r hh])
  have "lv b = k + n" if "child s t (level_idx (k + Suc n) va) = Some b" for b
    using pt_wfD(6) [OF wf _ level_idx_less that] Suc.prems x by simp
  then have IH: "walk s' (k + n) b va = (if descend s k n b va = Some x \<and> level_idx k va = i
      then leaf_of k e else walk s (k + n) b va)"
    if "child s t (level_idx (k + Suc n) va) = Some b" for b
    using Suc.IH that by blast
  show ?case
    using r c IH x(2) unfolding add_Suc_right walk_step
    by (cases "child s t (level_idx (k + Suc n) va)") auto
qed

lemma pt_wf_leaf:
  assumes wf: "pt_wf s lv root" and x: "lv x = k" "1 \<le> k" and i: "unat i < 512"
    and e: "e AND PAGE_PRESENT = 0 \<or> k = 1 \<or> e AND PDE_PS \<noteq> 0"
  shows "pt_wf (write_entry s x i e) lv root" "pt_frame s (write_entry s x i e) {x}"
proof -
  let ?s = "write_entry s x i e"
  have px: "slab_page x" using pt_wfD(5) [OF wf] x by simp
  have up: "used_page ?s a = used_page s a" for a by (rule k_of_pmm(4)) simp_all
  have inv: "k_inv ?s = k_inv s" by (rule k_of_pmm(3)) simp_all
  have r: "read_entry ?s a j = (if a = x \<and> j = i then e else read_entry s a j)"
    if "lv a \<noteq> 0" "unat j < 512" for a j
    by (rule read_write_entry [OF px pt_wfD(5) [OF wf that(1)] i that(2)])
  have c: "child s a j = Some b" if a: "2 \<le> lv a" "unat j < 512" "child ?s a j = Some b" for a b j
  proof (cases "a = x \<and> j = i")
    case True
    then have "k \<noteq> 1" using a(1) x(1) by auto
    then have "child ?s a j = None" using True r [of a j] a e by (auto simp: child_def Let_def)
    then show ?thesis using a(3) by simp
  next
    case False
    then have "read_entry ?s a j = read_entry s a j" using r [of a j] a by auto
    then have "child ?s a j = child s a j" by (rule child_eq) simp
    then show ?thesis using a(3) by simp
  qed
  show "pt_wf ?s lv root"
    unfolding pt_wf_def inv up
  proof (intro conjI allI impI)
    fix a j b assume a: "2 \<le> lv a" "unat j < 512" "child ?s a j = Some b"
    show "lv b = lv a - 1" by (rule pt_wfD(6) [OF wf a(1,2) c [OF a]])
  next
    fix a j b d k
    assume a: "2 \<le> lv a" "unat j < 512" "2 \<le> lv d" "unat k < 512" "child ?s a j = Some b"
      "child ?s d k = Some b"
    have "a = d \<and> j = k" by (rule pt_wfD(7) [OF wf a(1-4) c [OF a(1,2,5)] c [OF a(3,4,6)]])
    then show "a = d" "j = k" by auto
  qed (use pt_wfD [OF wf] in auto)
  have "mem ?s a = mem s a" if "page_base a \<noteq> x" for a
    using page_base_entry [OF px i] that
    by (auto simp: write_entry_def write_cell_def entry_addr_def)
  then show "pt_frame s ?s {x}" using k_of_pmm(1,2) [of ?s s] by (simp add: pt_frame_def)
qed

subsection \<open>Adding a table\<close>

lemma clear_page_frame [simp]:
  "slabs (clear_page s p) = slabs s" "cache_pool (clear_page s p) = cache_pool s"
  "cache_pool_idx (clear_page s p) = cache_pool_idx s"
  "page_table_cache (clear_page s p) = page_table_cache s"
  "vm_area_cache (clear_page s p) = vm_area_cache s"
  "vm_map_cache (clear_page s p) = vm_map_cache s"
  "hhdm (clear_page s p) = hhdm s" "pmm (clear_page s p) = pmm s"
  "kernel_pml4 (clear_page s p) = kernel_pml4 s"
  by (simp_all add: clear_page_def)

lemma in_page_iff:
  assumes "slab_page p" shows "(a - p < PAGE_SIZE) = (page_base a = p)"
proof -
  obtain k where k: "unat p = 4096 * k" using assms by (auto simp: slab_page_def)
  have r: "unat p + 4096 \<le> 2 ^ 64" by (rule slab_page_room [OF assms])
  have "a - p < PAGE_SIZE \<longleftrightarrow> unat p \<le> unat a \<and> unat a < unat p + 4096"
  proof (cases "unat p \<le> unat a")
    case True
    then have "unat (a - p) = unat a - unat p" by (simp add: unat_sub word_le_nat_alt)
    then show ?thesis using True by (simp add: word_less_nat_alt) linarith
  next
    case False
    then have "unat (a - p) = 2 ^ 64 + unat a - unat p"
      by (simp add: unat_sub_if_size word_size)
    then show ?thesis using False r by (simp add: word_less_nat_alt)
  qed
  also have "\<dots> \<longleftrightarrow> unat a - unat a mod 4096 = unat p"
    unfolding k by (simp add: minus_mod_eq_mult_div) linarith
  finally show ?thesis by (simp only: word_unat_eq_iff unat_page_of)
qed

lemma read_clear_page:
  assumes "slab_page p" "slab_page t" "unat i < 512"
  shows "read_entry (clear_page s p) t i = (if t = p then 0 else read_entry s t i)"
  using in_page_iff [OF assms(1), of "entry_addr t i"] page_base_entry [OF assms(2,3)]
  by (simp add: read_entry_def clear_page_def entry_addr_def)

text \<open>Adding an empty table below an entry that was not present.\<close>

definition new_table ::
  "kstate \<Rightarrow> kstate \<Rightarrow> (u64 \<Rightarrow> nat) \<Rightarrow> u64 \<Rightarrow> u64 \<Rightarrow> u64 \<Rightarrow> u16 \<Rightarrow> nat \<Rightarrow> u64 \<Rightarrow> bool" where
  "new_table s s' lv root x b i k e \<longleftrightarrow>
     pt_wf s lv root \<and> lv x = Suc k \<and> 1 \<le> k \<and> unat i < 512
     \<and> read_entry s x i AND PAGE_PRESENT = 0
     \<and> page_no s b \<in> k_free_set s \<and> slab_page b \<and> lv b = 0 \<and> used_page s' b
     \<and> e AND PAGE_PRESENT \<noteq> 0 \<and> e AND PDE_PS = 0
     \<and> phys_to_higher_half_data s (e AND PAGE_PHYS_MASK) = b
     \<and> pt_frame s s' {x, b} \<and> k_inv s' \<and> k_free_set s' = k_free_set s - {page_no s b}
     \<and> (\<forall>t j. slab_page t \<longrightarrow> unat j < 512 \<longrightarrow> read_entry s' t j =
          (if t = x \<and> j = i then e else if t = b then 0 else read_entry s t j))"

lemma new_tableD:
  assumes "new_table s s' lv root x b i k e"
  shows "pt_wf s lv root" "lv x = Suc k" "1 \<le> k" "unat i < 512"
    "read_entry s x i AND PAGE_PRESENT = 0"
    "page_no s b \<in> k_free_set s" "slab_page b" "lv b = 0" "used_page s' b"
    "e AND PAGE_PRESENT \<noteq> 0" "e AND PDE_PS = 0"
    "phys_to_higher_half_data s (e AND PAGE_PHYS_MASK) = b"
    "pt_frame s s' {x, b}" "k_inv s'" "k_free_set s' = k_free_set s - {page_no s b}"
    "\<And>t j. slab_page t \<Longrightarrow> unat j < 512 \<Longrightarrow> read_entry s' t j =
          (if t = x \<and> j = i then e else if t = b then 0 else read_entry s t j)"
    "hhdm s' = hhdm s"
  using assms unfolding new_table_def pt_frame_def by blast+

lemma new_table_child:
  assumes nt: "new_table s s' lv root x b i k e" and "lv t \<noteq> 0 \<or> t = b" "unat j < 512"
  shows "child s' t j = (if t = x \<and> j = i then Some b else if t = b then None else child s t j)"
proof -
  note wf = new_tableD(1) [OF nt] and x = new_tableD(2) [OF nt] and k = new_tableD(3) [OF nt]
    and i = new_tableD(4) [OF nt] and absent = new_tableD(5) [OF nt] and fresh = new_tableD(6-8) [OF nt]
    and used = new_tableD(9) [OF nt] and e = new_tableD(10-12) [OF nt] and frame = new_tableD(13) [OF nt]
    and inv' = new_tableD(14) [OF nt] and reads = new_tableD(16) [OF nt] and hh = new_tableD(17) [OF nt]
  have "slab_page t" using assms(2) pt_wfD(5) [OF wf] fresh by auto
  then show ?thesis
    using reads [OF _ assms(3), of t] e hh x fresh(3)
    by (auto simp: child_def Let_def phys_to_higher_half_data_def)
qed

lemma new_table_unlinked:
  assumes nt: "new_table s s' lv root x b i k e" and "2 \<le> lv a" "unat j < 512"
  shows "child s a j \<noteq> Some b"
  using pt_wfD(6) [OF new_tableD(1) [OF nt] assms(2,3), of b] assms(2) new_tableD(8) [OF nt] by auto

lemma new_table_wf:
  assumes nt: "new_table s s' lv root x b i k e"
  shows "pt_wf s' (lv(b := k)) root"
proof -
  note wf = new_tableD(1) [OF nt] and x = new_tableD(2) [OF nt] and k = new_tableD(3) [OF nt]
    and i = new_tableD(4) [OF nt] and absent = new_tableD(5) [OF nt] and fresh = new_tableD(6-8) [OF nt]
    and used = new_tableD(9) [OF nt] and e = new_tableD(10-12) [OF nt] and frame = new_tableD(13) [OF nt]
    and inv' = new_tableD(14) [OF nt] and reads = new_tableD(16) [OF nt] and hh = new_tableD(17) [OF nt]
  note child_new = new_table_child [OF nt] and lv_child = new_table_unlinked [OF nt]
  have k3: "k \<le> 3" using pt_wfD(3) [OF wf, of x] x by simp
  have root: "root \<noteq> b" using pt_wfD(2) [OF wf] fresh(3) by auto
  have old: "used_page s' a" if "lv a \<noteq> 0" for a
  proof -
    have u: "used_page s a" by (rule pt_wfD(4) [OF wf that])
    then show ?thesis by (rule used_page_cong [rotated 3]) (use frame in \<open>auto simp: pt_frame_def\<close>)
  qed
  have xb: "x \<noteq> b" using x fresh(3) by auto
  have abs: "child s x i = None" using absent by (simp add: child_def Let_def)
  let ?l = "lv(b := k)"
  have c: "(a = x \<and> j = i \<and> d = b) \<or> (a \<noteq> b \<and> child s a j = Some d \<and> d \<noteq> b)"
    if "2 \<le> ?l a" "unat j < 512" "child s' a j = Some d" for a j d
    using that child_new [of a j] lv_child [of a j] by (auto split: if_splits)
  show ?thesis
    unfolding pt_wf_def
  proof (intro conjI allI impI)
    fix a j d assume a: "2 \<le> ?l a" "unat j < 512" "child s' a j = Some d"
    from c [OF a] show "?l d = ?l a - 1"
      using pt_wfD(6) [OF wf, of a j d] a x xb by auto
  next
    fix a j d a' j'
    assume a: "2 \<le> ?l a" "unat j < 512" "2 \<le> ?l a'" "unat j' < 512" "child s' a j = Some d"
      "child s' a' j' = Some d"
    have "a = a' \<and> j = j'"
      using c [OF a(1,2,5)] c [OF a(3,4,6)] pt_wfD(7) [OF wf, of a j a' j' d] a by auto
    then show "a = a'" "j = j'" by auto
  qed (use inv' pt_wfD [OF wf] root used old k3 in \<open>auto split: if_splits\<close>)
qed

lemma new_table_empty:
  assumes nt: "new_table s s' lv root x b i k e"
  shows "walk s' l b va = None"
proof -
  note wf = new_tableD(1) [OF nt] and x = new_tableD(2) [OF nt] and k = new_tableD(3) [OF nt]
    and i = new_tableD(4) [OF nt] and absent = new_tableD(5) [OF nt] and fresh = new_tableD(6-8) [OF nt]
    and used = new_tableD(9) [OF nt] and e = new_tableD(10-12) [OF nt] and frame = new_tableD(13) [OF nt]
    and inv' = new_tableD(14) [OF nt] and reads = new_tableD(16) [OF nt] and hh = new_tableD(17) [OF nt]
  show ?thesis
    by (cases l) (simp_all add: reads [OF fresh(2) level_idx_less] Let_def,
        use x fresh(3) in auto)
qed

lemma new_table_walk:
  assumes nt: "new_table s s' lv root x b i k e"
  shows "lv t = l \<Longrightarrow> walk s' l t va = walk s l t va"
proof (induction l arbitrary: t)
  case (Suc l)
  note wf = new_tableD(1) [OF nt] and x = new_tableD(2) [OF nt] and k = new_tableD(3) [OF nt]
    and i = new_tableD(4) [OF nt] and absent = new_tableD(5) [OF nt] and fresh = new_tableD(6-8) [OF nt]
    and used = new_tableD(9) [OF nt] and e = new_tableD(10-12) [OF nt] and frame = new_tableD(13) [OF nt]
    and inv' = new_tableD(14) [OF nt] and reads = new_tableD(16) [OF nt] and hh = new_tableD(17) [OF nt]
  note child_new = new_table_child [OF nt] and walk_empty = new_table_empty [OF nt]
  have t: "slab_page t" "t \<noteq> b" using pt_wfD(5) [OF wf, of t] Suc.prems fresh(3) by auto
  note r = reads [OF t(1) level_idx_less, of "Suc l" va]
  note c = child_new [OF _ level_idx_less, of t "Suc l" va]
  show ?case
  proof (cases "t = x \<and> level_idx (Suc l) va = i")
    case True
    then have "l \<noteq> 0" "child s' t (level_idx (Suc l) va) = Some b" using c Suc.prems x k by auto
    then show ?thesis using True absent walk_empty
      by (simp add: walk_step [of s'] del: walk.simps(2)) (simp add: walk_step child_def Let_def)
  next
    case False
    then have c': "child s' t (level_idx (Suc l) va) = child s t (level_idx (Suc l) va)"
      and r': "read_entry s' t (level_idx (Suc l) va) = read_entry s t (level_idx (Suc l) va)"
      using c r t Suc.prems by auto
    have "walk s' l d va = walk s l d va" if "child s t (level_idx (Suc l) va) = Some d" "l \<noteq> 0" for d
      using Suc.IH pt_wfD(6) [OF wf _ level_idx_less that(1)] Suc.prems that(2) by simp
    then show ?thesis unfolding walk_step c' r' by (auto split: option.split)
  qed
qed simp

lemma new_table_descend:
  assumes nt: "new_table s s' lv root x b i k e"
  shows "lv t = k' + n \<Longrightarrow> 1 \<le> k' \<Longrightarrow> descend s k' n t va = Some y \<Longrightarrow> descend s' k' n t va = Some y"
proof (induction n arbitrary: t)
  case (Suc n)
  note wf = new_tableD(1) [OF nt] and x = new_tableD(2) [OF nt] and k = new_tableD(3) [OF nt]
    and i = new_tableD(4) [OF nt] and absent = new_tableD(5) [OF nt] and fresh = new_tableD(6-8) [OF nt]
    and used = new_tableD(9) [OF nt] and e = new_tableD(10-12) [OF nt] and frame = new_tableD(13) [OF nt]
    and inv' = new_tableD(14) [OF nt] and reads = new_tableD(16) [OF nt] and hh = new_tableD(17) [OF nt]
  note child_new = new_table_child [OF nt]
  from Suc obtain d where d: "child s t (level_idx (k' + Suc n) va) = Some d" "descend s k' n d va = Some y"
    by (auto simp: bind_eq_Some_conv)
  have t: "lv t \<noteq> 0" "t \<noteq> b" using Suc.prems fresh(3) by auto
  have "\<not> (t = x \<and> level_idx (k' + Suc n) va = i)"
    using d(1) absent by (auto simp: child_def Let_def)
  then have "child s' t (level_idx (k' + Suc n) va) = Some d"
    using child_new [OF _ level_idx_less, of t "k' + Suc n" va] t d(1) by auto
  moreover have "lv d = k' + n" using pt_wfD(6) [OF wf _ level_idx_less d(1)] Suc.prems by simp
  ultimately show ?case using Suc.IH d(2) Suc.prems by simp
qed simp

lemma new_table_grow: "new_table s s' lv root x b i k e \<Longrightarrow> pt_grow s lv (lv(b := k))"
  by (simp add: new_table_def pt_grow_def)

end
