(* ===== verification/Pmap_Ops.thy ===== *)
theory Pmap_Ops
  imports Pmap_Walk
begin

text \<open>
  What the mapping operations do to the translation: a step down the tree, allocating a missing
  table, changes nothing that is translated; mapping at a level changes exactly the addresses
  that share the entry written.
\<close>

subsection \<open>The operations\<close>

text \<open>The tree only grew: everything that was translated still is, the same way.\<close>

definition pt_ext ::
  "u64 \<Rightarrow> kstate \<Rightarrow> (u64 \<Rightarrow> nat) \<Rightarrow> kstate \<Rightarrow> (u64 \<Rightarrow> nat) \<Rightarrow> bool" where
  "pt_ext root s lv s' lv' \<longleftrightarrow> pt_wf s' lv' root \<and> pt_grow s lv lv'
     \<and> pt_frame s s' {a. lv' a \<noteq> 0}
     \<and> (\<forall>t va. walk s' (lv t) t va = walk s (lv t) t va)
     \<and> (\<forall>k n t va y. lv t = k + n \<longrightarrow> 1 \<le> k \<longrightarrow> descend s k n t va = Some y \<longrightarrow>
          descend s' k n t va = Some y)"

lemma pt_ext_refl: "pt_wf s lv root \<Longrightarrow> pt_ext root s lv s lv"
  by (simp add: pt_ext_def)

lemma pt_growD: "pt_grow s lv lv' \<Longrightarrow> lv a \<noteq> 0 \<Longrightarrow> lv' a = lv a"
  by (simp add: pt_grow_def)

lemma pt_ext_trans:
  assumes "pt_ext root s lv s1 l1" "pt_ext root s1 l1 s2 l2"
  shows "pt_ext root s lv s2 l2"
proof -
  note a = assms(1) [unfolded pt_ext_def] and b = assms(2) [unfolded pt_ext_def]
  have g: "pt_grow s lv l2" using a b pt_grow_trans by blast
  have "{a. l1 a \<noteq> 0} \<subseteq> {a. l2 a \<noteq> 0}" using b pt_growD by fastforce
  then have f: "pt_frame s s2 {a. l2 a \<noteq> 0}"
    using pt_frame_trans [of s s1 "{a. l1 a \<noteq> 0}" s2 "{a. l2 a \<noteq> 0}"] a b by blast
  have w: "walk s2 (lv t) t va = walk s (lv t) t va" for t va
  proof (cases "lv t = 0")
    case False
    then have "l1 t = lv t" using a pt_growD by blast
    then show ?thesis using a b by metis
  qed simp
  have d: "descend s2 k n t va = Some y" if "lv t = k + n" "1 \<le> k" "descend s k n t va = Some y" for k n t va y
  proof -
    have "l1 t = lv t" using a pt_growD that by (metis add_is_0 not_one_le_zero)
    then show ?thesis using a b that by metis
  qed
  show ?thesis unfolding pt_ext_def using b g f w d by blast
qed

lemma new_entry:
  fixes phys :: u64
  assumes "unat phys mod 4096 = 0" "unat phys < 2 ^ 52"
  defines "e \<equiv> phys OR PAGE_PRESENT OR PAGE_RW OR PAGE_USER"
  shows "e AND PAGE_PRESENT \<noteq> 0" "e AND PDE_PS = 0" "e AND PAGE_PHYS_MASK = phys"
proof -
  note p = phys_entry_mask [OF assms(1,2)]
  have e: "e = phys OR 7" by (simp add: e_def PAGE_PRESENT_def PAGE_RW_def PAGE_USER_def or.assoc)
  have l: "phys AND 1 = 0" "phys AND 128 = 0"
    using p(2) by (auto intro: and_submask_zero simp: mask_eq_exp_minus_1)
  show "e AND PAGE_PRESENT \<noteq> 0" "e AND PDE_PS = 0"
    unfolding e PAGE_PRESENT_def PDE_PS_def using or_flags_low l by simp_all
  show "e AND PAGE_PHYS_MASK = phys"
    unfolding e by (rule or_flags_mask [OF p(1)]) (simp add: PAGE_PHYS_MASK_def)
qed

lemma get_next_level_present:
  assumes wf: "pt_wf s lv root" and x: "lv x = Suc k" "1 \<le> k" "unat i < 512"
    and p: "read_entry s x i AND PAGE_PRESENT \<noteq> 0"
  obtains (huge) "get_next_level s x i al = Some (0, s)" "child s x i = None"
  | (table) b where "get_next_level s x i al = Some (b, s)" "b \<noteq> 0" "lv b = k" "child s x i = Some b"
proof (cases "read_entry s x i AND PDE_PS = 0")
  case False
  then show thesis using huge p by (simp add: get_next_level_def child_def Let_def)
next
  case True
  define b where "b = phys_to_higher_half_data s (read_entry s x i AND PAGE_PHYS_MASK)"
  have c: "child s x i = Some b" using p True by (simp add: child_def b_def Let_def)
  have l: "lv b = k" using pt_wfD(6) [OF wf _ x(3) c] x by simp
  then have "b \<noteq> 0" using pt_wfD(5) [OF wf, of b] x(2) by (auto simp: slab_page_def)
  then show thesis using table [of b] c l p True
    by (simp add: get_next_level_def b_def Let_def PDE_PS_def PDPTE_PS_def)
qed

lemma get_next_level_absent:
  assumes wf: "pt_wf s lv root" and x: "lv x = Suc k" "1 \<le> k" and i: "unat i < 512"
    and absent: "read_entry s x i AND PAGE_PRESENT = 0"
  obtains (oom) "get_next_level s x i True = Some (0, s)" "k_free_set s = {}"
  | (new) b s' e where "get_next_level s x i True = Some (b, s')" "new_table s s' lv root x b i k e"
proof (cases rule: kpg.alloc_cases [OF pt_wfD(1) [OF wf]])
  case 1
  then show thesis using oom absent by (simp add: get_next_level_def)
next
  case (2 n phys s1)
  define b where "b = hhdm s + phys"
  define e where "e = phys OR PAGE_PRESENT OR PAGE_RW OR PAGE_USER"
  define s' where "s' = write_entry (clear_page s1 b) x i e"
  obtain p where p: "s1 = s\<lparr>pmm := p\<rparr>" using k_alloc_page_frame [OF 2(2)] by blast
  note nf = new_page_facts [OF pt_wfD(1) [OF wf] 2(1,3), folded b_def]
  have px: "slab_page x" and ux: "used_page s x" using pt_wfD(4,5) [OF wf, of x] x by auto
  have lb: "lv b = 0"
  proof (rule ccontr)
    assume "lv b \<noteq> 0"
    then have "used_page s b" by (rule pt_wfD(4) [OF wf])
    then show False using nf(2) 2(1) by (simp add: used_page_def)
  qed
  have run: "get_next_level s x i True = Some (b, s')"
    using absent 2(2,4)
    by (simp add: get_next_level_def Let_def p phys_to_higher_half_data_def s'_def b_def e_def)
  have kb: "n < 2 ^ 31" using nf(5) kpg.pages_bound [OF pt_wfD(1) [OF wf]] by simp
  have pa: "unat phys mod 4096 = 0" "unat phys < 2 ^ 52" using 2(3) kb by simp_all
  note ne = new_entry [OF pa, folded e_def]
  have same: "pmm s' = p" "hhdm s' = hhdm s" "slabs s' = slabs s" "cache_pool s' = cache_pool s"
    "cache_pool_idx s' = cache_pool_idx s" "kernel_pml4 s' = kernel_pml4 s"
    "page_table_cache s' = page_table_cache s" "vm_area_cache s' = vm_area_cache s"
    "vm_map_cache s' = vm_map_cache s"
    by (simp_all add: s'_def p)
  have fs: "k_free_set s' = k_free_set s1" "k_pages s' = k_pages s1" "k_inv s' = k_inv s1"
    using k_of_pmm(1-3) [of s' s1] same p by simp_all
  have r: "read_entry s' t j = (if t = x \<and> j = i then e else if t = b then 0 else read_entry s t j)"
    if "slab_page t" "unat j < 512" for t j
    unfolding s'_def read_write_entry [OF px that(1) i that(2)] read_clear_page [OF nf(3) that]
    by (simp add: p read_entry_def)
  have ub: "used_page s' b"
    using nf fs 2(6,7) same by (simp add: used_page_def page_no_def b_def)
  have mm: "mem s' a = mem s a" if "page_base a \<notin> {x, b}" for a
    using page_base_entry [OF px i] in_page_iff [OF nf(3), of a] that
    by (auto simp: s'_def write_entry_def write_cell_def clear_page_def p entry_addr_def)
  have fr: "pt_frame s s' {x, b}"
    using same fs 2(6,7) mm by (auto simp: pt_frame_def)
  have "new_table s s' lv root x b i k e"
    unfolding new_table_def using wf x i absent nf 2(1,5,7) lb ub ne fr fs r
    by (simp add: phys_to_higher_half_data_def flip: b_def)
  then show thesis using new run by blast
qed

lemma get_next_level_correct:
  assumes wf: "pt_wf s lv root" and x: "lv x = Suc k" "1 \<le> k"
  obtains (fail) "get_next_level s x (level_idx l va) True = Some (0, s)"
      "k_free_set s = {} \<or> read_entry s x (level_idx l va) AND PAGE_PRESENT \<noteq> 0
         \<and> child s x (level_idx l va) = None"
  | (ok) b s' lv' where "get_next_level s x (level_idx l va) True = Some (b, s')" "b \<noteq> 0" "lv' b = k"
      "pt_ext root s lv s' lv'" "child s' x (level_idx l va) = Some b"
proof (cases "read_entry s x (level_idx l va) AND PAGE_PRESENT = 0")
  case False
  show thesis
  proof (cases rule: get_next_level_present [OF wf x level_idx_less False, where al = True])
    case 1
    then show thesis using fail False by blast
  next
    case (2 b)
    then show thesis using ok [of b s lv] pt_ext_refl [OF wf] by blast
  qed
next
  case True
  show thesis
  proof (cases rule: get_next_level_absent [OF wf x level_idx_less True])
    case 1
    then show thesis using fail by blast
  next
    case (2 b s' e)
    note n = new_tableD [OF 2(2)]
    let ?l = "lv(b := k)"
    have "pt_frame s s' {a. ?l a \<noteq> 0}"
      using n(13) by (rule pt_frame_trans [OF pt_frame_refl]) (use x n(8) in auto)
    then have "pt_ext root s lv s' ?l"
      unfolding pt_ext_def
      using new_table_wf [OF 2(2)] new_table_grow [OF 2(2)] new_table_walk [OF 2(2)]
        new_table_descend [OF 2(2)] by blast
    moreover have "child s' x (level_idx l va) = Some b"
      using new_table_child [OF 2(2), of x "level_idx l va"] x level_idx_less by simp
    moreover have "b \<noteq> 0" using n(7) by (simp add: slab_page_def)
    ultimately show thesis using ok [of b s' ?l] 2(1) by simp
  qed
qed

text \<open>Writing the leaf entry an address reaches at level \<open>k\<close>.\<close>

definition same_slot :: "nat \<Rightarrow> u64 \<Rightarrow> u64 \<Rightarrow> bool" where
  "same_slot k va vb \<longleftrightarrow> (\<forall>j\<in>{k..4}. level_idx j va = level_idx j vb)"

lemma leaf_on_path:
  assumes wf: "pt_wf s lv root" and d: "descend s k n root va = Some x" and kn: "k + n = 4" "1 \<le> k"
    and e: "e AND PAGE_PRESENT = 0 \<or> k = 1 \<or> e AND PDE_PS \<noteq> 0"
  shows "walk (write_entry s x (level_idx k va) e) 4 root vb =
    (if same_slot k vb va then leaf_of k e else walk s 4 root vb)"
    and "pt_wf (write_entry s x (level_idx k va) e) lv root"
    and "pt_frame s (write_entry s x (level_idx k va) e) {x}" and "lv x = k"
proof -
  have r: "lv root = k + n" using pt_wfD(2) [OF wf] kn by simp
  show x: "lv x = k" by (rule descend_level [OF wf r kn(2) d])
  have "descend s k n root vb = Some x \<longleftrightarrow> (\<forall>j. k < j \<and> j \<le> 4 \<longrightarrow> level_idx j vb = level_idx j va)"
    using descend_inj [OF wf r r kn(2) _ d, of vb] descend_cong [of k n vb va s root] d kn
    by (metis)
  then have "descend s k n root vb = Some x \<and> level_idx k vb = level_idx k va \<longleftrightarrow> same_slot k vb va"
    unfolding same_slot_def using kn by (auto simp: le_eq_less_or_eq)
  then show "walk (write_entry s x (level_idx k va) e) 4 root vb =
    (if same_slot k vb va then leaf_of k e else walk s 4 root vb)"
    using walk_leaf [OF wf x kn(2) level_idx_less e r, of k va vb] kn by simp
  show "pt_wf (write_entry s x (level_idx k va) e) lv root"
    "pt_frame s (write_entry s x (level_idx k va) e) {x}"
    by (rule pt_wf_leaf [OF wf x kn(2) level_idx_less e])+
qed


text \<open>The result of mapping at level \<open>k\<close> with entry \<open>e\<close>: all or nothing.\<close>

definition map_post ::
  "u64 \<Rightarrow> kstate \<Rightarrow> (u64 \<Rightarrow> nat) \<Rightarrow> nat \<Rightarrow> u64 \<Rightarrow> u64 \<Rightarrow> u64 \<Rightarrow> (u64 \<times> kstate) option \<Rightarrow> bool" where
  "map_post root s lv k va e step r \<longleftrightarrow>
     (\<exists>m s' lv'. r = Some (m, s') \<and> pt_wf s' lv' root \<and> pt_grow s lv lv'
        \<and> pt_frame s s' {a. lv' a \<noteq> 0}
        \<and> (m = 0 \<and> (\<forall>vb. walk s' 4 root vb = walk s 4 root vb)
           \<or> m = step \<and> (\<forall>vb. walk s' 4 root vb =
               (if same_slot k vb va then leaf_of k e else walk s 4 root vb))))"

lemma map_post_fail:
  assumes "pt_ext root s lv s' lv'" "lv root = 4"
  shows "map_post root s lv k va e step (Some (0, s'))"
  using assms unfolding map_post_def pt_ext_def by metis

lemma map_post_done:
  assumes ext: "pt_ext root s lv s' lv'" and root: "lv root = 4"
    and d: "descend s' k n root va = Some x" and kn: "k + n = 4" "1 \<le> k"
    and e: "e AND PAGE_PRESENT = 0 \<or> k = 1 \<or> e AND PDE_PS \<noteq> 0"
  shows "map_post root s lv k va e step (Some (step, write_entry s' x (level_idx k va) e))"
proof -
  let ?t = "write_entry s' x (level_idx k va) e"
  have wf: "pt_wf s' lv' root" and g: "pt_grow s lv lv'" and f: "pt_frame s s' {a. lv' a \<noteq> 0}"
    and w: "walk s' 4 root vb = walk s 4 root vb" for vb
    using ext root unfolding pt_ext_def by (blast, blast, blast, metis)
  note L = leaf_on_path [OF wf d kn e]
  have "lv' x \<noteq> 0" using L(4) kn by simp
  then have "pt_frame s ?t {a. lv' a \<noteq> 0}" using f L(3) by (intro pt_frame_trans [OF f L(3)]) auto
  then show ?thesis
    unfolding map_post_def using L(1,2) g w by (metis (no_types, lifting))
qed

lemma pt_ext_descend:
  "pt_ext root s lv s' lv' \<Longrightarrow> lv t = k + n \<Longrightarrow> 1 \<le> k \<Longrightarrow> descend s k n t va = Some y \<Longrightarrow>
   descend s' k n t va = Some y"
  unfolding pt_ext_def by blast

lemma pt_ext_wf: "pt_ext root s lv s' lv' \<Longrightarrow> pt_wf s' lv' root"
  by (simp add: pt_ext_def)

text \<open>One step down, allocating: the path to \<open>x\<close> at level \<open>Suc k\<close> becomes a path to level \<open>k\<close>.\<close>

lemma step_down:
  assumes ext: "pt_ext root s0 lv0 s lv" and d: "descend s k1 n root va = Some x"
    and kn: "k1 = k + 1" "m = n + 1" "k1 + n = 4" "1 \<le> k"
  obtains (fail) "get_next_level s x (level_idx k1 va) True = Some (0, s)"
  | (ok) b s' lv' where "get_next_level s x (level_idx k1 va) True = Some (b, s')" "b \<noteq> 0"
      "pt_ext root s0 lv0 s' lv'" "descend s' k m root va = Some b"
proof -
  have wf: "pt_wf s lv root" using ext by (rule pt_ext_wf)
  have r: "lv root = k1 + n" using pt_wfD(2) [OF wf] kn by simp
  have "1 \<le> k1" using kn by simp
  note x = descend_level [OF wf r this d]
  then have x: "lv x = Suc k" using kn by simp
  show thesis
  proof (cases rule: get_next_level_correct [OF wf x kn(4), where l = k1 and va = va])
    case 1
    then show thesis using fail by blast
  next
    case (2 b s' lv')
    have "descend s' k1 n root va = Some x" by (rule pt_ext_descend [OF 2(4) r \<open>1 \<le> k1\<close> d])
    then have "descend s' k m root va = Some b"
      using descend_snoc [of k1 s' n root va x] 2(5) kn by simp
    then show thesis using ok [OF 2(1,2) pt_ext_trans [OF ext 2(4)]] by blast
  qed
qed

lemma map_1g_correct:
  assumes wf: "pt_wf s lv root" and ps: "(phys OR fl) AND PDE_PS \<noteq> 0"
  shows "map_post root s lv 3 va (phys OR fl) PAGE_SIZE_1G (map_1g s root va phys fl)"
proof -
  have r: "lv root = 4" by (rule pt_wfD(2) [OF wf])
  note E = pt_ext_refl [OF wf]
  have d4: "descend s 4 0 root va = Some root" by simp
  show ?thesis
  proof (cases rule: step_down [OF E d4, where k = 3 and m = 1])
    case 5
    then show ?thesis by (simp add: map_1g_def level_idx_simps map_post_fail [OF E r])
  next
    case d3: (6 b3 s3 l3)
    show ?thesis using d3(1,2) map_post_done [OF d3(3) r d3(4)] ps
      by (simp add: map_1g_def level_idx_simps)
  qed simp_all
qed

lemma map_2m_correct:
  assumes wf: "pt_wf s lv root" and ps: "(phys OR fl) AND PDE_PS \<noteq> 0"
  shows "map_post root s lv 2 va (phys OR fl) PAGE_SIZE_2M (map_2m s root va phys fl)"
proof -
  have r: "lv root = 4" by (rule pt_wfD(2) [OF wf])
  note E = pt_ext_refl [OF wf]
  have d4: "descend s 4 0 root va = Some root" by simp
  show ?thesis
  proof (cases rule: step_down [OF E d4, where k = 3 and m = 1])
    case 5
    then show ?thesis by (simp add: map_2m_def level_idx_simps map_post_fail [OF E r])
  next
    case d3: (6 b3 s3 l3)
    show ?thesis
    proof (cases rule: step_down [OF d3(3,4), where k = 2 and m = 2])
      case 5
      then show ?thesis using d3(1,2) map_post_fail [OF d3(3) r] by (simp add: map_2m_def level_idx_simps)
    next
      case d2: (6 b2 s2 l2)
      show ?thesis using d3(1,2) d2(1,2) map_post_done [OF d2(3) r d2(4)] ps
        by (simp add: map_2m_def level_idx_simps)
    qed simp_all
  qed simp_all
qed

lemma map_4k_correct:
  assumes wf: "pt_wf s lv root"
  shows "map_post root s lv 1 va (phys OR fl) PAGE_SIZE (map_4k s root va phys fl)"
proof -
  have r: "lv root = 4" by (rule pt_wfD(2) [OF wf])
  note E = pt_ext_refl [OF wf]
  have d4: "descend s 4 0 root va = Some root" by simp
  show ?thesis
  proof (cases rule: step_down [OF E d4, where k = 3 and m = 1])
    case 5
    then show ?thesis by (simp add: map_4k_def level_idx_simps map_post_fail [OF E r])
  next
    case d3: (6 b3 s3 l3)
    show ?thesis
    proof (cases rule: step_down [OF d3(3,4), where k = 2 and m = 2])
      case 5
      then show ?thesis using d3(1,2) map_post_fail [OF d3(3) r] by (simp add: map_4k_def level_idx_simps)
    next
      case d2: (6 b2 s2 l2)
      show ?thesis
      proof (cases rule: step_down [OF d2(3,4), where k = 1 and m = 3])
        case 5
        then show ?thesis using d3(1,2) d2(1,2) map_post_fail [OF d2(3) r]
          by (simp add: map_4k_def level_idx_simps)
      next
        case d1: (6 b1 s1 l1)
        show ?thesis using d3(1,2) d2(1,2) d1(1,2) map_post_done [OF d1(3) r d1(4)]
          by (simp add: map_4k_def level_idx_simps)
      qed simp_all
    qed simp_all
  qed simp_all
qed

end
