(* ===== verification/Pmap_Translate.thy ===== *)
theory Pmap_Translate
  imports Pmap_Ops
begin

text \<open>
  The translation an address space defines, as a function from virtual addresses to physical
  addresses and access bits, and mapping as an update of that function on a range of addresses.
\<close>

text \<open>Bits of an address a mapping at level \<open>k\<close> does not look at: $3 + 9 k$.\<close>

definition slot_bits :: "nat \<Rightarrow> nat" where "slot_bits k = 3 + 9 * k"

definition perm_mask :: u64 where "perm_mask = 0x800000000000001F"

text \<open>The physical address and the access bits an address translates to.\<close>

definition translate :: "kstate \<Rightarrow> u64 \<Rightarrow> u64 \<Rightarrow> (u64 \<times> u64) option" where
  "translate s root va =
     (case walk s 4 root va of
        None \<Rightarrow> None
      | Some (k, e) \<Rightarrow>
          Some ((e AND PAGE_PHYS_MASK AND NOT (mask (slot_bits k))) OR (va AND mask (slot_bits k)),
                e AND perm_mask))"

text \<open>The distance of an address from \<open>base\<close> in the 48-bit space the tables cover.\<close>

definition va_off :: "u64 \<Rightarrow> u64 \<Rightarrow> u64" where
  "va_off base va = take_bit 48 (va - base)"

lemma uint_va_off: "uint (va_off base va) = (uint va - uint base) mod 2 ^ 48"
proof -
  have "uint (va_off base va) = uint (va - base) mod 2 ^ 48"
    unfolding va_off_def unsigned_take_bit_eq by (rule take_bit_eq_mod)
  also have "uint (va - base) = (uint va - uint base) mod 2 ^ 64"
    by (simp add: uint_word_ariths)
  also have "(uint va - uint base) mod 2 ^ 64 mod 2 ^ 48 = (uint va - uint base) mod 2 ^ 48"
    by (rule mod_mod_cancel) (simp add: le_imp_power_dvd)
  finally show ?thesis .
qed

lemma unat_va_off:
  "unat (va_off base va) = (unat va mod 2 ^ 48 + 2 ^ 48 - unat base mod 2 ^ 48) mod 2 ^ 48"
proof -
  have "int (unat (va_off base va)) = (uint va - uint base) mod 2 ^ 48"
    using uint_va_off by simp
  also have "\<dots> = int ((unat va mod 2 ^ 48 + 2 ^ 48 - unat base mod 2 ^ 48) mod 2 ^ 48)"
  proof -
    define A where "A = unat va mod 2 ^ 48"
    define B where "B = unat base mod 2 ^ 48"
    have b: "B \<le> A + 2 ^ 48" unfolding B_def by (rule order_trans [of _ "2 ^ 48"]) simp_all
    have "(uint va - uint base) mod 2 ^ 48 = (int A - int B) mod 2 ^ 48"
      unfolding A_def B_def by (simp add: zmod_int mod_diff_eq)
    also have "\<dots> = (int A + 2 ^ 48 - int B) mod 2 ^ 48"
      by (metis add_diff_eq diff_add_eq mod_add_self2)
    also have "int A + 2 ^ 48 - int B = int (A + 2 ^ 48 - B)" using b by (simp add: of_nat_diff)
    finally show ?thesis unfolding A_def B_def by (simp add: zmod_int)
  qed
  finally show ?thesis by (simp only: of_nat_eq_iff)
qed

lemma level_idx_eq_iff:
  "level_idx j va = level_idx j vb \<longleftrightarrow>
   (\<forall>b. slot_bits j \<le> b \<and> b < slot_bits j + 9 \<longrightarrow> bit va b = bit vb b)"
proof -
  have m: "(0x1ff :: u64) = mask 9" by (simp add: mask_eq_exp_minus_1)
  have "level_idx j va = level_idx j vb \<longleftrightarrow> (\<forall>i<9. bit va (slot_bits j + i) = bit vb (slot_bits j + i))"
  proof
    assume eq: "level_idx j va = level_idx j vb"
    show "\<forall>i<9. bit va (slot_bits j + i) = bit vb (slot_bits j + i)"
    proof (intro allI impI)
      fix i :: nat assume "i < 9"
      moreover have "bit (level_idx j va) i = bit (level_idx j vb) i" using eq by simp
      ultimately show "bit va (slot_bits j + i) = bit vb (slot_bits j + i)"
        by (simp add: level_idx_def m bit_simps slot_bits_def)
    qed
  next
    assume b: "\<forall>i<9. bit va (slot_bits j + i) = bit vb (slot_bits j + i)"
    show "level_idx j va = level_idx j vb"
      by (rule bit_word_eqI) (use b in \<open>auto simp: level_idx_def m bit_simps slot_bits_def\<close>)
  qed
  also have "\<dots> \<longleftrightarrow> (\<forall>b. slot_bits j \<le> b \<and> b < slot_bits j + 9 \<longrightarrow> bit va b = bit vb b)"
    by (metis add_less_cancel_left le_Suc_ex le_add1)
  finally show ?thesis .
qed

lemma same_slot_bits:
  assumes "1 \<le> k" "k \<le> 4"
  shows "same_slot k va vb \<longleftrightarrow> (\<forall>b. slot_bits k \<le> b \<and> b < 48 \<longrightarrow> bit va b = bit vb b)"
proof -
  have "\<exists>j\<in>{k..4}. slot_bits j \<le> b \<and> b < slot_bits j + 9" if "slot_bits k \<le> b" "b < 48" for b
  proof (rule bexI [of _ "(b - 3) div 9"])
    show "slot_bits ((b - 3) div 9) \<le> b \<and> b < slot_bits ((b - 3) div 9) + 9"
      using that unfolding slot_bits_def by linarith
    show "(b - 3) div 9 \<in> {k..4}" using that assms unfolding slot_bits_def by simp linarith
  qed
  moreover have "slot_bits k \<le> slot_bits j" "slot_bits j + 9 \<le> 48" if "j \<in> {k..4}" for j
    using that by (auto simp: slot_bits_def)
  ultimately show ?thesis unfolding same_slot_def level_idx_eq_iff
    by (meson le_trans less_le_trans)
qed

lemma same_slot_nat:
  assumes "1 \<le> k" "k \<le> 4"
  shows "same_slot k va vb \<longleftrightarrow>
    unat va mod 2 ^ 48 div 2 ^ slot_bits k = unat vb mod 2 ^ 48 div 2 ^ slot_bits k"
proof -
  have "same_slot k va vb \<longleftrightarrow>
      drop_bit (slot_bits k) (take_bit 48 va) = drop_bit (slot_bits k) (take_bit 48 vb)"
  proof
    assume "same_slot k va vb"
    then show "drop_bit (slot_bits k) (take_bit 48 va) = drop_bit (slot_bits k) (take_bit 48 vb)"
      unfolding same_slot_bits [OF assms] by (intro bit_word_eqI) (auto simp: bit_simps)
  next
    assume eq: "drop_bit (slot_bits k) (take_bit 48 va) = drop_bit (slot_bits k) (take_bit 48 vb)"
    have "bit va b = bit vb b" if "slot_bits k \<le> b" "b < 48" for b
    proof -
      have "bit (drop_bit (slot_bits k) (take_bit 48 va)) (b - slot_bits k)
          = bit (drop_bit (slot_bits k) (take_bit 48 vb)) (b - slot_bits k)" using eq by simp
      then show ?thesis using that by (simp add: bit_simps)
    qed
    then show "same_slot k va vb" unfolding same_slot_bits [OF assms] by blast
  qed
  also have "\<dots> \<longleftrightarrow> unat (drop_bit (slot_bits k) (take_bit 48 va)) = unat (drop_bit (slot_bits k) (take_bit 48 vb))"
    by (simp only: word_unat_eq_iff)
  finally have eq: "same_slot k va vb \<longleftrightarrow>
    unat (drop_bit (slot_bits k) (take_bit 48 va)) = unat (drop_bit (slot_bits k) (take_bit 48 vb))" .
  have u: "unat (drop_bit (slot_bits k) (take_bit 48 w)) = unat w mod 2 ^ 48 div 2 ^ slot_bits k" for w :: u64
  proof -
    have "unat w mod 2 ^ 48 < 2 ^ 64" by (rule order_less_trans [of _ "2 ^ 48"]) simp_all
    then have "take_bit 64 (unat w mod 2 ^ 48) = unat w mod 2 ^ 48" by (rule take_bit_nat_eq_self)
    then show ?thesis
      unfolding unsigned_drop_bit_eq unat_take_bit_mod by (simp add: drop_bit_eq_div)
  qed
  show ?thesis unfolding eq u ..
qed

lemma div_eq_iff_off:
  fixes A B q :: nat
  assumes "A < N" "B < N" "0 < q" "q dvd B" "q dvd N"
  shows "A div q = B div q \<longleftrightarrow> (A + N - B) mod N < q"
proof -
  obtain b where b: "B = q * b" using assms(4) by auto
  obtain n where n: "N = q * n" using assms(5) by auto
  have A: "A = q * (A div q) + A mod q" "A mod q < q" using assms(3) by simp_all
  show ?thesis
  proof (cases "B \<le> A")
    case True
    then have "(A + N - B) mod N = A - B" using assms(1) by (simp add: mod_if)
    moreover have "A - B < q \<longleftrightarrow> A div q = b"
    proof
      assume "A - B < q"
      then show "A div q = b"
        by (intro div_nat_eqI) (use True b in \<open>simp_all add: mult.commute\<close>)
    next
      assume "A div q = b"
      then have "A = B + A mod q" using A(1) b by simp
      then show "A - B < q" using A(2) by linarith
    qed
    ultimately show ?thesis using b assms(3) by simp
  next
    case False
    then have "(A + N - B) mod N = A + N - B" using assms(2) by simp
    moreover have "q \<le> A + N - B"
    proof -
      have "q * b < q * n" using assms(2) b n by simp
      then have "Suc b \<le> n" by simp
      then have "q * Suc b \<le> q * n" by (rule mult_le_mono2)
      then show ?thesis using b n by simp
    qed
    moreover have "A div q \<noteq> b"
    proof
      assume "A div q = b"
      then have "B \<le> A" using b by (metis div_times_less_eq_dividend mult.commute)
      then show False using False by simp
    qed
    ultimately show ?thesis using b assms(3) by simp
  qed
qed

lemma same_slot_off:
  assumes "1 \<le> k" "k \<le> 4" "unat base mod 2 ^ slot_bits k = 0"
  shows "same_slot k va base \<longleftrightarrow> unat (va_off base va) < 2 ^ slot_bits k"
proof -
  have n: "slot_bits k \<le> 48" using assms(2) by (simp add: slot_bits_def)
  have d: "(2 :: nat) ^ slot_bits k dvd 2 ^ 48" by (rule le_imp_power_dvd [OF n])
  then have "2 ^ slot_bits k dvd unat base mod 2 ^ 48"
    using assms(3) by (simp add: dvd_mod mod_eq_0_iff_dvd)
  then show ?thesis
    unfolding same_slot_nat [OF assms(1,2)] unat_va_off
    by (intro div_eq_iff_off) (use d in auto)
qed


subsection \<open>Entries and flags\<close>

lemma parse_common_flags_bits:
  "parse_common_flags f AND PAGE_PHYS_MASK = 0" "parse_common_flags f AND PAGE_PRESENT \<noteq> 0"
  "parse_common_flags f AND perm_mask = parse_common_flags f"
  "parse_common_flags f AND PDE_PS = 0"
  by (simp_all add: parse_common_flags_def Let_def PAGE_PHYS_MASK_def PAGE_PRESENT_def PAGE_RW_def
      PAGE_USER_def PAGE_PCD_def PAGE_PWT_def PAGE_XD_def PDE_PS_def perm_mask_def)

text \<open>The bits a caller sees in the entry: each flag does what its name says.\<close>

lemma parse_common_flags_meaning:
  "parse_common_flags f AND PAGE_RW \<noteq> 0 \<longleftrightarrow> f AND MMU_FLAG_WRITE \<noteq> 0"
  "parse_common_flags f AND PAGE_USER \<noteq> 0 \<longleftrightarrow> f AND MMU_FLAG_USER \<noteq> 0"
  "parse_common_flags f AND PAGE_PCD \<noteq> 0 \<longleftrightarrow> f AND MMU_FLAG_UC \<noteq> 0"
  "parse_common_flags f AND PAGE_XD \<noteq> 0 \<longleftrightarrow> f AND MMU_FLAG_NO_EXEC \<noteq> 0"
  "parse_common_flags f AND PAGE_PWT = 0"
  by (simp_all add: parse_common_flags_def Let_def PAGE_PRESENT_def PAGE_RW_def
      PAGE_USER_def PAGE_PCD_def PAGE_PWT_def PAGE_XD_def)

lemma take_bit_va_off: "n \<le> 48 \<Longrightarrow> take_bit n (va_off base va) = take_bit n (va - base)"
  by (simp add: va_off_def)

lemma leaf_translation:
  assumes k: "1 \<le> k" "k \<le> 3" and base: "unat base mod 2 ^ slot_bits k = 0"
    and phys: "unat phys mod 2 ^ slot_bits k = 0" "unat phys < 2 ^ 52"
    and fl: "fl AND PAGE_PHYS_MASK = 0"
    and off: "unat (va_off base va) < 2 ^ slot_bits k"
  shows "((phys OR fl) AND PAGE_PHYS_MASK AND NOT (mask (slot_bits k))) OR (va AND mask (slot_bits k))
     = phys + va_off base va"
    and "(phys OR fl) AND perm_mask = fl AND perm_mask"
proof -
  have n: "12 \<le> slot_bits k" "slot_bits k \<le> 48" using k by (auto simp: slot_bits_def)
  have "(2 :: nat) ^ 12 dvd 2 ^ slot_bits k" by (rule le_imp_power_dvd [OF n(1)])
  then have "2 ^ 12 dvd unat phys" using phys(1) by (meson dvd_trans mod_eq_0_iff_dvd)
  then have p12: "unat phys mod 4096 = 0" by simp
  note pm = phys_entry_mask [OF p12 phys(2)]
  have tp: "take_bit (slot_bits k) phys = 0"
    using phys(1) unat_take_bit_mod [of "slot_bits k" phys] by (simp add: word_unat_eq_iff)
  have tb: "take_bit (slot_bits k) base = 0"
    using base unat_take_bit_mod [of "slot_bits k" base] by (simp add: word_unat_eq_iff)
  have "unat (take_bit (slot_bits k) (va_off base va)) = unat (va_off base va)"
    unfolding unat_take_bit_mod using off by simp
  then have o: "take_bit (slot_bits k) (va_off base va) = va_off base va"
    by (simp only: word_unat_eq_iff)
  have "uint base mod 2 ^ slot_bits k = int (unat base mod 2 ^ slot_bits k)"
    by (simp only: of_nat_mod of_nat_power of_nat_numeral uint_nat)
  then have ub: "uint base mod 2 ^ slot_bits k = 0" using base by simp
  have "uint (take_bit (slot_bits k) (va - base)) = uint (va - base) mod 2 ^ slot_bits k"
    unfolding unsigned_take_bit_eq by (rule take_bit_eq_mod)
  also have "uint (va - base) = (uint va - uint base) mod 2 ^ 64" by (simp add: uint_word_ariths)
  also have "(uint va - uint base) mod 2 ^ 64 mod 2 ^ slot_bits k
      = (uint va - uint base) mod 2 ^ slot_bits k"
    by (rule mod_mod_cancel, rule le_imp_power_dvd) (use n(2) in simp)
  also have "\<dots> = uint va mod 2 ^ slot_bits k"
    using mod_diff_right_eq [of "uint va" "uint base" "2 ^ slot_bits k"] ub by simp
  also have "\<dots> = uint (take_bit (slot_bits k) va)"
    unfolding unsigned_take_bit_eq by (rule take_bit_eq_mod [symmetric])
  finally have "take_bit (slot_bits k) (va - base) = take_bit (slot_bits k) va"
    by (simp only: word_uint_eq_iff)
  then have lo: "va AND mask (slot_bits k) = va_off base va"
    using o take_bit_va_off [OF n(2), of base va] by (simp add: take_bit_eq_mask)
  have "(phys OR fl) AND PAGE_PHYS_MASK = phys" by (rule or_flags_mask [OF pm(1) fl])
  moreover have "phys AND NOT (mask (slot_bits k)) = phys" using tp by (simp add: word_and_not_mask)
  moreover have "phys AND va_off base va = 0"
  proof (rule bit_word_eqI)
    fix i
    have "bit phys i \<Longrightarrow> slot_bits k \<le> i" using tp by (metis bit_0_eq bit_take_bit_iff bot_apply bot_bool_def leI)
    moreover have "bit (va_off base va) i \<Longrightarrow> i < slot_bits k" using o by (metis bit_take_bit_iff)
    ultimately show "bit (phys AND va_off base va) i = bit (0 :: u64) i"
      by (auto simp: bit_simps)
  qed
  then have "phys OR va_off base va = phys + va_off base va" by (rule disjunctive_add_eq_or [symmetric])
  ultimately show "((phys OR fl) AND PAGE_PHYS_MASK AND NOT (mask (slot_bits k))) OR (va AND mask (slot_bits k))
     = phys + va_off base va" by (simp add: lo flip: and.assoc)
  have "phys AND perm_mask = 0"
  proof -
    have "phys AND perm_mask = phys AND (PAGE_PHYS_MASK AND perm_mask)"
      using pm(1) by (metis and.assoc)
    also have "\<dots> = 0" by (simp add: perm_mask_def PAGE_PHYS_MASK_def)
    finally show ?thesis .
  qed
  then show "(phys OR fl) AND perm_mask = fl AND perm_mask" by (rule or_flags_low)
qed


subsection \<open>Mapping, seen through the translation\<close>

text \<open>\<open>m\<close> bytes from \<open>base\<close> now translate to \<open>phys\<close> onwards; nothing else changed.\<close>

definition maps ::
  "u64 \<Rightarrow> kstate \<Rightarrow> u64 \<Rightarrow> u64 \<Rightarrow> u64 \<Rightarrow> nat \<Rightarrow> kstate \<Rightarrow> bool" where
  "maps root s base phys fl m s' \<longleftrightarrow>
     (\<forall>va. translate s' root va =
        (if unat (va_off base va) < m then Some (phys + va_off base va, fl)
         else translate s root va))"

definition map_effect ::
  "u64 \<Rightarrow> kstate \<Rightarrow> (u64 \<Rightarrow> nat) \<Rightarrow> u64 \<Rightarrow> u64 \<Rightarrow> u64 \<Rightarrow> nat \<Rightarrow> kstate \<Rightarrow> bool" where
  "map_effect root s lv base phys fl m s' \<longleftrightarrow>
     (\<exists>lv'. pt_wf s' lv' root \<and> pt_grow s lv lv' \<and> pt_frame s s' {a. lv' a \<noteq> 0})
     \<and> maps root s base phys fl m s'"

lemma map_post_effect:
  assumes post: "map_post root s lv k base (phys OR fl) step r"
    and k: "1 \<le> k" "k \<le> 3" and base: "unat base mod 2 ^ slot_bits k = 0"
    and phys: "unat phys mod 2 ^ slot_bits k = 0" "unat phys < 2 ^ 52"
    and fl: "fl AND PAGE_PHYS_MASK = 0" "fl AND PAGE_PRESENT \<noteq> 0"
    and step: "unat step = 2 ^ slot_bits k"
  obtains m s' where "r = Some (m, s')" "m = 0 \<or> m = step"
    "map_effect root s lv base phys (fl AND perm_mask) (unat m) s'"
proof -
  obtain m s' lv' where r: "r = Some (m, s')" and wf: "pt_wf s' lv' root" "pt_grow s lv lv'"
      "pt_frame s s' {a. lv' a \<noteq> 0}"
    and m: "m = 0 \<and> (\<forall>vb. walk s' 4 root vb = walk s 4 root vb)
           \<or> m = step \<and> (\<forall>vb. walk s' 4 root vb =
               (if same_slot k vb base then leaf_of k (phys OR fl) else walk s 4 root vb))"
    using post unfolding map_post_def by blast
  have "(phys OR fl) AND PAGE_PRESENT \<noteq> 0"
    using fl(2) by (metis and.commute and_zero_eq bit.conj_disj_distrib or_eq_0_iff)
  then have leaf: "leaf_of k (phys OR fl) = Some (k, phys OR fl)" by (simp add: leaf_of_def)
  have k4: "k \<le> 4" using k by simp
  have "maps root s base phys (fl AND perm_mask) (unat m) s'"
    unfolding maps_def
  proof
    fix va
    show "translate s' root va = (if unat (va_off base va) < unat m
        then Some (phys + va_off base va, fl AND perm_mask) else translate s root va)"
      using m
    proof
      assume "m = 0 \<and> (\<forall>vb. walk s' 4 root vb = walk s 4 root vb)"
      then show ?thesis by (simp add: translate_def)
    next
      assume s: "m = step \<and> (\<forall>vb. walk s' 4 root vb =
               (if same_slot k vb base then leaf_of k (phys OR fl) else walk s 4 root vb))"
      show ?thesis
      proof (cases "unat (va_off base va) < 2 ^ slot_bits k")
        case True
        then have "walk s' 4 root va = Some (k, phys OR fl)"
          using s leaf same_slot_off [OF k(1) k4 base] by simp
        then show ?thesis
          using leaf_translation [OF k base phys fl(1) True] True s step by (simp add: translate_def)
      next
        case False
        then have "walk s' 4 root va = walk s 4 root va"
          using s same_slot_off [OF k(1) k4 base] by simp
        then show ?thesis using False s step by (simp add: translate_def)
      qed
    qed
  qed
  then show thesis using that r m wf unfolding map_effect_def by blast
qed

lemma va_off_add:
  assumes "unat m \<le> 2 ^ 48"
  shows "unat (va_off (base + m) va) = (unat (va_off base va) + 2 ^ 48 - unat m) mod 2 ^ 48"
proof -
  have "va_off (base + m) va = va_off m (va_off base va)"
  proof -
    have "uint (base + m) = (uint base + uint m) mod 2 ^ 64" by (simp add: uint_word_ariths)
    then have "uint (base + m) mod 2 ^ 48 = (uint base + uint m) mod 2 ^ 48"
      by (simp add: mod_mod_cancel)
    then have "uint (va_off (base + m) va) = (uint va - (uint base + uint m)) mod 2 ^ 48"
      unfolding uint_va_off by (metis mod_diff_right_eq)
    moreover have "uint (va_off m (va_off base va)) = (uint va - (uint base + uint m)) mod 2 ^ 48"
      unfolding uint_va_off mod_diff_left_eq by (simp add: algebra_simps)
    ultimately show ?thesis by (simp only: word_uint_eq_iff)
  qed
  moreover have "unat (va_off base va) mod 2 ^ 48 = unat (va_off base va)"
    using unat_va_off [of base va] by simp
  ultimately show ?thesis
    using unat_va_off [of m "va_off base va"] assms by (cases "unat m = 2 ^ 48") simp_all
qed

lemma maps_trans:
  assumes "maps root s base phys fl (unat m) s1"
    "maps root s1 (base + m) (phys + m) fl d s2" "unat m + d \<le> 2 ^ 48"
  shows "maps root s base phys fl (unat m + d) s2"
  unfolding maps_def
proof
  fix va
  define x where "x = unat (va_off base va)"
  have x: "x < 2 ^ 48" by (simp add: x_def unat_va_off)
  have m48: "unat m \<le> 2 ^ 48" using assms(3) by simp
  note o = va_off_add [OF m48, of base va, folded x_def]
  show "translate s2 root va = (if unat (va_off base va) < unat m + d
      then Some (phys + va_off base va, fl) else translate s root va)"
  proof (cases "x < unat m")
    case True
    then have "unat (va_off (base + m) va) = x + 2 ^ 48 - unat m" unfolding o using m48 by simp
    then have "\<not> unat (va_off (base + m) va) < d" using assms(3) by simp
    then show ?thesis using True assms(1,2) by (simp add: maps_def x_def)
  next
    case False
    then have u: "unat (va_off (base + m) va) = x - unat m"
      unfolding o using x by (simp add: mod_if)
    then have "va_off (base + m) va = va_off base va - m"
      using False by (simp add: word_unat_eq_iff unat_sub word_le_nat_alt x_def)
    then have p: "phys + m + va_off (base + m) va = phys + va_off base va" by simp
    show ?thesis using False u p assms(1,2) by (auto simp: maps_def x_def)
  qed
qed

end
