(* ===== verification/Pmap_Range.thy ===== *)
theory Pmap_Range
  imports Pmap_Translate
begin

text \<open>
  The range loop of \<^verbatim>\<open>pmap_map_range\<close>, unmapping, and the properties of the page-table module.
\<close>

lemma word_mod_zero_nat: "((w :: u64) mod m = 0) = (unat w mod unat m = 0)"
  by (simp add: word_unat_eq_iff unat_mod)

lemma unat_page_sizes: "unat PAGE_SIZE_2M = 2 ^ 21" "unat PAGE_SIZE_1G = 2 ^ 30"
  by (simp_all add: PAGE_SIZE_2M_def PAGE_SIZE_1G_def)

lemma ps_flag:
  assumes "fl AND PAGE_PHYS_MASK = 0" "fl AND PAGE_PRESENT \<noteq> 0" "fl AND perm_mask = fl"
  shows "(fl OR PDE_PS) AND PAGE_PHYS_MASK = 0" "(fl OR PDE_PS) AND PAGE_PRESENT \<noteq> 0"
    "(fl OR PDE_PS) AND perm_mask = fl" "(p OR fl OR PDE_PS) AND PDE_PS \<noteq> 0"
proof -
  have z: "PDE_PS AND PAGE_PHYS_MASK = 0" "PDE_PS AND perm_mask = 0" "PDE_PS AND PDE_PS \<noteq> 0"
    "PDE_PS AND PAGE_PRESENT = 0"
    by (simp_all add: PDE_PS_def PAGE_PHYS_MASK_def perm_mask_def PAGE_PRESENT_def)
  show "(fl OR PDE_PS) AND PAGE_PHYS_MASK = 0" "(fl OR PDE_PS) AND PAGE_PRESENT \<noteq> 0"
    "(fl OR PDE_PS) AND perm_mask = fl" "(p OR fl OR PDE_PS) AND PDE_PS \<noteq> 0"
    using assms z by (simp_all add: bit.conj_disj_distrib2)
qed

lemma map_step_correct:
  assumes wf: "pt_wf s lv root"
    and virt: "unat virt mod 4096 = 0" and phys: "unat phys mod 4096 = 0"
    and rem: "0 < remain" "unat remain mod 4096 = 0" and top: "unat phys + unat remain \<le> 2 ^ 52"
    and fl: "fl AND PAGE_PHYS_MASK = 0" "fl AND PAGE_PRESENT \<noteq> 0" "fl AND perm_mask = fl"
  obtains m s' where
    "(if flags AND MMU_FLAG_HUGE_OK \<noteq> 0 then map_huge_ok s root virt phys fl remain
      else map_4k s root virt phys fl) = Some (m, s')"
    "unat m \<le> unat remain" "unat m mod 4096 = 0" "map_effect root s lv virt phys fl (unat m) s'"
proof -
  note goal = that
  have r0: "0 < unat remain" using rem(1) by (simp add: word_less_nat_alt)
  then have rp: "4096 \<le> unat remain" using rem(2) by (metis dvd_imp_le mod_eq_0_iff_dvd)
  have p52: "unat phys < 2 ^ 52" using top r0 by simp
  have small: thesis if run: "(if flags AND MMU_FLAG_HUGE_OK \<noteq> 0
      then map_huge_ok s root virt phys fl remain else map_4k s root virt phys fl) = map_4k s root virt phys fl"
  proof -
    obtain m s' where m: "map_4k s root virt phys fl = Some (m, s')" "m = 0 \<or> m = PAGE_SIZE"
      "map_effect root s lv virt phys (fl AND perm_mask) (unat m) s'"
      by (rule map_post_effect [OF map_4k_correct [OF wf, of virt phys fl] _ _ _ _ p52 fl(1,2)])
        (simp_all add: slot_bits_def virt phys)
    then show thesis using goal [of m s'] run rp fl(3) by auto
  qed
  note ps = ps_flag [OF fl]
  show thesis
  proof (cases "flags AND MMU_FLAG_HUGE_OK \<noteq> 0")
    case False
    then show thesis using small by simp
  next
    case True
    show thesis
    proof (cases "phys mod PAGE_SIZE_1G = 0 \<and> virt mod PAGE_SIZE_1G = 0 \<and> PAGE_SIZE_1G \<le> remain")
      case h: True
      then have u: "unat phys mod 2 ^ 30 = 0" "unat virt mod 2 ^ 30 = 0" "2 ^ 30 \<le> unat remain"
        by (simp_all add: word_mod_zero_nat unat_page_sizes word_le_nat_alt)
      obtain m s' where m: "map_1g s root virt phys (fl OR PDE_PS) = Some (m, s')"
        "m = 0 \<or> m = PAGE_SIZE_1G"
        "map_effect root s lv virt phys ((fl OR PDE_PS) AND perm_mask) (unat m) s'"
        by (rule map_post_effect [OF map_1g_correct [OF wf ps(4), of virt phys] _ _ _ _ p52 ps(1,2)])
          (use u in \<open>simp_all add: slot_bits_def unat_page_sizes\<close>)
      then show thesis using goal [of m s'] True h u ps(3) unat_page_sizes
        by (auto simp: map_huge_ok_def PDE_PS_def PDPTE_PS_def)
    next
      case nh: False
      show thesis
      proof (cases "phys mod PAGE_SIZE_2M = 0 \<and> virt mod PAGE_SIZE_2M = 0 \<and> PAGE_SIZE_2M \<le> remain")
        case h: True
        then have u: "unat phys mod 2 ^ 21 = 0" "unat virt mod 2 ^ 21 = 0" "2 ^ 21 \<le> unat remain"
          by (simp_all add: word_mod_zero_nat unat_page_sizes word_le_nat_alt)
        obtain m s' where m: "map_2m s root virt phys (fl OR PDE_PS) = Some (m, s')"
          "m = 0 \<or> m = PAGE_SIZE_2M"
          "map_effect root s lv virt phys ((fl OR PDE_PS) AND perm_mask) (unat m) s'"
          by (rule map_post_effect [OF map_2m_correct [OF wf ps(4), of virt phys] _ _ _ _ p52 ps(1,2)])
            (use u in \<open>simp_all add: slot_bits_def unat_page_sizes\<close>)
        then have "map_huge_ok s root virt phys fl remain = Some (m, s')"
          unfolding map_huge_ok_def if_not_P [OF nh] if_P [OF h] by simp
        then show thesis using goal [of m s'] True m u ps(3) unat_page_sizes by auto
      next
        case False
        have "map_huge_ok s root virt phys fl remain = map_4k s root virt phys fl"
          unfolding map_huge_ok_def if_not_P [OF nh] if_not_P [OF False] by (rule refl)
        then show thesis using small True by simp
      qed
    qed
  qed
qed

lemma aligned_add:
  assumes "unat (a :: u64) mod 4096 = 0" "unat (b :: u64) mod 4096 = 0"
  shows "unat (a + b) mod 4096 = 0"
proof -
  have "unat (a + b) mod 4096 = (unat a + unat b) mod 2 ^ 64 mod 4096"
    by (simp only: unat_word_ariths) simp
  also have "\<dots> = (unat a + unat b) mod 4096" by (rule mod_mod_cancel) simp
  finally show ?thesis using assms by (simp add: mod_eq_0_iff_dvd)
qed

lemma map_effect_trans:
  assumes a: "map_effect root s lv base phys fl (unat m) s1"
    and b: "\<And>l1. pt_wf s1 l1 root \<Longrightarrow> \<exists>s2. r = Some (mapped, s2)
       \<and> map_effect root s1 l1 (base + m) (phys + m) fl d s2"
    and d: "unat m + d \<le> 2 ^ 48"
  shows "\<exists>s2. r = Some (mapped, s2) \<and> map_effect root s lv base phys fl (unat m + d) s2"
proof -
  obtain l1 where l1: "pt_wf s1 l1 root" "pt_grow s lv l1" "pt_frame s s1 {a. l1 a \<noteq> 0}"
    and m1: "maps root s base phys fl (unat m) s1" using a unfolding map_effect_def by blast
  obtain s2 where r: "r = Some (mapped, s2)" and e: "map_effect root s1 l1 (base + m) (phys + m) fl d s2"
    using b [OF l1(1)] by blast
  obtain l2 where l2: "pt_wf s2 l2 root" "pt_grow s1 l1 l2" "pt_frame s1 s2 {a. l2 a \<noteq> 0}"
    and m2: "maps root s1 (base + m) (phys + m) fl d s2" using e unfolding map_effect_def by blast
  have "{a. l1 a \<noteq> 0} \<subseteq> {a. l2 a \<noteq> 0}" using pt_growD [OF l2(2)] by fastforce
  then have "pt_frame s s2 {a. l2 a \<noteq> 0}" using pt_frame_trans [OF l1(3) l2(3)] by blast
  moreover have "pt_grow s lv l2" by (rule pt_grow_trans [OF l1(2) l2(2) l1(3)])
  ultimately show ?thesis
    unfolding map_effect_def using r l2(1) maps_trans [OF m1 m2 d] by blast
qed

lemma map_range_loop_correct:
  assumes "pt_wf s lv root"
    and "unat virt mod 4096 = 0" "unat phys mod 4096 = 0" "unat remain mod 4096 = 0"
    and "unat remain \<le> 2 ^ 48" "unat phys + unat remain \<le> 2 ^ 52"
    and fl: "fl AND PAGE_PHYS_MASK = 0" "fl AND PAGE_PRESENT \<noteq> 0" "fl AND perm_mask = fl"
  shows "\<exists>d. unat d \<le> unat remain \<and> unat d mod 4096 = 0 \<and>
    (\<exists>s'. map_range_loop root flags fl s virt phys remain mapped = Some (mapped + d, s')
       \<and> map_effect root s lv virt phys fl (unat d) s')"
  using assms(1-6)
proof (induction "unat remain" arbitrary: s lv virt phys remain mapped rule: less_induct)
  case less
  show ?case
  proof (cases "0 < remain")
    case False
    then have "map_range_loop root flags fl s virt phys remain mapped = Some (mapped + 0, s)"
      by (simp add: map_range_loop.simps)
    moreover have "map_effect root s lv virt phys fl (unat (0 :: u64)) s"
      using less.prems(1) by (auto simp: map_effect_def maps_def intro!: exI [of _ lv])
    ultimately show ?thesis by (intro exI [of _ 0]) auto
  next
    case True
    obtain m s1 where m: "(if flags AND MMU_FLAG_HUGE_OK \<noteq> 0 then map_huge_ok s root virt phys fl remain
      else map_4k s root virt phys fl) = Some (m, s1)"
      "unat m \<le> unat remain" "unat m mod 4096 = 0" "map_effect root s lv virt phys fl (unat m) s1"
      using map_step_correct [OF less.prems(1-3) True less.prems(4,6) fl] by blast
    show ?thesis
    proof (cases "m = 0")
      case m0: True
      then have "map_range_loop root flags fl s virt phys remain mapped = Some (mapped + 0, s1)"
        using m(1) True by (simp add: map_range_loop.simps)
      then show ?thesis using m m0 by (intro exI [of _ 0]) auto
    next
      case False
      then have mpos: "0 < unat m" by (simp add: unat_gt_0)
      have run: "map_range_loop root flags fl s virt phys remain mapped =
          map_range_loop root flags fl s1 (virt + m) (phys + m) (remain - m) (mapped + m)"
        by (subst map_range_loop.simps) (use m(1) True False in simp)
      have ur: "unat (remain - m) = unat remain - unat m"
        using m(2) by (simp add: unat_sub word_le_nat_alt)
      have up: "unat (phys + m) = unat phys + unat m"
        using less.prems(6) m(2) by (intro unat_add_no_wrap) simp
      have "unat (virt + m) mod 4096 = 0"
        by (rule aligned_add [OF less.prems(2) m(3)])
      moreover have "unat (phys + m) mod 4096 = 0" using less.prems(3) m(3) unfolding up mod_eq_0_iff_dvd by (rule dvd_add)
      moreover have "unat (remain - m) mod 4096 = 0"
        using less.prems(4) m(2,3) unfolding ur by (simp add: mod_eq_0_iff_dvd dvd_diff_nat)
      moreover have "unat (remain - m) < unat remain" using mpos m(2) unfolding ur by simp
      ultimately have IH: "\<exists>d. unat d \<le> unat (remain - m) \<and> unat d mod 4096 = 0 \<and>
        (\<exists>s'. map_range_loop root flags fl s1 (virt + m) (phys + m) (remain - m) (mapped + m)
            = Some (mapped + m + d, s')
         \<and> map_effect root s1 l1 (virt + m) (phys + m) fl (unat d) s')" if "pt_wf s1 l1 root" for l1
        using less.prems(5,6) m(2) that by (intro less.hyps) (simp_all add: ur up)
      obtain l1 where l1: "pt_wf s1 l1 root" using m(4) by (auto simp: map_effect_def)
      obtain d s2 where d: "unat d \<le> unat (remain - m)" "unat d mod 4096 = 0"
        "map_range_loop root flags fl s1 (virt + m) (phys + m) (remain - m) (mapped + m)
            = Some (mapped + m + d, s2)" using IH [OF l1] by (elim exE conjE) (rule that)
      have e: "\<exists>s2. map_range_loop root flags fl s virt phys remain mapped = Some (mapped + (m + d), s2)
         \<and> map_effect root s lv virt phys fl (unat m + unat d) s2"
      proof (rule map_effect_trans [OF m(4)])
        show "unat m + unat d \<le> 2 ^ 48" using d(1) m(2) less.prems(5) unfolding ur by simp
        fix l assume l: "pt_wf s1 l root"
        obtain d' s' where d': "map_range_loop root flags fl s1 (virt + m) (phys + m) (remain - m) (mapped + m)
            = Some (mapped + m + d', s')" "map_effect root s1 l (virt + m) (phys + m) fl (unat d') s'"
          using IH [OF l] by blast
        then have "d' = d" "s' = s2" using d(3) by auto
        then show "\<exists>s2. map_range_loop root flags fl s virt phys remain mapped = Some (mapped + (m + d), s2)
          \<and> map_effect root s1 l (virt + m) (phys + m) fl (unat d) s2"
          using d' run by (simp add: add.assoc)
      qed
      have "unat (m + d) = unat m + unat d"
        using d(1) m(2) less.prems(5) unfolding ur by (intro unat_add_no_wrap) simp
      then show ?thesis using e d m(2,3) unfolding ur
        by (intro exI [of _ "m + d"]) auto
    qed
  qed
qed


subsection \<open>Unmapping\<close>

lemma get_next_level_lookup:
  "get_next_level s x i False = Some (case child s x i of None \<Rightarrow> 0 | Some b \<Rightarrow> b, s)"
  by (auto simp: get_next_level_def child_def Let_def PDE_PS_def PDPTE_PS_def split: option.split)

lemma align_down_off:
  "unat (va_off (ALIGN_DOWN va PAGE_SIZE) va) = unat va mod 4096"
proof -
  have "unat (va - ALIGN_DOWN va PAGE_SIZE) = unat va - unat (ALIGN_DOWN va PAGE_SIZE)"
    using ALIGN_DOWN_le by (simp add: unat_sub)
  also have "\<dots> = unat va mod 4096" by (simp add: unat_ALIGN_DOWN_page)
  finally have "unat (va_off (ALIGN_DOWN va PAGE_SIZE) va) = unat va mod 4096 mod 2 ^ 48"
    unfolding va_off_def unat_take_bit_mod by simp
  moreover have "unat va mod 4096 < 2 ^ 48" by (rule order_less_trans [of _ 4096]) simp_all
  ultimately show ?thesis by simp
qed

lemma align_down_slot:
  "unat (ALIGN_DOWN va PAGE_SIZE) mod 2 ^ slot_bits 1 = 0" "same_slot 1 va (ALIGN_DOWN va PAGE_SIZE)"
proof -
  show a: "unat (ALIGN_DOWN va PAGE_SIZE) mod 2 ^ slot_bits 1 = 0"
    by (simp add: slot_bits_def unat_ALIGN_DOWN_page_div)
  have "unat va mod 4096 < 4096" by simp
  then show "same_slot 1 va (ALIGN_DOWN va PAGE_SIZE)"
    using same_slot_off [OF _ _ a, of va] align_down_off [of va] by (simp add: slot_bits_def)
qed

lemma same_slot_trans: "same_slot k a b \<Longrightarrow> same_slot k c a = same_slot k c b"
  by (simp add: same_slot_def)

lemma walk_descend:
  assumes "walk s 4 root va = Some (1, e)"
  obtains t3 t2 t1 where "child s root (level_idx 4 va) = Some t3" "child s t3 (level_idx 3 va) = Some t2"
    "child s t2 (level_idx 2 va) = Some t1" "read_entry s t1 (level_idx 1 va) = e"
    "e AND PAGE_PRESENT \<noteq> 0" "descend s 1 3 root va = Some t1"
proof -
  have n: "(4 :: nat) = Suc 3" "(3 :: nat) = Suc 2" "(2 :: nat) = Suc 1" by simp_all
  obtain t3 where t3: "child s root (level_idx 4 va) = Some t3" "walk s 3 t3 va = Some (1, e)"
    using assms walk_step [of s 3 root va] by (auto split: option.splits if_splits simp: Let_def)
  obtain t2 where t2: "child s t3 (level_idx 3 va) = Some t2" "walk s 2 t2 va = Some (1, e)"
    using t3(2) walk_step [of s 2 t3 va] by (auto split: option.splits if_splits simp: Let_def)
  obtain t1 where t1: "child s t2 (level_idx 2 va) = Some t1" "walk s 1 t1 va = Some (1, e)"
    using t2(2) walk_step [of s 1 t2 va] by (auto split: option.splits if_splits simp: Let_def numeral_2_eq_2)
  have e: "read_entry s t1 (level_idx 1 va) = e" "e AND PAGE_PRESENT \<noteq> 0"
    using t1(2) by (auto simp: Let_def split: if_splits)
  have "descend s 1 3 root va = Some t1"
    using t3(1) t2(1) t1(1) by (simp add: numeral_3_eq_3 numeral_2_eq_2 eval_nat_numeral)
  then show thesis using that t3(1) t2(1) t1(1) e by blast
qed

lemma unmap_correct:
  assumes wf: "pt_wf s lv (pml4_virt t)" and w: "walk s 4 (pml4_virt t) va = Some (1, e)"
  shows "\<exists>s'. pmap_unmap_page s t va = Some (e AND PAGE_PHYS_MASK, s') \<and> pt_wf s' lv (pml4_virt t)
    \<and> pt_frame s s' {a. lv a \<noteq> 0}
    \<and> (\<forall>vb. walk s' 4 (pml4_virt t) vb =
         (if same_slot 1 vb va then None else walk s 4 (pml4_virt t) vb))"
proof -
  obtain t3 t2 t1 where c: "child s (pml4_virt t) (level_idx 4 va) = Some t3"
      "child s t3 (level_idx 3 va) = Some t2" "child s t2 (level_idx 2 va) = Some t1"
    and e: "read_entry s t1 (level_idx 1 va) = e" and d: "descend s 1 3 (pml4_virt t) va = Some t1"
    using walk_descend [OF w] by metis
  have l3: "lv t3 = 3" using pt_wfD(6) [OF wf _ level_idx_less c(1)] pt_wfD(2) [OF wf] by simp
  have l2: "lv t2 = 2" using pt_wfD(6) [OF wf _ level_idx_less c(2)] l3 by simp
  have l1: "lv t1 = 1" using pt_wfD(6) [OF wf _ level_idx_less c(3)] l2 by simp
  have nz: "t3 \<noteq> 0" "t2 \<noteq> 0" "t1 \<noteq> 0"
    using pt_wfD(5) [OF wf] l3 l2 l1 by (auto simp: slab_page_def)
  let ?s = "write_entry s t1 (level_idx 1 va) 0"
  have run: "pmap_unmap_page s t va = Some (e AND PAGE_PHYS_MASK, ?s)"
    using c e nz by (simp add: pmap_unmap_page_def get_next_level_lookup level_idx_simps)
  note L = leaf_on_path [OF wf d, of 0]
  have "pt_frame s ?s {a. lv a \<noteq> 0}"
    by (rule pt_frame_trans [OF pt_frame_refl [of s "{}"] L(3)]) (use l1 in auto)
  then show ?thesis using run L(1,2) by (simp add: leaf_of_def)
qed


subsection \<open>Properties\<close>

text \<open>A sample address space: the sample state with an empty PML4 at physical page 5.\<close>

definition pt_sample :: kstate where "pt_sample = k_sample\<lparr>pmm := pmm_sample1\<rparr>"
definition pt_root :: u64 where "pt_root = 0xffff800000005000"
definition pt_table :: page_table_t where
  "pt_table = \<lparr>pt_addr = 0, pml4_virt = pt_root, pml4_phy = 0x5000\<rparr>"
definition pt_levels :: "u64 \<Rightarrow> nat" where "pt_levels a = (if a = pt_root then 4 else 0)"

lemma pt_sample_wf: "pt_wf pt_sample pt_levels (pml4_virt pt_table)"
proof -
  have a: "k_alloc_page k_sample = Some (0x5000, pt_sample)"
    using pmm_sample_alloc by (simp add: k_alloc_page_def k_sample_def pt_sample_def)
  have nz: "(0x5000 :: u64) \<noteq> 0" by simp
  note n = kpg.alloc_nonzero [OF k_sample_inv a nz]
  have c: "child pt_sample t i = None" for t i
    by (simp add: child_def read_entry_def pt_sample_def k_sample_def)
  have "used_page pt_sample pt_root"
    using n(2,5,6) kpg.avail_range [OF k_sample_inv n(2)]
    by (simp add: used_page_def page_no_def pt_root_def) (simp add: pt_sample_def k_sample_def)
  then show ?thesis
    unfolding pt_wf_def using n(4) c by (auto simp: pt_levels_def pt_table_def)
qed

text \<open>What the two mapping routines do, as effects on the translation.\<close>

lemma map_page_correct:
  assumes "pt_wf s lv (pml4_virt t)" and "unat phys < 2 ^ 52"
  obtains m s' where "pmap_map_page s t va phys flags = Some (m, s')" "m = 0 \<or> m = PAGE_SIZE"
    "map_effect (pml4_virt t) s lv (ALIGN_DOWN va PAGE_SIZE) (ALIGN_DOWN phys PAGE_SIZE) (parse_common_flags flags) (unat m) s'"
proof -
  let ?p = "ALIGN_DOWN phys PAGE_SIZE"
  have "unat ?p \<le> unat phys" by (simp add: unat_ALIGN_DOWN_page)
  then have p: "unat ?p mod 2 ^ slot_bits 1 = 0" "unat ?p < 2 ^ 52"
    using assms(2) by (simp_all add: slot_bits_def unat_ALIGN_DOWN_page_div)
  obtain m s' where m: "map_4k s (pml4_virt t) (ALIGN_DOWN va PAGE_SIZE) ?p (parse_common_flags flags) = Some (m, s')"
    "m = 0 \<or> m = PAGE_SIZE"
    "map_effect (pml4_virt t) s lv (ALIGN_DOWN va PAGE_SIZE) ?p (parse_common_flags flags AND perm_mask) (unat m) s'"
    by (rule map_post_effect [OF map_4k_correct [OF assms(1)] _ _ align_down_slot(1) p
          parse_common_flags_bits(1,2)]) (simp_all add: slot_bits_def)
  show thesis
    by (rule that [of m s']) (use m in \<open>simp_all add: pmap_map_page_def Let_def parse_common_flags_bits(3)\<close>)
qed

lemma map_range_correct:
  assumes "pt_wf s lv (pml4_virt t)"
    and "unat va + unat len + 4095 < 2 ^ 64" and "unat len \<le> 2 ^ 47"
    and "unat phys + unat len + 8192 \<le> 2 ^ 52"
  obtains d s' where "pmap_map_range s t va phys flags len = Some (d, s')" "unat d mod 4096 = 0"
    "unat (ALIGN_DOWN va PAGE_SIZE) + unat d \<le> unat (ALIGN_UP (va + len) PAGE_SIZE)"
    "map_effect (pml4_virt t) s lv (ALIGN_DOWN va PAGE_SIZE) (ALIGN_DOWN phys PAGE_SIZE) (parse_common_flags flags) (unat d) s'"
proof -
  let ?v = "ALIGN_DOWN va PAGE_SIZE" and ?e = "ALIGN_UP (va + len) PAGE_SIZE"
  let ?p = "ALIGN_DOWN phys PAGE_SIZE"
  have vl: "unat (va + len) = unat va + unat len"
    using assms(2) by (intro unat_add_no_wrap) simp
  then have ue: "unat ?e = 4096 * ((unat va + unat len + 4095) div 4096)"
    using unat_ALIGN_UP_page [of "va + len"] assms(2) by simp
  have uv: "unat ?v = 4096 * (unat va div 4096)" by (rule unat_ALIGN_DOWN_page_div)
  have d: "unat va div 4096 \<le> (unat va + unat len + 4095) div 4096" by (rule div_le_mono) simp
  then have le: "unat ?v \<le> unat ?e" unfolding uv ue by simp
  then have ur: "unat (?e - ?v) = unat ?e - unat ?v" by (simp add: unat_sub word_le_nat_alt)
  have e2: "unat ?e \<le> unat va + unat len + 4095" unfolding ue by simp
  have v2: "unat va < unat ?v + 4096" unfolding uv by linarith
  have "unat (?e - ?v) < unat len + 8192" using e2 v2 unfolding ur by linarith
  moreover have "unat ?p \<le> unat phys" by (simp add: unat_ALIGN_DOWN_page)
  ultimately have r: "unat (?e - ?v) \<le> 2 ^ 48" "unat ?p + unat (?e - ?v) \<le> 2 ^ 52"
    using assms(3,4) by simp_all
  have m: "unat ?v mod 4096 = 0" "unat ?p mod 4096 = 0" by (simp_all add: unat_ALIGN_DOWN_page_div)
  have "unat (?e - ?v) mod 4096 = 0" unfolding ur uv ue by (simp flip: diff_mult_distrib2)
  from map_range_loop_correct [OF assms(1) m this r parse_common_flags_bits(1,2,3), of flags flags 0]
  obtain d s' where d: "unat d \<le> unat (?e - ?v)" "unat d mod 4096 = 0"
    "map_range_loop (pml4_virt t) flags (parse_common_flags flags) s ?v ?p (?e - ?v) 0 = Some (0 + d, s')"
    "map_effect (pml4_virt t) s lv ?v ?p (parse_common_flags flags) (unat d) s'"
    by (elim exE conjE) (rule that)
  then have "unat ?v + unat d \<le> unat ?e" using le unfolding ur by linarith
  then show thesis using that [of d s'] d unfolding pmap_map_range_def Let_def by simp
qed

text \<open>
  C21: \<open>pmap_map_page\<close> always returns, keeps the page-table tree well formed, and is all or
  nothing: it returns 0 and changes no translation, or returns 4096 and then every address of the
  page translates to the given physical page with exactly the requested access bits, while every
  address outside the page translates as before.
\<close>

theorem pmap_map_page_translation:
  assumes "pt_wf s lv (pml4_virt t)" and "unat phys < 2 ^ 52"
  shows "\<exists>m s' lv'. pmap_map_page s t va phys flags = Some (m, s')
    \<and> pt_wf s' lv' (pml4_virt t) \<and> (m = 0 \<or> m = PAGE_SIZE)
    \<and> (\<forall>vb. translate s' (pml4_virt t) vb =
         (if unat (va_off (ALIGN_DOWN va PAGE_SIZE) vb) < unat m
          then Some (ALIGN_DOWN phys PAGE_SIZE + va_off (ALIGN_DOWN va PAGE_SIZE) vb,
                     parse_common_flags flags)
          else translate s (pml4_virt t) vb))"
proof -
  obtain m s' where "pmap_map_page s t va phys flags = Some (m, s')" "m = 0 \<or> m = PAGE_SIZE"
    "map_effect (pml4_virt t) s lv (ALIGN_DOWN va PAGE_SIZE) (ALIGN_DOWN phys PAGE_SIZE) (parse_common_flags flags) (unat m) s'"
    by (rule map_page_correct [OF assms]) (rule that)
  then show ?thesis unfolding map_effect_def maps_def by blast
qed

theorem pmap_map_page_translation_witness:
  "pt_wf pt_sample pt_levels (pml4_virt pt_table)
   \<and> (\<exists>m s' lv'. pmap_map_page pt_sample pt_table 0x3000 0x6000 MMU_FLAG_WRITE = Some (m, s')
      \<and> pt_wf s' lv' (pml4_virt pt_table) \<and> (m = 0 \<or> m = PAGE_SIZE))"
proof -
  have "unat (0x6000 :: u64) < 2 ^ 52" by simp
  from pmap_map_page_translation [OF pt_sample_wf this, of "0x3000" MMU_FLAG_WRITE]
  show ?thesis using pt_sample_wf by blast
qed

text \<open>
  C3: \<open>pmap_map_range\<close> always returns, whatever page sizes it picks. It reports a number of bytes,
  a multiple of 4096 and at most the page-rounded length; exactly that prefix of the range now
  translates to consecutive physical addresses with the requested access bits, and every other
  address translates as before.
\<close>

theorem pmap_map_range_translation:
  assumes "pt_wf s lv (pml4_virt t)"
    and "unat va + unat len + 4095 < 2 ^ 64" and "unat len \<le> 2 ^ 47"
    and "unat phys + unat len + 8192 \<le> 2 ^ 52"
  shows "\<exists>m s' lv'. pmap_map_range s t va phys flags len = Some (m, s')
    \<and> pt_wf s' lv' (pml4_virt t) \<and> unat m mod 4096 = 0
    \<and> unat (ALIGN_DOWN va PAGE_SIZE) + unat m \<le> unat (ALIGN_UP (va + len) PAGE_SIZE)
    \<and> (\<forall>vb. translate s' (pml4_virt t) vb =
         (if unat (va_off (ALIGN_DOWN va PAGE_SIZE) vb) < unat m
          then Some (ALIGN_DOWN phys PAGE_SIZE + va_off (ALIGN_DOWN va PAGE_SIZE) vb,
                     parse_common_flags flags)
          else translate s (pml4_virt t) vb))"
proof -
  obtain d s' where "pmap_map_range s t va phys flags len = Some (d, s')" "unat d mod 4096 = 0"
    "unat (ALIGN_DOWN va PAGE_SIZE) + unat d \<le> unat (ALIGN_UP (va + len) PAGE_SIZE)"
    "map_effect (pml4_virt t) s lv (ALIGN_DOWN va PAGE_SIZE) (ALIGN_DOWN phys PAGE_SIZE) (parse_common_flags flags) (unat d) s'"
    by (rule map_range_correct [OF assms]) (rule that)
  then show ?thesis unfolding map_effect_def maps_def by auto
qed

theorem pmap_map_range_translation_witness:
  "pt_wf pt_sample pt_levels (pml4_virt pt_table)
   \<and> (\<exists>m s' lv'. pmap_map_range pt_sample pt_table 0x40000000 0 MMU_FLAG_HUGE_OK 0x40001000 = Some (m, s')
      \<and> pt_wf s' lv' (pml4_virt pt_table) \<and> unat m mod 4096 = 0)"
proof -
  have "unat (0x40000000 :: u64) + unat (0x40001000 :: u64) + 4095 < 2 ^ 64"
    "unat (0x40001000 :: u64) \<le> 2 ^ 47" "unat (0 :: u64) + unat (0x40001000 :: u64) + 8192 \<le> 2 ^ 52"
    by simp_all
  from pmap_map_range_translation [OF pt_sample_wf this, of MMU_FLAG_HUGE_OK]
  show ?thesis by (elim exE conjE) (intro conjI exI pt_sample_wf, assumption+)
qed

text \<open>
  C19: unmapping a page that \<open>pmap_map_page\<close> has mapped returns the physical page that was mapped,
  leaves the whole page untranslated, and brings the translation of every other address back to
  what it was before the mapping.
\<close>

theorem pmap_map_then_unmap:
  assumes "pt_wf s lv (pml4_virt t)" and "unat phys < 2 ^ 52"
    and "pmap_map_page s t va phys flags = Some (m, s1)" and "m \<noteq> 0"
  shows "\<exists>s2. pmap_unmap_page s1 t va = Some (ALIGN_DOWN phys PAGE_SIZE, s2)
    \<and> (\<exists>lv'. pt_wf s2 lv' (pml4_virt t))
    \<and> (\<forall>vb. translate s2 (pml4_virt t) vb =
         (if unat (va_off (ALIGN_DOWN va PAGE_SIZE) vb) < 4096 then None
          else translate s (pml4_virt t) vb))"
proof -
  let ?p = "ALIGN_DOWN phys PAGE_SIZE" and ?v = "ALIGN_DOWN va PAGE_SIZE"
  let ?e = "?p OR parse_common_flags flags"
  have "unat ?p \<le> unat phys" by (simp add: unat_ALIGN_DOWN_page)
  then have p: "unat ?p mod 4096 = 0" "unat ?p < 2 ^ 52"
    using assms(2) by (simp_all add: unat_ALIGN_DOWN_page_div)
  have fl: "parse_common_flags flags AND PAGE_PHYS_MASK = 0" "parse_common_flags flags AND PAGE_PRESENT \<noteq> 0"
    by (rule parse_common_flags_bits)+
  obtain lv1 where wf1: "pt_wf s1 lv1 (pml4_virt t)"
    and w: "\<And>vb. walk s1 4 (pml4_virt t) vb = (if same_slot 1 vb ?v then leaf_of 1 ?e else walk s 4 (pml4_virt t) vb)"
    using map_4k_correct [OF assms(1), of ?v ?p "parse_common_flags flags"] assms(3,4)
    unfolding map_post_def pmap_map_page_def by auto
  have "?e AND PAGE_PRESENT \<noteq> 0"
    using fl(2) by (metis and.commute and_zero_eq bit.conj_disj_distrib or_eq_0_iff)
  then have "walk s1 4 (pml4_virt t) va = Some (1, ?e)"
    using w [of va] align_down_slot(2) by (simp add: leaf_of_def)
  from unmap_correct [OF wf1 this] obtain s2 where
    s2: "pmap_unmap_page s1 t va = Some (?e AND PAGE_PHYS_MASK, s2)" "pt_wf s2 lv1 (pml4_virt t)"
    "\<And>vb. walk s2 4 (pml4_virt t) vb = (if same_slot 1 vb va then None else walk s1 4 (pml4_virt t) vb)"
    by blast
  have e: "?e AND PAGE_PHYS_MASK = ?p" by (rule or_flags_mask [OF phys_entry_mask(1) [OF p] fl(1)])
  have sl: "same_slot 1 vb va \<longleftrightarrow> unat (va_off ?v vb) < 4096" "same_slot 1 vb ?v \<longleftrightarrow> unat (va_off ?v vb) < 4096" for vb
    using same_slot_off [OF _ _ align_down_slot(1), of vb] same_slot_trans [OF align_down_slot(2), of vb va]
    by (simp_all add: slot_bits_def)
  have "translate s2 (pml4_virt t) vb = (if unat (va_off ?v vb) < 4096 then None else translate s (pml4_virt t) vb)" for vb
    using s2(3) [of vb] w [of vb] unfolding sl by (simp add: translate_def)
  then show ?thesis using s2(1,2) e by auto
qed


text \<open>The sample page is mapped: tables at pages 6, 7 and 1.\<close>

definition pmm_used :: "u8 \<Rightarrow> u64 \<Rightarrow> pmm_state" where
  "pmm_used bits i = pmm_sample\<lparr>pm_bitmap := \<lparr>bm_size = 1, bm_map = [bits]\<rparr>, cached_index := i\<rparr>"

lemma pmm_sample_allocs:
  "pmm_alloc_page pmm_sample1 = Some (0x6000, pmm_used 0x71 7)"
  "pmm_alloc_page (pmm_used 0x71 7) = Some (0x7000, pmm_used 0xF1 8)"
  "pmm_alloc_page (pmm_used 0xF1 8) = Some (0x1000, pmm_used 0xF3 2)"
  by (simp_all add: pmm_alloc_page_def pmm_sample_def pmm_sample1_def pmm_used_def pmm_scan.simps
      pmm_take_page_def bitmap_check_bit_def bitmap_set_bit_def bitmap_in_range_def PAGE_SIZE_def)

lemma pt_sample_map:
  "\<exists>s. pmap_map_page pt_sample pt_table 0x3000 0x6000 MMU_FLAG_WRITE = Some (PAGE_SIZE, s)"
  by (simp add: pmap_map_page_def map_4k_def get_next_level_def k_alloc_page_def pmm_sample_allocs
      pt_sample_def k_sample_def pt_table_def pt_root_def read_entry_def write_entry_def clear_page_def
      write_cell_def phys_to_higher_half_data_def Let_def GET_PML4_IDX_def GET_PDPT_IDX_def
      GET_PD_IDX_def GET_PT_IDX_def ALIGN_DOWN_def PAGE_SIZE_def PAGE_PRESENT_def)

theorem pmap_map_then_unmap_witness:
  "\<exists>s1 s2. pmap_map_page pt_sample pt_table 0x3000 0x6000 MMU_FLAG_WRITE = Some (PAGE_SIZE, s1)
    \<and> pmap_unmap_page s1 pt_table 0x3000 = Some (0x6000, s2)"
proof -
  obtain s1 where s1: "pmap_map_page pt_sample pt_table 0x3000 0x6000 MMU_FLAG_WRITE = Some (PAGE_SIZE, s1)"
    using pt_sample_map by blast
  have "unat (0x6000 :: u64) < 2 ^ 52" by simp
  from pmap_map_then_unmap [OF pt_sample_wf this s1]
  obtain s2 where "pmap_unmap_page s1 pt_table 0x3000 = Some (ALIGN_DOWN 0x6000 PAGE_SIZE, s2)" by auto
  moreover have "ALIGN_DOWN 0x6000 PAGE_SIZE = 0x6000" by (simp add: ALIGN_DOWN_def PAGE_SIZE_def)
  ultimately show ?thesis using s1 by auto
qed

end
