(* ===== verification/Vm_Range.thy ===== *)
theory Vm_Range
  imports Vm_Areas Pmap_Range
begin

text \<open>
  Unmapping the pages of a range and giving their frames back, and allocating a cleared frame,
  seen through the page-table tree of an address space.
\<close>

definition pt_clean :: "kstate \<Rightarrow> (u64 \<Rightarrow> nat) \<Rightarrow> bool" where
  "pt_clean s lv \<longleftrightarrow> (\<forall>t i. lv t = 1 \<longrightarrow> unat i < 512 \<longrightarrow>
     read_entry s t i AND PAGE_PRESENT = 0 \<longrightarrow> read_entry s t i = 0)"

lemma write_same: "read_entry s t i = e \<Longrightarrow> write_entry s t i e = s"
  by (auto simp: read_entry_def write_entry_def write_cell_def)

lemma walk_none_lookup:
  assumes wf: "pt_wf s lv (pml4_virt t)" and cl: "pt_clean s lv" and w: "walk s 4 (pml4_virt t) va = None"
  shows "pmap_unmap_page s t va = Some (0, s)"
proof -
  let ?r = "pml4_virt t"
  have n: "(4 :: nat) = Suc 3" "(3 :: nat) = Suc 2" "(2 :: nat) = Suc 1" by simp_all
  note lk = get_next_level_lookup level_idx_simps pmap_unmap_page_def
  show ?thesis
  proof (cases "child s ?r (level_idx 4 va)")
    case None
    then show ?thesis by (simp add: lk)
  next
    case t3: (Some t3)
    have l3: "lv t3 = 3" using pt_wfD(6) [OF wf _ level_idx_less t3] pt_wfD(2) [OF wf] by simp
    have w3: "walk s 3 t3 va = None" using w t3 walk_step [of s 3 ?r va] by simp
    show ?thesis
    proof (cases "child s t3 (level_idx 3 va)")
      case None
      then show ?thesis using t3 by (simp add: lk)
    next
      case t2: (Some t2)
      have l2: "lv t2 = 2" using pt_wfD(6) [OF wf _ level_idx_less t2] l3 by simp
      have w2: "walk s 2 t2 va = None" using w3 t2 walk_step [of s 2 t3 va] by simp
      show ?thesis
      proof (cases "child s t2 (level_idx 2 va)")
        case None
        then show ?thesis using t3 t2 by (simp add: lk)
      next
        case t1: (Some t1)
        have l1: "lv t1 = 1" using pt_wfD(6) [OF wf _ level_idx_less t1] l2 by simp
        have w1: "walk s 1 t1 va = None" using w2 t1 walk_step [of s 1 t2 va] by (simp add: numeral_2_eq_2)
        then have "read_entry s t1 (level_idx 1 va) AND PAGE_PRESENT = 0"
          by (auto simp: Let_def split: if_splits)
        then have z: "read_entry s t1 (level_idx 1 va) = 0"
          using cl l1 level_idx_less by (simp add: pt_clean_def)
        have "t3 \<noteq> 0" "t2 \<noteq> 0" "t1 \<noteq> 0"
          using pt_wfD(5) [OF wf] l3 l2 l1 by (auto simp: slab_page_def)
        then show ?thesis using t3 t2 t1 z write_same [OF z] by (simp add: lk)
      qed
    qed
  qed
qed

text \<open>Freeing a frame that is not a table keeps the tree.\<close>

lemma pt_wf_free_page:
  assumes wf: "pt_wf s lv root" and pa: "PAGE_SIZE \<le> pa" "unat pa mod 4096 = 0"
    and nt: "lv (phys_to_higher_half_data s pa) = 0"
  shows "\<exists>s'. k_free_page s pa = Some s' \<and> pt_wf s' lv root \<and> mem s' = mem s \<and> hhdm s' = hhdm s
    \<and> k_pages s' = k_pages s
    \<and> k_free_set s' = k_free_set s \<union> {k. k = unat pa div 4096 \<and> k < k_pages s}"
proof -
  obtain s' where s': "k_free_page s pa = Some s'" "k_inv s'" "k_pages s' = k_pages s"
    "k_free_set s' = (if unat pa div 4096 < k_pages s then insert (unat pa div 4096) (k_free_set s)
       else k_free_set s)" using kpg.free_some [OF pt_wfD(1) [OF wf] pa(1)] by blast
  have fr: "mem s' = mem s" "hhdm s' = hhdm s"
    using s'(1) by (auto simp: k_free_page_def bind_eq_Some_conv)
  have rd: "read_entry s' t i = read_entry s t i" for t i by (simp add: read_entry_def fr)
  have ch: "child s' t i = child s t i" for t i by (rule child_eq [OF rd fr(2)])
  have up: "used_page s' a" if "lv a \<noteq> 0" for a
  proof -
    have u: "used_page s a" by (rule pt_wfD(4) [OF wf that])
    have "page_no s a \<noteq> unat pa div 4096"
    proof
      assume eq: "page_no s a = unat pa div 4096"
      then have "unat a = unat (hhdm s) + unat pa" using u pa(2) by (auto simp: used_page_def)
      moreover have "unat (hhdm s + pa) = unat (hhdm s) + unat pa"
        using calculation unsigned_less [of a, where 'a = nat] by (intro unat_add_no_wrap) simp
      ultimately have "a = phys_to_higher_half_data s pa"
        by (simp add: word_unat_eq_iff phys_to_higher_half_data_def)
      then show False using nt that by simp
    qed
    then show ?thesis using u s'(3,4) fr by (auto simp: used_page_def page_no_def)
  qed
  have "pt_wf s' lv root"
    unfolding pt_wf_def ch
    by (intro conjI allI impI) (use pt_wfD [OF wf] s'(2) up in \<open>blast+\<close>)
  then show ?thesis using s' fr by auto
qed

lemma walk_mem_cong: "mem s' = mem s \<Longrightarrow> hhdm s' = hhdm s \<Longrightarrow> walk s' l t va = walk s l t va"
  by (induction l arbitrary: t) (simp_all add: read_entry_def phys_to_higher_half_data_def Let_def)

lemma pt_clean_cong: "mem s' = mem s \<Longrightarrow> pt_clean s lv \<Longrightarrow> pt_clean s' lv"
  by (simp add: pt_clean_def read_entry_def)


lemma entry_phys_aligned: "unat (e AND PAGE_PHYS_MASK) mod 4096 = 0"
proof -
  have "take_bit 12 (e AND PAGE_PHYS_MASK) = 0"
    by (rule bit_word_eqI) (auto simp: PAGE_PHYS_MASK_eq bit_simps)
  then show ?thesis using unat_take_bit_mod [of 12 "e AND PAGE_PHYS_MASK"] by simp
qed

lemma same_slot_aligned:
  assumes "unat va mod 4096 = 0"
  shows "same_slot 1 vb va \<longleftrightarrow> unat (va_off va vb) < 4096"
  using same_slot_off [of 1 va vb] assms by (simp add: slot_bits_def)

text \<open>The mapped pages of \<open>[va, en)\<close> are small pages whose frames are not tables.\<close>

definition frames_ok :: "kstate \<Rightarrow> (u64 \<Rightarrow> nat) \<Rightarrow> u64 \<Rightarrow> u64 \<Rightarrow> u64 \<Rightarrow> bool" where
  "frames_ok s lv root va en \<longleftrightarrow> (\<forall>vb k e. va \<le> vb \<longrightarrow> vb < en \<longrightarrow> walk s 4 root vb = Some (k, e) \<longrightarrow>
     k = 1 \<and> PAGE_SIZE \<le> e AND PAGE_PHYS_MASK
     \<and> lv (phys_to_higher_half_data s (e AND PAGE_PHYS_MASK)) = 0)"

definition range_frames :: "kstate \<Rightarrow> u64 \<Rightarrow> u64 \<Rightarrow> u64 \<Rightarrow> nat set" where
  "range_frames s root va en =
     {unat (e AND PAGE_PHYS_MASK) div 4096 | e. \<exists>vb. va \<le> vb \<and> vb < en \<and> walk s 4 root vb = Some (1, e)}"

lemma unmap_step:
  assumes wf: "pt_wf s lv (pml4_virt t)" and cl: "pt_clean s lv"
    and va: "unat va mod 4096 = 0" "va < en" and ok: "frames_ok s lv (pml4_virt t) va en"
  obtains pa s1 s2 where "pmap_unmap_page s t va = Some (pa, s1)"
    "(if pa \<noteq> 0 then k_free_page s1 pa else Some s1) = Some s2"
    "pt_wf s2 lv (pml4_virt t)" "pt_clean s2 lv" "hhdm s2 = hhdm s" "k_pages s2 = k_pages s"
    "\<And>vb. walk s2 4 (pml4_virt t) vb =
       (if unat (va_off va vb) < 4096 then None else walk s 4 (pml4_virt t) vb)"
    "k_free_set s2 = k_free_set s \<union>
       {k. k < k_pages s \<and> (\<exists>e. walk s 4 (pml4_virt t) va = Some (1, e) \<and> k = unat (e AND PAGE_PHYS_MASK) div 4096)}"
proof (cases "walk s 4 (pml4_virt t) va")
  case None
  have "walk s 4 (pml4_virt t) vb = None" if "unat (va_off va vb) < 4096" for vb
  proof -
    have "same_slot 1 vb va" using same_slot_aligned [OF va(1)] that by simp
    have "walk s 4 (pml4_virt t) vb = walk s 4 (pml4_virt t) va"
    proof -
      have eq: "level_idx j vb = level_idx j va" if "j \<in> {1..4}" for j
        using \<open>same_slot 1 vb va\<close> that by (simp add: same_slot_def)
      have "walk s l u vb = walk s l u va" if "l \<le> 4" for l u
        using that eq by (induction l arbitrary: u) (simp_all add: Let_def)
      then show ?thesis by simp
    qed
    then show ?thesis using None by simp
  qed
  then show thesis
    using that [of 0 s s] walk_none_lookup [OF wf cl None] wf cl None by auto
next
  case (Some ke)
  obtain k e where ke: "ke = (k, e)" by (cases ke)
  have k: "k = 1" "PAGE_SIZE \<le> e AND PAGE_PHYS_MASK"
    "lv (phys_to_higher_half_data s (e AND PAGE_PHYS_MASK)) = 0"
    using ok va(2) Some unfolding frames_ok_def ke by blast+
  have w: "walk s 4 (pml4_virt t) va = Some (1, e)" using Some ke k by simp
  obtain s1 where s1: "pmap_unmap_page s t va = Some (e AND PAGE_PHYS_MASK, s1)"
    "pt_wf s1 lv (pml4_virt t)" "pt_frame s s1 {a. lv a \<noteq> 0}"
    "\<And>vb. walk s1 4 (pml4_virt t) vb = (if same_slot 1 vb va then None else walk s 4 (pml4_virt t) vb)"
    using unmap_correct [OF wf w] by blast
  obtain u where u: "lv u = 1" "s1 = write_entry s u (level_idx 1 va) 0"
  proof -
    obtain t3 t2 t1 where c: "child s (pml4_virt t) (level_idx 4 va) = Some t3"
      "child s t3 (level_idx 3 va) = Some t2" "child s t2 (level_idx 2 va) = Some t1"
      and d: "descend s 1 3 (pml4_virt t) va = Some t1"
      using walk_descend [OF w] by metis
    have l3: "lv t3 = 3" using pt_wfD(6) [OF wf _ level_idx_less c(1)] pt_wfD(2) [OF wf] by simp
    have l2: "lv t2 = 2" using pt_wfD(6) [OF wf _ level_idx_less c(2)] l3 by simp
    have l1: "lv t1 = 1" using pt_wfD(6) [OF wf _ level_idx_less c(3)] l2 by simp
    have "t3 \<noteq> 0" "t2 \<noteq> 0" "t1 \<noteq> 0" using pt_wfD(5) [OF wf] l3 l2 l1 by (auto simp: slab_page_def)
    then have "s1 = write_entry s t1 (level_idx 1 va) 0"
      using s1(1) c by (simp add: pmap_unmap_page_def get_next_level_lookup level_idx_simps)
    then show thesis using that [of t1] l1 by simp
  qed
  have cl1: "pt_clean s1 lv"
    using cl read_write_entry [OF pt_wfD(5) [OF wf] pt_wfD(5) [OF wf] level_idx_less, of u] u
    by (auto simp: pt_clean_def)
  have same: "hhdm s1 = hhdm s" "k_pages s1 = k_pages s" using s1(3) by (simp_all add: pt_frame_def)
  have "pmm s1 = pmm s" by (simp add: u(2))
  then have free1: "k_free_set s1 = k_free_set s" by (simp add: k_free_set_def)
  have nt: "lv (phys_to_higher_half_data s1 (e AND PAGE_PHYS_MASK)) = 0"
    using k(3) same by (simp add: phys_to_higher_half_data_def)
  obtain s2 where s2: "k_free_page s1 (e AND PAGE_PHYS_MASK) = Some s2" "pt_wf s2 lv (pml4_virt t)"
    "mem s2 = mem s1" "hhdm s2 = hhdm s1" "k_pages s2 = k_pages s1"
    "k_free_set s2 = k_free_set s1 \<union> {k. k = unat (e AND PAGE_PHYS_MASK) div 4096 \<and> k < k_pages s1}"
    using pt_wf_free_page [OF s1(2) k(2) entry_phys_aligned nt] by blast
  have nz: "e AND PAGE_PHYS_MASK \<noteq> 0" using k(2) by auto
  show thesis
  proof (rule that [OF s1(1), of s2])
    show "(if e AND PAGE_PHYS_MASK \<noteq> 0 then k_free_page s1 (e AND PAGE_PHYS_MASK) else Some s1) = Some s2"
      using s2(1) nz by simp
    show "pt_clean s2 lv" by (rule pt_clean_cong [OF s2(3) cl1])
    show "walk s2 4 (pml4_virt t) vb =
       (if unat (va_off va vb) < 4096 then None else walk s 4 (pml4_virt t) vb)" for vb
      using walk_mem_cong [OF s2(3,4)] s1(4) same_slot_aligned [OF va(1)] by simp
    show "k_free_set s2 = k_free_set s \<union> {k. k < k_pages s \<and> (\<exists>e. walk s 4 (pml4_virt t) va = Some (1, e)
        \<and> k = unat (e AND PAGE_PHYS_MASK) div 4096)}"
      using s2(6) free1 same w by auto
  qed (use s2 same in simp_all)
qed


lemma va_off_small:
  assumes "unat base \<le> unat vb" "unat vb < unat base + 2 ^ 48"
  shows "unat (va_off base vb) = unat vb - unat base"
proof -
  have "unat (vb - base) = unat vb - unat base" using assms(1) by (simp add: unat_sub word_le_nat_alt)
  then show ?thesis unfolding va_off_def unat_take_bit_mod using assms by simp
qed

lemma range_frames_step:
  assumes w2: "\<And>vb. walk s2 4 r vb = (if unat (va_off va vb) < 4096 then None else walk s 4 r vb)"
    and al: "unat va mod 4096 = 0" and lt: "va < en" and uv: "unat (va + 0x1000) = unat va + 4096"
    and top: "unat en \<le> unat va + 2 ^ 48"
  shows "range_frames s r va en =
    {k. \<exists>e. walk s 4 r va = Some (1, e) \<and> k = unat (e AND PAGE_PHYS_MASK) div 4096}
    \<union> range_frames s2 r (va + 0x1000) en" (is "?A = ?B \<union> ?C")
proof (intro set_eqI iffI)
  fix k assume "k \<in> ?A"
  then obtain e vb where vb: "k = unat (e AND PAGE_PHYS_MASK) div 4096" "va \<le> vb" "vb < en"
    "walk s 4 r vb = Some (1, e)" by (auto simp: range_frames_def)
  have off: "unat (va_off va vb) = unat vb - unat va"
    using vb(2,3) top by (intro va_off_small) (simp_all add: word_le_nat_alt word_less_nat_alt)
  show "k \<in> ?B \<union> ?C"
  proof (cases "unat vb < unat va + 4096")
    case True
    then have "same_slot 1 vb va" using off same_slot_aligned [OF al] vb(2)
      by (simp add: word_le_nat_alt)
    then have eq: "level_idx j vb = level_idx j va" if "j \<in> {1..4}" for j
      using that by (simp add: same_slot_def)
    have "walk s l u vb = walk s l u va" if "l \<le> 4" for l u
      using that eq by (induction l arbitrary: u) (simp_all add: Let_def)
    then show ?thesis using vb by auto
  next
    case False
    then have "\<not> unat (va_off va vb) < 4096" using off by simp
    then have "walk s2 4 r vb = Some (1, e)" using w2 [of vb] vb(4) by simp
    moreover have "(va + 0x1000) \<le> vb" using False uv by (simp add: word_le_nat_alt)
    ultimately show ?thesis using vb(1,3) by (auto simp: range_frames_def)
  qed
next
  fix k assume "k \<in> ?B \<union> ?C"
  then show "k \<in> ?A"
  proof
    assume "k \<in> ?B"
    then show ?thesis using lt by (auto simp: range_frames_def)
  next
    assume "k \<in> ?C"
    then obtain e vb where vb: "k = unat (e AND PAGE_PHYS_MASK) div 4096" "(va + 0x1000) \<le> vb" "vb < en"
      "walk s2 4 r vb = Some (1, e)" by (auto simp: range_frames_def)
    have "walk s 4 r vb = Some (1, e)" using vb(4) w2 [of vb] by (auto split: if_splits)
    moreover have "va \<le> vb" using vb(2) uv by (simp add: word_le_nat_alt)
    ultimately show ?thesis using vb(1,3) by (auto simp: range_frames_def)
  qed
qed

text \<open>
  Unmapping a page-aligned range: it ends, leaves no address of the range translated, changes no
  other translation, and gives exactly the frames of the range back.
\<close>

lemma unmap_range_correct:
  assumes "pt_wf s lv (pml4_virt t)" "pt_clean s lv" "unat va mod 4096 = 0" "unat en mod 4096 = 0"
    "va \<le> en" "unat en \<le> unat va + 2 ^ 48" "frames_ok s lv (pml4_virt t) va en"
  shows "\<exists>s'. unmap_range t va en s = Some s' \<and> pt_wf s' lv (pml4_virt t) \<and> pt_clean s' lv
    \<and> hhdm s' = hhdm s \<and> k_pages s' = k_pages s
    \<and> (\<forall>vb. walk s' 4 (pml4_virt t) vb =
         (if unat (va_off va vb) < unat en - unat va then None else walk s 4 (pml4_virt t) vb))
    \<and> k_free_set s' = k_free_set s \<union> {k \<in> range_frames s (pml4_virt t) va en. k < k_pages s}"
  using assms
proof (induction "unat en - unat va" arbitrary: va s rule: less_induct)
  case less
  note wf = less.prems(1) and cl = less.prems(2)
  show ?case
  proof (cases "va < en")
    case False
    then have "va = en" using less.prems(5) by simp
    then show ?thesis using wf cl by (auto simp: unmap_range.simps range_frames_def)
  next
    case True
    obtain pa s1 s2 where st: "pmap_unmap_page s t va = Some (pa, s1)"
      "(if pa \<noteq> 0 then k_free_page s1 pa else Some s1) = Some s2"
      "pt_wf s2 lv (pml4_virt t)" "pt_clean s2 lv" "hhdm s2 = hhdm s" "k_pages s2 = k_pages s"
      "\<And>vb. walk s2 4 (pml4_virt t) vb =
         (if unat (va_off va vb) < 4096 then None else walk s 4 (pml4_virt t) vb)"
      "k_free_set s2 = k_free_set s \<union>
         {k. k < k_pages s \<and> (\<exists>e. walk s 4 (pml4_virt t) va = Some (1, e) \<and> k = unat (e AND PAGE_PHYS_MASK) div 4096)}"
      by (rule unmap_step [OF wf cl less.prems(3) True less.prems(7)]) (rule that)
    have run: "unmap_range t va en s = unmap_range t (va + 0x1000) en s2"
      by (subst unmap_range.simps) (use True st(1,2) in simp)
    have ve: "unat va + 4096 \<le> unat en"
    proof -
      have "unat va < unat en" using True by (simp add: word_less_nat_alt)
      then show ?thesis using aligned_less [OF less.prems(3,4)] by simp
    qed
    have uv: "unat (va + 0x1000) = unat va + 4096"
      using ve unsigned_less [of en, where 'a = nat] unat_add_no_wrap [of va "0x1000"] by simp
    let ?v = "va + 0x1000"
    have ok2: "frames_ok s2 lv (pml4_virt t) ?v en"
      unfolding frames_ok_def
    proof (intro allI impI)
      fix vb k e assume a: "?v \<le> vb" "vb < en" "walk s2 4 (pml4_virt t) vb = Some (k, e)"
      have "walk s 4 (pml4_virt t) vb = Some (k, e)" using a(3) st(7) [of vb] by (auto split: if_splits)
      moreover have "va \<le> vb" using a(1) uv by (simp add: word_le_nat_alt)
      ultimately show "k = 1 \<and> PAGE_SIZE \<le> e AND PAGE_PHYS_MASK
         \<and> lv (phys_to_higher_half_data s2 (e AND PAGE_PHYS_MASK)) = 0"
        using less.prems(7) a(2) st(5) unfolding frames_ok_def phys_to_higher_half_data_def by metis
    qed
    have d1: "unat ?v mod 4096 = 0" using less.prems(3) uv by simp
    have d2: "?v \<le> en" "unat en \<le> unat ?v + 2 ^ 48" "unat en - unat ?v < unat en - unat va"
      using ve uv less.prems(6) by (simp_all add: word_le_nat_alt)
    obtain s' where s': "unmap_range t ?v en s2 = Some s'" "pt_wf s' lv (pml4_virt t)"
      "pt_clean s' lv" "hhdm s' = hhdm s2" "k_pages s' = k_pages s2"
      "\<forall>vb. walk s' 4 (pml4_virt t) vb =
         (if unat (va_off ?v vb) < unat en - unat ?v then None else walk s2 4 (pml4_virt t) vb)"
      "k_free_set s' = k_free_set s2 \<union> {k \<in> range_frames s2 (pml4_virt t) ?v en. k < k_pages s2}"
      using less.hyps [OF d2(3) st(3,4) d1 less.prems(4) d2(1,2) ok2]
      by (elim exE conjE) (rule that)
    note s6 = s'(6) [rule_format]
    have w: "walk s' 4 (pml4_virt t) vb =
         (if unat (va_off va vb) < unat en - unat va then None else walk s 4 (pml4_virt t) vb)" for vb
    proof -
      define x where "x = unat (va_off va vb)"
      have x: "x < 2 ^ 48" by (simp add: x_def unat_va_off)
      have o: "unat (va_off ?v vb) = (x + 2 ^ 48 - 4096) mod 2 ^ 48"
        using va_off_add [of "0x1000" va vb] by (simp add: x_def)
      show ?thesis
      proof (cases "x < 4096")
        case True
        moreover from this ve have "x < unat en - unat va" by linarith
        ultimately show ?thesis using s6 [of vb] st(7) [of vb] by (simp add: x_def [symmetric])
      next
        case False
        then have "unat (va_off ?v vb) = x - 4096" unfolding o using x by (simp add: mod_if)
        then show ?thesis
          using False s6 [of vb] st(7) [of vb] ve uv by (auto simp: x_def [symmetric])
      qed
    qed
    note fr = range_frames_step [OF st(7) less.prems(3) True uv less.prems(6)]
    have "k_free_set s' = k_free_set s \<union> {k \<in> range_frames s (pml4_virt t) va en. k < k_pages s}"
      unfolding fr s'(7) st(8) st(6) by blast
    then show ?thesis using run s'(1-5) st(5,6) w by simp
  qed
qed

end
