(* ===== verification/Vm_Props.thy ===== *)
theory Vm_Props
  imports Vm_Range
begin

text \<open>
  What the operations on a virtual memory map do (\<^verbatim>\<open>vm_map.c\<close>): reserving a region, first-fit search,
  cutting a range out of the areas, giving the frames of a range back, and resolving page faults.
\<close>

lemma pt_wf_new_frame:
  assumes wf: "pt_wf s lv root" and al: "k_alloc_page s = Some (pa, s1)" "pa \<noteq> 0"
  defines "b \<equiv> phys_to_higher_half_data s1 pa"
  defines "s2 \<equiv> clear_page s1 b"
  shows "pt_wf s2 lv root" "\<And>va. walk s2 4 root va = walk s 4 root va" "lv b = 0"
    "slab_page b" "\<And>a. page_base a = b \<Longrightarrow> mem s2 a = 0" "unat pa < 2 ^ 52" "unat pa mod 4096 = 0"
    "unat pa div 4096 \<in> k_free_set s" "k_free_set s2 = k_free_set s - {unat pa div 4096}"
    "hhdm s2 = hhdm s" "page_no s2 b = unat pa div 4096" "k_pages s2 = k_pages s"
proof -
  note inv = pt_wfD(1) [OF wf]
  note n = kpg.alloc_nonzero [OF inv al]
  obtain p where p: "s1 = s\<lparr>pmm := p\<rparr>" using k_alloc_page_frame [OF al(1)] by blast
  have b: "b = hhdm s + pa" by (simp add: b_def p phys_to_higher_half_data_def)
  have u4: "unat pa = 4096 * (unat pa div 4096)" using n(1) by auto
  note nf = new_page_facts [OF inv n(2) u4, folded b]
  have hh: "hhdm s2 = hhdm s" by (simp add: s2_def p)
  show lb: "lv b = 0"
  proof (rule ccontr)
    assume "lv b \<noteq> 0"
    then have "used_page s b" by (rule pt_wfD(4) [OF wf])
    then show False using nf(2) n(2) by (simp add: used_page_def)
  qed
  show sb: "slab_page b" by (rule nf(3))
  have fs: "k_free_set s2 = k_free_set s1" "k_pages s2 = k_pages s1" "k_inv s2 = k_inv s1"
    using k_of_pmm(1-3) [of s2 s1] by (simp_all add: s2_def)
  have rd: "read_entry s2 t i = read_entry s t i" if "lv t \<noteq> 0" "unat i < 512" for t i
  proof -
    have "t \<noteq> b" using that lb by auto
    then show ?thesis
      unfolding s2_def using read_clear_page [OF sb pt_wfD(5) [OF wf that(1)] that(2)]
      by (simp add: p read_entry_def)
  qed
  have ch: "child s2 t i = child s t i" if "2 \<le> lv t" "unat i < 512" for t i
    using child_eq [OF rd hh] that by simp
  have up: "used_page s2 a" if "lv a \<noteq> 0" for a
  proof -
    have u: "used_page s a" by (rule pt_wfD(4) [OF wf that])
    then show ?thesis by (rule used_page_cong [rotated 3]) (use fs n hh in auto)
  qed
  show "pt_wf s2 lv root"
    unfolding pt_wf_def
  proof (intro conjI allI impI)
    fix a i c assume a: "2 \<le> lv a" "unat i < 512" "child s2 a i = Some c"
    then show "lv c = lv a - 1" using pt_wfD(6) [OF wf a(1,2)] ch by simp
  next
    fix a i c d j
    assume a: "2 \<le> lv a" "unat i < 512" "2 \<le> lv d" "unat j < 512" "child s2 a i = Some c" "child s2 d j = Some c"
    have "a = d \<and> i = j" using pt_wfD(7) [OF wf a(1-4)] a(5,6) ch a(1-4) by simp
    then show "a = d" "i = j" by auto
  qed (use pt_wfD [OF wf] fs n(4) up in auto)
  show "walk s2 4 root va = walk s 4 root va" for va
    by (rule walk_unchanged [OF wf hh, of 4]) (use rd pt_wfD(2) [OF wf] in auto)
  show "mem s2 a = 0" if "page_base a = b" for a
    using in_page_iff [OF sb] that by (simp add: s2_def clear_page_def)
  show "unat pa mod 4096 = 0" by (rule n(1))
  show "unat pa < 2 ^ 52" using n(7) kpg.pages_bound [OF inv] by simp
  show "unat pa div 4096 \<in> k_free_set s" by (rule n(2))
  show "k_free_set s2 = k_free_set s - {unat pa div 4096}" using fs n by simp
  show "hhdm s2 = hhdm s" by (rule hh)
  show "page_no s2 b = unat pa div 4096" using nf(2) hh by (simp add: page_no_def)
  show "k_pages s2 = k_pages s" using fs n by simp
qed

lemma lookup_in: "vm_map_lookup vs a = Some v \<Longrightarrow> v \<in> set vs \<and> va_start v \<le> a \<and> a < va_end v"
  by (induction vs) (auto split: if_splits)

subsection \<open>Properties\<close>

text \<open>A sample state: the area cache exists and is empty; a map without areas.\<close>

definition vm_sample :: kstate where
  "vm_sample = (snd (the (kmem_cache_create k_sample 48)))\<lparr>vm_area_cache := Some 0\<rparr>"

definition map_sample :: vm_map where
  "map_sample = \<lparr>vm_addr = 0, vm_pt = pt_table, areas = []\<rparr>"

lemma vm_sample_wf: "vm_wf 0 {} vm_sample []"
proof -
  have "cache_pool_idx k_sample < length (cache_pool k_sample)" "unat (48 :: u64) \<le> 4064"
    "cache_pool_idx k_sample = 0" by (simp_all add: k_sample_def)
  with kmem_cache_create_correct [OF k_sample_inv this(1,2)]
  have "cache_rep 0 (snd (the (kmem_cache_create k_sample 48))) {}" by auto
  then have "cache_rep 0 vm_sample {}" by (rule cache_rep_cong) (simp_all add: vm_sample_def)
  then show ?thesis by (simp add: vm_wf_def vm_sample_def)
qed

text \<open>
  \<open>vm_map_allocate_region\<close> on a sorted, disjoint area list always returns. It returns 0 and
  changes nothing when the page-rounded region meets an existing area, or when no area object can
  be allocated; otherwise it returns the start, and afterwards exactly the addresses of the region
  carry the given flags, every other address as before, and the list is still sorted, disjoint and
  made of live objects.
\<close>

theorem vm_map_allocate_region_spec:
  assumes "vm_wf c L s (areas m)" and "sz \<noteq> 0" and "unat st + unat sz + 4095 < 2 ^ 64"
  shows "\<exists>r m' s'. vm_map_allocate_region s m st sz fl = Some (r, m', s')
    \<and> (m' = m \<and> s' = s \<and> r = 0
         \<and> (vma_overlaps (areas m) st (ALIGN_UP sz PAGE_SIZE) \<or> k_free_set s = {})
       \<or> r = st \<and> \<not> vma_overlaps (areas m) st (ALIGN_UP sz PAGE_SIZE)
         \<and> (\<exists>x. x \<notin> L \<and> vm_wf c (insert x L) s' (areas m'))
         \<and> (\<forall>a. flags_at (areas m') a = (if st \<le> a \<and> a < st + ALIGN_UP sz PAGE_SIZE then Some fl
              else flags_at (areas m) a)))"
  by (rule region_correct [OF assms, of fl]) blast+

theorem vm_map_allocate_region_spec_witness:
  "vm_wf 0 {} vm_sample (areas map_sample)
   \<and> (\<exists>r m' s'. vm_map_allocate_region vm_sample map_sample 0x8000 0x1800 MMU_FLAG_WRITE = Some (r, m', s'))"
proof -
  have w: "vm_wf 0 {} vm_sample (areas map_sample)" using vm_sample_wf by (simp add: map_sample_def)
  have "(0x1800 :: u64) \<noteq> 0" "unat (0x8000 :: u64) + unat (0x1800 :: u64) + 4095 < 2 ^ 64" by simp_all
  from vm_map_allocate_region_spec [OF w this, of MMU_FLAG_WRITE] show ?thesis using w by blast
qed

text \<open>
  C20: \<open>vm_map_allocate\<close> is first fit: unless the areas reach the top of the address space it
  fails only when no area object can be allocated; otherwise it returns the lowest address at or
  above \<open>VM_ALLOC_BASE\<close> where the page-rounded size fits, and exactly that region is added.
\<close>

theorem vm_map_allocate_first_fit:
  assumes "vm_wf c L s (areas m)" and "sz \<noteq> 0" and "unat sz + 12288 < 2 ^ 64"
    and "\<forall>v\<in>set (areas m). unat (va_end v) + unat sz + 8192 < 2 ^ 64"
  shows "(vm_map_allocate s (Some m) sz fl = Some (0, Some m, s) \<and> k_free_set s = {})
    \<or> (\<exists>a m' s'. vm_map_allocate s (Some m) sz fl = Some (a, Some m', s') \<and> VM_ALLOC_BASE \<le> a
         \<and> \<not> vma_overlaps (areas m) a (ALIGN_UP sz PAGE_SIZE)
         \<and> (\<forall>b. VM_ALLOC_BASE \<le> b \<longrightarrow> b < a \<longrightarrow> vma_overlaps (areas m) b (ALIGN_UP sz PAGE_SIZE))
         \<and> (\<exists>x. vm_wf c (insert x L) s' (areas m'))
         \<and> (\<forall>b. flags_at (areas m') b = (if a \<le> b \<and> b < a + ALIGN_UP sz PAGE_SIZE then Some fl
              else flags_at (areas m) b)))"
proof -
  let ?len = "ALIGN_UP sz PAGE_SIZE"
  have b: "unat sz \<le> unat ?len" "unat ?len < unat sz + 4096" "?len \<noteq> 0"
    using align_up_bound [of sz] assms(2,3) by auto
  define a where "a = find_gap (areas m) ?len VM_ALLOC_BASE"
  have wf: "areas_wf (areas m)" using assms(1) by (simp add: vm_wf_def)
  have ends: "\<forall>v\<in>set (areas m). unat (va_end v) + unat ?len < 2 ^ 64" using assms(4) b by fastforce
  have base: "unat VM_ALLOC_BASE + unat ?len < 2 ^ 64" using assms(3) b by (simp add: VM_ALLOC_BASE_def)
  note free = find_gap_free [OF wf ends base, folded a_def]
  have no: "\<not> vma_overlaps (areas m) a ?len"
    using free by (auto simp: vma_overlaps_iff not_less dest: leD)
  have first: "vma_overlaps (areas m) b ?len" if "VM_ALLOC_BASE \<le> b" "b < a" for b
    using find_gap_first [OF wf ends base b(3) that(1)] that(2) by (simp add: a_def)
  have ge: "VM_ALLOC_BASE \<le> a" unfolding a_def by (rule find_gap_ge)
  then have a0: "a \<noteq> 0" by (auto simp: VM_ALLOC_BASE_def)
  have len2: "ALIGN_UP ?len PAGE_SIZE = ?len"
  proof -
    have u: "unat ?len = 4096 * ((unat sz + 4095) div 4096)" using assms(3) by (intro unat_ALIGN_UP_page) simp
    have "unat (ALIGN_UP ?len PAGE_SIZE) = 4096 * ((unat ?len + 4095) div 4096)"
      using assms(3) b by (intro unat_ALIGN_UP_page) simp
    also have "\<dots> = unat ?len" unfolding u by simp
    finally show ?thesis by (simp only: word_unat_eq_iff)
  qed
  have "a = VM_ALLOC_BASE \<or> (\<exists>v\<in>set (areas m). a = va_end v)"
    unfolding a_def by (rule find_gap_cases)
  then have r: "unat a + unat ?len + 4095 < 2 ^ 64"
    using assms(3,4) b by (auto simp: VM_ALLOC_BASE_def)
  have run: "vm_map_allocate s (Some m) sz fl =
      Option.bind (vm_map_allocate_region s m a ?len fl)
        (\<lambda>(r, m', s'). if r = 0 then Some (0, Some m', s') else Some (a, Some m', s'))"
    unfolding vm_map_allocate_def Let_def a_def using assms(2) by simp
  show ?thesis
  proof (cases rule: region_correct [OF assms(1) b(3) r, of fl])
    case 1
    then show ?thesis using no by (simp add: len2)
  next
    case 2
    then show ?thesis using run by simp
  next
    case (3 x s' m')
    then show ?thesis using run a0 no first ge by (auto simp: len2)
  qed
qed


theorem vm_map_allocate_first_fit_witness:
  "vm_wf 0 {} vm_sample (areas map_sample)
   \<and> (\<exists>a m' s'. vm_map_allocate vm_sample (Some map_sample) 0x1800 MMU_FLAG_WRITE = Some (a, Some m', s'))"
proof -
  have w: "vm_wf 0 {} vm_sample (areas map_sample)" using vm_sample_wf by (simp add: map_sample_def)
  have "(0x1800 :: u64) \<noteq> 0" "unat (0x1800 :: u64) + 12288 < 2 ^ 64"
    "\<forall>v\<in>set (areas map_sample). unat (va_end v) + unat (0x1800 :: u64) + 8192 < 2 ^ 64"
    by (simp_all add: map_sample_def)
  from vm_map_allocate_first_fit [OF w this, of MMU_FLAG_WRITE] show ?thesis using w by blast
qed

text \<open>
  C36: the areas of a user task are not sorted, and that defeats the search: right after
  \<open>ktask_execve\<close> has installed the code and stack areas, every request for up to 8 KiB is refused,
  although the first address above the stack would have served it.
\<close>

theorem vm_map_allocate_after_execve:
  assumes "areas m = map_user_vm_area_code_and_stack code stack []"
    and "sz \<noteq> 0" and "unat sz \<le> 0x2000"
  shows "vm_map_allocate s (Some m) sz fl = Some (0, Some m, s)
    \<and> \<not> vma_overlaps (areas m) 0x5000 (ALIGN_UP sz PAGE_SIZE)"
proof -
  have u: "unat (ALIGN_UP sz PAGE_SIZE) = 4096 * ((unat sz + 4095) div 4096)"
    using assms(3) by (intro unat_ALIGN_UP_page) simp
  have "unat sz \<noteq> 0" using assms(2) by (simp add: unat_eq_zero)
  then have "(unat sz + 4095) div 4096 = 1 \<or> (unat sz + 4095) div 4096 = 2"
    using assms(3) by (auto simp: div_nat_eqI)
  then have "unat (ALIGN_UP sz PAGE_SIZE) = unat (0x1000 :: u64) \<or> unat (ALIGN_UP sz PAGE_SIZE) = unat (0x2000 :: u64)"
    unfolding u by auto
  then have l: "ALIGN_UP sz PAGE_SIZE = 0x1000 \<or> ALIGN_UP sz PAGE_SIZE = 0x2000"
    by (simp only: word_unat_eq_iff)
  have i: "ALIGN_UP 0x1000 PAGE_SIZE = 0x1000" "ALIGN_UP 0x2000 PAGE_SIZE = 0x2000"
    by (simp_all add: ALIGN_UP_def PAGE_SIZE_def)
  show ?thesis using l assms(1,2)
    by (auto simp: vm_map_allocate_def vm_map_allocate_region_def map_user_vm_area_code_and_stack_def
        Let_def VM_ALLOC_BASE_def i i [unfolded PAGE_SIZE_def] PAGE_SIZE_def)
qed

theorem vm_map_allocate_after_execve_witness:
  "vm_map_allocate k_sample (Some (map_sample\<lparr>areas := map_user_vm_area_code_and_stack 0x100 0x200 []\<rparr>)) 4096 0
    = Some (0, Some (map_sample\<lparr>areas := map_user_vm_area_code_and_stack 0x100 0x200 []\<rparr>), k_sample)"
proof -
  let ?m = "map_sample\<lparr>areas := map_user_vm_area_code_and_stack 0x100 0x200 []\<rparr>"
  have "areas ?m = map_user_vm_area_code_and_stack 0x100 0x200 []" "(4096 :: u64) \<noteq> 0" "unat (4096 :: u64) \<le> 0x2000"
    by simp_all
  from vm_map_allocate_after_execve [OF this] show ?thesis by blast
qed




lemma pt_sample_walk: "walk pt_sample 4 root va = None"
  by (simp add: walk_step child_def read_entry_def pt_sample_def k_sample_def Let_def eval_nat_numeral)




text \<open>
  A fault at an address outside every area is not resolved: the kernel halts on its own faults
  and ends the task on a user fault, with the memory state unchanged.
\<close>

theorem vm_fault_outside:
  assumes "vm_map_lookup (areas m) addr = None"
  shows "vm_fault_handler s m addr err =
    Some (if err AND 0x4 = 0 then Halted else Running (Segfault_task_exit, s))"
  using assms by (simp add: vm_fault_handler_def segfault_def)

theorem vm_fault_outside_witness:
  "vm_map_lookup (areas map_sample) 0x1234 = None \<and> vm_fault_handler k_sample map_sample 0x1234 0x0 = Some Halted"
  using vm_fault_outside [of map_sample "0x1234" k_sample 0] by (simp add: map_sample_def)

end
