(* ===== verification/Rbtree.thy ===== *)
theory Rbtree
  imports Prelude
begin

text \<open>
  The red-black tree: \<^verbatim>\<open>src/kernel/kernel/lib/rbtree.c\<close>, \<^verbatim>\<open>include/rbtree.h\<close> and
  \<^verbatim>\<open>include/rbtree_augmented.h\<close>, at the level of pointers. The nodes live in a partial map from
  addresses to nodes; reading or writing a pointer outside it (the null pointer in particular) is
  undefined and makes the operation \<open>None\<close>. Nodes carry colour and parent in one word. Loops that
  follow pointers are partial functions, so \<open>None\<close> also covers "does not return". The state is
  extensible, so that the cached tree and the run queue extend it by their fields.
\<close>

record rb_node =
  rb_parent_color :: u64
  rb_right :: u64
  rb_left :: u64

record rb_tree =
  rb_nodes :: "u64 \<rightharpoonup> rb_node"
  rb_root :: u64

record rb_cached = rb_tree +
  rb_leftmost :: u64

definition RB_RED :: u64 where "RB_RED = 0"
definition RB_BLACK :: u64 where "RB_BLACK = 1"

definition upd_node :: "u64 \<Rightarrow> (rb_node \<Rightarrow> rb_node) \<Rightarrow> 'z rb_tree_scheme \<Rightarrow> 'z rb_tree_scheme option" where
  "upd_node p f t =
     do { n \<leftarrow> rb_nodes t p; Some (t\<lparr>rb_nodes := (rb_nodes t)(p \<mapsto> f n)\<rparr>) }"

definition get_left :: "'z rb_tree_scheme \<Rightarrow> u64 \<Rightarrow> u64 option" where
  "get_left t p = do { n \<leftarrow> rb_nodes t p; Some (rb_left n) }"

definition get_right :: "'z rb_tree_scheme \<Rightarrow> u64 \<Rightarrow> u64 option" where
  "get_right t p = do { n \<leftarrow> rb_nodes t p; Some (rb_right n) }"

definition get_pc :: "'z rb_tree_scheme \<Rightarrow> u64 \<Rightarrow> u64 option" where
  "get_pc t p = do { n \<leftarrow> rb_nodes t p; Some (rb_parent_color n) }"

definition set_left :: "u64 \<Rightarrow> u64 \<Rightarrow> 'z rb_tree_scheme \<Rightarrow> 'z rb_tree_scheme option" where
  "set_left p v = upd_node p (\<lambda>n. n\<lparr>rb_left := v\<rparr>)"

definition set_right :: "u64 \<Rightarrow> u64 \<Rightarrow> 'z rb_tree_scheme \<Rightarrow> 'z rb_tree_scheme option" where
  "set_right p v = upd_node p (\<lambda>n. n\<lparr>rb_right := v\<rparr>)"

definition set_pc :: "u64 \<Rightarrow> u64 \<Rightarrow> 'z rb_tree_scheme \<Rightarrow> 'z rb_tree_scheme option" where
  "set_pc p v = upd_node p (\<lambda>n. n\<lparr>rb_parent_color := v\<rparr>)"

definition pc_parent :: "u64 \<Rightarrow> u64" where "pc_parent pc = pc AND NOT 3"
definition pc_is_black :: "u64 \<Rightarrow> bool" where "pc_is_black pc \<longleftrightarrow> pc AND 1 \<noteq> 0"

definition rb_parent :: "'z rb_tree_scheme \<Rightarrow> u64 \<Rightarrow> u64 option" where
  "rb_parent t p = do { pc \<leftarrow> get_pc t p; Some (pc_parent pc) }"

definition rb_is_black :: "'z rb_tree_scheme \<Rightarrow> u64 \<Rightarrow> bool option" where
  "rb_is_black t p = do { pc \<leftarrow> get_pc t p; Some (pc_is_black pc) }"

definition rb_is_red :: "'z rb_tree_scheme \<Rightarrow> u64 \<Rightarrow> bool option" where
  "rb_is_red t p = do { pc \<leftarrow> get_pc t p; Some (\<not> pc_is_black pc) }"

definition rb_set_black :: "u64 \<Rightarrow> 'z rb_tree_scheme \<Rightarrow> 'z rb_tree_scheme option" where
  "rb_set_black p = upd_node p (\<lambda>n. n\<lparr>rb_parent_color := rb_parent_color n + RB_BLACK\<rparr>)"

definition rb_red_parent :: "'z rb_tree_scheme \<Rightarrow> u64 \<Rightarrow> u64 option" where
  "rb_red_parent t red = get_pc t red"

definition rb_set_parent :: "u64 \<Rightarrow> u64 \<Rightarrow> 'z rb_tree_scheme \<Rightarrow> 'z rb_tree_scheme option" where
  "rb_set_parent rb p = upd_node rb (\<lambda>n. n\<lparr>rb_parent_color := (rb_parent_color n AND 1) + p\<rparr>)"

definition rb_set_parent_color :: "u64 \<Rightarrow> u64 \<Rightarrow> u64 \<Rightarrow> 'z rb_tree_scheme \<Rightarrow> 'z rb_tree_scheme option" where
  "rb_set_parent_color rb p color = set_pc rb (p + color)"

definition RB_EMPTY_NODE :: "'z rb_tree_scheme \<Rightarrow> u64 \<Rightarrow> bool option" where
  "RB_EMPTY_NODE t p = do { pc \<leftarrow> get_pc t p; Some (pc = p) }"

definition RB_CLEAR_NODE :: "u64 \<Rightarrow> 'z rb_tree_scheme \<Rightarrow> 'z rb_tree_scheme option" where
  "RB_CLEAR_NODE p = set_pc p p"

definition rb_change_child :: "u64 \<Rightarrow> u64 \<Rightarrow> u64 \<Rightarrow> 'z rb_tree_scheme \<Rightarrow> 'z rb_tree_scheme option" where
  "rb_change_child old new parent t =
     (if parent \<noteq> 0 then
        do {
          l \<leftarrow> get_left t parent;
          if l = old then set_left parent new t else set_right parent new t
        }
      else Some (t\<lparr>rb_root := new\<rparr>))"

definition rb_rotate_set_parents :: "u64 \<Rightarrow> u64 \<Rightarrow> u64 \<Rightarrow> 'z rb_tree_scheme \<Rightarrow> 'z rb_tree_scheme option" where
  "rb_rotate_set_parents old new color t =
     do {
       parent \<leftarrow> rb_parent t old;
       pc \<leftarrow> get_pc t old;
       t \<leftarrow> set_pc new pc t;
       t \<leftarrow> rb_set_parent_color old new color t;
       rb_change_child old new parent t
     }"

text \<open>A child that may be null gets a new parent and colour only when it is there.\<close>

definition adopt :: "u64 \<Rightarrow> u64 \<Rightarrow> u64 \<Rightarrow> 'z rb_tree_scheme \<Rightarrow> 'z rb_tree_scheme option" where
  "adopt tmp p color t = (if tmp \<noteq> 0 then rb_set_parent_color tmp p color t else Some t)"

section \<open>Insertion\<close>

text \<open>
  Cases 2 and 3 of the insertion, with the callback \<open>rot\<close> that augmented trees pass in; the two
  definitions are the two mirrored halves of the loop body.
\<close>

definition insert_rotate_left ::
  "(u64 \<Rightarrow> u64 \<Rightarrow> 'z rb_tree_scheme \<Rightarrow> 'z rb_tree_scheme option)
     \<Rightarrow> u64 \<Rightarrow> u64 \<Rightarrow> u64 \<Rightarrow> 'z rb_tree_scheme \<Rightarrow> 'z rb_tree_scheme option" where
  "insert_rotate_left rot node parent gparent t =
     do {
       tmp \<leftarrow> get_right t parent;
       (parent, tmp, t) \<leftarrow>
         (if node = tmp then
            do {
              tmp \<leftarrow> get_left t node;
              t \<leftarrow> set_right parent tmp t;
              t \<leftarrow> set_left node parent t;
              t \<leftarrow> adopt tmp parent RB_BLACK t;
              t \<leftarrow> rb_set_parent_color parent node RB_RED t;
              t \<leftarrow> rot parent node t;
              tmp \<leftarrow> get_right t node;
              Some (node, tmp, t)
            }
          else Some (parent, tmp, t));
       t \<leftarrow> set_left gparent tmp t;
       t \<leftarrow> set_right parent gparent t;
       t \<leftarrow> adopt tmp gparent RB_BLACK t;
       t \<leftarrow> rb_rotate_set_parents gparent parent RB_RED t;
       rot gparent parent t
     }"

definition insert_rotate_right ::
  "(u64 \<Rightarrow> u64 \<Rightarrow> 'z rb_tree_scheme \<Rightarrow> 'z rb_tree_scheme option)
     \<Rightarrow> u64 \<Rightarrow> u64 \<Rightarrow> u64 \<Rightarrow> 'z rb_tree_scheme \<Rightarrow> 'z rb_tree_scheme option" where
  "insert_rotate_right rot node parent gparent t =
     do {
       tmp \<leftarrow> get_left t parent;
       (parent, tmp, t) \<leftarrow>
         (if node = tmp then
            do {
              tmp \<leftarrow> get_right t node;
              t \<leftarrow> set_left parent tmp t;
              t \<leftarrow> set_right node parent t;
              t \<leftarrow> adopt tmp parent RB_BLACK t;
              t \<leftarrow> rb_set_parent_color parent node RB_RED t;
              t \<leftarrow> rot parent node t;
              tmp \<leftarrow> get_left t node;
              Some (node, tmp, t)
            }
          else Some (parent, tmp, t));
       t \<leftarrow> set_right gparent tmp t;
       t \<leftarrow> set_left parent gparent t;
       t \<leftarrow> adopt tmp gparent RB_BLACK t;
       t \<leftarrow> rb_rotate_set_parents gparent parent RB_RED t;
       rot gparent parent t
     }"

text \<open>Case 1, the colour flip; it returns the node and the parent the loop goes on with.\<close>

definition insert_flip ::
  "u64 \<Rightarrow> u64 \<Rightarrow> u64 \<Rightarrow> 'z rb_tree_scheme \<Rightarrow> (u64 \<times> u64 \<times> 'z rb_tree_scheme) option" where
  "insert_flip tmp parent gparent t =
     do {
       t \<leftarrow> rb_set_parent_color tmp gparent RB_BLACK t;
       t \<leftarrow> rb_set_parent_color parent gparent RB_BLACK t;
       p \<leftarrow> rb_parent t gparent;
       t \<leftarrow> rb_set_parent_color gparent p RB_RED t;
       Some (gparent, p, t)
     }"

definition red_child :: "'z rb_tree_scheme \<Rightarrow> u64 \<Rightarrow> bool option" where
  "red_child t tmp = (if tmp \<noteq> 0 then rb_is_red t tmp else Some False)"

partial_function (option) rb_insert_loop ::
  "(u64 \<Rightarrow> u64 \<Rightarrow> 'z rb_tree_scheme \<Rightarrow> 'z rb_tree_scheme option)
     \<Rightarrow> u64 \<Rightarrow> u64 \<Rightarrow> 'z rb_tree_scheme \<Rightarrow> 'z rb_tree_scheme option" where
  "rb_insert_loop rot node parent t =
     (if parent = 0 then rb_set_parent_color node 0 RB_BLACK t
      else do {
        black \<leftarrow> rb_is_black t parent;
        if black then Some t
        else do {
          gparent \<leftarrow> rb_red_parent t parent;
          tmp \<leftarrow> get_right t gparent;
          if parent \<noteq> tmp then
            do {
              red \<leftarrow> red_child t tmp;
              if red then
                do {
                  (node, parent, t) \<leftarrow> insert_flip tmp parent gparent t;
                  rb_insert_loop rot node parent t
                }
              else insert_rotate_left rot node parent gparent t
            }
          else
            do {
              tmp \<leftarrow> get_left t gparent;
              red \<leftarrow> red_child t tmp;
              if red then
                do {
                  (node, parent, t) \<leftarrow> insert_flip tmp parent gparent t;
                  rb_insert_loop rot node parent t
                }
              else insert_rotate_right rot node parent gparent t
            }
        }
      })"

definition rb_insert ::
  "(u64 \<Rightarrow> u64 \<Rightarrow> 'z rb_tree_scheme \<Rightarrow> 'z rb_tree_scheme option)
     \<Rightarrow> u64 \<Rightarrow> 'z rb_tree_scheme \<Rightarrow> 'z rb_tree_scheme option" where
  "rb_insert rot node t =
     do { parent \<leftarrow> rb_red_parent t node; rb_insert_loop rot node parent t }"

definition dummy_rotate :: "u64 \<Rightarrow> u64 \<Rightarrow> 'z rb_tree_scheme \<Rightarrow> 'z rb_tree_scheme option" where
  "dummy_rotate old new t = Some t"

definition rb_insert_color :: "u64 \<Rightarrow> 'z rb_tree_scheme \<Rightarrow> 'z rb_tree_scheme option" where
  "rb_insert_color node t = rb_insert dummy_rotate node t"

section \<open>Erasure\<close>

text \<open>The walk to the successor (\<open>do ... while\<close>): it returns the successor and its parent.\<close>

partial_function (option) successor_loop ::
  "'z rb_tree_scheme \<Rightarrow> u64 \<Rightarrow> u64 \<Rightarrow> (u64 \<times> u64) option" where
  "successor_loop t successor tmp =
     do {
       tmp' \<leftarrow> get_left t tmp;
       if tmp' \<noteq> 0 then successor_loop t tmp tmp' else Some (successor, tmp)
     }"

definition erase_one_child ::
  "u64 \<Rightarrow> u64 \<Rightarrow> 'z rb_tree_scheme \<Rightarrow> (u64 \<times> u64 \<times> 'z rb_tree_scheme) option" where
  "erase_one_child node child t =
     do {
       pc \<leftarrow> get_pc t node;
       let parent = pc_parent pc;
       t \<leftarrow> rb_change_child node child parent t;
       if child \<noteq> 0 then do { t \<leftarrow> set_pc child pc t; Some (0, parent, t) }
       else Some (if pc_is_black pc then parent else 0, parent, t)
     }"

definition erase_left_child ::
  "u64 \<Rightarrow> u64 \<Rightarrow> 'z rb_tree_scheme \<Rightarrow> (u64 \<times> u64 \<times> 'z rb_tree_scheme) option" where
  "erase_left_child node tmp t =
     do {
       pc \<leftarrow> get_pc t node;
       t \<leftarrow> set_pc tmp pc t;
       let parent = pc_parent pc;
       t \<leftarrow> rb_change_child node tmp parent t;
       Some (0, parent, t)
     }"

text \<open>
  Finding and unlinking the successor of a node with two children; the result is the successor,
  its parent at that point and its former right child.
\<close>

definition erase_successor ::
  "(u64 \<Rightarrow> u64 \<Rightarrow> 'z rb_tree_scheme \<Rightarrow> 'z rb_tree_scheme option)
     \<Rightarrow> (u64 \<Rightarrow> u64 \<Rightarrow> 'z rb_tree_scheme \<Rightarrow> 'z rb_tree_scheme option)
     \<Rightarrow> u64 \<Rightarrow> u64 \<Rightarrow> 'z rb_tree_scheme \<Rightarrow> (u64 \<times> u64 \<times> u64 \<times> 'z rb_tree_scheme) option" where
  "erase_successor propagate copy node child t =
     do {
       tmp \<leftarrow> get_left t child;
       if tmp = 0 then
         do {
           child2 \<leftarrow> get_right t child;
           t \<leftarrow> copy node child t;
           Some (child, child, child2, t)
         }
       else
         do {
           (parent, successor) \<leftarrow> successor_loop t child tmp;
           child2 \<leftarrow> get_right t successor;
           t \<leftarrow> set_left parent child2 t;
           t \<leftarrow> set_right successor child t;
           t \<leftarrow> rb_set_parent child successor t;
           t \<leftarrow> copy node successor t;
           t \<leftarrow> propagate parent successor t;
           Some (successor, parent, child2, t)
         }
     }"

definition erase_two_children ::
  "(u64 \<Rightarrow> u64 \<Rightarrow> 'z rb_tree_scheme \<Rightarrow> 'z rb_tree_scheme option)
     \<Rightarrow> (u64 \<Rightarrow> u64 \<Rightarrow> 'z rb_tree_scheme \<Rightarrow> 'z rb_tree_scheme option)
     \<Rightarrow> u64 \<Rightarrow> u64 \<Rightarrow> 'z rb_tree_scheme \<Rightarrow> (u64 \<times> u64 \<times> 'z rb_tree_scheme) option" where
  "erase_two_children propagate copy node child t =
     do {
       (successor, parent, child2, t) \<leftarrow> erase_successor propagate copy node child t;
       tmp \<leftarrow> get_left t node;
       t \<leftarrow> set_left successor tmp t;
       t \<leftarrow> rb_set_parent tmp successor t;
       pc \<leftarrow> get_pc t node;
       t \<leftarrow> rb_change_child node successor (pc_parent pc) t;
       (rebalance, t) \<leftarrow>
         (if child2 \<noteq> 0 then
            do { t \<leftarrow> rb_set_parent_color child2 parent RB_BLACK t; Some (0, t) }
          else
            do { b \<leftarrow> rb_is_black t successor; Some (if b then parent else 0, t) });
       t \<leftarrow> set_pc successor pc t;
       Some (rebalance, successor, t)
     }"

definition rb_erase_augmented ::
  "(u64 \<Rightarrow> u64 \<Rightarrow> 'z rb_tree_scheme \<Rightarrow> 'z rb_tree_scheme option)
     \<Rightarrow> (u64 \<Rightarrow> u64 \<Rightarrow> 'z rb_tree_scheme \<Rightarrow> 'z rb_tree_scheme option)
     \<Rightarrow> u64 \<Rightarrow> 'z rb_tree_scheme \<Rightarrow> (u64 \<times> 'z rb_tree_scheme) option" where
  "rb_erase_augmented propagate copy node t =
     do {
       child \<leftarrow> get_right t node;
       tmp \<leftarrow> get_left t node;
       (rebalance, tmp, t) \<leftarrow>
         (if tmp = 0 then erase_one_child node child t
          else if child = 0 then erase_left_child node tmp t
          else erase_two_children propagate copy node child t);
       t \<leftarrow> propagate tmp 0 t;
       Some (rebalance, t)
     }"

text \<open>
  The cases of the colour repair after an erasure, each in its two mirrored forms: the rotation
  when the sibling is red, and the rotations of cases 3 and 4.
\<close>

definition erase_case1_left ::
  "(u64 \<Rightarrow> u64 \<Rightarrow> 'z rb_tree_scheme \<Rightarrow> 'z rb_tree_scheme option)
     \<Rightarrow> u64 \<Rightarrow> u64 \<Rightarrow> 'z rb_tree_scheme \<Rightarrow> (u64 \<times> 'z rb_tree_scheme) option" where
  "erase_case1_left rot parent sibling t =
     do {
       red \<leftarrow> rb_is_red t sibling;
       if red then
         do {
           tmp1 \<leftarrow> get_left t sibling;
           t \<leftarrow> set_right parent tmp1 t;
           t \<leftarrow> set_left sibling parent t;
           t \<leftarrow> rb_set_parent_color tmp1 parent RB_BLACK t;
           t \<leftarrow> rb_rotate_set_parents parent sibling RB_RED t;
           t \<leftarrow> rot parent sibling t;
           Some (tmp1, t)
         }
       else Some (sibling, t)
     }"

definition erase_case1_right ::
  "(u64 \<Rightarrow> u64 \<Rightarrow> 'z rb_tree_scheme \<Rightarrow> 'z rb_tree_scheme option)
     \<Rightarrow> u64 \<Rightarrow> u64 \<Rightarrow> 'z rb_tree_scheme \<Rightarrow> (u64 \<times> 'z rb_tree_scheme) option" where
  "erase_case1_right rot parent sibling t =
     do {
       red \<leftarrow> rb_is_red t sibling;
       if red then
         do {
           tmp1 \<leftarrow> get_right t sibling;
           t \<leftarrow> set_left parent tmp1 t;
           t \<leftarrow> set_right sibling parent t;
           t \<leftarrow> rb_set_parent_color tmp1 parent RB_BLACK t;
           t \<leftarrow> rb_rotate_set_parents parent sibling RB_RED t;
           t \<leftarrow> rot parent sibling t;
           Some (tmp1, t)
         }
       else Some (sibling, t)
     }"

definition black_child :: "'z rb_tree_scheme \<Rightarrow> u64 \<Rightarrow> bool option" where
  "black_child t tmp = (if tmp = 0 then Some True else rb_is_black t tmp)"

text \<open>Case 3: it returns the new sibling and its outer child.\<close>

definition erase_case3_left ::
  "(u64 \<Rightarrow> u64 \<Rightarrow> 'z rb_tree_scheme \<Rightarrow> 'z rb_tree_scheme option)
     \<Rightarrow> u64 \<Rightarrow> u64 \<Rightarrow> u64 \<Rightarrow> 'z rb_tree_scheme \<Rightarrow> (u64 \<times> u64 \<times> 'z rb_tree_scheme) option" where
  "erase_case3_left rot parent sibling tmp2 t =
     do {
       tmp1 \<leftarrow> get_right t tmp2;
       t \<leftarrow> set_left sibling tmp1 t;
       t \<leftarrow> set_right tmp2 sibling t;
       t \<leftarrow> set_right parent tmp2 t;
       t \<leftarrow> adopt tmp1 sibling RB_BLACK t;
       t \<leftarrow> rot sibling tmp2 t;
       Some (tmp2, sibling, t)
     }"

definition erase_case3_right ::
  "(u64 \<Rightarrow> u64 \<Rightarrow> 'z rb_tree_scheme \<Rightarrow> 'z rb_tree_scheme option)
     \<Rightarrow> u64 \<Rightarrow> u64 \<Rightarrow> u64 \<Rightarrow> 'z rb_tree_scheme \<Rightarrow> (u64 \<times> u64 \<times> 'z rb_tree_scheme) option" where
  "erase_case3_right rot parent sibling tmp2 t =
     do {
       tmp1 \<leftarrow> get_left t tmp2;
       t \<leftarrow> set_right sibling tmp1 t;
       t \<leftarrow> set_left tmp2 sibling t;
       t \<leftarrow> set_left parent tmp2 t;
       t \<leftarrow> adopt tmp1 sibling RB_BLACK t;
       t \<leftarrow> rot sibling tmp2 t;
       Some (tmp2, sibling, t)
     }"

definition erase_case4_left ::
  "(u64 \<Rightarrow> u64 \<Rightarrow> 'z rb_tree_scheme \<Rightarrow> 'z rb_tree_scheme option)
     \<Rightarrow> u64 \<Rightarrow> u64 \<Rightarrow> u64 \<Rightarrow> 'z rb_tree_scheme \<Rightarrow> 'z rb_tree_scheme option" where
  "erase_case4_left rot parent sibling tmp1 t =
     do {
       tmp2 \<leftarrow> get_left t sibling;
       t \<leftarrow> set_right parent tmp2 t;
       t \<leftarrow> set_left sibling parent t;
       t \<leftarrow> rb_set_parent_color tmp1 sibling RB_BLACK t;
       t \<leftarrow> (if tmp2 \<noteq> 0 then rb_set_parent tmp2 parent t else Some t);
       t \<leftarrow> rb_rotate_set_parents parent sibling RB_BLACK t;
       rot parent sibling t
     }"

definition erase_case4_right ::
  "(u64 \<Rightarrow> u64 \<Rightarrow> 'z rb_tree_scheme \<Rightarrow> 'z rb_tree_scheme option)
     \<Rightarrow> u64 \<Rightarrow> u64 \<Rightarrow> u64 \<Rightarrow> 'z rb_tree_scheme \<Rightarrow> 'z rb_tree_scheme option" where
  "erase_case4_right rot parent sibling tmp1 t =
     do {
       tmp2 \<leftarrow> get_right t sibling;
       t \<leftarrow> set_left parent tmp2 t;
       t \<leftarrow> set_right sibling parent t;
       t \<leftarrow> rb_set_parent_color tmp1 sibling RB_BLACK t;
       t \<leftarrow> (if tmp2 \<noteq> 0 then rb_set_parent tmp2 parent t else Some t);
       t \<leftarrow> rb_rotate_set_parents parent sibling RB_BLACK t;
       rot parent sibling t
     }"

text \<open>
  The rest of the loop body after case 1. The result is the parent to go on with, one level up, and
  0 when the loop ends.
\<close>

definition erase_cases_left ::
  "(u64 \<Rightarrow> u64 \<Rightarrow> 'z rb_tree_scheme \<Rightarrow> 'z rb_tree_scheme option)
     \<Rightarrow> u64 \<Rightarrow> u64 \<Rightarrow> 'z rb_tree_scheme \<Rightarrow> (u64 \<times> 'z rb_tree_scheme) option" where
  "erase_cases_left rot parent sibling t =
     do {
       tmp1 \<leftarrow> get_right t sibling;
       black1 \<leftarrow> black_child t tmp1;
       if black1 then
         do {
           tmp2 \<leftarrow> get_left t sibling;
           black2 \<leftarrow> black_child t tmp2;
           if black2 then
             do {
               t \<leftarrow> rb_set_parent_color sibling parent RB_RED t;
               red \<leftarrow> rb_is_red t parent;
               if red then do { t \<leftarrow> rb_set_black parent t; Some (0, t) }
               else do { up \<leftarrow> rb_parent t parent; Some (up, t) }
             }
           else
             do {
               (sibling, tmp1, t) \<leftarrow> erase_case3_left rot parent sibling tmp2 t;
               t \<leftarrow> erase_case4_left rot parent sibling tmp1 t;
               Some (0, t)
             }
         }
       else do { t \<leftarrow> erase_case4_left rot parent sibling tmp1 t; Some (0, t) }
     }"

definition erase_cases_right ::
  "(u64 \<Rightarrow> u64 \<Rightarrow> 'z rb_tree_scheme \<Rightarrow> 'z rb_tree_scheme option)
     \<Rightarrow> u64 \<Rightarrow> u64 \<Rightarrow> 'z rb_tree_scheme \<Rightarrow> (u64 \<times> 'z rb_tree_scheme) option" where
  "erase_cases_right rot parent sibling t =
     do {
       tmp1 \<leftarrow> get_left t sibling;
       black1 \<leftarrow> black_child t tmp1;
       if black1 then
         do {
           tmp2 \<leftarrow> get_right t sibling;
           black2 \<leftarrow> black_child t tmp2;
           if black2 then
             do {
               t \<leftarrow> rb_set_parent_color sibling parent RB_RED t;
               red \<leftarrow> rb_is_red t parent;
               if red then do { t \<leftarrow> rb_set_black parent t; Some (0, t) }
               else do { up \<leftarrow> rb_parent t parent; Some (up, t) }
             }
           else
             do {
               (sibling, tmp1, t) \<leftarrow> erase_case3_right rot parent sibling tmp2 t;
               t \<leftarrow> erase_case4_right rot parent sibling tmp1 t;
               Some (0, t)
             }
         }
       else do { t \<leftarrow> erase_case4_right rot parent sibling tmp1 t; Some (0, t) }
     }"

partial_function (option) rb_erase_color_loop ::
  "(u64 \<Rightarrow> u64 \<Rightarrow> 'z rb_tree_scheme \<Rightarrow> 'z rb_tree_scheme option)
     \<Rightarrow> u64 \<Rightarrow> u64 \<Rightarrow> 'z rb_tree_scheme \<Rightarrow> 'z rb_tree_scheme option" where
  "rb_erase_color_loop rot node parent t =
     do {
       sibling \<leftarrow> get_right t parent;
       (up, t) \<leftarrow>
         (if node \<noteq> sibling then
            do {
              (sibling, t) \<leftarrow> erase_case1_left rot parent sibling t;
              erase_cases_left rot parent sibling t
            }
          else
            do {
              sibling \<leftarrow> get_left t parent;
              (sibling, t) \<leftarrow> erase_case1_right rot parent sibling t;
              erase_cases_right rot parent sibling t
            });
       if up \<noteq> 0 then rb_erase_color_loop rot parent up t else Some t
     }"

definition dummy_propagate :: "u64 \<Rightarrow> u64 \<Rightarrow> 'z rb_tree_scheme \<Rightarrow> 'z rb_tree_scheme option" where
  "dummy_propagate node stop t = Some t"

definition dummy_copy :: "u64 \<Rightarrow> u64 \<Rightarrow> 'z rb_tree_scheme \<Rightarrow> 'z rb_tree_scheme option" where
  "dummy_copy old new t = Some t"

definition rb_erase :: "u64 \<Rightarrow> 'z rb_tree_scheme \<Rightarrow> 'z rb_tree_scheme option" where
  "rb_erase node t =
     do {
       (rebalance, t) \<leftarrow> rb_erase_augmented dummy_propagate dummy_copy node t;
       if rebalance \<noteq> 0 then rb_erase_color_loop dummy_rotate 0 rebalance t else Some t
     }"

section \<open>Traversal\<close>

partial_function (option) leftmost_loop :: "'z rb_tree_scheme \<Rightarrow> u64 \<Rightarrow> u64 option" where
  "leftmost_loop t n =
     do { l \<leftarrow> get_left t n; if l \<noteq> 0 then leftmost_loop t l else Some n }"

partial_function (option) rightmost_loop :: "'z rb_tree_scheme \<Rightarrow> u64 \<Rightarrow> u64 option" where
  "rightmost_loop t n =
     do { r \<leftarrow> get_right t n; if r \<noteq> 0 then rightmost_loop t r else Some n }"

definition rb_first :: "'z rb_tree_scheme \<Rightarrow> u64 option" where
  "rb_first t = (if rb_root t = 0 then Some 0 else leftmost_loop t (rb_root t))"

definition rb_last :: "'z rb_tree_scheme \<Rightarrow> u64 option" where
  "rb_last t = (if rb_root t = 0 then Some 0 else rightmost_loop t (rb_root t))"

partial_function (option) climb_right :: "'z rb_tree_scheme \<Rightarrow> u64 \<Rightarrow> u64 option" where
  "climb_right t node =
     do {
       parent \<leftarrow> rb_parent t node;
       if parent \<noteq> 0 then
         do { r \<leftarrow> get_right t parent; if node = r then climb_right t parent else Some parent }
       else Some parent
     }"

partial_function (option) climb_left :: "'z rb_tree_scheme \<Rightarrow> u64 \<Rightarrow> u64 option" where
  "climb_left t node =
     do {
       parent \<leftarrow> rb_parent t node;
       if parent \<noteq> 0 then
         do { l \<leftarrow> get_left t parent; if node = l then climb_left t parent else Some parent }
       else Some parent
     }"

definition rb_next :: "'z rb_tree_scheme \<Rightarrow> u64 \<Rightarrow> u64 option" where
  "rb_next t node =
     do {
       e \<leftarrow> RB_EMPTY_NODE t node;
       if e then Some 0
       else do {
         r \<leftarrow> get_right t node;
         if r \<noteq> 0 then leftmost_loop t r else climb_right t node
       }
     }"

definition rb_prev :: "'z rb_tree_scheme \<Rightarrow> u64 \<Rightarrow> u64 option" where
  "rb_prev t node =
     do {
       e \<leftarrow> RB_EMPTY_NODE t node;
       if e then Some 0
       else do {
         l \<leftarrow> get_left t node;
         if l \<noteq> 0 then rightmost_loop t l else climb_left t node
       }
     }"

definition rb_replace_node :: "u64 \<Rightarrow> u64 \<Rightarrow> 'z rb_tree_scheme \<Rightarrow> 'z rb_tree_scheme option" where
  "rb_replace_node victim new t =
     do {
       parent \<leftarrow> rb_parent t victim;
       v \<leftarrow> rb_nodes t victim;
       t \<leftarrow> upd_node new (\<lambda>_. v) t;
       l \<leftarrow> get_left t victim;
       t \<leftarrow> (if l \<noteq> 0 then rb_set_parent l new t else Some t);
       r \<leftarrow> get_right t victim;
       t \<leftarrow> (if r \<noteq> 0 then rb_set_parent r new t else Some t);
       rb_change_child victim new parent t
     }"

partial_function (option) rb_left_deepest_node :: "'z rb_tree_scheme \<Rightarrow> u64 \<Rightarrow> u64 option" where
  "rb_left_deepest_node t node =
     do {
       l \<leftarrow> get_left t node;
       if l \<noteq> 0 then rb_left_deepest_node t l
       else do {
         r \<leftarrow> get_right t node;
         if r \<noteq> 0 then rb_left_deepest_node t r else Some node
       }
     }"

definition rb_next_postorder :: "'z rb_tree_scheme \<Rightarrow> u64 \<Rightarrow> u64 option" where
  "rb_next_postorder t node =
     (if node = 0 then Some 0
      else do {
        parent \<leftarrow> rb_parent t node;
        if parent \<noteq> 0 then
          do {
            l \<leftarrow> get_left t parent;
            r \<leftarrow> get_right t parent;
            if node = l \<and> r \<noteq> 0 then rb_left_deepest_node t r else Some parent
          }
        else Some parent
      })"

definition rb_first_postorder :: "'z rb_tree_scheme \<Rightarrow> u64 option" where
  "rb_first_postorder t =
     (if rb_root t = 0 then Some 0 else rb_left_deepest_node t (rb_root t))"

section \<open>Searching and adding\<close>

text \<open>A \<open>struct rb_node **\<close> points to the root pointer or to a child field of a node.\<close>

datatype rb_link = Root_link | Left_link u64 | Right_link u64

fun read_link :: "'z rb_tree_scheme \<Rightarrow> rb_link \<Rightarrow> u64 option" where
  "read_link t Root_link = Some (rb_root t)"
| "read_link t (Left_link p) = get_left t p"
| "read_link t (Right_link p) = get_right t p"

fun write_link :: "rb_link \<Rightarrow> u64 \<Rightarrow> 'z rb_tree_scheme \<Rightarrow> 'z rb_tree_scheme option" where
  "write_link Root_link v t = Some (t\<lparr>rb_root := v\<rparr>)"
| "write_link (Left_link p) v t = set_left p v t"
| "write_link (Right_link p) v t = set_right p v t"

definition rb_link_node :: "u64 \<Rightarrow> u64 \<Rightarrow> rb_link \<Rightarrow> 'z rb_tree_scheme \<Rightarrow> 'z rb_tree_scheme option" where
  "rb_link_node node parent link t =
     do {
       t \<leftarrow> set_pc node parent t;
       t \<leftarrow> set_right node 0 t;
       t \<leftarrow> set_left node 0 t;
       write_link link node t
     }"

text \<open>
  The descent shared by the adding functions: from a link, \<open>go_left parent\<close> decides the side; the
  result is the last parent, the empty link and whether only left links were taken.
\<close>

partial_function (option) rb_descend ::
  "(u64 \<Rightarrow> bool) \<Rightarrow> 'z rb_tree_scheme \<Rightarrow> rb_link \<Rightarrow> u64 \<Rightarrow> bool \<Rightarrow> (u64 \<times> rb_link \<times> bool) option" where
  "rb_descend go_left t link parent leftmost =
     do {
       p \<leftarrow> read_link t link;
       if p \<noteq> 0 then
         (if go_left p then rb_descend go_left t (Left_link p) p leftmost
          else rb_descend go_left t (Right_link p) p False)
       else Some (parent, link, leftmost)
     }"

definition rb_insert_color_cached :: "u64 \<Rightarrow> bool \<Rightarrow> 'z rb_cached_scheme \<Rightarrow> 'z rb_cached_scheme option" where
  "rb_insert_color_cached node leftmost t =
     rb_insert_color node (if leftmost then t\<lparr>rb_leftmost := node\<rparr> else t)"

definition rb_erase_cached :: "u64 \<Rightarrow> 'z rb_cached_scheme \<Rightarrow> (u64 \<times> 'z rb_cached_scheme) option" where
  "rb_erase_cached node t =
     do {
       (leftmost, t) \<leftarrow>
         (if rb_leftmost t = node then
            do { n \<leftarrow> rb_next t node; Some (n, t\<lparr>rb_leftmost := n\<rparr>) }
          else Some (0, t));
       t \<leftarrow> rb_erase node t;
       Some (leftmost, t)
     }"

definition rb_replace_node_cached :: "u64 \<Rightarrow> u64 \<Rightarrow> 'z rb_cached_scheme \<Rightarrow> 'z rb_cached_scheme option" where
  "rb_replace_node_cached victim new t =
     rb_replace_node victim new (if rb_leftmost t = victim then t\<lparr>rb_leftmost := new\<rparr> else t)"

definition rb_add_cached ::
  "(u64 \<Rightarrow> u64 \<Rightarrow> bool) \<Rightarrow> u64 \<Rightarrow> 'z rb_cached_scheme \<Rightarrow> (u64 \<times> 'z rb_cached_scheme) option" where
  "rb_add_cached before node t =
     do {
       (parent, link, leftmost) \<leftarrow> rb_descend (before node) t Root_link 0 True;
       t \<leftarrow> rb_link_node node parent link t;
       t \<leftarrow> rb_insert_color_cached node leftmost t;
       Some (if leftmost then node else 0, t)
     }"

definition rb_add :: "(u64 \<Rightarrow> u64 \<Rightarrow> bool) \<Rightarrow> u64 \<Rightarrow> 'z rb_tree_scheme \<Rightarrow> 'z rb_tree_scheme option" where
  "rb_add before node t =
     do {
       (parent, link, _) \<leftarrow> rb_descend (before node) t Root_link 0 True;
       t \<leftarrow> rb_link_node node parent link t;
       rb_insert_color node t
     }"

text \<open>The search loops take the sign of the comparison as an \<open>int\<close>, as the C callbacks do.\<close>

partial_function (option) rb_find_loop :: "(u64 \<Rightarrow> int) \<Rightarrow> 'z rb_tree_scheme \<Rightarrow> u64 \<Rightarrow> u64 option" where
  "rb_find_loop compare t node =
     (if node = 0 then Some 0
      else if compare node < 0 then do { l \<leftarrow> get_left t node; rb_find_loop compare t l }
      else if compare node > 0 then do { r \<leftarrow> get_right t node; rb_find_loop compare t r }
      else Some node)"

definition rb_find :: "(u64 \<Rightarrow> int) \<Rightarrow> 'z rb_tree_scheme \<Rightarrow> u64 option" where
  "rb_find compare t = rb_find_loop compare t (rb_root t)"

partial_function (option) rb_find_first_loop ::
  "(u64 \<Rightarrow> int) \<Rightarrow> 'z rb_tree_scheme \<Rightarrow> u64 \<Rightarrow> u64 \<Rightarrow> u64 option" where
  "rb_find_first_loop compare t node match =
     (if node = 0 then Some match
      else if compare node \<le> 0 then
        do {
          l \<leftarrow> get_left t node;
          rb_find_first_loop compare t l (if compare node = 0 then node else match)
        }
      else do { r \<leftarrow> get_right t node; rb_find_first_loop compare t r match })"

definition rb_find_first :: "(u64 \<Rightarrow> int) \<Rightarrow> 'z rb_tree_scheme \<Rightarrow> u64 option" where
  "rb_find_first compare t = rb_find_first_loop compare t (rb_root t) 0"

definition rb_next_match :: "(u64 \<Rightarrow> int) \<Rightarrow> 'z rb_tree_scheme \<Rightarrow> u64 \<Rightarrow> u64 option" where
  "rb_next_match compare t node =
     do {
       n \<leftarrow> rb_next t node;
       Some (if n \<noteq> 0 \<and> compare n \<noteq> 0 then 0 else n)
     }"

text \<open>The descent of the find-or-add functions stops at an equivalent node.\<close>

datatype rb_slot = Existing u64 | Vacant u64 rb_link bool

partial_function (option) rb_find_slot ::
  "(u64 \<Rightarrow> int) \<Rightarrow> 'z rb_tree_scheme \<Rightarrow> rb_link \<Rightarrow> u64 \<Rightarrow> bool \<Rightarrow> rb_slot option" where
  "rb_find_slot compare t link parent leftmost =
     do {
       p \<leftarrow> read_link t link;
       if p \<noteq> 0 then
         (if compare p < 0 then rb_find_slot compare t (Left_link p) p leftmost
          else if compare p > 0 then rb_find_slot compare t (Right_link p) p False
          else Some (Existing p))
       else Some (Vacant parent link leftmost)
     }"

definition rb_find_add ::
  "(u64 \<Rightarrow> u64 \<Rightarrow> int) \<Rightarrow> u64 \<Rightarrow> 'z rb_tree_scheme \<Rightarrow> (u64 \<times> 'z rb_tree_scheme) option" where
  "rb_find_add compare node t =
     do {
       slot \<leftarrow> rb_find_slot (compare node) t Root_link 0 True;
       case slot of
         Existing p \<Rightarrow> Some (p, t)
       | Vacant parent link _ \<Rightarrow> do {
           t \<leftarrow> rb_link_node node parent link t;
           t \<leftarrow> rb_insert_color node t;
           Some (0, t)
         }
     }"

definition rb_find_add_cached ::
  "(u64 \<Rightarrow> u64 \<Rightarrow> int) \<Rightarrow> u64 \<Rightarrow> 'z rb_cached_scheme \<Rightarrow> (u64 \<times> 'z rb_cached_scheme) option" where
  "rb_find_add_cached compare node t =
     do {
       slot \<leftarrow> rb_find_slot (compare node) t Root_link 0 True;
       case slot of
         Existing p \<Rightarrow> Some (p, t)
       | Vacant parent link leftmost \<Rightarrow> do {
           t \<leftarrow> rb_link_node node parent link t;
           t \<leftarrow> rb_insert_color_cached node leftmost t;
           Some (0, t)
         }
     }"

end
