(* ===== verification/Rbtree_Rep.thy ===== *)
theory Rbtree_Rep
  imports Rbtree
begin

text \<open>
  What a pointer structure represents: a coloured binary tree of addresses. \<open>holds\<close> says that a
  tree stands at its addresses under a given parent, \<open>holds_ctx\<close> the same for the path from a
  focus up to the root (a zipper), and \<open>zip t k T\<close> that the whole state is the tree \<open>plug k T\<close>. The
  straight-line pieces of the code are then rewrites of the focused tree.
\<close>

datatype rb_color = Red | Black

datatype rtree = Leaf | Node rb_color rtree u64 rtree

fun cbit :: "rb_color \<Rightarrow> u64" where
  "cbit Red = 0"
| "cbit Black = 1"

fun ptr :: "rtree \<Rightarrow> u64" where
  "ptr Leaf = 0"
| "ptr (Node c l a r) = a"

fun addrs :: "rtree \<Rightarrow> u64 list" where
  "addrs Leaf = []"
| "addrs (Node c l a r) = addrs l @ a # addrs r"

fun col :: "rtree \<Rightarrow> rb_color" where
  "col Leaf = Black"
| "col (Node c l a r) = c"

fun paint :: "rb_color \<Rightarrow> rtree \<Rightarrow> rtree" where
  "paint c Leaf = Leaf"
| "paint c (Node d l a r) = Node c l a r"

definition ok_addr :: "u64 \<Rightarrow> bool" where
  "ok_addr a \<longleftrightarrow> a \<noteq> 0 \<and> a AND 3 = 0"

fun holds :: "(u64 \<rightharpoonup> rb_node) \<Rightarrow> u64 \<Rightarrow> rtree \<Rightarrow> bool" where
  "holds h p Leaf = True"
| "holds h p (Node c l a r) =
     (h a = Some \<lparr>rb_parent_color = p + cbit c, rb_right = ptr r, rb_left = ptr l\<rparr> \<and> ok_addr a
      \<and> holds h a l \<and> holds h a r)"

datatype frame = In_left rb_color u64 rtree | In_right rb_color rtree u64

fun plug :: "frame list \<Rightarrow> rtree \<Rightarrow> rtree" where
  "plug [] T = T"
| "plug (In_left c a r # k) T = plug k (Node c T a r)"
| "plug (In_right c l a # k) T = plug k (Node c l a T)"

fun up :: "frame list \<Rightarrow> u64" where
  "up [] = 0"
| "up (In_left c a r # k) = a"
| "up (In_right c l a # k) = a"

fun holds_ctx :: "(u64 \<rightharpoonup> rb_node) \<Rightarrow> frame list \<Rightarrow> u64 \<Rightarrow> bool" where
  "holds_ctx h [] x = True"
| "holds_ctx h (In_left c a r # k) x =
     (h a = Some \<lparr>rb_parent_color = up k + cbit c, rb_right = ptr r, rb_left = x\<rparr> \<and> ok_addr a
      \<and> holds h a r \<and> holds_ctx h k a)"
| "holds_ctx h (In_right c l a # k) x =
     (h a = Some \<lparr>rb_parent_color = up k + cbit c, rb_right = x, rb_left = ptr l\<rparr> \<and> ok_addr a
      \<and> holds h a l \<and> holds_ctx h k a)"

fun before :: "frame list \<Rightarrow> u64 list" where
  "before [] = []"
| "before (In_left c a r # k) = before k"
| "before (In_right c l a # k) = before k @ addrs l @ [a]"

fun after :: "frame list \<Rightarrow> u64 list" where
  "after [] = []"
| "after (In_left c a r # k) = a # addrs r @ after k"
| "after (In_right c l a # k) = after k"

fun top :: "frame list \<Rightarrow> u64 \<Rightarrow> u64" where
  "top [] x = x"
| "top (In_left c a r # k) x = top k a"
| "top (In_right c l a # k) x = top k a"

definition zip_at :: "'z rb_tree_scheme \<Rightarrow> frame list \<Rightarrow> rtree \<Rightarrow> bool" where
  "zip_at t k T \<longleftrightarrow> holds (rb_nodes t) (up k) T \<and> holds_ctx (rb_nodes t) k (ptr T)
     \<and> distinct (before k @ addrs T @ after k) \<and> rb_root t = top k (ptr T)"

definition rep :: "'z rb_tree_scheme \<Rightarrow> rtree \<Rightarrow> bool" where
  "rep t T \<longleftrightarrow> holds (rb_nodes t) 0 T \<and> distinct (addrs T) \<and> rb_root t = ptr T"

lemma addrs_plug: "addrs (plug k T) = before k @ addrs T @ after k"
  by (induction k T rule: plug.induct) auto

lemma ptr_plug: "ptr (plug k T) = top k (ptr T)"
  by (induction k T rule: plug.induct) auto

lemma holds_plug: "holds h 0 (plug k T) \<longleftrightarrow> holds h (up k) T \<and> holds_ctx h k (ptr T)"
  by (induction k T rule: plug.induct) auto

lemma rep_plug: "rep t (plug k T) \<longleftrightarrow> zip_at t k T"
  by (auto simp: rep_def zip_at_def holds_plug ptr_plug addrs_plug)

lemma zip_at_Nil: "zip_at t [] T \<longleftrightarrow> rep t T"
  using rep_plug [of t "[]" T] by simp

lemma zip_at_left: "zip_at t (In_left c a r # k) T \<longleftrightarrow> zip_at t k (Node c T a r)"
  using rep_plug [of t "In_left c a r # k" T] rep_plug [of t k "Node c T a r"] by simp

lemma zip_at_right: "zip_at t (In_right c l a # k) T \<longleftrightarrow> zip_at t k (Node c l a T)"
  using rep_plug [of t "In_right c l a # k" T] rep_plug [of t k "Node c l a T"] by simp

lemma ok_addr_nz [simp]: "ok_addr a \<Longrightarrow> a \<noteq> 0"
  by (simp add: ok_addr_def)

lemma ok_addr_aligned [simp]: "ok_addr a \<Longrightarrow> a AND 3 = 0"
  by (simp add: ok_addr_def del: ok_addr_nz)

lemma ptr_eq_0: "holds h p T \<Longrightarrow> (ptr T = 0) = (T = Leaf)"
  by (cases T) auto

lemma low_bits:
  assumes "p AND 3 = (0 :: u64)"
  shows "\<not> bit p 0" "\<not> bit p 1"
proof -
  have "bit (p AND mask 2) n = (bit p n \<and> n < 2)" for n by (auto simp: bit_simps)
  then have *: "bit (0 :: u64) n = (bit p n \<and> n < 2)" for n using assms by (simp add: mask_eq_exp_minus_1)
  show "\<not> bit p 0" "\<not> bit p 1" using * [of 0] * [of 1] by simp_all
qed

lemma bit_aligned: "p AND 3 = (0 :: u64) \<Longrightarrow> bit p n \<Longrightarrow> 2 \<le> n"
  using low_bits [of p] by (cases "n = 0"; cases "n = 1") auto

lemma pc_or: "p AND 3 = 0 \<Longrightarrow> p + cbit c = p OR cbit c"
  by (rule disjunctive_add_eq_or, rule bit_word_eqI) (cases c; auto simp: bit_simps bit_1_iff dest: bit_aligned)

lemma pc_parent [simp]: "p AND 3 = 0 \<Longrightarrow> pc_parent (p + cbit c) = p"
proof -
  assume p: "p AND 3 = 0"
  have "bit ((p OR cbit c) AND NOT (mask 2)) n = bit p n" if "n < 64" for n
    using bit_aligned [OF p, of n] that by (cases c) (auto simp: bit_simps bit_1_iff)
  then have "(p OR cbit c) AND NOT (mask 2) = p" by (intro bit_word_eqI) simp
  then show ?thesis by (simp add: pc_parent_def pc_or p mask_eq_exp_minus_1)
qed

lemma pc_colour [simp]: "p AND 3 = 0 \<Longrightarrow> (p + cbit c) AND 1 = cbit c"
proof -
  assume p: "p AND 3 = 0"
  show ?thesis unfolding pc_or [OF p]
    by (intro bit_word_eqI, cases c) (auto simp: bit_simps bit_1_iff dest: bit_aligned [OF p])
qed

lemma cbit_eq [simp]: "cbit c = 0 \<longleftrightarrow> c = Red" "cbit c = 1 \<longleftrightarrow> c = Black"
  by (cases c; simp)+

lemma pc_is_black [simp]: "p AND 3 = 0 \<Longrightarrow> pc_is_black (p + cbit c) \<longleftrightarrow> c = Black"
  unfolding pc_is_black_def by (subst pc_colour) (cases c; simp)+

lemma neq_Black [simp]: "c \<noteq> Black \<longleftrightarrow> c = Red" "c \<noteq> Red \<longleftrightarrow> c = Black"
  by (cases c, blast, blast)+

lemma up_aligned: "holds_ctx h k x \<Longrightarrow> up k AND 3 = 0"
  by (cases k rule: up.cases) simp_all

lemma holds_upd [simp]: "a \<notin> set (addrs T) \<Longrightarrow> holds (h(a \<mapsto> n)) p T = holds h p T"
  by (induction T arbitrary: p) auto

fun ctx_addrs :: "frame list \<Rightarrow> u64 set" where
  "ctx_addrs [] = {}"
| "ctx_addrs (In_left c a r # k) = insert a (set (addrs r) \<union> ctx_addrs k)"
| "ctx_addrs (In_right c l a # k) = insert a (set (addrs l) \<union> ctx_addrs k)"

lemma ctx_addrs_eq: "ctx_addrs k = set (before k) \<union> set (after k)"
  by (induction k rule: ctx_addrs.induct) auto

lemma holds_ctx_upd [simp]: "a \<notin> ctx_addrs k \<Longrightarrow> holds_ctx (h(a \<mapsto> n)) k x = holds_ctx h k x"
  by (induction k arbitrary: x rule: ctx_addrs.induct) auto

text \<open>Reading the fields of the node under the focus.\<close>

lemma get_simps:
  assumes "rb_nodes t a = Some n"
  shows "get_left t a = Some (rb_left n)" "get_right t a = Some (rb_right n)"
    "get_pc t a = Some (rb_parent_color n)"
    "rb_parent t a = Some (pc_parent (rb_parent_color n))"
    "rb_is_black t a = Some (pc_is_black (rb_parent_color n))"
    "rb_is_red t a = Some (\<not> pc_is_black (rb_parent_color n))"
    "rb_red_parent t a = Some (rb_parent_color n)"
  by (simp_all add: get_left_def get_right_def get_pc_def rb_parent_def rb_is_black_def rb_is_red_def
      rb_red_parent_def assms)

lemmas node_ops = get_left_def get_right_def get_pc_def set_left_def set_right_def set_pc_def upd_node_def
  rb_parent_def rb_is_black_def rb_is_red_def rb_red_parent_def rb_set_parent_def
  rb_set_parent_color_def rb_set_black_def

text \<open>Changing the child pointer of the parent of the focus.\<close>

lemma holds_ctx_ptr: "holds_ctx h k x \<Longrightarrow> k \<noteq> [] \<Longrightarrow> ok_addr (up k)"
  by (cases k rule: up.cases) simp_all

lemma root_self [simp]: "t\<lparr>rb_nodes := h, rb_root := rb_root t\<rparr> = t\<lparr>rb_nodes := h\<rparr>"
  "t\<lparr>rb_root := rb_root t\<rparr> = t" "t\<lparr>rb_nodes := rb_nodes t\<rparr> = t"
  by (cases t; simp)+

lemma change_child:
  assumes "holds_ctx (rb_nodes t) k old" and "old \<noteq> 0" and "old \<notin> ctx_addrs k"
    and "distinct (before k @ after k)"
  obtains h' where "rb_change_child old new (up k) t =
      Some (t\<lparr>rb_nodes := h', rb_root := if k = [] then new else rb_root t\<rparr>)"
    and "holds_ctx h' k new" and "\<And>a. k = [] \<or> a \<noteq> up k \<Longrightarrow> h' a = rb_nodes t a"
proof (cases k rule: up.cases)
  case 1
  then show ?thesis using that [of "rb_nodes t"] by (simp add: rb_change_child_def)
next
  case (2 c a r k')
  show ?thesis
    by (rule that [of "(rb_nodes t)(a \<mapsto> \<lparr>rb_parent_color = up k' + cbit c, rb_right = ptr r, rb_left = new\<rparr>)"])
      (use 2 assms in \<open>auto simp: rb_change_child_def node_ops ctx_addrs_eq\<close>)
next
  case (3 c l a k')
  moreover have "ptr l \<noteq> old" using 3 assms by (cases l) auto
  ultimately show ?thesis
    by (intro that [of "(rb_nodes t)(a \<mapsto> \<lparr>rb_parent_color = up k' + cbit c, rb_right = new, rb_left = ptr l\<rparr>)"])
      (use assms in \<open>auto simp: rb_change_child_def node_ops ctx_addrs_eq\<close>)
qed

text \<open>A subtree under a new parent.\<close>

lemma adopt_black:
  assumes "holds (rb_nodes t) p T" and "col T = Black" and "distinct (addrs T)"
  obtains h' where "adopt (ptr T) q RB_BLACK t = Some (t\<lparr>rb_nodes := h'\<rparr>)" and "holds h' q T"
    and "\<And>a. a \<notin> set (addrs T) \<Longrightarrow> h' a = rb_nodes t a"
proof (cases T)
  case Leaf
  then show ?thesis using that [of "rb_nodes t"] by (simp add: adopt_def)
next
  case (Node c l a r)
  show ?thesis
    by (rule that [of "(rb_nodes t)(a \<mapsto> \<lparr>rb_parent_color = q + 1, rb_right = ptr r, rb_left = ptr l\<rparr>)"])
      (use Node assms in \<open>auto simp: adopt_def node_ops RB_BLACK_def\<close>)
qed

end
