(* ===== verification/Rbtree_Rotate.thy ===== *)
theory Rbtree_Rotate
  imports Rbtree_Rep
begin

text \<open>
  Rotations: what the straight-line pieces of the insertion do to the tree at the focus, and which
  nodes they touch.
\<close>

definition changes_only :: "u64 set \<Rightarrow> 'z rb_tree_scheme \<Rightarrow> 'z rb_tree_scheme \<Rightarrow> bool" where
  "changes_only A t t' \<longleftrightarrow> rb_tree.more t' = rb_tree.more t
     \<and> (\<forall>a. a \<notin> A \<longrightarrow> rb_nodes t' a = rb_nodes t a)"

lemma rotate_set_parents:
  assumes "rb_nodes t old = Some \<lparr>rb_parent_color = up k + cbit c, rb_right = x, rb_left = y\<rparr>"
    and "rb_nodes t new = Some n" and "holds_ctx (rb_nodes t) k old"
    and "old \<noteq> 0" "new \<noteq> 0" "old \<notin> ctx_addrs k" "new \<notin> ctx_addrs k" "old \<noteq> new"
    and "distinct (before k @ after k)"
  obtains h' where "rb_rotate_set_parents old new cl t =
      Some (t\<lparr>rb_nodes := h', rb_root := if k = [] then new else rb_root t\<rparr>)"
    and "holds_ctx h' k new" and "h' old = Some \<lparr>rb_parent_color = new + cl, rb_right = x, rb_left = y\<rparr>"
    and "h' new = Some (n\<lparr>rb_parent_color := up k + cbit c\<rparr>)"
    and "\<And>a. k = [] \<or> a \<noteq> up k \<Longrightarrow> a \<noteq> old \<Longrightarrow> a \<noteq> new \<Longrightarrow> h' a = rb_nodes t a"
proof -
  note al = up_aligned [OF assms(3)]
  define t1 where "t1 = t\<lparr>rb_nodes := (rb_nodes t)(new \<mapsto> n\<lparr>rb_parent_color := up k + cbit c\<rparr>,
      old \<mapsto> \<lparr>rb_parent_color = new + cl, rb_right = x, rb_left = y\<rparr>)\<rparr>"
  have "holds_ctx (rb_nodes t1) k old" using assms by (simp add: t1_def)
  then obtain h' where h: "rb_change_child old new (up k) t1 =
      Some (t1\<lparr>rb_nodes := h', rb_root := if k = [] then new else rb_root t1\<rparr>)"
    "holds_ctx h' k new" "\<And>a. k = [] \<or> a \<noteq> up k \<Longrightarrow> h' a = rb_nodes t1 a"
    using change_child [of t1 k old] assms by metis
  have ne: "up k \<noteq> old" "up k \<noteq> new" if "k \<noteq> []" using assms that by (cases k rule: up.cases; auto)+

  show ?thesis
  proof (rule that [of h'])
    show "rb_rotate_set_parents old new cl t =
      Some (t\<lparr>rb_nodes := h', rb_root := if k = [] then new else rb_root t\<rparr>)"
      using h(1) assms(1,2,8) al by (simp add: rb_rotate_set_parents_def node_ops t1_def)
    show "holds_ctx h' k new" by (rule h(2))
  next
    have "h' old = rb_nodes t1 old" by (rule h(3)) (use ne in blast)
    then show "h' old = Some \<lparr>rb_parent_color = new + cl, rb_right = x, rb_left = y\<rparr>" by (simp add: t1_def)
    have "h' new = rb_nodes t1 new" by (rule h(3)) (use ne in blast)
    then show "h' new = Some (n\<lparr>rb_parent_color := up k + cbit c\<rparr>)" using assms(8) by (simp add: t1_def)
  next
    fix a assume a: "k = [] \<or> a \<noteq> up k" "a \<noteq> old" "a \<noteq> new"
    then show "h' a = rb_nodes t a" using h(3) [OF a(1)] by (simp add: t1_def)
  qed
qed

lemma changes_only_trans: "changes_only A t t1 \<Longrightarrow> changes_only A t1 t2 \<Longrightarrow> changes_only A t t2"
  by (simp add: changes_only_def)

lemma changes_only_mono: "changes_only A t t1 \<Longrightarrow> A \<subseteq> B \<Longrightarrow> changes_only B t t1"
  by (auto simp: changes_only_def)

lemma changes_onlyI:
  "(\<And>a. a \<notin> A \<Longrightarrow> h a = rb_nodes t a) \<Longrightarrow> changes_only A t (t\<lparr>rb_nodes := h\<rparr>)"
  "(\<And>a. a \<notin> A \<Longrightarrow> h a = rb_nodes t a) \<Longrightarrow> changes_only A t (t\<lparr>rb_nodes := h, rb_root := x\<rparr>)"
  by (cases t; simp add: changes_only_def)+

lemma holds_cong: "(\<And>a. a \<in> set (addrs T) \<Longrightarrow> h' a = h a) \<Longrightarrow> holds h p T \<Longrightarrow> holds h' p T"
  by (induction T arbitrary: p) auto

lemma holds_ctx_cong: "(\<And>a. a \<in> ctx_addrs k \<Longrightarrow> h' a = h a) \<Longrightarrow> holds_ctx h k x \<Longrightarrow> holds_ctx h' k x"
  by (induction k arbitrary: x rule: ctx_addrs.induct) (auto intro: holds_cong)

lemma top_const: "k \<noteq> [] \<Longrightarrow> top k x = top k y"
  by (cases k rule: up.cases) simp_all

lemma up_in: "k \<noteq> [] \<Longrightarrow> up k \<in> ctx_addrs k"
  by (cases k rule: up.cases) simp_all

lemma rotate_right_done:
  assumes g: "rb_nodes t g = Some \<lparr>rb_parent_color = up k + cbit c, rb_right = ptr u, rb_left = ptr m\<rparr>"
    and p: "rb_nodes t p = Some \<lparr>rb_parent_color = pc, rb_right = g, rb_left = ptr N\<rparr>"
    and hs: "holds (rb_nodes t) g m" "holds (rb_nodes t) g u" "holds (rb_nodes t) p N"
    and hk: "holds_ctx (rb_nodes t) k g" and ok: "ok_addr p" "ok_addr g"
    and d: "distinct (before k @ addrs N @ p # addrs m @ g # addrs u @ after k)"
    and rt: "rb_root t = top k g"
  obtains t' where "rb_rotate_set_parents g p (cbit e) t = Some t'"
    and "zip_at t' k (Node c N p (Node e m g u))"
    and "changes_only (insert g (insert p (ctx_addrs k))) t t'"
proof -
  have d': "g \<notin> ctx_addrs k" "p \<notin> ctx_addrs k" "g \<noteq> p" "distinct (before k @ after k)"
    "set (addrs m) \<inter> ctx_addrs k = {}" "set (addrs u) \<inter> ctx_addrs k = {}" "set (addrs N) \<inter> ctx_addrs k = {}"
    "{g, p} \<inter> (set (addrs m) \<union> set (addrs u) \<union> set (addrs N)) = {}"
    using d by (auto simp: ctx_addrs_eq)
  obtain h' where h: "rb_rotate_set_parents g p (cbit e) t =
      Some (t\<lparr>rb_nodes := h', rb_root := if k = [] then p else rb_root t\<rparr>)"
    "holds_ctx h' k p" "h' g = Some \<lparr>rb_parent_color = p + cbit e, rb_right = ptr u, rb_left = ptr m\<rparr>"
    "h' p = Some \<lparr>rb_parent_color = up k + cbit c, rb_right = g, rb_left = ptr N\<rparr>"
    "\<And>a. k = [] \<or> a \<noteq> up k \<Longrightarrow> a \<noteq> g \<Longrightarrow> a \<noteq> p \<Longrightarrow> h' a = rb_nodes t a"
    using rotate_set_parents [OF g p hk ok_addr_nz [OF ok(2)] ok_addr_nz [OF ok(1)] d'(1-4)] by auto
  have fr: "h' a = rb_nodes t a" if "a \<notin> ctx_addrs k" "a \<noteq> g" "a \<noteq> p" for a
    using h(5) [of a] that up_in [of k] by auto
  show ?thesis
  proof (rule that [OF h(1)])
    have "holds h' g m" "holds h' g u" "holds h' p N"
      by (rule holds_cong [OF fr]; use hs d' in blast)+
    then show "zip_at (t\<lparr>rb_nodes := h', rb_root := if k = [] then p else rb_root t\<rparr>) k (Node c N p (Node e m g u))"
      using h(2-4) ok d rt top_const [of k p g] by (auto simp: zip_at_def)
  qed (rule changes_onlyI, use fr in blast)
qed

lemma rotate_left_done:
  assumes g: "rb_nodes t g = Some \<lparr>rb_parent_color = up k + cbit c, rb_right = ptr m, rb_left = ptr u\<rparr>"
    and p: "rb_nodes t p = Some \<lparr>rb_parent_color = pc, rb_right = ptr N, rb_left = g\<rparr>"
    and hs: "holds (rb_nodes t) g m" "holds (rb_nodes t) g u" "holds (rb_nodes t) p N"
    and hk: "holds_ctx (rb_nodes t) k g" and ok: "ok_addr p" "ok_addr g"
    and d: "distinct (before k @ addrs u @ g # addrs m @ p # addrs N @ after k)"
    and rt: "rb_root t = top k g"
  obtains t' where "rb_rotate_set_parents g p (cbit e) t = Some t'"
    and "zip_at t' k (Node c (Node e u g m) p N)"
    and "changes_only (insert g (insert p (ctx_addrs k))) t t'"
proof -
  have d': "g \<notin> ctx_addrs k" "p \<notin> ctx_addrs k" "g \<noteq> p" "distinct (before k @ after k)"
    "set (addrs m) \<inter> ctx_addrs k = {}" "set (addrs u) \<inter> ctx_addrs k = {}" "set (addrs N) \<inter> ctx_addrs k = {}"
    "{g, p} \<inter> (set (addrs m) \<union> set (addrs u) \<union> set (addrs N)) = {}"
    using d by (auto simp: ctx_addrs_eq)
  obtain h' where h: "rb_rotate_set_parents g p (cbit e) t =
      Some (t\<lparr>rb_nodes := h', rb_root := if k = [] then p else rb_root t\<rparr>)"
    "holds_ctx h' k p" "h' g = Some \<lparr>rb_parent_color = p + cbit e, rb_right = ptr m, rb_left = ptr u\<rparr>"
    "h' p = Some \<lparr>rb_parent_color = up k + cbit c, rb_right = ptr N, rb_left = g\<rparr>"
    "\<And>a. k = [] \<or> a \<noteq> up k \<Longrightarrow> a \<noteq> g \<Longrightarrow> a \<noteq> p \<Longrightarrow> h' a = rb_nodes t a"
    using rotate_set_parents [OF g p hk ok_addr_nz [OF ok(2)] ok_addr_nz [OF ok(1)] d'(1-4)] by auto
  have fr: "h' a = rb_nodes t a" if "a \<notin> ctx_addrs k" "a \<noteq> g" "a \<noteq> p" for a
    using h(5) [of a] that up_in [of k] by auto
  show ?thesis
  proof (rule that [OF h(1)])
    have "holds h' g m" "holds h' g u" "holds h' p N"
      by (rule holds_cong [OF fr]; use hs d' in blast)+
    then show "zip_at (t\<lparr>rb_nodes := h', rb_root := if k = [] then p else rb_root t\<rparr>) k (Node c (Node e u g m) p N)"
      using h(2-4) ok d rt top_const [of k p g] by (auto simp: zip_at_def)
  qed (rule changes_onlyI, use fr in blast)
qed

lemma rotate_right_core:
  assumes g: "rb_nodes t g = Some \<lparr>rb_parent_color = up k + cbit c, rb_right = ptr u, rb_left = ptr m\<rparr>"
    and p: "rb_nodes t p = Some \<lparr>rb_parent_color = pc, rb_right = g, rb_left = ptr N\<rparr>"
    and hs: "holds (rb_nodes t) q m" "holds (rb_nodes t) g u" "holds (rb_nodes t) p N"
    and hk: "holds_ctx (rb_nodes t) k g" and ok: "ok_addr p" "ok_addr g"
    and d: "distinct (before k @ addrs N @ p # addrs m @ g # addrs u @ after k)"
    and rt: "rb_root t = top k g" and m: "col m = Black"
  obtains t1 t' where "adopt (ptr m) g RB_BLACK t = Some t1" "rb_rotate_set_parents g p (cbit e) t1 = Some t'"
    and "zip_at t' k (Node c N p (Node e m g u))"
    and "changes_only (insert g (insert p (set (addrs m) \<union> ctx_addrs k))) t t'"
proof -
  have d': "g \<notin> set (addrs m)" "p \<notin> set (addrs m)" "set (addrs m) \<inter> ctx_addrs k = {}" "distinct (addrs m)"
    "set (addrs m) \<inter> set (addrs u) = {}" "set (addrs m) \<inter> set (addrs N) = {}"
    using d by (auto simp: ctx_addrs_eq)
  obtain h' where a: "adopt (ptr m) g RB_BLACK t = Some (t\<lparr>rb_nodes := h'\<rparr>)" "holds h' g m"
    and fr: "\<And>a. a \<notin> set (addrs m) \<Longrightarrow> h' a = rb_nodes t a"
    using adopt_black [OF hs(1) m d'(4)] by metis
  let ?t1 = "t\<lparr>rb_nodes := h'\<rparr>"
  have "rb_nodes ?t1 g = rb_nodes t g" "rb_nodes ?t1 p = rb_nodes t p"
    using fr d' by simp_all
  moreover have "holds h' g u" "holds h' p N" by (rule holds_cong [OF fr]; use hs d' in blast)+
  moreover have "holds_ctx h' k g" by (rule holds_ctx_cong [OF fr]; use hk d' in blast)
  ultimately obtain t' where b: "rb_rotate_set_parents g p (cbit e) ?t1 = Some t'"
    "zip_at t' k (Node c N p (Node e m g u))" "changes_only (insert g (insert p (ctx_addrs k))) ?t1 t'"
    using rotate_right_done [where t = ?t1 and g = g and k = k and c = c and u = u and m = m and p = p and pc = pc and N = N and e = e] g p a(2) ok d rt by auto
  have "changes_only (set (addrs m)) t ?t1" by (rule changes_onlyI) (rule fr)
  then have "changes_only (insert g (insert p (set (addrs m) \<union> ctx_addrs k))) t t'"
    using b(3) by (meson changes_only_mono changes_only_trans Un_upper1 Un_upper2 insert_mono subset_insertI2)
  then show ?thesis using that a(1) b(1,2) by blast
qed

lemma rotate_left_core:
  assumes g: "rb_nodes t g = Some \<lparr>rb_parent_color = up k + cbit c, rb_right = ptr m, rb_left = ptr u\<rparr>"
    and p: "rb_nodes t p = Some \<lparr>rb_parent_color = pc, rb_right = ptr N, rb_left = g\<rparr>"
    and hs: "holds (rb_nodes t) q m" "holds (rb_nodes t) g u" "holds (rb_nodes t) p N"
    and hk: "holds_ctx (rb_nodes t) k g" and ok: "ok_addr p" "ok_addr g"
    and d: "distinct (before k @ addrs u @ g # addrs m @ p # addrs N @ after k)"
    and rt: "rb_root t = top k g" and m: "col m = Black"
  obtains t1 t' where "adopt (ptr m) g RB_BLACK t = Some t1" "rb_rotate_set_parents g p (cbit e) t1 = Some t'"
    and "zip_at t' k (Node c (Node e u g m) p N)"
    and "changes_only (insert g (insert p (set (addrs m) \<union> ctx_addrs k))) t t'"
proof -
  have d': "g \<notin> set (addrs m)" "p \<notin> set (addrs m)" "set (addrs m) \<inter> ctx_addrs k = {}" "distinct (addrs m)"
    "set (addrs m) \<inter> set (addrs u) = {}" "set (addrs m) \<inter> set (addrs N) = {}"
    using d by (auto simp: ctx_addrs_eq)
  obtain h' where a: "adopt (ptr m) g RB_BLACK t = Some (t\<lparr>rb_nodes := h'\<rparr>)" "holds h' g m"
    and fr: "\<And>a. a \<notin> set (addrs m) \<Longrightarrow> h' a = rb_nodes t a"
    using adopt_black [OF hs(1) m d'(4)] by metis
  let ?t1 = "t\<lparr>rb_nodes := h'\<rparr>"
  have "rb_nodes ?t1 g = rb_nodes t g" "rb_nodes ?t1 p = rb_nodes t p"
    using fr d' by simp_all
  moreover have "holds h' g u" "holds h' p N" by (rule holds_cong [OF fr]; use hs d' in blast)+
  moreover have "holds_ctx h' k g" by (rule holds_ctx_cong [OF fr]; use hk d' in blast)
  ultimately obtain t' where b: "rb_rotate_set_parents g p (cbit e) ?t1 = Some t'"
    "zip_at t' k (Node c (Node e u g m) p N)" "changes_only (insert g (insert p (ctx_addrs k))) ?t1 t'"
    using rotate_left_done [where t = ?t1 and g = g and k = k and c = c and u = u and m = m and p = p and pc = pc and N = N and e = e] g p a(2) ok d rt by auto
  have "changes_only (set (addrs m)) t ?t1" by (rule changes_onlyI) (rule fr)
  then have "changes_only (insert g (insert p (set (addrs m) \<union> ctx_addrs k))) t t'"
    using b(3) by (meson changes_only_mono changes_only_trans Un_upper1 Un_upper2 insert_mono subset_insertI2)
  then show ?thesis using that a(1) b(1,2) by blast
qed

lemma insert_rotate_left_outer:
  assumes z: "zip_at t k (Node Black (Node Red N p m) g u)" and m: "col m = Black" and n: "node \<noteq> ptr m"
  obtains t' where "insert_rotate_left dummy_rotate node p g t = Some t'"
    and "zip_at t' k (Node Black N p (Node Red m g u))"
    and "changes_only (insert g (insert p (set (addrs m) \<union> ctx_addrs k))) t t'"
proof -
  note z' = z [unfolded zip_at_def, simplified]
  let ?t1 = "t\<lparr>rb_nodes := (rb_nodes t)(g \<mapsto> \<lparr>rb_parent_color = up k + 1, rb_right = ptr u, rb_left = ptr m\<rparr>,
     p \<mapsto> \<lparr>rb_parent_color = g, rb_right = g, rb_left = ptr N\<rparr>)\<rparr>"
  have d: "distinct (before k @ addrs N @ p # addrs m @ g # addrs u @ after k)" using z' by auto
  then have "g \<notin> ctx_addrs k" "p \<notin> ctx_addrs k" "g \<noteq> p"
    "g \<notin> set (addrs m)" "p \<notin> set (addrs m)" "g \<notin> set (addrs u)" "p \<notin> set (addrs u)" "g \<notin> set (addrs N)" "p \<notin> set (addrs N)"
    by (auto simp: ctx_addrs_eq)
  note d' = this
  obtain t2 t' where r: "adopt (ptr m) g RB_BLACK ?t1 = Some t2" "rb_rotate_set_parents g p (cbit Red) t2 = Some t'"
    "zip_at t' k (Node Black N p (Node Red m g u))"
    "changes_only (insert g (insert p (set (addrs m) \<union> ctx_addrs k))) ?t1 t'"
    by (rule rotate_right_core [of ?t1 g k Black u m p g N p Red])
      (use z' d d' m in \<open>simp_all add: ctx_addrs_eq [symmetric]\<close>)
  have "changes_only {g, p} t ?t1" by (rule changes_onlyI) auto
  then have c: "changes_only (insert g (insert p (set (addrs m) \<union> ctx_addrs k))) t t'"
    using r(4) by (meson changes_only_mono changes_only_trans insert_mono empty_subsetI)
  have "insert_rotate_left dummy_rotate node p g t = Some t'"
    using z' n d'(3) r(1,2) by (simp add: insert_rotate_left_def node_ops dummy_rotate_def RB_RED_def fun_upd_twist)
  then show ?thesis using that r(3) c by blast
qed

lemma insert_rotate_left_inner:
  assumes z: "zip_at t k (Node Black (Node Red l p (Node Red m n b)) g u)" and m: "col m = Black" and b: "col b = Black"
  obtains t' where "insert_rotate_left dummy_rotate n p g t = Some t'"
    and "zip_at t' k (Node Black (Node Red l p m) n (Node Red b g u))"
    and "changes_only (insert g (insert p (insert n (set (addrs m) \<union> set (addrs b) \<union> ctx_addrs k)))) t t'"
proof -
  note z' = z [unfolded zip_at_def, simplified]
  let ?t1 = "t\<lparr>rb_nodes := (rb_nodes t)(p \<mapsto> \<lparr>rb_parent_color = g, rb_right = ptr m, rb_left = ptr l\<rparr>,
     n \<mapsto> \<lparr>rb_parent_color = p, rb_right = ptr b, rb_left = p\<rparr>)\<rparr>"
  have d: "distinct (before k @ addrs (Node Red l p m) @ n # addrs b @ g # addrs u @ after k)" using z' by auto
  then have d': "g \<noteq> p" "g \<noteq> n" "p \<noteq> n" "{g, p, n} \<inter> (ctx_addrs k \<union> set (addrs m) \<union> set (addrs b) \<union> set (addrs u) \<union> set (addrs l)) = {}"
    "set (addrs m) \<inter> (ctx_addrs k \<union> set (addrs b) \<union> set (addrs u) \<union> set (addrs l)) = {}" "distinct (addrs m)"
    by (auto simp: ctx_addrs_eq)
  have "holds (rb_nodes ?t1) n m" using z' d' by simp
  then obtain h' where a: "adopt (ptr m) p RB_BLACK ?t1 = Some (?t1\<lparr>rb_nodes := h'\<rparr>)" "holds h' p m"
    and fr: "\<And>a. a \<notin> set (addrs m) \<Longrightarrow> h' a = rb_nodes ?t1 a"
    using adopt_black [OF _ m d'(6)] by metis
  let ?t2 = "t\<lparr>rb_nodes := h'(p \<mapsto> \<lparr>rb_parent_color = n, rb_right = ptr m, rb_left = ptr l\<rparr>,
     g \<mapsto> \<lparr>rb_parent_color = up k + 1, rb_right = ptr u, rb_left = ptr b\<rparr>,
     n \<mapsto> \<lparr>rb_parent_color = p, rb_right = g, rb_left = p\<rparr>)\<rparr>"
  have fr': "h' a = rb_nodes t a" if "a \<notin> set (addrs m)" "a \<noteq> p" "a \<noteq> n" for a
    using fr [OF that(1)] that by simp
  have "holds (rb_nodes t) p l" "holds (rb_nodes t) n b" "holds (rb_nodes t) g u" "holds_ctx (rb_nodes t) k g"
    using z' by auto
  note hb = this
  have "holds h' p l" by (rule holds_cong [OF fr' hb(1)]; use d' in blast)
  moreover have "holds h' n b" by (rule holds_cong [OF fr' hb(2)]; use d' in blast)
  moreover have "holds h' g u" by (rule holds_cong [OF fr' hb(3)]; use d' in blast)
  moreover have "holds_ctx h' k g" by (rule holds_ctx_cong [OF fr' hb(4)]; use d' in blast)
  ultimately obtain t3 t' where r: "adopt (ptr b) g RB_BLACK ?t2 = Some t3" "rb_rotate_set_parents g n (cbit Red) t3 = Some t'"
    "zip_at t' k (Node Black (Node Red l p m) n (Node Red b g u))"
    "changes_only (insert g (insert n (set (addrs b) \<union> ctx_addrs k))) ?t2 t'"
    by - (rule rotate_right_core [of ?t2 g k Black u b n p "Node Red l p m" n Red],
      use z' d d' b a(2) in \<open>simp_all add: ctx_addrs_eq [symmetric]\<close>)
  have "changes_only (insert g (insert p (insert n (set (addrs m))))) t ?t2" 
    by (rule changes_onlyI) (use fr in auto)
  then have c: "changes_only (insert g (insert p (insert n (set (addrs m) \<union> set (addrs b) \<union> ctx_addrs k)))) t t'"
    by (rule changes_only_trans [OF changes_only_mono changes_only_mono [OF r(4)]]) auto
  have "h' p = Some \<lparr>rb_parent_color = g, rb_right = ptr m, rb_left = ptr l\<rparr>"
     "h' n = Some \<lparr>rb_parent_color = p, rb_right = ptr b, rb_left = p\<rparr>" "h' g = rb_nodes t g"
    using fr d' by simp_all
  then have "insert_rotate_left dummy_rotate n p g t = Some t'"
    using z' d'(1-3) a(1) r(1,2)
    by (simp add: insert_rotate_left_def node_ops dummy_rotate_def RB_RED_def fun_upd_twist)
  then show ?thesis using that r(3) c by blast
qed

lemma insert_rotate_right_outer:
  assumes z: "zip_at t k (Node Black u g (Node Red m p N))" and m: "col m = Black" and n: "node \<noteq> ptr m"
  obtains t' where "insert_rotate_right dummy_rotate node p g t = Some t'"
    and "zip_at t' k (Node Black (Node Red u g m) p N)"
    and "changes_only (insert g (insert p (set (addrs m) \<union> ctx_addrs k))) t t'"
proof -
  note z' = z [unfolded zip_at_def, simplified]
  let ?t1 = "t\<lparr>rb_nodes := (rb_nodes t)(g \<mapsto> \<lparr>rb_parent_color = up k + 1, rb_right = ptr m, rb_left = ptr u\<rparr>,
     p \<mapsto> \<lparr>rb_parent_color = g, rb_right = ptr N, rb_left = g\<rparr>)\<rparr>"
  have d: "distinct (before k @ addrs u @ g # addrs m @ p # addrs N @ after k)" using z' by auto
  then have "g \<notin> ctx_addrs k" "p \<notin> ctx_addrs k" "g \<noteq> p"
    "g \<notin> set (addrs m)" "p \<notin> set (addrs m)" "g \<notin> set (addrs u)" "p \<notin> set (addrs u)" "g \<notin> set (addrs N)" "p \<notin> set (addrs N)"
    by (auto simp: ctx_addrs_eq)
  note d' = this
  obtain t2 t' where r: "adopt (ptr m) g RB_BLACK ?t1 = Some t2" "rb_rotate_set_parents g p (cbit Red) t2 = Some t'"
    "zip_at t' k (Node Black (Node Red u g m) p N)"
    "changes_only (insert g (insert p (set (addrs m) \<union> ctx_addrs k))) ?t1 t'"
    by (rule rotate_left_core [where t = ?t1 and g = g and k = k and c = Black and u = u and m = m and p = p and N = N and e = Red and q = p])
      (use z' d d' m in \<open>simp_all add: ctx_addrs_eq [symmetric]\<close>)
  have "changes_only {g, p} t ?t1" by (rule changes_onlyI) auto
  then have c: "changes_only (insert g (insert p (set (addrs m) \<union> ctx_addrs k))) t t'"
    using r(4) by (meson changes_only_mono changes_only_trans insert_mono empty_subsetI)
  have "insert_rotate_right dummy_rotate node p g t = Some t'"
    using z' n d'(3) r(1,2) by (simp add: insert_rotate_right_def node_ops dummy_rotate_def RB_RED_def fun_upd_twist)
  then show ?thesis using that r(3) c by blast
qed

lemma insert_rotate_right_inner:
  assumes z: "zip_at t k (Node Black u g (Node Red (Node Red b n m) p l))" and m: "col m = Black" and b: "col b = Black"
  obtains t' where "insert_rotate_right dummy_rotate n p g t = Some t'"
    and "zip_at t' k (Node Black (Node Red u g b) n (Node Red m p l))"
    and "changes_only (insert g (insert p (insert n (set (addrs m) \<union> set (addrs b) \<union> ctx_addrs k)))) t t'"
proof -
  note z' = z [unfolded zip_at_def, simplified]
  let ?t1 = "t\<lparr>rb_nodes := (rb_nodes t)(p \<mapsto> \<lparr>rb_parent_color = g, rb_right = ptr l, rb_left = ptr m\<rparr>,
     n \<mapsto> \<lparr>rb_parent_color = p, rb_right = p, rb_left = ptr b\<rparr>)\<rparr>"
  have d: "distinct (before k @ addrs u @ g # addrs b @ n # addrs (Node Red m p l) @ after k)" using z' by auto
  then have d': "g \<noteq> p" "g \<noteq> n" "p \<noteq> n" "{g, p, n} \<inter> (ctx_addrs k \<union> set (addrs m) \<union> set (addrs b) \<union> set (addrs u) \<union> set (addrs l)) = {}"
    "set (addrs m) \<inter> (ctx_addrs k \<union> set (addrs b) \<union> set (addrs u) \<union> set (addrs l)) = {}" "distinct (addrs m)"
    by (auto simp: ctx_addrs_eq)
  have "holds (rb_nodes ?t1) n m" using z' d' by simp
  then obtain h' where a: "adopt (ptr m) p RB_BLACK ?t1 = Some (?t1\<lparr>rb_nodes := h'\<rparr>)" "holds h' p m"
    and fr: "\<And>a. a \<notin> set (addrs m) \<Longrightarrow> h' a = rb_nodes ?t1 a"
    using adopt_black [OF _ m d'(6)] by metis
  let ?t2 = "t\<lparr>rb_nodes := h'(p \<mapsto> \<lparr>rb_parent_color = n, rb_right = ptr l, rb_left = ptr m\<rparr>,
     g \<mapsto> \<lparr>rb_parent_color = up k + 1, rb_right = ptr b, rb_left = ptr u\<rparr>,
     n \<mapsto> \<lparr>rb_parent_color = p, rb_right = p, rb_left = g\<rparr>)\<rparr>"
  have fr': "h' a = rb_nodes t a" if "a \<notin> set (addrs m)" "a \<noteq> p" "a \<noteq> n" for a
    using fr [OF that(1)] that by simp
  have "holds (rb_nodes t) p l" "holds (rb_nodes t) n b" "holds (rb_nodes t) g u" "holds_ctx (rb_nodes t) k g"
    using z' by auto
  note hb = this
  have "holds h' p l" by (rule holds_cong [OF fr' hb(1)]; use d' in blast)
  moreover have "holds h' n b" by (rule holds_cong [OF fr' hb(2)]; use d' in blast)
  moreover have "holds h' g u" by (rule holds_cong [OF fr' hb(3)]; use d' in blast)
  moreover have "holds_ctx h' k g" by (rule holds_ctx_cong [OF fr' hb(4)]; use d' in blast)
  ultimately obtain t3 t' where r: "adopt (ptr b) g RB_BLACK ?t2 = Some t3" "rb_rotate_set_parents g n (cbit Red) t3 = Some t'"
    "zip_at t' k (Node Black (Node Red u g b) n (Node Red m p l))"
    "changes_only (insert g (insert n (set (addrs b) \<union> ctx_addrs k))) ?t2 t'"
    by - (rule rotate_left_core [where t = ?t2 and g = g and k = k and c = Black and u = u and m = b and p = n and N = "Node Red m p l" and e = Red and q = n],
      use z' d d' b a(2) in \<open>simp_all add: ctx_addrs_eq [symmetric]\<close>)
  have "changes_only (insert g (insert p (insert n (set (addrs m))))) t ?t2" 
    by (rule changes_onlyI) (use fr in auto)
  then have c: "changes_only (insert g (insert p (insert n (set (addrs m) \<union> set (addrs b) \<union> ctx_addrs k)))) t t'"
    by (rule changes_only_trans [OF changes_only_mono changes_only_mono [OF r(4)]]) auto
  have "h' p = Some \<lparr>rb_parent_color = g, rb_right = ptr l, rb_left = ptr m\<rparr>"
     "h' n = Some \<lparr>rb_parent_color = p, rb_right = p, rb_left = ptr b\<rparr>" "h' g = rb_nodes t g"
    using fr d' by simp_all
  then have "insert_rotate_right dummy_rotate n p g t = Some t'"
    using z' d'(1-3) a(1) r(1,2)
    by (simp add: insert_rotate_right_def node_ops dummy_rotate_def RB_RED_def fun_upd_twist)
  then show ?thesis using that r(3) c by blast
qed

end
