(* ===== verification/Rbtree_Insert.thy ===== *)
theory Rbtree_Insert
  imports Rbtree_Rotate
begin

text \<open>
  The red-black invariants, their form along a path, and the correctness of the colour repair after
  an insertion.
\<close>

fun bh :: "rtree \<Rightarrow> nat" where
  "bh Leaf = 0"
| "bh (Node c l a r) = bh l + (if c = Black then 1 else 0)"

fun inv_h :: "rtree \<Rightarrow> bool" where
  "inv_h Leaf = True"
| "inv_h (Node c l a r) = (bh l = bh r \<and> inv_h l \<and> inv_h r)"

fun inv_c :: "rtree \<Rightarrow> bool" where
  "inv_c Leaf = True"
| "inv_c (Node c l a r) = ((c = Red \<longrightarrow> col l = Black \<and> col r = Black) \<and> inv_c l \<and> inv_c r)"

definition rbt :: "rtree \<Rightarrow> bool" where
  "rbt T \<longleftrightarrow> inv_c T \<and> inv_h T \<and> col T = Black"

text \<open>The colour above the focus: the place of the root accepts a black tree only.\<close>

fun ctx_col :: "frame list \<Rightarrow> rb_color" where
  "ctx_col [] = Red"
| "ctx_col (In_left c a r # k) = c"
| "ctx_col (In_right c l a # k) = c"

fun ctx_c :: "frame list \<Rightarrow> bool" where
  "ctx_c [] = True"
| "ctx_c (In_left c a r # k) = ((c = Red \<longrightarrow> col r = Black \<and> ctx_col k = Black) \<and> inv_c r \<and> ctx_c k)"
| "ctx_c (In_right c l a # k) = ((c = Red \<longrightarrow> col l = Black \<and> ctx_col k = Black) \<and> inv_c l \<and> ctx_c k)"

fun ctx_h :: "frame list \<Rightarrow> nat \<Rightarrow> bool" where
  "ctx_h [] n = True"
| "ctx_h (In_left c a r # k) n = (bh r = n \<and> inv_h r \<and> ctx_h k (n + (if c = Black then 1 else 0)))"
| "ctx_h (In_right c l a # k) n = (bh l = n \<and> inv_h l \<and> ctx_h k (n + (if c = Black then 1 else 0)))"

lemma inv_h_plug: "inv_h (plug k T) \<longleftrightarrow> inv_h T \<and> ctx_h k (bh T)"
  by (induction k T rule: plug.induct) auto

lemma inv_c_plug:
  "inv_c (plug k T) \<and> col (plug k T) = Black
     \<longleftrightarrow> inv_c T \<and> ctx_c k \<and> (ctx_col k = Red \<longrightarrow> col T = Black)"
  by (induction k T rule: plug.induct) auto

lemma rbt_plug:
  "rbt (plug k T) \<longleftrightarrow> inv_c T \<and> inv_h T \<and> ctx_c k \<and> ctx_h k (bh T) \<and> (ctx_col k = Red \<longrightarrow> col T = Black)"
  using inv_h_plug [of k T] inv_c_plug [of k T] by (auto simp: rbt_def)

lemma zip_distinct: "zip_at t k T \<Longrightarrow> distinct (before k @ addrs T @ after k)"
  by (simp add: zip_at_def)

lemma insert_flip_correct:
  assumes "zip_at t k (Node c (Node d x p m) g (Node e u q y))"
  shows "\<exists>t'. insert_flip q p g t = Some (g, up k, t')
      \<and> zip_at t' k (Node Red (Node Black x p m) g (Node Black u q y)) \<and> changes_only {p, q, g} t t'"
    and "\<exists>t'. insert_flip p q g t = Some (g, up k, t')
      \<and> zip_at t' k (Node Red (Node Black x p m) g (Node Black u q y)) \<and> changes_only {p, q, g} t t'"
proof -
  note z = assms [unfolded zip_at_def, simplified]
  let ?h = "(rb_nodes t)(p \<mapsto> \<lparr>rb_parent_color = g + 1, rb_right = ptr m, rb_left = ptr x\<rparr>,
     q \<mapsto> \<lparr>rb_parent_color = g + 1, rb_right = ptr y, rb_left = ptr u\<rparr>,
     g \<mapsto> \<lparr>rb_parent_color = up k, rb_right = q, rb_left = p\<rparr>)"
  have al: "up k AND 3 = 0" by (rule up_aligned [of "rb_nodes t" k g]) (use z in simp)
  have d: "g \<noteq> p" "g \<noteq> q" "p \<noteq> q"
    "g \<notin> ctx_addrs k" "p \<notin> ctx_addrs k" "q \<notin> ctx_addrs k"
    "g \<notin> set (addrs x)" "p \<notin> set (addrs x)" "q \<notin> set (addrs x)"
    "g \<notin> set (addrs m)" "p \<notin> set (addrs m)" "q \<notin> set (addrs m)"
    "g \<notin> set (addrs u)" "p \<notin> set (addrs u)" "q \<notin> set (addrs u)"
    "g \<notin> set (addrs y)" "p \<notin> set (addrs y)" "q \<notin> set (addrs y)"
    using zip_distinct [OF assms] by (simp_all add: ctx_addrs_eq eq_commute)
  have "insert_flip q p g t = Some (g, up k, t\<lparr>rb_nodes := ?h\<rparr>)" "insert_flip p q g t = Some (g, up k, t\<lparr>rb_nodes := ?h\<rparr>)"
    using z d al by (simp_all add: insert_flip_def node_ops RB_BLACK_def RB_RED_def fun_upd_twist)
  moreover have "zip_at (t\<lparr>rb_nodes := ?h\<rparr>) k (Node Red (Node Black x p m) g (Node Black u q y))"
    using z d by (simp add: zip_at_def)
  moreover have "changes_only {p, q, g} t (t\<lparr>rb_nodes := ?h\<rparr>)" by (rule changes_onlyI) simp
  ultimately show "\<exists>t'. insert_flip q p g t = Some (g, up k, t')
      \<and> zip_at t' k (Node Red (Node Black x p m) g (Node Black u q y)) \<and> changes_only {p, q, g} t t'"
    "\<exists>t'. insert_flip p q g t = Some (g, up k, t')
      \<and> zip_at t' k (Node Red (Node Black x p m) g (Node Black u q y)) \<and> changes_only {p, q, g} t t'"
    by blast+
qed


lemma red_child_eq: "holds (rb_nodes t) p T \<Longrightarrow> p AND 3 = 0 \<Longrightarrow> red_child t (ptr T) = Some (col T = Red)"
  by (cases T) (auto simp: red_child_def get_simps dest: ok_addr_nz)

lemma parent_left_reads:
  assumes "zip_at t k (Node Black (Node Red l p r) g u)"
  shows "rb_is_black t p = Some False" "rb_red_parent t p = Some g" "get_right t g = Some (ptr u)"
    "p \<noteq> ptr u" "red_child t (ptr u) = Some (col u = Red)" "p \<noteq> 0"
proof -
  note z = assms [unfolded zip_at_def, simplified]
  have g: "g AND 3 = 0" using z by simp
  show "rb_is_black t p = Some False" "rb_red_parent t p = Some g" "get_right t g = Some (ptr u)" "p \<noteq> 0"
    using z by (simp_all add: get_simps pc_is_black [of g Red, simplified])
  show "p \<noteq> ptr u" using zip_distinct [OF assms] z by (cases u) auto
  show "red_child t (ptr u) = Some (col u = Red)" by (rule red_child_eq [of _ g]) (use z in auto)
qed

lemma parent_right_reads:
  assumes "zip_at t k (Node Black u g (Node Red r p l))"
  shows "rb_is_black t p = Some False" "rb_red_parent t p = Some g" "get_right t g = Some p"
    "get_left t g = Some (ptr u)" "red_child t (ptr u) = Some (col u = Red)" "p \<noteq> 0"
proof -
  note z = assms [unfolded zip_at_def, simplified]
  have g: "g AND 3 = 0" using z by simp
  show "rb_is_black t p = Some False" "rb_red_parent t p = Some g" "get_right t g = Some p"
    "get_left t g = Some (ptr u)" "p \<noteq> 0"
    using z by (simp_all add: get_simps pc_is_black [of g Red, simplified])
  show "red_child t (ptr u) = Some (col u = Red)" by (rule red_child_eq [of _ g]) (use z in auto)
qed

lemma red_col: "col u = Red \<Longrightarrow> \<exists>x q y. u = Node Red x q y"
  by (cases u) auto

definition repaired :: "rtree \<Rightarrow> 'z rb_tree_scheme \<Rightarrow> 'z rb_tree_scheme option \<Rightarrow> bool" where
  "repaired T t r \<longleftrightarrow> (\<exists>t' T'. r = Some t' \<and> rep t' T' \<and> rbt T' \<and> addrs T' = addrs T
     \<and> changes_only (set (addrs T)) t t')"

lemma repairedI:
  assumes "r = Some t'" "zip_at t' k T'" "rbt (plug k T')" "addrs T' = addrs T" "changes_only A t t'"
    "A \<subseteq> set (addrs T) \<union> ctx_addrs k"
  shows "repaired (plug k T) t r"
  unfolding repaired_def
  using assms changes_only_mono [OF assms(5), of "set (addrs (plug k T))"]
  by (intro exI [of _ t'] exI [of _ "plug k T'"]) (auto simp: rep_plug addrs_plug ctx_addrs_eq)

lemma repaired_step:
  assumes "repaired T' t1 r" "changes_only A t t1" "addrs T' = addrs T" "A \<subseteq> set (addrs T)"
  shows "repaired T t r"
  using assms changes_only_trans [OF changes_only_mono [OF assms(2,4)]] by (auto simp: repaired_def)

lemma insert_rotate_left_correct:
  assumes z: "zip_at t k (Node Black (Node Red x p m) g u)" and u: "col u = Black"
    and T: "T = Node Red l n r" and xm: "x = T \<and> col m = Black \<or> m = T \<and> col x = Black"
    and inv: "ctx_c k" "ctx_h k (Suc (bh x))" "inv_c x" "inv_c m" "inv_c u" "inv_h x" "inv_h m" "inv_h u" "bh m = bh x" "bh u = bh x"
  shows "repaired (plug k (Node Black (Node Red x p m) g u)) t (insert_rotate_left dummy_rotate n p g t)"
  using xm
proof
  assume a: "x = T \<and> col m = Black"
  have "n \<noteq> ptr m" using zip_distinct [OF z] z a T by (cases m) (auto simp: zip_at_def)
  with a obtain t' where r: "insert_rotate_left dummy_rotate n p g t = Some t'"
    "zip_at t' k (Node Black x p (Node Red m g u))" "changes_only (insert g (insert p (set (addrs m) \<union> ctx_addrs k))) t t'"
    using insert_rotate_left_outer [OF z] by blast
  show ?thesis
    by (rule repairedI [OF r(1,2) _ _ r(3)]) (use a u inv in \<open>auto simp: rbt_plug\<close>)
next
  assume a: "m = T \<and> col x = Black"
  with T z have z': "zip_at t k (Node Black (Node Red x p (Node Red l n r)) g u)" by simp
  have lr: "col l = Black" "col r = Black" using a T inv by auto
  obtain t' where r: "insert_rotate_left dummy_rotate n p g t = Some t'"
    "zip_at t' k (Node Black (Node Red x p l) n (Node Red r g u))"
    "changes_only (insert g (insert p (insert n (set (addrs l) \<union> set (addrs r) \<union> ctx_addrs k)))) t t'"
    using insert_rotate_left_inner [OF z' lr] by blast
  show ?thesis
    by (rule repairedI [OF r(1,2) _ _ r(3)]) (use a u T inv in \<open>auto simp: rbt_plug\<close>)
qed

lemma insert_rotate_right_correct:
  assumes z: "zip_at t k (Node Black u g (Node Red m p x))" and u: "col u = Black"
    and T: "T = Node Red r n l" and xm: "x = T \<and> col m = Black \<or> m = T \<and> col x = Black"
    and inv: "ctx_c k" "ctx_h k (Suc (bh x))" "inv_c x" "inv_c m" "inv_c u" "inv_h x" "inv_h m" "inv_h u" "bh m = bh x" "bh u = bh x"
  shows "repaired (plug k (Node Black u g (Node Red m p x))) t (insert_rotate_right dummy_rotate n p g t)"
  using xm
proof
  assume a: "x = T \<and> col m = Black"
  have "n \<noteq> ptr m" using zip_distinct [OF z] z a T by (cases m) (auto simp: zip_at_def)
  with a obtain t' where r: "insert_rotate_right dummy_rotate n p g t = Some t'"
    "zip_at t' k (Node Black (Node Red u g m) p x)" "changes_only (insert g (insert p (set (addrs m) \<union> ctx_addrs k))) t t'"
    using insert_rotate_right_outer [OF z] by blast
  show ?thesis
    by (rule repairedI [OF r(1,2) _ _ r(3)]) (use a u inv in \<open>auto simp: rbt_plug\<close>)
next
  assume a: "m = T \<and> col x = Black"
  with T z have z': "zip_at t k (Node Black u g (Node Red (Node Red r n l) p x))" by simp
  have lr: "col l = Black" "col r = Black" using a T inv by auto
  obtain t' where r: "insert_rotate_right dummy_rotate n p g t = Some t'"
    "zip_at t' k (Node Black (Node Red u g r) n (Node Red l p x))"
    "changes_only (insert g (insert p (insert n (set (addrs l) \<union> set (addrs r) \<union> ctx_addrs k)))) t t'"
    using insert_rotate_right_inner [OF z' lr] by blast
  show ?thesis
    by (rule repairedI [OF r(1,2) _ _ r(3)]) (use a u T inv in \<open>auto simp: rbt_plug\<close>)
qed

lemma insert_step_left:
  fixes t :: "'z rb_tree_scheme"
  assumes z: "zip_at t k (Node Black (Node Red x p m) g u)"
    and T: "T = Node Red l n r" and xm: "x = T \<and> col m = Black \<or> m = T \<and> col x = Black"
    and inv: "ctx_c k" "ctx_h k (Suc (bh x))" "inv_c x" "inv_c m" "inv_c u" "inv_h x" "inv_h m" "inv_h u" "bh m = bh x" "bh u = bh x"
    and IH: "\<And>(t1 :: 'z rb_tree_scheme) l1 n1 r1. zip_at t1 k (Node Red l1 n1 r1) \<Longrightarrow> inv_c (Node Red l1 n1 r1) \<Longrightarrow> inv_h (Node Red l1 n1 r1)
       \<Longrightarrow> ctx_c k \<Longrightarrow> ctx_h k (bh (Node Red l1 n1 r1))
       \<Longrightarrow> repaired (plug k (Node Red l1 n1 r1)) t1 (rb_insert_loop dummy_rotate n1 (up k) t1)"
  shows "repaired (plug k (Node Black (Node Red x p m) g u)) t (rb_insert_loop dummy_rotate n p t)"
proof (cases "col u")
  case Black
  then have "rb_insert_loop dummy_rotate n p t = insert_rotate_left dummy_rotate n p g t"
    using parent_left_reads [OF z] by (subst rb_insert_loop.simps) simp
  then show ?thesis using insert_rotate_left_correct [OF z Black T xm inv] by simp
next
  case Red
  then obtain a q b where u: "u = Node Red a q b" using red_col by blast
  obtain t' where f: "insert_flip q p g t = Some (g, up k, t')"
    "zip_at t' k (Node Red (Node Black x p m) g (Node Black a q b))" "changes_only {p, q, g} t t'"
    using insert_flip_correct(1) [OF z [unfolded u]] by blast
  have "rb_insert_loop dummy_rotate n p t = rb_insert_loop dummy_rotate g (up k) t'"
    using parent_left_reads [OF z] f(1) Red by (subst rb_insert_loop.simps) (simp add: u)
  moreover have "repaired (plug k (Node Red (Node Black x p m) g (Node Black a q b))) t' (rb_insert_loop dummy_rotate g (up k) t')"
    by (rule IH [OF f(2)]) (use inv u in auto)
  ultimately show ?thesis
    using repaired_step [OF _ f(3)] by (auto simp: addrs_plug u)
qed

lemma insert_step_right:
  fixes t :: "'z rb_tree_scheme"
  assumes z: "zip_at t k (Node Black u g (Node Red m p x))"
    and T: "T = Node Red r n l" and xm: "x = T \<and> col m = Black \<or> m = T \<and> col x = Black"
    and inv: "ctx_c k" "ctx_h k (Suc (bh x))" "inv_c x" "inv_c m" "inv_c u" "inv_h x" "inv_h m" "inv_h u" "bh m = bh x" "bh u = bh x"
    and IH: "\<And>(t1 :: 'z rb_tree_scheme) l1 n1 r1. zip_at t1 k (Node Red l1 n1 r1) \<Longrightarrow> inv_c (Node Red l1 n1 r1) \<Longrightarrow> inv_h (Node Red l1 n1 r1)
       \<Longrightarrow> ctx_c k \<Longrightarrow> ctx_h k (bh (Node Red l1 n1 r1))
       \<Longrightarrow> repaired (plug k (Node Red l1 n1 r1)) t1 (rb_insert_loop dummy_rotate n1 (up k) t1)"
  shows "repaired (plug k (Node Black u g (Node Red m p x))) t (rb_insert_loop dummy_rotate n p t)"
proof (cases "col u")
  case Black
  then have "rb_insert_loop dummy_rotate n p t = insert_rotate_right dummy_rotate n p g t"
    using parent_right_reads [OF z] by (subst rb_insert_loop.simps) simp
  then show ?thesis using insert_rotate_right_correct [OF z Black T xm inv] by simp
next
  case Red
  then obtain a q b where u: "u = Node Red b q a" using red_col by blast
  obtain t' where f: "insert_flip q p g t = Some (g, up k, t')"
    "zip_at t' k (Node Red (Node Black b q a) g (Node Black m p x))" "changes_only {q, p, g} t t'"
    using insert_flip_correct(2) [OF z [unfolded u]] by blast
  have "rb_insert_loop dummy_rotate n p t = rb_insert_loop dummy_rotate g (up k) t'"
    using parent_right_reads [OF z] f(1) Red by (subst rb_insert_loop.simps) (simp add: u)
  moreover have "repaired (plug k (Node Red (Node Black b q a) g (Node Black m p x))) t' (rb_insert_loop dummy_rotate g (up k) t')"
    by (rule IH [OF f(2)]) (use inv u in auto)
  ultimately show ?thesis
    using repaired_step [OF _ f(3)] by (auto simp: addrs_plug u)
qed

lemma insert_loop_correct:
  assumes "zip_at t k (Node Red l n r)" and "inv_c (Node Red l n r)" and "inv_h (Node Red l n r)"
    and "ctx_c k" and "ctx_h k (bh (Node Red l n r))"
  shows "repaired (plug k (Node Red l n r)) t (rb_insert_loop dummy_rotate n (up k) t)"
  using assms
proof (induction k arbitrary: t l n r rule: length_induct)
  case (1 k)
  note prems = "1.prems"
  show ?case
  proof (cases k)
    case Nil
    let ?t' = "t\<lparr>rb_nodes := (rb_nodes t)(n \<mapsto> \<lparr>rb_parent_color = 1, rb_right = ptr r, rb_left = ptr l\<rparr>)\<rparr>"
    have z: "zip_at t [] (Node Red l n r)" using prems(1) Nil by simp
    have "rb_insert_loop dummy_rotate n 0 t = Some ?t'"
      using z by (subst rb_insert_loop.simps) (simp add: zip_at_def node_ops RB_BLACK_def)
    moreover have "zip_at ?t' [] (Node Black l n r)" using z by (simp add: zip_at_def)
    moreover have "changes_only {n} t ?t'" by (rule changes_onlyI) simp
    ultimately have "repaired (plug [] (Node Black l n r)) t (rb_insert_loop dummy_rotate n 0 t)"
      by (intro repairedI [of _ ?t' "[]" "Node Black l n r"]) (use prems in \<open>auto simp: rbt_def\<close>)
    then have "repaired (plug [] (Node Red l n r)) t (rb_insert_loop dummy_rotate n 0 t)"
      by (simp add: repaired_def)
    then show ?thesis using Nil by simp
  next
    case (Cons f k1)
    show ?thesis
    proof (cases "ctx_col k")
      case Black
      have al: "up k1 AND 3 = 0"
        using prems(1) Cons by (intro up_aligned [of "rb_nodes t" k1 "up k"]) (cases f; simp add: zip_at_def)
      have "rb_is_black t (up k) = Some True" "up k \<noteq> 0"
        using prems(1) Cons Black pc_is_black [OF al, of Black]
        by (cases f; simp add: zip_at_def get_simps)+
      then have "rb_insert_loop dummy_rotate n (up k) t = Some t" by (subst rb_insert_loop.simps) simp
      moreover have "rbt (plug k (Node Red l n r))" using prems Black by (auto simp: rbt_plug)
      ultimately show ?thesis using prems(1)
        by (auto simp: repaired_def rep_plug changes_only_def intro!: exI [of _ t] exI [of _ "plug k (Node Red l n r)"])
    next
      case Red
      then have b: "ctx_col k1 = Black" "ctx_c k1" using prems(4) Cons by (cases f; simp)+
      then obtain f1 k2 where k1: "k1 = f1 # k2" by (cases k1) auto
      have IH: "repaired (plug k2 (Node Red l1 n1 r1)) t1 (rb_insert_loop dummy_rotate n1 (up k2) t1)"
        if "zip_at t1 k2 (Node Red l1 n1 r1)" "inv_c (Node Red l1 n1 r1)" "inv_h (Node Red l1 n1 r1)"
          "ctx_c k2" "ctx_h k2 (bh (Node Red l1 n1 r1))" for t1 :: "'a rb_tree_scheme" and l1 n1 r1
        by (rule "1.IH" [rule_format, OF _ that]) (simp add: Cons k1)
      show ?thesis
      proof (cases f)
        case f: (In_left c p m)
        show ?thesis
        proof (cases f1)
          case f1: (In_left d g u)
          have cd: "c = Red" "d = Black" using b Red by (simp_all add: Cons k1 f f1)
          have "repaired (plug k2 (Node Black (Node Red (Node Red l n r) p m) g u)) t (rb_insert_loop dummy_rotate n p t)"
            by (rule insert_step_left [where T = "Node Red l n r" and l = l and r = r]; (erule (4) IH)?)
              (use prems cd b in \<open>simp_all add: Cons k1 f f1 zip_at_left zip_at_right\<close>)
          then show ?thesis by (simp add: Cons k1 f f1 cd)
        next
          case f1: (In_right d u g)
          have cd: "c = Red" "d = Black" using b Red by (simp_all add: Cons k1 f f1)
          have "repaired (plug k2 (Node Black u g (Node Red (Node Red l n r) p m))) t (rb_insert_loop dummy_rotate n p t)"
            by (rule insert_step_right [where T = "Node Red l n r" and r = l and l = r]; (erule (4) IH)?)
              (use prems cd b in \<open>simp_all add: Cons k1 f f1 zip_at_left zip_at_right\<close>)
          then show ?thesis by (simp add: Cons k1 f f1 cd)
        qed
      next
        case f: (In_right c x p)
        show ?thesis
        proof (cases f1)
          case f1: (In_left d g u)
          have cd: "c = Red" "d = Black" using b Red by (simp_all add: Cons k1 f f1)
          have "repaired (plug k2 (Node Black (Node Red x p (Node Red l n r)) g u)) t (rb_insert_loop dummy_rotate n p t)"
            by (rule insert_step_left [where T = "Node Red l n r" and l = l and r = r]; (erule (4) IH)?)
              (use prems cd b in \<open>simp_all add: Cons k1 f f1 zip_at_left zip_at_right\<close>)
          then show ?thesis by (simp add: Cons k1 f f1 cd)
        next
          case f1: (In_right d u g)
          have cd: "c = Red" "d = Black" using b Red by (simp_all add: Cons k1 f f1)
          have "repaired (plug k2 (Node Black u g (Node Red x p (Node Red l n r)))) t (rb_insert_loop dummy_rotate n p t)"
            by (rule insert_step_right [where T = "Node Red l n r" and r = l and l = r]; (erule (4) IH)?)
              (use prems cd b in \<open>simp_all add: Cons k1 f f1 zip_at_left zip_at_right\<close>)
          then show ?thesis by (simp add: Cons k1 f f1 cd)
        qed
      qed
    qed
  qed
qed

end
