(* ===== verification/Rbtree_Erase.thy ===== *)
theory Rbtree_Erase
  imports Rbtree_Insert
begin

text \<open>
  The colour repair after an erasure: its cases as rewrites of the focused tree, and the loop.
\<close>

lemma black_child_eq: "holds (rb_nodes t) p T \<Longrightarrow> p AND 3 = 0 \<Longrightarrow> black_child t (ptr T) = Some (col T = Black)"
  by (cases T) (auto simp: black_child_def get_simps dest: ok_addr_nz)

lemmas ptr_ops = get_left_def get_right_def get_pc_def set_left_def set_right_def upd_node_def
  rb_is_black_def rb_is_red_def dummy_rotate_def

text \<open>A subtree of any colour under a new parent.\<close>

definition reparent :: "u64 \<Rightarrow> u64 \<Rightarrow> 'z rb_tree_scheme \<Rightarrow> 'z rb_tree_scheme option" where
  "reparent x p t = (if x \<noteq> 0 then rb_set_parent x p t else Some t)"

lemma reparent_correct:
  assumes "holds (rb_nodes t) q T" and "q AND 3 = 0" and "distinct (addrs T)"
  obtains h' where "reparent (ptr T) p t = Some (t\<lparr>rb_nodes := h'\<rparr>)" and "holds h' p T"
    and "\<And>a. a \<notin> set (addrs T) \<Longrightarrow> h' a = rb_nodes t a"
proof (cases T)
  case Leaf
  then show ?thesis using that [of "rb_nodes t"] by (simp add: reparent_def)
next
  case (Node c l a r)
  show ?thesis
    by (rule that [of "(rb_nodes t)(a \<mapsto> \<lparr>rb_parent_color = p + cbit c, rb_right = ptr r, rb_left = ptr l\<rparr>)"])
      (use Node assms in \<open>auto simp: reparent_def node_ops add.commute\<close>)
qed

lemma erase_case1_left_correct:
  assumes z: "zip_at t k (Node Black N p (Node Red m s r))" and m: "col m = Black" "m \<noteq> Leaf"
  obtains t' where "erase_case1_left dummy_rotate p s t = Some (ptr m, t')"
    and "zip_at t' k (Node Black (Node Red N p m) s r)"
    and "changes_only (insert p (insert s (set (addrs m) \<union> ctx_addrs k))) t t'"
proof -
  note z' = z [unfolded zip_at_def, simplified]
  let ?t1 = "t\<lparr>rb_nodes := (rb_nodes t)(p \<mapsto> \<lparr>rb_parent_color = up k + 1, rb_right = ptr m, rb_left = ptr N\<rparr>,
     s \<mapsto> \<lparr>rb_parent_color = p, rb_right = ptr r, rb_left = p\<rparr>)\<rparr>"
  have d: "distinct (before k @ addrs N @ p # addrs m @ s # addrs r @ after k)" using zip_distinct [OF z] by simp
  then have "p \<notin> ctx_addrs k" "s \<notin> ctx_addrs k" "s \<noteq> p" "p \<noteq> s"
    "p \<notin> set (addrs m)" "s \<notin> set (addrs m)" "p \<notin> set (addrs r)" "s \<notin> set (addrs r)" "p \<notin> set (addrs N)" "s \<notin> set (addrs N)"
    by (auto simp: ctx_addrs_eq)
  note d' = this
  obtain t2 t' where r: "adopt (ptr m) p RB_BLACK ?t1 = Some t2" "rb_rotate_set_parents p s (cbit Red) t2 = Some t'"
    "zip_at t' k (Node Black (Node Red N p m) s r)"
    "changes_only (insert p (insert s (set (addrs m) \<union> ctx_addrs k))) ?t1 t'"
    by (rule rotate_left_core [where t = ?t1 and g = p and k = k and c = Black and u = N and m = m and p = s and N = r and e = Red and q = s])
      (use z' d d' m in \<open>simp_all add: ctx_addrs_eq [symmetric]\<close>)
  have "changes_only {p, s} t ?t1" by (rule changes_onlyI) auto
  then have c: "changes_only (insert p (insert s (set (addrs m) \<union> ctx_addrs k))) t t'"
    using r(4) by (meson changes_only_mono changes_only_trans insert_mono empty_subsetI)
  have "ptr m \<noteq> 0" using ptr_eq_0 [of "rb_nodes t" s m] z' m by simp
  then have "rb_set_parent_color (ptr m) p RB_BLACK ?t1 = Some t2" using r(1) by (simp add: adopt_def)
  then have "erase_case1_left dummy_rotate p s t = Some (ptr m, t')"
    using z' d'(3,4) r(2) pc_is_black [of p Red, simplified]
    by (simp add: erase_case1_left_def ptr_ops RB_RED_def fun_upd_twist)
  then show ?thesis using that r(3) c by blast
qed

lemma erase_flip_left:
  assumes z: "zip_at t k (Node c N p (Node Black l s r))" and b: "col l = Black" "col r = Black"
  obtains t' where "erase_cases_left dummy_rotate p s t = Some (if c = Red then 0 else up k, t')"
    and "zip_at t' k (Node Black N p (Node Red l s r))" and "changes_only {p, s} t t'"
proof -
  note z' = z [unfolded zip_at_def, simplified]
  let ?t1 = "t\<lparr>rb_nodes := (rb_nodes t)(p \<mapsto> \<lparr>rb_parent_color = up k + 1, rb_right = s, rb_left = ptr N\<rparr>,
     s \<mapsto> \<lparr>rb_parent_color = p, rb_right = ptr r, rb_left = ptr l\<rparr>)\<rparr>"
  have d: "distinct (before k @ addrs N @ p # addrs l @ s # addrs r @ after k)" using zip_distinct [OF z] by simp
  then have d': "p \<noteq> s" "s \<noteq> p" by auto
  have al: "up k AND 3 = 0" "s AND 3 = 0" using z' up_aligned [of "rb_nodes t" k p] by auto
  have bc: "black_child t (ptr r) = Some True" "black_child t (ptr l) = Some True"
    by (subst black_child_eq [of _ s]; use z' al b in simp)+
  have "rb_nodes t = (rb_nodes t)(p \<mapsto> \<lparr>rb_parent_color = up k + cbit c, rb_right = s, rb_left = ptr N\<rparr>)"
    using z' by auto
  then have "erase_cases_left dummy_rotate p s t = Some (if c = Red then 0 else up k, ?t1)"
    using z' d' bc al pc_is_black [OF al(1), of c] pc_parent [OF al(1), of c]
    by (cases c) (auto simp: erase_cases_left_def get_simps node_ops RB_RED_def RB_BLACK_def fun_upd_twist
        fun_upd_idem_iff intro!: arg_cong [where f = "\<lambda>h. t\<lparr>rb_nodes := h\<rparr>"])
  moreover have "zip_at ?t1 k (Node Black N p (Node Red l s r))"
    using z' d' by (simp add: zip_at_def ctx_addrs_eq)
  moreover have "changes_only {p, s} t ?t1" by (rule changes_onlyI) auto
  ultimately show ?thesis using that by blast
qed

text \<open>
  Case 4: once the subtree between the two nodes has been given to the parent and the outer child
  of the sibling is black, a rotation finishes the repair.
\<close>

lemma case4_left_core:
  assumes p: "rb_nodes t p = Some \<lparr>rb_parent_color = up k + cbit c, rb_right = s0, rb_left = ptr N\<rparr>"
    and s: "rb_nodes t s = Some \<lparr>rb_parent_color = pc, rb_right = ptr (Node e x j y), rb_left = ptr m\<rparr>"
    and hs: "holds (rb_nodes t) q m" "q AND 3 = 0" "holds (rb_nodes t) p N" "holds (rb_nodes t) q' (Node e x j y)"
    and hk: "holds_ctx (rb_nodes t) k p" and ok: "ok_addr p" "ok_addr s"
    and d: "distinct (before k @ addrs N @ p # addrs m @ s # addrs (Node e x j y) @ after k)"
    and rt: "rb_root t = top k p"
  obtains t' where "erase_case4_left dummy_rotate p s j t = Some t'"
    and "zip_at t' k (Node c (Node Black N p m) s (Node Black x j y))"
    and "changes_only (insert p (insert s (insert j (set (addrs m) \<union> ctx_addrs k)))) t t'"
proof -
  let ?t1 = "t\<lparr>rb_nodes := (rb_nodes t)(p \<mapsto> \<lparr>rb_parent_color = up k + cbit c, rb_right = ptr m, rb_left = ptr N\<rparr>,
     s \<mapsto> \<lparr>rb_parent_color = pc, rb_right = j, rb_left = p\<rparr>,
     j \<mapsto> \<lparr>rb_parent_color = s + 1, rb_right = ptr y, rb_left = ptr x\<rparr>)\<rparr>"
  have d': "p \<noteq> s" "s \<noteq> p" "p \<noteq> j" "j \<noteq> p" "s \<noteq> j" "j \<noteq> s" "distinct (addrs m)"
    "{p, s, j} \<inter> (ctx_addrs k \<union> set (addrs m) \<union> set (addrs N) \<union> set (addrs x) \<union> set (addrs y)) = {}"
    "set (addrs m) \<inter> (ctx_addrs k \<union> set (addrs N) \<union> set (addrs x) \<union> set (addrs y)) = {}"
    using d by (auto simp: ctx_addrs_eq)
  have "holds (rb_nodes ?t1) q m" using hs d' by simp
  then obtain h' where a: "reparent (ptr m) p ?t1 = Some (?t1\<lparr>rb_nodes := h'\<rparr>)" "holds h' p m"
    and fr: "\<And>a. a \<notin> set (addrs m) \<Longrightarrow> h' a = rb_nodes ?t1 a"
    using reparent_correct [OF _ hs(2) d'(7)] by metis
  let ?t2 = "t\<lparr>rb_nodes := h'\<rparr>"
  have fr': "h' a = rb_nodes t a" if "a \<notin> set (addrs m)" "a \<noteq> p" "a \<noteq> s" "a \<noteq> j" for a
    using fr [OF that(1)] that by simp
  have hxy: "holds (rb_nodes t) j x" "holds (rb_nodes t) j y" "ok_addr j" using hs(4) by auto
  have "holds h' p N" by (rule holds_cong [OF fr' hs(3)]; use d' in blast)
  moreover have "holds h' j x" by (rule holds_cong [OF fr' hxy(1)]; use d' in blast)
  moreover have "holds h' j y" by (rule holds_cong [OF fr' hxy(2)]; use d' in blast)
  moreover have "holds_ctx h' k p" by (rule holds_ctx_cong [OF fr' hk]; use d' in blast)
  moreover have "h' p = rb_nodes ?t1 p" "h' s = rb_nodes ?t1 s" "h' j = rb_nodes ?t1 j"
    using fr d' by blast+
  ultimately obtain t' where r: "rb_rotate_set_parents p s (cbit Black) ?t2 = Some t'"
    "zip_at t' k (Node c (Node Black N p m) s (Node Black x j y))"
    "changes_only (insert p (insert s (ctx_addrs k))) ?t2 t'"
    by - (rule rotate_left_done [where t = ?t2 and g = p and k = k and c = c and u = N and m = m and p = s
          and N = "Node Black x j y" and e = Black and pc = pc],
      use d d' hxy a(2) ok rt in simp_all)
  have "changes_only (insert p (insert s (insert j (set (addrs m))))) t ?t2"
    by (rule changes_onlyI) (use fr in auto)
  then have c: "changes_only (insert p (insert s (insert j (set (addrs m) \<union> ctx_addrs k)))) t t'"
    by (rule changes_only_trans [OF changes_only_mono changes_only_mono [OF r(3)]]) auto
  have "rb_set_parent_color j s RB_BLACK (t\<lparr>rb_nodes := (rb_nodes t)(p \<mapsto> \<lparr>rb_parent_color = up k + cbit c, rb_right = ptr m, rb_left = ptr N\<rparr>,
     s \<mapsto> \<lparr>rb_parent_color = pc, rb_right = j, rb_left = p\<rparr>)\<rparr>) = Some ?t1"
    using hs(4) d' by (simp add: node_ops RB_BLACK_def)
  then have "erase_case4_left dummy_rotate p s j t = Some t'"
    using p s d' a(1) r(1) by (simp add: erase_case4_left_def ptr_ops RB_BLACK_def reparent_def)
  then show ?thesis using that r(2) c by blast
qed

lemma erase_outer_left:
  assumes z: "zip_at t k (Node c N p (Node Black m s (Node Red x j y)))"
  obtains t' where "erase_cases_left dummy_rotate p s t = Some (0, t')"
    and "zip_at t' k (Node c (Node Black N p m) s (Node Black x j y))"
    and "changes_only (insert p (insert s (insert j (set (addrs m) \<union> ctx_addrs k)))) t t'"
proof -
  note z' = z [unfolded zip_at_def, simplified]
  obtain t' where r: "erase_case4_left dummy_rotate p s j t = Some t'"
    "zip_at t' k (Node c (Node Black N p m) s (Node Black x j y))"
    "changes_only (insert p (insert s (insert j (set (addrs m) \<union> ctx_addrs k)))) t t'"
    by (rule case4_left_core [where t = t and p = p and k = k and c = c and N = N and s = s and e = Red and x = x
          and j = j and y = y and m = m and q = s and q' = s])
      (use z' zip_distinct [OF z] in simp_all)
  have "black_child t j = Some False"
    using black_child_eq [of t s "Node Red x j y"] z' by simp
  then have "erase_cases_left dummy_rotate p s t = Some (0, t')"
    using z' r(1) by (simp add: erase_cases_left_def get_simps)
  then show ?thesis using that r(2,3) by blast
qed

lemma erase_inner_left:
  assumes z: "zip_at t k (Node c N p (Node Black (Node Red m a b) s r))" and bl: "col r = Black" "col b = Black"
  obtains t' where "erase_cases_left dummy_rotate p s t = Some (0, t')"
    and "zip_at t' k (Node c (Node Black N p m) a (Node Black b s r))"
    and "changes_only (insert p (insert s (insert a (set (addrs m) \<union> set (addrs b) \<union> ctx_addrs k)))) t t'"
proof -
  note z' = z [unfolded zip_at_def, simplified]
  let ?t1 = "t\<lparr>rb_nodes := (rb_nodes t)(p \<mapsto> \<lparr>rb_parent_color = up k + cbit c, rb_right = a, rb_left = ptr N\<rparr>,
     s \<mapsto> \<lparr>rb_parent_color = p + 1, rb_right = ptr r, rb_left = ptr b\<rparr>,
     a \<mapsto> \<lparr>rb_parent_color = s, rb_right = s, rb_left = ptr m\<rparr>)\<rparr>"
  have d: "distinct (before k @ addrs N @ p # addrs m @ a # addrs (Node Black b s r) @ after k)"
    using zip_distinct [OF z] by simp
  then have d': "p \<noteq> s" "s \<noteq> p" "p \<noteq> a" "a \<noteq> p" "s \<noteq> a" "a \<noteq> s" "distinct (addrs b)"
    "{p, s, a} \<inter> (ctx_addrs k \<union> set (addrs m) \<union> set (addrs N) \<union> set (addrs b) \<union> set (addrs r)) = {}"
    "set (addrs b) \<inter> (ctx_addrs k \<union> set (addrs N) \<union> set (addrs m) \<union> set (addrs r)) = {}"
    by (auto simp: ctx_addrs_eq)
  have "holds (rb_nodes ?t1) a b" using z' d' by simp
  then obtain h' where a: "adopt (ptr b) s RB_BLACK ?t1 = Some (?t1\<lparr>rb_nodes := h'\<rparr>)" "holds h' s b"
    and fr: "\<And>a. a \<notin> set (addrs b) \<Longrightarrow> h' a = rb_nodes ?t1 a"
    using adopt_black [OF _ bl(2) d'(7)] by metis
  let ?t2 = "t\<lparr>rb_nodes := h'\<rparr>"
  have fr': "h' v = rb_nodes t v" if "v \<notin> set (addrs b)" "v \<noteq> p" "v \<noteq> s" "v \<noteq> a" for v
    using fr [OF that(1)] that by simp
  have hb: "holds (rb_nodes t) p N" "holds (rb_nodes t) a m" "holds (rb_nodes t) s r" "holds_ctx (rb_nodes t) k p"
    using z' by simp_all
  have "holds h' p N" by (rule holds_cong [OF fr' hb(1)]; use d' in blast)
  moreover have "holds h' a m" by (rule holds_cong [OF fr' hb(2)]; use d' in blast)
  moreover have "holds h' s r" by (rule holds_cong [OF fr' hb(3)]; use d' in blast)
  moreover have "holds_ctx h' k p" by (rule holds_ctx_cong [OF fr' hb(4)]; use d' in blast)
  moreover have "h' p = rb_nodes ?t1 p" "h' s = rb_nodes ?t1 s" "h' a = rb_nodes ?t1 a"
    using fr d' by blast+
  ultimately obtain t' where r: "erase_case4_left dummy_rotate p a s ?t2 = Some t'"
    "zip_at t' k (Node c (Node Black N p m) a (Node Black b s r))"
    "changes_only (insert p (insert a (insert s (set (addrs m) \<union> ctx_addrs k)))) ?t2 t'"
    by - (rule case4_left_core [where t = ?t2 and p = p and k = k and c = c and N = N and s = a and e = Black and x = b
          and j = s and y = r and m = m and q = a and q' = p and pc = s],
      use z' d d' a(2) in simp_all)
  have "changes_only (insert p (insert s (insert a (set (addrs b))))) t ?t2"
    by (rule changes_onlyI) (use fr' in auto)
  then have c: "changes_only (insert p (insert s (insert a (set (addrs m) \<union> set (addrs b) \<union> ctx_addrs k)))) t t'"
    by (rule changes_only_trans [OF changes_only_mono changes_only_mono [OF r(3)]]) auto
  have "black_child t (ptr r) = Some True" "black_child t a = Some False"
    using black_child_eq [of t s r] black_child_eq [of t s "Node Red m a b"] z' bl by simp_all
  moreover have "erase_case3_left dummy_rotate p s a t = Some (a, s, ?t2)"
    using z' d' a(1) by (simp add: erase_case3_left_def ptr_ops fun_upd_twist)
  ultimately have "erase_cases_left dummy_rotate p s t = Some (0, t')"
    using z' r(1) by (simp add: erase_cases_left_def get_simps)
  then show ?thesis using that r(2) c by blast
qed

lemma erase_case1_right_correct:
  assumes z: "zip_at t k (Node Black (Node Red r s m) p N)" and m: "col m = Black" "m \<noteq> Leaf"
  obtains t' where "erase_case1_right dummy_rotate p s t = Some (ptr m, t')"
    and "zip_at t' k (Node Black r s (Node Red m p N))"
    and "changes_only (insert p (insert s (set (addrs m) \<union> ctx_addrs k))) t t'"
proof -
  note z' = z [unfolded zip_at_def, simplified]
  let ?t1 = "t\<lparr>rb_nodes := (rb_nodes t)(p \<mapsto> \<lparr>rb_parent_color = up k + 1, rb_right = ptr N, rb_left = ptr m\<rparr>,
     s \<mapsto> \<lparr>rb_parent_color = p, rb_right = p, rb_left = ptr r\<rparr>)\<rparr>"
  have d: "distinct (before k @ addrs r @ s # addrs m @ p # addrs N @ after k)" using zip_distinct [OF z] by simp
  then have "p \<notin> ctx_addrs k" "s \<notin> ctx_addrs k" "s \<noteq> p" "p \<noteq> s"
    "p \<notin> set (addrs m)" "s \<notin> set (addrs m)" "p \<notin> set (addrs r)" "s \<notin> set (addrs r)" "p \<notin> set (addrs N)" "s \<notin> set (addrs N)"
    by (auto simp: ctx_addrs_eq)
  note d' = this
  obtain t2 t' where r: "adopt (ptr m) p RB_BLACK ?t1 = Some t2" "rb_rotate_set_parents p s (cbit Red) t2 = Some t'"
    "zip_at t' k (Node Black r s (Node Red m p N))"
    "changes_only (insert p (insert s (set (addrs m) \<union> ctx_addrs k))) ?t1 t'"
    by (rule rotate_right_core [where t = ?t1 and g = p and k = k and c = Black and u = N and m = m and p = s and N = r and e = Red and q = s])
      (use z' d d' m in \<open>simp_all add: ctx_addrs_eq [symmetric]\<close>)
  have "changes_only {p, s} t ?t1" by (rule changes_onlyI) auto
  then have c: "changes_only (insert p (insert s (set (addrs m) \<union> ctx_addrs k))) t t'"
    using r(4) by (meson changes_only_mono changes_only_trans insert_mono empty_subsetI)
  have "ptr m \<noteq> 0" using ptr_eq_0 [of "rb_nodes t" s m] z' m by simp
  then have "rb_set_parent_color (ptr m) p RB_BLACK ?t1 = Some t2" using r(1) by (simp add: adopt_def)
  then have "erase_case1_right dummy_rotate p s t = Some (ptr m, t')"
    using z' d'(3,4) r(2) pc_is_black [of p Red, simplified]
    by (simp add: erase_case1_right_def ptr_ops RB_RED_def fun_upd_twist)
  then show ?thesis using that r(3) c by blast
qed

lemma erase_flip_right:
  assumes z: "zip_at t k (Node c (Node Black r s l) p N)" and b: "col l = Black" "col r = Black"
  obtains t' where "erase_cases_right dummy_rotate p s t = Some (if c = Red then 0 else up k, t')"
    and "zip_at t' k (Node Black (Node Red r s l) p N)" and "changes_only {p, s} t t'"
proof -
  note z' = z [unfolded zip_at_def, simplified]
  let ?t1 = "t\<lparr>rb_nodes := (rb_nodes t)(p \<mapsto> \<lparr>rb_parent_color = up k + 1, rb_right = ptr N, rb_left = s\<rparr>,
     s \<mapsto> \<lparr>rb_parent_color = p, rb_right = ptr l, rb_left = ptr r\<rparr>)\<rparr>"
  have d: "distinct (before k @ addrs r @ s # addrs l @ p # addrs N @ after k)" using zip_distinct [OF z] by simp
  then have d': "p \<noteq> s" "s \<noteq> p" by auto
  have al: "up k AND 3 = 0" "s AND 3 = 0" using z' up_aligned [of "rb_nodes t" k p] by auto
  have bc: "black_child t (ptr r) = Some True" "black_child t (ptr l) = Some True"
    by (subst black_child_eq [of _ s]; use z' al b in simp)+
  have "rb_nodes t = (rb_nodes t)(p \<mapsto> \<lparr>rb_parent_color = up k + cbit c, rb_right = ptr N, rb_left = s\<rparr>)"
    using z' by auto
  then have "erase_cases_right dummy_rotate p s t = Some (if c = Red then 0 else up k, ?t1)"
    using z' d' bc al pc_is_black [OF al(1), of c] pc_parent [OF al(1), of c]
    by (cases c) (auto simp: erase_cases_right_def get_simps node_ops RB_RED_def RB_BLACK_def fun_upd_twist
        fun_upd_idem_iff intro!: arg_cong [where f = "\<lambda>h. t\<lparr>rb_nodes := h\<rparr>"])
  moreover have "zip_at ?t1 k (Node Black (Node Red r s l) p N)"
    using z' d' by (simp add: zip_at_def ctx_addrs_eq)
  moreover have "changes_only {p, s} t ?t1" by (rule changes_onlyI) auto
  ultimately show ?thesis using that by blast
qed

text \<open>
  Case 4: once the subtree between the two nodes has been given to the parent and the outer child
  of the sibling is black, a rotation finishes the repair.
\<close>

lemma case4_right_core:
  assumes p: "rb_nodes t p = Some \<lparr>rb_parent_color = up k + cbit c, rb_right = ptr N, rb_left = s0\<rparr>"
    and s: "rb_nodes t s = Some \<lparr>rb_parent_color = pc, rb_right = ptr m, rb_left = ptr (Node e y j x)\<rparr>"
    and hs: "holds (rb_nodes t) q m" "q AND 3 = 0" "holds (rb_nodes t) p N" "holds (rb_nodes t) q' (Node e y j x)"
    and hk: "holds_ctx (rb_nodes t) k p" and ok: "ok_addr p" "ok_addr s"
    and d: "distinct (before k @ addrs (Node e y j x) @ s # addrs m @ p # addrs N @ after k)"
    and rt: "rb_root t = top k p"
  obtains t' where "erase_case4_right dummy_rotate p s j t = Some t'"
    and "zip_at t' k (Node c (Node Black y j x) s (Node Black m p N))"
    and "changes_only (insert p (insert s (insert j (set (addrs m) \<union> ctx_addrs k)))) t t'"
proof -
  let ?t1 = "t\<lparr>rb_nodes := (rb_nodes t)(p \<mapsto> \<lparr>rb_parent_color = up k + cbit c, rb_right = ptr N, rb_left = ptr m\<rparr>,
     s \<mapsto> \<lparr>rb_parent_color = pc, rb_right = p, rb_left = j\<rparr>,
     j \<mapsto> \<lparr>rb_parent_color = s + 1, rb_right = ptr x, rb_left = ptr y\<rparr>)\<rparr>"
  have d': "p \<noteq> s" "s \<noteq> p" "p \<noteq> j" "j \<noteq> p" "s \<noteq> j" "j \<noteq> s" "distinct (addrs m)"
    "{p, s, j} \<inter> (ctx_addrs k \<union> set (addrs m) \<union> set (addrs N) \<union> set (addrs x) \<union> set (addrs y)) = {}"
    "set (addrs m) \<inter> (ctx_addrs k \<union> set (addrs N) \<union> set (addrs x) \<union> set (addrs y)) = {}"
    using d by (auto simp: ctx_addrs_eq)
  have "holds (rb_nodes ?t1) q m" using hs d' by simp
  then obtain h' where a: "reparent (ptr m) p ?t1 = Some (?t1\<lparr>rb_nodes := h'\<rparr>)" "holds h' p m"
    and fr: "\<And>a. a \<notin> set (addrs m) \<Longrightarrow> h' a = rb_nodes ?t1 a"
    using reparent_correct [OF _ hs(2) d'(7)] by metis
  let ?t2 = "t\<lparr>rb_nodes := h'\<rparr>"
  have fr': "h' a = rb_nodes t a" if "a \<notin> set (addrs m)" "a \<noteq> p" "a \<noteq> s" "a \<noteq> j" for a
    using fr [OF that(1)] that by simp
  have hxy: "holds (rb_nodes t) j x" "holds (rb_nodes t) j y" "ok_addr j" using hs(4) by auto
  have "holds h' p N" by (rule holds_cong [OF fr' hs(3)]; use d' in blast)
  moreover have "holds h' j x" by (rule holds_cong [OF fr' hxy(1)]; use d' in blast)
  moreover have "holds h' j y" by (rule holds_cong [OF fr' hxy(2)]; use d' in blast)
  moreover have "holds_ctx h' k p" by (rule holds_ctx_cong [OF fr' hk]; use d' in blast)
  moreover have "h' p = rb_nodes ?t1 p" "h' s = rb_nodes ?t1 s" "h' j = rb_nodes ?t1 j"
    using fr d' by blast+
  ultimately obtain t' where r: "rb_rotate_set_parents p s (cbit Black) ?t2 = Some t'"
    "zip_at t' k (Node c (Node Black y j x) s (Node Black m p N))"
    "changes_only (insert p (insert s (ctx_addrs k))) ?t2 t'"
    by - (rule rotate_right_done [where t = ?t2 and g = p and k = k and c = c and u = N and m = m and p = s
          and N = "Node Black y j x" and e = Black and pc = pc],
      use d d' hxy a(2) ok rt in simp_all)
  have "changes_only (insert p (insert s (insert j (set (addrs m))))) t ?t2"
    by (rule changes_onlyI) (use fr in auto)
  then have c: "changes_only (insert p (insert s (insert j (set (addrs m) \<union> ctx_addrs k)))) t t'"
    by (rule changes_only_trans [OF changes_only_mono changes_only_mono [OF r(3)]]) auto
  have "rb_set_parent_color j s RB_BLACK (t\<lparr>rb_nodes := (rb_nodes t)(p \<mapsto> \<lparr>rb_parent_color = up k + cbit c, rb_right = ptr N, rb_left = ptr m\<rparr>,
     s \<mapsto> \<lparr>rb_parent_color = pc, rb_right = p, rb_left = j\<rparr>)\<rparr>) = Some ?t1"
    using hs(4) d' by (simp add: node_ops RB_BLACK_def)
  then have "erase_case4_right dummy_rotate p s j t = Some t'"
    using p s d' a(1) r(1) by (simp add: erase_case4_right_def ptr_ops RB_BLACK_def reparent_def)
  then show ?thesis using that r(2) c by blast
qed

lemma erase_outer_right:
  assumes z: "zip_at t k (Node c (Node Black (Node Red y j x) s m) p N)"
  obtains t' where "erase_cases_right dummy_rotate p s t = Some (0, t')"
    and "zip_at t' k (Node c (Node Black y j x) s (Node Black m p N))"
    and "changes_only (insert p (insert s (insert j (set (addrs m) \<union> ctx_addrs k)))) t t'"
proof -
  note z' = z [unfolded zip_at_def, simplified]
  obtain t' where r: "erase_case4_right dummy_rotate p s j t = Some t'"
    "zip_at t' k (Node c (Node Black y j x) s (Node Black m p N))"
    "changes_only (insert p (insert s (insert j (set (addrs m) \<union> ctx_addrs k)))) t t'"
    by (rule case4_right_core [where t = t and p = p and k = k and c = c and N = N and s = s and e = Red and x = x
          and j = j and y = y and m = m and q = s and q' = s])
      (use z' zip_distinct [OF z] in simp_all)
  have "black_child t j = Some False"
    using black_child_eq [of t s "Node Red y j x"] z' by simp
  then have "erase_cases_right dummy_rotate p s t = Some (0, t')"
    using z' r(1) by (simp add: erase_cases_right_def get_simps)
  then show ?thesis using that r(2,3) by blast
qed

lemma erase_inner_right:
  assumes z: "zip_at t k (Node c (Node Black r s (Node Red b a m)) p N)" and bl: "col r = Black" "col b = Black"
  obtains t' where "erase_cases_right dummy_rotate p s t = Some (0, t')"
    and "zip_at t' k (Node c (Node Black r s b) a (Node Black m p N))"
    and "changes_only (insert p (insert s (insert a (set (addrs m) \<union> set (addrs b) \<union> ctx_addrs k)))) t t'"
proof -
  note z' = z [unfolded zip_at_def, simplified]
  let ?t1 = "t\<lparr>rb_nodes := (rb_nodes t)(p \<mapsto> \<lparr>rb_parent_color = up k + cbit c, rb_right = ptr N, rb_left = a\<rparr>,
     s \<mapsto> \<lparr>rb_parent_color = p + 1, rb_right = ptr b, rb_left = ptr r\<rparr>,
     a \<mapsto> \<lparr>rb_parent_color = s, rb_right = ptr m, rb_left = s\<rparr>)\<rparr>"
  have d: "distinct (before k @ addrs (Node Black r s b) @ a # addrs m @ p # addrs N @ after k)"
    using zip_distinct [OF z] by simp
  then have d': "p \<noteq> s" "s \<noteq> p" "p \<noteq> a" "a \<noteq> p" "s \<noteq> a" "a \<noteq> s" "distinct (addrs b)"
    "{p, s, a} \<inter> (ctx_addrs k \<union> set (addrs m) \<union> set (addrs N) \<union> set (addrs b) \<union> set (addrs r)) = {}"
    "set (addrs b) \<inter> (ctx_addrs k \<union> set (addrs N) \<union> set (addrs m) \<union> set (addrs r)) = {}"
    by (auto simp: ctx_addrs_eq)
  have "holds (rb_nodes ?t1) a b" using z' d' by simp
  then obtain h' where a: "adopt (ptr b) s RB_BLACK ?t1 = Some (?t1\<lparr>rb_nodes := h'\<rparr>)" "holds h' s b"
    and fr: "\<And>a. a \<notin> set (addrs b) \<Longrightarrow> h' a = rb_nodes ?t1 a"
    using adopt_black [OF _ bl(2) d'(7)] by metis
  let ?t2 = "t\<lparr>rb_nodes := h'\<rparr>"
  have fr': "h' v = rb_nodes t v" if "v \<notin> set (addrs b)" "v \<noteq> p" "v \<noteq> s" "v \<noteq> a" for v
    using fr [OF that(1)] that by simp
  have hb: "holds (rb_nodes t) p N" "holds (rb_nodes t) a m" "holds (rb_nodes t) s r" "holds_ctx (rb_nodes t) k p"
    using z' by simp_all
  have "holds h' p N" by (rule holds_cong [OF fr' hb(1)]; use d' in blast)
  moreover have "holds h' a m" by (rule holds_cong [OF fr' hb(2)]; use d' in blast)
  moreover have "holds h' s r" by (rule holds_cong [OF fr' hb(3)]; use d' in blast)
  moreover have "holds_ctx h' k p" by (rule holds_ctx_cong [OF fr' hb(4)]; use d' in blast)
  moreover have "h' p = rb_nodes ?t1 p" "h' s = rb_nodes ?t1 s" "h' a = rb_nodes ?t1 a"
    using fr d' by blast+
  ultimately obtain t' where r: "erase_case4_right dummy_rotate p a s ?t2 = Some t'"
    "zip_at t' k (Node c (Node Black r s b) a (Node Black m p N))"
    "changes_only (insert p (insert a (insert s (set (addrs m) \<union> ctx_addrs k)))) ?t2 t'"
    by - (rule case4_right_core [where t = ?t2 and p = p and k = k and c = c and N = N and s = a and e = Black and x = b
          and j = s and y = r and m = m and q = a and q' = p and pc = s],
      use z' d d' a(2) in simp_all)
  have "changes_only (insert p (insert s (insert a (set (addrs b))))) t ?t2"
    by (rule changes_onlyI) (use fr' in auto)
  then have c: "changes_only (insert p (insert s (insert a (set (addrs m) \<union> set (addrs b) \<union> ctx_addrs k)))) t t'"
    by (rule changes_only_trans [OF changes_only_mono changes_only_mono [OF r(3)]]) auto
  have "black_child t (ptr r) = Some True" "black_child t a = Some False"
    using black_child_eq [of t s r] black_child_eq [of t s "Node Red b a m"] z' bl by simp_all
  moreover have "erase_case3_right dummy_rotate p s a t = Some (a, s, ?t2)"
    using z' d' a(1) by (simp add: erase_case3_right_def ptr_ops fun_upd_twist)
  ultimately have "erase_cases_right dummy_rotate p s t = Some (0, t')"
    using z' r(1) by (simp add: erase_cases_right_def get_simps)
  then show ?thesis using that r(2) c by blast
qed

lemma erase_step_left:
  assumes z: "zip_at t k (Node c N p (Node Black l s r))"
    and N: "col N = Black" "inv_c N" "inv_h N" and k: "ctx_c k" "c = Red \<longrightarrow> ctx_col k = Black"
    and h: "ctx_h k (Suc (bh N) + (if c = Black then 1 else 0))"
    and lr: "inv_c l" "inv_c r" "inv_h l" "inv_h r" "bh l = bh N" "bh r = bh N"
  shows "(\<exists>t'. erase_cases_left dummy_rotate p s t = Some (0, t')
        \<and> repaired (plug k (Node c N p (Node Black l s r))) t (Some t'))
    \<or> (\<exists>t'. c = Black \<and> col l = Black \<and> col r = Black \<and> erase_cases_left dummy_rotate p s t = Some (up k, t')
        \<and> zip_at t' k (Node Black N p (Node Red l s r)) \<and> changes_only {p, s} t t')"
proof (cases "col r")
  case r: Black
  show ?thesis
  proof (cases "col l")
    case l: Black
    obtain t' where f: "erase_cases_left dummy_rotate p s t = Some (if c = Red then 0 else up k, t')"
      "zip_at t' k (Node Black N p (Node Red l s r))" "changes_only {p, s} t t'"
      by (rule erase_flip_left [OF z l r])
    show ?thesis
    proof (cases c)
      case Red
      have "repaired (plug k (Node c N p (Node Black l s r))) t (Some t')"
        by (rule repairedI [OF refl f(2) _ _ f(3)]) (use l r N k h lr Red in \<open>auto simp: rbt_plug\<close>)
      then show ?thesis using f(1) Red by auto
    qed (use f l r in auto)
  next
    case Red
    then obtain m a b where l: "l = Node Red m a b" using red_col by blast
    then have b: "col b = Black" "col m = Black" using lr by auto
    obtain t' where f: "erase_cases_left dummy_rotate p s t = Some (0, t')"
      "zip_at t' k (Node c (Node Black N p m) a (Node Black b s r))"
      "changes_only (insert p (insert s (insert a (set (addrs m) \<union> set (addrs b) \<union> ctx_addrs k)))) t t'"
      by (rule erase_inner_left [OF z [unfolded l] r b(1)])
    have "repaired (plug k (Node c N p (Node Black l s r))) t (Some t')"
      by (rule repairedI [OF refl f(2) _ _ f(3)]) (use l r b N k h lr in \<open>auto simp: rbt_plug\<close>)
    then show ?thesis using f(1) by auto
  qed
next
  case Red
  then obtain x j y where r: "r = Node Red x j y" using red_col by blast
  obtain t' where f: "erase_cases_left dummy_rotate p s t = Some (0, t')"
    "zip_at t' k (Node c (Node Black N p l) s (Node Black x j y))"
    "changes_only (insert p (insert s (insert j (set (addrs l) \<union> ctx_addrs k)))) t t'"
    by (rule erase_outer_left [OF z [unfolded r]])
  have "repaired (plug k (Node c N p (Node Black l s r))) t (Some t')"
    by (rule repairedI [OF refl f(2) _ _ f(3)]) (use r N k h lr in \<open>auto simp: rbt_plug\<close>)
  then show ?thesis using f(1) by auto
qed

lemma bh_Suc: "bh T = Suc n \<Longrightarrow> \<exists>c l a r. T = Node c l a r"
  by (cases T) auto

text \<open>One round of the loop, for a focus on the left; \<open>IH\<close> is the claim for the path above.\<close>

lemma erase_round_left:
  fixes t :: "'z rb_tree_scheme"
  assumes z: "zip_at t k (Node c N p S)" and N: "col N = Black" "inv_c N" "inv_h N"
    and k: "ctx_c k" "c = Red \<longrightarrow> col S = Black \<and> ctx_col k = Black"
    and h: "ctx_h k (Suc (bh N) + (if c = Black then 1 else 0))"
    and S: "inv_c S" "inv_h S" "bh S = Suc (bh N)"
    and IH: "\<And>(t1 :: 'z rb_tree_scheme) M. zip_at t1 k M \<Longrightarrow> k \<noteq> [] \<Longrightarrow> col M = Black \<Longrightarrow> inv_c M \<Longrightarrow> inv_h M \<Longrightarrow> ctx_c k
      \<Longrightarrow> ctx_h k (Suc (bh M)) \<Longrightarrow> repaired (plug k M) t1 (rb_erase_color_loop dummy_rotate (ptr M) (up k) t1)"
  shows "repaired (plug k (Node c N p S)) t (rb_erase_color_loop dummy_rotate (ptr N) p t)"
proof -
  obtain sc l s r where Sn: "S = Node sc l s r" using bh_Suc [OF S(3)] by blast
  note z' = z [unfolded zip_at_def Sn, simplified]
  have ne: "ptr N \<noteq> s" using zip_distinct [OF z] z' Sn by (cases N) auto
  note unf = rb_erase_color_loop.simps [of dummy_rotate "ptr N" p t]
  show ?thesis
  proof (cases sc)
    case Black
    have c1: "get_right t p = Some s" "get_left t p = Some (ptr N)" "erase_case1_left dummy_rotate p s t = Some (s, t)"
      using z' Black pc_is_black [of p Black, simplified] by (simp_all add: get_simps erase_case1_left_def)
    have "(\<exists>t'. erase_cases_left dummy_rotate p s t = Some (0, t')
        \<and> repaired (plug k (Node c N p (Node Black l s r))) t (Some t'))
    \<or> (\<exists>t'. c = Black \<and> col l = Black \<and> col r = Black \<and> erase_cases_left dummy_rotate p s t = Some (up k, t')
        \<and> zip_at t' k (Node Black N p (Node Red l s r)) \<and> changes_only {p, s} t t')"
      by (rule erase_step_left) (use z N k h S Sn Black in auto)
    then show ?thesis
    proof (elim disjE exE conjE)
      fix t' assume "erase_cases_left dummy_rotate p s t = Some (0, t')"
        "repaired (plug k (Node c N p (Node Black l s r))) t (Some t')"
      then show ?thesis using unf c1 ne Sn Black by simp
    next
      fix t' assume f: "c = Black" "col l = Black" "col r = Black" "erase_cases_left dummy_rotate p s t = Some (up k, t')"
        "zip_at t' k (Node Black N p (Node Red l s r))" "changes_only {p, s} t t'"
      have e: "rb_erase_color_loop dummy_rotate (ptr N) p t
          = (if up k \<noteq> 0 then rb_erase_color_loop dummy_rotate p (up k) t' else Some t')"
        using unf c1 ne f(4) by simp
      show ?thesis
      proof (cases k)
        case Nil
        then have "rb_erase_color_loop dummy_rotate (ptr N) p t = Some t'" using e by simp
        then show ?thesis
          by (rule repairedI [OF _ f(5) _ _ f(6)]) (use f S N k h Sn Black Nil in \<open>auto simp: rbt_def\<close>)
      next
        case (Cons f0 k0)
        then have "up k \<noteq> 0" using f(5) holds_ctx_ptr [of "rb_nodes t'" k p] by (auto simp: zip_at_def)
        moreover have "repaired (plug k (Node Black N p (Node Red l s r))) t' (rb_erase_color_loop dummy_rotate p (up k) t')"
          using IH [OF f(5)] S N k h Sn Black f(1-3) Cons by simp
        ultimately show ?thesis
          using repaired_step [OF _ f(6)] e f(1) Sn Black by (auto simp: addrs_plug)
      qed
    qed
  next
    case Red
    then have c: "c = Black" "col l = Black" "col r = Black" using k S Sn by (cases c; simp)+
    have bl: "bh l = Suc (bh N)" "bh r = Suc (bh N)" using S Sn Red by simp_all
    then obtain l2 s2 r2 where l: "l = Node Black l2 s2 r2" using bh_Suc [OF bl(1)] c by auto
    obtain t1 where f: "erase_case1_left dummy_rotate p s t = Some (s2, t1)"
      "zip_at t1 k (Node Black (Node Red N p l) s r)"
      "changes_only (insert p (insert s (set (addrs l) \<union> ctx_addrs k))) t t1"
      using erase_case1_left_correct [where t = t and k = k and N = N and p = p and m = l and s = s and r = r] z Sn Red c l by auto
    have "(\<exists>t'. erase_cases_left dummy_rotate p s2 t1 = Some (0, t')
        \<and> repaired (plug (In_left Black s r # k) (Node Red N p (Node Black l2 s2 r2))) t1 (Some t'))
    \<or> (\<exists>t'. Red = Black \<and> col l2 = Black \<and> col r2 = Black \<and> erase_cases_left dummy_rotate p s2 t1 = Some (up (In_left Black s r # k), t')
        \<and> zip_at t' (In_left Black s r # k) (Node Black N p (Node Red l2 s2 r2)) \<and> changes_only {p, s2} t1 t')"
      by (rule erase_step_left) (use f(2) N k h S Sn Red c l bl in \<open>auto simp: zip_at_left zip_at_right\<close>)
    then obtain t' where g: "erase_cases_left dummy_rotate p s2 t1 = Some (0, t')"
      "repaired (plug k (Node Black (Node Red N p l) s r)) t1 (Some t')"
      using l by auto
    have "get_right t p = Some s" "get_left t p = Some (ptr N)" using z' by (simp_all add: get_simps)
    then have "rb_erase_color_loop dummy_rotate (ptr N) p t = Some t'"
      using unf ne f(1) g(1) by simp
    moreover have "repaired (plug k (Node c N p S)) t (Some t')"
      by (rule repaired_step [OF g(2) f(3)]) (auto simp: addrs_plug Sn ctx_addrs_eq)
    ultimately show ?thesis by simp
  qed
qed

lemma erase_step_right:
  assumes z: "zip_at t k (Node c (Node Black r s l) p N)"
    and N: "col N = Black" "inv_c N" "inv_h N" and k: "ctx_c k" "c = Red \<longrightarrow> ctx_col k = Black"
    and h: "ctx_h k (Suc (bh N) + (if c = Black then 1 else 0))"
    and lr: "inv_c l" "inv_c r" "inv_h l" "inv_h r" "bh l = bh N" "bh r = bh N"
  shows "(\<exists>t'. erase_cases_right dummy_rotate p s t = Some (0, t')
        \<and> repaired (plug k (Node c (Node Black r s l) p N)) t (Some t'))
    \<or> (\<exists>t'. c = Black \<and> col l = Black \<and> col r = Black \<and> erase_cases_right dummy_rotate p s t = Some (up k, t')
        \<and> zip_at t' k (Node Black (Node Red r s l) p N) \<and> changes_only {p, s} t t')"
proof (cases "col r")
  case r: Black
  show ?thesis
  proof (cases "col l")
    case l: Black
    obtain t' where f: "erase_cases_right dummy_rotate p s t = Some (if c = Red then 0 else up k, t')"
      "zip_at t' k (Node Black (Node Red r s l) p N)" "changes_only {p, s} t t'"
      by (rule erase_flip_right [OF z l r])
    show ?thesis
    proof (cases c)
      case Red
      have "repaired (plug k (Node c (Node Black r s l) p N)) t (Some t')"
        by (rule repairedI [OF refl f(2) _ _ f(3)]) (use l r N k h lr Red in \<open>auto simp: rbt_plug\<close>)
      then show ?thesis using f(1) Red by auto
    qed (use f l r in auto)
  next
    case Red
    then obtain m a b where l: "l = Node Red b a m" using red_col by blast
    then have b: "col b = Black" "col m = Black" using lr by auto
    obtain t' where f: "erase_cases_right dummy_rotate p s t = Some (0, t')"
      "zip_at t' k (Node c (Node Black r s b) a (Node Black m p N))"
      "changes_only (insert p (insert s (insert a (set (addrs m) \<union> set (addrs b) \<union> ctx_addrs k)))) t t'"
      by (rule erase_inner_right [OF z [unfolded l] r b(1)])
    have "repaired (plug k (Node c (Node Black r s l) p N)) t (Some t')"
      by (rule repairedI [OF refl f(2) _ _ f(3)]) (use l r b N k h lr in \<open>auto simp: rbt_plug\<close>)
    then show ?thesis using f(1) by auto
  qed
next
  case Red
  then obtain x j y where r: "r = Node Red y j x" using red_col by blast
  obtain t' where f: "erase_cases_right dummy_rotate p s t = Some (0, t')"
    "zip_at t' k (Node c (Node Black y j x) s (Node Black l p N))"
    "changes_only (insert p (insert s (insert j (set (addrs l) \<union> ctx_addrs k)))) t t'"
    by (rule erase_outer_right [OF z [unfolded r]])
  have "repaired (plug k (Node c (Node Black r s l) p N)) t (Some t')"
    by (rule repairedI [OF refl f(2) _ _ f(3)]) (use r N k h lr in \<open>auto simp: rbt_plug\<close>)
  then show ?thesis using f(1) by auto
qed

lemma erase_round_right:
  fixes t :: "'z rb_tree_scheme"
  assumes z: "zip_at t k (Node c S p N)" and N: "col N = Black" "inv_c N" "inv_h N"
    and k: "ctx_c k" "c = Red \<longrightarrow> col S = Black \<and> ctx_col k = Black"
    and h: "ctx_h k (Suc (bh N) + (if c = Black then 1 else 0))"
    and S: "inv_c S" "inv_h S" "bh S = Suc (bh N)"
    and IH: "\<And>(t1 :: 'z rb_tree_scheme) M. zip_at t1 k M \<Longrightarrow> k \<noteq> [] \<Longrightarrow> col M = Black \<Longrightarrow> inv_c M \<Longrightarrow> inv_h M \<Longrightarrow> ctx_c k
      \<Longrightarrow> ctx_h k (Suc (bh M)) \<Longrightarrow> repaired (plug k M) t1 (rb_erase_color_loop dummy_rotate (ptr M) (up k) t1)"
  shows "repaired (plug k (Node c S p N)) t (rb_erase_color_loop dummy_rotate (ptr N) p t)"
proof -
  obtain sc l s r where Sn: "S = Node sc r s l" using bh_Suc [OF S(3)] by blast
  note z' = z [unfolded zip_at_def Sn, simplified]
  have ne: "ptr N \<noteq> s" using zip_distinct [OF z] z' Sn by (cases N) auto
  note unf = rb_erase_color_loop.simps [of dummy_rotate "ptr N" p t]
  show ?thesis
  proof (cases sc)
    case Black
    have c1: "get_right t p = Some (ptr N)" "get_left t p = Some s" "erase_case1_right dummy_rotate p s t = Some (s, t)"
      using z' Black pc_is_black [of p Black, simplified] by (simp_all add: get_simps erase_case1_right_def)
    have "(\<exists>t'. erase_cases_right dummy_rotate p s t = Some (0, t')
        \<and> repaired (plug k (Node c (Node Black r s l) p N)) t (Some t'))
    \<or> (\<exists>t'. c = Black \<and> col l = Black \<and> col r = Black \<and> erase_cases_right dummy_rotate p s t = Some (up k, t')
        \<and> zip_at t' k (Node Black (Node Red r s l) p N) \<and> changes_only {p, s} t t')"
      by (rule erase_step_right) (use z N k h S Sn Black in auto)
    then show ?thesis
    proof (elim disjE exE conjE)
      fix t' assume "erase_cases_right dummy_rotate p s t = Some (0, t')"
        "repaired (plug k (Node c (Node Black r s l) p N)) t (Some t')"
      then show ?thesis using unf c1 ne Sn Black by simp
    next
      fix t' assume f: "c = Black" "col l = Black" "col r = Black" "erase_cases_right dummy_rotate p s t = Some (up k, t')"
        "zip_at t' k (Node Black (Node Red r s l) p N)" "changes_only {p, s} t t'"
      have e: "rb_erase_color_loop dummy_rotate (ptr N) p t
          = (if up k \<noteq> 0 then rb_erase_color_loop dummy_rotate p (up k) t' else Some t')"
        using unf c1 ne f(4) by simp
      show ?thesis
      proof (cases k)
        case Nil
        then have "rb_erase_color_loop dummy_rotate (ptr N) p t = Some t'" using e by simp
        then show ?thesis
          by (rule repairedI [OF _ f(5) _ _ f(6)]) (use f S N k h Sn Black Nil in \<open>auto simp: rbt_def\<close>)
      next
        case (Cons f0 k0)
        then have "up k \<noteq> 0" using f(5) holds_ctx_ptr [of "rb_nodes t'" k p] by (auto simp: zip_at_def)
        moreover have "repaired (plug k (Node Black (Node Red r s l) p N)) t' (rb_erase_color_loop dummy_rotate p (up k) t')"
          using IH [OF f(5)] S N k h Sn Black f(1-3) Cons by simp
        ultimately show ?thesis
          using repaired_step [OF _ f(6)] e f(1) Sn Black by (auto simp: addrs_plug)
      qed
    qed
  next
    case Red
    then have c: "c = Black" "col l = Black" "col r = Black" using k S Sn by (cases c; simp)+
    have bl: "bh l = Suc (bh N)" "bh r = Suc (bh N)" using S Sn Red by simp_all
    then obtain l2 s2 r2 where l: "l = Node Black r2 s2 l2" using bh_Suc [OF bl(1)] c by auto
    obtain t1 where f: "erase_case1_right dummy_rotate p s t = Some (s2, t1)"
      "zip_at t1 k (Node Black r s (Node Red l p N))"
      "changes_only (insert p (insert s (set (addrs l) \<union> ctx_addrs k))) t t1"
      using erase_case1_right_correct [where t = t and k = k and N = N and p = p and m = l and s = s and r = r] z Sn Red c l by auto
    have "(\<exists>t'. erase_cases_right dummy_rotate p s2 t1 = Some (0, t')
        \<and> repaired (plug (In_right Black r s # k) (Node Red (Node Black r2 s2 l2) p N)) t1 (Some t'))
    \<or> (\<exists>t'. Red = Black \<and> col l2 = Black \<and> col r2 = Black \<and> erase_cases_right dummy_rotate p s2 t1 = Some (up (In_right Black r s # k), t')
        \<and> zip_at t' (In_right Black r s # k) (Node Black (Node Red r2 s2 l2) p N) \<and> changes_only {p, s2} t1 t')"
      by (rule erase_step_right) (use f(2) N k h S Sn Red c l bl in \<open>auto simp: zip_at_left zip_at_right\<close>)
    then obtain t' where g: "erase_cases_right dummy_rotate p s2 t1 = Some (0, t')"
      "repaired (plug k (Node Black r s (Node Red l p N))) t1 (Some t')"
      using l by auto
    have "get_right t p = Some (ptr N)" "get_left t p = Some s" using z' by (simp_all add: get_simps)
    then have "rb_erase_color_loop dummy_rotate (ptr N) p t = Some t'"
      using unf ne f(1) g(1) by simp
    moreover have "repaired (plug k (Node c S p N)) t (Some t')"
      by (rule repaired_step [OF g(2) f(3)]) (auto simp: addrs_plug Sn ctx_addrs_eq)
    ultimately show ?thesis by simp
  qed
qed

lemma erase_loop_correct:
  assumes "zip_at t k N" "k \<noteq> []" "col N = Black" "inv_c N" "inv_h N" "ctx_c k" "ctx_h k (Suc (bh N))"
  shows "repaired (plug k N) t (rb_erase_color_loop dummy_rotate (ptr N) (up k) t)"
  using assms
proof (induction k arbitrary: t N rule: length_induct)
  case (1 k)
  note prems = "1.prems"
  obtain f k1 where kc: "k = f # k1" using prems(2) by (cases k) auto
  have IH: "repaired (plug k1 M) t1 (rb_erase_color_loop dummy_rotate (ptr M) (up k1) t1)"
    if "zip_at t1 k1 M" "k1 \<noteq> []" "col M = Black" "inv_c M" "inv_h M" "ctx_c k1" "ctx_h k1 (Suc (bh M))"
    for t1 :: "'a rb_tree_scheme" and M
    by (rule "1.IH" [rule_format, OF _ that]) (simp add: kc)
  show ?case
  proof (cases f)
    case f: (In_left c p S)
    have "repaired (plug k1 (Node c N p S)) t (rb_erase_color_loop dummy_rotate (ptr N) p t)"
      by (rule erase_round_left; (erule (6) IH)?) (use prems in \<open>auto simp: kc f zip_at_left\<close>)
    then show ?thesis by (simp add: kc f)
  next
    case f: (In_right c S p)
    have "repaired (plug k1 (Node c S p N)) t (rb_erase_color_loop dummy_rotate (ptr N) p t)"
      by (rule erase_round_right; (erule (6) IH)?) (use prems in \<open>auto simp: kc f zip_at_right\<close>)
    then show ?thesis by (simp add: kc f)
  qed
qed

end
