(* ===== verification/Rbtree_Unlink.thy ===== *)
theory Rbtree_Unlink
  imports Rbtree_Erase
begin

text \<open>
  Unlinking a node: the three cases of \<open>__rb_erase_augmented\<close> as rewrites of the focused tree, and
  the correctness of \<open>rb_erase\<close> and \<open>rb_insert_color\<close> on whole trees.
\<close>

lemma paint_simps [simp]: "ptr (paint c T) = ptr T" "addrs (paint c T) = addrs T" "(paint c T = Leaf) = (T = Leaf)"
  by (cases T; simp)+

lemma erase_one_child_correct:
  assumes z: "zip_at t k (Node c Leaf a r)"
  obtains t' where "erase_one_child a (ptr r) t = Some (if r = Leaf \<and> c = Black then up k else 0, up k, t')"
    and "zip_at t' k (paint c r)" and "changes_only (set (addrs r) \<union> ctx_addrs k) t t'"
proof -
  note z' = z [unfolded zip_at_def, simplified]
  have al: "up k AND 3 = 0" by (rule up_aligned [of "rb_nodes t" k a]) (use z' in simp)
  have d: "a \<notin> ctx_addrs k" "distinct (before k @ after k)" "set (addrs r) \<inter> ctx_addrs k = {}" "distinct (addrs r)"
    using zip_distinct [OF z] by (auto simp: ctx_addrs_eq)
  obtain h' where h: "rb_change_child a (ptr r) (up k) t =
      Some (t\<lparr>rb_nodes := h', rb_root := if k = [] then ptr r else rb_root t\<rparr>)"
    "holds_ctx h' k (ptr r)" "\<And>v. k = [] \<or> v \<noteq> up k \<Longrightarrow> h' v = rb_nodes t v"
    using change_child [of t k a "ptr r"] z' d by auto
  have fr: "h' v = rb_nodes t v" if "v \<notin> ctx_addrs k" for v
    using h(3) [of v] that up_in [of k] by blast
  have hr: "holds h' a r" by (rule holds_cong [OF fr]) (use z' d in auto)
  have rt: "rb_root t = top k a" using z' by simp
  show ?thesis
  proof (cases r)
    case Leaf
    have "zip_at (t\<lparr>rb_nodes := h', rb_root := if k = [] then ptr r else rb_root t\<rparr>) k Leaf"
      using h(2) Leaf d(2) rt top_const [of k a 0] by (auto simp: zip_at_def)
    moreover have "changes_only (set (addrs r) \<union> ctx_addrs k) t (t\<lparr>rb_nodes := h', rb_root := if k = [] then ptr r else rb_root t\<rparr>)"
      by (rule changes_onlyI) (use fr in blast)
    moreover have "erase_one_child a 0 t = Some (if c = Black then up k else 0, up k,
        t\<lparr>rb_nodes := h', rb_root := if k = [] then ptr r else rb_root t\<rparr>)"
      using h(1) z' al Leaf pc_parent [OF al, of Red] pc_parent [OF al, of Black] pc_is_black [OF al, of c]
      by (cases c) (auto simp: erase_one_child_def get_simps Let_def)
    ultimately show ?thesis using that Leaf by auto
  next
    case (Node e x b y)
    let ?h = "h'(b \<mapsto> \<lparr>rb_parent_color = up k + cbit c, rb_right = ptr y, rb_left = ptr x\<rparr>)"
    let ?t = "t\<lparr>rb_nodes := ?h, rb_root := if k = [] then ptr r else rb_root t\<rparr>"
    have "zip_at ?t k (paint c r)"
      using h(2) Node d zip_distinct [OF z] rt top_const [of k a b] hr by (auto simp: zip_at_def)
    moreover have "changes_only (set (addrs r) \<union> ctx_addrs k) t ?t"
      by (rule changes_onlyI) (use fr Node in auto)
    moreover have "erase_one_child a (ptr r) t = Some (0, up k, ?t)"
      using h(1) z' al Node hr pc_parent [OF al, of c]
      by (auto simp: erase_one_child_def get_simps Let_def node_ops)
    ultimately show ?thesis using that Node by auto
  qed
qed

lemma erase_left_child_correct:
  assumes z: "zip_at t k (Node c l a Leaf)" and l: "l \<noteq> Leaf"
  obtains t' where "erase_left_child a (ptr l) t = Some (0, up k, t')"
    and "zip_at t' k (paint c l)" and "changes_only (set (addrs l) \<union> ctx_addrs k) t t'"
proof -
  note z' = z [unfolded zip_at_def, simplified]
  have al: "up k AND 3 = 0" by (rule up_aligned [of "rb_nodes t" k a]) (use z' in simp)
  obtain e x b y where Node: "l = Node e x b y" using l by (cases l) auto
  have d: "a \<notin> ctx_addrs k" "distinct (before k @ after k)" "set (addrs l) \<inter> ctx_addrs k = {}" "distinct (addrs l)"
    "b \<notin> ctx_addrs k"
    using zip_distinct [OF z] Node by (auto simp: ctx_addrs_eq)
  let ?t1 = "t\<lparr>rb_nodes := (rb_nodes t)(b \<mapsto> \<lparr>rb_parent_color = up k + cbit c, rb_right = ptr y, rb_left = ptr x\<rparr>)\<rparr>"
  obtain h' where h: "rb_change_child a b (up k) ?t1 =
      Some (?t1\<lparr>rb_nodes := h', rb_root := if k = [] then b else rb_root ?t1\<rparr>)"
    "holds_ctx h' k b" "\<And>v. k = [] \<or> v \<noteq> up k \<Longrightarrow> h' v = rb_nodes ?t1 v"
    using change_child [of ?t1 k a b] z' d by auto
  have fr: "h' v = rb_nodes ?t1 v" if "v \<notin> ctx_addrs k" for v
    using h(3) [of v] that up_in [of k] by blast
  have rt: "rb_root t = top k a" using z' by simp
  let ?t = "t\<lparr>rb_nodes := h', rb_root := if k = [] then b else rb_root t\<rparr>"
  have hx: "holds (rb_nodes ?t1) b x" "holds (rb_nodes ?t1) b y" using z' Node by auto
  have "holds h' b x" by (rule holds_cong [OF fr hx(1)]) (use d Node in auto)
  moreover have "holds h' b y" by (rule holds_cong [OF fr hx(2)]) (use d Node in auto)
  moreover have "h' b = rb_nodes ?t1 b" by (rule fr) (rule d)
  ultimately have "zip_at ?t k (paint c l)"
    using h(2) Node zip_distinct [OF z] rt top_const [of k a b] z' by (auto simp: zip_at_def)
  moreover have "changes_only (set (addrs l) \<union> ctx_addrs k) t ?t"
    by (rule changes_onlyI) (use fr Node in auto)
  moreover have "erase_left_child a (ptr l) t = Some (0, up k, ?t)"
    using h(1) z' al Node pc_parent [OF al, of c]
    by (auto simp: erase_left_child_def get_simps Let_def node_ops)
  ultimately show ?thesis using that by auto
qed

text \<open>The left spine of a subtree, as a path that may end under any parent.\<close>

fun up_to :: "u64 \<Rightarrow> frame list \<Rightarrow> u64" where
  "up_to b [] = b"
| "up_to b (f # k) = up (f # k)"

fun seg :: "(u64 \<rightharpoonup> rb_node) \<Rightarrow> u64 \<Rightarrow> frame list \<Rightarrow> u64 \<Rightarrow> bool" where
  "seg h b [] x = True"
| "seg h b (In_left c a r # k) x =
     (h a = Some \<lparr>rb_parent_color = up_to b k + cbit c, rb_right = ptr r, rb_left = x\<rparr> \<and> ok_addr a
      \<and> holds h a r \<and> seg h b k a)"
| "seg h b (In_right c l a # k) x =
     (h a = Some \<lparr>rb_parent_color = up_to b k + cbit c, rb_right = x, rb_left = ptr l\<rparr> \<and> ok_addr a
      \<and> holds h a l \<and> seg h b k a)"

lemma up_append: "up (sp @ k) = up_to (up k) sp"
  by (cases sp rule: up.cases) simp_all

lemma up_to_ne: "sp \<noteq> [] \<Longrightarrow> up_to b sp = up sp"
  by (cases sp) auto

lemma up_to_append: "up_to b (sp @ k) = up_to (up_to b k) sp"
  by (cases sp rule: up.cases) simp_all

lemma top_append: "top (sp @ k) x = top k (top sp x)"
  by (induction sp x rule: top.induct) auto

lemma holds_ctx_append: "holds_ctx h (sp @ k) x \<longleftrightarrow> seg h (up k) sp x \<and> holds_ctx h k (top sp x)"
  by (induction sp arbitrary: x rule: ctx_addrs.induct) (auto simp: up_append)

lemma seg_append: "seg h b (sp @ k) x \<longleftrightarrow> seg h (up_to b k) sp x \<and> seg h b k (top sp x)"
  by (induction sp arbitrary: x rule: ctx_addrs.induct) (auto simp: up_to_append)

lemma seg_cong: "(\<And>a. a \<in> ctx_addrs k \<Longrightarrow> h' a = h a) \<Longrightarrow> seg h b k x \<Longrightarrow> seg h' b k x"
  by (induction k arbitrary: x rule: ctx_addrs.induct) (auto intro: holds_cong)

lemma before_append: "before (sp @ k) = before k @ before sp"
  by (induction sp rule: before.induct) auto

lemma after_append: "after (sp @ k) = after sp @ after k"
  by (induction sp rule: after.induct) auto

lemma ctx_addrs_append: "ctx_addrs (sp @ k) = ctx_addrs sp \<union> ctx_addrs k"
  by (induction sp rule: ctx_addrs.induct) auto

lemma plug_append: "plug (sp @ k) T = plug k (plug sp T)"
  by (induction sp T rule: plug.induct) auto

definition left_spine :: "frame list \<Rightarrow> bool" where
  "left_spine sp \<longleftrightarrow> (\<forall>f\<in>set sp. \<exists>c a r. f = In_left c a r)"

lemma left_spine_before: "left_spine sp \<Longrightarrow> before sp = []"
  by (induction sp rule: before.induct) (auto simp: left_spine_def)

lemma leftmost_split:
  assumes "T \<noteq> Leaf"
  obtains sp e s r where "T = plug sp (Node e Leaf s r)" "left_spine sp"
  using assms
proof (induction T arbitrary: thesis)
  case (Node c l a r)
  show ?case
  proof (cases "l = Leaf")
    case True
    then show ?thesis using Node.prems(1) [of "[]" c a r] by (simp add: left_spine_def)
  next
    case False
    then obtain sp e s y where "l = plug sp (Node e Leaf s y)" "left_spine sp" using Node.IH(1) by blast
    then show ?thesis using Node.prems(1) [of "sp @ [In_left c a r]" e s y]
      by (simp add: plug_append left_spine_def)
  qed
qed simp

text \<open>Replacing the parent of the outermost node of a path.\<close>

lemma seg_rebase:
  assumes "seg h b sp x" "sp \<noteq> []" "distinct (before sp @ after sp)" "b AND 3 = 0"
  obtains n where "h (top sp x) = Some n"
    and "seg (h(top sp x \<mapsto> n\<lparr>rb_parent_color := (rb_parent_color n AND 1) + b'\<rparr>)) b' sp x"
proof -
  obtain sp0 f where sp: "sp = sp0 @ [f]" using assms(2) by (cases sp rule: rev_cases) auto
  show ?thesis
  proof (cases f)
    case f: (In_left c a r)
    have "a \<notin> ctx_addrs sp0" "a \<notin> set (addrs r)"
      using assms(3) by (auto simp: sp f before_append after_append ctx_addrs_eq)
    then show ?thesis
      using assms(1,4) by (intro that) (auto simp: sp f seg_append top_append add.commute intro: seg_cong [of sp0, rotated])
  next
    case f: (In_right c l a)
    have "a \<notin> ctx_addrs sp0" "a \<notin> set (addrs l)"
      using assms(3) by (auto simp: sp f before_append after_append ctx_addrs_eq)
    then show ?thesis
      using assms(1,4) by (intro that) (auto simp: sp f seg_append top_append add.commute intro: seg_cong [of sp0, rotated])
  qed
qed

lemma top_in: "sp \<noteq> [] \<Longrightarrow> top sp x \<in> ctx_addrs sp"
proof (induction sp x rule: top.induct)
  case (2 c a r k x)
  then show ?case by (cases k) auto
next
  case (3 c l a k x)
  then show ?case by (cases k) auto
qed simp

lemma seg_top_ok: "seg h b sp x \<Longrightarrow> sp \<noteq> [] \<Longrightarrow> ok_addr (top sp x)"
proof -
  assume a: "seg h b sp x" "sp \<noteq> []"
  then obtain sp0 f where sp: "sp = sp0 @ [f]" by (cases sp rule: rev_cases) auto
  show ?thesis using a by (cases f) (auto simp: sp seg_append top_append)
qed

lemma successor_loop_correct:
  assumes "seg (rb_nodes t) b sp s" "left_spine sp" "sp \<noteq> []" "rb_nodes t s = Some n" "rb_left n = 0" "s \<noteq> 0"
  shows "\<exists>y. get_left t (top sp s) = Some y \<and> y \<noteq> 0 \<and> successor_loop t (top sp s) y = Some (up sp, s)"
  using assms(1-3)
proof (induction sp arbitrary: b rule: rev_induct)
  case (snoc f sp)
  obtain c a r where f: "f = In_left c a r" using snoc.prems(2) by (auto simp: left_spine_def)
  have sg: "seg (rb_nodes t) a sp s" and l: "left_spine sp"
    and g: "get_left t a = Some (top sp s)"
    using snoc.prems by (auto simp: f seg_append left_spine_def get_simps)
  show ?case
  proof (cases "sp = []")
    case True
    then show ?thesis using g assms(4-6) by (simp add: f top_append successor_loop.simps [of t a] get_simps)
  next
    case False
    then obtain y where "get_left t (top sp s) = Some y" "y \<noteq> 0" "successor_loop t (top sp s) y = Some (up sp, s)"
      using snoc.IH [OF sg l False] by blast
    moreover have "top (sp @ [f]) s = a" "up (sp @ [f]) = up sp"
      using False by (simp_all add: f top_append up_append up_to_ne)
    ultimately show ?thesis using g seg_top_ok [OF sg False]
      by (simp add: successor_loop.simps [of t "top sp s"] successor_loop.simps [of t a])
  qed
qed simp

lemma erase_successor_correct:
  assumes z: "zip_at t (sp @ In_right c l a # k) (Node e Leaf s r)" and ls: "left_spine sp"
  obtains h1 x where "erase_successor dummy_propagate dummy_copy a (top sp s) t =
      Some (s, up_to s sp, ptr r, t\<lparr>rb_nodes := h1\<rparr>)"
    and "h1 s = Some \<lparr>rb_parent_color = x + cbit e, rb_right = top sp (ptr r), rb_left = 0\<rparr>" and "x AND 3 = 0"
    and "seg h1 s sp (ptr r)" and "\<And>v. v \<notin> insert s (ctx_addrs sp) \<Longrightarrow> h1 v = rb_nodes t v"
proof -
  note z' = z [unfolded zip_at_def holds_ctx_append, simplified]
  have d: "distinct (before sp @ after sp)" "s \<notin> ctx_addrs sp"
    using zip_distinct [OF z] by (auto simp: before_append after_append ctx_addrs_eq)
  have al: "up (sp @ In_right c l a # k) AND 3 = 0"
    by (rule up_aligned [of "rb_nodes t" _ s]) (use z in \<open>simp add: zip_at_def\<close>)
  show ?thesis
  proof (cases sp)
    case Nil
    show ?thesis
      by (rule that [of "rb_nodes t" a])
        (use z' al Nil in \<open>auto simp: erase_successor_def get_simps dummy_copy_def top_append\<close>)
  next
    case (Cons f sp1)
    then obtain d0 q w where f: "f = In_left d0 q w" using ls by (auto simp: left_spine_def)
    obtain y where y: "get_left t (top sp s) = Some y" "y \<noteq> 0" "successor_loop t (top sp s) y = Some (q, s)"
      using successor_loop_correct [of t a sp s] z' ls Cons f by (auto simp: up_append)
    let ?h1 = "(rb_nodes t)(q \<mapsto> \<lparr>rb_parent_color = up_to a sp1 + cbit d0, rb_right = ptr w, rb_left = ptr r\<rparr>,
       s \<mapsto> \<lparr>rb_parent_color = up (sp @ In_right c l a # k) + cbit e, rb_right = top sp s, rb_left = 0\<rparr>)"
    have q: "q \<notin> ctx_addrs sp1" "q \<noteq> s" "q \<notin> set (addrs w)" "s \<notin> set (addrs w)" "s \<notin> ctx_addrs sp1"
      using d by (auto simp: Cons f ctx_addrs_eq)
    have t1: "top sp s = top sp (ptr r)" by (rule top_const) (simp add: Cons)
    have sq: "rb_nodes t q = Some \<lparr>rb_parent_color = up_to a sp1 + cbit d0, rb_right = ptr w, rb_left = s\<rparr>"
      "ok_addr q" "holds (rb_nodes t) q w" "seg (rb_nodes t) a sp1 q"
      using z' by (simp_all add: Cons f)
    have sg: "seg ?h1 a sp (ptr r)"
      using sq q by (auto simp: Cons f intro: seg_cong [of sp1, rotated])
    obtain n where n: "?h1 (top sp (ptr r)) = Some n"
      "seg (?h1(top sp (ptr r) \<mapsto> n\<lparr>rb_parent_color := (rb_parent_color n AND 1) + s\<rparr>)) s sp (ptr r)"
      using seg_rebase [OF sg _ d(1), of s] z' Cons by auto
    let ?h = "?h1(top sp (ptr r) \<mapsto> n\<lparr>rb_parent_color := (rb_parent_color n AND 1) + s\<rparr>)"
    have tin: "top sp (ptr r) \<in> ctx_addrs sp" by (rule top_in) (simp add: Cons)
    have ts: "top sp (ptr r) \<noteq> s" using tin d(2) by auto
    show ?thesis
    proof (rule that [of ?h "up (sp @ In_right c l a # k)"])
      have s: "rb_nodes t s = Some \<lparr>rb_parent_color = up (sp @ In_right c l a # k) + cbit e, rb_right = ptr r, rb_left = 0\<rparr>"
        using z by (simp add: zip_at_def)
      let ?t0 = "t\<lparr>rb_nodes := (rb_nodes t)(q \<mapsto> \<lparr>rb_parent_color = up_to a sp1 + cbit d0, rb_right = ptr w, rb_left = ptr r\<rparr>)\<rparr>"
      have "get_right t s = Some (ptr r)" "set_left q (ptr r) t = Some ?t0"
        using s sq by (simp_all add: node_ops)
      moreover have "set_right s (top sp s) ?t0 = Some (t\<lparr>rb_nodes := ?h1\<rparr>)"
        using s q(2) by (simp add: node_ops)
      moreover have "rb_set_parent (top sp s) s (t\<lparr>rb_nodes := ?h1\<rparr>) = Some (t\<lparr>rb_nodes := ?h\<rparr>)"
        using n(1) unfolding t1 by (simp add: node_ops)
      ultimately show "erase_successor dummy_propagate dummy_copy a (top sp s) t = Some (s, up_to s sp, ptr r, t\<lparr>rb_nodes := ?h\<rparr>)"
        using y Cons f by (simp add: erase_successor_def dummy_copy_def dummy_propagate_def del: top.simps)
      show "?h v = rb_nodes t v" if "v \<notin> insert s (ctx_addrs sp)" for v
        using that tin by (auto simp: Cons f)
    qed (use al n(2) ts t1 in simp_all)
  qed
qed

lemma paint_black:
  assumes "holds (rb_nodes t) p T" and "T \<noteq> Leaf" and "distinct (addrs T)"
  obtains h' where "rb_set_parent_color (ptr T) q RB_BLACK t = Some (t\<lparr>rb_nodes := h'\<rparr>)"
    and "holds h' q (paint Black T)" and "\<And>a. a \<notin> set (addrs T) \<Longrightarrow> h' a = rb_nodes t a"
proof -
  obtain c l a r where T: "T = Node c l a r" using assms(2) by (cases T) auto
  show ?thesis
    by (rule that [of "(rb_nodes t)(a \<mapsto> \<lparr>rb_parent_color = q + 1, rb_right = ptr r, rb_left = ptr l\<rparr>)"])
      (use T assms in \<open>auto simp: node_ops RB_BLACK_def\<close>)
qed

lemma erase_two_children_correct:
  assumes z: "zip_at t (sp @ In_right c l a # k) (Node e Leaf s r)" and ls: "left_spine sp" and l: "l \<noteq> Leaf"
  obtains t' where "erase_two_children dummy_propagate dummy_copy a (top sp s) t =
      Some (if r = Leaf \<and> e = Black then up_to s sp else 0, s, t')"
    and "zip_at t' (sp @ In_right c l s # k) (paint Black r)"
    and "changes_only (insert s (ctx_addrs (sp @ In_right c l s # k) \<union> set (addrs r))) t t'"
proof -
  note z' = z [unfolded zip_at_def holds_ctx_append, simplified]
  obtain h1 x where A: "erase_successor dummy_propagate dummy_copy a (top sp s) t =
      Some (s, up_to s sp, ptr r, t\<lparr>rb_nodes := h1\<rparr>)"
    "h1 s = Some \<lparr>rb_parent_color = x + cbit e, rb_right = top sp (ptr r), rb_left = 0\<rparr>" "x AND 3 = 0"
    "seg h1 s sp (ptr r)" and fr1: "\<And>v. v \<notin> insert s (ctx_addrs sp) \<Longrightarrow> h1 v = rb_nodes t v"
    by (rule erase_successor_correct [OF z ls]) (rule that)
  have d: "distinct (before k @ addrs l @ a # s # addrs r @ after sp @ after k)"
    using zip_distinct [OF z] left_spine_before [OF ls] by (simp add: before_append after_append)
  have csp: "ctx_addrs sp = set (after sp)" using left_spine_before [OF ls] by (simp add: ctx_addrs_eq)
  have d': "s \<notin> ctx_addrs k" "s \<notin> ctx_addrs sp" "s \<noteq> a" "a \<noteq> s" "s \<notin> set (addrs l)" "s \<notin> set (addrs r)" "distinct (addrs l)" "distinct (addrs r)"
    "a \<notin> ctx_addrs k" "a \<notin> ctx_addrs sp" "a \<notin> set (addrs l)" "a \<notin> set (addrs r)" "distinct (before k @ after k)"
    "set (addrs l) \<inter> (ctx_addrs k \<union> ctx_addrs sp \<union> set (addrs r)) = {}"
    "set (addrs r) \<inter> (ctx_addrs k \<union> ctx_addrs sp) = {}" "ctx_addrs sp \<inter> ctx_addrs k = {}"
    using d unfolding csp by (auto simp: ctx_addrs_eq)
  have hs: "holds (rb_nodes t) a l" "holds (rb_nodes t) s r" "holds_ctx (rb_nodes t) k a" "ok_addr s"
    "rb_nodes t a = Some \<lparr>rb_parent_color = up k + cbit c, rb_right = top sp s, rb_left = ptr l\<rparr>" "ok_addr a"
    using z' by auto
  have alk: "up k AND 3 = 0" using up_aligned hs(3) by blast
  let ?h2 = "h1(s \<mapsto> \<lparr>rb_parent_color = x + cbit e, rb_right = top sp (ptr r), rb_left = ptr l\<rparr>)"
  let ?t2 = "t\<lparr>rb_nodes := ?h2\<rparr>"
  have fr2: "?h2 v = rb_nodes t v" if "v \<notin> insert s (ctx_addrs sp)" for v using fr1 [OF that] that by auto
  have "holds ?h2 a l" by (rule holds_cong [OF fr2 hs(1)]) (use d' in blast)
  then have "holds (rb_nodes ?t2) a l" by simp
  then obtain h3 where B: "reparent (ptr l) s ?t2 = Some (?t2\<lparr>rb_nodes := h3\<rparr>)" "holds h3 s l"
    and fr3: "\<And>v. v \<notin> set (addrs l) \<Longrightarrow> h3 v = ?h2 v"
    using reparent_correct [of ?t2 a l s] hs(6) d'(7) by auto
  let ?t3 = "t\<lparr>rb_nodes := h3\<rparr>"
  have k3: "holds_ctx (rb_nodes ?t3) k a"
  proof (simp, rule holds_ctx_cong [OF _ hs(3)])
    fix v assume "v \<in> ctx_addrs k"
    then have v: "v \<notin> set (addrs l)" "v \<notin> insert s (ctx_addrs sp)" using d' by blast+
    show "h3 v = rb_nodes t v" using fr3 [OF v(1)] fr2 [OF v(2)] by simp
  qed
  obtain h4 where C: "rb_change_child a s (up k) ?t3 =
      Some (?t3\<lparr>rb_nodes := h4, rb_root := if k = [] then s else rb_root ?t3\<rparr>)"
    "holds_ctx h4 k s" "\<And>v. k = [] \<or> v \<noteq> up k \<Longrightarrow> h4 v = rb_nodes ?t3 v"
    by (rule change_child [OF k3 _ d'(9) d'(13)]) (use hs(6) in auto)
  have fr4: "h4 v = h3 v" if "v \<notin> ctx_addrs k" for v
    using C(3) [of v] that up_in [of k] by auto
  let ?rt = "if k = [] then s else rb_root t"
  let ?t4 = "t\<lparr>rb_nodes := h4, rb_root := ?rt\<rparr>"
  have h4s: "h4 s = Some \<lparr>rb_parent_color = x + cbit e, rb_right = top sp (ptr r), rb_left = ptr l\<rparr>"
    using fr4 [of s] fr3 [of s] d' by simp
  have fr42: "h4 v = h1 v" if "v \<notin> ctx_addrs k" "v \<notin> set (addrs l)" "v \<noteq> s" for v
    using fr4 [OF that(1)] fr3 [OF that(2)] that(3) by simp
  have r4: "holds h4 s r"
  proof (rule holds_cong [OF _ hs(2)])
    fix v assume "v \<in> set (addrs r)"
    then have v: "v \<notin> ctx_addrs k" "v \<notin> set (addrs l)" "v \<noteq> s" "v \<notin> insert s (ctx_addrs sp)"
      using d' by blast+
    show "h4 v = rb_nodes t v" using fr42 [OF v(1-3)] fr1 [OF v(4)] by simp
  qed
  obtain h5 where D: "(if ptr r \<noteq> 0 then do { t \<leftarrow> rb_set_parent_color (ptr r) (up_to s sp) RB_BLACK ?t4; Some (0, t) }
      else do { b \<leftarrow> rb_is_black ?t4 s; Some (if b then up_to s sp else 0, ?t4) })
      = Some (if r = Leaf \<and> e = Black then up_to s sp else 0, t\<lparr>rb_nodes := h5, rb_root := ?rt\<rparr>)"
    "holds h5 (up_to s sp) (paint Black r)" "\<And>v. v \<notin> set (addrs r) \<Longrightarrow> h5 v = h4 v"
  proof (cases "r = Leaf")
    case True
    then show ?thesis using that [of h4] h4s pc_is_black [OF A(3), of e] by (simp add: get_simps)
  next
    case False
    have "holds (rb_nodes ?t4) s r" using r4 by simp
    then obtain h' where "rb_set_parent_color (ptr r) (up_to s sp) RB_BLACK ?t4 = Some (?t4\<lparr>rb_nodes := h'\<rparr>)"
      "holds h' (up_to s sp) (paint Black r)" "\<And>v. v \<notin> set (addrs r) \<Longrightarrow> h' v = rb_nodes ?t4 v"
      using paint_black [of ?t4 s r "up_to s sp"] False d'(8) by metis
    then show ?thesis using that [of h'] False ptr_eq_0 [OF r4] by (cases t) simp
  qed
  have fr5: "h5 v = h1 v" if "v \<notin> ctx_addrs k" "v \<notin> set (addrs l)" "v \<noteq> s" "v \<notin> set (addrs r)" for v
    using D(3) [OF that(4)] fr42 [OF that(1-3)] by simp
  let ?h6 = "h5(s \<mapsto> \<lparr>rb_parent_color = up k + cbit c, rb_right = top sp (ptr r), rb_left = ptr l\<rparr>)"
  let ?t6 = "t\<lparr>rb_nodes := ?h6, rb_root := ?rt\<rparr>"
  have "seg ?h6 s sp (ptr r)"
  proof (rule seg_cong [OF _ A(4)])
    fix v assume v: "v \<in> ctx_addrs sp"
    then have "v \<noteq> s" "v \<notin> ctx_addrs k" "v \<notin> set (addrs l)" "v \<notin> set (addrs r)" using d' by auto
    then show "?h6 v = h1 v" using fr5 [of v] by simp
  qed
  moreover have "holds ?h6 (up_to s sp) (paint Black r)" using D(2) d'(6) by simp
  moreover have "holds ?h6 s l"
  proof (rule holds_cong [OF _ B(2)])
    fix v assume v: "v \<in> set (addrs l)"
    then have "v \<noteq> s" "v \<notin> ctx_addrs k" "v \<notin> set (addrs r)" using d' by auto
    then show "?h6 v = h3 v" using D(3) [of v] fr4 [of v] by simp
  qed
  moreover have "holds_ctx ?h6 k s"
  proof (rule holds_ctx_cong [OF _ C(2)])
    fix v assume v: "v \<in> ctx_addrs k"
    then have "v \<noteq> s" "v \<notin> set (addrs r)" using d' by auto
    then show "?h6 v = h4 v" using D(3) [of v] by simp
  qed
  moreover have "rb_root t = top k a" using z' by (simp add: top_append)
  moreover have "distinct (before (sp @ In_right c l s # k) @ addrs r @ after (sp @ In_right c l s # k))"
    using d left_spine_before [OF ls] by (simp add: before_append after_append)
  ultimately have "zip_at ?t6 (sp @ In_right c l s # k) (paint Black r)"
    using hs(4) top_const [of k a s] by (auto simp: zip_at_def holds_ctx_append up_append top_append)
  moreover have "changes_only (insert s (ctx_addrs (sp @ In_right c l s # k) \<union> set (addrs r))) t ?t6"
  proof (rule changes_onlyI)
    fix v assume "v \<notin> insert s (ctx_addrs (sp @ In_right c l s # k) \<union> set (addrs r))"
    then show "?h6 v = rb_nodes t v" using fr5 [of v] fr1 [of v] by (simp add: ctx_addrs_append)
  qed
  moreover have "erase_two_children dummy_propagate dummy_copy a (top sp s) t =
      Some (if r = Leaf \<and> e = Black then up_to s sp else 0, s, ?t6)"
  proof -
    have "get_left (t\<lparr>rb_nodes := h1\<rparr>) a = Some (ptr l)" using fr1 [of a] hs(5) d' by (simp add: get_simps)
    moreover have "set_left s (ptr l) (t\<lparr>rb_nodes := h1\<rparr>) = Some ?t2" using A(2) by (simp add: node_ops)
    moreover have "ptr l \<noteq> 0" using ptr_eq_0 [OF hs(1)] l by simp
    then have "rb_set_parent (ptr l) s ?t2 = Some ?t3" using B(1) by (simp add: reparent_def)
    moreover have "get_pc ?t3 a = Some (up k + cbit c)" using fr3 [of a] fr2 [of a] hs(5) d' by (simp add: get_simps)
    moreover have "set_pc s (up k + cbit c) (t\<lparr>rb_nodes := h5, rb_root := ?rt\<rparr>) = Some ?t6"
      using D(3) [of s] h4s d'(6) by (simp add: node_ops)
    moreover have "rb_change_child a s (up k) ?t3 = Some ?t4" using C(1) by simp
    ultimately show ?thesis
      using A(1) D(1) pc_parent [OF alk, of c] by (simp add: erase_two_children_def split del: if_split cong: if_cong)
  qed
  ultimately show ?thesis using that by blast
qed

end
