(* ===== verification/Rbtree_Ops.thy ===== *)
theory Rbtree_Ops
  imports Rbtree_Unlink
begin

text \<open>
  The operations on whole trees: \<open>rb_insert_color\<close> after \<open>rb_link_node\<close> and \<open>rb_erase\<close>.
\<close>

lemma split_at: "a \<in> set (addrs T) \<Longrightarrow> \<exists>k c l r. T = plug k (Node c l a r)"
proof (induction T)
  case (Node c l b r)
  consider "a = b" | "a \<in> set (addrs l)" | "a \<in> set (addrs r)" using Node.prems by auto
  then show ?case
  proof cases
    case 1
    then show ?thesis by (intro exI [of _ "[]"]) auto
  next
    case 2
    then obtain k d x y where "l = plug k (Node d x a y)" using Node.IH(1) by blast
    then show ?thesis by (intro exI [of _ "k @ [In_left c b r]"]) (auto simp: plug_append)
  next
    case 3
    then obtain k d x y where "r = plug k (Node d x a y)" using Node.IH(2) by blast
    then show ?thesis by (intro exI [of _ "k @ [In_right c l b]"]) (auto simp: plug_append)
  qed
qed simp

lemma erase_finish:
  assumes z: "zip_at t k N" and N: "col N = Black" "inv_c N" "inv_h N" and k: "ctx_c k"
    and h: "ctx_h k (if N = Leaf \<and> e = Black then Suc (bh N) else bh N)"
    and reb: "rebalance = (if N = Leaf \<and> e = Black then up k else 0)"
  shows "repaired (plug k N) t (if rebalance \<noteq> 0 then rb_erase_color_loop dummy_rotate 0 rebalance t else Some t)"
proof (cases "N = Leaf \<and> e = Black \<and> k \<noteq> []")
  case True
  then have "up k \<noteq> 0" using z holds_ctx_ptr [of "rb_nodes t" k 0] by (auto simp: zip_at_def)
  moreover have "repaired (plug k N) t (rb_erase_color_loop dummy_rotate (ptr N) (up k) t)"
    by (rule erase_loop_correct [OF z]) (use True N k h in auto)
  ultimately show ?thesis using True reb by simp
next
  case False
  then have "rebalance = 0" using reb by (cases k) auto
  moreover have "rbt (plug k N)" using False N k h unfolding rbt_plug by (cases k) auto
  ultimately show ?thesis using z
    by (auto simp: repaired_def rep_plug changes_only_def intro!: exI [of _ t] exI [of _ "plug k N"])
qed

lemma ctx_readdress:
  "ctx_c (sp @ In_right c l a # k) = ctx_c (sp @ In_right c l b # k)"
  "ctx_col (sp @ In_right c l a # k) = ctx_col (sp @ In_right c l b # k)"
  "ctx_h (sp @ In_right c l a # k) n = ctx_h (sp @ In_right c l b # k) n"
proof -
  show b: "ctx_col (sp @ In_right c l a # k) = ctx_col (sp @ In_right c l b # k)" for sp
    by (cases sp rule: up.cases) auto
  show "ctx_c (sp @ In_right c l a # k) = ctx_c (sp @ In_right c l b # k)"
    by (induction sp rule: ctx_c.induct) (auto simp: b)
  show "ctx_h (sp @ In_right c l a # k) n = ctx_h (sp @ In_right c l b # k) n"
    by (induction sp n rule: ctx_h.induct) auto
qed

lemma no_black_height: "bh T = 0 \<Longrightarrow> inv_c T \<Longrightarrow> inv_h T \<Longrightarrow> T = Leaf \<or> (\<exists>a. T = Node Red Leaf a Leaf)"
  by (cases T; (cases "case T of Node c l a r \<Rightarrow> l"; cases "case T of Node c l a r \<Rightarrow> r")?) (auto split: if_splits)

lemma remove1_mid: "distinct (xs @ a # ys) \<Longrightarrow> remove1 a (xs @ a # ys) = xs @ ys"
  by (induction xs) auto

lemma rb_erase_correct:
  assumes rp: "rep t T" and inv: "rbt T" and a: "a \<in> set (addrs T)"
  shows "\<exists>t' T'. rb_erase a t = Some t' \<and> rep t' T' \<and> rbt T' \<and> addrs T' = remove1 a (addrs T)
    \<and> changes_only (set (addrs T')) t t'"
proof -
  obtain k c l r where T: "T = plug k (Node c l a r)" using split_at [OF a] by blast
  have z: "zip_at t k (Node c l a r)" using rp T by (simp add: rep_plug)
  note z' = z [unfolded zip_at_def, simplified]
  have reads: "get_right t a = Some (ptr r)" "get_left t a = Some (ptr l)" using z' by (simp_all add: get_simps)
  have l0: "ptr l = 0 \<longleftrightarrow> l = Leaf" "ptr r = 0 \<longleftrightarrow> r = Leaf" using ptr_eq_0 [of "rb_nodes t" a] z' by blast+
  have iv: "inv_c l" "inv_c r" "inv_h l" "inv_h r" "bh l = bh r" "ctx_c k" "ctx_h k (bh (Node c l a r))"
    "c = Red \<longrightarrow> col l = Black \<and> col r = Black \<and> ctx_col k = Black"
    using inv unfolding T rbt_plug by (cases c; cases "ctx_col k"; simp)+
  have dist: "distinct (before k @ addrs (Node c l a r) @ after k)" by (rule zip_distinct [OF z])
  have rem: "remove1 a (addrs T) = before k @ addrs l @ addrs r @ after k"
    using remove1_mid [of "before k @ addrs l" a "addrs r @ after k"] dist by (simp add: T addrs_plug)
  have key: ?thesis if s: "(if ptr l = 0 then erase_one_child a (ptr r) t
          else if ptr r = 0 then erase_left_child a (ptr l) t
          else erase_two_children dummy_propagate dummy_copy a (ptr r) t) = Some (rebalance, p, t1)"
      and g: "repaired T1 t1 (if rebalance \<noteq> 0 then rb_erase_color_loop dummy_rotate 0 rebalance t1 else Some t1)"
      and c: "changes_only A t t1" "A \<subseteq> set (addrs T1)"
      and ad: "addrs T1 = remove1 a (addrs T)"
    for rebalance p t1 T1 A
  proof -
    have e: "rb_erase a t = (if rebalance \<noteq> 0 then rb_erase_color_loop dummy_rotate 0 rebalance t1 else Some t1)"
      using s reads by (simp add: rb_erase_def rb_erase_augmented_def dummy_propagate_def)
    obtain t' T' where g': "rb_erase a t = Some t'" "rep t' T'" "rbt T'" "addrs T' = addrs T1" "changes_only (set (addrs T1)) t1 t'"
      using g unfolding e repaired_def by blast
    have "changes_only (set (addrs T1)) t t'"
      using changes_only_trans [OF changes_only_mono [OF c] g'(5)] .
    then show ?thesis using g' ad by metis
  qed
  show ?thesis
  proof (cases "l = Leaf")
    case l: True
    obtain t1 where u: "erase_one_child a (ptr r) t = Some (if r = Leaf \<and> c = Black then up k else 0, up k, t1)"
      "zip_at t1 k (paint c r)" "changes_only (set (addrs r) \<union> ctx_addrs k) t t1"
      using erase_one_child_correct [of t k c a r] z l by blast
    have "bh r = 0" using iv(5) l by simp
    then have r: "r = Leaf \<or> (\<exists>b. r = Node Red Leaf b Leaf) \<and> c = Black"
      using no_black_height [OF _ iv(2,4)] iv(8) by auto
    have "repaired (plug k (paint c r)) t1
       (if (if r = Leaf \<and> c = Black then up k else 0) \<noteq> 0
        then rb_erase_color_loop dummy_rotate 0 (if r = Leaf \<and> c = Black then up k else 0) t1 else Some t1)"
      by (rule erase_finish [OF u(2), where e = c]) (use r iv l in \<open>auto\<close>)
    then show ?thesis
      by (rule key [rotated, OF _ u(3)]) (use u(1) l l0 rem in \<open>auto simp: T addrs_plug ctx_addrs_eq\<close>)
  next
    case l: False
    show ?thesis
    proof (cases "r = Leaf")
      case r: True
      obtain t1 where u: "erase_left_child a (ptr l) t = Some (0, up k, t1)"
        "zip_at t1 k (paint c l)" "changes_only (set (addrs l) \<union> ctx_addrs k) t t1"
        using erase_left_child_correct [of t k c l a] z l r by blast
      have "bh l = 0" using iv(5) r by simp
      then have l': "\<exists>b. l = Node Red Leaf b Leaf" "c = Black"
        using no_black_height [OF _ iv(1,3)] iv(8) l by auto
      have "repaired (plug k (paint c l)) t1
         (if (0 :: u64) \<noteq> 0 then rb_erase_color_loop dummy_rotate 0 0 t1 else Some t1)"
        by (rule erase_finish [OF u(2), where e = c]) (use l' iv r in auto)
      then show ?thesis
        by (rule key [rotated, OF _ u(3)]) (use u(1) l l0 r rem in \<open>auto simp: T addrs_plug ctx_addrs_eq\<close>)
    next
      case r: False
      obtain sp e s y where sp: "r = plug sp (Node e Leaf s y)" "left_spine sp" by (rule leftmost_split [OF r])
      have T': "T = plug (sp @ In_right c l a # k) (Node e Leaf s y)" using T sp by (simp add: plug_append)
      have z2: "zip_at t (sp @ In_right c l a # k) (Node e Leaf s y)" using rp T' by (simp add: rep_plug)
      let ?K = "sp @ In_right c l s # k"
      obtain t1 where u: "erase_two_children dummy_propagate dummy_copy a (top sp s) t =
          Some (if y = Leaf \<and> e = Black then up_to s sp else 0, s, t1)"
        "zip_at t1 ?K (paint Black y)"
        "changes_only (insert s (ctx_addrs (sp @ In_right c l s # k) \<union> set (addrs y))) t t1"
        by (rule erase_two_children_correct [OF z2 sp(2) l])
      have pr: "ptr r = top sp s" using sp by (simp add: ptr_plug)
      have iv2: "inv_c y" "inv_h y" "bh y = 0" "ctx_c ?K" "ctx_h ?K (if e = Black then 1 else 0)" "e = Red \<longrightarrow> col y = Black"
        using inv unfolding T' rbt_plug ctx_readdress [where a = a and b = s] by (cases e; simp)+
      then have y: "y = Leaf \<or> (\<exists>b. y = Node Red Leaf b Leaf) \<and> e = Black"
        using no_black_height [OF iv2(3,1,2)] by auto
      have "repaired (plug ?K (paint Black y)) t1
         (if (if y = Leaf \<and> e = Black then up_to s sp else 0) \<noteq> 0
          then rb_erase_color_loop dummy_rotate 0 (if y = Leaf \<and> e = Black then up_to s sp else 0) t1 else Some t1)"
        by (rule erase_finish [OF u(2), where e = e]) (use y iv2 in \<open>auto simp: up_append\<close>)
      then show ?thesis
      proof (rule key [rotated, OF _ u(3)])
        show "insert s (ctx_addrs (sp @ In_right c l s # k) \<union> set (addrs y)) \<subseteq> set (addrs (plug ?K (paint Black y)))"
          by (auto simp: addrs_plug ctx_addrs_eq after_append before_append)
        show "addrs (plug ?K (paint Black y)) = remove1 a (addrs T)"
          unfolding rem using left_spine_before [OF sp(2)] by (simp add: sp addrs_plug before_append after_append)
      qed (use u(1) l r l0 pr in simp)
    qed
  qed
qed

end
