(* ===== verification/Rbtree_Walk.thy ===== *)
theory Rbtree_Walk
  imports Rbtree_Ops
begin

text \<open>
  Traversal and search on a represented tree: the neighbours of a node in the in-order sequence,
  its two ends, the descent to an insertion point and the lookups by comparison.
\<close>

fun hd0 :: "u64 list \<Rightarrow> u64" where
  "hd0 [] = 0"
| "hd0 (a # as) = a"

definition last0 :: "u64 list \<Rightarrow> u64" where
  "last0 xs = hd0 (rev xs)"

lemma hd0_append [simp]: "xs \<noteq> [] \<Longrightarrow> hd0 (xs @ ys) = hd0 xs"
  by (cases xs) auto

lemma last0_append [simp]: "ys \<noteq> [] \<Longrightarrow> last0 (xs @ ys) = last0 ys"
  by (simp add: last0_def)

lemma last0_single [simp]: "last0 [a] = a" "last0 [] = 0"
  by (simp_all add: last0_def)

lemma last0_mid [simp]: "last0 (xs @ a # ys) = (if ys = [] then a else last0 ys)"
  by (cases "ys = []") (simp_all add: last0_def)

lemma addrs_Nil [simp]: "addrs T = [] \<longleftrightarrow> T = Leaf"
  by (cases T) auto

lemma leftmost_loop_correct:
  "holds (rb_nodes t) p T \<Longrightarrow> T \<noteq> Leaf \<Longrightarrow> leftmost_loop t (ptr T) = Some (hd0 (addrs T))"
proof (induction T arbitrary: p)
  case (Node c l a r)
  have g: "get_left t a = Some (ptr l)" and l: "holds (rb_nodes t) a l" using Node.prems by (simp_all add: get_simps)
  show ?case
    using g Node.IH(1) [OF l] ptr_eq_0 [OF l] by (cases "l = Leaf") (simp_all add: leftmost_loop.simps [of t a])
qed simp

lemma rightmost_loop_correct:
  "holds (rb_nodes t) p T \<Longrightarrow> T \<noteq> Leaf \<Longrightarrow> rightmost_loop t (ptr T) = Some (last0 (addrs T))"
proof (induction T arbitrary: p)
  case (Node c l a r)
  have g: "get_right t a = Some (ptr r)" and r: "holds (rb_nodes t) a r" using Node.prems by (simp_all add: get_simps)
  show ?case
    using g Node.IH(2) [OF r] ptr_eq_0 [OF r]
    by (cases "r = Leaf") (simp_all add: rightmost_loop.simps [of t a])
qed simp

lemma climb_right_correct: "zip_at t k T \<Longrightarrow> T \<noteq> Leaf \<Longrightarrow> climb_right t (ptr T) = Some (hd0 (after k))"
proof (induction k arbitrary: T)
  case Nil
  then obtain c l a r where "T = Node c l a r" by (cases T) auto
  with Nil show ?case
    using pc_parent [of 0 c] by (simp add: climb_right.simps [of t a] zip_at_def get_simps)
next
  case (Cons f k)
  obtain c l a r where T: "T = Node c l a r" using Cons.prems by (cases T) auto
  have par: "rb_parent t a = Some (up (f # k))" "up (f # k) \<noteq> 0"
    using Cons.prems pc_parent [of "up (f # k)" c] up_aligned [of "rb_nodes t" "f # k" a] holds_ctx_ptr [of "rb_nodes t" "f # k" a]
    by (auto simp: T zip_at_def get_simps)
  show ?case
  proof (cases f)
    case f: (In_left d b s)
    have "get_right t b = Some (ptr s)" using Cons.prems by (simp add: f zip_at_def get_simps)
    moreover have "a \<noteq> ptr s" using zip_distinct [OF Cons.prems(1)] Cons.prems(1) by (cases s) (auto simp: T f zip_at_def)
    ultimately show ?thesis using par by (simp add: T f climb_right.simps [of t a])
  next
    case f: (In_right d s b)
    have "get_right t b = Some a" using Cons.prems by (simp add: T f zip_at_def get_simps)
    moreover have "climb_right t b = Some (hd0 (after k))"
      using Cons.IH [of "Node d s b T"] Cons.prems by (simp add: f zip_at_right)
    ultimately show ?thesis using par by (simp add: T f climb_right.simps [of t a])
  qed
qed

lemma climb_left_correct: "zip_at t k T \<Longrightarrow> T \<noteq> Leaf \<Longrightarrow> climb_left t (ptr T) = Some (last0 (before k))"
proof (induction k arbitrary: T)
  case Nil
  then obtain c l a r where "T = Node c l a r" by (cases T) auto
  with Nil show ?case
    using pc_parent [of 0 c] by (simp add: climb_left.simps [of t a] zip_at_def get_simps)
next
  case (Cons f k)
  obtain c l a r where T: "T = Node c l a r" using Cons.prems by (cases T) auto
  have par: "rb_parent t a = Some (up (f # k))" "up (f # k) \<noteq> 0"
    using Cons.prems pc_parent [of "up (f # k)" c] up_aligned [of "rb_nodes t" "f # k" a] holds_ctx_ptr [of "rb_nodes t" "f # k" a]
    by (auto simp: T zip_at_def get_simps)
  show ?case
  proof (cases f)
    case f: (In_right d s b)
    have "get_left t b = Some (ptr s)" using Cons.prems by (simp add: f zip_at_def get_simps)
    moreover have "a \<noteq> ptr s" using zip_distinct [OF Cons.prems(1)] Cons.prems(1) by (cases s) (auto simp: T f zip_at_def)
    ultimately show ?thesis using par by (simp add: T f climb_left.simps [of t a] last0_def)
  next
    case f: (In_left d b s)
    have "get_left t b = Some a" using Cons.prems by (simp add: T f zip_at_def get_simps)
    moreover have "climb_left t b = Some (last0 (before k))"
      using Cons.IH [of "Node d T b s"] Cons.prems by (simp add: f zip_at_left)
    ultimately show ?thesis using par by (simp add: T f climb_left.simps [of t a])
  qed
qed

lemma not_empty_node:
  assumes z: "zip_at t k (Node c l a r)"
  shows "RB_EMPTY_NODE t a = Some False"
proof -
  note z' = z [unfolded zip_at_def, simplified]
  have hk: "holds_ctx (rb_nodes t) k a" using z' by simp
  have ne: "up k \<noteq> a" using z' zip_distinct [OF z] up_in [of k] by (cases "k = []") (auto simp: ctx_addrs_eq)
  have "up k + cbit c \<noteq> a"
  proof
    assume e: "up k + cbit c = a"
    have "pc_parent a = a" using z' pc_parent [of a Red] by simp
    then show False using pc_parent [OF up_aligned [OF hk], of c] e ne by simp
  qed
  then show ?thesis using z' by (simp add: RB_EMPTY_NODE_def get_simps)
qed

lemma rb_next_correct:
  assumes "rep t T" and "addrs T = xs @ a # ys"
  shows "rb_next t a = Some (hd0 ys)" "rb_prev t a = Some (last0 xs)"
proof -
  obtain k c l r where T: "T = plug k (Node c l a r)" using split_at [of a T] assms(2) by auto
  have z: "zip_at t k (Node c l a r)" using assms(1) T by (simp add: rep_plug)
  note z' = z [unfolded zip_at_def, simplified]
  have reads: "get_right t a = Some (ptr r)" "get_left t a = Some (ptr l)" using z' by (simp_all add: get_simps)
  have l0: "ptr l = 0 \<longleftrightarrow> l = Leaf" "ptr r = 0 \<longleftrightarrow> r = Leaf" using ptr_eq_0 [of "rb_nodes t" a] z' by blast+
  have hl: "holds (rb_nodes t) a l" "holds (rb_nodes t) a r" using z' by simp_all
  have "xs @ a # ys = (before k @ addrs l) @ a # (addrs r @ after k)" using assms(2) T by (simp add: addrs_plug)
  moreover have "a \<notin> set (before k @ addrs l)" "a \<notin> set (addrs r @ after k)" using zip_distinct [OF z] by auto
  ultimately have e: "xs = before k @ addrs l" "ys = addrs r @ after k"
    using append_Cons_eq_iff [of a "before k @ addrs l" "addrs r @ after k" xs ys] by auto
  show "rb_next t a = Some (hd0 ys)"
    using not_empty_node [OF z] reads l0 leftmost_loop_correct [OF hl(2)] climb_right_correct [OF z]
    by (cases "r = Leaf") (simp_all add: rb_next_def e)
  show "rb_prev t a = Some (last0 xs)"
    using not_empty_node [OF z] reads l0 rightmost_loop_correct [OF hl(1)] climb_left_correct [OF z]
    by (cases "l = Leaf") (simp_all add: rb_prev_def e)
qed

lemma rb_first_correct: "rep t T \<Longrightarrow> rb_first t = Some (hd0 (addrs T))" "rep t T \<Longrightarrow> rb_last t = Some (last0 (addrs T))"
  using leftmost_loop_correct [of t 0 T] rightmost_loop_correct [of t 0 T] ptr_eq_0 [of "rb_nodes t" 0 T]
  by (cases "T = Leaf"; simp add: rep_def rb_first_def rb_last_def)+

section \<open>The descent\<close>

fun link_of :: "frame list \<Rightarrow> rb_link" where
  "link_of [] = Root_link"
| "link_of (In_left c a r # k) = Left_link a"
| "link_of (In_right c l a # k) = Right_link a"

lemma read_link_correct: "zip_at t k T \<Longrightarrow> read_link t (link_of k) = Some (ptr T)"
  by (cases k rule: link_of.cases) (auto simp: zip_at_def get_simps)

text \<open>
  A predicate that, once true, stays true along the in-order sequence: what the comparison with a
  key is on a sorted tree.
\<close>

definition splits :: "(u64 \<Rightarrow> bool) \<Rightarrow> u64 list \<Rightarrow> bool" where
  "splits go xs \<longleftrightarrow> sorted_wrt (\<lambda>x y. go x \<longrightarrow> go y) xs"

lemma splits_append: "splits go (xs @ ys) \<longleftrightarrow> splits go xs \<and> splits go ys \<and> (\<forall>x\<in>set xs. \<forall>y\<in>set ys. go x \<longrightarrow> go y)"
  by (simp add: splits_def sorted_wrt_append)

lemma splits_Cons: "splits go (x # ys) \<longleftrightarrow> splits go ys \<and> (\<forall>y\<in>set ys. go x \<longrightarrow> go y)"
  by (auto simp: splits_def)

lemma rb_descend_correct:
  assumes "zip_at t k T" and "splits go (addrs T)"
  shows "\<exists>k'. rb_descend go t (link_of k) (up k) lm = Some (up (k' @ k), link_of (k' @ k), lm \<and> before k' = [])
    \<and> plug k' Leaf = T \<and> (\<forall>x\<in>set (before k'). \<not> go x) \<and> (\<forall>x\<in>set (after k'). go x)"
  using assms
proof (induction T arbitrary: k lm)
  case Leaf
  have "read_link t (link_of k) = Some 0" using read_link_correct [OF Leaf(1)] by simp
  then show ?case by (intro exI [of _ "[]"]) (simp add: rb_descend.simps [of go t "link_of k"])
next
  case (Node c l a r)
  have rd: "read_link t (link_of k) = Some a" "a \<noteq> 0"
    using read_link_correct [OF Node.prems(1)] Node.prems(1) by (simp_all add: zip_at_def)
  have sp: "splits go (addrs l)" "splits go (addrs r)" "\<forall>y\<in>set (addrs r). go a \<longrightarrow> go y" "\<forall>x\<in>set (addrs l). go x \<longrightarrow> go a"
    using Node.prems(2) unfolding addrs.simps splits_append splits_Cons list.set by blast+
  show ?case
  proof (cases "go a")
    case True
    have "zip_at t (In_left c a r # k) l" using Node.prems(1) by (simp add: zip_at_left)
    from Node.IH(1) [OF this sp(1), of lm] obtain k' where k': "rb_descend go t (Left_link a) a lm
        = Some (up (k' @ In_left c a r # k), link_of (k' @ In_left c a r # k), lm \<and> before k' = [])"
      "plug k' Leaf = l" "\<forall>x\<in>set (before k'). \<not> go x" "\<forall>x\<in>set (after k'). go x" by auto
    show ?thesis
      using k' rd True sp(3) rb_descend.simps [of go t "link_of k" "up k" lm]
      by (intro exI [of _ "k' @ [In_left c a r]"]) (auto simp: plug_append before_append after_append)
  next
    case False
    have "zip_at t (In_right c l a # k) r" using Node.prems(1) by (simp add: zip_at_right)
    from Node.IH(2) [OF this sp(2), of False] obtain k' where k': "rb_descend go t (Right_link a) a False
        = Some (up (k' @ In_right c l a # k), link_of (k' @ In_right c l a # k), False)"
      "plug k' Leaf = r" "\<forall>x\<in>set (before k'). \<not> go x" "\<forall>x\<in>set (after k'). go x" by auto
    show ?thesis
      using k' rd False sp(4) rb_descend.simps [of go t "link_of k" "up k" lm]
      by (intro exI [of _ "k' @ [In_right c l a]"]) (auto simp: plug_append before_append after_append)
  qed
qed

lemma fresh_node [simp]:
  "m\<lparr>rb_parent_color := x, rb_right := y, rb_left := z\<rparr> = \<lparr>rb_parent_color = x, rb_right = y, rb_left = z\<rparr>"
  by (cases m) simp

lemma rb_link_node_correct:
  assumes z: "zip_at t k Leaf" and n: "n \<notin> ctx_addrs k" "ok_addr n" "rb_nodes t n = Some m"
  obtains t' where "rb_link_node n (up k) (link_of k) t = Some t'" "zip_at t' k (Node Red Leaf n Leaf)"
    "changes_only (insert n (ctx_addrs k)) t t'"
proof (cases k rule: link_of.cases)
  case 1
  let ?t = "t\<lparr>rb_nodes := (rb_nodes t)(n \<mapsto> \<lparr>rb_parent_color = 0, rb_right = 0, rb_left = 0\<rparr>), rb_root := n\<rparr>"
  have "rb_link_node n (up k) (link_of k) t = Some ?t" using 1 n by (cases t) (simp add: rb_link_node_def node_ops)
  moreover have "zip_at ?t k (Node Red Leaf n Leaf)" using 1 n by (simp add: zip_at_def)
  moreover have "changes_only (insert n (ctx_addrs k)) t ?t" by (rule changes_onlyI) simp
  ultimately show ?thesis using that by blast
next
  case (2 c a r k1)
  let ?t = "t\<lparr>rb_nodes := (rb_nodes t)(n \<mapsto> \<lparr>rb_parent_color = a, rb_right = 0, rb_left = 0\<rparr>,
     a \<mapsto> \<lparr>rb_parent_color = up k1 + cbit c, rb_right = ptr r, rb_left = n\<rparr>)\<rparr>"
  have "a \<notin> ctx_addrs k1" "a \<notin> set (addrs r)" using zip_distinct [OF z] 2 by (auto simp: ctx_addrs_eq)
  note d = this
  have "rb_link_node n (up k) (link_of k) t = Some ?t" using 2 n z by (auto simp: rb_link_node_def node_ops zip_at_def)
  moreover have "zip_at ?t k (Node Red Leaf n Leaf)" using 2 n z d by (auto simp: zip_at_def ctx_addrs_eq)
  moreover have "changes_only (insert n (ctx_addrs k)) t ?t" by (rule changes_onlyI) (auto simp: 2)
  ultimately show ?thesis using that by blast
next
  case (3 c l a k1)
  let ?t = "t\<lparr>rb_nodes := (rb_nodes t)(n \<mapsto> \<lparr>rb_parent_color = a, rb_right = 0, rb_left = 0\<rparr>,
     a \<mapsto> \<lparr>rb_parent_color = up k1 + cbit c, rb_right = n, rb_left = ptr l\<rparr>)\<rparr>"
  have "a \<notin> ctx_addrs k1" "a \<notin> set (addrs l)" using zip_distinct [OF z] 3 by (auto simp: ctx_addrs_eq)
  note d = this
  have "rb_link_node n (up k) (link_of k) t = Some ?t" using 3 n z by (auto simp: rb_link_node_def node_ops zip_at_def)
  moreover have "zip_at ?t k (Node Red Leaf n Leaf)" using 3 n z d by (auto simp: zip_at_def ctx_addrs_eq)
  moreover have "changes_only (insert n (ctx_addrs k)) t ?t" by (rule changes_onlyI) (auto simp: 3)
  ultimately show ?thesis using that by blast
qed

end
