(* ===== verification/Rbtree_Find.thy ===== *)
theory Rbtree_Find
  imports Rbtree_Walk
begin

text \<open>
  Adding a node at its place in the order, lookups by comparison, replacing a node, and the
  post-order traversal.
\<close>

definition ins_at :: "(u64 \<Rightarrow> bool) \<Rightarrow> u64 \<Rightarrow> u64 list \<Rightarrow> u64 list" where
  "ins_at go n xs = takeWhile (\<lambda>x. \<not> go x) xs @ n # dropWhile (\<lambda>x. \<not> go x) xs"

lemma set_ins_at: "set (ins_at go n xs) = insert n (set xs)"
proof -
  have "set xs = set (takeWhile (\<lambda>x. \<not> go x) xs) \<union> set (dropWhile (\<lambda>x. \<not> go x) xs)"
    by (simp flip: set_append)
  then show ?thesis by (simp add: ins_at_def)
qed

lemma ins_at_split:
  assumes "\<forall>x\<in>set xs. \<not> go x" "\<forall>x\<in>set ys. go x"
  shows "ins_at go n (xs @ ys) = xs @ n # ys" "takeWhile (\<lambda>x. \<not> go x) (xs @ ys) = xs"
proof -
  have "takeWhile (\<lambda>x. \<not> go x) ys = []" "dropWhile (\<lambda>x. \<not> go x) ys = ys" using assms(2) by (cases ys; simp)+
  then show "ins_at go n (xs @ ys) = xs @ n # ys" "takeWhile (\<lambda>x. \<not> go x) (xs @ ys) = xs"
    using assms(1) by (simp_all add: ins_at_def)
qed

lemma insert_color_correct:
  assumes z: "zip_at t k (Node Red Leaf n Leaf)" and inv: "rbt (plug k Leaf)"
  shows "repaired (plug k (Node Red Leaf n Leaf)) t (rb_insert_color n t)"
proof -
  have "rb_red_parent t n = Some (up k)" using z by (simp add: zip_at_def get_simps)
  moreover have "repaired (plug k (Node Red Leaf n Leaf)) t (rb_insert_loop dummy_rotate n (up k) t)"
    by (rule insert_loop_correct [OF z]) (use inv in \<open>auto simp: rbt_plug\<close>)
  ultimately show ?thesis by (simp add: rb_insert_color_def rb_insert_def)
qed

lemma zip_at_leftmost [simp]: "zip_at (t\<lparr>rb_leftmost := x\<rparr>) k T = zip_at t k T"
  by (simp add: zip_at_def)

lemma rep_leftmost [simp]: "rep (t\<lparr>rb_leftmost := x\<rparr>) T = rep t T"
  by (simp add: rep_def)

text \<open>Finding the place and linking the node in; the colours are repaired afterwards.\<close>

lemma link_at_place:
  assumes rp: "rep t T" and sp: "splits go (addrs T)"
    and n: "n \<notin> set (addrs T)" "ok_addr n" "rb_nodes t n = Some m"
  obtains k t1 where "T = plug k Leaf"
    and "rb_descend go t Root_link 0 True = Some (up k, link_of k, takeWhile (\<lambda>x. \<not> go x) (addrs T) = [])"
    and "rb_link_node n (up k) (link_of k) t = Some t1" and "zip_at t1 k (Node Red Leaf n Leaf)"
    and "changes_only (insert n (set (addrs T))) t t1"
    and "addrs (plug k (Node Red Leaf n Leaf)) = ins_at go n (addrs T)"
proof -
  obtain k where k: "rb_descend go t Root_link 0 True = Some (up k, link_of k, before k = [])"
    "plug k Leaf = T" "\<forall>x\<in>set (before k). \<not> go x" "\<forall>x\<in>set (after k). go x"
    using rb_descend_correct [of t "[]" T go True] rp sp by (auto simp: zip_at_Nil)
  have z: "zip_at t k Leaf" using rp k(2) rep_plug by blast
  have xs: "addrs T = before k @ after k" using k(2) addrs_plug [of k Leaf] by simp
  have ck: "ctx_addrs k = set (addrs T)" by (simp add: xs ctx_addrs_eq)
  obtain t1 where t1: "rb_link_node n (up k) (link_of k) t = Some t1" "zip_at t1 k (Node Red Leaf n Leaf)"
    "changes_only (insert n (ctx_addrs k)) t t1"
    using rb_link_node_correct [OF z _ n(2,3)] n(1) ck by blast
  show ?thesis
    by (rule that [OF k(2) [symmetric] _ t1(1,2)])
      (use k t1(3) ck ins_at_split [OF k(3,4)] in \<open>auto simp: xs addrs_plug\<close>)
qed

lemma rb_add_correct:
  assumes rp: "rep t T" and inv: "rbt T" and sp: "splits (lt n) (addrs T)"
    and n: "n \<notin> set (addrs T)" "ok_addr n" "rb_nodes t n = Some m"
  shows "\<exists>t' T'. rb_add lt n t = Some t' \<and> rep t' T' \<and> rbt T' \<and> addrs T' = ins_at (lt n) n (addrs T)
    \<and> changes_only (insert n (set (addrs T))) t t'"
proof -
  obtain k t1 where k: "T = plug k Leaf"
    "rb_descend (lt n) t Root_link 0 True = Some (up k, link_of k, takeWhile (\<lambda>x. \<not> lt n x) (addrs T) = [])"
    "rb_link_node n (up k) (link_of k) t = Some t1" "zip_at t1 k (Node Red Leaf n Leaf)"
    "changes_only (insert n (set (addrs T))) t t1"
    "addrs (plug k (Node Red Leaf n Leaf)) = ins_at (lt n) n (addrs T)"
    by (rule link_at_place [OF rp sp n])
  have "rb_add lt n t = rb_insert_color n t1" by (simp add: rb_add_def k(2,3))
  moreover have "repaired (plug k (Node Red Leaf n Leaf)) t1 (rb_insert_color n t1)"
    by (rule insert_color_correct [OF k(4)]) (use inv k(1) in simp)
  ultimately show ?thesis
    using changes_only_trans [OF k(5)] by (auto simp: repaired_def k(6) set_ins_at)
qed

text \<open>The cached tree: \<open>rb_leftmost\<close> is the first node of the order.\<close>

definition cached_rep :: "'z rb_cached_scheme \<Rightarrow> rtree \<Rightarrow> bool" where
  "cached_rep t T \<longleftrightarrow> rep t T \<and> rbt T \<and> rb_leftmost t = hd0 (addrs T)"

lemma leftmost_more: "rb_tree.more t' = rb_tree.more t \<Longrightarrow> rb_leftmost t' = rb_leftmost t"
  by (cases t; cases t') simp

lemma changes_only_leftmost: "changes_only A t t' \<Longrightarrow> rb_leftmost t' = rb_leftmost t"
  by (auto simp: changes_only_def intro: leftmost_more)

lemma insert_color_cached_correct:
  assumes z: "zip_at t k (Node Red Leaf n Leaf)" and inv: "rbt (plug k Leaf)"
    and lm: "rb_leftmost t = hd0 (addrs (plug k Leaf))" "leftmost \<longleftrightarrow> before k = []"
  shows "\<exists>t' T'. rb_insert_color_cached n leftmost t = Some t' \<and> cached_rep t' T'
    \<and> addrs T' = addrs (plug k (Node Red Leaf n Leaf))"
proof -
  let ?t = "if leftmost then t\<lparr>rb_leftmost := n\<rparr> else t"
  have "zip_at ?t k (Node Red Leaf n Leaf)" using z by simp
  from insert_color_correct [OF this inv] obtain t' T' where t': "rb_insert_color n ?t = Some t'" "rep t' T'" "rbt T'"
    "addrs T' = addrs (plug k (Node Red Leaf n Leaf))" "changes_only (set (addrs T')) ?t t'"
    unfolding repaired_def by auto
  moreover have "rb_leftmost t' = hd0 (addrs T')"
    using changes_only_leftmost [OF t'(5)] lm t'(4) by (cases leftmost) (auto simp: addrs_plug)
  ultimately show ?thesis by (auto simp: rb_insert_color_cached_def cached_rep_def)
qed

lemma rb_add_cached_correct:
  assumes rp: "cached_rep t T" and sp: "splits (lt n) (addrs T)"
    and n: "n \<notin> set (addrs T)" "ok_addr n" "rb_nodes t n = Some m"
  shows "\<exists>r t' T'. rb_add_cached lt n t = Some (r, t') \<and> cached_rep t' T'
    \<and> addrs T' = ins_at (lt n) n (addrs T) \<and> r = (if hd0 (addrs T') = n then n else 0)"
proof -
  have rp': "rep t T" "rbt T" using rp by (simp_all add: cached_rep_def)
  obtain k t1 where k: "T = plug k Leaf"
    "rb_descend (lt n) t Root_link 0 True = Some (up k, link_of k, takeWhile (\<lambda>x. \<not> lt n x) (addrs T) = [])"
    "rb_link_node n (up k) (link_of k) t = Some t1" "zip_at t1 k (Node Red Leaf n Leaf)"
    "changes_only (insert n (set (addrs T))) t t1"
    "addrs (plug k (Node Red Leaf n Leaf)) = ins_at (lt n) n (addrs T)"
    by (rule link_at_place [OF rp'(1) sp n])
  let ?lm = "takeWhile (\<lambda>x. \<not> lt n x) (addrs T) = []"
  have b: "?lm \<longleftrightarrow> before k = []"
  proof -
    have "before k @ n # after k = takeWhile (\<lambda>x. \<not> lt n x) (addrs T) @ n # dropWhile (\<lambda>x. \<not> lt n x) (addrs T)"
      using k(6) by (simp add: addrs_plug ins_at_def)
    moreover have "n \<notin> set (before k)" "n \<notin> set (after k)" using n(1) k(1) by (simp_all add: addrs_plug)
    ultimately show ?thesis
      using append_Cons_eq_iff [of n "before k" "after k"] by metis
  qed
  obtain t' T' where t': "rb_insert_color_cached n ?lm t1 = Some t'" "cached_rep t' T'"
    "addrs T' = ins_at (lt n) n (addrs T)"
    using insert_color_cached_correct [OF k(4), of ?lm] b rp changes_only_leftmost [OF k(5)] k(1,6)
    by (auto simp: cached_rep_def)
  have "hd0 (addrs T') = n \<longleftrightarrow> ?lm"
    using n(1) t'(3) set_takeWhileD [of _ "\<lambda>x. \<not> lt n x" "addrs T"]
    by (cases "takeWhile (\<lambda>x. \<not> lt n x) (addrs T)") (auto simp: ins_at_def)
  then show ?thesis using k(2,3) t' by (auto simp: rb_add_cached_def)
qed

lemma rb_erase_cached_correct:
  assumes rp: "cached_rep t T" and a: "a \<in> set (addrs T)"
  shows "\<exists>r t' T'. rb_erase_cached a t = Some (r, t') \<and> cached_rep t' T' \<and> addrs T' = remove1 a (addrs T)
    \<and> r = (if hd0 (addrs T) = a then hd0 (addrs T') else 0)
    \<and> changes_only (set (addrs T')) (t\<lparr>rb_leftmost := rb_leftmost t'\<rparr>) t'"
proof -
  have rp': "rep t T" "rbt T" "rb_leftmost t = hd0 (addrs T)" using rp by (simp_all add: cached_rep_def)
  obtain xs ys where xy: "addrs T = xs @ a # ys" using split_list [OF a] by blast
  have d: "distinct (addrs T)" using rp' by (simp add: rep_def)
  let ?t = "if rb_leftmost t = a then t\<lparr>rb_leftmost := hd0 ys\<rparr> else t"
  have "rep ?t T" using rp' by simp
  from rb_erase_correct [OF this rp'(2) a] obtain t' T' where t': "rb_erase a ?t = Some t'" "rep t' T'" "rbt T'" "addrs T' = remove1 a (addrs T)"
    "changes_only (set (addrs T')) ?t t'"
    by (elim exE conjE) (rule that)
  have e: "addrs T' = xs @ ys" using t'(4) d remove1_mid [of xs a ys] by (simp add: xy)
  have f: "hd0 (addrs T) = a \<longleftrightarrow> xs = []" using d by (cases xs) (auto simp: xy)
  have "rb_leftmost t' = hd0 (addrs T')"
    using changes_only_leftmost [OF t'(5)] rp'(3) f by (cases xs) (auto simp: e xy)
  moreover have "rb_next t a = Some (hd0 ys)" by (rule rb_next_correct [OF rp'(1) xy])
  moreover have "?t = t\<lparr>rb_leftmost := rb_leftmost t'\<rparr>"
    using changes_only_leftmost [OF t'(5)] by (cases t) auto
  ultimately show ?thesis
    using t' f rp'(3) e by (cases "xs = []") (auto simp: rb_erase_cached_def cached_rep_def)
qed

section \<open>Lookups\<close>

text \<open>A comparison is consistent with the order when its sign only goes down along the sequence.\<close>

definition ordered_by :: "(u64 \<Rightarrow> int) \<Rightarrow> u64 list \<Rightarrow> bool" where
  "ordered_by f xs \<longleftrightarrow> sorted_wrt (\<lambda>x y. sgn (f y) \<le> sgn (f x)) xs"

lemma ordered_by_node:
  assumes "ordered_by f (xs @ a # ys)"
  shows "ordered_by f xs" "ordered_by f ys" "f a < 0 \<Longrightarrow> \<forall>y\<in>set ys. f y < 0" "f a > 0 \<Longrightarrow> \<forall>x\<in>set xs. f x > 0"
    "f a = 0 \<Longrightarrow> \<forall>x\<in>set xs. f x \<ge> 0"
proof -
  have s: "\<forall>x\<in>set xs. sgn (f a) \<le> sgn (f x)" "\<forall>y\<in>set ys. sgn (f y) \<le> sgn (f a)" "ordered_by f xs" "ordered_by f ys"
    using assms by (simp_all add: ordered_by_def sorted_wrt_append)
  show "ordered_by f xs" "ordered_by f ys" by (rule s)+
  show "f a < 0 \<Longrightarrow> \<forall>y\<in>set ys. f y < 0" "f a > 0 \<Longrightarrow> \<forall>x\<in>set xs. f x > 0" "f a = 0 \<Longrightarrow> \<forall>x\<in>set xs. f x \<ge> 0"
    using s(1,2) by (force simp: sgn_if split: if_splits)+
qed

lemma rb_find_loop_correct:
  "holds (rb_nodes t) p T \<Longrightarrow> ordered_by f (addrs T) \<Longrightarrow> \<exists>x. rb_find_loop f t (ptr T) = Some x
     \<and> (x = 0 \<and> (\<forall>a\<in>set (addrs T). f a \<noteq> 0) \<or> x \<in> set (addrs T) \<and> f x = 0)"
proof (induction T arbitrary: p)
  case Leaf
  then show ?case by (simp add: rb_find_loop.simps)
next
  case (Node c l a r)
  have g: "get_left t a = Some (ptr l)" "get_right t a = Some (ptr r)" "a \<noteq> 0" "holds (rb_nodes t) a l" "holds (rb_nodes t) a r"
    using Node.prems(1) by (auto simp: get_simps)
  note o = ordered_by_node [OF Node.prems(2) [unfolded addrs.simps]]
  note unf = rb_find_loop.simps [of f t a]
  consider "f a < 0" | "f a > 0" | "f a = 0" by linarith
  then show ?case
  proof cases
    case 1
    obtain x where x: "rb_find_loop f t (ptr l) = Some x"
      "x = 0 \<and> (\<forall>a\<in>set (addrs l). f a \<noteq> 0) \<or> x \<in> set (addrs l) \<and> f x = 0" using Node.IH(1) [OF g(4) o(1)] by blast
    have "rb_find_loop f t a = Some x" using unf x(1) g 1 by simp
    moreover have "\<forall>y\<in>set (addrs r). f y \<noteq> 0" using o(3) [OF 1] by force
    ultimately show ?thesis using x(2) 1 by auto
  next
    case 2
    obtain x where x: "rb_find_loop f t (ptr r) = Some x"
      "x = 0 \<and> (\<forall>a\<in>set (addrs r). f a \<noteq> 0) \<or> x \<in> set (addrs r) \<and> f x = 0" using Node.IH(2) [OF g(5) o(2)] by blast
    have "rb_find_loop f t a = Some x" using unf x(1) g 2 by simp
    moreover have "\<forall>y\<in>set (addrs l). f y \<noteq> 0" using o(4) [OF 2] by force
    ultimately show ?thesis using x(2) 2 by auto
  next
    case 3
    then have "rb_find_loop f t a = Some a" using unf g by simp
    then show ?thesis using 3 by simp
  qed
qed

definition hd_or :: "u64 \<Rightarrow> u64 list \<Rightarrow> u64" where
  "hd_or m xs = (case xs of [] \<Rightarrow> m | x # _ \<Rightarrow> x)"

lemma hd_or_append: "hd_or m (xs @ ys) = hd_or (hd_or m ys) xs"
  by (cases xs; simp add: hd_or_def)

lemma hd_or_simps [simp]: "hd_or m [] = m" "hd_or m (x # xs) = x" "hd_or 0 xs = hd0 xs"
  by (simp_all add: hd_or_def split: list.split)

lemma rb_find_first_loop_correct:
  "holds (rb_nodes t) p T \<Longrightarrow> ordered_by f (addrs T) \<Longrightarrow>
     rb_find_first_loop f t (ptr T) m = Some (hd_or m (filter (\<lambda>a. f a = 0) (addrs T)))"
proof (induction T arbitrary: p m)
  case Leaf
  then show ?case by (simp add: rb_find_first_loop.simps)
next
  case (Node c l a r)
  have g: "get_left t a = Some (ptr l)" "get_right t a = Some (ptr r)" "a \<noteq> 0" "holds (rb_nodes t) a l" "holds (rb_nodes t) a r"
    using Node.prems(1) by (auto simp: get_simps)
  note o = ordered_by_node [OF Node.prems(2) [unfolded addrs.simps]]
  note unf = rb_find_first_loop.simps [of f t a m]
  have ne: "filter (\<lambda>a. f a = 0) (addrs r) = []" if "f a < 0" using o(3) [OF that] by (auto simp: filter_empty_conv)
  have ne2: "filter (\<lambda>a. f a = 0) (addrs l) = []" if "f a > 0" using o(4) [OF that] by (auto simp: filter_empty_conv)
  consider "f a < 0" | "f a > 0" | "f a = 0" by linarith
  then show ?case
  proof cases
    case 1
    then show ?thesis using unf g Node.IH(1) [OF g(4) o(1), of m] ne by simp
  next
    case 2
    then show ?thesis using unf g Node.IH(2) [OF g(5) o(2), of m] ne2 by simp
  next
    case 3
    then show ?thesis using unf g Node.IH(1) [OF g(4) o(1), of a] by (simp add: hd_or_append)
  qed
qed

lemma rb_find_correct:
  assumes "rep t T" "ordered_by f (addrs T)"
  shows "\<exists>x. rb_find f t = Some x \<and> (x = 0 \<and> (\<forall>a\<in>set (addrs T). f a \<noteq> 0) \<or> x \<in> set (addrs T) \<and> f x = 0)"
    "rb_find_first f t = Some (hd0 (filter (\<lambda>a. f a = 0) (addrs T)))"
  using rb_find_loop_correct [of t 0 T f] rb_find_first_loop_correct [of t 0 T f 0] assms
  by (simp_all add: rep_def rb_find_def rb_find_first_def)

section \<open>Replacing a node\<close>

lemma rb_replace_node_correct:
  assumes rp: "rep t (plug k (Node c l a r))" and n: "rb_nodes t n = Some m" "ok_addr n"
    and fresh: "n \<notin> set (addrs (plug k (Node c l a r)))"
  shows "\<exists>t'. rb_replace_node a n t = Some t' \<and> rep t' (plug k (Node c l n r))"
proof -
  have z: "zip_at t k (Node c l a r)" using rp by (simp add: rep_plug)
  note z' = z [unfolded zip_at_def, simplified]
  have d: "distinct (before k @ addrs l @ a # addrs r @ after k)" using zip_distinct [OF z] by simp
  have f: "n \<notin> ctx_addrs k" "n \<notin> set (addrs l)" "n \<notin> set (addrs r)" "n \<noteq> a" "a \<noteq> n" using fresh by (auto simp: addrs_plug ctx_addrs_eq)
  have al: "up k AND 3 = 0" by (rule up_aligned [of "rb_nodes t" k a]) (use z' in simp)
  let ?v = "\<lparr>rb_parent_color = up k + cbit c, rb_right = ptr r, rb_left = ptr l\<rparr>"
  let ?t1 = "t\<lparr>rb_nodes := (rb_nodes t)(n \<mapsto> ?v)\<rparr>"
  have d': "a \<notin> ctx_addrs k" "a \<notin> set (addrs l)" "a \<notin> set (addrs r)" "set (addrs l) \<inter> set (addrs r) = {}"
    "set (addrs l) \<inter> ctx_addrs k = {}" "set (addrs r) \<inter> ctx_addrs k = {}" "distinct (addrs l)" "distinct (addrs r)" "distinct (before k @ after k)"
    using d by (auto simp: ctx_addrs_eq)
  have h1: "holds (rb_nodes ?t1) a l" "holds (rb_nodes ?t1) a r" "holds_ctx (rb_nodes ?t1) k a" using z' f by auto
  have aa: "a AND 3 = 0" "a \<noteq> 0" using z' by auto
  obtain h2 where h2: "reparent (ptr l) n ?t1 = Some (?t1\<lparr>rb_nodes := h2\<rparr>)" "holds h2 n l"
    "\<And>v. v \<notin> set (addrs l) \<Longrightarrow> h2 v = rb_nodes ?t1 v"
    using reparent_correct [OF h1(1) aa(1) d'(7), of n] by auto
  let ?t2 = "t\<lparr>rb_nodes := h2\<rparr>"
  have hr: "holds (rb_nodes ?t2) a r"
    using holds_cong [of r h2 "rb_nodes ?t1" a, OF h2(3) h1(2)] d' by auto
  obtain h3 where h3: "reparent (ptr r) n ?t2 = Some (?t2\<lparr>rb_nodes := h3\<rparr>)" "holds h3 n r"
    "\<And>v. v \<notin> set (addrs r) \<Longrightarrow> h3 v = rb_nodes ?t2 v"
    using reparent_correct [OF hr aa(1) d'(8), of n] by auto
  let ?t3 = "t\<lparr>rb_nodes := h3\<rparr>"
  have fr3: "h3 v = rb_nodes ?t1 v" if "v \<notin> set (addrs l)" "v \<notin> set (addrs r)" for v
    using h3(3) [OF that(2)] h2(3) [OF that(1)] by simp
  have hk: "holds_ctx (rb_nodes ?t3) k a"
    using holds_ctx_cong [of k h3 "rb_nodes ?t1" a, OF fr3 h1(3)] d' by auto
  obtain h4 where h4: "rb_change_child a n (up k) ?t3 =
      Some (?t3\<lparr>rb_nodes := h4, rb_root := if k = [] then n else rb_root ?t3\<rparr>)"
    "holds_ctx h4 k n" "\<And>v. k = [] \<or> v \<noteq> up k \<Longrightarrow> h4 v = rb_nodes ?t3 v"
    by (rule change_child [OF hk aa(2) d'(1) d'(9)]) (rule that)
  have fr4: "h4 v = h3 v" if "v \<notin> ctx_addrs k" for v using h4(3) [of v] that up_in [of k] by auto
  have "holds h4 n l"
  proof (rule holds_cong [OF _ h2(2)])
    fix v assume v: "v \<in> set (addrs l)"
    then have "v \<notin> ctx_addrs k" "v \<notin> set (addrs r)" using d' by auto
    then show "h4 v = h2 v" using fr4 [of v] h3(3) [of v] by simp
  qed
  moreover have "holds h4 n r"
    using holds_cong [of r h4 h3 n, OF fr4 h3(2)] d' by auto
  moreover have "h4 n = Some ?v" using fr4 [OF f(1)] fr3 [OF f(2,3)] by simp
  moreover have "distinct (before k @ addrs l @ n # addrs r @ after k)" using d f by (auto simp: ctx_addrs_eq)
  moreover have "rb_root t = top k a" using z' by simp
  ultimately have "zip_at (t\<lparr>rb_nodes := h4, rb_root := if k = [] then n else rb_root t\<rparr>) k (Node c l n r)"
    using h4(2) n(2) top_const [of k a n] by (auto simp: zip_at_def)
  moreover have "rb_replace_node a n t = Some (t\<lparr>rb_nodes := h4, rb_root := if k = [] then n else rb_root t\<rparr>)"
  proof -
    have "rb_parent t a = Some (up k)" "rb_nodes t a = Some ?v" using z' pc_parent [OF al, of c] by (auto simp: get_simps)
    moreover have "upd_node n (\<lambda>_. ?v) t = Some ?t1" using n(1) by (simp add: upd_node_def)
    moreover have "get_left ?t1 a = Some (ptr l)" using z' f by (simp add: get_simps)
    moreover have "reparent (ptr l) n ?t1 = Some ?t2" using h2(1) by simp
    moreover have "get_right ?t2 a = Some (ptr r)" using z' f h2(3) [of a] d' by (simp add: get_simps)
    moreover have "reparent (ptr r) n ?t2 = Some ?t3" using h3(1) by simp
    ultimately show ?thesis using h4(1) unfolding rb_replace_node_def reparent_def [symmetric] by simp
  qed
  ultimately show ?thesis by (auto simp: rep_plug)
qed

end
