(* ===== verification/Rbtree_Props.thy ===== *)
theory Rbtree_Props
  imports Rbtree_Find
begin

text \<open>
  What the red-black tree routines promise: ordered insertion and erasure keep the invariants and
  change the in-order sequence as a list operation would, neighbours and lookups are those of the
  sequence.
\<close>

section \<open>Find or add\<close>

lemma rb_find_slot_correct:
  assumes "zip_at t k T" and "ordered_by f (addrs T)"
  shows "(\<exists>x\<in>set (addrs T). f x = 0 \<and> rb_find_slot f t (link_of k) (up k) lm = Some (Existing x))
    \<or> (\<exists>k'. rb_find_slot f t (link_of k) (up k) lm = Some (Vacant (up (k' @ k)) (link_of (k' @ k)) (lm \<and> before k' = []))
      \<and> plug k' Leaf = T \<and> (\<forall>x\<in>set (before k'). f x > 0) \<and> (\<forall>x\<in>set (after k'). f x < 0))"
  using assms
proof (induction T arbitrary: k lm)
  case Leaf
  have "read_link t (link_of k) = Some 0" using read_link_correct [OF Leaf(1)] by simp
  then show ?case by (intro disjI2 exI [of _ "[]"]) (simp add: rb_find_slot.simps [of f t "link_of k"])
next
  case (Node c l a r)
  have rd: "read_link t (link_of k) = Some a" "a \<noteq> 0"
    using read_link_correct [OF Node.prems(1)] Node.prems(1) by (simp_all add: zip_at_def)
  note o = ordered_by_node [OF Node.prems(2) [unfolded addrs.simps]]
  note unf = rb_find_slot.simps [of f t "link_of k" "up k" lm]
  consider "f a < 0" | "f a > 0" | "f a = 0" by linarith
  then show ?case
  proof cases
    case 1
    have z: "zip_at t (In_left c a r # k) l" using Node.prems(1) by (simp add: zip_at_left)
    have e: "rb_find_slot f t (link_of k) (up k) lm = rb_find_slot f t (Left_link a) a lm" using unf rd 1 by simp
    from Node.IH(1) [OF z o(1), of lm] show ?thesis
    proof
      assume "\<exists>k'. rb_find_slot f t (link_of (In_left c a r # k)) (up (In_left c a r # k)) lm =
          Some (Vacant (up (k' @ In_left c a r # k)) (link_of (k' @ In_left c a r # k)) (lm \<and> before k' = []))
        \<and> plug k' Leaf = l \<and> (\<forall>x\<in>set (before k'). 0 < f x) \<and> (\<forall>x\<in>set (after k'). f x < 0)"
      then obtain k' where "rb_find_slot f t (Left_link a) a lm =
          Some (Vacant (up (k' @ In_left c a r # k)) (link_of (k' @ In_left c a r # k)) (lm \<and> before k' = []))"
        "plug k' Leaf = l" "\<forall>x\<in>set (before k'). 0 < f x" "\<forall>x\<in>set (after k'). f x < 0" by auto
      then show ?thesis using o(3) [OF 1] 1 unfolding e
        by (intro disjI2 exI [of _ "k' @ [In_left c a r]"]) (auto simp: plug_append before_append after_append)
    qed (use e in auto)
  next
    case 2
    have z: "zip_at t (In_right c l a # k) r" using Node.prems(1) by (simp add: zip_at_right)
    have e: "rb_find_slot f t (link_of k) (up k) lm = rb_find_slot f t (Right_link a) a False" using unf rd 2 by simp
    from Node.IH(2) [OF z o(2), of False] show ?thesis
    proof
      assume "\<exists>k'. rb_find_slot f t (link_of (In_right c l a # k)) (up (In_right c l a # k)) False =
          Some (Vacant (up (k' @ In_right c l a # k)) (link_of (k' @ In_right c l a # k)) (False \<and> before k' = []))
        \<and> plug k' Leaf = r \<and> (\<forall>x\<in>set (before k'). 0 < f x) \<and> (\<forall>x\<in>set (after k'). f x < 0)"
      then obtain k' where "rb_find_slot f t (Right_link a) a False =
          Some (Vacant (up (k' @ In_right c l a # k)) (link_of (k' @ In_right c l a # k)) False)"
        "plug k' Leaf = r" "\<forall>x\<in>set (before k'). 0 < f x" "\<forall>x\<in>set (after k'). f x < 0" by auto
      then show ?thesis using o(4) [OF 2] 2 unfolding e
        by (intro disjI2 exI [of _ "k' @ [In_right c l a]"]) (auto simp: plug_append before_append after_append)
    qed (use e in auto)
  next
    case 3
    then show ?thesis using unf rd by auto
  qed
qed

section \<open>Post-order\<close>

fun post :: "rtree \<Rightarrow> u64 list" where
  "post Leaf = []"
| "post (Node c l a r) = post l @ post r @ [a]"

fun post_after :: "frame list \<Rightarrow> u64 list" where
  "post_after [] = []"
| "post_after (In_left c a r # k) = post r @ a # post_after k"
| "post_after (In_right c l a # k) = a # post_after k"

lemma post_plug: "\<exists>xs. post (plug k T) = xs @ post T @ post_after k"
proof (induction k T rule: plug.induct)
  case (2 c a r k T)
  then show ?case by auto
next
  case (3 c l a k T)
  then obtain xs where "post (plug k (Node c l a T)) = xs @ post (Node c l a T) @ post_after k" by blast
  then show ?case by (intro exI [of _ "xs @ post l"]) simp
qed auto

lemma post_Nil [simp]: "post T = [] \<longleftrightarrow> T = Leaf"
  by (cases T) auto

lemma set_post [simp]: "set (post T) = set (addrs T)"
  by (induction T) auto

lemma distinct_post: "distinct (addrs T) \<Longrightarrow> distinct (post T)"
  by (induction T) auto

lemma left_deepest_correct:
  "holds (rb_nodes t) p T \<Longrightarrow> T \<noteq> Leaf \<Longrightarrow> rb_left_deepest_node t (ptr T) = Some (hd0 (post T))"
proof (induction T arbitrary: p)
  case (Node c l a r)
  have g: "get_left t a = Some (ptr l)" "get_right t a = Some (ptr r)" "holds (rb_nodes t) a l" "holds (rb_nodes t) a r"
    using Node.prems by (simp_all add: get_simps)
  show ?case
    using g Node.IH(1) [OF g(3)] Node.IH(2) [OF g(4)] ptr_eq_0 [OF g(3)] ptr_eq_0 [OF g(4)]
    by (cases "l = Leaf"; cases "r = Leaf") (simp_all add: rb_left_deepest_node.simps [of t a])
qed simp

lemma rb_first_postorder_correct: "rep t T \<Longrightarrow> rb_first_postorder t = Some (hd0 (post T))"
  using left_deepest_correct [of t 0 T] ptr_eq_0 [of "rb_nodes t" 0 T]
  by (cases "T = Leaf") (simp_all add: rep_def rb_first_postorder_def)

lemma rb_next_postorder_correct:
  assumes rp: "rep t T" and xs: "post T = xs @ a # ys"
  shows "rb_next_postorder t a = Some (hd0 ys)"
proof -
  have "a \<in> set (addrs T)" using xs set_post [of T] by (metis in_set_conv_decomp)
  then obtain k c l r where T: "T = plug k (Node c l a r)" using split_at by blast
  have z: "zip_at t k (Node c l a r)" using rp T by (simp add: rep_plug)
  note z' = z [unfolded zip_at_def, simplified]
  have hk: "holds_ctx (rb_nodes t) k a" using z' by simp
  obtain zs where zs: "post T = (zs @ post l @ post r) @ a # post_after k"
    using post_plug [of k "Node c l a r"] T by auto
  have "distinct (post T)" using rp by (simp add: rep_def distinct_post)
  then have "a \<notin> set (zs @ post l @ post r)" "a \<notin> set (post_after k)" unfolding zs by simp_all
  then have "ys = post_after k"
    using append_Cons_eq_iff [of a "zs @ post l @ post r" "post_after k" xs ys] xs zs by simp
  moreover have par: "rb_parent t a = Some (up k)" "a \<noteq> 0"
    using z' pc_parent [OF up_aligned [OF hk], of c] by (auto simp: get_simps)
  moreover have "rb_next_postorder t a = Some (hd0 (post_after k))"
  proof (cases k rule: post_after.cases)
    case 1
    then show ?thesis using par by (simp add: rb_next_postorder_def)
  next
    case (2 d b s k1)
    have s: "get_left t b = Some a" "get_right t b = Some (ptr s)" "holds (rb_nodes t) b s" "b \<noteq> 0"
      using z' 2 by (simp_all add: get_simps)
    show ?thesis using par s left_deepest_correct [OF s(3)] ptr_eq_0 [OF s(3)] 2
      by (cases "s = Leaf") (simp_all add: rb_next_postorder_def)
  next
    case (3 d s b k1)
    have s: "get_right t b = Some a" "get_left t b = Some (ptr s)" "holds (rb_nodes t) b s" "b \<noteq> 0"
      using z' 3 by (simp_all add: get_simps)
    have "a \<noteq> ptr s" using zip_distinct [OF z] 3 par(2) by (cases s) auto
    then show ?thesis using par s 3 by (simp add: rb_next_postorder_def)
  qed
  ultimately show ?thesis by simp
qed

section \<open>Properties\<close>

definition tree3 :: rb_tree where
  "tree3 = \<lparr>rb_nodes = [0x10 \<mapsto> \<lparr>rb_parent_color = 1, rb_right = 0x30, rb_left = 0x20\<rparr>,
      0x20 \<mapsto> \<lparr>rb_parent_color = 0x10, rb_right = 0, rb_left = 0\<rparr>,
      0x30 \<mapsto> \<lparr>rb_parent_color = 0x10, rb_right = 0, rb_left = 0\<rparr>,
      0x40 \<mapsto> \<lparr>rb_parent_color = 0x40, rb_right = 0, rb_left = 0\<rparr>], rb_root = 0x10\<rparr>"

definition shape3 :: rtree where
  "shape3 = Node Black (Node Red Leaf 0x20 Leaf) 0x10 (Node Red Leaf 0x30 Leaf)"

lemma tree3_rep: "rep tree3 shape3" "rbt shape3" "addrs shape3 = [0x20, 0x10, 0x30]"
  by (simp_all add: rep_def tree3_def shape3_def ok_addr_def rbt_def)

text \<open>
  C2: \<open>rb_erase\<close> on a well-formed red-black tree that contains the node always returns, the result
  is a well-formed red-black tree again, its in-order sequence is the old one without the node,
  and neither the erased node nor any node outside the tree is touched.
\<close>

theorem rb_erase_spec:
  assumes "rep t T" and "rbt T" and "a \<in> set (addrs T)"
  shows "\<exists>t' T'. rb_erase a t = Some t' \<and> rep t' T' \<and> rbt T' \<and> addrs T' = remove1 a (addrs T)
    \<and> changes_only (set (addrs T')) t t'"
  by (rule rb_erase_correct [OF assms])

theorem rb_erase_spec_witness:
  "\<exists>t' T'. rb_erase 0x10 tree3 = Some t' \<and> rep t' T' \<and> rbt T' \<and> addrs T' = [0x20, 0x30]"
proof -
  have "(0x10 :: u64) \<in> set (addrs shape3)" "remove1 (0x10 :: u64) [0x20, 0x10, 0x30] = [0x20, 0x30]"
    using tree3_rep(3) by simp_all
  with rb_erase_spec [OF tree3_rep(1,2) this(1)] show ?thesis using tree3_rep(3) by auto
qed

text \<open>
  C9: \<open>rb_add\<close> on a well-formed red-black tree whose sequence is ordered for the comparison always
  returns; the result is a well-formed red-black tree whose sequence has the new node in front of
  the first node it is smaller than, behind all others.
\<close>

theorem rb_add_spec:
  assumes "rep t T" and "rbt T" and "splits (lt n) (addrs T)"
    and "n \<notin> set (addrs T)" and "ok_addr n" and "rb_nodes t n = Some m"
  shows "\<exists>t' T'. rb_add lt n t = Some t' \<and> rep t' T' \<and> rbt T'
    \<and> addrs T' = takeWhile (\<lambda>x. \<not> lt n x) (addrs T) @ n # dropWhile (\<lambda>x. \<not> lt n x) (addrs T)
    \<and> changes_only (insert n (set (addrs T))) t t'"
  using rb_add_correct [where lt = lt and n = n and t = t and T = T, OF assms] unfolding ins_at_def .

theorem rb_add_spec_witness:
  "\<exists>t' T'. rb_add (\<lambda>x y. y = 0x30) 0x40 tree3 = Some t' \<and> rep t' T' \<and> rbt T' \<and> addrs T' = [0x20, 0x10, 0x40, 0x30]"
proof -
  have "splits (\<lambda>y. y = 0x30) (addrs shape3)" "(0x40 :: u64) \<notin> set (addrs shape3)" "ok_addr 0x40"
    "rb_nodes tree3 0x40 = Some \<lparr>rb_parent_color = 0x40, rb_right = 0, rb_left = 0\<rparr>"
    by (simp_all add: tree3_rep(3) splits_def ok_addr_def) (simp add: tree3_def)
  with rb_add_spec [OF tree3_rep(1,2), of "\<lambda>x y. y = 0x30" "0x40"] show ?thesis
    by (auto simp: tree3_rep(3))
qed

text \<open>
  C26: \<open>rb_next\<close>, \<open>rb_prev\<close>, \<open>rb_first\<close> and \<open>rb_last\<close> follow the in-order sequence of the tree: the
  neighbours of a node and the two ends, null where there is none.
\<close>

theorem rb_walk_spec:
  assumes "rep t T" and "addrs T = xs @ a # ys"
  shows "rb_next t a = Some (hd0 ys) \<and> rb_prev t a = Some (last0 xs)
    \<and> rb_first t = Some (hd0 (xs @ [a])) \<and> rb_last t = Some (last0 (a # ys))"
  using rb_next_correct [OF assms] rb_first_correct [OF assms(1)] assms(2)
  by (cases xs; cases "ys = []") (auto simp: last0_def)

theorem rb_walk_spec_witness:
  "rb_next tree3 0x10 = Some 0x30 \<and> rb_prev tree3 0x10 = Some 0x20 \<and> rb_first tree3 = Some 0x20 \<and> rb_last tree3 = Some 0x30"
proof -
  have "addrs shape3 = [0x20] @ 0x10 # [0x30]" by (simp add: tree3_rep(3))
  from rb_walk_spec [OF tree3_rep(1) this] show ?thesis by (simp add: last0_def)
qed

text \<open>
  When the comparison with the key is consistent with the order, \<open>rb_find\<close> finds a matching
  node exactly when the tree has one, and \<open>rb_find_first\<close> the first of them in the order.
\<close>

theorem rb_find_spec:
  assumes "rep t T" and "ordered_by f (addrs T)"
  shows "(\<exists>x. rb_find f t = Some x \<and> (x = 0 \<and> (\<forall>a\<in>set (addrs T). f a \<noteq> 0) \<or> x \<in> set (addrs T) \<and> f x = 0))
    \<and> rb_find_first f t = Some (hd0 (filter (\<lambda>a. f a = 0) (addrs T)))"
  using rb_find_correct [OF assms] by blast

theorem rb_find_spec_witness:
  "rb_find_first (\<lambda>a. if a = 0x30 then 0 else 1) tree3 = Some 0x30"
proof -
  have "ordered_by (\<lambda>a. if a = 0x30 then 0 else 1) (addrs shape3)" by (simp add: tree3_rep(3) ordered_by_def)
  from rb_find_spec [OF tree3_rep(1) this] show ?thesis by (simp add: tree3_rep(3))
qed

text \<open>
  The post-order traversal visits the nodes in post-order: \<open>rb_first_postorder\<close> is its first
  node and \<open>rb_next_postorder\<close> leads from each node to the next one.
\<close>

theorem rb_postorder_spec:
  assumes "rep t T" and "post T = xs @ a # ys"
  shows "rb_next_postorder t a = Some (hd0 ys) \<and> rb_first_postorder t = Some (hd0 (xs @ [a]))"
  using rb_next_postorder_correct [OF assms] rb_first_postorder_correct [OF assms(1)] assms(2) by (cases xs) auto

theorem rb_postorder_spec_witness:
  "rb_next_postorder tree3 0x20 = Some 0x30 \<and> rb_first_postorder tree3 = Some 0x20"
proof -
  have "post shape3 = [] @ 0x20 # [0x30, 0x10]" by (simp add: shape3_def)
  from rb_postorder_spec [OF tree3_rep(1) this] show ?thesis by simp
qed

end
