(* ===== verification/Sched.thy ===== *)
theory Sched
  imports Rbtree
begin

text \<open>
  The run queue and the scheduler: \<^verbatim>\<open>src/kernel/sched/runq.c\<close>, \<^verbatim>\<open>scheduler.c\<close>, \<^verbatim>\<open>task.c\<close> and
  \<^verbatim>\<open>task.h\<close>. There is one CPU, so a per-CPU variable is a field of the state. A task is a record at
  its address; the tree node embedded in it stands at \<open>task + 56\<close> in the node map of the tree, and
  \<open>container_of\<close> subtracts that offset again. An access to a task that does not exist is undefined
  and makes the operation \<open>None\<close>.
\<close>

datatype task_state = S_TASK_INIT | S_TASK_RUNNABLE | S_TASK_WAITING | S_TASK_SLEEPING | S_TASK_ZOMBIE | S_TASK_DEAD

record thread =
  th_sp :: u64
  th_pc :: u64

record task =
  tk_stack :: u64
  tk_kstack_top :: u64
  tk_tid :: u64
  tk_tgid :: u64
  tk_flags :: u64
  tk_vmap :: u64
  tk_state :: task_state
  tk_prio :: u32
  tk_vruntime :: u64
  tk_time_slice :: u64
  tk_thread :: thread
  tk_stack_base :: u64
  tk_stack_size :: u64

definition TASK_KTHREAD :: u64 where "TASK_KTHREAD = 1"
definition TASK_PREEMPTED :: u64 where "TASK_PREEMPTED = 2"
definition TASK_RUNNING :: u64 where "TASK_RUNNING = 4"

record sched = rb_cached +
  rq_idle :: u64
  num_threads :: u64
  tasks :: "u64 \<rightharpoonup> task"
  current_task :: u64
  preempt_count :: u64
  need_resched :: bool
  next_tid :: u64
  next_pid :: u64
  tss_rsp0 :: u64

definition NODE_OFFSET :: u64 where "NODE_OFFSET = 56"

definition node_of :: "u64 \<Rightarrow> u64" where "node_of t = t + NODE_OFFSET"

definition node_to_task :: "u64 \<Rightarrow> u64" where
  "node_to_task node = (if node = 0 then 0 else node - NODE_OFFSET)"

definition upd_task :: "u64 \<Rightarrow> (task \<Rightarrow> task) \<Rightarrow> sched \<Rightarrow> sched option" where
  "upd_task t f s = do { tk \<leftarrow> tasks s t; Some (s\<lparr>tasks := (tasks s)(t \<mapsto> f tk)\<rparr>) }"

text \<open>The virtual run time behind a node of the tree.\<close>

definition node_vruntime :: "sched \<Rightarrow> u64 \<Rightarrow> u64" where
  "node_vruntime s node = (case tasks s (node_to_task node) of Some tk \<Rightarrow> tk_vruntime tk | None \<Rightarrow> 0)"

section \<open>The run queue\<close>

definition min_vruntime :: "sched \<Rightarrow> u64 option" where
  "min_vruntime s =
     (if rb_leftmost s = 0 then Some 0
      else do { tk \<leftarrow> tasks s (node_to_task (rb_leftmost s)); Some (tk_vruntime tk) })"

definition tree_insert :: "u64 \<Rightarrow> sched \<Rightarrow> sched option" where
  "tree_insert t s =
     do {
       se \<leftarrow> tasks s t;
       (parent, link, _) \<leftarrow> rb_descend (\<lambda>entry. tk_vruntime se < node_vruntime s entry) s Root_link 0 True;
       s \<leftarrow> rb_link_node (node_of t) parent link s;
       s \<leftarrow> rb_insert_color (node_of t) s;
       first \<leftarrow> min_vruntime s;
       let s = (if rb_leftmost s = 0 \<or> tk_vruntime se < first then s\<lparr>rb_leftmost := node_of t\<rparr> else s);
       Some (s\<lparr>num_threads := num_threads s + 1\<rparr>)
     }"

definition tree_remove :: "u64 \<Rightarrow> sched \<Rightarrow> sched option" where
  "tree_remove t s =
     do {
       s \<leftarrow> (if rb_leftmost s = node_of t then
               do { next \<leftarrow> rb_next s (node_of t); Some (s\<lparr>rb_leftmost := next\<rparr>) }
             else Some s);
       s \<leftarrow> rb_erase (node_of t) s;
       Some (s\<lparr>num_threads := num_threads s - 1\<rparr>)
     }"

definition add_runq :: "u64 \<Rightarrow> sched \<Rightarrow> sched option" where
  "add_runq t s =
     do {
       tk \<leftarrow> tasks s t;
       s \<leftarrow> (if tk_state tk \<noteq> S_TASK_INIT then
               do { v \<leftarrow> min_vruntime s; upd_task t (\<lambda>tk. tk\<lparr>tk_vruntime := v\<rparr>) s }
             else Some s);
       tree_insert t s
     }"

definition remove_runq :: "u64 \<Rightarrow> sched \<Rightarrow> sched option" where
  "remove_runq t s = tree_remove t s"

definition next_runq :: "sched \<Rightarrow> (u64 \<times> sched) option" where
  "next_runq s =
     (let next = node_to_task (rb_leftmost s) in
      if next \<noteq> 0 then do { s \<leftarrow> tree_remove next s; Some (next, s) }
      else Some (rq_idle s, s))"

text \<open>
  \<open>init_runq\<close> with the addresses its allocations return: the queue is cleared and the idle task,
  which \<open>ktask_spawn\<close> has made, becomes the running one.
\<close>

definition init_runq :: "u64 \<Rightarrow> sched \<Rightarrow> sched option" where
  "init_runq idle s =
     do {
       let s = s\<lparr>rb_root := 0, rb_leftmost := 0, num_threads := 0\<rparr>;
       s \<leftarrow> upd_task idle (\<lambda>tk. tk\<lparr>tk_state := S_TASK_INIT\<rparr>) s;
       s \<leftarrow> upd_task idle (\<lambda>tk. tk\<lparr>tk_tid := 0\<rparr>) s;
       Some (s\<lparr>rq_idle := idle, current_task := idle\<rparr>)
     }"

section \<open>The scheduler\<close>

definition sched_add :: "u64 \<Rightarrow> sched \<Rightarrow> sched option" where "sched_add t s = add_runq t s"
definition sched_remove :: "u64 \<Rightarrow> sched \<Rightarrow> sched option" where "sched_remove t s = remove_runq t s"

text \<open>
  \<open>__switch_to\<close> (\<^verbatim>\<open>arch/x86_64/sched/switch.asm\<close>): the per-CPU variables it changes. The registers and the page table
  are not part of this state.
\<close>

definition switch_to :: "u64 \<Rightarrow> u64 \<Rightarrow> sched \<Rightarrow> sched option" where
  "switch_to prev next s =
     do {
       tk \<leftarrow> tasks s next;
       Some (s\<lparr>current_task := next, tss_rsp0 := tk_kstack_top tk, preempt_count := preempt_count s - 1\<rparr>)
     }"

definition schedule :: "sched \<Rightarrow> sched option" where
  "schedule s =
     do {
       let s = s\<lparr>preempt_count := preempt_count s + 1, need_resched := False\<rparr>;
       let prev = current_task s;
       s \<leftarrow> upd_task prev (\<lambda>tk. tk\<lparr>tk_vruntime := tk_vruntime tk + 1\<rparr>) s;
       tk \<leftarrow> tasks s (current_task s);
       s \<leftarrow> (if tk_state tk = S_TASK_RUNNABLE then add_runq (current_task s) s else Some s);
       (next, s) \<leftarrow> next_runq s;
       s \<leftarrow> upd_task (current_task s) (\<lambda>tk. tk\<lparr>tk_flags := tk_flags tk AND NOT TASK_RUNNING\<rparr>) s;
       s \<leftarrow> upd_task next (\<lambda>tk. tk\<lparr>tk_flags := tk_flags tk OR TASK_RUNNING\<rparr>) s;
       s \<leftarrow> upd_task next (\<lambda>tk. tk\<lparr>tk_flags := tk_flags tk AND NOT TASK_PREEMPTED\<rparr>) s;
       switch_to (current_task s) next s
     }"

definition sched_yield :: "sched \<Rightarrow> sched option" where "sched_yield s = schedule s"

definition sched_yield_preempt :: "sched \<Rightarrow> sched option" where
  "sched_yield_preempt s =
     do {
       let s = s\<lparr>preempt_count := preempt_count s + 1\<rparr>;
       s \<leftarrow> upd_task (current_task s) (\<lambda>tk. tk\<lparr>tk_flags := tk_flags tk OR TASK_PREEMPTED\<rparr>) s;
       let s = s\<lparr>preempt_count := preempt_count s - 1\<rparr>;
       schedule s
     }"

definition alloc_tid :: "sched \<Rightarrow> u64 \<times> sched" where
  "alloc_tid s = (next_tid s, s\<lparr>next_tid := next_tid s + 1\<rparr>)"

definition alloc_pid :: "sched \<Rightarrow> u64 \<times> sched" where
  "alloc_pid s = (next_pid s, s\<lparr>next_pid := next_pid s + 1\<rparr>)"

definition task_wake :: "u64 \<Rightarrow> sched \<Rightarrow> sched option" where
  "task_wake t s =
     do {
       tk \<leftarrow> tasks s t;
       if tk_state tk \<noteq> S_TASK_RUNNABLE then
         do {
           s \<leftarrow> upd_task t (\<lambda>tk. tk\<lparr>tk_state := S_TASK_RUNNABLE\<rparr>) s;
           sched_add t s
         }
       else Some s
     }"

definition task_exit :: "u32 \<Rightarrow> sched \<Rightarrow> sched option" where
  "task_exit code s =
     do {
       tk \<leftarrow> tasks s (current_task s);
       s \<leftarrow> (if tk_state tk = S_TASK_RUNNABLE then sched_remove (current_task s) s else Some s);
       s \<leftarrow> upd_task (current_task s) (\<lambda>tk. tk\<lparr>tk_state := S_TASK_ZOMBIE\<rparr>) s;
       sched_yield s
     }"

end
