(* ===== verification/Sched_Queue.thy ===== *)
theory Sched_Queue
  imports Sched Rbtree_Find
begin

text \<open>
  The run queue as a list of tasks: \<open>rq s q\<close> says that the tree of the state holds exactly the tasks
  of \<open>q\<close>, in that order, sorted by virtual run time, with the cached first node and the counter
  right. Each operation on the tree is an operation on that list.
\<close>

definition vr :: "sched \<Rightarrow> u64 \<Rightarrow> u64" where
  "vr s t = (case tasks s t of Some tk \<Rightarrow> tk_vruntime tk | None \<Rightarrow> 0)"

definition rq :: "sched \<Rightarrow> u64 list \<Rightarrow> bool" where
  "rq s q \<longleftrightarrow> (\<exists>T. cached_rep s T \<and> addrs T = map node_of q) \<and> num_threads s = of_nat (length q)
     \<and> sorted (map (vr s) q) \<and> (\<forall>t\<in>set q. t \<noteq> 0 \<and> tasks s t \<noteq> None)"

text \<open>A task that exists, with a node that could be linked in.\<close>

definition present :: "sched \<Rightarrow> u64 \<Rightarrow> bool" where
  "present s t \<longleftrightarrow> t \<noteq> 0 \<and> tasks s t \<noteq> None \<and> ok_addr (node_of t) \<and> rb_nodes s (node_of t) \<noteq> None"

text \<open>Everything but the tree, the cached node and the counter.\<close>

definition rest :: "sched \<Rightarrow> _" where
  "rest s = (rq_idle s, tasks s, current_task s, preempt_count s, need_resched s, next_tid s, next_pid s, tss_rsp0 s)"

lemma node_of_inj [simp]: "node_of s = node_of t \<longleftrightarrow> s = t"
  by (simp add: node_of_def)

lemma node_to_task_of [simp]: "node_of t \<noteq> 0 \<Longrightarrow> node_to_task (node_of t) = t"
  by (simp add: node_to_task_def node_of_def)

lemma holds_node: "holds h p T \<Longrightarrow> n \<in> set (addrs T) \<Longrightarrow> h n \<noteq> None \<and> ok_addr n"
  by (induction T arbitrary: p) auto

lemma rest_more: "rb_tree.more s' = rb_tree.more s \<Longrightarrow> rest s' = rest s"
  by (cases s; cases s') (simp add: rest_def)

lemma more_fields: "rb_tree.more s' = rb_tree.more s \<Longrightarrow> num_threads s' = num_threads s"
  by (cases s; cases s') simp

lemma rqD:
  assumes "rq s q"
  obtains T where "cached_rep s T" "rep s T" "rbt T" "addrs T = map node_of q" "rb_leftmost s = hd0 (map node_of q)"
    "distinct q" "\<And>t. t \<in> set q \<Longrightarrow> present s t" "num_threads s = of_nat (length q)" "sorted (map (vr s) q)"
proof -
  obtain T where T: "cached_rep s T" "addrs T = map node_of q" using assms by (auto simp: rq_def)
  then have r: "rep s T" "rbt T" "rb_leftmost s = hd0 (map node_of q)" by (auto simp: cached_rep_def)
  then have "distinct (map node_of q)" using T(2) by (simp add: rep_def)
  then have "distinct q" by (simp add: distinct_map)
  moreover have "present s t" if "t \<in> set q" for t
    using holds_node [of "rb_nodes s" 0 T "node_of t"] r(1) T(2) that assms
    by (auto simp: present_def rep_def rq_def)
  ultimately show ?thesis using that T r assms by (auto simp: rq_def)
qed

lemma node_vruntime_of: "ok_addr (node_of t) \<Longrightarrow> node_vruntime s (node_of t) = vr s t"
  by (simp add: node_vruntime_def vr_def)

lemma takeWhile_congL: "(\<And>x. x \<in> set xs \<Longrightarrow> P x = Q x) \<Longrightarrow> takeWhile P xs = takeWhile Q xs \<and> dropWhile P xs = dropWhile Q xs"
  by (induction xs) auto

lemma ins_at_map:
  assumes "\<And>t. t \<in> set q \<Longrightarrow> go (node_of t) = go' t"
  shows "ins_at go (node_of t) (map node_of q) = map node_of (ins_at go' t q)"
  using takeWhile_congL [of q "\<lambda>x. \<not> go (node_of x)" "\<lambda>x. \<not> go' x"] assms
  by (simp add: ins_at_def takeWhile_map dropWhile_map comp_def)

lemma sorted_ins_at:
  assumes "sorted (map f q)" shows "sorted (map f (ins_at (\<lambda>x. f t < f x) t q))"
proof -
  let ?a = "takeWhile (\<lambda>x. \<not> f t < f x) q" and ?b = "dropWhile (\<lambda>x. \<not> f t < f x) q"
  have q: "q = ?a @ ?b" by simp
  have s: "sorted (map f ?a)" "sorted (map f ?b)" "\<forall>x\<in>set ?a. \<forall>y\<in>set ?b. f x \<le> f y"
    using assms by (subst (asm) q; simp only: map_append sorted_append set_map; blast)+
  have a: "\<forall>x\<in>set ?a. f x \<le> f t" by (auto dest: set_takeWhileD)
  have b: "\<forall>y\<in>set ?b. f t \<le> f y"
  proof (cases ?b)
    case (Cons y ys)
    then have "f t < f y" using hd_dropWhile [of "\<lambda>x. \<not> f t < f x" q] by auto
    then show ?thesis using s(2) unfolding Cons by auto
  next
    case Nil
    show ?thesis unfolding Nil by simp
  qed
  show ?thesis using s a b by (auto simp: ins_at_def sorted_append intro: order_trans)
qed

lemma length_ins_at: "length (ins_at go t q) = Suc (length q)"
  unfolding ins_at_def by (metis add_Suc_right length_Cons length_append takeWhile_dropWhile_id)

lemma tree_insert_correct:
  assumes r: "rq s q" and p: "present s t" and t: "t \<notin> set q"
  obtains s' where "tree_insert t s = Some s'" "rq s' (ins_at (\<lambda>x. vr s t < vr s x) t q)" "rest s' = rest s"
    "\<And>u. present s u \<Longrightarrow> present s' u"
proof -
  obtain T where T: "cached_rep s T" "rep s T" "rbt T" "addrs T = map node_of q" "rb_leftmost s = hd0 (map node_of q)"
    "distinct q" "\<And>t. t \<in> set q \<Longrightarrow> present s t" "num_threads s = of_nat (length q)" "sorted (map (vr s) q)"
    by (rule rqD [OF r]) (rule that)
  obtain se where se: "tasks s t = Some se" using p by (auto simp: present_def)
  let ?n = "node_of t"
  let ?go = "\<lambda>entry. tk_vruntime se < node_vruntime s entry" and ?go' = "\<lambda>x. vr s t < vr s x"
  have v: "vr s t = tk_vruntime se" using se by (simp add: vr_def)
  have go: "?go (node_of x) = ?go' x" if "x \<in> set q" for x
    using T(7) [OF that] v by (simp add: node_vruntime_of present_def)
  have "splits ?go (addrs T)"
    unfolding T(4) splits_def sorted_wrt_map
    by (rule sorted_wrt_mono_rel [OF _ T(9) [unfolded sorted_wrt_map]]) (use go in \<open>auto intro: less_le_trans\<close>)
  moreover have "?n \<notin> set (addrs T)" using t by (auto simp: T(4))
  moreover obtain m where m: "ok_addr ?n" "rb_nodes s ?n = Some m" using p by (auto simp: present_def)
  ultimately obtain k s1 where k: "T = plug k Leaf"
    "rb_descend ?go s Root_link 0 True = Some (up k, link_of k, takeWhile (\<lambda>x. \<not> ?go x) (addrs T) = [])"
    "rb_link_node ?n (up k) (link_of k) s = Some s1" "zip_at s1 k (Node Red Leaf ?n Leaf)"
    "changes_only (insert ?n (set (addrs T))) s s1"
    "addrs (plug k (Node Red Leaf ?n Leaf)) = ins_at ?go ?n (addrs T)"
    using link_at_place [OF T(2)] by metis
  obtain s2 T2 where s2: "rb_insert_color ?n s1 = Some s2" "rep s2 T2" "rbt T2" "addrs T2 = ins_at ?go ?n (addrs T)"
    "changes_only (insert ?n (set (addrs T))) s1 s2"
    using insert_color_correct [OF k(4)] T(3) k(1,6) by (auto simp: repaired_def set_ins_at)
  have A: "addrs T2 = map node_of (ins_at ?go' t q)" using s2(4) ins_at_map [of q ?go ?go' t] go T(4) by simp
  have m2: "rb_tree.more s2 = rb_tree.more s" using k(5) s2(5) by (simp add: changes_only_def)
  note rest2 = rest_more [OF m2]
  have lm2: "rb_leftmost s2 = hd0 (map node_of q)" using leftmost_more [OF m2] T(5) by simp
  have tk2: "tasks s2 = tasks s" using rest2 by (simp add: rest_def)
  have first: "min_vruntime s2 = Some (if q = [] then 0 else vr s (hd q))"
    using T(7) lm2 tk2 by (cases q) (auto simp: min_vruntime_def present_def vr_def split: option.split)
  let ?s3 = "if rb_leftmost s2 = 0 \<or> vr s t < (if q = [] then 0 else vr s (hd q)) then s2\<lparr>rb_leftmost := ?n\<rparr> else s2"
  let ?s' = "?s3\<lparr>num_threads := num_threads s2 + 1\<rparr>"
  have i: "tree_insert t s = Some ?s'"
    using se k(2,3) s2(1) first v by (simp add: tree_insert_def Let_def)
  have nz: "hd0 (map node_of q) = 0 \<longleftrightarrow> q = []" using T(7) by (cases q) (auto simp: present_def)
  have "rb_leftmost ?s' = hd0 (addrs T2)"
    unfolding A using lm2 nz by (cases q) (auto simp: ins_at_def)
  moreover have "rep ?s' T2" using s2(2) by (simp add: rep_def)
  ultimately have "cached_rep ?s' T2" using s2(3) by (simp add: cached_rep_def)
  moreover have vr': "vr ?s' = vr s" by (rule ext) (simp add: vr_def tk2)
  moreover have "num_threads ?s' = of_nat (length (ins_at ?go' t q))"
    using more_fields [OF m2] T(8) by (simp add: length_ins_at)
  moreover have "sorted (map (vr ?s') (ins_at ?go' t q))" unfolding vr' by (rule sorted_ins_at) (rule T(9))
  moreover have "\<forall>x\<in>set (ins_at ?go' t q). x \<noteq> 0 \<and> tasks ?s' x \<noteq> None"
    using T(7) p tk2 by (auto simp: set_ins_at present_def)
  ultimately have "rq ?s' (ins_at ?go' t q)" using A unfolding rq_def by blast
  moreover have "rest ?s' = rest s" using rest2 by (simp add: rest_def)
  moreover have "present ?s' u" if "present s u" for u
  proof -
    have "rb_nodes s2 (node_of u) \<noteq> None"
    proof (cases "node_of u \<in> set (addrs T2)")
      case True
      then show ?thesis using s2(2) holds_node by (auto simp: rep_def)
    next
      case False
      then have "node_of u \<notin> insert ?n (set (addrs T))" using s2(4) by (simp add: set_ins_at)
      then show ?thesis using k(5) s2(5) that by (simp add: changes_only_def present_def)
    qed
    then show ?thesis using that tk2 by (simp add: present_def)
  qed
  ultimately show ?thesis using that i by blast
qed

lemma remove1_map_node: "remove1 (node_of t) (map node_of q) = map node_of (remove1 t q)"
  by (induction q) auto

lemma tree_remove_correct:
  assumes r: "rq s q" and t: "t \<in> set q"
  obtains s' where "tree_remove t s = Some s'" "rq s' (remove1 t q)" "rest s' = rest s"
    "\<And>u. present s u \<Longrightarrow> present s' u"
proof -
  obtain T where T: "cached_rep s T" "rep s T" "rbt T" "addrs T = map node_of q" "rb_leftmost s = hd0 (map node_of q)"
    "distinct q" "\<And>t. t \<in> set q \<Longrightarrow> present s t" "num_threads s = of_nat (length q)" "sorted (map (vr s) q)"
    by (rule rqD [OF r]) (rule that)
  have "node_of t \<in> set (addrs T)" using t T(4) by simp
  from rb_erase_cached_correct [OF T(1) this]
  obtain x s1 T1 where e: "rb_erase_cached (node_of t) s = Some (x, s1)" "cached_rep s1 T1"
    "addrs T1 = remove1 (node_of t) (addrs T)" "changes_only (set (addrs T1)) (s\<lparr>rb_leftmost := rb_leftmost s1\<rparr>) s1"
    by (elim exE conjE) (rule that)
  let ?s' = "s1\<lparr>num_threads := num_threads s1 - 1\<rparr>"
  have i: "tree_remove t s = Some ?s'"
    using e(1) by (simp add: rb_erase_cached_def tree_remove_def bind_eq_Some_conv split: if_splits)
  have m: "rb_tree.more s1 = rb_tree.more (s\<lparr>rb_leftmost := rb_leftmost s1\<rparr>)" using e(4) by (simp add: changes_only_def)
  have rst: "rest s1 = rest s" using rest_more [OF m] by (simp add: rest_def)
  then have tk: "tasks s1 = tasks s" by (simp add: rest_def)
  have A: "addrs T1 = map node_of (remove1 t q)" using e(3) T(4) remove1_map_node by simp
  have "length q = Suc (length (remove1 t q))" using t by (simp add: length_remove1) (metis Suc_pred length_pos_if_in_set)
  then have n: "num_threads ?s' = of_nat (length (remove1 t q))" using more_fields [OF m] T(8) by simp
  have vr': "vr ?s' = vr s" by (rule ext) (simp add: vr_def tk)
  have "sorted (map (vr s) (remove1 t q))"
    using T(9) t by (metis (no_types) sorted_map_remove1)
  then have "rq ?s' (remove1 t q)"
    using e(2) A n vr' T(7) tk unfolding rq_def cached_rep_def rep_def present_def
    by (auto dest: notin_set_remove1)
  moreover have "rest ?s' = rest s" using rst by (simp add: rest_def)
  moreover have "present ?s' u" if "present s u" for u
  proof -
    have "rb_nodes s1 (node_of u) \<noteq> None"
    proof (cases "node_of u \<in> set (addrs T1)")
      case True
      then show ?thesis using e(2) holds_node by (auto simp: cached_rep_def rep_def)
    next
      case False
      then show ?thesis using e(4) that by (simp add: changes_only_def present_def)
    qed
    then show ?thesis using that tk by (simp add: present_def)
  qed
  ultimately show ?thesis using that i by blast
qed

lemma next_runq_correct:
  assumes r: "rq s q"
  shows "q = [] \<Longrightarrow> next_runq s = Some (rq_idle s, s)"
    and "q = t # ts \<Longrightarrow> \<exists>s'. next_runq s = Some (t, s') \<and> rq s' ts \<and> rest s' = rest s \<and> (\<forall>u. present s u \<longrightarrow> present s' u)"
proof -
  obtain T where T: "rb_leftmost s = hd0 (map node_of q)" "distinct q" "\<And>t. t \<in> set q \<Longrightarrow> present s t"
    by (rule rqD [OF r]) (rule that)
  show "next_runq s = Some (rq_idle s, s)" if "q = []"
    using T(1) that by (simp add: next_runq_def node_to_task_def)
  show "\<exists>s'. next_runq s = Some (t, s') \<and> rq s' ts \<and> rest s' = rest s \<and> (\<forall>u. present s u \<longrightarrow> present s' u)"
    if q: "q = t # ts"
  proof -
    have "t \<in> set q" using q by simp
    then obtain s' where s': "tree_remove t s = Some s'" "rq s' (remove1 t q)"
      "rest s' = rest s" "\<And>u. present s u \<Longrightarrow> present s' u" using tree_remove_correct [OF r] by metis
    have p: "present s t" using T(3) q by simp
    have "node_to_task (rb_leftmost s) = t" "t \<noteq> 0" using T(1) q p by (auto simp: present_def)
    then show ?thesis using s' q by (simp add: next_runq_def)
  qed
qed

lemma rq_upd_task:
  assumes "rq s q" and "tasks s t = Some tk" and "t \<in> set q \<Longrightarrow> tk_vruntime tk' = tk_vruntime tk"
  shows "rq (s\<lparr>tasks := (tasks s)(t \<mapsto> tk')\<rparr>) q"
proof -
  have "map (vr (s\<lparr>tasks := (tasks s)(t \<mapsto> tk')\<rparr>)) q = map (vr s) q"
    using assms(2,3) by (auto simp: vr_def)
  then have "sorted (map (vr (s\<lparr>tasks := (tasks s)(t \<mapsto> tk')\<rparr>)) q)"
    using assms(1) unfolding rq_def by metis
  then show ?thesis using assms(1) by (auto simp: rq_def cached_rep_def rep_def)
qed

lemma present_upd_task: "present s u \<Longrightarrow> present (s\<lparr>tasks := (tasks s)(t \<mapsto> tk')\<rparr>) u"
  by (auto simp: present_def)

lemma add_runq_correct:
  assumes r: "rq s q" and p: "present s t" and t: "t \<notin> set q" and tk: "tasks s t = Some tk" "tk_state tk \<noteq> S_TASK_INIT"
  defines "v \<equiv> (if q = [] then 0 else vr s (hd q))"
  obtains s' where "add_runq t s = Some s'" "rq s' (ins_at (\<lambda>x. v < vr s x) t q)"
    "rest s' = rest (s\<lparr>tasks := (tasks s)(t \<mapsto> tk\<lparr>tk_vruntime := v\<rparr>)\<rparr>)" "\<And>u. present s u \<Longrightarrow> present s' u"
proof -
  let ?s1 = "s\<lparr>tasks := (tasks s)(t \<mapsto> tk\<lparr>tk_vruntime := v\<rparr>)\<rparr>"
  obtain T where T: "rb_leftmost s = hd0 (map node_of q)" "\<And>t. t \<in> set q \<Longrightarrow> present s t"
    by (rule rqD [OF r]) (rule that)
  have "min_vruntime s = Some v"
    using T by (cases q) (auto simp: min_vruntime_def present_def vr_def v_def split: option.split)
  then have e: "add_runq t s = tree_insert t ?s1"
    using tk by (simp add: add_runq_def upd_task_def)
  have "rq ?s1 q" by (rule rq_upd_task [OF r tk(1)]) (use t in simp)
  then obtain s' where s': "tree_insert t ?s1 = Some s'" "rq s' (ins_at (\<lambda>x. vr ?s1 t < vr ?s1 x) t q)" "rest s' = rest ?s1"
    "\<And>u. present ?s1 u \<Longrightarrow> present s' u"
    by (rule tree_insert_correct [OF _ present_upd_task [OF p] t]) (rule that)
  have "takeWhile (\<lambda>x. \<not> vr ?s1 t < vr ?s1 x) q = takeWhile (\<lambda>x. \<not> v < vr s x) q
      \<and> dropWhile (\<lambda>x. \<not> vr ?s1 t < vr ?s1 x) q = dropWhile (\<lambda>x. \<not> v < vr s x) q"
    by (rule takeWhile_congL) (use t in \<open>auto simp: vr_def\<close>)
  then have "ins_at (\<lambda>x. vr ?s1 t < vr ?s1 x) t q = ins_at (\<lambda>x. v < vr s x) t q" by (simp add: ins_at_def)
  then show ?thesis using that [of s'] s' e present_upd_task by metis
qed

end
