(* ===== verification/Round_Robin.thy ===== *)
theory Round_Robin
  imports Prelude
begin

text \<open>
  The interface of a scheduler that takes turns: a relation between a state and the line of
  runnable tasks, the running one first, and a scheduling step that moves the running task to the
  end. Whoever offers that is fair: each task in the line runs after as many steps as there are
  tasks in front of it, and after a whole round everything is back in its place.
\<close>

fun iterate :: "('s \<Rightarrow> 's option) \<Rightarrow> nat \<Rightarrow> 's \<Rightarrow> 's option" where
  "iterate f 0 s = Some s"
| "iterate f (Suc n) s = do { s' \<leftarrow> f s; iterate f n s' }"

locale round_robin =
  fixes line :: "'s \<Rightarrow> 't list \<Rightarrow> bool"
    and running :: "'s \<Rightarrow> 't"
    and turn :: "'s \<Rightarrow> 's option"
  assumes first: "line s ts \<Longrightarrow> ts \<noteq> [] \<and> running s = hd ts"
    and rotates: "line s ts \<Longrightarrow> \<exists>s'. turn s = Some s' \<and> line s' (rotate1 ts)"
begin

lemma turns: "line s ts \<Longrightarrow> \<exists>s'. iterate turn n s = Some s' \<and> line s' (rotate n ts)"
proof (induction n arbitrary: s ts)
  case (Suc n)
  obtain s1 where s1: "turn s = Some s1" "line s1 (rotate1 ts)" using rotates [OF Suc.prems] by blast
  from Suc.IH [OF s1(2)] s1(1) show ?case by (auto simp: rotate_Suc rotate1_rotate_swap)
qed simp

lemma runs_in_turn:
  assumes "line s ts" and "i < length ts"
  shows "\<exists>s'. iterate turn i s = Some s' \<and> running s' = ts ! i"
proof -
  obtain s' where s': "iterate turn i s = Some s'" "line s' (rotate i ts)" using turns [OF assms(1)] by blast
  have "hd (rotate i ts) = ts ! i"
    using assms(2) hd_rotate_conv_nth [of ts i] by (cases ts) auto
  then show ?thesis using s' first by auto
qed

lemma full_round: "line s ts \<Longrightarrow> \<exists>s'. iterate turn (length ts) s = Some s' \<and> line s' ts"
  using turns [of s ts "length ts"] by simp

end

end
