(* ===== verification/Sched_Run.thy ===== *)
theory Sched_Run
  imports Sched_Queue Round_Robin
begin

text \<open>
  Scheduling steps. \<open>sched_ok s q\<close> is the state between two of them: the queue \<open>q\<close> holds runnable tasks,
  all with virtual run time 0, the running task is not in it and the idle task never is.
\<close>

definition st :: "sched \<Rightarrow> u64 \<Rightarrow> task_state option" where
  "st s t = map_option tk_state (tasks s t)"

text \<open>The time slices.\<close>

definition slices :: "sched \<Rightarrow> u64 \<Rightarrow> u64 option" where
  "slices s t = map_option tk_time_slice (tasks s t)"

definition vitals :: "sched \<Rightarrow> _" where
  "vitals s = (rq_idle s, current_task s, preempt_count s, need_resched s, next_tid s, next_pid s)"

definition sched_ok :: "sched \<Rightarrow> u64 list \<Rightarrow> bool" where
  "sched_ok s q \<longleftrightarrow> rq s q \<and> (\<forall>t\<in>set q. vr s t = 0 \<and> st s t = Some S_TASK_RUNNABLE)
     \<and> present s (current_task s) \<and> current_task s \<notin> set q
     \<and> present s (rq_idle s) \<and> st s (rq_idle s) = Some S_TASK_INIT
     \<and> (st s (current_task s) = Some S_TASK_INIT \<longrightarrow> current_task s = rq_idle s)"

lemma rq_fields [simp]:
  "rq (s\<lparr>preempt_count := a\<rparr>) q = rq s q" "rq (s\<lparr>need_resched := b\<rparr>) q = rq s q"
  "rq (s\<lparr>current_task := c\<rparr>) q = rq s q" "rq (s\<lparr>tss_rsp0 := d\<rparr>) q = rq s q"
  by (simp_all add: rq_def cached_rep_def rep_def vr_def [abs_def] cong: map_cong)

lemma present_fields [simp]:
  "present (s\<lparr>preempt_count := a\<rparr>) t = present s t" "present (s\<lparr>need_resched := b\<rparr>) t = present s t"
  "present (s\<lparr>current_task := c\<rparr>) t = present s t" "present (s\<lparr>tss_rsp0 := d\<rparr>) t = present s t"
  by (simp_all add: present_def)

lemma vr_st_fields [simp]:
  "vr (s\<lparr>preempt_count := a\<rparr>) = vr s" "vr (s\<lparr>need_resched := b\<rparr>) = vr s"
  "vr (s\<lparr>current_task := c\<rparr>) = vr s" "vr (s\<lparr>tss_rsp0 := d\<rparr>) = vr s"
  "st (s\<lparr>preempt_count := a\<rparr>) = st s" "st (s\<lparr>need_resched := b\<rparr>) = st s"
  "st (s\<lparr>current_task := c\<rparr>) = st s" "st (s\<lparr>tss_rsp0 := d\<rparr>) = st s"
  by (simp_all add: vr_def [abs_def] st_def [abs_def])

lemma slices_fields [simp]:
  "slices (s\<lparr>preempt_count := a\<rparr>) = slices s" "slices (s\<lparr>need_resched := b\<rparr>) = slices s"
  "slices (s\<lparr>current_task := c\<rparr>) = slices s" "slices (s\<lparr>tss_rsp0 := d\<rparr>) = slices s"
  by (simp_all add: slices_def [abs_def])

lemma upd_task_slices:
  "upd_task t f s = Some s' \<Longrightarrow> (\<And>tk. tk_time_slice (f tk) = tk_time_slice tk) \<Longrightarrow> slices s' = slices s"
  by (auto simp: upd_task_def slices_def fun_eq_iff bind_eq_Some_conv)

lemma upd_task_inert:
  assumes "\<And>tk. tk_vruntime (f tk) = tk_vruntime tk" "\<And>tk. tk_state (f tk) = tk_state tk" "tasks s t \<noteq> None"
  obtains s' where "upd_task t f s = Some s'" "\<And>q. rq s q \<Longrightarrow> rq s' q" "vr s' = vr s" "st s' = st s"
    "\<And>u. present s u \<Longrightarrow> present s' u" "vitals s' = vitals s"
proof -
  obtain tk where tk: "tasks s t = Some tk" using assms(3) by auto
  show ?thesis
  proof (rule that [of "s\<lparr>tasks := (tasks s)(t \<mapsto> f tk)\<rparr>"])
    show "upd_task t f s = Some (s\<lparr>tasks := (tasks s)(t \<mapsto> f tk)\<rparr>)" by (simp add: upd_task_def tk)
    show "rq (s\<lparr>tasks := (tasks s)(t \<mapsto> f tk)\<rparr>) q" if "rq s q" for q
      by (rule rq_upd_task [OF that tk]) (rule assms)
  qed (auto simp: vr_def fun_eq_iff st_def tk assms(1,2) present_upd_task vitals_def)
qed

lemma present_task: "present s t \<Longrightarrow> tasks s t \<noteq> None"
  by (simp add: present_def)

lemma st_task: "st s t = Some x \<Longrightarrow> \<exists>tk. tasks s t = Some tk \<and> tk_state tk = x"
  by (auto simp: st_def)

text \<open>A runnable task goes to the end of a queue whose tasks all have virtual run time 0.\<close>

lemma requeue:
  assumes r: "rq s q" and z: "\<forall>t\<in>set q. vr s t = 0" and p: "present s t" and t: "t \<notin> set q"
    and x: "st s t = Some x" "x \<noteq> S_TASK_INIT"
  obtains s' where "add_runq t s = Some s'" "rq s' (q @ [t])" "vr s' = (vr s)(t := 0)" "st s' = st s"
    "\<And>u. present s u \<Longrightarrow> present s' u" "vitals s' = vitals s" "slices s' = slices s"
proof -
  obtain tk where tk: "tasks s t = Some tk" "tk_state tk = x" using st_task [OF x(1)] by blast
  have v: "(if q = [] then 0 else vr s (hd q)) = 0" using z by (cases q) auto
  obtain s' where s': "add_runq t s = Some s'" "rq s' (ins_at (\<lambda>x. (if q = [] then 0 else vr s (hd q)) < vr s x) t q)"
    "rest s' = rest (s\<lparr>tasks := (tasks s)(t \<mapsto> tk\<lparr>tk_vruntime := if q = [] then 0 else vr s (hd q)\<rparr>)\<rparr>)"
    "\<And>u. present s u \<Longrightarrow> present s' u"
    by (rule add_runq_correct [OF r p t tk(1)]) (use tk x that in auto)
  have "ins_at (\<lambda>x. 0 < vr s x) t q = q @ [t]"
    using ins_at_split(1) [of q "\<lambda>x. 0 < vr s x" "[]" t] z by simp
  then have "rq s' (q @ [t])" using s'(2) unfolding v by simp
  moreover have "vr s' = (vr s)(t := 0)" "st s' = st s" "vitals s' = vitals s" "slices s' = slices s"
    using s'(3) unfolding v by (auto simp: rest_def vr_def st_def vitals_def slices_def fun_eq_iff tk)
  ultimately show ?thesis using that s'(1,4) by blast
qed

definition queue_after :: "sched \<Rightarrow> u64 list \<Rightarrow> u64 list" where
  "queue_after s q = (if st s (current_task s) = Some S_TASK_RUNNABLE then q @ [current_task s] else q)"

lemma schedule_correct:
  assumes ok: "sched_ok s q"
  obtains s' where "schedule s = Some s'" "sched_ok s' (tl (queue_after s q))" "st s' = st s"
    "current_task s' = hd (queue_after s q @ [rq_idle s])" "rq_idle s' = rq_idle s"
    "preempt_count s' = preempt_count s" "\<not> need_resched s'" "\<And>u. present s u \<Longrightarrow> present s' u"
    "slices s' = slices s"
proof -
  let ?c = "current_task s" and ?Q = "queue_after s q"
  have r: "rq s q" and z: "\<forall>t\<in>set q. vr s t = 0" "\<forall>t\<in>set q. st s t = Some S_TASK_RUNNABLE"
    and p: "present s ?c" and c: "?c \<notin> set q" and idle: "present s (rq_idle s)" "st s (rq_idle s) = Some S_TASK_INIT"
    using ok by (auto simp: sched_ok_def)
  let ?s0 = "s\<lparr>preempt_count := preempt_count s + 1, need_resched := False\<rparr>"
  obtain tk where tk: "tasks s ?c = Some tk" using p by (auto simp: present_def)
  let ?s1 = "?s0\<lparr>tasks := (tasks s)(?c \<mapsto> tk\<lparr>tk_vruntime := tk_vruntime tk + 1\<rparr>)\<rparr>"
  have u1: "upd_task ?c (\<lambda>tk. tk\<lparr>tk_vruntime := tk_vruntime tk + 1\<rparr>) ?s0 = Some ?s1"
    by (simp add: upd_task_def tk)
  have r0: "rq ?s0 q" using r by simp
  have r1: "rq ?s1 q"
    using rq_upd_task [OF r0, of ?c tk "tk\<lparr>tk_vruntime := tk_vruntime tk + 1\<rparr>"] tk c by simp
  have st1: "st ?s1 = st s" "slices ?s1 = slices s" by (auto simp: st_def slices_def fun_eq_iff tk)
  have vr1: "vr ?s1 t = vr s t" if "t \<noteq> ?c" for t using that by (simp add: vr_def)
  have z1: "\<forall>t\<in>set q. vr ?s1 t = 0" using z(1) c vr1 by metis
  have p1: "present ?s1 u" if "present s u" for u using that by (auto simp: present_def)
  obtain s2 where s2: "(if tk_state tk = S_TASK_RUNNABLE then add_runq ?c ?s1 else Some ?s1) = Some s2"
    "rq s2 ?Q" "\<forall>t\<in>set ?Q. vr s2 t = 0" "st s2 = st s" "\<And>u. present s u \<Longrightarrow> present s2 u" "vitals s2 = vitals ?s1"
    "slices s2 = slices s"
  proof (cases "tk_state tk = S_TASK_RUNNABLE")
    case True
    then have sc: "st ?s1 ?c = Some S_TASK_RUNNABLE" by (simp add: st_def)
    obtain s2 where "add_runq ?c ?s1 = Some s2" "rq s2 (q @ [?c])" "vr s2 = (vr ?s1)(?c := 0)" "st s2 = st ?s1"
      "\<And>u. present ?s1 u \<Longrightarrow> present s2 u" "vitals s2 = vitals ?s1" "slices s2 = slices ?s1"
      by (rule requeue [OF r1 z1 p1 [OF p] c sc]) (use that in auto)
    then show ?thesis using True that [of s2] z1 st1 p1 tk by (simp add: queue_after_def st_def)
  next
    case False
    then show ?thesis using that [of ?s1] r1 z1 st1 p1 tk by (simp add: queue_after_def st_def)
  qed
  let ?n = "hd (?Q @ [rq_idle s])"
  have v2: "rq_idle s2 = rq_idle s" "current_task s2 = ?c" "preempt_count s2 = preempt_count s + 1" "\<not> need_resched s2"
    using s2(6) by (auto simp: vitals_def)
  obtain s3 where s3: "next_runq s2 = Some (?n, s3)" "rq s3 (tl ?Q)" "rest s3 = rest s2" "\<And>u. present s2 u \<Longrightarrow> present s3 u"
    using next_runq_correct [OF s2(2)] v2(1) s2(2) by (cases ?Q) auto
  have v3: "vitals s3 = vitals s2" "vr s3 = vr s2" "st s3 = st s2" "slices s3 = slices s2"
    using s3(3) by (auto simp: rest_def vitals_def vr_def st_def slices_def fun_eq_iff)
  have pn: "present s ?n"
    using idle(1) p ok rqD [OF r] by (cases q) (auto simp: queue_after_def)
  note p3 = s3(4) [OF s2(5)]
  obtain s4 where s4: "upd_task ?c (\<lambda>tk. tk\<lparr>tk_flags := tk_flags tk AND NOT TASK_RUNNING\<rparr>) s3 = Some s4"
    "\<And>q. rq s3 q \<Longrightarrow> rq s4 q" "vr s4 = vr s3" "st s4 = st s3" "\<And>u. present s3 u \<Longrightarrow> present s4 u" "vitals s4 = vitals s3"
    by (rule upd_task_inert [where f = "\<lambda>tk. tk\<lparr>tk_flags := tk_flags tk AND NOT TASK_RUNNING\<rparr>" and s = s3 and t = ?c];
        (erule (5) that | simp add: present_task [OF p3 [OF p]]))
  obtain s5 where s5: "upd_task ?n (\<lambda>tk. tk\<lparr>tk_flags := tk_flags tk OR TASK_RUNNING\<rparr>) s4 = Some s5"
    "\<And>q. rq s4 q \<Longrightarrow> rq s5 q" "vr s5 = vr s4" "st s5 = st s4" "\<And>u. present s4 u \<Longrightarrow> present s5 u" "vitals s5 = vitals s4"
    by (rule upd_task_inert [where f = "\<lambda>tk. tk\<lparr>tk_flags := tk_flags tk OR TASK_RUNNING\<rparr>" and s = s4 and t = ?n];
        (erule (5) that | simp add: present_task [OF s4(5) [OF p3 [OF pn]]]))
  obtain s6 where s6: "upd_task ?n (\<lambda>tk. tk\<lparr>tk_flags := tk_flags tk AND NOT TASK_PREEMPTED\<rparr>) s5 = Some s6"
    "\<And>q. rq s5 q \<Longrightarrow> rq s6 q" "vr s6 = vr s5" "st s6 = st s5" "\<And>u. present s5 u \<Longrightarrow> present s6 u" "vitals s6 = vitals s5"
    by (rule upd_task_inert [where f = "\<lambda>tk. tk\<lparr>tk_flags := tk_flags tk AND NOT TASK_PREEMPTED\<rparr>" and s = s5 and t = ?n];
        (erule (5) that | simp add: present_task [OF s5(5) [OF s4(5) [OF p3 [OF pn]]]]))
  have p6: "present s6 u" if "present s u" for u by (intro s6(5) s5(5) s4(5) p3) (rule that)
  obtain tn where tn: "tasks s6 ?n = Some tn" using p6 [OF pn] by (auto simp: present_def)
  let ?s' = "s6\<lparr>current_task := ?n, tss_rsp0 := tk_kstack_top tn, preempt_count := preempt_count s6 - 1\<rparr>"
  have v6: "rq_idle s6 = rq_idle s" "current_task s6 = ?c" "preempt_count s6 = preempt_count s + 1" "\<not> need_resched s6"
    "current_task s3 = ?c" "vr s6 = vr s2" "st s6 = st s"
    using s6 s5 s4 v3 v2 s2(4) by (auto simp: vitals_def)
  have sl: "slices s6 = slices s"
    using upd_task_slices [OF s4(1)] upd_task_slices [OF s5(1)] upd_task_slices [OF s6(1)] v3(4) s2(7) by simp
  have sw: "switch_to ?c ?n s6 = Some ?s'" by (simp add: switch_to_def tn)
  define s1 where "s1 = ?s1"
  have a1: "tasks s1 ?c = Some (tk\<lparr>tk_vruntime := tk_vruntime tk + 1\<rparr>)" "current_task s1 = ?c" by (simp_all add: s1_def)
  have e: "schedule s = Some ?s'"
    using s2(1) a1 unfolding schedule_def Let_def s1_def [symmetric]
    by (cases "tk_state tk = S_TASK_RUNNABLE")
      (simp_all add: u1 [folded s1_def] s3(1) v6(5) s4(1) s5(1) s6(1) v6(2) sw)
  have hd: "?n = rq_idle s \<or> ?n \<in> set ?Q" by (cases ?Q) auto
  have d: "distinct ?Q" using rqD [OF s2(2)] by metis
  then have nt: "?n \<notin> set (tl ?Q)"
  proof (cases ?Q)
    case (Cons a as)
    then show ?thesis using d by simp
  qed simp
  have stQ: "\<forall>t\<in>set ?Q. st s t = Some S_TASK_RUNNABLE" using z(2) by (auto simp: queue_after_def)
  have tlQ: "set (tl ?Q) \<subseteq> set ?Q" by (cases ?Q) auto
  have "rq ?s' (tl ?Q)" using s3(2) s4(2) s5(2) s6(2) by simp
  then have "sched_ok ?s' (tl ?Q)"
    using s2(3) stQ tlQ nt p6 [OF pn] p6 [OF idle(1)] idle(2) hd v6 unfolding sched_ok_def by auto
  then show ?thesis using that [OF e] v6 p6 sl by simp
qed

end
