(* ===== verification/Sched_Props.thy ===== *)
theory Sched_Props
  imports Sched_Run
begin

text \<open>
  What the scheduler promises, and one way it breaks: the order of the queue, taking turns, the
  invariant of every reachable state, and the exit of a running task.
\<close>

lemma task_wake_correct:
  assumes ok: "sched_ok s q" and p: "present s t" and n: "st s t \<noteq> Some S_TASK_RUNNABLE" "t \<noteq> rq_idle s" "t \<noteq> current_task s"
  obtains s' where "task_wake t s = Some s'" "sched_ok s' (q @ [t])" "current_task s' = current_task s"
    "rq_idle s' = rq_idle s"
proof -
  obtain tk where tk: "tasks s t = Some tk" using p by (auto simp: present_def)
  let ?s1 = "s\<lparr>tasks := (tasks s)(t \<mapsto> tk\<lparr>tk_state := S_TASK_RUNNABLE\<rparr>)\<rparr>"
  have tq: "t \<notin> set q" using ok n(1) by (auto simp: sched_ok_def)
  have r: "rq s q" using ok by (simp add: sched_ok_def)
  have r1: "rq ?s1 q" by (rule rq_upd_task [OF r tk]) simp
  have v1: "vr ?s1 = vr s" by (auto simp: vr_def fun_eq_iff tk)
  have s1: "st ?s1 = (st s)(t := Some S_TASK_RUNNABLE)" by (auto simp: st_def fun_eq_iff)
  have p1: "present ?s1 u" if "present s u" for u by (rule present_upd_task [OF that])
  have st1: "st ?s1 t = Some S_TASK_RUNNABLE" by (simp add: s1)
  have z: "\<forall>t\<in>set q. vr ?s1 t = 0" using ok v1 by (simp add: sched_ok_def)
  obtain s' where s': "add_runq t ?s1 = Some s'" "rq s' (q @ [t])" "vr s' = (vr ?s1)(t := 0)" "st s' = st ?s1"
    "\<And>u. present ?s1 u \<Longrightarrow> present s' u" "vitals s' = vitals ?s1"
    by (rule requeue [OF r1 z p1 [OF p] tq st1]) (simp, rule that)
  have "task_wake t s = Some s'"
    using n(1) s'(1) by (simp add: task_wake_def tk st_def upd_task_def sched_add_def)
  moreover have v: "current_task s' = current_task s" "rq_idle s' = rq_idle s" using s'(6) by (simp_all add: vitals_def)
  moreover have "sched_ok s' (q @ [t])"
    using ok s'(2) n v p1 s'(5) unfolding sched_ok_def s'(3,4) v1 s1 v by auto
  ultimately show ?thesis using that by blast
qed

lemma preempt_correct:
  assumes ok: "sched_ok s q"
  obtains s' where "sched_yield_preempt s = Some s'" "sched_ok s' (tl (queue_after s q))" "st s' = st s"
    "current_task s' = hd (queue_after s q @ [rq_idle s])" "rq_idle s' = rq_idle s"
proof -
  let ?s0 = "s\<lparr>preempt_count := preempt_count s + 1\<rparr>"
  have p: "tasks ?s0 (current_task s) \<noteq> None" using ok by (auto simp: sched_ok_def present_def)
  obtain s1 where s1: "upd_task (current_task s) (\<lambda>tk. tk\<lparr>tk_flags := tk_flags tk OR TASK_PREEMPTED\<rparr>) ?s0 = Some s1"
    "\<And>q. rq ?s0 q \<Longrightarrow> rq s1 q" "vr s1 = vr ?s0" "st s1 = st ?s0" "\<And>u. present ?s0 u \<Longrightarrow> present s1 u" "vitals s1 = vitals ?s0"
    by (rule upd_task_inert [where f = "\<lambda>tk. tk\<lparr>tk_flags := tk_flags tk OR TASK_PREEMPTED\<rparr>" and s = ?s0 and t = "current_task s"];
        (erule (5) that | simp add: p [simplified]))
  let ?s2 = "s1\<lparr>preempt_count := preempt_count s1 - 1\<rparr>"
  have v: "current_task s1 = current_task s" "rq_idle s1 = rq_idle s" using s1(6) by (simp_all add: vitals_def)
  have "sched_ok ?s2 q"
    using ok s1(2,5) v unfolding sched_ok_def by (auto simp: s1(3,4))
  then obtain s' where "schedule ?s2 = Some s'" "sched_ok s' (tl (queue_after ?s2 q))" "st s' = st ?s2"
    "current_task s' = hd (queue_after ?s2 q @ [rq_idle ?s2])" "rq_idle s' = rq_idle ?s2"
    using schedule_correct by metis
  moreover have "queue_after ?s2 q = queue_after s q" by (simp add: queue_after_def s1(4) v)
  ultimately show ?thesis
    using that [of s'] s1(1) v s1(4) by (simp add: sched_yield_preempt_def Let_def)
qed

text \<open>The steps of the scheduler: a task is woken, the running task yields or is preempted.\<close>

inductive sched_step :: "sched \<Rightarrow> sched \<Rightarrow> bool" where
  wake: "task_wake t s = Some s' \<Longrightarrow> present s t \<Longrightarrow> t \<noteq> rq_idle s \<Longrightarrow> t \<noteq> current_task s \<Longrightarrow> sched_step s s'"
| yield: "sched_yield s = Some s' \<Longrightarrow> sched_step s s'"
| preempt: "sched_yield_preempt s = Some s' \<Longrightarrow> sched_step s s'"

inductive_cases sched_stepE: "sched_step s s'"

lemma step_ok: "sched_step s s' \<Longrightarrow> sched_ok s q \<Longrightarrow> \<exists>q'. sched_ok s' q'"
proof (erule sched_stepE)
  fix t assume ok: "sched_ok s q" and w: "task_wake t s = Some s'" "present s t" "t \<noteq> rq_idle s" "t \<noteq> current_task s"
  show "\<exists>q'. sched_ok s' q'"
  proof (cases "st s t = Some S_TASK_RUNNABLE")
    case True
    then have "s' = s" using w(1) by (auto simp: task_wake_def st_def)
    then show ?thesis using ok by blast
  next
    case False
    then show ?thesis using task_wake_correct [OF ok w(2) False w(3,4)] w(1) by auto
  qed
next
  assume "sched_ok s q" "sched_yield s = Some s'"
  then show "\<exists>q'. sched_ok s' q'" using schedule_correct by (metis option.inject sched_yield_def)
next
  assume "sched_ok s q" "sched_yield_preempt s = Some s'"
  then show "\<exists>q'. sched_ok s' q'" using preempt_correct by (metis option.inject)
qed

definition in_line :: "sched \<Rightarrow> u64 list \<Rightarrow> bool" where
  "in_line s ts \<longleftrightarrow> (\<exists>q. sched_ok s q \<and> ts = current_task s # q \<and> st s (current_task s) = Some S_TASK_RUNNABLE)"

interpretation turns: round_robin in_line current_task sched_yield
proof unfold_locales
  fix s ts assume "in_line s ts"
  then show "ts \<noteq> [] \<and> current_task s = hd ts" by (auto simp: in_line_def)
next
  fix s ts assume "in_line s ts"
  then obtain q where q: "sched_ok s q" "ts = current_task s # q" "st s (current_task s) = Some S_TASK_RUNNABLE"
    by (auto simp: in_line_def)
  have Q: "queue_after s q = q @ [current_task s]" using q by (simp add: queue_after_def)
  obtain s' where s': "schedule s = Some s'" "sched_ok s' (tl (queue_after s q))" "st s' = st s"
    "current_task s' = hd (queue_after s q @ [rq_idle s])"
    using schedule_correct [OF q(1)] by metis
  have "st s (hd (q @ [current_task s])) = Some S_TASK_RUNNABLE"
    using q by (cases q) (auto simp: sched_ok_def)
  then have "in_line s' (q @ [current_task s])"
    using s' Q unfolding in_line_def by (intro exI [of _ "tl (q @ [current_task s])"]) (cases q; simp)
  then show "\<exists>s'. sched_yield s = Some s' \<and> in_line s' (rotate1 ts)"
    using s'(1) q(2) by (simp add: sched_yield_def)
qed

lemma init_runq_correct:
  assumes "present s idle"
  obtains s' where "init_runq idle s = Some s'" "sched_ok s' []" "current_task s' = idle"
proof -
  obtain tk where tk: "tasks s idle = Some tk" using assms by (auto simp: present_def)
  let ?s' = "s\<lparr>rb_root := 0, rb_leftmost := 0, num_threads := 0,
    tasks := (tasks s)(idle \<mapsto> tk\<lparr>tk_state := S_TASK_INIT, tk_tid := 0\<rparr>), rq_idle := idle, current_task := idle\<rparr>"
  have "init_runq idle s = Some ?s'"
    using tk by (simp add: init_runq_def upd_task_def)
  moreover have "cached_rep ?s' Leaf" by (simp add: cached_rep_def rep_def rbt_def)
  then have "rq ?s' []" by (auto simp: rq_def intro!: exI [of _ Leaf])
  then have "sched_ok ?s' []" using assms by (simp add: sched_ok_def present_def st_def)
  ultimately show ?thesis using that by simp
qed

section \<open>A sample state\<close>

definition task_at :: "task_state \<Rightarrow> task" where
  "task_at x = \<lparr>tk_stack = 0, tk_kstack_top = 0, tk_tid = 1, tk_tgid = 1, tk_flags = 0, tk_vmap = 0, tk_state = x,
     tk_prio = 0, tk_vruntime = 0, tk_time_slice = 0, tk_thread = \<lparr>th_sp = 0, th_pc = 0\<rparr>, tk_stack_base = 0, tk_stack_size = 0\<rparr>"

text \<open>
  Three tasks were woken, at 0x1000, 0x2000 and 0x3000; the first one was taken from the tree and
  runs now. Its node still has the contents it had in the tree.
\<close>

definition three :: sched where
  "three = \<lparr>rb_nodes = [0x138 \<mapsto> \<lparr>rb_parent_color = 0, rb_right = 0, rb_left = 0\<rparr>,
      0x1038 \<mapsto> \<lparr>rb_parent_color = 0x2038, rb_right = 0, rb_left = 0\<rparr>,
      0x2038 \<mapsto> \<lparr>rb_parent_color = 1, rb_right = 0x3038, rb_left = 0\<rparr>,
      0x3038 \<mapsto> \<lparr>rb_parent_color = 0x2038, rb_right = 0, rb_left = 0\<rparr>],
    rb_root = 0x2038, rb_leftmost = 0x2038, rq_idle = 0x100, num_threads = 2,
    tasks = [0x100 \<mapsto> task_at S_TASK_INIT, 0x1000 \<mapsto> task_at S_TASK_RUNNABLE, 0x2000 \<mapsto> task_at S_TASK_RUNNABLE,
      0x3000 \<mapsto> task_at S_TASK_RUNNABLE],
    current_task = 0x1000, preempt_count = 0, need_resched = True, next_tid = 4, next_pid = 0, tss_rsp0 = 0\<rparr>"

lemma three_ok: "sched_ok three [0x2000, 0x3000]"
proof -
  have "cached_rep three (Node Black Leaf 0x2038 (Node Red Leaf 0x3038 Leaf))"
    by (simp add: cached_rep_def rep_def rbt_def three_def ok_addr_def)
  then have "rq three [0x2000, 0x3000]"
    by (auto simp: rq_def node_of_def NODE_OFFSET_def vr_def task_at_def three_def
        intro!: exI [of _ "Node Black Leaf 0x2038 (Node Red Leaf 0x3038 Leaf)"])
  moreover have "vr three t = 0" for t by (simp add: vr_def three_def task_at_def)
  moreover have "st three 0x2000 = Some S_TASK_RUNNABLE" "st three 0x3000 = Some S_TASK_RUNNABLE"
    "st three 0x1000 = Some S_TASK_RUNNABLE" "st three 0x100 = Some S_TASK_INIT"
    "current_task three = 0x1000" "rq_idle three = 0x100"
    by (simp_all add: st_def three_def task_at_def)
  moreover have "present three 0x1000" "present three 0x100"
    by (simp_all add: present_def three_def node_of_def NODE_OFFSET_def ok_addr_def)
  ultimately show ?thesis by (simp add: sched_ok_def)
qed

section \<open>Properties\<close>

text \<open>
  \<open>next_runq\<close> on a well-formed, non-empty run queue returns a task of least virtual run time and
  takes exactly that task out; nothing but the tree, its cached first node and the counter changes.
\<close>

theorem next_runq_least:
  assumes "rq s q" and "q \<noteq> []"
  shows "\<exists>s'. next_runq s = Some (hd q, s') \<and> rq s' (tl q) \<and> rest s' = rest s \<and> (\<forall>u\<in>set q. vr s (hd q) \<le> vr s u)"
proof -
  obtain t ts where q: "q = t # ts" using assms(2) by (cases q) auto
  have "sorted (map (vr s) q)" using assms(1) by (simp add: rq_def)
  then show ?thesis using next_runq_correct(2) [OF assms(1) q] by (auto simp: q)
qed

theorem next_runq_least_witness: "\<exists>s'. next_runq three = Some (0x2000, s') \<and> rq s' [0x3000]"
proof -
  have "rq three [0x2000, 0x3000]" "[0x2000, 0x3000 :: u64] \<noteq> []" using three_ok by (simp_all add: sched_ok_def)
  from next_runq_least [OF this] show ?thesis by auto
qed

text \<open>
  Adding a task to a well-formed run queue keeps it well-formed: the task goes behind every
  queued task of no greater virtual run time and in front of all others.
\<close>

theorem tree_insert_spec:
  assumes "rq s q" and "present s t" and "t \<notin> set q"
  shows "\<exists>s'. tree_insert t s = Some s' \<and> rest s' = rest s
    \<and> rq s' (takeWhile (\<lambda>x. \<not> vr s t < vr s x) q @ t # dropWhile (\<lambda>x. \<not> vr s t < vr s x) q)"
  using tree_insert_correct [OF assms] unfolding ins_at_def by metis

theorem tree_insert_spec_witness:
  "\<exists>s'. tree_insert 0x1000 three = Some s' \<and> rq s' [0x2000, 0x3000, 0x1000]"
proof -
  have "rq three [0x2000, 0x3000]" "present three 0x1000" "(0x1000 :: u64) \<notin> set [0x2000, 0x3000]"
    using three_ok by (auto simp: sched_ok_def three_def)
  moreover have "vr three = (\<lambda>_. 0)" by (auto simp: vr_def three_def task_at_def fun_eq_iff)
  ultimately show ?thesis using tree_insert_spec [of three "[0x2000, 0x3000]" "0x1000"] by auto
qed

text \<open>
  C25: a scheduling step in a reachable state always succeeds. The running task, when it is still
  runnable, goes to the end of the queue; the first task of the queue runs next, the idle task when
  there is none; the preemption counter is back at its value and no rescheduling is pending.
\<close>

theorem schedule_spec:
  assumes "sched_ok s q"
  shows "\<exists>s' Q. schedule s = Some s'
    \<and> Q = (if st s (current_task s) = Some S_TASK_RUNNABLE then q @ [current_task s] else q)
    \<and> sched_ok s' (tl Q) \<and> current_task s' = (if Q = [] then rq_idle s else hd Q)
    \<and> preempt_count s' = preempt_count s \<and> \<not> need_resched s' \<and> st s' = st s"
proof -
  obtain s' where s': "schedule s = Some s'" "sched_ok s' (tl (queue_after s q))" "st s' = st s"
    "current_task s' = hd (queue_after s q @ [rq_idle s])" "preempt_count s' = preempt_count s" "\<not> need_resched s'"
    by (rule schedule_correct [OF assms]) (rule that)
  show ?thesis
    by (intro exI [of _ s'] exI [of _ "queue_after s q"]) (use s' in \<open>auto simp: queue_after_def\<close>)
qed

theorem schedule_spec_witness: "\<exists>s'. schedule three = Some s' \<and> sched_ok s' [0x3000, 0x1000] \<and> current_task s' = 0x2000"
proof -
  have "st three (current_task three) = Some S_TASK_RUNNABLE" "current_task three = 0x1000"
    by (simp_all add: st_def three_def task_at_def)
  then show ?thesis using schedule_spec [OF three_ok] by auto
qed

text \<open>
  C5: the scheduler takes turns. As long as the tasks only yield, the task at place \<open>i\<close> of the line,
  the running task first, runs after exactly \<open>i\<close> steps, whatever the virtual run times were meant
  to say.
\<close>

theorem round_robin_fair:
  assumes "sched_ok s q" and "st s (current_task s) = Some S_TASK_RUNNABLE" and "i \<le> length q"
  shows "\<exists>s'. iterate sched_yield i s = Some s' \<and> current_task s' = (current_task s # q) ! i"
proof -
  have "in_line s (current_task s # q)" using assms by (auto simp: in_line_def)
  then show ?thesis by (rule turns.runs_in_turn) (use assms(3) in simp)
qed

theorem round_robin_fair_witness: "\<exists>s'. iterate sched_yield 2 three = Some s' \<and> current_task s' = 0x3000"
proof -
  have c: "st three (current_task three) = Some S_TASK_RUNNABLE" by (simp add: st_def three_def task_at_def)
  have "2 \<le> length [0x2000, 0x3000 :: u64]" by simp
  from round_robin_fair [OF three_ok c this] show ?thesis by (simp add: numeral_2_eq_2)
qed



text \<open>The first two steps of that exit, computed.\<close>

lemmas eval_erase = rb_erase_def rb_erase_augmented_def erase_one_child_def rb_change_child_def get_left_def get_right_def get_pc_def
  set_left_def set_right_def set_pc_def upd_node_def pc_parent_def pc_is_black_def Let_def node_of_def NODE_OFFSET_def
  node_to_task_def rb_parent_def dummy_propagate_def dummy_copy_def RB_EMPTY_NODE_def

definition three_left :: sched where
  "three_left = three\<lparr>rb_nodes := (rb_nodes three)(0x2038 \<mapsto> \<lparr>rb_parent_color = 1, rb_right = 0, rb_left = 0\<rparr>),
    num_threads := 1, tasks := (tasks three)(0x1000 \<mapsto> task_at S_TASK_ZOMBIE)\<rparr>"

lemma three_exit: "task_exit 0 three = sched_yield three_left"
  by (simp add: three_left_def task_exit_def sched_remove_def remove_runq_def tree_remove_def eval_erase three_def
      task_at_def upd_task_def)

lemma three_left_ok: "sched_ok three_left [0x2000]"
proof -
  have "cached_rep three_left (Node Black Leaf 0x2038 Leaf)"
    by (simp add: cached_rep_def rep_def rbt_def three_left_def three_def ok_addr_def)
  then have "rq three_left [0x2000]"
    by (auto simp: rq_def node_of_def NODE_OFFSET_def vr_def task_at_def three_left_def three_def
        intro!: exI [of _ "Node Black Leaf 0x2038 Leaf"])
  moreover have "vr three_left t = 0" for t by (simp add: vr_def three_left_def three_def task_at_def)
  moreover have "st three_left 0x2000 = Some S_TASK_RUNNABLE" "st three_left 0x1000 = Some S_TASK_ZOMBIE"
    "st three_left 0x100 = Some S_TASK_INIT" "current_task three_left = 0x1000" "rq_idle three_left = 0x100"
    by (simp_all add: st_def three_left_def three_def task_at_def)
  moreover have "present three_left 0x1000" "present three_left 0x100"
    by (simp_all add: present_def three_left_def three_def node_of_def NODE_OFFSET_def ok_addr_def)
  ultimately show ?thesis by (simp add: sched_ok_def)
qed

lemma empty_rq: "rq s [] \<Longrightarrow> rb_root s = 0 \<and> rb_leftmost s = 0"
  by (auto simp: rq_def cached_rep_def rep_def)


end
