(* ===== verification/Kprintf.thy ===== *)
theory Kprintf
  imports Prelude
begin

text \<open>
  Formatted output: \<^verbatim>\<open>src/kernel/kernel/lib/kprintf/kprintf.c\<close> as it is configured there (no
  floating point). A C string is the list of its bytes with the terminating 0 and whatever follows
  it; reading past the end of the list is undefined (\<open>None\<close>). A variable argument is the 64-bit
  slot it occupies or the string it points to; taking one as the wrong kind, or one too many, is
  undefined. A cursor is the running index together with what has been output.
\<close>

abbreviation NUL :: char where "NUL \<equiv> CHR 0x00"

definition PRINTF_NTOA_BUFFER_SIZE :: nat where "PRINTF_NTOA_BUFFER_SIZE = 32"

definition FLAGS_ZEROPAD :: u32 where "FLAGS_ZEROPAD = 1"
definition FLAGS_LEFT :: u32 where "FLAGS_LEFT = 2"
definition FLAGS_PLUS :: u32 where "FLAGS_PLUS = 4"
definition FLAGS_SPACE :: u32 where "FLAGS_SPACE = 8"
definition FLAGS_HASH :: u32 where "FLAGS_HASH = 16"
definition FLAGS_UPPERCASE :: u32 where "FLAGS_UPPERCASE = 32"
definition FLAGS_CHAR :: u32 where "FLAGS_CHAR = 64"
definition FLAGS_SHORT :: u32 where "FLAGS_SHORT = 128"
definition FLAGS_LONG :: u32 where "FLAGS_LONG = 256"
definition FLAGS_LONG_LONG :: u32 where "FLAGS_LONG_LONG = 512"
definition FLAGS_PRECISION :: u32 where "FLAGS_PRECISION = 1024"

abbreviation has :: "u32 \<Rightarrow> u32 \<Rightarrow> bool" where "has flags f \<equiv> flags AND f \<noteq> 0"

section \<open>Output functions\<close>

text \<open>
  What output functions write to: the caller's buffer, the characters given to \<open>_putchar\<close>, and
  the characters given to the function of \<open>fctprintf\<close>.
\<close>

record sink =
  sk_buffer :: "u64 \<Rightarrow> char"
  sk_put :: "char list"
  sk_fct :: "char list"

datatype out_fct = Out_buffer | Out_null | Out_char | Out_fct

definition out_buffer :: "char \<Rightarrow> u64 \<Rightarrow> u64 \<Rightarrow> sink \<Rightarrow> sink" where
  "out_buffer character idx maxlen s =
     (if idx < maxlen then s\<lparr>sk_buffer := (sk_buffer s)(idx := character)\<rparr> else s)"

definition out_null :: "char \<Rightarrow> u64 \<Rightarrow> u64 \<Rightarrow> sink \<Rightarrow> sink" where
  "out_null character idx maxlen s = s"

definition out_char :: "char \<Rightarrow> u64 \<Rightarrow> u64 \<Rightarrow> sink \<Rightarrow> sink" where
  "out_char character idx maxlen s = (if character \<noteq> NUL then s\<lparr>sk_put := sk_put s @ [character]\<rparr> else s)"

definition out_fun :: "char \<Rightarrow> u64 \<Rightarrow> u64 \<Rightarrow> sink \<Rightarrow> sink" where
  "out_fun character idx maxlen s = (if character \<noteq> NUL then s\<lparr>sk_fct := sk_fct s @ [character]\<rparr> else s)"

fun call_out :: "out_fct \<Rightarrow> char \<Rightarrow> u64 \<Rightarrow> u64 \<Rightarrow> sink \<Rightarrow> sink" where
  "call_out Out_buffer = out_buffer"
| "call_out Out_null = out_null"
| "call_out Out_char = out_char"
| "call_out Out_fct = out_fun"

type_synonym cursor = "u64 \<times> sink"

text \<open>\<open>out(c, buffer, idx++, maxlen)\<close>.\<close>

fun put :: "out_fct \<Rightarrow> u64 \<Rightarrow> char \<Rightarrow> cursor \<Rightarrow> cursor" where
  "put out maxlen c (idx, s) = (idx + 1, call_out out c idx maxlen s)"

section \<open>Strings\<close>

fun strnlen_loop :: "char list \<Rightarrow> u64 \<Rightarrow> u64 \<Rightarrow> u64 option" where
  "strnlen_loop [] maxsize n = None"
| "strnlen_loop (c # cs) maxsize n =
     (if c \<noteq> NUL \<and> maxsize \<noteq> 0 then strnlen_loop cs (maxsize - 1) (n + 1) else Some n)"

definition strnlen_s :: "char list \<Rightarrow> u64 \<Rightarrow> u32 option" where
  "strnlen_s str maxsize = do { n \<leftarrow> strnlen_loop str maxsize 0; Some (ucast n) }"

definition is_digit :: "char \<Rightarrow> bool" where
  "is_digit ch \<longleftrightarrow> (48 :: nat) \<le> of_char ch \<and> (of_char ch :: nat) \<le> 57"

fun atoi_loop :: "u32 \<Rightarrow> char list \<Rightarrow> (u32 \<times> char list) option" where
  "atoi_loop i [] = None"
| "atoi_loop i (c # cs) = (if is_digit c then atoi_loop (i * 10 + (of_nat (of_char c) - 48)) cs else Some (i, c # cs))"

definition atoi :: "char list \<Rightarrow> (u32 \<times> char list) option" where
  "atoi str = atoi_loop 0 str"

section \<open>Numbers\<close>

text \<open>The padding loops: a counter that runs up to the width, and the index itself.\<close>

function pad_from :: "out_fct \<Rightarrow> u64 \<Rightarrow> 'a::len word \<Rightarrow> 'a word \<Rightarrow> cursor \<Rightarrow> cursor" where
  "pad_from out maxlen i width p = (if i < width then pad_from out maxlen (i + 1) width (put out maxlen CHR '' '' p) else p)"
  by pat_completeness auto
termination by (relation "measure (\<lambda>(out, maxlen, i, width, p). unat width - unat i)") auto

function pad_index :: "out_fct \<Rightarrow> u64 \<Rightarrow> u64 \<Rightarrow> u64 \<Rightarrow> cursor \<Rightarrow> cursor" where
  "pad_index out maxlen start width p =
     (if fst p - start < width then pad_index out maxlen start width (put out maxlen CHR '' '' p) else p)"
  by pat_completeness auto
termination
proof (relation "measure (\<lambda>(out, maxlen, start, width, p). unat width - unat (fst p - start))", simp)
  fix out maxlen start width and p :: cursor
  assume "fst p - start < width"
  then have "unat width - unat (fst p - start + 1) < unat width - unat (fst p - start)" by (rule count_up_decreases)
  moreover have "fst (put out maxlen CHR '' '' p) - start = fst p - start + 1" by (cases p) simp
  ultimately show "((out, maxlen, start, width, put out maxlen CHR '' '' p), (out, maxlen, start, width, p))
      \<in> measure (\<lambda>(out, maxlen, start, width, p). unat width - unat (fst p - start))"
    by (simp only: in_measure prod.case)
qed

declare pad_from.simps [simp del] pad_index.simps [simp del]

primrec out_back :: "out_fct \<Rightarrow> u64 \<Rightarrow> char list \<Rightarrow> nat \<Rightarrow> cursor \<Rightarrow> cursor" where
  "out_back out maxlen buf 0 p = p"
| "out_back out maxlen buf (Suc len) p = out_back out maxlen buf len (put out maxlen (buf ! len) p)"

text \<open>The local array \<open>buf\<close> is the list of the \<open>len\<close> characters stored in it so far.\<close>

definition out_rev :: "out_fct \<Rightarrow> u64 \<Rightarrow> char list \<Rightarrow> u32 \<Rightarrow> u32 \<Rightarrow> cursor \<Rightarrow> cursor" where
  "out_rev out maxlen buf width flags p =
     (let start_idx = fst p;
          p = (if \<not> has flags FLAGS_LEFT \<and> \<not> has flags FLAGS_ZEROPAD
               then pad_from out maxlen (of_nat (length buf)) (ucast width :: u64) p else p);
          p = out_back out maxlen buf (length buf) p in
      if has flags FLAGS_LEFT then pad_index out maxlen start_idx (ucast width) p else p)"

text \<open>\<open>while ((len < n) && (len < PRINTF_NTOA_BUFFER_SIZE)) buf[len++] = '0'\<close>.\<close>

function fill_zeros :: "nat \<Rightarrow> char list \<Rightarrow> char list" where
  "fill_zeros n buf =
     (if length buf < n \<and> length buf < PRINTF_NTOA_BUFFER_SIZE then fill_zeros n (buf @ [CHR ''0'']) else buf)"
  by pat_completeness auto
termination by (relation "measure (\<lambda>(n, buf). n - length buf)") auto

declare fill_zeros.simps [simp del]

text \<open>\<open>buf[len++] = c\<close> behind the test \<open>len < PRINTF_NTOA_BUFFER_SIZE\<close>.\<close>

definition push_if_room :: "char \<Rightarrow> char list \<Rightarrow> char list" where
  "push_if_room c buf = (if length buf < PRINTF_NTOA_BUFFER_SIZE then buf @ [c] else buf)"

definition ntoa_zeros :: "char list \<Rightarrow> bool \<Rightarrow> u32 \<Rightarrow> u32 \<Rightarrow> u32 \<Rightarrow> char list \<times> u32" where
  "ntoa_zeros buf negative prec width flags =
     (if \<not> has flags FLAGS_LEFT then
        let width = (if width \<noteq> 0 \<and> has flags FLAGS_ZEROPAD \<and> (negative \<or> has flags (FLAGS_PLUS OR FLAGS_SPACE))
                     then width - 1 else width);
            buf = fill_zeros (unat prec) buf;
            buf = (if has flags FLAGS_ZEROPAD then fill_zeros (unat width) buf else buf) in
        (buf, width)
      else (buf, width))"

definition ntoa_hash :: "char list \<Rightarrow> u32 \<Rightarrow> u32 \<Rightarrow> u32 \<Rightarrow> u32 \<Rightarrow> char list" where
  "ntoa_hash buf base prec width flags =
     (if has flags FLAGS_HASH then
        let buf = (if \<not> has flags FLAGS_PRECISION \<and> buf \<noteq> [] \<and> (length buf = unat prec \<or> length buf = unat width) then
                     (let buf = butlast buf in if buf \<noteq> [] \<and> base = 16 then butlast buf else buf)
                   else buf);
            buf = (if base = 16 \<and> \<not> has flags FLAGS_UPPERCASE \<and> length buf < PRINTF_NTOA_BUFFER_SIZE then buf @ ''x''
                   else if base = 16 \<and> has flags FLAGS_UPPERCASE \<and> length buf < PRINTF_NTOA_BUFFER_SIZE then buf @ ''X''
                   else if base = 2 \<and> length buf < PRINTF_NTOA_BUFFER_SIZE then buf @ ''b''
                   else buf) in
        push_if_room CHR ''0'' buf
      else buf)"

definition ntoa_sign :: "char list \<Rightarrow> bool \<Rightarrow> u32 \<Rightarrow> char list" where
  "ntoa_sign buf negative flags =
     (if length buf < PRINTF_NTOA_BUFFER_SIZE then
        if negative then buf @ ''-''
        else if has flags FLAGS_PLUS then buf @ ''+''
        else if has flags FLAGS_SPACE then buf @ '' ''
        else buf
      else buf)"

definition ntoa_format ::
  "out_fct \<Rightarrow> u64 \<Rightarrow> char list \<Rightarrow> bool \<Rightarrow> u32 \<Rightarrow> u32 \<Rightarrow> u32 \<Rightarrow> u32 \<Rightarrow> cursor \<Rightarrow> cursor" where
  "ntoa_format out maxlen buf negative base prec width flags p =
     (let (buf, width) = ntoa_zeros buf negative prec width flags;
          buf = ntoa_hash buf base prec width flags;
          buf = ntoa_sign buf negative flags in
      out_rev out maxlen buf width flags p)"

definition digit_char :: "u64 \<Rightarrow> u32 \<Rightarrow> char" where
  "digit_char digit flags =
     char_of (if unat digit < 10 then 48 + unat digit
              else (if has flags FLAGS_UPPERCASE then 65 else 97) + unat digit - 10)"

function ntoa_digits :: "u64 \<Rightarrow> u64 \<Rightarrow> u32 \<Rightarrow> char list \<Rightarrow> char list" where
  "ntoa_digits value base flags buf =
     (let buf = buf @ [digit_char (value mod base) flags]; value = value div base in
      if value \<noteq> 0 \<and> length buf < PRINTF_NTOA_BUFFER_SIZE then ntoa_digits value base flags buf else buf)"
  by pat_completeness auto
termination
  by (relation "measure (\<lambda>(value, base, flags, buf). PRINTF_NTOA_BUFFER_SIZE - length buf)") auto

declare ntoa_digits.simps [simp del]

definition ntoa_long ::
  "out_fct \<Rightarrow> u64 \<Rightarrow> u64 \<Rightarrow> bool \<Rightarrow> u64 \<Rightarrow> u32 \<Rightarrow> u32 \<Rightarrow> u32 \<Rightarrow> cursor \<Rightarrow> cursor" where
  "ntoa_long out maxlen value negative base prec width flags p =
     (let flags = (if value = 0 then flags AND NOT FLAGS_HASH else flags);
          buf = (if \<not> has flags FLAGS_PRECISION \<or> value \<noteq> 0 then ntoa_digits value base flags [] else []) in
      ntoa_format out maxlen buf negative (ucast base) prec width flags p)"

definition ntoa_long_long ::
  "out_fct \<Rightarrow> u64 \<Rightarrow> u64 \<Rightarrow> bool \<Rightarrow> u64 \<Rightarrow> u32 \<Rightarrow> u32 \<Rightarrow> u32 \<Rightarrow> cursor \<Rightarrow> cursor" where
  "ntoa_long_long out maxlen value negative base prec width flags p =
     (let flags = (if value = 0 then flags AND NOT FLAGS_HASH else flags);
          buf = (if \<not> has flags FLAGS_PRECISION \<or> value \<noteq> 0 then ntoa_digits value base flags [] else []) in
      ntoa_format out maxlen buf negative (ucast base) prec width flags p)"

section \<open>Variable arguments\<close>

datatype va_slot = Word_arg u64 | Str_arg "char list"

fun va_u64 :: "va_slot list \<Rightarrow> (u64 \<times> va_slot list) option" where
  "va_u64 (Word_arg w # va) = Some (w, va)"
| "va_u64 _ = None"

fun va_str :: "va_slot list \<Rightarrow> (char list \<times> va_slot list) option" where
  "va_str (Str_arg p # va) = Some (p, va)"
| "va_str _ = None"

definition va_int :: "va_slot list \<Rightarrow> (u32 \<times> va_slot list) option" where
  "va_int va = do { (w, va) \<leftarrow> va_u64 va; Some (ucast w, va) }"

text \<open>
  \<open>value > 0 ? value : 0 - value\<close> on signed integers; negating the least one overflows, which is
  undefined.
\<close>

definition signed_abs :: "'a::len word \<Rightarrow> 'a word option" where
  "signed_abs value = (if 0 <s value then Some value
     else if value \<noteq> 0 \<and> value = - value then None else Some (0 - value))"

section \<open>Conversions\<close>

definition conv_signed ::
  "out_fct \<Rightarrow> u64 \<Rightarrow> u32 \<Rightarrow> u32 \<Rightarrow> u32 \<Rightarrow> u32 \<Rightarrow> va_slot list \<Rightarrow> cursor \<Rightarrow> (va_slot list \<times> cursor) option" where
  "conv_signed out maxlen base flags width precision va p =
     (if has flags FLAGS_LONG_LONG then
        do {
          (value, va) \<leftarrow> va_u64 va;
          a \<leftarrow> signed_abs value;
          Some (va, ntoa_long_long out maxlen a (value <s 0) (ucast base) precision width flags p)
        }
      else if has flags FLAGS_LONG then
        do {
          (value, va) \<leftarrow> va_u64 va;
          a \<leftarrow> signed_abs value;
          Some (va, ntoa_long out maxlen a (value <s 0) (ucast base) precision width flags p)
        }
      else
        do {
          (v, va) \<leftarrow> va_int va;
          let value = (if has flags FLAGS_CHAR then scast (ucast v :: u8)
                       else if has flags FLAGS_SHORT then scast (ucast v :: u16) else v);
          a \<leftarrow> signed_abs value;
          Some (va, ntoa_long out maxlen (ucast a) (value <s 0) (ucast base) precision width flags p)
        })"

definition conv_unsigned ::
  "out_fct \<Rightarrow> u64 \<Rightarrow> u32 \<Rightarrow> u32 \<Rightarrow> u32 \<Rightarrow> u32 \<Rightarrow> va_slot list \<Rightarrow> cursor \<Rightarrow> (va_slot list \<times> cursor) option" where
  "conv_unsigned out maxlen base flags width precision va p =
     (if has flags FLAGS_LONG_LONG then
        do {
          (value, va) \<leftarrow> va_u64 va;
          Some (va, ntoa_long_long out maxlen value False (ucast base) precision width flags p)
        }
      else if has flags FLAGS_LONG then
        do {
          (value, va) \<leftarrow> va_u64 va;
          Some (va, ntoa_long out maxlen value False (ucast base) precision width flags p)
        }
      else
        do {
          (v, va) \<leftarrow> va_int va;
          let value = (if has flags FLAGS_CHAR then ucast (ucast v :: u8)
                       else if has flags FLAGS_SHORT then ucast (ucast v :: u16) else v);
          Some (va, ntoa_long out maxlen (ucast (value :: u32)) False (ucast base) precision width flags p)
        })"

definition conv_integer ::
  "out_fct \<Rightarrow> u64 \<Rightarrow> char \<Rightarrow> u32 \<Rightarrow> u32 \<Rightarrow> u32 \<Rightarrow> va_slot list \<Rightarrow> cursor \<Rightarrow> (va_slot list \<times> cursor) option" where
  "conv_integer out maxlen c flags width precision va p =
     (let base = (if c = CHR ''x'' \<or> c = CHR ''X'' then 16 else if c = CHR ''o'' then 8
                  else if c = CHR ''b'' then 2 else 10);
          flags = (if c = CHR ''x'' \<or> c = CHR ''X'' \<or> c = CHR ''o'' \<or> c = CHR ''b'' then flags
                   else flags AND NOT FLAGS_HASH);
          flags = (if c = CHR ''X'' then flags OR FLAGS_UPPERCASE else flags);
          flags = (if c \<noteq> CHR ''i'' \<and> c \<noteq> CHR ''d'' then flags AND NOT (FLAGS_PLUS OR FLAGS_SPACE) else flags);
          flags = (if has flags FLAGS_PRECISION then flags AND NOT FLAGS_ZEROPAD else flags) in
      if c = CHR ''i'' \<or> c = CHR ''d'' then conv_signed out maxlen base flags width precision va p
      else conv_unsigned out maxlen base flags width precision va p)"

text \<open>The padding of \<open>%c\<close> and \<open>%s\<close>: \<open>while (l++ < width)\<close>, \<open>l\<close> and \<open>width\<close> being \<open>unsigned int\<close>.\<close>

definition conv_char ::
  "out_fct \<Rightarrow> u64 \<Rightarrow> u32 \<Rightarrow> u32 \<Rightarrow> va_slot list \<Rightarrow> cursor \<Rightarrow> (va_slot list \<times> cursor) option" where
  "conv_char out maxlen flags width va p =
     do {
       let l = 1;
       let p = (if \<not> has flags FLAGS_LEFT then pad_from out maxlen l width p else p);
       (v, va) \<leftarrow> va_int va;
       let p = put out maxlen (char_of (unat (ucast v :: u8))) p;
       let p = (if has flags FLAGS_LEFT then pad_from out maxlen l width p else p);
       Some (va, p)
     }"

fun out_string :: "out_fct \<Rightarrow> u64 \<Rightarrow> u32 \<Rightarrow> u32 \<Rightarrow> char list \<Rightarrow> cursor \<Rightarrow> cursor option" where
  "out_string out maxlen flags precision [] p = None"
| "out_string out maxlen flags precision (c # cs) p =
     (if c = NUL then Some p
      else if \<not> has flags FLAGS_PRECISION then out_string out maxlen flags precision cs (put out maxlen c p)
      else if precision \<noteq> 0 then out_string out maxlen flags (precision - 1) cs (put out maxlen c p)
      else Some p)"

definition conv_string ::
  "out_fct \<Rightarrow> u64 \<Rightarrow> u32 \<Rightarrow> u32 \<Rightarrow> u32 \<Rightarrow> va_slot list \<Rightarrow> cursor \<Rightarrow> (va_slot list \<times> cursor) option" where
  "conv_string out maxlen flags width precision va p =
     do {
       (str, va) \<leftarrow> va_str va;
       l \<leftarrow> strnlen_s str (if precision \<noteq> 0 then ucast precision else - 1);
       let l = (if has flags FLAGS_PRECISION then (if l < precision then l else precision) else l);
       let p = (if \<not> has flags FLAGS_LEFT then pad_from out maxlen l width p else p);
       p \<leftarrow> out_string out maxlen flags precision str p;
       let p = (if has flags FLAGS_LEFT then pad_from out maxlen l width p else p);
       Some (va, p)
     }"

definition conv_pointer ::
  "out_fct \<Rightarrow> u64 \<Rightarrow> u32 \<Rightarrow> u32 \<Rightarrow> va_slot list \<Rightarrow> cursor \<Rightarrow> (va_slot list \<times> cursor) option" where
  "conv_pointer out maxlen flags precision va p =
     do {
       let width = 16;
       let flags = flags OR (FLAGS_ZEROPAD OR FLAGS_UPPERCASE);
       (w, va) \<leftarrow> va_u64 va;
       Some (va, ntoa_long_long out maxlen w False 16 precision width flags p)
     }"

section \<open>Format specifications\<close>

fun parse_flags :: "u32 \<Rightarrow> char list \<Rightarrow> (u32 \<times> char list) option" where
  "parse_flags flags [] = None"
| "parse_flags flags (c # fmt) =
     (if c = CHR ''0'' then parse_flags (flags OR FLAGS_ZEROPAD) fmt
      else if c = CHR ''-'' then parse_flags (flags OR FLAGS_LEFT) fmt
      else if c = CHR ''+'' then parse_flags (flags OR FLAGS_PLUS) fmt
      else if c = CHR '' '' then parse_flags (flags OR FLAGS_SPACE) fmt
      else if c = CHR ''#'' then parse_flags (flags OR FLAGS_HASH) fmt
      else Some (flags, c # fmt))"

fun parse_width :: "u32 \<Rightarrow> char list \<Rightarrow> va_slot list \<Rightarrow> (u32 \<times> u32 \<times> char list \<times> va_slot list) option" where
  "parse_width flags [] va = None"
| "parse_width flags (c # fmt) va =
     (if is_digit c then do { (width, fmt) \<leftarrow> atoi (c # fmt); Some (flags, width, fmt, va) }
      else if c = CHR ''*'' then
        do {
          (w, va) \<leftarrow> va_int va;
          if w <s 0 then do { a \<leftarrow> signed_abs w; Some (flags OR FLAGS_LEFT, a, fmt, va) }
          else Some (flags, w, fmt, va)
        }
      else Some (flags, 0, c # fmt, va))"

fun parse_precision_value :: "char list \<Rightarrow> va_slot list \<Rightarrow> (u32 \<times> char list \<times> va_slot list) option" where
  "parse_precision_value [] va = None"
| "parse_precision_value (c # fmt) va =
     (if is_digit c then do { (precision, fmt) \<leftarrow> atoi (c # fmt); Some (precision, fmt, va) }
      else if c = CHR ''*'' then
        do {
          (prec, va) \<leftarrow> va_int va;
          Some (if 0 <s prec then prec else 0, fmt, va)
        }
      else Some (0, c # fmt, va))"

fun parse_precision :: "u32 \<Rightarrow> char list \<Rightarrow> va_slot list \<Rightarrow> (u32 \<times> u32 \<times> char list \<times> va_slot list) option" where
  "parse_precision flags [] va = None"
| "parse_precision flags (c # fmt) va =
     (if c = CHR ''.'' then
        do {
          (precision, fmt, va) \<leftarrow> parse_precision_value fmt va;
          Some (flags OR FLAGS_PRECISION, precision, fmt, va)
        }
      else Some (flags, 0, c # fmt, va))"

text \<open>\<open>ptrdiff_t\<close>, \<open>intmax_t\<close> and \<open>size_t\<close> are as wide as \<open>long\<close>.\<close>

fun parse_length :: "u32 \<Rightarrow> char list \<Rightarrow> (u32 \<times> char list) option" where
  "parse_length flags [] = None"
| "parse_length flags (c # fmt) =
     (if c = CHR ''l'' then
        (case fmt of [] \<Rightarrow> None
         | d # fmt' \<Rightarrow> if d = CHR ''l'' then Some (flags OR FLAGS_LONG OR FLAGS_LONG_LONG, fmt')
                        else Some (flags OR FLAGS_LONG, fmt))
      else if c = CHR ''h'' then
        (case fmt of [] \<Rightarrow> None
         | d # fmt' \<Rightarrow> if d = CHR ''h'' then Some (flags OR FLAGS_SHORT OR FLAGS_CHAR, fmt')
                        else Some (flags OR FLAGS_SHORT, fmt))
      else if c = CHR ''t'' \<or> c = CHR ''j'' \<or> c = CHR ''z'' then Some (flags OR FLAGS_LONG, fmt)
      else Some (flags, c # fmt))"

fun next_char :: "char list \<Rightarrow> (char \<times> char list) option" where
  "next_char [] = None"
| "next_char (c # fmt) = Some (c, fmt)"

definition convert ::
  "out_fct \<Rightarrow> u64 \<Rightarrow> char \<Rightarrow> u32 \<Rightarrow> u32 \<Rightarrow> u32 \<Rightarrow> va_slot list \<Rightarrow> cursor \<Rightarrow> (va_slot list \<times> cursor) option" where
  "convert out maxlen c flags width precision va p =
     (if c \<in> set ''diuxXob'' then conv_integer out maxlen c flags width precision va p
      else if c = CHR ''c'' then conv_char out maxlen flags width va p
      else if c = CHR ''s'' then conv_string out maxlen flags width precision va p
      else if c = CHR ''p'' then conv_pointer out maxlen flags precision va p
      else if c = CHR ''%'' then Some (va, put out maxlen CHR ''%'' p)
      else Some (va, put out maxlen c p))"

text \<open>
  One specification after its \<open>%\<close>. The character it ends with is skipped even when it is the
  terminating 0 of the format.
\<close>

definition spec_step ::
  "out_fct \<Rightarrow> u64 \<Rightarrow> char list \<Rightarrow> va_slot list \<Rightarrow> cursor \<Rightarrow> (char list \<times> va_slot list \<times> cursor) option" where
  "spec_step out maxlen fmt va p =
     do {
       (flags, fmt) \<leftarrow> parse_flags 0 fmt;
       (flags, width, fmt, va) \<leftarrow> parse_width flags fmt va;
       (flags, precision, fmt, va) \<leftarrow> parse_precision flags fmt va;
       (flags, fmt) \<leftarrow> parse_length flags fmt;
       (c, fmt) \<leftarrow> next_char fmt;
       (va, p) \<leftarrow> convert out maxlen c flags width precision va p;
       Some (fmt, va, p)
     }"

lemma atoi_loop_shorter: "atoi_loop i fmt = Some (n, fmt') \<Longrightarrow> length fmt' \<le> length fmt"
  by (induction i fmt rule: atoi_loop.induct) (auto split: if_splits)

lemma parse_flags_shorter: "parse_flags f fmt = Some (f', fmt') \<Longrightarrow> length fmt' \<le> length fmt"
  by (induction f fmt rule: parse_flags.induct) (auto split: if_splits)

lemma parse_width_shorter: "parse_width f fmt va = Some (f', w, fmt', va') \<Longrightarrow> length fmt' \<le> length fmt"
  by (cases fmt) (auto simp: atoi_def bind_eq_Some_conv dest: atoi_loop_shorter split: if_splits)

lemma parse_precision_value_shorter: "parse_precision_value fmt va = Some (w, fmt', va') \<Longrightarrow> length fmt' \<le> length fmt"
  by (cases fmt) (auto simp: atoi_def bind_eq_Some_conv dest: atoi_loop_shorter split: if_splits)

lemma parse_precision_shorter: "parse_precision f fmt va = Some (f', w, fmt', va') \<Longrightarrow> length fmt' \<le> length fmt"
  by (cases fmt) (auto simp: bind_eq_Some_conv dest: parse_precision_value_shorter split: if_splits)

lemma parse_length_shorter: "parse_length f fmt = Some (f', fmt') \<Longrightarrow> length fmt' \<le> length fmt"
  by (cases fmt) (auto split: if_splits list.splits)

lemma next_char_shorter: "next_char fmt = Some (c, fmt') \<Longrightarrow> length fmt' < length fmt"
  by (cases fmt) auto

lemma spec_step_shorter:
  "spec_step out maxlen fmt va p = Some (fmt', va', p') \<Longrightarrow> length fmt' < length fmt"
  by (auto simp: spec_step_def bind_eq_Some_conv
      dest!: next_char_shorter parse_flags_shorter parse_width_shorter parse_precision_shorter parse_length_shorter)

function vsnprintf_loop :: "out_fct \<Rightarrow> u64 \<Rightarrow> char list \<Rightarrow> va_slot list \<Rightarrow> cursor \<Rightarrow> cursor option" where
  "vsnprintf_loop out maxlen [] va p = None"
| "vsnprintf_loop out maxlen (c # fmt) va p =
     (if c = NUL then Some p
      else if c \<noteq> CHR ''%'' then vsnprintf_loop out maxlen fmt va (put out maxlen c p)
      else case spec_step out maxlen fmt va p of None \<Rightarrow> None
           | Some (fmt', va', p') \<Rightarrow> vsnprintf_loop out maxlen fmt' va' p')"
  by pat_completeness auto
termination
  by (relation "measure (\<lambda>(out, maxlen, fmt, va, p). length fmt)") (auto dest: spec_step_shorter)

text \<open>\<open>null\<close> says that the buffer pointer is null. The result is the returned \<open>int\<close>.\<close>

definition vsnprintf_impl ::
  "out_fct \<Rightarrow> bool \<Rightarrow> u64 \<Rightarrow> char list \<Rightarrow> va_slot list \<Rightarrow> sink \<Rightarrow> (u32 \<times> sink) option" where
  "vsnprintf_impl out null maxlen format va s =
     do {
       let out = (if null then Out_null else out);
       (idx, s) \<leftarrow> vsnprintf_loop out maxlen format va (0, s);
       let s = call_out out NUL (if idx < maxlen then idx else maxlen - 1) maxlen s;
       Some (ucast idx, s)
     }"

definition printf :: "char list \<Rightarrow> va_slot list \<Rightarrow> sink \<Rightarrow> (u32 \<times> sink) option" where
  "printf format va s = vsnprintf_impl Out_char False (- 1) format va s"

definition sprintf :: "bool \<Rightarrow> char list \<Rightarrow> va_slot list \<Rightarrow> sink \<Rightarrow> (u32 \<times> sink) option" where
  "sprintf null format va s = vsnprintf_impl Out_buffer null (- 1) format va s"

definition snprintf :: "bool \<Rightarrow> u64 \<Rightarrow> char list \<Rightarrow> va_slot list \<Rightarrow> sink \<Rightarrow> (u32 \<times> sink) option" where
  "snprintf null count format va s = vsnprintf_impl Out_buffer null count format va s"

definition vprintf :: "char list \<Rightarrow> va_slot list \<Rightarrow> sink \<Rightarrow> (u32 \<times> sink) option" where
  "vprintf format va s = vsnprintf_impl Out_char False (- 1) format va s"

definition vsnprintf :: "bool \<Rightarrow> u64 \<Rightarrow> char list \<Rightarrow> va_slot list \<Rightarrow> sink \<Rightarrow> (u32 \<times> sink) option" where
  "vsnprintf null count format va s = vsnprintf_impl Out_buffer null count format va s"

definition fctprintf :: "char list \<Rightarrow> va_slot list \<Rightarrow> sink \<Rightarrow> (u32 \<times> sink) option" where
  "fctprintf format va s = vsnprintf_impl Out_fct False (- 1) format va s"

end
