(* ===== verification/Kprintf_Text.thy ===== *)
theory Kprintf_Text
  imports Kprintf
begin

text \<open>
  What \<open>_vsnprintf\<close> prints. Every routine passes a sequence of characters to the output function, one
  index after the other; the sequence does not depend on the output function, the limit or the
  index. \<open>uniform\<close> states this for a conversion, and the lemmas compute the sequence for integers.
\<close>

definition emits :: "out_fct \<Rightarrow> u64 \<Rightarrow> char list \<Rightarrow> cursor \<Rightarrow> cursor" where
  "emits out maxlen cs p = fold (put out maxlen) cs p"

lemma emits_simps [simp]:
  "emits out m [] p = p"
  "emits out m (c # cs) p = emits out m cs (put out m c p)"
  "emits out m (cs @ ds) p = emits out m ds (emits out m cs p)"
  by (simp_all add: emits_def)

lemma emits_snoc: "put out m c (emits out m cs p) = emits out m (cs @ [c]) p"
  by simp

lemma emits_index [simp]: "fst (emits out m cs p) = fst p + of_nat (length cs)"
proof (induction cs arbitrary: p)
  case (Cons c cs)
  have "fst (put out m c p) = fst p + 1" by (cases p) simp
  then show ?case using Cons by (simp add: add.assoc)
qed simp

section \<open>Padding and digits\<close>

lemma pad_from_emits: "pad_from out m i w p = emits out m (replicate (unat w - unat i) CHR '' '') p"
proof (induction out m i w p rule: pad_from.induct)
  case (1 out m i w p)
  show ?case
  proof (cases "i < w")
    case True
    then have "unat w - unat i = Suc (unat w - unat (i + 1))"
      by (simp add: unat_Suc_less word_less_nat_alt)
    then show ?thesis using True 1 by (subst pad_from.simps) simp
  next
    case False
    then show ?thesis by (subst pad_from.simps) (simp add: word_less_nat_alt not_less)
  qed
qed

lemma pad_index_emits: "pad_index out m st w p = emits out m (replicate (unat w - unat (fst p - st)) CHR '' '') p"
proof (induction out m st w p rule: pad_index.induct)
  case (1 out m st w p)
  show ?case
  proof (cases "fst p - st < w")
    case True
    have e: "fst (put out m CHR '' '' p) - st = fst p - st + 1" by (cases p) simp
    have "unat w - unat (fst p - st) = Suc (unat w - unat (fst (put out m CHR '' '' p) - st))"
      unfolding e using True unat_Suc_less [OF True] by (simp only: word_less_nat_alt)
    then show ?thesis using True 1 by (subst pad_index.simps) simp
  next
    case False
    then show ?thesis by (subst pad_index.simps) (simp add: word_less_nat_alt not_less)
  qed
qed

lemma out_back_emits: "n \<le> length buf \<Longrightarrow> out_back out m buf n p = emits out m (rev (take n buf)) p"
  by (induction n arbitrary: p) (simp_all add: take_Suc_conv_app_nth)

definition padded :: "char list \<Rightarrow> u32 \<Rightarrow> u32 \<Rightarrow> char list" where
  "padded cs width flags =
     (let pad = replicate (unat width - length cs) CHR '' '' in
      if has flags FLAGS_LEFT then cs @ pad else if has flags FLAGS_ZEROPAD then cs else pad @ cs)"

lemma out_rev_emits:
  assumes "length buf \<le> PRINTF_NTOA_BUFFER_SIZE"
  shows "out_rev out m buf width flags p = emits out m (padded (rev buf) width flags) p"
proof -
  have u: "unat (of_nat (length buf) :: u64) = length buf"
    using assms by (simp add: PRINTF_NTOA_BUFFER_SIZE_def unat_of_nat take_bit_nat_eq_self_iff)
  show ?thesis
    using u by (simp add: out_rev_def padded_def Let_def pad_from_emits pad_index_emits out_back_emits)
qed

lemma fill_zeros_eq:
  "fill_zeros n buf = buf @ replicate (min n PRINTF_NTOA_BUFFER_SIZE - length buf) CHR ''0''"
proof (induction n buf rule: fill_zeros.induct)
  case (1 n buf)
  show ?case
  proof (cases "length buf < min n PRINTF_NTOA_BUFFER_SIZE")
    case True
    then have "min n PRINTF_NTOA_BUFFER_SIZE - length buf = Suc (min n PRINTF_NTOA_BUFFER_SIZE - length (buf @ [CHR ''0'']))"
      by (simp add: Suc_diff_Suc)
    then show ?thesis using True 1 by (subst fill_zeros.simps) simp
  next
    case False
    then show ?thesis by (subst fill_zeros.simps) auto
  qed
qed

lemma fill_zeros_room: "length buf \<le> PRINTF_NTOA_BUFFER_SIZE \<Longrightarrow> length (fill_zeros n buf) \<le> PRINTF_NTOA_BUFFER_SIZE"
  by (simp add: fill_zeros_eq)

lemma ntoa_zeros_room:
  "length buf \<le> PRINTF_NTOA_BUFFER_SIZE \<Longrightarrow> length (fst (ntoa_zeros buf neg prec w f)) \<le> PRINTF_NTOA_BUFFER_SIZE"
  by (auto simp: ntoa_zeros_def Let_def intro: fill_zeros_room)

lemma ntoa_hash_room:
  "length buf \<le> PRINTF_NTOA_BUFFER_SIZE \<Longrightarrow> length (ntoa_hash buf base prec w f) \<le> PRINTF_NTOA_BUFFER_SIZE"
  by (auto simp: ntoa_hash_def Let_def push_if_room_def)

lemma ntoa_sign_room:
  "length buf \<le> PRINTF_NTOA_BUFFER_SIZE \<Longrightarrow> length (ntoa_sign buf neg f) \<le> PRINTF_NTOA_BUFFER_SIZE"
  by (auto simp: ntoa_sign_def)

lemma ntoa_digits_room: "length (ntoa_digits v base f buf) \<le> max PRINTF_NTOA_BUFFER_SIZE (Suc (length buf))"
proof (induction v base f buf rule: ntoa_digits.induct)
  case (1 v base f buf)
  show ?case
    by (subst ntoa_digits.simps) (use 1 in \<open>force simp: Let_def\<close>)
qed

definition ntoa_text :: "char list \<Rightarrow> bool \<Rightarrow> u32 \<Rightarrow> u32 \<Rightarrow> u32 \<Rightarrow> u32 \<Rightarrow> char list" where
  "ntoa_text buf negative base prec width flags =
     (let (buf, width) = ntoa_zeros buf negative prec width flags in
      padded (rev (ntoa_sign (ntoa_hash buf base prec width flags) negative flags)) width flags)"

lemma ntoa_format_emits:
  assumes "length buf \<le> PRINTF_NTOA_BUFFER_SIZE"
  shows "ntoa_format out m buf negative base prec width flags p = emits out m (ntoa_text buf negative base prec width flags) p"
proof -
  obtain buf' w' where z: "ntoa_zeros buf negative prec width flags = (buf', w')" by fastforce
  then have "length buf' \<le> PRINTF_NTOA_BUFFER_SIZE" using ntoa_zeros_room [OF assms] by (metis fst_conv)
  then show ?thesis
    by (simp add: ntoa_format_def ntoa_text_def z out_rev_emits ntoa_hash_room ntoa_sign_room)
qed

text \<open>The text of an integer conversion.\<close>

definition int_text :: "u64 \<Rightarrow> bool \<Rightarrow> u64 \<Rightarrow> u32 \<Rightarrow> u32 \<Rightarrow> u32 \<Rightarrow> char list" where
  "int_text value negative base prec width flags =
     (let flags = (if value = 0 then flags AND NOT FLAGS_HASH else flags) in
      ntoa_text (if \<not> has flags FLAGS_PRECISION \<or> value \<noteq> 0 then ntoa_digits value base flags [] else [])
        negative (ucast base) prec width flags)"

lemma ntoa_long_emits:
  "ntoa_long out m value negative base prec width flags p = emits out m (int_text value negative base prec width flags) p"
proof -
  have "length (ntoa_digits v b f []) \<le> PRINTF_NTOA_BUFFER_SIZE" for v b f
    using ntoa_digits_room [of v b f "[]"] by (simp add: PRINTF_NTOA_BUFFER_SIZE_def)
  then show ?thesis by (simp add: ntoa_long_def int_text_def ntoa_format_emits Let_def)
qed

lemma ntoa_long_long_emits:
  "ntoa_long_long out m value negative base prec width flags p = emits out m (int_text value negative base prec width flags) p"
  using ntoa_long_emits by (simp add: ntoa_long_long_def ntoa_long_def)

section \<open>Conversions\<close>

definition uniform :: "(out_fct \<Rightarrow> u64 \<Rightarrow> cursor \<Rightarrow> ('a \<times> cursor) option) \<Rightarrow> bool" where
  "uniform f \<longleftrightarrow> (\<exists>r. \<forall>out m p. f out m p = map_option (\<lambda>(x, cs). (x, emits out m cs p)) r)"

named_theorems uniform_intros "which conversions are uniform"

lemma uniform_Some [uniform_intros]: "uniform (\<lambda>out m p. Some (x, emits out m cs p))"
  unfolding uniform_def by (rule exI [of _ "Some (x, cs)"]) simp

lemma uniform_None [uniform_intros]: "uniform (\<lambda>out m p. None)"
  unfolding uniform_def by (rule exI [of _ None]) simp

lemma uniform_bind [uniform_intros]:
  "(\<And>x. uniform (f x)) \<Longrightarrow> uniform (\<lambda>out m p. Option.bind a (\<lambda>x. f x out m p))"
  by (cases a) (auto intro: uniform_None)

lemma uniform_if [uniform_intros]:
  "uniform f \<Longrightarrow> uniform g \<Longrightarrow> uniform (\<lambda>out m p. if b then f out m p else g out m p)"
  by (cases b) simp_all

lemma uniform_split [uniform_intros]:
  "(\<And>a b. uniform (f a b)) \<Longrightarrow> uniform (\<lambda>out m p. case x of (a, b) \<Rightarrow> f a b out m p)"
  by (cases x) simp

lemma conv_signed_uniform [uniform_intros]: "uniform (\<lambda>out m p. conv_signed out m base flags width prec va p)"
  unfolding conv_signed_def Let_def ntoa_long_emits ntoa_long_long_emits by (intro uniform_intros)

lemma conv_unsigned_uniform [uniform_intros]: "uniform (\<lambda>out m p. conv_unsigned out m base flags width prec va p)"
  unfolding conv_unsigned_def Let_def ntoa_long_emits ntoa_long_long_emits by (intro uniform_intros)

lemma conv_integer_uniform [uniform_intros]: "uniform (\<lambda>out m p. conv_integer out m c flags width prec va p)"
  unfolding conv_integer_def Let_def by (intro uniform_intros)

lemma put_emits: "put out m c p = emits out m [c] p"
  by simp

lemma conv_char_uniform [uniform_intros]: "uniform (\<lambda>out m p. conv_char out m flags width va p)"
proof -
  have "conv_char out m flags width va p = do { (v, va') \<leftarrow> va_int va; let pad = replicate (unat width - 1) CHR '' '';
      Some (va', emits out m ((if has flags FLAGS_LEFT then [] else pad) @ [char_of (unat (ucast v :: u8))]
        @ (if has flags FLAGS_LEFT then pad else [])) p) }" for out m p
    by (simp add: conv_char_def pad_from_emits Let_def)
  then show ?thesis unfolding Let_def by (simp only:) (intro uniform_intros)
qed

fun string_text :: "u32 \<Rightarrow> u32 \<Rightarrow> char list \<Rightarrow> char list option" where
  "string_text flags precision [] = None"
| "string_text flags precision (c # cs) =
     (if c = NUL then Some []
      else if \<not> has flags FLAGS_PRECISION then map_option ((#) c) (string_text flags precision cs)
      else if precision \<noteq> 0 then map_option ((#) c) (string_text flags (precision - 1) cs)
      else Some [])"

lemma out_string_emits:
  "out_string out m flags precision str p = map_option (\<lambda>cs. emits out m cs p) (string_text flags precision str)"
  by (induction flags precision str arbitrary: p rule: string_text.induct) (auto simp: option.map_comp comp_def)

lemma conv_string_uniform [uniform_intros]: "uniform (\<lambda>out m p. conv_string out m flags width prec va p)"
proof -
  have "conv_string out m flags width prec va p = do { (str, va') \<leftarrow> va_str va;
      l \<leftarrow> strnlen_s str (if prec \<noteq> 0 then ucast prec else - 1); cs \<leftarrow> string_text flags prec str;
      let pad = replicate (unat width - unat (if has flags FLAGS_PRECISION then (if l < prec then l else prec) else l)) CHR '' '';
      Some (va', emits out m ((if has flags FLAGS_LEFT then [] else pad) @ cs @ (if has flags FLAGS_LEFT then pad else [])) p) }"
    for out m p
    unfolding conv_string_def pad_from_emits out_string_emits Let_def
    by (cases "va_str va"; cases "string_text flags prec (fst (the (va_str va)))"; cases "flags AND FLAGS_LEFT = 0")
      (auto simp: split_beta bind_eq_None_conv)
  then show ?thesis unfolding Let_def by (simp only:) (intro uniform_intros)
qed

lemma conv_pointer_uniform [uniform_intros]: "uniform (\<lambda>out m p. conv_pointer out m flags prec va p)"
  unfolding conv_pointer_def Let_def ntoa_long_long_emits by (intro uniform_intros)

lemma convert_uniform [uniform_intros]: "uniform (\<lambda>out m p. convert out m c flags width prec va p)"
  unfolding convert_def put_emits by (intro uniform_intros)

lemma uniform_map [uniform_intros]:
  assumes "uniform f"
  shows "uniform (\<lambda>out m p. do { (x, p) \<leftarrow> f out m p; Some (g x, p) })"
proof -
  obtain r where "\<And>out m p. f out m p = map_option (\<lambda>(x, cs). (x, emits out m cs p)) r"
    using assms unfolding uniform_def by blast
  then show ?thesis
    unfolding uniform_def by (intro exI [of _ "map_option (\<lambda>(x, cs). (g x, cs)) r"]) (cases r; auto)
qed

lemma spec_step_text:
  obtains r where "\<And>out m p. spec_step out m fmt va p = map_option (\<lambda>(f, v, cs). (f, v, emits out m cs p)) r"
proof -
  have "uniform (\<lambda>out m p. do {
      (flags, fmt) \<leftarrow> parse_flags 0 fmt;
      (flags, width, fmt, va) \<leftarrow> parse_width flags fmt va;
      (flags, precision, fmt, va) \<leftarrow> parse_precision flags fmt va;
      (flags, fmt) \<leftarrow> parse_length flags fmt;
      (c, fmt) \<leftarrow> next_char fmt;
      (va, p) \<leftarrow> convert out m c flags width precision va p;
      Some ((\<lambda>va. (fmt, va)) va, p) })" (is "uniform ?f")
    by (intro uniform_intros)
  then obtain r where r: "\<And>out m p. ?f out m p = map_option (\<lambda>(x, cs). (x, emits out m cs p)) r"
    unfolding uniform_def by blast
  have "spec_step out m fmt va p = map_option (\<lambda>((f, v), p). (f, v, p)) (?f out m p)" for out m p
    by (simp add: spec_step_def map_option_bind split_beta comp_def cong: bind_option_cong)
  then have "spec_step out m fmt va p = map_option (\<lambda>(f, v, cs). (f, v, emits out m cs p)) (map_option (\<lambda>((f, v), cs). (f, v, cs)) r)" for out m p
    unfolding r by (cases r) auto
  then show ?thesis by (rule that)
qed

lemma vsnprintf_loop_text:
  obtains r where "\<And>out m p. vsnprintf_loop out m fmt va p = map_option (\<lambda>cs. emits out m cs p) r"
proof -
  have "\<exists>r. \<forall>out m p. vsnprintf_loop out m fmt va p = map_option (\<lambda>cs. emits out m cs p) r"
  proof (induction "length fmt" arbitrary: fmt va rule: less_induct)
    case less
    show ?case
    proof (cases fmt)
      case Nil
      then show ?thesis by (intro exI [of _ None]) simp
    next
      case (Cons c cs)
      consider "c = NUL" | "c \<noteq> NUL" "c \<noteq> CHR ''%''" | "c = CHR ''%''" by auto
      then show ?thesis
      proof cases
        case 1
        then show ?thesis by (intro exI [of _ "Some []"]) (simp add: Cons)
      next
        case 2
        obtain r where "\<forall>out m p. vsnprintf_loop out m cs va p = map_option (\<lambda>cs. emits out m cs p) r"
          using less [of cs va] by (auto simp: Cons)
        then show ?thesis using 2 by (intro exI [of _ "map_option ((#) c) r"]) (simp add: Cons option.map_comp comp_def)
      next
        case 3
        obtain q where q: "\<And>out m p. spec_step out m cs va p = map_option (\<lambda>(f, v, ds). (f, v, emits out m ds p)) q"
          by (rule spec_step_text [of cs va]) (rule that)
        show ?thesis
        proof (cases q)
          case None
          then show ?thesis by (intro exI [of _ None]) (simp add: Cons 3 q)
        next
          case (Some x)
          obtain f v ds where x: "x = (f, v, ds)" by (cases x)
          have "length f < length fmt" using spec_step_shorter [of Out_null 0 cs va "(0, undefined)" f v] by (simp add: q Some x Cons)
          then obtain r where "\<forall>out m p. vsnprintf_loop out m f v p = map_option (\<lambda>cs. emits out m cs p) r"
            using less [of f v] by blast
          then show ?thesis using 3
            by (intro exI [of _ "map_option ((@) ds) r"]) (simp add: Cons q Some x option.map_comp comp_def del: split_paired_All)
        qed
      qed
    qed
  qed
  then show ?thesis using that by blast
qed

section \<open>The outputs\<close>

lemma emits_buffer:
  assumes "length cs < 2 ^ 64"
  shows "sk_buffer (snd (emits Out_buffer m cs (0, s))) i = (if i < m \<and> unat i < length cs then cs ! unat i else sk_buffer s i)"
  using assms
proof (induction cs rule: rev_induct)
  case Nil
  then show ?case by simp
next
  case (snoc c cs)
  let ?p = "emits Out_buffer m cs (0, s)"
  have i: "fst ?p = of_nat (length cs)" by simp
  have u: "unat (of_nat (length cs) :: u64) = length cs" using snoc.prems by (simp add: unat_of_nat take_bit_nat_eq_self_iff)
  have "put Out_buffer m c ?p = (of_nat (length cs) + 1, out_buffer c (of_nat (length cs)) m (snd ?p))"
    using i by (cases ?p) simp
  then have "sk_buffer (snd (emits Out_buffer m (cs @ [c]) (0, s))) i
    = (if of_nat (length cs) < m \<and> i = of_nat (length cs) then c else sk_buffer (snd ?p) i)"
    by (simp add: out_buffer_def)
  also have "i = of_nat (length cs) \<longleftrightarrow> unat i = length cs" using u by (auto simp: word_unat_eq_iff)
  finally show ?case using snoc u by (auto simp: nth_append word_less_nat_alt)
qed

lemma emits_put:
  "sk_put (snd (emits Out_char m cs p)) = sk_put (snd p) @ filter (\<lambda>c. c \<noteq> NUL) cs"
proof (induction cs arbitrary: p)
  case (Cons c cs)
  have "sk_put (snd (put Out_char m c p)) = sk_put (snd p) @ filter (\<lambda>c. c \<noteq> NUL) [c]"
    by (cases p) (simp add: out_char_def)
  then show ?case using Cons by simp
qed simp

text \<open>
  The contents of a buffer of \<open>count\<close> bytes after a text was printed to it: as much of the text as
  fits before the terminating 0.
\<close>

definition written :: "u64 \<Rightarrow> char list \<Rightarrow> (u64 \<Rightarrow> char) \<Rightarrow> u64 \<Rightarrow> char" where
  "written count text old i =
     (let n = min (length text) (unat count - 1) in
      if unat count \<le> unat i \<or> n < unat i then old i else if unat i < n then text ! unat i else NUL)"

lemma vsnprintf_impl_buffer:
  assumes "vsnprintf_loop Out_buffer count fmt va (0, s) = Some (emits Out_buffer count text (0, s))" "length text < 2 ^ 64"
  obtains s' where "vsnprintf_impl Out_buffer False count fmt va s = Some (of_nat (length text), s')"
    "sk_buffer s' = written count text (sk_buffer s)"
proof -
  let ?p = "emits Out_buffer count text (0, s)"
  let ?e = "if (of_nat (length text) :: u64) < count then of_nat (length text) else count - 1"
  have u: "unat (of_nat (length text) :: u64) = length text" using assms(2) by (simp add: unat_of_nat take_bit_nat_eq_self_iff)
  have p: "?p = (of_nat (length text), snd ?p)" by (simp add: prod_eq_iff)
  have r: "vsnprintf_impl Out_buffer False count fmt va s = Some (ucast (of_nat (length text) :: u64), out_buffer NUL ?e count (snd ?p))"
    unfolding vsnprintf_impl_def using assms(1) p by (simp add: case_prod_beta)
  have "sk_buffer (out_buffer NUL ?e count (snd ?p)) i = written count text (sk_buffer s) i" for i
  proof (cases "count = 0")
    case True
    then show ?thesis by (simp add: out_buffer_def written_def emits_buffer [OF assms(2)])
  next
    case False
    then have c: "unat (count - 1) = unat count - 1" "0 < unat count"
      by (simp_all add: unat_minus_one unat_gt_0)
    then have e: "unat ?e = min (length text) (unat count - 1)" "?e < count"
      using u by (auto simp: word_less_nat_alt)
    have ie: "i = ?e \<longleftrightarrow> unat i = min (length text) (unat count - 1)" using e(1) by (auto simp: word_unat_eq_iff)
    have "sk_buffer (out_buffer NUL ?e count q) i = (if unat i = min (length text) (unat count - 1) then NUL else sk_buffer q i)" for q
      using e(2) ie by (simp add: out_buffer_def)
    then show ?thesis
      using c(2) unfolding written_def Let_def by (auto simp: emits_buffer [OF assms(2)] word_less_nat_alt min_def)
  qed
  then have "sk_buffer (out_buffer NUL ?e count (snd ?p)) = written count text (sk_buffer s)" by blast
  moreover have "ucast (of_nat (length text) :: u64) = (of_nat (length text) :: u32)" by (simp add: word_unat_eq_iff unsigned_ucast_eq unat_of_nat take_bit_eq_mod mod_mod_cancel)
  ultimately show ?thesis using that r by auto
qed

end
