(* ===== verification/Kprintf_Digits.thy ===== *)
theory Kprintf_Digits
  imports Kprintf_Text
begin

text \<open>
  The number a printed string stands for, and the digits \<open>_ntoa_long\<close> and \<open>_ntoa_long_long\<close> produce:
  \<open>num_of\<close> reads a numeral, most significant digit first.
\<close>

definition digit_value :: "char \<Rightarrow> nat" where
  "digit_value c = (let n = of_char c in if n < 58 then n - 48 else if n < 97 then n - 55 else n - 87)"

definition num_of :: "nat \<Rightarrow> char list \<Rightarrow> nat" where
  "num_of b cs = foldl (\<lambda>n c. b * n + digit_value c) 0 cs"

fun num_of_rev :: "nat \<Rightarrow> char list \<Rightarrow> nat" where
  "num_of_rev b [] = 0"
| "num_of_rev b (c # cs) = digit_value c + b * num_of_rev b cs"

lemma num_of_snoc [simp]: "num_of b [] = 0" "num_of b (cs @ [c]) = b * num_of b cs + digit_value c"
  by (simp_all add: num_of_def)

lemma num_of_rev: "num_of b (rev cs) = num_of_rev b cs"
  by (induction cs) simp_all

lemma digit_value_char: "unat d < 16 \<Longrightarrow> digit_value (digit_char d f) = unat d"
  by (auto simp: digit_value_def digit_char_def Let_def)

lemma is_digit_char: "unat d < 10 \<Longrightarrow> is_digit (digit_char d f)"
  by (auto simp: is_digit_def digit_char_def)

lemma digit_char_nonzero: "unat d < 16 \<Longrightarrow> digit_char d f = CHR ''0'' \<longleftrightarrow> d = 0"
proof -
  assume d: "unat d < 16"
  have "digit_value CHR ''0'' = 0" by (simp add: digit_value_def)
  moreover have "char_of (48 :: nat) = CHR ''0''" by code_simp
  then have "digit_char 0 f = CHR ''0''" by (simp add: digit_char_def)
  ultimately show ?thesis using digit_value_char [OF d, of f] by (metis unat_eq_zero)
qed

lemma ntoa_digits_value:
  assumes "2 \<le> unat base" "unat base \<le> 16" "length buf < 32"
  shows "\<exists>ds. ntoa_digits v base f buf = buf @ ds \<and> ds \<noteq> [] \<and> length ds \<le> 32 - length buf
    \<and> num_of_rev (unat base) ds = unat v mod unat base ^ (32 - length buf)
    \<and> (v \<noteq> 0 \<and> unat v < unat base ^ (32 - length buf) \<longrightarrow> last ds \<noteq> CHR ''0'')
    \<and> (unat base = 10 \<longrightarrow> (\<forall>c\<in>set ds. is_digit c))"
  using assms
proof (induction v base f buf rule: ntoa_digits.induct)
  case (1 v base f buf)
  let ?c = "digit_char (v mod base) f" and ?v = "v div base" and ?b = "unat base"
  have m: "unat (v mod base) = unat v mod ?b" "unat ?v = unat v div ?b"
    by (simp_all add: unat_mod unat_div)
  then have d: "unat (v mod base) < ?b" using 1(2) by simp
  then have d16: "unat (v mod base) < 16" using 1(3) by simp
  note cv = digit_value_char [OF d16, of f]
  have split: "unat v mod ?b ^ Suc n = unat v mod ?b + ?b * (unat v div ?b mod ?b ^ n)" for n
    by (simp add: mod_mult2_eq)
  have dig: "?b = 10 \<longrightarrow> is_digit ?c" using d is_digit_char by simp
  have v0: "?v = 0 \<Longrightarrow> unat v < ?b" using m(2) 1(2) by (metis div_eq_0_iff not_numeral_le_zero unat_0)
  show ?case
  proof (cases "?v \<noteq> 0 \<and> length (buf @ [?c]) < PRINTF_NTOA_BUFFER_SIZE")
    case True
    then have l: "length (buf @ [?c]) < 32" by (simp add: PRINTF_NTOA_BUFFER_SIZE_def)
    obtain ds where ds: "ntoa_digits ?v base f (buf @ [?c]) = (buf @ [?c]) @ ds" "ds \<noteq> []" "length ds \<le> 32 - length (buf @ [?c])"
      "num_of_rev ?b ds = unat ?v mod ?b ^ (32 - length (buf @ [?c]))"
      "?v \<noteq> 0 \<and> unat ?v < ?b ^ (32 - length (buf @ [?c])) \<longrightarrow> last ds \<noteq> CHR ''0''" "?b = 10 \<longrightarrow> (\<forall>c\<in>set ds. is_digit c)"
      using 1(1) [OF refl refl True 1(2,3) l] by blast
    obtain n where n: "32 - length buf = Suc n" "32 - length (buf @ [?c]) = n" using l by (metis Suc_diff_Suc length_append_singleton Suc_lessD)
    have big: "unat v < ?b ^ Suc n \<Longrightarrow> unat ?v < ?b ^ n" unfolding m(2) by (simp add: less_mult_imp_div_less mult.commute)
    have "ntoa_digits v base f buf = buf @ (?c # ds)" using True ds(1) by (subst ntoa_digits.simps) simp
    moreover have "num_of_rev ?b (?c # ds) = unat v mod ?b ^ Suc n" using ds(4) cv m n split by simp
    ultimately show ?thesis using ds dig n big True by (intro exI [of _ "?c # ds"]) auto
  next
    case False
    have e: "ntoa_digits v base f buf = buf @ [?c]" using False by (subst ntoa_digits.simps) (auto simp: Let_def)
    obtain n where n: "32 - length buf = Suc n" using 1(4) by (metis Suc_diff_Suc)
    have s: "?v = 0 \<or> n = 0" using False n by (auto simp: PRINTF_NTOA_BUFFER_SIZE_def)
    have "num_of_rev ?b [?c] = unat v mod ?b ^ Suc n" using s cv m unfolding split by (auto simp: unat_eq_zero)
    moreover have "last [?c] \<noteq> CHR ''0''" if "v \<noteq> 0" "unat v < ?b ^ Suc n"
    proof -
      have "unat v < ?b" using s that(2) v0 by auto
      then have "v mod base \<noteq> 0" using m(1) that(1) by (metis mod_less unat_eq_zero)
      then show ?thesis using digit_char_nonzero [OF d16] by simp
    qed
    ultimately show ?thesis using e dig n by (intro exI [of _ "[?c]"]) auto
  qed
qed

end
