(* ===== verification/Kprintf_Props.thy ===== *)
theory Kprintf_Props
  imports Kprintf_Digits
begin

text \<open>
  Properties of formatted output: truncation and termination of the buffer, the text of integer
  conversions, printing and reading back, and the format that ends inside a specification.
\<close>

text \<open>A flag is one bit: a test of it is a test of that bit.\<close>

lemmas flag_defs = FLAGS_ZEROPAD_def FLAGS_LEFT_def FLAGS_PLUS_def FLAGS_SPACE_def FLAGS_HASH_def FLAGS_UPPERCASE_def
  FLAGS_CHAR_def FLAGS_SHORT_def FLAGS_LONG_def FLAGS_LONG_LONG_def FLAGS_PRECISION_def

lemma flag_exp:
  "FLAGS_ZEROPAD = 2 ^ 0" "FLAGS_LEFT = 2 ^ 1" "FLAGS_PLUS = 2 ^ 2" "FLAGS_SPACE = 2 ^ 3" "FLAGS_HASH = 2 ^ 4"
  "FLAGS_UPPERCASE = 2 ^ 5" "FLAGS_CHAR = 2 ^ 6" "FLAGS_SHORT = 2 ^ 7" "FLAGS_LONG = 2 ^ 8"
  "FLAGS_LONG_LONG = 2 ^ 9" "FLAGS_PRECISION = 2 ^ 10"
  by (simp_all add: flag_defs)

lemma flag_test:
  "f AND FLAGS_ZEROPAD = 0 \<longleftrightarrow> \<not> bit f 0" "f AND FLAGS_LEFT = 0 \<longleftrightarrow> \<not> bit f 1" "f AND FLAGS_PLUS = 0 \<longleftrightarrow> \<not> bit f 2"
  "f AND FLAGS_SPACE = 0 \<longleftrightarrow> \<not> bit f 3" "f AND FLAGS_HASH = 0 \<longleftrightarrow> \<not> bit f 4" "f AND FLAGS_UPPERCASE = 0 \<longleftrightarrow> \<not> bit f 5"
  "f AND FLAGS_CHAR = 0 \<longleftrightarrow> \<not> bit f 6" "f AND FLAGS_SHORT = 0 \<longleftrightarrow> \<not> bit f 7" "f AND FLAGS_LONG = 0 \<longleftrightarrow> \<not> bit f 8"
  "f AND FLAGS_LONG_LONG = 0 \<longleftrightarrow> \<not> bit f 9" "f AND FLAGS_PRECISION = 0 \<longleftrightarrow> \<not> bit f 10"
  unfolding flag_exp by (rule and_exp_eq_0_iff_not_bit)+

lemma power_bit: "k < 32 \<Longrightarrow> bit (2 ^ k :: u32) n \<longleftrightarrow> n = k"
  by (auto simp: bit_exp_iff)

lemma flag_bit:
  "bit FLAGS_ZEROPAD n \<longleftrightarrow> n = 0" "bit FLAGS_LEFT n \<longleftrightarrow> n = 1" "bit FLAGS_PLUS n \<longleftrightarrow> n = 2"
  "bit FLAGS_SPACE n \<longleftrightarrow> n = 3" "bit FLAGS_HASH n \<longleftrightarrow> n = 4" "bit FLAGS_UPPERCASE n \<longleftrightarrow> n = 5"
  "bit FLAGS_CHAR n \<longleftrightarrow> n = 6" "bit FLAGS_SHORT n \<longleftrightarrow> n = 7" "bit FLAGS_LONG n \<longleftrightarrow> n = 8"
  "bit FLAGS_LONG_LONG n \<longleftrightarrow> n = 9" "bit FLAGS_PRECISION n \<longleftrightarrow> n = 10"
  unfolding flag_exp by (rule power_bit, simp)+

lemma flag_test2: "f AND (g OR h) = 0 \<longleftrightarrow> f AND g = 0 \<and> f AND h = 0" for f g h :: u32
  by (auto simp: bit_eq_iff bit_simps)

lemmas flag_simps = flag_test flag_bit flag_test2 bit_and_iff bit_or_iff bit_not_iff

section \<open>Signed integers\<close>

lemma sint_cases:
  fixes v :: "'a::len word"
  shows "0 \<le> sint v \<and> sint v = uint v \<or> sint v < 0 \<and> sint v = uint v - 2 ^ LENGTH('a)"
proof -
  have "sint v = uint v - 2 ^ LENGTH('a) * of_bool (bit (uint v) (LENGTH('a) - 1))"
    by (simp add: sint_uint signed_take_bit_eq_take_bit_minus take_bit_int_eq_self_iff)
  moreover have "0 \<le> uint v" "uint v < 2 ^ LENGTH('a)" by simp_all
  ultimately show ?thesis by (cases "bit (uint v) (LENGTH('a) - 1)") auto
qed

lemma uint_neg: "(v :: 'a::len word) \<noteq> 0 \<Longrightarrow> uint (- v) = 2 ^ LENGTH('a) - uint v"
proof -
  assume "v \<noteq> 0"
  then have "0 < uint v" using unsigned_eq_0_iff [of v, where 'a = int] by (simp add: less_le)
  moreover have "uint v < 2 ^ LENGTH('a)" by simp
  moreover have "uint (- v) = (- uint v) mod 2 ^ LENGTH('a)" by (simp add: uint_word_ariths)
  ultimately show ?thesis by (simp add: zmod_zminus1_eq_if)
qed

lemma signed_abs_value:
  fixes v :: "'a::len word"
  assumes "sint v \<noteq> - (2 ^ (LENGTH('a) - 1))"
  obtains a where "signed_abs v = Some a" "int (unat a) = \<bar>sint v\<bar>"
proof -
  consider "0 < sint v" | "v = 0" | "sint v < 0" by (metis linorder_neqE signed_0 sint_0 signed_eq_0_iff)
  then show ?thesis
  proof cases
    case 1
    then have "uint v = sint v" using sint_cases [of v] by auto
    then show ?thesis using 1 that [of v] by (simp add: signed_abs_def word_sless_alt)
  next
    case 2
    then show ?thesis using that [of 0] by (simp add: signed_abs_def)
  next
    case 3
    then have s: "sint v = uint v - 2 ^ LENGTH('a)" using sint_cases [of v] by auto
    have v0: "v \<noteq> 0" using 3 by auto
    have n: "uint (- v) = - sint v" using uint_neg [OF v0] s by simp
    have "v \<noteq> - v"
    proof
      assume "v = - v"
      then have "uint v = - sint v" using n by metis
      then have "2 * sint v = - (2 ^ LENGTH('a))" using s by simp
      moreover have "(2 :: int) ^ LENGTH('a) = 2 * 2 ^ (LENGTH('a) - 1)" by (simp flip: power_Suc)
      ultimately show False using assms by simp
    qed
    then show ?thesis using 3 v0 n that [of "- v"] by (simp add: signed_abs_def word_sless_alt)
  qed
qed

lemma sint_scast8: "sint (scast (x :: u8) :: u32) = sint x"
  by (rule sint_up_scast) (simp add: is_up)
lemma sint_scast16: "sint (scast (x :: u16) :: u32) = sint x"
  by (rule sint_up_scast) (simp add: is_up)

section \<open>The text of an integer\<close>

text \<open>The sign \<open>_ntoa_format\<close> prints.\<close>

definition sign_text :: "bool \<Rightarrow> u32 \<Rightarrow> char list" where
  "sign_text negative flags =
     (if negative then ''-'' else if has flags FLAGS_PLUS then ''+'' else if has flags FLAGS_SPACE then '' '' else [])"

lemma ntoa_digits_length:
  assumes "2 \<le> unat base" "0 < n" "unat v < unat base ^ n"
  shows "length (ntoa_digits v base f buf) \<le> length buf + n"
  using assms(2,3)
proof (induction n arbitrary: v buf)
  case (Suc n)
  have "unat (v div base) < unat base ^ n"
    using Suc.prems(2) by (simp add: unat_div less_mult_imp_div_less mult.commute)
  then show ?case
    using Suc.IH [of "v div base" "buf @ [digit_char (v mod base) f]"]
    by (subst ntoa_digits.simps) (cases n; auto simp: Let_def unat_eq_zero)
qed simp

lemma int_text_plain:
  assumes f: "\<not> has flags FLAGS_ZEROPAD" "\<not> has flags FLAGS_HASH" "\<not> has flags FLAGS_PRECISION"
    and b: "2 \<le> unat base" "unat base \<le> 16"
    and s: "sign_text negative flags = [] \<or> unat v < unat base ^ 31"
  obtains ds where "int_text v negative base 0 width flags = padded (sign_text negative flags @ ds) width flags"
    "ds \<noteq> []" "length ds \<le> 32" "num_of (unat base) ds = unat v mod unat base ^ 32"
    "v \<noteq> 0 \<Longrightarrow> unat v < unat base ^ 32 \<Longrightarrow> hd ds \<noteq> CHR ''0''"
    "unat base = 10 \<Longrightarrow> \<forall>c\<in>set ds. is_digit c"
proof -
  define fl where "fl = (if v = 0 then flags AND NOT FLAGS_HASH else flags)"
  have g: "has fl FLAGS_LEFT = has flags FLAGS_LEFT" "has fl FLAGS_PLUS = has flags FLAGS_PLUS"
    "has fl FLAGS_SPACE = has flags FLAGS_SPACE" "\<not> has fl FLAGS_ZEROPAD" "\<not> has fl FLAGS_HASH" "\<not> has fl FLAGS_PRECISION"
    using f by (auto simp: flag_simps fl_def)
  obtain ds where ds: "ntoa_digits v base fl [] = ds" "ds \<noteq> []" "length ds \<le> 32"
    "num_of_rev (unat base) ds = unat v mod unat base ^ 32"
    "v \<noteq> 0 \<and> unat v < unat base ^ 32 \<longrightarrow> last ds \<noteq> CHR ''0''" "unat base = 10 \<longrightarrow> (\<forall>c\<in>set ds. is_digit c)"
    using ntoa_digits_value [OF b, of "[]" v fl] by auto
  have z: "ntoa_zeros ds negative 0 width fl = (ds, width)"
    using g ds(3) by (simp add: ntoa_zeros_def fill_zeros_eq Let_def)
  have "ntoa_sign ds negative fl = ds @ rev (sign_text negative flags)"
  proof (cases "length ds < 32")
    case True
    then show ?thesis using g by (simp add: ntoa_sign_def sign_text_def PRINTF_NTOA_BUFFER_SIZE_def)
  next
    case False
    then have "\<not> unat v < unat base ^ 31"
      using ntoa_digits_length [of base 31 v fl "[]"] b ds(1) by auto
    then have "sign_text negative flags = []" using s by blast
    then show ?thesis using False by (simp add: ntoa_sign_def PRINTF_NTOA_BUFFER_SIZE_def)
  qed
  then have "int_text v negative base 0 width flags = padded (rev (ds @ rev (sign_text negative flags))) width fl"
    using g ds(1) z by (simp add: int_text_def fl_def [symmetric] ntoa_text_def ntoa_hash_def Let_def)
  moreover have "padded cs width fl = padded cs width flags" for cs using g f by (simp add: padded_def Let_def)
  ultimately show ?thesis
    using that [of "rev ds"] ds by (simp add: num_of_rev hd_rev)
qed

text \<open>The integer an argument stands for, by the length flags and signedness of the conversion.\<close>

definition arg_value :: "bool \<Rightarrow> u32 \<Rightarrow> u64 \<Rightarrow> int" where
  "arg_value signd flags w =
     (if has flags FLAGS_LONG_LONG \<or> has flags FLAGS_LONG then (if signd then sint w else uint w)
      else if has flags FLAGS_CHAR then (if signd then sint (ucast w :: u8) else uint (ucast w :: u8))
      else if has flags FLAGS_SHORT then (if signd then sint (ucast w :: u16) else uint (ucast w :: u16))
      else (if signd then sint (ucast w :: u32) else uint (ucast w :: u32)))"

definition least_value :: "u32 \<Rightarrow> int" where
  "least_value flags = (if has flags FLAGS_LONG_LONG \<or> has flags FLAGS_LONG then - (2 ^ 63) else - (2 ^ 31))"

lemma ucast_narrow [simp]:
  "ucast (ucast (w :: u64) :: u32) = (ucast w :: u8)" "ucast (ucast (w :: u64) :: u32) = (ucast w :: u16)"
  by (rule bit_word_eqI; simp add: bit_simps)+

lemma sint_bounds8: "- 128 \<le> sint (x :: u8)"
  using sint_greater_eq [of x] by simp

lemma sint_bounds16: "- 32768 \<le> sint (x :: u16)"
  using sint_greater_eq [of x] by simp

lemma conv_signed_text:
  assumes "arg_value True flags w \<noteq> least_value flags"
  obtains a where "\<And>out m p. conv_signed out m base flags width prec (Word_arg w # va) p
      = Some (va, emits out m (int_text a (arg_value True flags w < 0) (ucast base) prec width flags) p)"
    "int (unat a) = \<bar>arg_value True flags w\<bar>"
proof (cases "has flags FLAGS_LONG_LONG \<or> has flags FLAGS_LONG")
  case True
  then have "sint w \<noteq> - (2 ^ (LENGTH(64) - 1))" using assms by (simp add: arg_value_def least_value_def)
  then obtain a where a: "signed_abs w = Some a" "int (unat a) = \<bar>sint w\<bar>" by (rule signed_abs_value)
  show ?thesis
    by (rule that [of a])
      (use True a in \<open>auto simp: conv_signed_def arg_value_def word_sless_alt ntoa_long_emits ntoa_long_long_emits\<close>)
next
  case False
  define v :: u32 where "v = (if has flags FLAGS_CHAR then scast (ucast w :: u8)
    else if has flags FLAGS_SHORT then scast (ucast w :: u16) else ucast w)"
  have v: "sint v = arg_value True flags w"
    using False by (simp add: v_def arg_value_def sint_scast8 sint_scast16)
  then have "sint v \<noteq> - (2 ^ (LENGTH(32) - 1))" using assms False by (simp add: least_value_def)
  then obtain a where a: "signed_abs v = Some a" "int (unat a) = \<bar>sint v\<bar>" by (rule signed_abs_value)
  have "conv_signed out m base flags width prec (Word_arg w # va) p
      = do { a \<leftarrow> signed_abs v; Some (va, ntoa_long out m (ucast a) (v <s 0) (ucast base) prec width flags p) }" for out m p
    using False by (simp add: conv_signed_def va_int_def v_def Let_def)
  then show ?thesis
    using that [of "ucast a"] a v by (simp add: ntoa_long_emits word_sless_alt)
qed

lemma uint_ucast_u32: "uint (ucast (x :: u8) :: u32) = uint x" "uint (ucast (y :: u16) :: u32) = uint y"
  by (simp_all add: uint_up_ucast is_up)

lemma conv_unsigned_text:
  obtains a where "\<And>out m p. conv_unsigned out m base flags width prec (Word_arg w # va) p
      = Some (va, emits out m (int_text a False (ucast base) prec width flags) p)"
    "int (unat a) = arg_value False flags w"
proof (cases "has flags FLAGS_LONG_LONG \<or> has flags FLAGS_LONG")
  case True
  show ?thesis
    by (rule that [of w]) (use True in \<open>auto simp: conv_unsigned_def arg_value_def ntoa_long_emits ntoa_long_long_emits\<close>)
next
  case False
  define v :: u32 where "v = (if has flags FLAGS_CHAR then ucast (ucast w :: u8)
    else if has flags FLAGS_SHORT then ucast (ucast w :: u16) else ucast w)"
  have "uint v = arg_value False flags w" using False by (simp add: v_def arg_value_def uint_ucast_u32)
  moreover have "conv_unsigned out m base flags width prec (Word_arg w # va) p
      = Some (va, ntoa_long out m (ucast v) False (ucast base) prec width flags p)" for out m p
    using False by (simp add: conv_unsigned_def va_int_def v_def Let_def)
  ultimately show ?thesis using that [of "ucast v"] by (simp add: ntoa_long_emits)
qed

definition radix :: "char \<Rightarrow> nat" where
  "radix c = (if c = CHR ''x'' \<or> c = CHR ''X'' then 16 else if c = CHR ''o'' then 8 else if c = CHR ''b'' then 2 else 10)"

definition conv_flags :: "char \<Rightarrow> u32 \<Rightarrow> u32" where
  "conv_flags c flags =
     (let flags = (if radix c = 10 then flags AND NOT FLAGS_HASH else flags);
          flags = (if c = CHR ''X'' then flags OR FLAGS_UPPERCASE else flags);
          flags = (if c \<noteq> CHR ''i'' \<and> c \<noteq> CHR ''d'' then flags AND NOT (FLAGS_PLUS OR FLAGS_SPACE) else flags) in
      if has flags FLAGS_PRECISION then flags AND NOT FLAGS_ZEROPAD else flags)"

lemma conv_integer_radix:
  "conv_integer out m c flags width prec va p =
     (if c = CHR ''i'' \<or> c = CHR ''d'' then conv_signed out m (of_nat (radix c)) (conv_flags c flags) width prec va p
      else conv_unsigned out m (of_nat (radix c)) (conv_flags c flags) width prec va p)"
  by (simp add: conv_integer_def conv_flags_def radix_def Let_def)

lemma flag_steps:
  "bit (let f = (if A then f AND NOT FLAGS_HASH else f); f = (if B then f OR FLAGS_UPPERCASE else f);
         f = (if C then f AND NOT (FLAGS_PLUS OR FLAGS_SPACE) else f) in
     if has f FLAGS_PRECISION then f AND NOT FLAGS_ZEROPAD else f) k
   \<longleftrightarrow> (bit f k \<and> \<not> (A \<and> k = 4) \<or> B \<and> k = 5) \<and> \<not> (C \<and> (k = 2 \<or> k = 3)) \<and> \<not> (k = 0 \<and> bit f 10)"
  for A B C :: bool and f :: u32
  by (cases A; cases B; cases C; auto simp: Let_def flag_simps dest: bit_imp_le_length)

lemma conv_flags_keep:
  assumes "\<not> has flags FLAGS_ZEROPAD" "\<not> has flags FLAGS_HASH" "\<not> has flags FLAGS_PRECISION"
  shows "\<not> has (conv_flags c flags) FLAGS_ZEROPAD" "\<not> has (conv_flags c flags) FLAGS_HASH"
    "\<not> has (conv_flags c flags) FLAGS_PRECISION"
    "padded cs width (conv_flags c flags) = padded cs width flags"
    "arg_value signd (conv_flags c flags) w = arg_value signd flags w"
    "least_value (conv_flags c flags) = least_value flags"
    "sign_text neg (conv_flags c flags)
      = (if c = CHR ''i'' \<or> c = CHR ''d'' \<or> neg then sign_text neg flags else [])"
proof -
  note bits = flag_steps [of "radix c = 10" flags "c = CHR ''X''" "c \<noteq> CHR ''i'' \<and> c \<noteq> CHR ''d''", folded conv_flags_def]
  have b: "bit (conv_flags c flags) k \<longleftrightarrow> bit flags k" if "k \<in> {0, 1, 4, 6, 7, 8, 9, 10}" for k
    using assms that unfolding bits by (auto simp: flag_test)
  have c: "bit (conv_flags c flags) k \<longleftrightarrow> (c = CHR ''i'' \<or> c = CHR ''d'') \<and> bit flags k" if "k \<in> {2, 3}" for k
    using that unfolding bits by auto
  show "\<not> has (conv_flags c flags) FLAGS_ZEROPAD" "\<not> has (conv_flags c flags) FLAGS_HASH"
    "\<not> has (conv_flags c flags) FLAGS_PRECISION"
    "padded cs width (conv_flags c flags) = padded cs width flags"
    "arg_value signd (conv_flags c flags) w = arg_value signd flags w"
    "least_value (conv_flags c flags) = least_value flags"
    using assms b by (simp_all add: padded_def arg_value_def least_value_def flag_test Let_def)
  show "sign_text neg (conv_flags c flags) = (if c = CHR ''i'' \<or> c = CHR ''d'' \<or> neg then sign_text neg flags else [])"
    using c by (auto simp: sign_text_def flag_test)
qed

lemma radix_word: "unat (ucast (of_nat (radix c) :: u32) :: u64) = radix c" "2 \<le> radix c" "radix c \<le> 16"
  by (simp_all add: radix_def)

lemma integer_text:
  assumes "c \<in> set ''diuxXob''" "\<not> has flags FLAGS_ZEROPAD" "\<not> has flags FLAGS_HASH" "\<not> has flags FLAGS_PRECISION"
    and "signd = (c \<in> set ''di'')" "signd \<longrightarrow> arg_value True flags w \<noteq> least_value flags"
  shows "\<exists>ds. (\<forall>out m p. conv_integer out m c flags width 0 (Word_arg w # va) p = Some (va, emits out m
        (padded ((if signd then sign_text (arg_value True flags w < 0) flags else []) @ ds) width flags) p))
    \<and> ds \<noteq> [] \<and> num_of (radix c) ds = nat \<bar>arg_value signd flags w\<bar> mod radix c ^ 32
    \<and> (arg_value signd flags w \<noteq> 0 \<longrightarrow> c \<noteq> CHR ''b'' \<longrightarrow> hd ds \<noteq> CHR ''0'')
    \<and> length ds \<le> 32 \<and> (radix c = 10 \<longrightarrow> (\<forall>d\<in>set ds. is_digit d))"
proof -
  let ?f = "conv_flags c flags" and ?b = "ucast (of_nat (radix c) :: u32) :: u64"
  note k = conv_flags_keep [OF assms(2-4)]
  have big: "c \<noteq> CHR ''b'' \<Longrightarrow> unat a < radix c ^ 32" for a :: u64
  proof -
    have "unat a < 2 ^ 64" by (rule order_less_le_trans [OF unsigned_less]) simp
    then show "unat a < radix c ^ 32" if "c \<noteq> CHR ''b''" using assms(1) that by (auto simp: radix_def)
  qed
  show ?thesis
  proof (cases "c \<in> set ''di''")
    case True
    then obtain a where a: "\<And>out m p. conv_signed out m (of_nat (radix c)) ?f width 0 (Word_arg w # va) p
        = Some (va, emits out m (int_text a (arg_value True flags w < 0) ?b 0 width ?f) p)"
      "int (unat a) = \<bar>arg_value True flags w\<bar>"
      using conv_signed_text [of ?f w "of_nat (radix c)" width 0 va] assms(5,6) unfolding k(5,6) by metis
    have "unat a < 2 ^ 64" by (rule order_less_le_trans [OF unsigned_less]) simp
    then have small: "unat a < radix c ^ 31" using True by (auto simp: radix_def)
    obtain ds where "int_text a (arg_value True flags w < 0) ?b 0 width ?f
        = padded (sign_text (arg_value True flags w < 0) ?f @ ds) width ?f"
      "ds \<noteq> []" "num_of (radix c) ds = unat a mod radix c ^ 32" "a \<noteq> 0 \<Longrightarrow> unat a < radix c ^ 32 \<Longrightarrow> hd ds \<noteq> CHR ''0''"
      "length ds \<le> 32" "radix c = 10 \<Longrightarrow> \<forall>d\<in>set ds. is_digit d"
      using int_text_plain [where base = ?b and negative = "arg_value True flags w < 0" and v = a and width = width, OF k(1-3)]
      unfolding radix_word(1)
      using radix_word(2,3) small by metis
    moreover have "nat \<bar>arg_value True flags w\<bar> = unat a" by (simp only: a(2) [symmetric] nat_int)
    moreover have "arg_value True flags w = 0 \<longleftrightarrow> a = 0" by (metis a(2) abs_eq_0 of_nat_eq_0_iff unat_eq_zero)
    ultimately show ?thesis
      using True a(1) big assms(5) by (intro exI [of _ ds]) (auto simp: conv_integer_radix k)
  next
    case False
    obtain a where a: "\<And>out m p. conv_unsigned out m (of_nat (radix c)) ?f width 0 (Word_arg w # va) p
        = Some (va, emits out m (int_text a False ?b 0 width ?f) p)"
      "int (unat a) = arg_value False flags w"
      using conv_unsigned_text [of "of_nat (radix c)" ?f width 0 w va] unfolding k(5) by metis
    have "sign_text False ?f = []" using False k(7) by simp
    then obtain ds where "int_text a False ?b 0 width ?f = padded ds width ?f"
      "ds \<noteq> []" "num_of (radix c) ds = unat a mod radix c ^ 32" "a \<noteq> 0 \<Longrightarrow> unat a < radix c ^ 32 \<Longrightarrow> hd ds \<noteq> CHR ''0''"
      "length ds \<le> 32" "radix c = 10 \<Longrightarrow> \<forall>d\<in>set ds. is_digit d"
      using int_text_plain [where base = ?b and negative = False and v = a and width = width, OF k(1-3)]
      unfolding radix_word(1) using radix_word(2,3) by (metis append_Nil)
    moreover have "nat \<bar>arg_value False flags w\<bar> = unat a" by (simp only: a(2) [symmetric] abs_of_nat nat_int)
    moreover have "arg_value False flags w = 0 \<longleftrightarrow> a = 0" by (metis a(2) of_nat_eq_0_iff unat_eq_zero)
    ultimately show ?thesis
      using False a(1) big assms(5) by (intro exI [of _ ds]) (auto simp: conv_integer_radix k)
  qed
qed

text \<open>\<open>prints fmt va msg\<close>: the format is defined and passes \<open>msg\<close> to every output function.\<close>

definition prints :: "char list \<Rightarrow> va_slot list \<Rightarrow> char list \<Rightarrow> bool" where
  "prints fmt va msg \<longleftrightarrow> (\<forall>out m p. vsnprintf_loop out m fmt va p = Some (emits out m msg p))"

lemma snprintf_prints:
  assumes "prints fmt va msg" "length msg < 2 ^ 64"
  obtains s' where "snprintf False count fmt va s = Some (of_nat (length msg), s')"
    "sk_buffer s' = written count msg (sk_buffer s)"
  by (rule vsnprintf_impl_buffer [of count fmt va s msg]) (use assms that in \<open>auto simp: prints_def snprintf_def\<close>)

lemma prints_plain:
  assumes "\<forall>c\<in>set t. c \<noteq> CHR ''%'' \<and> c \<noteq> NUL"
  shows "vsnprintf_loop out m (t @ fmt) va p = vsnprintf_loop out m fmt va (emits out m t p)"
  using assms by (induction t arbitrary: p) auto

lemma atoi_numeral:
  assumes "\<forall>d\<in>set ds. is_digit d"
  shows "atoi_loop i (ds @ NUL # rest) = Some (i * 10 ^ length ds + of_nat (num_of 10 ds), NUL # rest)"
  using assms
proof (induction ds arbitrary: i)
  case Nil
  then show ?case by (simp add: is_digit_def)
next
  case (Cons d ds)
  have d: "of_nat (of_char d) - 48 = (of_nat (digit_value d) :: u32)"
    using Cons.prems by (auto simp: is_digit_def digit_value_def of_nat_diff)
  have n: "foldl (\<lambda>n c. 10 * n + digit_value c) x cs = x * 10 ^ length cs + num_of 10 cs" for x cs
    unfolding num_of_def by (induction cs rule: rev_induct) (simp_all add: algebra_simps)
  have "num_of 10 (d # ds) = digit_value d * 10 ^ length ds + num_of 10 ds"
    using n [of "digit_value d" ds] by (simp add: num_of_def)
  then show ?case using Cons d by (simp add: algebra_simps)
qed

lemma prints_u:
  obtains ds where "prints (''%u'' @ [NUL]) [Word_arg (ucast w)] ds" "length ds \<le> 32"
    "atoi (ds @ [NUL]) = Some (w :: u32, [NUL])" "\<forall>d\<in>set ds. is_digit d"
proof -
  have "ucast (ucast w :: u64) = w" by (rule bit_word_eqI) (simp add: bit_simps)
  then have v: "arg_value False 0 (ucast w) = uint w" by (simp add: arg_value_def)
  obtain ds where ds: "\<And>out m p. conv_integer out m CHR ''u'' 0 0 0 (Word_arg (ucast w) # []) p = Some ([], emits out m (padded ds 0 0) p)"
    "num_of 10 ds = unat w mod 10 ^ 32" "length ds \<le> 32" "\<forall>d\<in>set ds. is_digit d"
    using integer_text [of "CHR ''u''" 0 False "ucast w" 0 "[]"] unfolding v by (auto simp: radix_def)
  have "unat w < 2 ^ 32" by (rule order_less_le_trans [OF unsigned_less]) simp
  then have "num_of 10 ds = unat w" using ds(2) by simp
  then have "atoi (ds @ [NUL]) = Some (w, [NUL])" using atoi_numeral [OF ds(4), of 0 "[]"] by (simp add: atoi_def)
  moreover have "prints (''%u'' @ [NUL]) [Word_arg (ucast w)] ds"
    using ds(1) by (simp add: prints_def spec_step_def convert_def is_digit_def padded_def Let_def)
  ultimately show ?thesis using that ds(3,4) by blast
qed

section \<open>Properties\<close>

text \<open>
  C33: what a format prints does not depend on the output function, the size of the buffer or the
  place in it: either the call is undefined for all of them, or all of them receive the same text.
\<close>

theorem output_uniform:
  "(\<forall>out m p. vsnprintf_loop out m fmt va p = None) \<or> (\<exists>msg. \<forall>out m p. vsnprintf_loop out m fmt va p = Some (emits out m msg p))"
proof -
  obtain r where "\<And>out m p. vsnprintf_loop out m fmt va p = map_option (\<lambda>cs. emits out m cs p) r"
    by (rule vsnprintf_loop_text [of fmt va]) (rule that)
  then show ?thesis by (cases r) auto
qed

text \<open>
  C10: \<open>snprintf\<close> returns the length of the whole text, whatever the size of the buffer. It writes the
  first \<open>count - 1\<close> characters at most and a terminating 0 behind them, and nothing outside the
  first \<open>count\<close> bytes; with a count of 0 it writes nothing.
\<close>

theorem snprintf_truncates:
  assumes "\<forall>out m p. vsnprintf_loop out m fmt va p = Some (emits out m msg p)" and "length msg < 2 ^ 64"
  shows "\<exists>s'. snprintf False count fmt va s = Some (of_nat (length msg), s')
    \<and> (\<forall>i. sk_buffer s' i = (if count \<le> i \<or> min (length msg) (unat count - 1) < unat i then sk_buffer s i
          else if unat i < min (length msg) (unat count - 1) then msg ! unat i else NUL))"
proof -
  have "prints fmt va msg" using assms(1) by (simp add: prints_def)
  then obtain s' where "snprintf False count fmt va s = Some (of_nat (length msg), s')"
    "sk_buffer s' = written count msg (sk_buffer s)" by (rule snprintf_prints [OF _ assms(2)])
  then show ?thesis by (auto simp: written_def Let_def word_le_nat_alt)
qed

theorem snprintf_truncates_witness:
  "\<exists>s'. snprintf False 3 (''flos'' @ [NUL]) [] \<lparr>sk_buffer = \<lambda>_. CHR ''?'', sk_put = [], sk_fct = []\<rparr> = Some (4, s')
    \<and> map (sk_buffer s') [0, 1, 2, 3] = [CHR ''f'', CHR ''l'', NUL, CHR ''?'']"
proof -
  have "\<forall>out m p. vsnprintf_loop out m (''flos'' @ [NUL]) [] p = Some (emits out m ''flos'' p)" by simp
  moreover have "length ''flos'' < 2 ^ 64" by simp
  ultimately obtain s' where r: "snprintf False 3 (''flos'' @ [NUL]) [] \<lparr>sk_buffer = \<lambda>_. CHR ''?'', sk_put = [], sk_fct = []\<rparr> = Some (4, s')"
    and e: "\<And>i. sk_buffer s' i = (if 3 \<le> i \<or> min (length ''flos'') (unat (3 :: u64) - 1) < unat i then CHR ''?''
          else if unat i < min (length ''flos'') (unat (3 :: u64) - 1) then ''flos'' ! unat i else NUL)"
    using snprintf_truncates [of "''flos'' @ [NUL]" "[]" "''flos''" 3 "\<lparr>sk_buffer = \<lambda>_. CHR ''?'', sk_put = [], sk_fct = []\<rparr>"]
    by fastforce
  have m: "map (sk_buffer s') [0, 1, 2, 3] = [CHR ''f'', CHR ''l'', NUL, CHR ''?'']" by (simp add: e word_le_nat_alt)
  show ?thesis by (rule exI [of _ s']) (rule conjI [OF r m])
qed



text \<open>
  C34: printing an \<open>unsigned int\<close> with \<open>%u\<close> into a large enough buffer and reading the buffer back
  with \<open>_atoi\<close> gives the same value, for every value.
\<close>

theorem print_read_roundtrip:
  assumes "32 < count"
  shows "\<exists>n s'. snprintf False count (''%u'' @ [NUL]) [Word_arg (ucast (w :: u32))] s = Some (of_nat n, s')
    \<and> atoi (map (\<lambda>i. sk_buffer s' (of_nat i)) [0..<Suc n]) = Some (w, [NUL])"
proof -
  obtain ds where ds: "prints (''%u'' @ [NUL]) [Word_arg (ucast w)] ds" "length ds \<le> 32" "atoi (ds @ [NUL]) = Some (w, [NUL])"
    by (rule prints_u [of w]) (rule that)
  have "length ds < 2 ^ 64" using ds(2) by simp
  then obtain s' where s': "snprintf False count (''%u'' @ [NUL]) [Word_arg (ucast w)] s = Some (of_nat (length ds), s')"
    "sk_buffer s' = written count ds (sk_buffer s)" by (rule snprintf_prints [OF ds(1)])
  have "unat (of_nat i :: u64) = i" if "i \<le> 32" for i using that by (simp add: unat_of_nat take_bit_nat_eq_self_iff)
  then have "written count ds old (of_nat i) = (ds @ [NUL]) ! i" if "i < Suc (length ds)" for i old
    using that ds(2) assms by (auto simp: written_def Let_def nth_append word_less_nat_alt)
  then have "map (\<lambda>i. sk_buffer s' (of_nat i)) [0..<Suc (length ds)] = ds @ [NUL]"
    unfolding s'(2) by (intro nth_equalityI) (simp_all del: upt_Suc)
  then show ?thesis using s'(1) ds(3) by metis
qed

theorem print_read_roundtrip_witness:
  "\<exists>n s'. snprintf False 33 (''%u'' @ [NUL]) [Word_arg 4294967295] \<lparr>sk_buffer = \<lambda>_. NUL, sk_put = [], sk_fct = []\<rparr> = Some (of_nat n, s')
    \<and> atoi (map (\<lambda>i. sk_buffer s' (of_nat i)) [0..<Suc n]) = Some (4294967295, [NUL])"
  using print_read_roundtrip [of 33 "4294967295" "\<lparr>sk_buffer = \<lambda>_. NUL, sk_put = [], sk_fct = []\<rparr>"] by simp

text \<open>
  A format whose last character is a lone \<open>%\<close> is not over at its terminating 0: the 0 is printed
  as the conversion character and the interpretation goes on with whatever follows the string in
  memory, so it is undefined when nothing does.
\<close>

theorem format_runs_past_its_end:
  assumes "\<forall>c\<in>set t. c \<noteq> CHR ''%'' \<and> c \<noteq> NUL"
  shows "vsnprintf_loop out m (t @ ''%'' @ NUL # rest) va p = vsnprintf_loop out m rest va (emits out m (t @ [NUL]) p)
    \<and> snprintf null count (t @ ''%'' @ [NUL]) va s = None"
  using prints_plain [OF assms]
  by (simp add: snprintf_def vsnprintf_impl_def spec_step_def convert_def is_digit_def)

theorem format_runs_past_its_end_witness:
  "vsnprintf_loop Out_char 0 (''100%'' @ NUL # ''secret'' @ [NUL]) [] (0, \<lparr>sk_buffer = \<lambda>_. NUL, sk_put = [], sk_fct = []\<rparr>)
    = Some (emits Out_char 0 (''100'' @ NUL # ''secret'') (0, \<lparr>sk_buffer = \<lambda>_. NUL, sk_put = [], sk_fct = []\<rparr>))"
  using format_runs_past_its_end [of "''100''" Out_char 0 "''secret'' @ [NUL]" "[]" "(0, \<lparr>sk_buffer = \<lambda>_. NUL, sk_put = [], sk_fct = []\<rparr>)"]
  by simp

end
