(* ===== verification/Kmalloc.thy ===== *)
theory Kmalloc
  imports Slab
begin

text \<open>
  The kernel heap, \<^verbatim>\<open>src/kernel/kernel/lib/stdlib.c\<close>: 26 size classes served by the slab allocator,
  larger requests by runs of pages. A block starts with a 16-byte header, a 32-bit tag and, packed
  behind it, the 64-bit size class or number of pages; in memory of 64-bit cells the header is the
  first cell and the lower half of the second.
\<close>

definition kmalloc_sizes :: "u64 list" where
  "kmalloc_sizes = [8, 16, 24, 32, 40, 48, 56, 64, 80, 96, 112, 128, 160, 192, 224, 256, 320, 384,
     448, 512, 640, 768, 896, 1024, 2048, 3072]"

definition KMALLOC_NUM_SIZES :: nat where "KMALLOC_NUM_SIZES = 26"

record kheap =
  kmalloc_caches :: "nat list"
  heap :: kstate

definition SLAB_BACKED :: u32 where "SLAB_BACKED = 0"
definition PAGE_BACKED :: u32 where "PAGE_BACKED = 1"

definition sizeof_alloc_header :: u64 where "sizeof_alloc_header = 16"

definition write_header :: "kstate \<Rightarrow> u64 \<Rightarrow> u32 \<Rightarrow> u64 \<Rightarrow> kstate" where
  "write_header s hdr ty v =
     write_cell (write_cell s hdr (ucast ty OR push_bit 32 v)) (hdr + 8)
       (push_bit 32 (drop_bit 32 (mem s (hdr + 8))) OR drop_bit 32 v)"

definition header_type :: "kstate \<Rightarrow> u64 \<Rightarrow> u32" where
  "header_type s hdr = ucast (mem s hdr)"

definition header_value :: "kstate \<Rightarrow> u64 \<Rightarrow> u64" where
  "header_value s hdr = drop_bit 32 (mem s hdr) OR push_bit 32 (mem s (hdr + 8))"

fun create_caches :: "u64 list \<Rightarrow> kstate \<Rightarrow> (nat list \<times> kstate) option" where
  "create_caches [] s = Some ([], s)"
| "create_caches (sz # szs) s =
     do {
       (c, s) \<leftarrow> kmem_cache_create s sz;
       (cs, s) \<leftarrow> create_caches szs s;
       Some (c # cs, s)
     }"

definition init_kmalloc :: "kheap \<Rightarrow> kheap option" where
  "init_kmalloc h =
     do {
       (cs, s) \<leftarrow> create_caches kmalloc_sizes (heap h);
       Some \<lparr>kmalloc_caches = cs, heap = s\<rparr>
     }"

text \<open>The binary search: \<open>left\<close>, \<open>right\<close> and \<open>result\<close> are \<open>int\<close>, and never leave \<open>-1 .. 26\<close>.\<close>

function kmalloc_search :: "u64 \<Rightarrow> int \<Rightarrow> int \<Rightarrow> int \<Rightarrow> int" where
  "kmalloc_search sz left right result =
     (if left \<le> right then
        let mid = (left + right) div 2 in
        if sz \<le> kmalloc_sizes ! nat mid then kmalloc_search sz left (mid - 1) mid
        else kmalloc_search sz (mid + 1) right result
      else result)"
  by pat_completeness auto
termination
  by (relation "measure (\<lambda>(sz, left, right, result). nat (right - left + 1))") auto

declare kmalloc_search.simps [simp del]

definition kmalloc_index :: "u64 \<Rightarrow> int" where
  "kmalloc_index sz = kmalloc_search sz 0 (int KMALLOC_NUM_SIZES - 1) (- 1)"

definition k_alloc_pages :: "kstate \<Rightarrow> u64 \<Rightarrow> (u64 \<times> kstate) option" where
  "k_alloc_pages s count = do { (phys, p) \<leftarrow> pmm_alloc_pages (pmm s) count; Some (phys, s\<lparr>pmm := p\<rparr>) }"

definition k_free_pages :: "kstate \<Rightarrow> u64 \<Rightarrow> u64 \<Rightarrow> kstate option" where
  "k_free_pages s phys count = do { p \<leftarrow> pmm_free_pages (pmm s) phys count; Some (s\<lparr>pmm := p\<rparr>) }"

text \<open>The number of pages is an \<open>int\<close>, converted back to \<open>size_t\<close> where it is used.\<close>

definition kmalloc :: "u64 \<Rightarrow> kheap \<Rightarrow> (u64 \<times> kheap) option" where
  "kmalloc sz h =
     (if sz = 0 then Some (0, h)
      else
        (let total = ALIGN_UP (sz + sizeof_alloc_header) 16; idx = kmalloc_index total in
         if 0 \<le> idx then
           do {
             (hdr, s) \<leftarrow> kmem_cache_alloc (heap h) (kmalloc_caches h ! nat idx);
             if hdr = 0 then Some (0, h\<lparr>heap := s\<rparr>)
             else Some (hdr + sizeof_alloc_header, h\<lparr>heap := write_header s hdr SLAB_BACKED (of_int idx)\<rparr>)
           }
         else
           do {
             let pages = scast (ucast ((total + PAGE_SIZE - 1) div PAGE_SIZE) :: u32);
             (phys, s) \<leftarrow> k_alloc_pages (heap h) pages;
             if phys = 0 then Some (0, h\<lparr>heap := s\<rparr>)
             else
               (let hdr = phys_to_higher_half_data s phys in
                if hdr = 0 then Some (0, h\<lparr>heap := s\<rparr>)
                else Some (hdr + sizeof_alloc_header, h\<lparr>heap := write_header s hdr PAGE_BACKED pages\<rparr>))
           }))"

definition kfree :: "u64 \<Rightarrow> kheap \<Rightarrow> kheap option" where
  "kfree ptr h =
     (if ptr = 0 then Some h
      else
        (let hdr = ptr - sizeof_alloc_header; s = heap h in
         if header_type s hdr = SLAB_BACKED then
           (let i = unat (header_value s hdr) in
            if i < length (kmalloc_caches h) then
              do { s \<leftarrow> kmem_cache_free s (kmalloc_caches h ! i) hdr; Some (h\<lparr>heap := s\<rparr>) }
            else None)
         else if header_type s hdr = PAGE_BACKED then
           do { s \<leftarrow> k_free_pages s (higher_half_data_to_phys s hdr) (header_value s hdr); Some (h\<lparr>heap := s\<rparr>) }
         else Some h))"

end
