(* ===== verification/Block_Allocator.thy ===== *)
theory Block_Allocator
  imports Prelude
begin

text \<open>
  The interface of a heap: blocks of any size, by the address of their first usable byte.
  \<open>rep s B\<close> says that the heap is well formed and exactly the blocks of \<open>B\<close> are handed out, each
  with its number of usable bytes; \<open>hdr\<close> bytes in front of a block belong to it too. A result 0
  means that there is no memory; requests above \<open>limit\<close> are outside the contract.
\<close>

locale block_allocator =
  fixes alloc :: "u64 \<Rightarrow> 's \<Rightarrow> (u64 \<times> 's) option"
    and free :: "u64 \<Rightarrow> 's \<Rightarrow> 's option"
    and rep :: "'s \<Rightarrow> (u64 \<rightharpoonup> nat) \<Rightarrow> bool"
    and hdr :: nat
    and limit :: nat
  assumes alloc_law: "rep s B \<Longrightarrow> unat n \<le> limit \<Longrightarrow> \<exists>p s'. alloc n s = Some (p, s') \<and>
      (if p = 0 then s' = s else p \<notin> dom B \<and> (\<exists>m\<ge>unat n. rep s' (B(p \<mapsto> m))))"
    and free_law: "rep s B \<Longrightarrow> p \<in> dom B \<Longrightarrow> \<exists>s'. free p s = Some s' \<and> rep s' (B(p := None))"
    and live_nonnull: "rep s B \<Longrightarrow> 0 \<notin> dom B"
    and live_apart: "rep s B \<Longrightarrow> B p = Some m \<Longrightarrow> B q = Some k \<Longrightarrow> unat p < unat q \<Longrightarrow> unat p + m + hdr \<le> unat q"
begin

lemma alloc_new:
  assumes "rep s B" "unat n \<le> limit" "alloc n s = Some (p, s')" "p \<noteq> 0"
  obtains m where "unat n \<le> m" "p \<notin> dom B" "rep s' (B(p \<mapsto> m))"
  using alloc_law [OF assms(1,2)] assms(3,4) by auto

lemma new_block_apart:
  assumes "rep s B" "unat n \<le> limit" "alloc n s = Some (p, s')" "p \<noteq> 0" "B q = Some k"
  shows "unat p + unat n + hdr \<le> unat q \<or> unat q + k + hdr \<le> unat p"
proof -
  obtain m where m: "unat n \<le> m" "p \<notin> dom B" "rep s' (B(p \<mapsto> m))" by (rule alloc_new [OF assms(1-4)])
  have "p \<noteq> q" using m(2) assms(5) by auto
  then have "unat p < unat q \<or> unat q < unat p" by (metis linorder_neqE_nat word_unat_eq_iff)
  then show ?thesis
    using live_apart [OF m(3), of p m q k] live_apart [OF m(3), of q k p m] m(1) assms(5) \<open>p \<noteq> q\<close> by auto
qed

lemma alloc_then_free:
  assumes "rep s B" "unat n \<le> limit" "alloc n s = Some (p, s1)" "p \<noteq> 0"
  shows "\<exists>s2. free p s1 = Some s2 \<and> rep s2 B"
proof -
  obtain m where m: "p \<notin> dom B" "rep s1 (B(p \<mapsto> m))" by (rule alloc_new [OF assms])
  have "(B(p \<mapsto> m))(p := None) = B" using m(1) by (auto simp: fun_eq_iff domIff)
  then show ?thesis using free_law [OF m(2), of p] by auto
qed

end

end
