(* ===== verification/Kmalloc_Inv.thy ===== *)
theory Kmalloc_Inv
  imports Kmalloc Slab_Ops Block_Allocator
begin

text \<open>
  The size classes, the block header, and the invariant of the heap: the caches of the size classes
  with the headers of their live objects, and the runs of pages handed out.
\<close>

section \<open>Size classes\<close>

lemma length_sizes [simp]: "length kmalloc_sizes = 26"
  by (simp add: kmalloc_sizes_def)

lemma sorted_sizes: "sorted kmalloc_sizes"
  by (simp add: kmalloc_sizes_def)

lemma sizes_mono: "i \<le> j \<Longrightarrow> j < 26 \<Longrightarrow> kmalloc_sizes ! i \<le> kmalloc_sizes ! j"
  using sorted_nth_mono [OF sorted_sizes] by simp

lemma good_sizes: "i < 26 \<Longrightarrow> good_size (kmalloc_sizes ! i)"
proof -
  assume "i < 26"
  moreover have "\<forall>z\<in>set kmalloc_sizes. good_size z" by (simp add: kmalloc_sizes_def good_size_def)
  ultimately show ?thesis by simp
qed

lemma search_correct:
  assumes "0 \<le> l" "r < 26" "l \<le> r + 1" "\<forall>i. 0 \<le> i \<and> i < l \<longrightarrow> kmalloc_sizes ! nat i < sz"
    "r = 25 \<and> res = - 1 \<or> res = r + 1 \<and> res < 26 \<and> sz \<le> kmalloc_sizes ! nat res"
  shows "(kmalloc_search sz l r res = - 1 \<and> (\<forall>i<26. kmalloc_sizes ! i < sz))
    \<or> (\<exists>n<26. kmalloc_search sz l r res = int n \<and> sz \<le> kmalloc_sizes ! n \<and> (\<forall>i<n. kmalloc_sizes ! i < sz))"
  using assms
proof (induction sz l r res rule: kmalloc_search.induct)
  case (1 sz l r res)
  let ?m = "(l + r) div 2"
  show ?case
  proof (cases "l \<le> r")
    case True
    then have m: "l \<le> ?m" "?m \<le> r" by simp_all
    show ?thesis
    proof (cases "sz \<le> kmalloc_sizes ! nat ?m")
      case le: True
      then have "kmalloc_search sz l r res = kmalloc_search sz l (?m - 1) ?m"
        using True by (subst kmalloc_search.simps) (simp add: Let_def)
      then show ?thesis using 1(1) [OF True refl le] 1(3-) m le by simp
    next
      case gt: False
      then have e: "kmalloc_search sz l r res = kmalloc_search sz (?m + 1) r res"
        using True by (subst kmalloc_search.simps) (simp add: Let_def)
      have "kmalloc_sizes ! nat i < sz" if "0 \<le> i" "i < ?m + 1" for i
      proof -
        have "kmalloc_sizes ! nat i \<le> kmalloc_sizes ! nat ?m" using that m 1(4) by (intro sizes_mono) auto
        then show ?thesis using gt by simp
      qed
      then show ?thesis using e 1(2) [OF True refl gt] 1(3-) m by simp
    qed
  next
    case False
    then have e: "kmalloc_search sz l r res = res" by (subst kmalloc_search.simps) simp
    have lr: "l = r + 1" using False 1(5) by simp
    have small: "\<forall>i<nat l. kmalloc_sizes ! i < sz" using 1(6) by (metis nat_less_iff nat_int of_nat_0_le_iff zless_nat_eq_int_zless)
    show ?thesis
    proof (cases "res = - 1")
      case True
      then show ?thesis using 1(3,7) e lr small by auto
    next
      case False
      then have "res = l" "res < 26" "sz \<le> kmalloc_sizes ! nat res" using 1(7) lr by auto
      then show ?thesis using 1(3) e small by (intro disjI2 exI [of _ "nat l"]) auto
    qed
  qed
qed

lemma kmalloc_index_cases:
  obtains (large) "kmalloc_index sz = - 1" "3072 < unat sz"
  | (fits) n where "n < 26" "kmalloc_index sz = int n" "sz \<le> kmalloc_sizes ! n" "\<forall>i<n. kmalloc_sizes ! i < sz"
proof -
  have "3072 < unat sz" if "\<forall>i<26. kmalloc_sizes ! i < sz"
  proof -
    have "kmalloc_sizes ! 25 < sz" using that by simp
    then show ?thesis by (simp add: kmalloc_sizes_def word_less_nat_alt)
  qed
  then show ?thesis
    using search_correct [of 0 25 sz "- 1"] large fits
    unfolding kmalloc_index_def KMALLOC_NUM_SIZES_def by fastforce
qed

section \<open>Headers\<close>

lemma header_roundtrip:
  "header_type (write_header s hdr ty v) hdr = ty" "header_value (write_header s hdr ty v) hdr = v"
proof -
  have a: "hdr \<noteq> hdr + 8" by simp
  show "header_type (write_header s hdr ty v) hdr = ty"
    using a unfolding header_type_def write_header_def
    by (simp add: write_cell_def) (rule bit_word_eqI, auto simp: bit_simps)
  show "header_value (write_header s hdr ty v) hdr = v"
    using a unfolding header_value_def write_header_def
    apply (simp add: write_cell_def)
    apply (rule bit_word_eqI)
    subgoal for n by (cases "n < 32") (auto simp: bit_simps dest: bit_imp_le_length)
    done
qed

lemma write_header_mem:
  obtains m where "write_header s hdr ty v = s\<lparr>mem := m\<rparr>" "\<And>y. y \<noteq> hdr \<Longrightarrow> y \<noteq> hdr + 8 \<Longrightarrow> m y = mem s y"
  by (rule that [of "mem (write_header s hdr ty v)"]) (simp_all add: write_header_def write_cell_def)

lemma header_cong:
  "mem s' x = mem s x \<Longrightarrow> header_type s' x = header_type s x"
  "mem s' x = mem s x \<Longrightarrow> mem s' (x + 8) = mem s (x + 8) \<Longrightarrow> header_value s' x = header_value s x"
  by (simp_all add: header_type_def header_value_def)

section \<open>The invariant\<close>

definition run_base :: "kstate \<Rightarrow> nat \<Rightarrow> u64" where
  "run_base s k = hhdm s + of_nat (4096 * k)"

abbreviation live :: "(nat \<Rightarrow> u64 set) \<Rightarrow> (nat \<Rightarrow> u64 \<Rightarrow> u64 list) \<Rightarrow> nat \<Rightarrow> u64 set" where
  "live S fl i \<equiv> slab_live (kmalloc_sizes ! i) (S i) (fl i)"

text \<open>
  \<open>S i\<close>, \<open>fl i\<close> and \<open>ps i\<close> are the slabs, free lists and partial list of size class \<open>i\<close>; \<open>R\<close> holds the
  runs handed out, as first page number and number of pages.
\<close>

definition classes_ok :: "nat list \<Rightarrow> kstate \<Rightarrow> (nat \<Rightarrow> u64 set) \<Rightarrow> (nat \<Rightarrow> u64 \<Rightarrow> u64 list) \<Rightarrow> (nat \<Rightarrow> u64 list) \<Rightarrow> bool" where
  "classes_ok cs s S fl ps \<longleftrightarrow> (\<forall>i<26. cache_rep_but {} s (cs ! i) (S i) (fl i) (ps i)
     \<and> kc_size (cache_pool s ! (cs ! i)) = kmalloc_sizes ! i \<and> (live S fl i \<noteq> {} \<longrightarrow> 3 \<le> i))"

definition headers_ok :: "kstate \<Rightarrow> (nat \<Rightarrow> u64 set) \<Rightarrow> bool" where
  "headers_ok s L \<longleftrightarrow> (\<forall>i<26. \<forall>x\<in>L i. header_type s x = SLAB_BACKED \<and> header_value s x = of_nat i)"

definition run_ok :: "kstate \<Rightarrow> (nat \<Rightarrow> u64 set) \<Rightarrow> nat \<Rightarrow> nat \<Rightarrow> bool" where
  "run_ok s S k n \<longleftrightarrow> 0 < k \<and> 0 < n \<and> k + n \<le> k_pages s \<and> run_of k n \<inter> k_free_set s = {}
     \<and> header_type s (run_base s k) = PAGE_BACKED \<and> header_value s (run_base s k) = of_nat n
     \<and> (\<forall>i<26. \<forall>a\<in>S i. page_no s a \<notin> run_of k n)"

definition runs_apart :: "(nat \<times> nat) set \<Rightarrow> bool" where
  "runs_apart R \<longleftrightarrow> (\<forall>k n l m. (k, n) \<in> R \<longrightarrow> (l, m) \<in> R \<longrightarrow> (k, n) \<noteq> (l, m) \<longrightarrow> run_of k n \<inter> run_of l m = {})"

definition heap_ok ::
  "kheap \<Rightarrow> (nat \<Rightarrow> u64 set) \<Rightarrow> (nat \<Rightarrow> u64 \<Rightarrow> u64 list) \<Rightarrow> (nat \<Rightarrow> u64 list) \<Rightarrow> (nat \<times> nat) set \<Rightarrow> bool" where
  "heap_ok h S fl ps R \<longleftrightarrow> length (kmalloc_caches h) = 26 \<and> distinct (kmalloc_caches h) \<and> k_inv (heap h)
     \<and> classes_ok (kmalloc_caches h) (heap h) S fl ps \<and> headers_ok (heap h) (live S fl)
     \<and> (\<forall>(k, n)\<in>R. run_ok (heap h) S k n) \<and> runs_apart R"

text \<open>The blocks handed out, by their first usable byte, with the number of usable bytes.\<close>

definition blocks_of :: "kstate \<Rightarrow> (nat \<Rightarrow> u64 set) \<Rightarrow> (nat \<times> nat) set \<Rightarrow> (u64 \<times> nat) set" where
  "blocks_of s L R = {(x + 16, unat (kmalloc_sizes ! i) - 16) |x i. i < 26 \<and> x \<in> L i}
     \<union> {(run_base s k + 16, 4096 * n - 16) |k n. (k, n) \<in> R}"

definition heap_rep :: "kheap \<Rightarrow> (u64 \<rightharpoonup> nat) \<Rightarrow> bool" where
  "heap_rep h B \<longleftrightarrow> (\<exists>S fl ps R. heap_ok h S fl ps R \<and> (\<forall>p n. B p = Some n \<longleftrightarrow> (p, n) \<in> blocks_of (heap h) (live S fl) R))"

section \<open>Where blocks and headers are\<close>

lemma unat_run_base:
  assumes "k_inv s" "k < k_pages s"
  shows "unat (run_base s k) = unat (hhdm s) + 4096 * k"
proof -
  have "unat (hhdm s) + 4096 * k < 2 ^ 64"
    using assms by (simp add: k_inv_def k_pages_def)
  moreover have "of_nat (unat (hhdm s) + 4096 * k) = run_base s k" by (simp add: run_base_def)
  ultimately show ?thesis by (intro of_nat_inverse) simp_all
qed

lemma run_base_page:
  assumes "k_inv s" "k < k_pages s" "0 < k"
  shows "page_no s (run_base s k) = k" "slab_page (run_base s k)"
proof -
  note u = unat_run_base [OF assms(1,2)]
  show "page_no s (run_base s k) = k" by (simp add: page_no_def u)
  have "unat (hhdm s) mod 4096 = 0" using assms(1) by (simp add: k_inv_def)
  then show "slab_page (run_base s k)" using u assms(3) unfolding slab_page_def by (auto simp: mod_add_left_eq)
qed

lemma page_base_at:
  assumes "slab_page a" "unat y = unat a + d" "d < 4096"
  shows "page_base y = a"
proof -
  obtain q where q: "unat a = 4096 * q" using assms(1) by (auto simp: slab_page_def)
  have "unat (page_base y) = unat a" unfolding unat_page_of assms(2) q using assms(3) by simp
  then show ?thesis by (simp only: word_unat_eq_iff)
qed

lemma page_base_self: "slab_page a \<Longrightarrow> page_base a = a"
  by (rule page_base_at [of a a 0]) simp_all

lemma second_cell:
  assumes "slab_page a" "unat x = unat a + d" "d + 16 \<le> 4096"
  shows "unat (x + 8) = unat x + 8" "page_base x = a" "page_base (x + 8) = a"
proof -
  have "unat x + 8 < 2 ^ 64" using slab_page_room [OF assms(1)] assms(2,3) by simp
  then show u: "unat (x + 8) = unat x + 8" using unat_add_no_wrap [of x 8] by simp
  show "page_base x = a" by (rule page_base_at [OF assms(1,2)]) (use assms(3) in simp)
  show "page_base (x + 8) = a" by (rule page_base_at [OF assms(1), of _ "d + 8"]) (use u assms(2,3) in simp_all)
qed

text \<open>An object of a class from index 3 on has room for its header, inside its page.\<close>

lemma size_at_least_32: "3 \<le> i \<Longrightarrow> i < 26 \<Longrightarrow> 32 \<le> unat (kmalloc_sizes ! i)"
proof -
  assume i: "3 \<le> i" "i < 26"
  have "kmalloc_sizes ! 3 = 32" by (simp add: kmalloc_sizes_def)
  then show ?thesis using sizes_mono [OF i] by (simp add: word_le_nat_alt)
qed

lemma object_place:
  assumes "slab_page a" "x \<in> objs (kmalloc_sizes ! i) a" "3 \<le> i" "i < 26"
  obtains d where "unat x = unat a + d" "32 \<le> d" "d + unat (kmalloc_sizes ! i) \<le> 4096"
    "unat (x + 8) = unat x + 8" "page_base x = a" "page_base (x + 8) = a"
proof -
  obtain j where j: "x = obj_at a (kmalloc_sizes ! i) j" "j < slab_objects (kmalloc_sizes ! i)"
    using assms(2) by (auto simp: objs_def)
  have d: "unat x = unat a + (32 + j * unat (kmalloc_sizes ! i))"
    "32 + j * unat (kmalloc_sizes ! i) + unat (kmalloc_sizes ! i) \<le> 4096"
    using unat_obj_at [OF assms(1) j(2)] j(1) by simp_all
  moreover have "32 \<le> unat (kmalloc_sizes ! i)" by (rule size_at_least_32 [OF assms(3,4)])
  ultimately show ?thesis using second_cell [OF assms(1) d(1)] that by auto
qed

end
