(* ===== verification/Kmalloc_Heap.thy ===== *)
theory Kmalloc_Heap
  imports Kmalloc_Inv
begin

text \<open>
  Headers and blocks do not overlap, so writing a header keeps the invariant of the heap; and what
  the four ways through \<open>kmalloc\<close> and \<open>kfree\<close> do.
\<close>

lemma cache_rep_but_mem:
  assumes "cache_rep_but X s c S fl ps" "\<And>a x. a \<in> S \<Longrightarrow> x \<in> set (fl a) \<Longrightarrow> m x = mem s x"
  shows "cache_rep_but X (s\<lparr>mem := m\<rparr>) c S fl ps"
proof -
  note r = cache_rep_butD [OF assms(1) refl]
  have ch: "chain m p (fl a) = chain (mem s) p (fl a)" if "a \<in> S" for p a
    using assms(2) [OF that] by (rule chain_cong)
  have ok: "slab_ok (s\<lparr>mem := m\<rparr>) c z a l = slab_ok s c z a l" for z a l
    by (simp add: slab_ok_def used_page_def page_no_def k_pages_def k_free_set_def)
  show ?thesis
    by (rule cache_rep_butI [where kc = "cache_pool s ! c"]) (use r ch ok in \<open>auto\<close>)
qed

text \<open>A live object of a class, with its slab.\<close>

lemma live_slab:
  assumes c: "classes_ok cs s S fl ps" and i: "i < 26" and x: "x \<in> live S fl i"
  obtains a d where "a \<in> S i" "x \<in> objs (kmalloc_sizes ! i) a" "x \<notin> set (fl i a)" "slab_page a" "used_page s a" "3 \<le> i"
    "unat x = unat a + d" "32 \<le> d" "d + unat (kmalloc_sizes ! i) \<le> 4096"
    "unat (x + 8) = unat x + 8" "page_base x = a" "page_base (x + 8) = a"
proof -
  obtain a where a: "a \<in> S i" "x \<in> objs (kmalloc_sizes ! i) a" "x \<notin> set (fl i a)"
    using x by (auto simp: slab_live_def)
  have r: "cache_rep_but {} s (cs ! i) (S i) (fl i) (ps i)" "kc_size (cache_pool s ! (cs ! i)) = kmalloc_sizes ! i" "3 \<le> i"
    using c i x by (auto simp: classes_ok_def)
  have ok: "slab_ok s (cs ! i) (kmalloc_sizes ! i) a (fl i a)"
    using cache_rep_butD(4) [OF r(1) refl a(1)] r(2) by simp
  then have "slab_page a" "used_page s a" by (simp_all add: slab_ok_def)
  then show ?thesis
    using object_place [OF _ a(2) r(3) i] that [OF a] r(3) by metis
qed

lemma free_object:
  assumes c: "classes_ok cs s S fl ps" and i: "i < 26" and a: "a \<in> S i" and y: "y \<in> set (fl i a)"
  shows "y \<in> objs (kmalloc_sizes ! i) a" "page_base y = a" "slab_page a" "used_page s a"
proof -
  have r: "cache_rep_but {} s (cs ! i) (S i) (fl i) (ps i)" "kc_size (cache_pool s ! (cs ! i)) = kmalloc_sizes ! i"
    using c i by (auto simp: classes_ok_def)
  have ok: "slab_ok s (cs ! i) (kmalloc_sizes ! i) a (fl i a)"
    using cache_rep_butD(4) [OF r(1) refl a] r(2) by simp
  then show "y \<in> objs (kmalloc_sizes ! i) a" "slab_page a" "used_page s a" using y by (auto simp: slab_ok_def)
  then show "page_base y = a" using objs_page_base [of a "kmalloc_sizes ! i" y] good_sizes [OF i] by simp
qed

lemma classes_disjoint:
  assumes c: "classes_ok cs s S fl ps" and d: "distinct cs" "length cs = 26" and i: "i < 26" "j < 26" "i \<noteq> j"
  shows "S i \<inter> S j = {}"
proof -
  have "cs ! i \<noteq> cs ! j" using d i by (simp add: nth_eq_iff_index_eq)
  then show ?thesis using cache_rep_disjoint c i unfolding classes_ok_def by blast
qed

text \<open>The header places: the live objects and the first pages of the runs.\<close>

definition place :: "kstate \<Rightarrow> (nat \<Rightarrow> u64 set) \<Rightarrow> (nat \<Rightarrow> u64 \<Rightarrow> u64 list) \<Rightarrow> (nat \<times> nat) set \<Rightarrow> u64 \<Rightarrow> bool" where
  "place s S fl R x \<longleftrightarrow> (\<exists>i<26. x \<in> live S fl i) \<or> (\<exists>k n. (k, n) \<in> R \<and> x = run_base s k)"

definition layout ::
  "nat list \<Rightarrow> kstate \<Rightarrow> (nat \<Rightarrow> u64 set) \<Rightarrow> (nat \<Rightarrow> u64 \<Rightarrow> u64 list) \<Rightarrow> (nat \<Rightarrow> u64 list) \<Rightarrow> (nat \<times> nat) set \<Rightarrow> bool" where
  "layout cs s S fl ps R \<longleftrightarrow> k_inv s \<and> distinct cs \<and> length cs = 26 \<and> classes_ok cs s S fl ps \<and> runs_apart R
     \<and> (\<forall>(k, n)\<in>R. 0 < k \<and> 0 < n \<and> k + n \<le> k_pages s \<and> run_of k n \<inter> k_free_set s = {}
          \<and> (\<forall>i<26. \<forall>a\<in>S i. page_no s a \<notin> run_of k n))"

lemma layoutD:
  assumes "layout cs s S fl ps R"
  shows "k_inv s" "distinct cs" "length cs = 26" "classes_ok cs s S fl ps" "runs_apart R"
    "(k, n) \<in> R \<Longrightarrow> 0 < k \<and> 0 < n \<and> k + n \<le> k_pages s \<and> run_of k n \<inter> k_free_set s = {}
       \<and> (\<forall>i<26. \<forall>a\<in>S i. page_no s a \<notin> run_of k n)"
  using assms by (auto simp: layout_def)

lemma run_place:
  assumes L: "layout cs s S fl ps R" and r: "(k, n) \<in> R"
  shows "page_no s (run_base s k) = k" "slab_page (run_base s k)" "k \<in> run_of k n" "unat (run_base s k) = unat (hhdm s) + 4096 * k"
proof -
  have k: "0 < k" "k < k_pages s" "0 < n" using layoutD(6) [OF L r] by auto
  show "page_no s (run_base s k) = k" "slab_page (run_base s k)" using run_base_page [OF layoutD(1) [OF L] k(2,1)] by auto
  show "k \<in> run_of k n" using k(3) by (simp add: run_of_def)
  show "unat (run_base s k) = unat (hhdm s) + 4096 * k" by (rule unat_run_base [OF layoutD(1) [OF L] k(2)])
qed

lemma place_cells:
  assumes L: "layout cs s S fl ps R" and p: "place s S fl R x"
  shows "unat (x + 8) = unat x + 8" "page_base (x + 8) = page_base x"
proof -
  have "unat (x + 8) = unat x + 8 \<and> page_base (x + 8) = page_base x"
    using p unfolding place_def
  proof (elim disjE exE conjE)
    fix i assume "i < 26" "x \<in> live S fl i"
    then show ?thesis by (rule live_slab [OF layoutD(4) [OF L]]) simp
  next
    fix k n assume r: "(k, n) \<in> R" "x = run_base s k"
    show ?thesis using second_cell [OF run_place(2) [OF L r(1)], of x 0] r(2) by simp
  qed
  then show "unat (x + 8) = unat x + 8" "page_base (x + 8) = page_base x" by simp_all
qed

text \<open>A free object is not a cell of a header.\<close>

lemma free_not_header:
  assumes L: "layout cs s S fl ps R" and p: "place s S fl R x" and f: "i < 26" "a \<in> S i" "y \<in> set (fl i a)"
  shows "y \<noteq> x" "y \<noteq> x + 8"
proof -
  note g = free_object [OF layoutD(4) [OF L] f]
  have "y \<noteq> x \<and> y \<noteq> x + 8"
    using p unfolding place_def
  proof (elim disjE exE conjE)
    fix j assume j: "j < 26" "x \<in> live S fl j"
    obtain b d where b: "b \<in> S j" "x \<in> objs (kmalloc_sizes ! j) b" "x \<notin> set (fl j b)" "slab_page b" "3 \<le> j"
      "unat (x + 8) = unat x + 8" "page_base x = b" "page_base (x + 8) = b"
      by (rule live_slab [OF layoutD(4) [OF L] j]) (rule that)
    have "a = b \<Longrightarrow> i = j" using classes_disjoint [OF layoutD(4,2,3) [OF L] f(1) j(1)] f(2) b(1) by blast
    then show ?thesis
    proof (cases "a = b")
      case True
      then have "i = j" by fact
      have z: "32 \<le> unat (kmalloc_sizes ! j)" by (rule size_at_least_32 [OF b(5) j(1)])
      have "y \<noteq> x" using f(3) b(3) \<open>i = j\<close> True by auto
      moreover have "y \<noteq> x + 8"
      proof
        assume "y = x + 8"
        then have "unat x < unat y" using b(6) by simp
        then have "unat x + unat (kmalloc_sizes ! j) \<le> unat y"
          using objs_apart [OF b(4) b(4) _ b(2), of y] g(1) z True \<open>i = j\<close> by simp
        then show False using \<open>y = x + 8\<close> b(6) z by simp
      qed
      ultimately show ?thesis by simp
    next
      case False
      then show ?thesis using g(2) b(7,8) by auto
    qed
  next
    fix k n assume r: "(k, n) \<in> R" "x = run_base s k"
    have "page_no s a \<noteq> k" using layoutD(6) [OF L r(1)] run_place(3) [OF L r(1)] f(1,2) by auto
    then have "a \<noteq> x" using run_place(1) [OF L r(1)] r(2) by auto
    moreover have "page_base x = x" "page_base (x + 8) = x"
      using second_cell [OF run_place(2) [OF L r(1)], of x 0] r(2) by simp_all
    ultimately show ?thesis using g(2) by auto
  qed
  then show "y \<noteq> x" "y \<noteq> x + 8" by simp_all
qed

section \<open>Blocks do not overlap\<close>

text \<open>A block with its header, by the address of the header and the number of bytes in all.\<close>

definition whole :: "kstate \<Rightarrow> (nat \<Rightarrow> u64 set) \<Rightarrow> (nat \<Rightarrow> u64 \<Rightarrow> u64 list) \<Rightarrow> (nat \<times> nat) set \<Rightarrow> u64 \<Rightarrow> nat \<Rightarrow> bool" where
  "whole s S fl R x t \<longleftrightarrow> (\<exists>i<26. x \<in> live S fl i \<and> t = unat (kmalloc_sizes ! i)) \<or> (\<exists>k n. (k, n) \<in> R \<and> x = run_base s k \<and> t = 4096 * n)"

lemma place_whole: "place s S fl R x \<longleftrightarrow> (\<exists>t. whole s S fl R x t)"
  by (auto simp: place_def whole_def)

text \<open>The pages a block lies in.\<close>

definition within :: "kstate \<Rightarrow> u64 \<Rightarrow> nat \<Rightarrow> nat \<Rightarrow> nat \<Rightarrow> bool" where
  "within s x t k m \<longleftrightarrow> unat (hhdm s) + 4096 * k \<le> unat x \<and> unat x + t \<le> unat (hhdm s) + 4096 * (k + m) \<and> 32 \<le> t"

lemma within_apart:
  assumes "within s x t k m" "within s y u l n" "run_of k m \<inter> run_of l n = {}" "unat x < unat y"
  shows "unat x + t \<le> unat y"
proof -
  have "0 < m" using assms(1) by (cases m) (auto simp: within_def)
  moreover have "0 < n" using assms(2) by (cases n) (auto simp: within_def)
  ultimately have "k + m \<le> l \<or> l + n \<le> k"
    using assms(3) unfolding run_of_def disjoint_iff mem_Collect_eq
    by (metis add_cancel_right_right le_add1 linorder_not_le nat_le_linear less_add_same_cancel1)
  then show ?thesis
  proof
    assume "k + m \<le> l"
    then have "4096 * (k + m) \<le> 4096 * l" by simp
    then show ?thesis using assms(1,2) unfolding within_def by linarith
  next
    assume "l + n \<le> k"
    then have "4096 * (l + n) \<le> 4096 * k" by simp
    then show ?thesis using assms(1,2,4) unfolding within_def by linarith
  qed
qed

lemma live_within:
  assumes L: "layout cs s S fl ps R" and i: "i < 26" "x \<in> live S fl i"
  obtains a where "a \<in> S i" "x \<in> objs (kmalloc_sizes ! i) a" "slab_page a" "used_page s a"
    "within s x (unat (kmalloc_sizes ! i)) (page_no s a) 1" "32 \<le> unat (kmalloc_sizes ! i)"
proof -
  obtain a d where a: "a \<in> S i" "x \<in> objs (kmalloc_sizes ! i) a" "slab_page a" "used_page s a" "3 \<le> i"
    "unat x = unat a + d" "d + unat (kmalloc_sizes ! i) \<le> 4096"
    by (rule live_slab [OF layoutD(4) [OF L] i]) (rule that)
  have "unat a = unat (hhdm s) + 4096 * page_no s a" using a(4) unfolding used_page_def by blast
  then show ?thesis
    using that [OF a(1-4)] a(6,7) size_at_least_32 [OF a(5) i(1)] by (simp add: within_def)
qed

lemma run_within:
  assumes L: "layout cs s S fl ps R" and r: "(k, n) \<in> R"
  shows "within s (run_base s k) (4096 * n) k n"
  using run_place(4) [OF L r] layoutD(6) [OF L r] by (simp add: within_def)

lemma run_of_1 [simp]: "run_of k 1 = {k}" "run_of k (Suc 0) = {k}"
  by (auto simp: run_of_def)

lemma whole_apart:
  assumes L: "layout cs s S fl ps R" and x: "whole s S fl R x t" and y: "whole s S fl R y u" and lt: "unat x < unat y"
  shows "unat x + t \<le> unat y"
proof -
  have away: "run_of (page_no s a) 1 \<inter> run_of k n = {}" if "(k, n) \<in> R" "i < 26" "a \<in> S i" for a i k n
    using layoutD(6) [OF L that(1)] that(2,3) by simp
  show ?thesis
    using x y unfolding whole_def
  proof (elim disjE exE conjE)
    fix i j assume i: "i < 26" "x \<in> live S fl i" "t = unat (kmalloc_sizes ! i)"
      and j: "j < 26" "y \<in> live S fl j" "u = unat (kmalloc_sizes ! j)"
    obtain a where a: "a \<in> S i" "x \<in> objs (kmalloc_sizes ! i) a" "slab_page a" "used_page s a"
      "within s x (unat (kmalloc_sizes ! i)) (page_no s a) 1" "32 \<le> unat (kmalloc_sizes ! i)"
      by (rule live_within [OF L i(1,2)]) (rule that)
    obtain b where b: "b \<in> S j" "y \<in> objs (kmalloc_sizes ! j) b" "slab_page b" "used_page s b"
      "within s y (unat (kmalloc_sizes ! j)) (page_no s b) 1" "32 \<le> unat (kmalloc_sizes ! j)"
      by (rule live_within [OF L j(1,2)]) (rule that)
    show ?thesis
    proof (cases "a = b")
      case True
      then have "i = j" using classes_disjoint [OF layoutD(4,2,3) [OF L] i(1) j(1)] a(1) b(1) by blast
      then show ?thesis using objs_apart [OF a(3) b(3) _ a(2) _ lt] b(2) a(6) i(3) by simp
    next
      case False
      then have "page_no s a \<noteq> page_no s b" using used_page_inj [OF a(4) b(4)] by blast
      then show ?thesis using within_apart [OF a(5) b(5) _ lt] i(3) by simp
    qed
  next
    fix i k n assume i: "i < 26" "x \<in> live S fl i" "t = unat (kmalloc_sizes ! i)" and r: "(k, n) \<in> R" "y = run_base s k" "u = 4096 * n"
    obtain a where a: "a \<in> S i" "within s x (unat (kmalloc_sizes ! i)) (page_no s a) 1"
      by (rule live_within [OF L i(1,2)]) (rule that)
    show ?thesis using within_apart [OF a(2) run_within [OF L r(1)] away [OF r(1) i(1) a(1)]] lt i(3) r(2) by simp
  next
    fix k n j assume r: "(k, n) \<in> R" "x = run_base s k" "t = 4096 * n" and j: "j < 26" "y \<in> live S fl j" "u = unat (kmalloc_sizes ! j)"
    obtain b where b: "b \<in> S j" "within s y (unat (kmalloc_sizes ! j)) (page_no s b) 1"
      by (rule live_within [OF L j(1,2)]) (rule that)
    show ?thesis using within_apart [OF run_within [OF L r(1)] b(2)] away [OF r(1) j(1) b(1)] lt r(2,3) by (simp add: Int_commute)
  next
    fix k n l m assume r: "(k, n) \<in> R" "x = run_base s k" "t = 4096 * n" and q: "(l, m) \<in> R" "y = run_base s l" "u = 4096 * m"
    have "(k, n) \<noteq> (l, m)" using lt r(2) q(2) by auto
    then have "run_of k n \<inter> run_of l m = {}" using layoutD(5) [OF L] r(1) q(1) unfolding runs_apart_def by blast
    then show ?thesis using within_apart [OF run_within [OF L r(1)] run_within [OF L q(1)]] lt r(2,3) q(2) by simp
  qed
qed

lemma whole_size: "layout cs s S fl ps R \<Longrightarrow> whole s S fl R x t \<Longrightarrow> 32 \<le> t"
  unfolding whole_def by (elim disjE exE conjE) (auto elim: live_within dest: run_within simp: within_def)

lemma places_apart:
  assumes L: "layout cs s S fl ps R" and p: "place s S fl R x" "place s S fl R y" "x \<noteq> y"
  shows "y \<noteq> x + 8" "y + 8 \<noteq> x" "y + 8 \<noteq> x + 8"
proof -
  obtain t u where w: "whole s S fl R x t" "whole s S fl R y u" using p(1,2) by (auto simp: place_whole)
  have "unat x \<noteq> unat y" using p(3) by (simp add: word_unat_eq_iff)
  then have "unat x + t \<le> unat y \<or> unat y + u \<le> unat x"
    using whole_apart [OF L w] whole_apart [OF L w(2,1)] by linarith
  then show "y \<noteq> x + 8" "y + 8 \<noteq> x"
    using whole_size [OF L w(1)] whole_size [OF L w(2)] place_cells(1) [OF L p(1)] place_cells(1) [OF L p(2)] by auto
  show "y + 8 \<noteq> x + 8" using p(3) by simp
qed

section \<open>Writing a header\<close>

text \<open>All headers but the one at \<open>x\<close> are in place.\<close>

definition headers_but :: "u64 set \<Rightarrow> kstate \<Rightarrow> (nat \<Rightarrow> u64 set) \<Rightarrow> (nat \<Rightarrow> u64 \<Rightarrow> u64 list) \<Rightarrow> (nat \<times> nat) set \<Rightarrow> bool" where
  "headers_but X s S fl R \<longleftrightarrow>
     (\<forall>i<26. \<forall>x\<in>live S fl i. x \<notin> X \<longrightarrow> header_type s x = SLAB_BACKED \<and> header_value s x = of_nat i)
     \<and> (\<forall>(k, n)\<in>R. run_base s k \<notin> X \<longrightarrow> header_type s (run_base s k) = PAGE_BACKED \<and> header_value s (run_base s k) = of_nat n)"

lemma heap_ok_layout:
  "heap_ok h S fl ps R \<longleftrightarrow> layout (kmalloc_caches h) (heap h) S fl ps R \<and> headers_but {} (heap h) S fl R"
  unfolding heap_ok_def layout_def headers_but_def headers_ok_def run_ok_def by auto

lemma run_base_mem [simp]: "run_base (s\<lparr>mem := m\<rparr>) k = run_base s k"
  by (simp add: run_base_def)

lemma layout_mem:
  assumes L: "layout cs s S fl ps R" and x: "place s S fl R x" and m: "\<And>y. y \<noteq> x \<Longrightarrow> y \<noteq> x + 8 \<Longrightarrow> m y = mem s y"
  shows "layout cs (s\<lparr>mem := m\<rparr>) S fl ps R"
proof -
  have "cache_rep_but {} (s\<lparr>mem := m\<rparr>) (cs ! i) (S i) (fl i) (ps i)" if "i < 26" for i
    using layoutD(4) [OF L] free_not_header [OF L x that] that m
    by (intro cache_rep_but_mem) (auto simp: classes_ok_def)
  moreover have "page_no (s\<lparr>mem := m\<rparr>) = page_no s" by (simp add: page_no_def fun_eq_iff)
  ultimately show ?thesis
    using L by (auto simp: layout_def classes_ok_def k_inv_def k_pages_def k_free_set_def)
qed

lemma write_header_ok:
  assumes L: "layout cs s S fl ps R" and x: "place s S fl R x" and H: "headers_but {x} s S fl R"
    and v: "\<And>i. i < 26 \<Longrightarrow> x \<in> live S fl i \<Longrightarrow> ty = SLAB_BACKED \<and> v = of_nat i"
      "\<And>k n. (k, n) \<in> R \<Longrightarrow> x = run_base s k \<Longrightarrow> ty = PAGE_BACKED \<and> v = of_nat n"
  shows "layout cs (write_header s x ty v) S fl ps R" "headers_but {} (write_header s x ty v) S fl R"
proof -
  obtain m where m: "write_header s x ty v = s\<lparr>mem := m\<rparr>" "\<And>y. y \<noteq> x \<Longrightarrow> y \<noteq> x + 8 \<Longrightarrow> m y = mem s y"
    by (rule write_header_mem [of s x ty v]) (rule that)
  show "layout cs (write_header s x ty v) S fl ps R" unfolding m(1) by (rule layout_mem [OF L x m(2)])
  have keep: "header_type (write_header s x ty v) y = header_type s y" "header_value (write_header s x ty v) y = header_value s y"
    if "place s S fl R y" "y \<noteq> x" for y
    unfolding m(1) using places_apart [OF L x that(1)] that(2) m(2)
    by (simp_all add: header_type_def header_value_def)
  have p: "place s S fl R y" if "i < 26" "y \<in> live S fl i" for y i using that by (auto simp: place_def)
  have q: "place s S fl R (run_base s k)" if "(k, n) \<in> R" for k n using that by (auto simp: place_def)
  have b: "run_base (write_header s x ty v) k = run_base s k" for k by (simp add: m(1))
  show "headers_but {} (write_header s x ty v) S fl R"
    unfolding headers_but_def b
  proof (intro conjI allI impI ballI)
    fix i y assume i: "i < 26" "y \<in> live S fl i"
    show "header_type (write_header s x ty v) y = SLAB_BACKED" "header_value (write_header s x ty v) y = of_nat i"
      using H keep [OF p [OF i]] i v(1) [OF i(1)] header_roundtrip by (cases "y = x"; simp add: headers_but_def)+
  next
    fix kn assume "kn \<in> R"
    then obtain k n where kn: "kn = (k, n)" "(k, n) \<in> R" by (cases kn) auto
    show "case kn of (k, n) \<Rightarrow> run_base s k \<notin> {} \<longrightarrow>
        header_type (write_header s x ty v) (run_base s k) = PAGE_BACKED \<and> header_value (write_header s x ty v) (run_base s k) = of_nat n"
      unfolding kn(1) prod.case
      using H keep [OF q [OF kn(2)]] kn(2) v(2) [OF kn(2)] header_roundtrip by (cases "run_base s k = x") (auto simp: headers_but_def)
  qed
qed

end
