(* ===== verification/Kmalloc_Ops.thy ===== *)
theory Kmalloc_Ops
  imports Kmalloc_Heap
begin

text \<open>
  The steps of \<open>kmalloc\<close> and \<open>kfree\<close> on the layout of the heap, one per origin of the memory, and the
  two routines as a \<open>block_allocator\<close>.
\<close>

lemma refill_take_mem: "refill_take s c a = Some (x, s') \<Longrightarrow> mem s' = mem s"
  by (auto simp: refill_take_def bind_eq_Some_conv Let_def split: if_splits)

lemma kmem_cache_alloc_mem:
  assumes inv: "k_inv s" and rep: "cache_rep_but {} s c S fl ps" and run: "kmem_cache_alloc s c = Some (x, s')"
    and y: "page_no s (page_base y) \<notin> k_free_set s"
  shows "mem s' y = mem s y"
proof -
  obtain kc where kc: "get_cache s c = Some kc" using run by (auto simp: kmem_cache_alloc_def bind_eq_Some_conv)
  consider "kc_cpu_freelist kc \<noteq> 0" | "kc_cpu_freelist kc = 0" "kc_partial kc \<noteq> 0" | "kc_cpu_freelist kc = 0" "kc_partial kc = 0"
    by blast
  then show ?thesis
  proof cases
    case 1
    then show ?thesis using run kc by (auto simp: kmem_cache_alloc_def Let_def split: if_splits)
  next
    case 2
    then show ?thesis using run kc by (auto simp: kmem_cache_alloc_def refill_def Let_def dest: refill_take_mem)
  next
    case 3
    show ?thesis
    proof (cases rule: alloc_new_slab_correct [OF inv rep])
      case 1
      then show ?thesis using run kc 3 by (auto simp: kmem_cache_alloc_def refill_def)
    next
      case (2 a s1)
      then have "mem s' = mem s1"
        using run kc 3 by (auto simp: kmem_cache_alloc_def refill_def slab_page_def dest: refill_take_mem)
      moreover have "page_base y \<noteq> a" using 2(6) y by auto
      ultimately show ?thesis using 2(10) by (simp add: slab_frame_def)
    qed
  qed
qed

lemma kmem_cache_free_mem:
  "kmem_cache_free s c x = Some s' \<Longrightarrow> y \<noteq> x \<Longrightarrow> mem s' y = mem s y"
  by (auto simp: kmem_cache_free_def bind_eq_Some_conv Let_def split: if_splits)

text \<open>Headers of blocks lie in pages in use.\<close>

lemma place_in_use:
  assumes L: "layout cs s S fl ps R" and p: "place s S fl R x"
  shows "page_no s (page_base x) \<notin> k_free_set s" "page_no s (page_base (x + 8)) \<notin> k_free_set s"
proof -
  show u: "page_no s (page_base x) \<notin> k_free_set s"
    using p unfolding place_def
  proof (elim disjE exE conjE)
    fix i assume "i < 26" "x \<in> live S fl i"
    then show ?thesis by (rule live_slab [OF layoutD(4) [OF L]]) (simp add: used_page_def)
  next
    fix k n assume r: "(k, n) \<in> R" "x = run_base s k"
    then show ?thesis
      using page_base_self [OF run_place(2) [OF L r(1)]] run_place(1,3) [OF L r(1)] layoutD(6) [OF L r(1)] by auto
  qed
  then show "page_no s (page_base (x + 8)) \<notin> k_free_set s" by (simp add: place_cells(2) [OF L p])
qed

lemma live_upd:
  assumes "slab_live (kmalloc_sizes ! n) S' fl' = M"
  shows "live (S(n := S')) (fl(n := fl')) = (live S fl)(n := M)"
  using assms by (auto simp: fun_eq_iff)

lemma headers_but_keep:
  assumes H: "headers_but {} s S fl R" and l: "\<And>i. i < 26 \<Longrightarrow> live S2 fl2 i \<subseteq> live S fl i \<union> X" and R: "R2 \<subseteq> R"
    and rb: "\<And>k. run_base s1 k = run_base s k"
    and keep: "\<And>y. place s S fl R y \<Longrightarrow> y \<notin> X \<Longrightarrow> header_type s1 y = header_type s y \<and> header_value s1 y = header_value s y"
  shows "headers_but X s1 S2 fl2 R2"
proof -
  have "header_type s1 y = SLAB_BACKED \<and> header_value s1 y = of_nat i" if i: "i < 26" "y \<in> live S2 fl2 i" "y \<notin> X" for i y
  proof -
    have y: "y \<in> live S fl i" using l [OF i(1)] i(2,3) by blast
    then have "place s S fl R y" using i(1) by (auto simp: place_def)
    then show ?thesis using keep [OF _ i(3)] H y i(1) by (simp add: headers_but_def)
  qed
  moreover have "header_type s1 (run_base s k) = PAGE_BACKED \<and> header_value s1 (run_base s k) = of_nat m"
    if r: "(k, m) \<in> R2" "run_base s k \<notin> X" for k m
  proof -
    have kr: "(k, m) \<in> R" using r(1) R by blast
    then have "place s S fl R (run_base s k)" by (auto simp: place_def)
    then show ?thesis using keep [OF _ r(2)] H kr by (auto simp: headers_but_def)
  qed
  ultimately show ?thesis unfolding headers_but_def rb by blast
qed

lemma headers_but_drop:
  assumes H: "headers_but {x} s S fl R" and N: "\<not> place s S fl R x"
  shows "headers_but {} s S fl R"
proof -
  have "header_type s y = SLAB_BACKED \<and> header_value s y = of_nat i" if "i < 26" "y \<in> live S fl i" for i y
  proof -
    have "y \<noteq> x" using N that by (auto simp: place_def)
    then show ?thesis using H that by (simp add: headers_but_def)
  qed
  moreover have "header_type s (run_base s k) = PAGE_BACKED \<and> header_value s (run_base s k) = of_nat m" if "(k, m) \<in> R" for k m
  proof -
    have "run_base s k \<noteq> x" using N that by (auto simp: place_def)
    then show ?thesis using H that by (auto simp: headers_but_def)
  qed
  ultimately show ?thesis unfolding headers_but_def by blast
qed

text \<open>An object belongs to one class, and is not the start of a run.\<close>

lemma live_class:
  assumes L: "layout cs s S fl ps R" and i: "i < 26" "x \<in> live S fl i" and j: "j < 26" "x \<in> live S fl j"
  shows "i = j"
proof -
  obtain a where a: "a \<in> S i" "x \<in> objs (kmalloc_sizes ! i) a" "slab_page a" by (rule live_within [OF L i]) (rule that)
  obtain b where b: "b \<in> S j" "x \<in> objs (kmalloc_sizes ! j) b" "slab_page b" by (rule live_within [OF L j]) (rule that)
  have "a = b"
    using objs_page_base [OF a(3) good_sizes [OF i(1)] a(2)] objs_page_base [OF b(3) good_sizes [OF j(1)] b(2)] by simp
  then show ?thesis using classes_disjoint [OF layoutD(4,2,3) [OF L] i(1) j(1)] a(1) b(1) by blast
qed

lemma live_not_run:
  assumes L: "layout cs s S fl ps R" and i: "i < 26" "x \<in> live S fl i" and r: "(k, m) \<in> R"
  shows "x \<noteq> run_base s k"
proof
  assume e: "x = run_base s k"
  obtain a where a: "a \<in> S i" "x \<in> objs (kmalloc_sizes ! i) a" "slab_page a" by (rule live_within [OF L i]) (rule that)
  have "page_base x = x" using page_base_self [OF run_place(2) [OF L r]] e by simp
  then have "a = x" using objs_page_base [OF a(3) good_sizes [OF i(1)] a(2)] by simp
  then have "page_no s a = k" using run_place(1) [OF L r] e by simp
  then show False using run_place(3) [OF L r] layoutD(6) [OF L r] i(1) a(1) by blast
qed

lemma slab_step:
  assumes L: "layout cs s S fl ps R" and H: "headers_but {} s S fl R" and n: "n < 26" "3 \<le> n"
    and run: "kmem_cache_alloc s (cs ! n) = Some (x, s1)" and x: "x \<noteq> 0"
  obtains S2 fl2 ps2 where "layout cs s1 S2 fl2 ps2 R" "headers_but {x} s1 S2 fl2 R" "x \<notin> live S fl n"
    "live S2 fl2 = (live S fl)(n := insert x (live S fl n))" "hhdm s1 = hhdm s"
proof -
  have C: "cache_rep_but {} s (cs ! i) (S i) (fl i) (ps i)" "kc_size (cache_pool s ! (cs ! i)) = kmalloc_sizes ! i"
    if "i < 26" for i using layoutD(4) [OF L] that by (auto simp: classes_ok_def)
  show ?thesis
  proof (cases rule: kmem_cache_alloc_correct [OF layoutD(1) [OF L] C(1) [OF n(1)]])
    case 1
    then show ?thesis using run x by simp
  next
    case (2 y t S' fl' ps')
    have t: "t = s1" "y = x" using 2(1) run by simp_all
    note p = 2(3) [unfolded cache_alloc_post_def t Let_def C(2) [OF n(1)]]
    have fr: "slab_frame s s1 (cs ! n) S'" and free: "k_free_set s1 \<subseteq> k_free_set s" and pages: "k_pages s1 = k_pages s"
      and hh: "hhdm s1 = hhdm s" and new: "page_no s ` (S' - S n) \<subseteq> k_free_set s"
      using p by (auto simp: slab_frame_def)
    let ?S = "S(n := S')" and ?fl = "fl(n := fl')" and ?ps = "ps(n := ps')"
    have lv: "live ?S ?fl = (live S fl)(n := insert x (live S fl n))" using p by (intro live_upd) simp
    have pn: "page_no s1 a = page_no s a" for a using hh by (simp add: page_no_def)
    have rb: "run_base s1 k = run_base s k" for k using hh by (simp add: run_base_def)
    have "cache_rep_but {} s1 (cs ! i) (?S i) (?fl i) (?ps i) \<and> kc_size (cache_pool s1 ! (cs ! i)) = kmalloc_sizes ! i
        \<and> (live ?S ?fl i \<noteq> {} \<longrightarrow> 3 \<le> i)" if i: "i < 26" for i
    proof (cases "i = n")
      case True
      then show ?thesis using p n C(2) slab_frame_size [OF fr] by simp
    next
      case False
      have ne: "cs ! n \<noteq> cs ! i" using False layoutD(2,3) [OF L] i n(1) by (simp add: nth_eq_iff_index_eq)
      have "b \<notin> S i" if "b \<in> S' - S n" for b
      proof
        assume "b \<in> S i"
        then have "used_page s b" using cache_rep_butD(4) [OF C(1) [OF i] refl] by (simp add: slab_ok_def)
        then show False using new that by (auto simp: used_page_def)
      qed
      moreover have "S i \<inter> S n = {}" by (rule cache_rep_disjoint [OF C(1) [OF i] C(1) [OF n(1)] ne [symmetric]])
      ultimately have "S i \<inter> S' = {}" by auto
      then have "cache_rep_but {} s1 (cs ! i) (S i) (fl i) (ps i)"
        by (rule cache_rep_other [OF C(1) [OF i] fr ne _ pages free])
      moreover have "live S fl i \<noteq> {} \<longrightarrow> 3 \<le> i" using layoutD(4) [OF L] i by (simp add: classes_ok_def)
      ultimately show ?thesis using False C(2) [OF i] slab_frame_pool [OF fr ne] by simp
    qed
    then have cl: "classes_ok cs s1 ?S ?fl ?ps" by (simp add: classes_ok_def)
    have L1: "layout cs s1 ?S ?fl ?ps R"
      unfolding layout_def
    proof (intro conjI ballI)
      fix kn assume "kn \<in> R"
      then obtain k m where kn: "kn = (k, m)" "(k, m) \<in> R" by (cases kn) auto
      note r = layoutD(6) [OF L kn(2)]
      have "page_no s a \<notin> run_of k m" if "i < 26" "a \<in> ?S i" for i a
        using r new that by (cases "i = n"; cases "a \<in> S n") auto
      then show "case kn of (k, m) \<Rightarrow> 0 < k \<and> 0 < m \<and> k + m \<le> k_pages s1 \<and> run_of k m \<inter> k_free_set s1 = {}
          \<and> (\<forall>i<26. \<forall>a\<in>?S i. page_no s1 a \<notin> run_of k m)"
        using r pages free by (auto simp: kn(1) pn)
    qed (use L cl p in \<open>auto simp: layout_def\<close>)
    have H1: "headers_but {x} s1 ?S ?fl R"
    proof (rule headers_but_keep [OF H _ subset_refl rb])
      show "live ?S ?fl i \<subseteq> live S fl i \<union> {x}" for i using fun_cong [OF lv, of i] by auto
      show "header_type s1 y = header_type s y \<and> header_value s1 y = header_value s y" if "place s S fl R y" for y
        using kmem_cache_alloc_mem [OF layoutD(1) [OF L] C(1) [OF n(1)] run] place_in_use [OF L that]
        by (simp add: header_type_def header_value_def)
    qed
    have "x \<notin> live S fl n" using p by blast
    then show ?thesis by (rule that [OF L1 H1 _ lv hh])
  qed
qed

lemma slab_free_step:
  assumes L: "layout cs s S fl ps R" and H: "headers_but {} s S fl R" and n: "n < 26" and x: "x \<in> live S fl n"
  obtains s1 fl2 ps2 where "kmem_cache_free s (cs ! n) x = Some s1" "layout cs s1 S fl2 ps2 R" "headers_but {} s1 S fl2 R"
    "live S fl2 = (live S fl)(n := live S fl n - {x})" "hhdm s1 = hhdm s"
proof -
  have C: "cache_rep_but {} s (cs ! i) (S i) (fl i) (ps i)" "kc_size (cache_pool s ! (cs ! i)) = kmalloc_sizes ! i"
    if "i < 26" for i using layoutD(4) [OF L] that by (auto simp: classes_ok_def)
  have xl: "x \<in> slab_live (kc_size (cache_pool s ! (cs ! n))) (S n) (fl n)" using x C(2) [OF n] by simp
  obtain s1 fl' ps' where run: "kmem_cache_free s (cs ! n) x = Some s1" and p: "cache_free_post s (cs ! n) (S n) (fl n) x s1 fl' ps'"
    by (rule kmem_cache_free_correct [OF layoutD(1) [OF L] C(1) [OF n] xl])
  note p = p [unfolded cache_free_post_def Let_def C(2) [OF n]]
  have fr: "slab_frame s s1 (cs ! n) (S n)" and pm: "pmm s1 = pmm s" and hh: "hhdm s1 = hhdm s"
    using p by (auto simp: slab_frame_def)
  let ?fl = "fl(n := fl')" and ?ps = "ps(n := ps')"
  have lv: "live S ?fl = (live S fl)(n := live S fl n - {x})" using live_upd [of n "S n" fl' _ S fl] p by simp
  have pn: "page_no s1 a = page_no s a" for a using hh by (simp add: page_no_def)
  have rb: "run_base s1 k = run_base s k" for k using hh by (simp add: run_base_def)
  have "cache_rep_but {} s1 (cs ! i) (S i) (?fl i) (?ps i) \<and> kc_size (cache_pool s1 ! (cs ! i)) = kmalloc_sizes ! i
      \<and> (live S ?fl i \<noteq> {} \<longrightarrow> 3 \<le> i)" if i: "i < 26" for i
  proof (cases "i = n")
    case True
    have "3 \<le> n" using layoutD(4) [OF L] n x by (auto simp: classes_ok_def)
    then show ?thesis using True p n C(2) slab_frame_size [OF fr] by simp
  next
    case False
    have ne: "cs ! n \<noteq> cs ! i" using False layoutD(2,3) [OF L] i n by (simp add: nth_eq_iff_index_eq)
    have "S i \<inter> S n = {}" by (rule cache_rep_disjoint [OF C(1) [OF i] C(1) [OF n] ne [symmetric]])
    then have "cache_rep_but {} s1 (cs ! i) (S i) (fl i) (ps i)"
      using cache_rep_other [OF C(1) [OF i] fr ne] k_of_pmm(1,2) [OF pm] by simp
    moreover have "live S fl i \<noteq> {} \<longrightarrow> 3 \<le> i" using layoutD(4) [OF L] i by (simp add: classes_ok_def)
    ultimately show ?thesis using False C(2) [OF i] slab_frame_pool [OF fr ne] by simp
  qed
  then have cl: "classes_ok cs s1 S ?fl ?ps" by (simp add: classes_ok_def)
  have L1: "layout cs s1 S ?fl ?ps R"
    using L cl p k_of_pmm(1,2) [OF pm] pn by (simp add: layout_def)
  have px: "place s S fl R x" using n x by (auto simp: place_def)
  have "headers_but {x} s1 S ?fl R"
  proof (rule headers_but_keep [OF H _ subset_refl rb])
    show "live S ?fl i \<subseteq> live S fl i \<union> {x}" for i using fun_cong [OF lv, of i] by auto
    show "header_type s1 y = header_type s y \<and> header_value s1 y = header_value s y" if "place s S fl R y" "y \<notin> {x}" for y
      using kmem_cache_free_mem [OF run, of y] kmem_cache_free_mem [OF run, of "y + 8"] places_apart [OF L that(1) px] that(2)
      by (auto simp: header_type_def header_value_def)
  qed
  have "y \<noteq> x" if "i < 26" "i \<noteq> n" "y \<in> live S fl i" for i y
    using live_class [OF L that(1) _ n x] that(2,3) by blast
  moreover have "run_base s k \<noteq> x" if "(k, m) \<in> R" for k m
    using live_not_run [OF L n x that] by simp
  ultimately have "\<not> place s1 S ?fl R x"
    using fun_cong [OF lv] unfolding place_def rb by (auto split: if_splits)
  then have H2: "headers_but {} s1 S ?fl R" by (rule headers_but_drop [OF \<open>headers_but {x} s1 S ?fl R\<close>])
  show ?thesis by (rule that [OF run L1 H2 lv hh])
qed

section \<open>Runs of pages\<close>

lemma cache_rep_but_pmm:
  assumes r: "cache_rep_but X s c S fl ps" and t: "total_pages p = total_pages (pmm s)"
    and f: "\<And>a. a \<in> S \<Longrightarrow> page_no s a \<notin> pmm_free_set p"
  shows "cache_rep_but X (s\<lparr>pmm := p\<rparr>) c S fl ps"
proof -
  note r = cache_rep_butD [OF r refl]
  have "slab_ok (s\<lparr>pmm := p\<rparr>) c z a l" if "slab_ok s c z a l" "a \<in> S" for z a l
    using that f [OF that(2)] t by (simp add: slab_ok_def used_page_def page_no_def k_pages_def k_free_set_def)
  then show ?thesis by (intro cache_rep_butI [where kc = "cache_pool s ! c"]) (use r in auto)
qed

lemma layout_pmm:
  assumes L: "layout cs s S fl ps R" and p: "pmm_inv p" "total_pages p = total_pages (pmm s)"
    and f: "\<And>i a. i < 26 \<Longrightarrow> a \<in> S i \<Longrightarrow> page_no s a \<notin> pmm_free_set p"
    and R: "runs_apart R2" "\<And>k n. (k, n) \<in> R2 \<Longrightarrow> 0 < k \<and> 0 < n \<and> k + n \<le> k_pages s \<and> run_of k n \<inter> pmm_free_set p = {}
      \<and> (\<forall>i<26. \<forall>a\<in>S i. page_no s a \<notin> run_of k n)"
  shows "layout cs (s\<lparr>pmm := p\<rparr>) S fl ps R2"
proof -
  have "k_inv (s\<lparr>pmm := p\<rparr>)" using layoutD(1) [OF L] p by (simp add: k_inv_def)
  moreover have "classes_ok cs (s\<lparr>pmm := p\<rparr>) S fl ps"
    using layoutD(4) [OF L] f cache_rep_but_pmm [OF _ p(2)] by (auto simp: classes_ok_def)
  ultimately show ?thesis
    using layoutD(2,3) [OF L] R p(2) by (auto simp: layout_def page_no_def k_pages_def k_free_set_def)
qed

lemma page_in_use: "layout cs s S fl ps R \<Longrightarrow> i < 26 \<Longrightarrow> a \<in> S i \<Longrightarrow> page_no s a \<notin> k_free_set s"
proof -
  assume L: "layout cs s S fl ps R" and i: "i < 26" "a \<in> S i"
  have "cache_rep_but {} s (cs ! i) (S i) (fl i) (ps i)" using layoutD(4) [OF L] i(1) by (simp add: classes_ok_def)
  from cache_rep_butD(4) [OF this refl i(2)] show ?thesis by (simp add: slab_ok_def used_page_def)
qed

lemma run_base_pmm [simp]: "run_base (s\<lparr>pmm := p\<rparr>) k = run_base s k"
  by (simp add: run_base_def)

lemma run_step:
  assumes L: "layout cs s S fl ps R" and H: "headers_but {} s S fl R" and c: "count \<noteq> 0"
    and run: "k_alloc_pages s count = Some (phys, s1)"
  obtains (oom) "phys = 0" "s1 = s"
  | (pages) k where "phys_to_higher_half_data s1 phys = run_base s k" "run_base s k \<noteq> 0" "phys \<noteq> 0" "run_base s1 k = run_base s k"
      "layout cs s1 S fl ps (insert (k, unat count) R)" "headers_but {run_base s k} s1 S fl (insert (k, unat count) R)"
      "(k, unat count) \<notin> R" "\<not> place s S fl R (run_base s k)" "hhdm s1 = hhdm s"
proof -
  have inv: "pmm_inv (pmm s)" using layoutD(1) [OF L] by (simp add: k_inv_def)
  obtain q where q: "pmm_alloc_pages (pmm s) count = Some (phys, q)" "s1 = s\<lparr>pmm := q\<rparr>"
    using run by (auto simp: k_alloc_pages_def bind_eq_Some_conv)
  consider "phys = 0" "q = pmm s"
    | k where "k \<noteq> 0" "alloc_run_post (pmm s) k (unat count) phys q"
    using pmm_alloc_pages_correct [OF inv c] q(1) by auto
  then show ?thesis
  proof cases
    case 1
    then show ?thesis using oom q(2) by simp
  next
    case (2 k)
    let ?n = "unat count"
    have p: "pmm_inv q" "total_pages q = total_pages (pmm s)" "unat phys = 4096 * k"
      "run_of k ?n \<subseteq> k_free_set s" "pmm_free_set q = k_free_set s - run_of k ?n"
      using 2(2) by (simp_all add: alloc_run_post_def k_free_set_def)
    have n: "0 < ?n" using c by (simp add: unat_gt_0)
    then have "k + ?n - 1 \<in> run_of k ?n" "k \<in> run_of k ?n" by (auto simp: run_of_def)
    then have kn: "k + ?n \<le> k_pages s" "k < k_pages s"
      using kpg.avail_range [OF layoutD(1) [OF L]] p(4) n by fastforce+
    have "phys = of_nat (4096 * k)" using of_nat_unat_id [of phys] unfolding p(3) by (rule sym)
    then have h: "phys_to_higher_half_data s1 phys = run_base s k"
      unfolding phys_to_higher_half_data_def run_base_def q(2) by simp
    have k0: "0 < k" using 2(1) by simp
    have b: "run_base s k \<noteq> 0" using run_base_page(2) [OF layoutD(1) [OF L] kn(2) k0] by (simp add: slab_page_def)
    have new: "run_of k ?n \<inter> run_of l m = {}" if "(l, m) \<in> R" for l m using layoutD(6) [OF L that] p(4) by blast
    have nR: "(k, ?n) \<notin> R" using new \<open>k \<in> run_of k ?n\<close> by blast
    have ap: "runs_apart (insert (k, ?n) R)"
      using layoutD(5) [OF L] new unfolding runs_apart_def by (auto simp: Int_commute)
    have sl: "page_no s a \<notin> run_of k ?n" if "i < 26" "a \<in> S i" for i a using page_in_use [OF L that] p(4) by blast
    have L1: "layout cs s1 S fl ps (insert (k, ?n) R)"
      unfolding q(2)
    proof (rule layout_pmm [OF L p(1,2) _ ap])
      show "page_no s a \<notin> pmm_free_set q" if "i < 26" "a \<in> S i" for i a using page_in_use [OF L that] p(5) by simp
      show "0 < l \<and> 0 < m \<and> l + m \<le> k_pages s \<and> run_of l m \<inter> pmm_free_set q = {} \<and> (\<forall>i<26. \<forall>a\<in>S i. page_no s a \<notin> run_of l m)"
        if "(l, m) \<in> insert (k, ?n) R" for l m
        using that layoutD(6) [OF L, of l m] k0 n kn(1) sl p(5) by auto
    qed
    have np: "\<not> place s S fl R (run_base s k)"
    proof
      assume pl: "place s S fl R (run_base s k)"
      have "page_base (run_base s k) = run_base s k" by (rule page_base_self [OF run_base_page(2) [OF layoutD(1) [OF L] kn(2) k0]])
      then have "k \<notin> k_free_set s" using place_in_use(1) [OF L pl] run_base_page(1) [OF layoutD(1) [OF L] kn(2) k0] by simp
      then show False using p(4) \<open>k \<in> run_of k ?n\<close> by blast
    qed
    have "headers_but {run_base s k} s1 S fl (insert (k, ?n) R)"
      using H unfolding headers_but_def q(2) by (auto simp: header_type_def header_value_def)
    moreover have "phys \<noteq> 0" using k0 p(3) by auto
    ultimately show ?thesis by (intro pages [OF h b _ _ L1 _ nR np]) (simp_all add: q(2))
  qed
qed

lemma run_free_step:
  assumes L: "layout cs s S fl ps R" and H: "headers_but {} s S fl R" and r: "(k, n) \<in> R"
  obtains s1 where "k_free_pages s (higher_half_data_to_phys s (run_base s k)) (of_nat n) = Some s1"
    "layout cs s1 S fl ps (R - {(k, n)})" "headers_but {} s1 S fl (R - {(k, n)})" "hhdm s1 = hhdm s" "\<And>j. run_base s1 j = run_base s j"
proof -
  have inv: "pmm_inv (pmm s)" using layoutD(1) [OF L] by (simp add: k_inv_def)
  note rk = layoutD(6) [OF L r]
  have kp: "k + n \<le> 2 ^ 31" using rk kpg.pages_bound [OF layoutD(1) [OF L]] by linarith
  have a: "higher_half_data_to_phys s (run_base s k) = of_nat (4096 * k)" by (simp add: higher_half_data_to_phys_def run_base_def)
  have ua: "unat (of_nat (4096 * k) :: u64) = 4096 * k" "unat (of_nat n :: u64) = n"
    by (rule of_nat_inverse [OF refl]; use kp in simp)+
  have "PAGE_SIZE \<le> of_nat (4096 * k)" using ua(1) rk by (simp only: word_le_nat_alt unat_PAGE_SIZE) simp
  moreover have "unat (of_nat (4096 * k) :: u64) div 4096 + unat (of_nat n :: u64) < 2 ^ 64" unfolding ua using kp by simp
  ultimately obtain q where q: "pmm_free_pages (pmm s) (of_nat (4096 * k)) (of_nat n) = Some q" "pmm_inv q"
    "total_pages q = total_pages (pmm s)" "pmm_free_set q = k_free_set s \<union> {j \<in> run_of k n. j < k_pages s}"
    using pmm_free_pages_correct [OF inv, of "of_nat (4096 * k)" "of_nat n"] unfolding ua by (auto simp: k_free_set_def k_pages_def)
  let ?s1 = "s\<lparr>pmm := q\<rparr>"
  have ap: "runs_apart (R - {(k, n)})" using layoutD(5) [OF L] unfolding runs_apart_def by blast
  have dis: "run_of l m \<inter> run_of k n = {}" if "(l, m) \<in> R - {(k, n)}" for l m
    using layoutD(5) [OF L] r that unfolding runs_apart_def by blast
  have "layout cs ?s1 S fl ps (R - {(k, n)})"
  proof (rule layout_pmm [OF L q(2,3) _ ap])
    show "page_no s a \<notin> pmm_free_set q" if "i < 26" "a \<in> S i" for i a
      using page_in_use [OF L that] q(4) rk that by auto
    show "0 < l \<and> 0 < m \<and> l + m \<le> k_pages s \<and> run_of l m \<inter> pmm_free_set q = {} \<and> (\<forall>i<26. \<forall>a\<in>S i. page_no s a \<notin> run_of l m)"
      if "(l, m) \<in> R - {(k, n)}" for l m
      using layoutD(6) [OF L, of l m] dis [OF that] that q(4) by blast
  qed
  moreover have "headers_but {} ?s1 S fl (R - {(k, n)})"
    using H unfolding headers_but_def by (auto simp: header_type_def header_value_def)
  moreover have "k_free_pages s (higher_half_data_to_phys s (run_base s k)) (of_nat n) = Some ?s1"
    unfolding a k_free_pages_def q(1) by simp
  ultimately show ?thesis using that [of ?s1] by simp
qed

end
