(* ===== verification/Kmalloc_Rep.thy ===== *)
theory Kmalloc_Rep
  imports Kmalloc_Ops
begin

text \<open>
  \<open>kmalloc\<close> and \<open>kfree\<close> implement the contract of a block allocator.
\<close>

section \<open>Blocks and their headers\<close>

lemma blocks_of_whole:
  "(p, m) \<in> blocks_of s (live S fl) R \<longleftrightarrow> (\<exists>x t. whole s S fl R x t \<and> p = x + 16 \<and> m = t - 16)"
proof
  assume "(p, m) \<in> blocks_of s (live S fl) R"
  then show "\<exists>x t. whole s S fl R x t \<and> p = x + 16 \<and> m = t - 16"
    unfolding blocks_of_def whole_def by (elim UnE CollectE exE conjE) blast+
qed (auto simp: blocks_of_def whole_def)

lemma whole_end:
  assumes L: "layout cs s S fl ps R" and w: "whole s S fl R x t"
  shows "unat x + t \<le> 2 ^ 64" "unat (x + 16) = unat x + 16"
proof -
  have k: "unat (hhdm s) + 4096 * k_pages s \<le> 2 ^ 64"
    using layoutD(1) [OF L] by (simp add: k_inv_def k_pages_def)
  have "unat x + t \<le> unat (hhdm s) + 4096 * k_pages s"
    using w unfolding whole_def
  proof (elim disjE exE conjE)
    fix i assume i: "i < 26" "x \<in> live S fl i" "t = unat (kmalloc_sizes ! i)"
    obtain a where a: "used_page s a" "within s x (unat (kmalloc_sizes ! i)) (page_no s a) 1"
      by (rule live_within [OF L i(1,2)]) (rule that)
    have "4096 * (page_no s a + 1) \<le> 4096 * k_pages s" using a(1) by (simp add: used_page_def)
    then show ?thesis using a(2) i(3) unfolding within_def by linarith
  next
    fix j n assume r: "(j, n) \<in> R" "x = run_base s j" "t = 4096 * n"
    have "4096 * (j + n) \<le> 4096 * k_pages s" using layoutD(6) [OF L r(1)] by simp
    moreover have "4096 * (j + n) = 4096 * j + 4096 * n" by simp
    ultimately show ?thesis using run_place(4) [OF L r(1)] unfolding r(2,3) by linarith
  qed
  then show e: "unat x + t \<le> 2 ^ 64" using k by linarith
  have "unat x + 16 < 2 ^ 64" using e whole_size [OF L w] by linarith
  then show "unat (x + 16) = unat x + 16" using unat_add_no_wrap [of x 16] by simp
qed

lemma whole_header: "whole (write_header s y ty v) S fl R x t \<longleftrightarrow> whole s S fl R x t"
  by (auto simp: whole_def run_base_def write_header_def write_cell_def)

lemma run_unique:
  assumes L: "layout cs s S fl ps R" and r: "(k, n) \<in> R" "(l, m) \<in> R" "run_base s k = run_base s l"
  shows "(k, n) = (l, m)"
proof -
  have "k = l" using run_place(1) [OF L r(1)] run_place(1) [OF L r(2)] unfolding r(3) by (rule trans [OF sym])
  moreover have "k \<in> run_of k n" "l \<in> run_of l m" by (rule run_place(3) [OF L r(1)], rule run_place(3) [OF L r(2)])
  ultimately have "run_of k n \<inter> run_of l m \<noteq> {}" by blast
  then show ?thesis using layoutD(5) [OF L] r(1,2) unfolding runs_apart_def by blast
qed

text \<open>A header place belongs to one block.\<close>

lemma whole_unique:
  assumes L: "layout cs s S fl ps R" and w: "whole s S fl R x t" "whole s S fl R x u"
  shows "t = u"
  using w unfolding whole_def
proof (elim disjE exE conjE)
  fix i j assume i: "i < 26" "x \<in> live S fl i" "t = unat (kmalloc_sizes ! i)"
    and j: "j < 26" "x \<in> live S fl j" "u = unat (kmalloc_sizes ! j)"
  then show ?thesis using live_class [OF L i(1,2) j(1,2)] by simp
next
  fix i k n assume "i < 26" "x \<in> live S fl i" "(k, n) \<in> R" "x = run_base s k"
  then show ?thesis using live_not_run [OF L] by blast
next
  fix i k n assume "i < 26" "x \<in> live S fl i" "(k, n) \<in> R" "x = run_base s k"
  then show ?thesis using live_not_run [OF L] by blast
next
  fix k n l m assume r: "(k, n) \<in> R" "x = run_base s k" "t = 4096 * n" and q: "(l, m) \<in> R" "x = run_base s l" "u = 4096 * m"
  have "(k, n) = (l, m)" using run_unique [OF L r(1) q(1)] r(2) q(2) by simp
  then show ?thesis using r(3) q(3) by simp
qed

lemma heap_repI:
  assumes "layout (kmalloc_caches h) (heap h) S fl ps R" "headers_but {} (heap h) S fl R"
    "\<And>p m. B p = Some m \<longleftrightarrow> (\<exists>x t. whole (heap h) S fl R x t \<and> p = x + 16 \<and> m = t - 16)"
  shows "heap_rep h B"
  using assms heap_ok_layout [of h S fl ps R] unfolding heap_rep_def blocks_of_whole by blast

lemma heap_repE:
  assumes "heap_rep h B"
  obtains S fl ps R where "layout (kmalloc_caches h) (heap h) S fl ps R" "headers_but {} (heap h) S fl R"
    "\<And>p m. B p = Some m \<longleftrightarrow> (\<exists>x t. whole (heap h) S fl R x t \<and> p = x + 16 \<and> m = t - 16)"
  using assms heap_ok_layout unfolding heap_rep_def blocks_of_whole by blast

lemma heap_rep_nonnull:
  assumes "heap_rep h B"
  shows "0 \<notin> dom B"
proof
  assume "0 \<in> dom B"
  obtain S fl ps R where r: "layout (kmalloc_caches h) (heap h) S fl ps R"
    "\<And>p m. B p = Some m \<longleftrightarrow> (\<exists>x t. whole (heap h) S fl R x t \<and> p = x + 16 \<and> m = t - 16)"
    by (rule heap_repE [OF assms]) (rule that)
  obtain m where "B 0 = Some m" using \<open>0 \<in> dom B\<close> by blast
  then obtain x t where w: "whole (heap h) S fl R x t" "0 = x + 16" using r(2) by blast
  show False using whole_end(2) [OF r(1) w(1)] w(2) [symmetric] by simp
qed

lemma heap_rep_apart:
  assumes rep: "heap_rep h B" and p: "B p = Some m" and q: "B q = Some k" and lt: "unat p < unat q"
  shows "unat p + m + 16 \<le> unat q"
proof -
  obtain S fl ps R where r: "layout (kmalloc_caches h) (heap h) S fl ps R"
    "\<And>p m. B p = Some m \<longleftrightarrow> (\<exists>x t. whole (heap h) S fl R x t \<and> p = x + 16 \<and> m = t - 16)"
    by (rule heap_repE [OF rep]) (rule that)
  obtain x t where x: "whole (heap h) S fl R x t" "p = x + 16" "m = t - 16" using p unfolding r(2) by blast
  obtain y u where y: "whole (heap h) S fl R y u" "q = y + 16" "k = u - 16" using q unfolding r(2) by blast
  note e = whole_end(2) [OF r(1) x(1)] whole_end(2) [OF r(1) y(1)]
  have "unat x < unat y" using lt x(2) y(2) e by simp
  then have "unat x + t \<le> unat y" by (rule whole_apart [OF r(1) x(1) y(1)])
  then show ?thesis using x(2,3) y(2) e whole_size [OF r(1) x(1)] by simp
qed

section \<open>Allocation\<close>

text \<open>Requests up to \<open>2 ^ 42\<close> bytes: the number of pages fits an \<open>int\<close>.\<close>

lemma unat_ALIGN_UP_16:
  assumes "unat (x :: u64) + 15 < 2 ^ 64"
  shows "unat (ALIGN_UP x 16) = 16 * ((unat x + 15) div 16)"
proof -
  have "ALIGN_UP x 16 = ALIGN_DOWN (x + 15) (2 ^ 4)"
    by (simp add: ALIGN_UP_def ALIGN_DOWN_def add_diff_eq add.commute)
  moreover have "unat (x + 15) = unat x + 15"
    using unat_add_no_wrap [of x 15] assms by simp
  ultimately show ?thesis
    using unat_align_down_pow2 [of 4 "x + 15"] by (simp add: minus_mod_eq_mult_div)
qed

lemma kmalloc_total:
  assumes "unat n \<le> 2 ^ 42" "n \<noteq> 0"
  defines "t \<equiv> unat (ALIGN_UP (n + sizeof_alloc_header) 16)"
  shows "unat n + 16 \<le> t" "t < unat n + 32" "32 \<le> t"
proof -
  have n: "0 < unat n" using assms(2) by (simp add: unat_gt_0)
  have "unat (n + 16) = unat n + 16" using unat_add_no_wrap [of n 16] assms(1) by simp
  then have t: "t = 16 * ((unat n + 31) div 16)"
    using unat_ALIGN_UP_16 [of "n + 16"] assms(1) unfolding t_def sizeof_alloc_header_def by simp
  show "unat n + 16 \<le> t" "t < unat n + 32" unfolding t by simp_all
  show "32 \<le> t" using n unfolding t by simp
qed

lemma int_of_small:
  assumes "k < 2 ^ 31"
  shows "(scast (ucast (of_nat k :: u64) :: u32) :: u64) = of_nat k"
proof -
  have k: "take_bit 64 k = k" using assms by (simp add: take_bit_nat_eq_self_iff)
  have "(ucast (of_nat k :: u64) :: u32) = of_nat k" by (simp add: unsigned_of_nat k)
  moreover have "sint (of_nat k :: u32) = int k"
    using assms by (simp add: signed_of_nat signed_take_bit_int_eq_self)
  ultimately show ?thesis by (simp add: scast_eq)
qed

lemma kmalloc_pages:
  assumes "unat (t :: u64) < 2 ^ 43 - 4096"
  shows "unat (scast (ucast ((t + PAGE_SIZE - 1) div PAGE_SIZE) :: u32) :: u64) = (unat t + 4095) div 4096"
proof -
  let ?k = "(unat t + 4095) div 4096"
  have "unat (t + 4095) = unat t + 4095" using unat_add_no_wrap [of t 4095] assms by simp
  moreover have "t + PAGE_SIZE - 1 = t + 4095" by (simp add: PAGE_SIZE_def)
  ultimately have "unat ((t + PAGE_SIZE - 1) div PAGE_SIZE) = ?k" by (simp only: unat_div unat_PAGE_SIZE)
  then have d: "(t + PAGE_SIZE - 1) div PAGE_SIZE = of_nat ?k" by (metis of_nat_unat_id)
  have k: "?k < 2 ^ 31" using assms by simp
  show ?thesis unfolding d int_of_small [OF k] by (rule of_nat_inverse [OF refl]) (use k in simp)
qed

text \<open>No run of \<open>m\<close> free pages is left from the index on where the search starts.\<close>

definition no_run :: "kheap \<Rightarrow> nat \<Rightarrow> bool" where
  "no_run h m \<longleftrightarrow> (\<forall>k. unat (cached_index (pmm (heap h))) \<le> k \<longrightarrow> \<not> run_of k m \<subseteq> k_free_set (heap h))"

text \<open>The number of pages that hold a request of \<open>n\<close> bytes with its header.\<close>

definition request_pages :: "u64 \<Rightarrow> nat" where
  "request_pages n = (unat (ALIGN_UP (n + sizeof_alloc_header) 16) + 4095) div 4096"

text \<open>What a block handed out does to the set of blocks.\<close>

lemma heap_rep_new:
  assumes L: "layout cs s S fl ps R" and B: "\<And>p m. B p = Some m \<longleftrightarrow> (\<exists>x t. whole s S fl R x t \<and> p = x + 16 \<and> m = t - 16)"
    and L1: "layout (kmalloc_caches h1) (heap h1) S2 fl2 ps2 R2" and H1: "headers_but {} (heap h1) S2 fl2 R2"
    and w: "\<And>y u. whole (heap h1) S2 fl2 R2 y u \<longleftrightarrow> whole s S fl R y u \<or> y = x \<and> u = t" and new: "\<not> place s S fl R x"
  shows "x + 16 \<noteq> 0 \<and> x + 16 \<notin> dom B \<and> heap_rep h1 (B(x + 16 \<mapsto> t - 16))"
proof -
  have nd: "x + 16 \<notin> dom B" using new B by (auto simp: place_whole)
  have B1: "(B(x + 16 \<mapsto> t - 16)) p = Some m \<longleftrightarrow> (\<exists>y u. whole (heap h1) S2 fl2 R2 y u \<and> p = y + 16 \<and> m = u - 16)" for p m
    using nd unfolding w by (auto simp: B domIff)
  have rep: "heap_rep h1 (B(x + 16 \<mapsto> t - 16))" by (rule heap_repI [OF L1 H1 B1])
  then show ?thesis using nd heap_rep_nonnull [OF rep] by auto
qed

lemma kmalloc_from_run:
  assumes r: "layout (kmalloc_caches h) (heap h) S fl ps R" "headers_but {} (heap h) S fl R"
    "\<And>p m. B p = Some m \<longleftrightarrow> (\<exists>x t. whole (heap h) S fl R x t \<and> p = x + 16 \<and> m = t - 16)"
    and n: "unat n \<le> 2 ^ 42" "n \<noteq> 0" and t_def: "t = ALIGN_UP (n + sizeof_alloc_header) 16"
    and large: "kmalloc_index t = - 1"
  shows "\<exists>p h'. kmalloc n h = Some (p, h') \<and>
    (if p = 0 then h' = h \<and> (n = 0 \<or> no_run h (request_pages n)) else p \<notin> dom B \<and> (\<exists>m\<ge>unat n. heap_rep h' (B(p \<mapsto> m))))"
proof -
  note t = kmalloc_total [OF n, folded t_def]
  define pages :: u64 where "pages = scast (ucast ((t + PAGE_SIZE - 1) div PAGE_SIZE) :: u32)"
  have up: "unat pages = (unat t + 4095) div 4096" unfolding pages_def using t(2) n(1) by (intro kmalloc_pages) simp
  have p0: "pages \<noteq> 0" using up t(3) by auto
  have inv: "pmm_inv (pmm (heap h))" using layoutD(1) [OF r(1)] by (simp add: k_inv_def)
  obtain phys s1 where run: "k_alloc_pages (heap h) pages = Some (phys, s1)"
    using pmm_alloc_pages_correct [OF inv p0] by (auto simp: k_alloc_pages_def)
  have k: "kmalloc n h = (if phys = 0 then Some (0, h\<lparr>heap := s1\<rparr>)
           else (let hdr = phys_to_higher_half_data s1 phys in
              if hdr = 0 then Some (0, h\<lparr>heap := s1\<rparr>)
              else Some (hdr + 16, h\<lparr>heap := write_header s1 hdr PAGE_BACKED pages\<rparr>)))"
    using n(2) large run unfolding kmalloc_def Let_def t_def [symmetric] pages_def [symmetric]
    by (simp add: sizeof_alloc_header_def)
  show ?thesis
  proof (cases rule: run_step [OF r(1,2) p0 run])
    case 1
    have "\<forall>k. unat (cached_index (pmm (heap h))) \<le> k \<longrightarrow> \<not> run_of k (unat pages) \<subseteq> pmm_free_set (pmm (heap h))"
      using pmm_alloc_pages_correct [OF inv p0] run 1(1) by (auto simp: k_alloc_pages_def alloc_run_post_def)
    then show ?thesis using k 1 unfolding no_run_def request_pages_def t_def [symmetric] up [symmetric] k_free_set_def by simp
  next
    case (2 j)
    let ?R = "insert (j, unat pages) R" and ?x = "run_base (heap h) j"
    let ?h1 = "h\<lparr>heap := write_header s1 ?x PAGE_BACKED pages\<rparr>"
    have rb: "run_base s1 i = run_base (heap h) i" for i using 2(9) by (simp add: run_base_def)
    have res: "kmalloc n h = Some (?x + 16, ?h1)" using k 2(1-3) by (simp add: Let_def)
    have pl: "place s1 S fl ?R ?x" using 2(4) by (auto simp: place_def)
    have "PAGE_BACKED = PAGE_BACKED \<and> pages = of_nat m" if "(i, m) \<in> ?R" "?x = run_base s1 i" for i m
      using that 2(8) by (auto simp: rb place_def)
    moreover have "?x \<notin> live S fl i" if "i < 26" for i using 2(8) that by (auto simp: place_def)
    ultimately have W: "layout (kmalloc_caches ?h1) (heap ?h1) S fl ps ?R" "headers_but {} (heap ?h1) S fl ?R"
      using write_header_ok [OF 2(5) pl 2(6), of PAGE_BACKED pages] by auto
    have w: "whole (heap ?h1) S fl ?R y u \<longleftrightarrow> whole (heap h) S fl R y u \<or> y = ?x \<and> u = 4096 * unat pages" for y u
      using whole_header [of s1 ?x PAGE_BACKED pages S fl ?R y u] by (auto simp: whole_def rb)
    have "unat n \<le> 4096 * unat pages - 16" using t(1) unfolding up by simp
    then show ?thesis using heap_rep_new [OF r(1,3) W w 2(8)] res by auto
  qed
qed

lemma kmalloc_from_slab:
  assumes r: "layout (kmalloc_caches h) (heap h) S fl ps R" "headers_but {} (heap h) S fl R"
    "\<And>p m. B p = Some m \<longleftrightarrow> (\<exists>x t. whole (heap h) S fl R x t \<and> p = x + 16 \<and> m = t - 16)"
    and n: "unat n \<le> 2 ^ 42" "n \<noteq> 0" and t_def: "t = ALIGN_UP (n + sizeof_alloc_header) 16"
    and fits: "i < 26" "kmalloc_index t = int i" "t \<le> kmalloc_sizes ! i"
  shows "\<exists>p h'. kmalloc n h = Some (p, h') \<and>
    (if p = 0 then h' = h \<and> (n = 0 \<or> no_run h (request_pages n)) else p \<notin> dom B \<and> (\<exists>m\<ge>unat n. heap_rep h' (B(p \<mapsto> m))))"
proof -
  note t = kmalloc_total [OF n, folded t_def]
  have i3: "3 \<le> i"
  proof (rule ccontr)
    assume "\<not> 3 \<le> i"
    then have "kmalloc_sizes ! i \<le> kmalloc_sizes ! 2" by (intro sizes_mono) auto
    then show False using fits(3) t(3) by (simp add: kmalloc_sizes_def word_le_nat_alt)
  qed
  have cr: "cache_rep_but {} (heap h) (kmalloc_caches h ! i) (S i) (fl i) (ps i)"
    using layoutD(4) [OF r(1)] fits(1) by (simp add: classes_ok_def)
  obtain x s1 where run: "kmem_cache_alloc (heap h) (kmalloc_caches h ! i) = Some (x, s1)"
    "x = 0 \<Longrightarrow> s1 = heap h \<and> k_free_set (heap h) = {}"
    by (cases rule: kmem_cache_alloc_correct [OF layoutD(1) [OF r(1)] cr]) auto
  have k: "kmalloc n h = (if x = 0 then Some (0, h\<lparr>heap := s1\<rparr>)
      else Some (x + 16, h\<lparr>heap := write_header s1 x SLAB_BACKED (of_nat i)\<rparr>))"
    using n(2) fits(2) run unfolding kmalloc_def Let_def t_def [symmetric] by (simp add: sizeof_alloc_header_def)
  show ?thesis
  proof (cases "x = 0")
    case True
    have "0 < (unat t + 4095) div 4096" using t(3) by (simp add: div_greater_zero_iff)
    then have "no_run h (request_pages n)"
      using run(2) [OF True] unfolding no_run_def request_pages_def t_def [symmetric] by (auto simp: run_of_def)
    then show ?thesis using True k run(2) by simp
  next
    case x: False
    obtain S2 fl2 ps2 where st: "layout (kmalloc_caches h) s1 S2 fl2 ps2 R" "headers_but {x} s1 S2 fl2 R" "x \<notin> live S fl i"
      "live S2 fl2 = (live S fl)(i := insert x (live S fl i))" "hhdm s1 = hhdm (heap h)"
      by (rule slab_step [OF r(1,2) fits(1) i3 run(1) x]) (rule that)
    let ?h1 = "h\<lparr>heap := write_header s1 x SLAB_BACKED (of_nat i)\<rparr>"
    have rb: "run_base s1 j = run_base (heap h) j" for j using st(5) by (simp add: run_base_def)
    have lv: "x \<in> live S2 fl2 i" using fun_cong [OF st(4), of i] by simp
    have pl: "place s1 S2 fl2 R x" using lv fits(1) by (auto simp: place_def)
    have "SLAB_BACKED = SLAB_BACKED \<and> (of_nat i :: u64) = of_nat j" if "j < 26" "x \<in> live S2 fl2 j" for j
      using live_class [OF st(1) fits(1) lv that] by simp
    moreover have nr: "x \<noteq> run_base s1 j" if "(j, m) \<in> R" for j m by (rule live_not_run [OF st(1) fits(1) lv that])
    ultimately have W: "layout (kmalloc_caches ?h1) (heap ?h1) S2 fl2 ps2 R" "headers_but {} (heap ?h1) S2 fl2 R"
      using write_header_ok [OF st(1) pl st(2), of SLAB_BACKED "of_nat i"] by auto
    have w: "whole (heap ?h1) S2 fl2 R y u \<longleftrightarrow> whole (heap h) S fl R y u \<or> y = x \<and> u = unat (kmalloc_sizes ! i)" for y u
      using whole_header [of s1 x SLAB_BACKED "of_nat i" S2 fl2 R y u] fits(1) by (auto simp: whole_def rb fun_cong [OF st(4)])
    have "x \<notin> live S fl j" if "j < 26" for j
    proof
      assume j: "x \<in> live S fl j"
      then have "x \<in> live S2 fl2 j" using fun_cong [OF st(4), of j] by simp
      then have "i = j" by (rule live_class [OF st(1) fits(1) lv that])
      then show False using j st(3) by simp
    qed
    then have np: "\<not> place (heap h) S fl R x" using nr by (auto simp: place_def rb)
    have "unat n \<le> unat (kmalloc_sizes ! i) - 16" using t(1) fits(3) by (simp add: word_le_nat_alt)
    then show ?thesis using heap_rep_new [OF r(1,3) W w np] k x by auto
  qed
qed

lemma kmalloc_correct:
  assumes rep: "heap_rep h B" and n: "unat n \<le> 2 ^ 42"
  shows "\<exists>p h'. kmalloc n h = Some (p, h') \<and>
    (if p = 0 then h' = h \<and> (n = 0 \<or> no_run h (request_pages n)) else p \<notin> dom B \<and> (\<exists>m\<ge>unat n. heap_rep h' (B(p \<mapsto> m))))"
proof (cases "n = 0")
  case True
  then show ?thesis by (simp add: kmalloc_def)
next
  case False
  obtain S fl ps R where r: "layout (kmalloc_caches h) (heap h) S fl ps R" "headers_but {} (heap h) S fl R"
    "\<And>p m. B p = Some m \<longleftrightarrow> (\<exists>x t. whole (heap h) S fl R x t \<and> p = x + 16 \<and> m = t - 16)"
    by (rule heap_repE [OF rep]) (rule that)
  define t where "t = ALIGN_UP (n + sizeof_alloc_header) 16"
  show ?thesis
    by (cases rule: kmalloc_index_cases [of t])
      (rule kmalloc_from_run [OF r n False t_def] kmalloc_from_slab [OF r n False t_def]; assumption)+
qed

section \<open>Release\<close>

lemma heap_rep_drop:
  assumes B: "\<And>p m. B p = Some m \<longleftrightarrow> (\<exists>x t. whole s S fl R x t \<and> p = x + 16 \<and> m = t - 16)"
    and L1: "layout (kmalloc_caches h1) (heap h1) S fl2 ps2 R2" and H1: "headers_but {} (heap h1) S fl2 R2"
    and w: "\<And>y u. whole (heap h1) S fl2 R2 y u \<longleftrightarrow> whole s S fl R y u \<and> y \<noteq> x"
  shows "heap_rep h1 (B(x + 16 := None))"
  by (rule heap_repI [OF L1 H1]) (auto simp: w B)

lemma kfree_correct:
  assumes rep: "heap_rep h B" and p: "p \<in> dom B"
  shows "\<exists>h'. kfree p h = Some h' \<and> heap_rep h' (B(p := None))"
proof -
  obtain S fl ps R where r: "layout (kmalloc_caches h) (heap h) S fl ps R" "headers_but {} (heap h) S fl R"
    "\<And>p m. B p = Some m \<longleftrightarrow> (\<exists>x t. whole (heap h) S fl R x t \<and> p = x + 16 \<and> m = t - 16)"
    by (rule heap_repE [OF rep]) (rule that)
  obtain x t where x: "whole (heap h) S fl R x t" "p = x + 16" using p r(3) by blast
  have p0: "p \<noteq> 0" using heap_rep_nonnull [OF rep] p by auto
  have hdr: "p - sizeof_alloc_header = x" by (simp add: x(2) sizeof_alloc_header_def)
  note len = layoutD(3) [OF r(1)]
  show ?thesis
    using x(1) unfolding whole_def
  proof (elim disjE exE conjE)
    fix i assume i: "i < 26" "x \<in> live S fl i"
    have hd: "header_type (heap h) x = SLAB_BACKED" "header_value (heap h) x = of_nat i"
      using r(2) i by (simp_all add: headers_but_def)
    have ui: "unat (of_nat i :: u64) = i" by (rule of_nat_inverse [OF refl]) (use i(1) in simp)
    obtain s1 fl2 ps2 where st: "kmem_cache_free (heap h) (kmalloc_caches h ! i) x = Some s1"
      "layout (kmalloc_caches h) s1 S fl2 ps2 R" "headers_but {} s1 S fl2 R"
      "live S fl2 = (live S fl)(i := live S fl i - {x})" "hhdm s1 = hhdm (heap h)"
      by (rule slab_free_step [OF r(1,2) i]) (rule that)
    let ?h1 = "h\<lparr>heap := s1\<rparr>"
    have rb: "run_base s1 j = run_base (heap h) j" for j using st(5) by (simp add: run_base_def)
    have lv: "y \<in> live S fl2 j \<longleftrightarrow> y \<in> live S fl j \<and> y \<noteq> x" if "j < 26" for y j
      using fun_cong [OF st(4), of j] live_class [OF r(1) that, of y i] i by (cases "j = i"; cases "y = x"; auto)
    have "whole (heap ?h1) S fl2 R y u \<longleftrightarrow> whole (heap h) S fl R y u \<and> y \<noteq> x" for y u
      using live_not_run [OF r(1) i] unfolding whole_def rb
      by (simp add: lv rb cong: conj_cong) blast
    then have "heap_rep ?h1 (B(x + 16 := None))" using heap_rep_drop [OF r(3), of ?h1 fl2 ps2 R x] st(2,3) by simp
    moreover have "kfree p h = Some ?h1" using p0 ui i(1) st(1) len by (simp add: kfree_def Let_def hdr hd)
    ultimately show ?thesis by (simp add: x(2))
  next
    fix k n assume k: "(k, n) \<in> R" "x = run_base (heap h) k"
    have hd: "header_type (heap h) x = PAGE_BACKED" "header_value (heap h) x = of_nat n"
      using r(2) k by (auto simp: headers_but_def)
    obtain s1 where st: "k_free_pages (heap h) (higher_half_data_to_phys (heap h) x) (of_nat n) = Some s1"
      "layout (kmalloc_caches h) s1 S fl ps (R - {(k, n)})" "headers_but {} s1 S fl (R - {(k, n)})"
      "\<And>j. run_base s1 j = run_base (heap h) j"
      by (rule run_free_step [OF r(1,2) k(1), folded k(2)]) (rule that)
    let ?h1 = "h\<lparr>heap := s1\<rparr>"
    have one: "(l, m) = (k, n)" if "(l, m) \<in> R" "run_base (heap h) l = x" for l m
      using run_unique [OF r(1) that(1) k(1)] that(2) k(2) by simp
    have "whole (heap ?h1) S fl (R - {(k, n)}) y u \<longleftrightarrow> whole (heap h) S fl R y u \<and> y \<noteq> x" for y u
      using live_not_run [OF r(1) _ _ k(1)] one k(2) by (auto simp: whole_def st(4))
    then have "heap_rep ?h1 (B(x + 16 := None))" using heap_rep_drop [OF r(3), of ?h1 fl ps "R - {(k, n)}" x] st(2,3) by simp
    moreover have "kfree p h = Some ?h1"
      using p0 st(1) by (simp add: kfree_def Let_def hdr hd SLAB_BACKED_def PAGE_BACKED_def)
    ultimately show ?thesis by (simp add: x(2))
  qed
qed

interpretation kheap: block_allocator kmalloc kfree heap_rep 16 "2 ^ 42"
proof unfold_locales
  show "\<exists>p h'. kmalloc n h = Some (p, h') \<and> (if p = 0 then h' = h else p \<notin> dom B \<and> (\<exists>m\<ge>unat n. heap_rep h' (B(p \<mapsto> m))))"
    if "heap_rep h B" "unat n \<le> 2 ^ 42" for h B n using kmalloc_correct [OF that] by (auto split: if_splits)
qed (rule kfree_correct heap_rep_nonnull heap_rep_apart; assumption)+

end
