(* ===== verification/Kmalloc_Props.thy ===== *)
theory Kmalloc_Props
  imports Kmalloc_Rep
begin

text \<open>
  The heap after its initialisation, when an allocation fails, and the properties of the heap.
\<close>

section \<open>Initialisation\<close>

lemma create_caches_correct:
  assumes "k_inv s" "cache_pool_idx s + length szs \<le> length (cache_pool s)" "\<forall>z\<in>set szs. good_size z"
  shows "\<exists>s'. create_caches szs s = Some ([cache_pool_idx s ..< cache_pool_idx s + length szs], s')
    \<and> (\<forall>i<length szs. cache_rep (cache_pool_idx s + i) s' {} \<and> kc_size (cache_pool s' ! (cache_pool_idx s + i)) = szs ! i)
    \<and> (\<forall>d<cache_pool_idx s. cache_pool s' ! d = cache_pool s ! d)
    \<and> length (cache_pool s') = length (cache_pool s)
    \<and> pmm s' = pmm s \<and> mem s' = mem s \<and> slabs s' = slabs s \<and> hhdm s' = hhdm s"
  using assms
proof (induction szs arbitrary: s)
  case Nil
  then show ?case by simp
next
  case (Cons z szs)
  let ?c = "cache_pool_idx s"
  have z: "unat z \<le> 4064" "good_size z" using Cons.prems(3) by (simp_all add: good_size_def)
  obtain s1 where s1: "kmem_cache_create s z = Some (?c, s1)" "cache_rep ?c s1 {}"
    "cache_room ?c s1 = 8 * ((max 8 (unat z) + 7) div 8)" "cache_pool_idx s1 = Suc ?c" "length (cache_pool s1) = length (cache_pool s)"
    "\<forall>d. d \<noteq> ?c \<longrightarrow> cache_pool s1 ! d = cache_pool s ! d" "pmm s1 = pmm s" "mem s1 = mem s" "slabs s1 = slabs s" "hhdm s1 = hhdm s"
    using kmem_cache_create_correct [OF Cons.prems(1) _ z(1)] Cons.prems(2) by auto
  have inv: "k_inv s1" using s1(2) by (simp add: cache_rep_def)
  obtain s2 where s2: "create_caches szs s1 = Some ([Suc ?c ..< Suc ?c + length szs], s2)"
    "\<forall>i<length szs. cache_rep (Suc ?c + i) s2 {} \<and> kc_size (cache_pool s2 ! (Suc ?c + i)) = szs ! i"
    "\<forall>d<Suc ?c. cache_pool s2 ! d = cache_pool s1 ! d" "length (cache_pool s2) = length (cache_pool s)"
    "pmm s2 = pmm s" "mem s2 = mem s" "slabs s2 = slabs s" "hhdm s2 = hhdm s"
    using Cons.IH [OF inv] Cons.prems(2,3) s1(4-10) by auto
  have "cache_rep ?c s2 {}" by (rule cache_rep_cong [OF s1(2)]) (use s1 s2 in simp_all)
  moreover have "kc_size (cache_pool s2 ! ?c) = z"
  proof -
    have "8 * ((max 8 (unat z) + 7) div 8) = unat z" using z(2) unfolding good_size_def by (auto elim!: dvdE)
    then have "cache_room ?c s1 = unat z" unfolding s1(3) .
    then show ?thesis using s2(3) by (simp add: cache_room_def word_unat_eq_iff)
  qed
  ultimately have "cache_rep (?c + i) s2 {} \<and> kc_size (cache_pool s2 ! (?c + i)) = (z # szs) ! i" if "i < length (z # szs)" for i
    using s2(2) that by (cases i) auto
  moreover have "[?c ..< ?c + length (z # szs)] = ?c # [Suc ?c ..< Suc ?c + length szs]" by (subst upt_conv_Cons) simp_all
  ultimately show ?case using s1 s2 by simp
qed

lemma init_kmalloc_correct:
  assumes "k_inv (heap h)" "cache_pool_idx (heap h) + 26 \<le> length (cache_pool (heap h))"
  shows "\<exists>h'. init_kmalloc h = Some h' \<and> heap_rep h' Map.empty \<and> pmm (heap h') = pmm (heap h)
    \<and> kmalloc_caches h' = [cache_pool_idx (heap h) ..< cache_pool_idx (heap h) + 26]"
proof -
  let ?c = "cache_pool_idx (heap h)"
  have "\<forall>z\<in>set kmalloc_sizes. good_size z" by (metis good_sizes in_set_conv_nth length_sizes)
  then obtain s where s: "create_caches kmalloc_sizes (heap h) = Some ([?c ..< ?c + 26], s)"
    "\<And>i. i < 26 \<Longrightarrow> cache_rep (?c + i) s {} \<and> kc_size (cache_pool s ! (?c + i)) = kmalloc_sizes ! i" "pmm s = pmm (heap h)"
    using create_caches_correct [OF assms(1), of kmalloc_sizes] assms(2) by auto
  let ?h = "\<lparr>kmalloc_caches = [?c ..< ?c + 26], heap = s\<rparr>"
  have "\<exists>S fl ps. cache_rep_but {} s (?c + i) S fl ps \<and> slab_live (kmalloc_sizes ! i) S fl = {}" if "i < 26" for i
    using s(2) [OF that] unfolding cache_rep_def by metis
  then obtain S fl ps where r: "\<And>i. i < 26 \<Longrightarrow> cache_rep_but {} s (?c + i) (S i) (fl i) (ps i)"
    "\<And>i. i < 26 \<Longrightarrow> live S fl i = {}" by metis
  have L: "layout (kmalloc_caches ?h) (heap ?h) S fl ps {}"
    using r s(2) [of 0] s(2) by (simp add: layout_def classes_ok_def runs_apart_def cache_rep_def)
  have "heap_rep ?h Map.empty"
    by (rule heap_repI [OF L]) (auto simp: headers_but_def whole_def r(2))
  then show ?thesis using s(1,3) by (simp add: init_kmalloc_def)
qed

section \<open>Properties\<close>

text \<open>The heap on the sample machine: eight pages, an empty cache pool of 64 entries.\<close>

definition heap_sample :: kheap where
  "heap_sample = the (init_kmalloc \<lparr>kmalloc_caches = [], heap = k_sample\<rparr>)"

lemma heap_sample_rep: "heap_rep heap_sample Map.empty" "pmm (heap heap_sample) = pmm_sample"
proof -
  have "k_inv (heap \<lparr>kmalloc_caches = [], heap = k_sample\<rparr>)" by (simp add: k_sample_inv)
  moreover have "cache_pool_idx (heap \<lparr>kmalloc_caches = [], heap = k_sample\<rparr>) + 26
      \<le> length (cache_pool (heap \<lparr>kmalloc_caches = [], heap = k_sample\<rparr>))" by (simp add: k_sample_def)
  ultimately show "heap_rep heap_sample Map.empty" "pmm (heap heap_sample) = pmm_sample"
    using init_kmalloc_correct [of "\<lparr>kmalloc_caches = [], heap = k_sample\<rparr>"] by (auto simp: heap_sample_def k_sample_def)
qed



text \<open>
  C17: \<open>kfree\<close> of a block handed out returns and takes exactly this block out of the heap, whether
  the block came from a slab cache or from a run of pages; so a block allocated and freed at once
  leaves the blocks as they were.
\<close>

theorem kfree_spec:
  assumes "heap_rep h B"
  shows "(p \<in> dom B \<longrightarrow> (\<exists>h'. kfree p h = Some h' \<and> heap_rep h' (B(p := None))))
    \<and> (unat n \<le> 2 ^ 42 \<and> kmalloc n h = Some (q, h1) \<longrightarrow> (\<exists>h2. kfree q h1 = Some h2 \<and> heap_rep h2 B))"
proof -
  have "\<exists>h2. kfree q h1 = Some h2 \<and> heap_rep h2 B" if n: "unat n \<le> 2 ^ 42" and run: "kmalloc n h = Some (q, h1)"
  proof (cases "q = 0")
    case True
    then have "h1 = h" using kheap.alloc_law [OF assms n] run by auto
    then show ?thesis using True assms by (simp add: kfree_def)
  next
    case False
    then show ?thesis by (rule kheap.alloc_then_free [OF assms n run])
  qed
  then show ?thesis using kheap.free_law [OF assms] by blast
qed

theorem kfree_spec_witness:
  "\<exists>p h1 h2. kmalloc 5000 heap_sample = Some (p, h1) \<and> kfree p h1 = Some h2 \<and> heap_rep h2 Map.empty"
proof -
  have n: "unat (5000 :: u64) \<le> 2 ^ 42" by simp
  obtain p h1 where "kmalloc 5000 heap_sample = Some (p, h1)"
    using kheap.alloc_law [OF heap_sample_rep(1) n] by blast
  then show ?thesis using kfree_spec [OF heap_sample_rep(1), of p 5000 p h1] n by blast
qed

text \<open>
  \<open>init_kmalloc\<close> on a machine with 26 free entries in the cache pool builds a well-formed heap
  with no block handed out, and takes no page for it.
\<close>

theorem init_kmalloc_empty:
  assumes "k_inv (heap h)" and "cache_pool_idx (heap h) + 26 \<le> length (cache_pool (heap h))"
  shows "\<exists>h'. init_kmalloc h = Some h' \<and> heap_rep h' Map.empty \<and> pmm (heap h') = pmm (heap h)"
  using init_kmalloc_correct [OF assms] by blast

theorem init_kmalloc_empty_witness:
  "\<exists>h'. init_kmalloc \<lparr>kmalloc_caches = [], heap = k_sample\<rparr> = Some h' \<and> heap_rep h' Map.empty"
proof -
  have "cache_pool_idx k_sample + 26 \<le> length (cache_pool k_sample)" by (simp add: k_sample_def)
  then show ?thesis
    using init_kmalloc_empty [of "\<lparr>kmalloc_caches = [], heap = k_sample\<rparr>"] k_sample_inv by auto
qed

lemma wrapped_total:
  assumes "2 ^ 64 - 31 \<le> unat n"
  shows "unat (ALIGN_UP (n + sizeof_alloc_header) 16) \<le> 16"
proof -
  define w where "w = n + 31"
  have "unat w = (unat n + 31) mod 2 ^ 64" by (simp add: w_def unat_word_ariths)
  moreover have "unat n < 2 ^ 64" using unsigned_less [of n] by simp
  ultimately have w: "unat w = unat n + 31 - 2 ^ 64" using assms by (simp add: le_mod_geq)
  have "ALIGN_UP (n + sizeof_alloc_header) 16 = ALIGN_DOWN w (2 ^ 4)"
    by (simp add: ALIGN_UP_def ALIGN_DOWN_def w_def sizeof_alloc_header_def add_diff_eq add.commute)
  then have "unat (ALIGN_UP (n + sizeof_alloc_header) 16) = 16 * (unat w div 16)"
    using unat_align_down_pow2 [of 4 w] by (simp add: minus_mod_eq_mult_div)
  then show ?thesis using w \<open>unat n < 2 ^ 64\<close> by simp
qed

text \<open>
  A request within 31 bytes of \<open>2 ^ 64\<close> wraps around when the header is added and the total is
  rounded up, and is answered with an object of 8 or 16 bytes, which the header fills or exceeds.
\<close>

theorem kmalloc_overflow:
  assumes "2 ^ 64 - 31 \<le> unat n"
  shows "\<exists>i. (i = 0 \<or> i = 1) \<and> unat (kmalloc_sizes ! i) \<le> 16 \<and>
    kmalloc n h = (case kmem_cache_alloc (heap h) (kmalloc_caches h ! i) of None \<Rightarrow> None
      | Some (x, s) \<Rightarrow> if x = 0 then Some (0, h\<lparr>heap := s\<rparr>)
          else Some (x + 16, h\<lparr>heap := write_header s x SLAB_BACKED (of_nat i)\<rparr>))"
proof -
  let ?t = "ALIGN_UP (n + sizeof_alloc_header) 16"
  have n0: "n \<noteq> 0" using assms by auto
  show ?thesis
  proof (cases rule: kmalloc_index_cases [of ?t])
    case large
    then show ?thesis using wrapped_total [OF assms] by simp
  next
    case (fits i)
    have "i = 0 \<or> i = 1"
    proof (rule ccontr)
      assume "\<not> (i = 0 \<or> i = 1)"
      then have "kmalloc_sizes ! 1 < ?t" using fits(4) by auto
      then show False using wrapped_total [OF assms] by (simp add: kmalloc_sizes_def word_less_nat_alt)
    qed
    moreover from this have "unat (kmalloc_sizes ! i) \<le> 16" by (auto simp: kmalloc_sizes_def)
    moreover have "kmalloc n h = (case kmem_cache_alloc (heap h) (kmalloc_caches h ! i) of None \<Rightarrow> None
      | Some (x, s) \<Rightarrow> if x = 0 then Some (0, h\<lparr>heap := s\<rparr>)
          else Some (x + 16, h\<lparr>heap := write_header s x SLAB_BACKED (of_nat i)\<rparr>))"
      using n0 fits(1,2) unfolding kmalloc_def Let_def sizeof_alloc_header_def [symmetric]
      by (auto split: option.splits)
    ultimately show ?thesis by blast
  qed
qed

theorem kmalloc_overflow_witness:
  "\<exists>i. (i = 0 \<or> i = 1) \<and> unat (kmalloc_sizes ! i) \<le> 16 \<and>
    kmalloc 0xfffffffffffffff0 heap_sample = (case kmem_cache_alloc (heap heap_sample) (kmalloc_caches heap_sample ! i) of None \<Rightarrow> None
      | Some (x, s) \<Rightarrow> if x = 0 then Some (0, heap_sample\<lparr>heap := s\<rparr>)
          else Some (x + 16, heap_sample\<lparr>heap := write_header s x SLAB_BACKED (of_nat i)\<rparr>))"
proof -
  have "2 ^ 64 - 31 \<le> unat (0xfffffffffffffff0 :: u64)" by simp
  then show ?thesis by (rule kmalloc_overflow)
qed

end
