(* ===== verification/Loops.thy ===== *)
theory Loops
  imports Prelude
begin

text \<open>
  The counting loop \<open>for (i = a; i < n; i++) body\<close> on machine words, its unfolding, and the rule by
  which an invariant carries through it.
\<close>

function for_up :: "'a::len word \<Rightarrow> 'a word \<Rightarrow> ('a word \<Rightarrow> 's \<Rightarrow> 's option) \<Rightarrow> 's \<Rightarrow> 's option" where
  "for_up i n body s =
     (if i < n then case body i s of None \<Rightarrow> None | Some s \<Rightarrow> for_up (i + 1) n body s else Some s)"
  by pat_completeness auto
termination by (relation "measure (\<lambda>(i, n, body, s). unat n - unat i)") auto

declare for_up.simps [simp del]

lemma for_up_done [simp]: "n \<le> i \<Longrightarrow> for_up i n body s = Some s"
  by (subst for_up.simps) (simp add: leD)

lemma for_up_step: "i < n \<Longrightarrow> for_up i n body s = Option.bind (body i s) (for_up (i + 1) n body)"
  by (subst for_up.simps) (simp split: option.split)

lemma for_up_rule:
  fixes a n :: "'a::len word"
  assumes "P (unat a) s" "a \<le> n"
    and step: "\<And>i s. a \<le> i \<Longrightarrow> i < n \<Longrightarrow> P (unat i) s \<Longrightarrow> \<exists>s'. body i s = Some s' \<and> P (Suc (unat i)) s'"
  shows "\<exists>s'. for_up a n body s = Some s' \<and> P (unat n) s'"
  using assms
proof (induction "unat n - unat a" arbitrary: a s)
  case 0
  then have "a = n" by (simp add: word_le_nat_alt word_unat_eq_iff)
  then show ?case using 0(2) by simp
next
  case (Suc k)
  then have lt: "a < n" by (simp add: word_less_nat_alt)
  obtain s1 where s1: "body a s = Some s1" "P (Suc (unat a)) s1" using Suc.prems(3) [OF order_refl lt Suc.prems(1)] by blast
  have u: "unat (a + 1) = Suc (unat a)" using lt by (simp add: unat_Suc_less)
  have "\<exists>s'. for_up (a + 1) n body s1 = Some s' \<and> P (unat n) s'"
  proof (rule Suc.hyps(1))
    show "k = unat n - unat (a + 1)" using Suc.hyps(2) u by simp
    show "P (unat (a + 1)) s1" using s1(2) u by simp
    show "a + 1 \<le> n" using lt by (rule count_up_le)
    show "\<exists>s'. body i s = Some s' \<and> P (Suc (unat i)) s'" if "a + 1 \<le> i" "i < n" "P (unat i) s" for i s
    proof (rule Suc.prems(3) [OF _ that(2,3)])
      show "a \<le> i" using that(1) u by (simp add: word_le_nat_alt)
    qed
  qed
  then show ?case using s1(1) lt by (simp add: for_up_step)
qed

text \<open>A loop whose body is undefined at one index, reached with the invariant, is undefined.\<close>

lemma for_up_undefined:
  fixes a n :: "'a::len word"
  assumes "P (unat a) s" "a \<le> m" "m < n"
    and step: "\<And>i s. a \<le> i \<Longrightarrow> i < m \<Longrightarrow> P (unat i) s \<Longrightarrow> \<exists>s'. body i s = Some s' \<and> P (Suc (unat i)) s'"
    and bad: "\<And>s. P (unat m) s \<Longrightarrow> body m s = None"
  shows "for_up a n body s = None"
  using assms(1,2,4)
proof (induction "unat m - unat a" arbitrary: a s)
  case 0
  then have "a = m" by (simp add: word_le_nat_alt word_unat_eq_iff)
  then show ?case using bad 0(2) assms(3) by (simp add: for_up_step)
next
  case (Suc k)
  then have lt: "a < m" by (simp add: word_less_nat_alt)
  obtain s1 where s1: "body a s = Some s1" "P (Suc (unat a)) s1" using Suc.prems(3) [OF order_refl lt Suc.prems(1)] by blast
  have u: "unat (a + 1) = Suc (unat a)" using lt by (simp add: unat_Suc_less)
  have "for_up (a + 1) n body s1 = None"
  proof (rule Suc.hyps(1))
    show "k = unat m - unat (a + 1)" using Suc.hyps(2) u by simp
    show "P (unat (a + 1)) s1" using s1(2) u by simp
    show "a + 1 \<le> m" using lt by (rule count_up_le)
    show "\<exists>s'. body i s = Some s' \<and> P (Suc (unat i)) s'" if "a + 1 \<le> i" "i < m" "P (unat i) s" for i s
    proof (rule Suc.prems(3) [OF _ that(2,3)])
      show "a \<le> i" using that(1) u by (simp add: word_le_nat_alt)
    qed
  qed
  then show ?case using s1(1) lt assms(3) by (simp add: for_up_step)
qed

end
