(* ===== verification/Console.thy ===== *)
theory Console
  imports Kprintf Loops
begin

text \<open>
  The console: the framebuffer (\<^verbatim>\<open>src/kernel/drivers/video/framebuffer/framebuffer.c\<close>), the font
  (\<^verbatim>\<open>src/kernel/drivers/video/font/psf_font.c\<close>), the text terminal
  (\<^verbatim>\<open>src/kernel/drivers/tty/tty.c\<close>) and the kernel log
  (\<^verbatim>\<open>src/kernel/kernel/lib/printk/printk.c\<close>). Video memory is a function from the index of a
  32-bit pixel, counted from the start of the framebuffer. Reading the font image out of range and
  an index into an array that is out of range are undefined (\<open>None\<close>).
\<close>

section \<open>Data\<close>

record framebuffer_t =
  fb_width :: u64
  fb_height :: u64
  fb_pitch :: u64

record psf2_header_t =
  psf_magic :: u32
  psf_version :: u32
  psf_headersize :: u32
  psf_flags :: u32
  psf_numglyph :: u32
  psf_bytesperglyph :: u32
  psf_height :: u32
  psf_width :: u32

record psf_font_t =
  psf_header :: psf2_header_t
  psf_glyphs :: "u8 list"

definition MAX_ROWS :: u32 where "MAX_ROWS = 512"
definition PRINTK_BUF_SIZE :: u64 where "PRINTK_BUF_SIZE = 8192"

record console =
  term_fb :: framebuffer_t
  vram :: "u64 \<Rightarrow> u32"
  term_font :: psf_font_t
  tty_buffer :: "u32 \<Rightarrow> u32 \<Rightarrow> char"
  tty_row :: u32
  view_row :: u32
  cols :: u32
  rows :: u32
  term_cx :: u32
  term_fg :: u32
  term_bg :: u32
  string_buffer :: "u64 \<Rightarrow> char"
  log_head :: u64
  log_tail :: u64

section \<open>Framebuffer and font\<close>

definition fb_init :: "u64 \<Rightarrow> u64 \<Rightarrow> u64 \<Rightarrow> framebuffer_t" where
  "fb_init width height pitch = \<lparr>fb_width = width, fb_height = height, fb_pitch = pitch\<rparr>"

definition fb_putpixel :: "u64 \<Rightarrow> u64 \<Rightarrow> u32 \<Rightarrow> console \<Rightarrow> console" where
  "fb_putpixel x y color s = s\<lparr>vram := (vram s)(y * (fb_pitch (term_fb s) div 4) + x := color)\<rparr>"

definition fb_fill_rect :: "u64 \<Rightarrow> u64 \<Rightarrow> u64 \<Rightarrow> u64 \<Rightarrow> u32 \<Rightarrow> console \<Rightarrow> console option" where
  "fb_fill_rect x y w h color s =
     for_up y (y + h) (\<lambda>row. for_up x (x + w) (\<lambda>col s. Some (fb_putpixel col row color s))) s"

definition fb_clear :: "u32 \<Rightarrow> console \<Rightarrow> console option" where
  "fb_clear color s = fb_fill_rect 0 0 (fb_width (term_fb s)) (fb_height (term_fb s)) color s"

text \<open>The header is packed and little-endian; the glyphs follow it in the image.\<close>

definition le_u32 :: "u8 list \<Rightarrow> nat \<Rightarrow> u32" where
  "le_u32 img off = ucast (img ! off) OR push_bit 8 (ucast (img ! (off + 1)))
     OR push_bit 16 (ucast (img ! (off + 2))) OR push_bit 24 (ucast (img ! (off + 3)))"

definition read_header :: "u8 list \<Rightarrow> psf2_header_t option" where
  "read_header img =
     (if length img < 32 then None
      else Some \<lparr>psf_magic = le_u32 img 0, psf_version = le_u32 img 4, psf_headersize = le_u32 img 8,
        psf_flags = le_u32 img 12, psf_numglyph = le_u32 img 16, psf_bytesperglyph = le_u32 img 20,
        psf_height = le_u32 img 24, psf_width = le_u32 img 28\<rparr>)"

definition psf_load :: "u8 list \<Rightarrow> psf_font_t option" where
  "psf_load img =
     do {
       header \<leftarrow> read_header img;
       Some \<lparr>psf_header = header, psf_glyphs = drop (unat (psf_headersize header)) img\<rparr>
     }"

section \<open>Drawing text\<close>

definition glyph_byte :: "psf_font_t \<Rightarrow> u8 \<Rightarrow> u32 \<Rightarrow> u32 \<Rightarrow> u8 option" where
  "glyph_byte font c row col =
     (let header = psf_header font;
          bytes_per_line = (psf_width header + 7) div 8;
          c = (if psf_numglyph header \<le> ucast c then 0 else c);
          i = unat (ucast c * psf_bytesperglyph header) + unat (row * bytes_per_line + col div 8) in
      if i < length (psf_glyphs font) then Some (psf_glyphs font ! i) else None)"

definition draw_glyph :: "u8 \<Rightarrow> u64 \<Rightarrow> u64 \<Rightarrow> console \<Rightarrow> console option" where
  "draw_glyph c px py s =
     (let header = psf_header (term_font s) in
      for_up 0 (psf_height header) (\<lambda>row. for_up 0 (psf_width header) (\<lambda>col s.
        do {
          byte \<leftarrow> glyph_byte (term_font s) c row col;
          let color = (if byte AND drop_bit (unat (col mod 8)) 0x80 \<noteq> 0 then term_fg s else term_bg s);
          Some (fb_putpixel (px + ucast col) (py + ucast row) color s)
        })) s)"

text \<open>\<open>tty_buffer[row][col]\<close>: a line has 256 characters.\<close>

definition get_char :: "u32 \<Rightarrow> u32 \<Rightarrow> console \<Rightarrow> char option" where
  "get_char row col s = (if col < 256 then Some (tty_buffer s row col) else None)"

definition set_char :: "u32 \<Rightarrow> u32 \<Rightarrow> char \<Rightarrow> console \<Rightarrow> console option" where
  "set_char row col c s =
     (if col < 256 then Some (s\<lparr>tty_buffer := (tty_buffer s)(row := (tty_buffer s row)(col := c))\<rparr>) else None)"

definition clear_line :: "u32 \<Rightarrow> u32 \<Rightarrow> console \<Rightarrow> console option" where
  "clear_line row n s =
     (if n \<le> 256 then Some (s\<lparr>tty_buffer := (tty_buffer s)(row := (\<lambda>col. if col < n then NUL else tty_buffer s row col))\<rparr>)
      else None)"

abbreviation u8_of :: "char \<Rightarrow> u8" where "u8_of c \<equiv> of_char c"

text \<open>The position of a cell is computed in 32 bits.\<close>

definition tty_redraw :: "console \<Rightarrow> console option" where
  "tty_redraw s =
     do {
       s \<leftarrow> fb_clear (term_bg s) s;
       let h = psf_header (term_font s);
       for_up 0 (rows s) (\<lambda>row s.
         for_up 0 (cols s) (\<lambda>col s.
           do {
             let buf_row = (view_row s + row) mod MAX_ROWS;
             c \<leftarrow> get_char buf_row col s;
             if c = NUL then Some s
             else draw_glyph (u8_of c) (ucast (col * psf_width h)) (ucast (row * psf_height h)) s
           }) s) s
     }"

definition tty_init :: "framebuffer_t \<Rightarrow> u8 list \<Rightarrow> console \<Rightarrow> console option" where
  "tty_init fb img s =
     do {
       font \<leftarrow> psf_load img;
       if psf_width (psf_header font) = 0 \<or> psf_height (psf_header font) = 0 then None
       else
         (let s = s\<lparr>term_fb := fb, term_font := font,
                cols := ucast (fb_width fb div ucast (psf_width (psf_header font))),
                rows := ucast (fb_height fb div ucast (psf_height (psf_header font))),
                term_cx := 0, tty_row := 0, view_row := 0, tty_buffer := (\<lambda>_ _. NUL)\<rparr> in
          fb_clear (term_bg s) s)
     }"

definition tty_scroll_down :: "console \<Rightarrow> console option" where
  "tty_scroll_down s =
     (if view_row s + rows s < tty_row s then tty_redraw (s\<lparr>view_row := view_row s + 1\<rparr>) else Some s)"

definition tty_scroll_up :: "console \<Rightarrow> console option" where
  "tty_scroll_up s = (if 0 < view_row s then tty_redraw (s\<lparr>view_row := view_row s - 1\<rparr>) else Some s)"

text \<open>Drawing the character at column \<open>col\<close> of the line that is written to, when it is visible.\<close>

definition draw_current :: "char \<Rightarrow> u32 \<Rightarrow> console \<Rightarrow> console option" where
  "draw_current c col s =
     (let h = psf_header (term_font s); vis_row = tty_row s - view_row s in
      if vis_row < rows s then
        draw_glyph (u8_of c) (ucast (col * psf_width h)) (ucast (vis_row * psf_height h)) s
      else Some s)"

definition tty_newline :: "console \<Rightarrow> console option" where
  "tty_newline s =
     do {
       let s = s\<lparr>tty_row := tty_row s + 1, term_cx := 0\<rparr>;
       s \<leftarrow> clear_line (tty_row s mod MAX_ROWS) (cols s) s;
       if rows s \<le> tty_row s - view_row s then tty_redraw (s\<lparr>view_row := view_row s + 1\<rparr>) else Some s
     }"

definition tty_putchar :: "char \<Rightarrow> console \<Rightarrow> console option" where
  "tty_putchar c s =
     (let line = tty_row s mod MAX_ROWS in
      if c = CHR 0x0A then tty_newline s
      else if c = CHR 0x0D then Some (s\<lparr>term_cx := 0\<rparr>)
      else if c = CHR 0x08 then
        if 0 < term_cx s then
          do {
            let s = s\<lparr>term_cx := term_cx s - 1\<rparr>;
            s \<leftarrow> set_char line (term_cx s) CHR '' '' s;
            draw_current CHR '' '' (term_cx s) s
          }
        else Some s
      else if term_cx s < cols s then
        do {
          s \<leftarrow> set_char line (term_cx s) c s;
          s \<leftarrow> draw_current c (term_cx s) s;
          Some (s\<lparr>term_cx := term_cx s + 1\<rparr>)
        }
      else Some s)"

fun tty_write :: "char list \<Rightarrow> console \<Rightarrow> console option" where
  "tty_write [] s = Some s"
| "tty_write (c # cs) s = do { s \<leftarrow> tty_putchar c s; tty_write cs s }"

text \<open>A string is the list of its bytes with the terminating 0.\<close>

fun tty_writestring :: "char list \<Rightarrow> console \<Rightarrow> console option" where
  "tty_writestring [] s = None"
| "tty_writestring (c # cs) s = (if c = NUL then Some s else do { s \<leftarrow> tty_putchar c s; tty_writestring cs s })"

definition tty_clear :: "console \<Rightarrow> console option" where
  "tty_clear s =
     (let s = s\<lparr>tty_buffer := (\<lambda>_ _. NUL), tty_row := 0, view_row := 0, term_cx := 0\<rparr> in fb_clear (term_bg s) s)"

section \<open>The kernel log\<close>

definition log_put :: "char \<Rightarrow> console \<Rightarrow> console" where
  "log_put c s =
     (let next = (log_head s + 1) mod PRINTK_BUF_SIZE;
          s = (if next = log_tail s then s\<lparr>log_tail := (log_tail s + 1) mod PRINTK_BUF_SIZE\<rparr> else s) in
      s\<lparr>string_buffer := (string_buffer s)(log_head s := c), log_head := next\<rparr>)"

fun printk_read_loop :: "nat \<Rightarrow> console \<Rightarrow> char list \<times> console" where
  "printk_read_loop 0 s = ([], s)"
| "printk_read_loop (Suc n) s =
     (if log_tail s \<noteq> log_head s then
        (let c = string_buffer s (log_tail s);
             (cs, s) = printk_read_loop n (s\<lparr>log_tail := (log_tail s + 1) mod PRINTK_BUF_SIZE\<rparr>) in
         (c # cs, s))
      else ([], s))"

definition printk_read_buf :: "u64 \<Rightarrow> console \<Rightarrow> char list \<times> console" where
  "printk_read_buf n s = printk_read_loop (unat n) s"

partial_function (option) tty_flush :: "console \<Rightarrow> console option" where
  "tty_flush s =
     (let (buf, s) = printk_read_buf 128 s in
      if buf = [] then Some s else do { s \<leftarrow> tty_write buf s; tty_flush s })"

text \<open>
  \<open>temp\<close> is the stack buffer of 256 bytes with whatever it holds before the call. The length
  \<open>vsnprintf\<close> returns is that of the whole text; the copying loop reads \<open>temp\<close> up to it.
\<close>

definition printk :: "(u64 \<Rightarrow> char) \<Rightarrow> char list \<Rightarrow> va_slot list \<Rightarrow> console \<Rightarrow> console option" where
  "printk temp format va s =
     do {
       (len, sk) \<leftarrow> vsnprintf False 256 format va \<lparr>sk_buffer = temp, sk_put = [], sk_fct = []\<rparr>;
       if len \<le>s 0 then Some s
       else
         do {
           s \<leftarrow> for_up 0 len (\<lambda>i s. if i < 256 then Some (log_put (sk_buffer sk (ucast i)) s) else None) s;
           tty_flush s
         }
     }"

end
