(* ===== verification/Console_Log.thy ===== *)
theory Console_Log
  imports Console
begin

text \<open>
  The kernel log as a bounded queue of characters, and what the terminal does with it: drawing does
  not look at the log, so flushing the log writes its text.
\<close>

section \<open>The log as a list\<close>

definition log_ok :: "console \<Rightarrow> bool" where
  "log_ok s \<longleftrightarrow> unat (log_head s) < 8192 \<and> unat (log_tail s) < 8192"

definition log_count :: "console \<Rightarrow> nat" where
  "log_count s = (unat (log_head s) + 8192 - unat (log_tail s)) mod 8192"

definition log_text :: "console \<Rightarrow> char list" where
  "log_text s = map (\<lambda>i. string_buffer s (of_nat ((unat (log_tail s) + i) mod 8192))) [0..<log_count s]"

lemma length_log_text [simp]: "length (log_text s) = log_count s"
  by (simp add: log_text_def)

lemma log_count_less: "log_count s < 8192"
  by (simp add: log_count_def)

lemma unat_next: "unat (x :: u64) < 8192 \<Longrightarrow> unat ((x + 1) mod PRINTK_BUF_SIZE) = (unat x + 1) mod 8192"
  using unat_add_no_wrap [of x 1] by (simp add: PRINTK_BUF_SIZE_def unat_mod)

lemma mod_pos: "(t :: nat) < 8192 \<Longrightarrow> i < 8192 \<Longrightarrow> (t + i) mod 8192 = (if t + i < 8192 then t + i else t + i - 8192)"
  by (auto simp: le_mod_geq)

lemma log_count_cases:
  assumes "log_ok s"
  shows "log_count s = (if unat (log_tail s) \<le> unat (log_head s) then unat (log_head s) - unat (log_tail s)
    else unat (log_head s) + 8192 - unat (log_tail s))"
  using assms unfolding log_ok_def log_count_def by (auto simp: le_mod_geq)

lemma log_empty_iff: "log_ok s \<Longrightarrow> log_tail s = log_head s \<longleftrightarrow> log_count s = 0"
  by (auto simp: log_count_cases log_ok_def word_unat_eq_iff)

text \<open>Reading one character.\<close>

lemma log_pop:
  assumes ok: "log_ok s" and ne: "log_tail s \<noteq> log_head s"
  defines "s' \<equiv> s\<lparr>log_tail := (log_tail s + 1) mod PRINTK_BUF_SIZE\<rparr>"
  shows "log_ok s'" "log_text s = string_buffer s (log_tail s) # log_text s'"
proof -
  have t: "unat (log_tail s') = (unat (log_tail s) + 1) mod 8192" using ok by (simp add: s'_def unat_next log_ok_def)
  have h: "log_head s' = log_head s" "string_buffer s' = string_buffer s" by (simp_all add: s'_def)
  show ok': "log_ok s'" using ok t by (simp add: log_ok_def h)
  have c0: "log_count s \<noteq> 0" using ne log_empty_iff [OF ok] by simp
  have c: "log_count s = Suc (log_count s')"
    using c0 ok mod_pos [of "unat (log_tail s)" 1] unfolding log_count_cases [OF ok] log_count_cases [OF ok'] t h
    by (auto simp: log_ok_def split: if_splits)
  show "log_text s = string_buffer s (log_tail s) # log_text s'"
  proof (rule nth_equalityI)
    show "length (log_text s) = length (string_buffer s (log_tail s) # log_text s')" by (simp add: c)
    fix i assume i: "i < length (log_text s)"
    have "(unat (log_tail s) + Suc j) mod 8192 = (unat (log_tail s') + j) mod 8192" for j
      unfolding t by (simp add: mod_add_left_eq)
    moreover have "of_nat (unat (log_tail s) mod 8192) = log_tail s" using ok by (simp add: log_ok_def)
    ultimately show "log_text s ! i = (string_buffer s (log_tail s) # log_text s') ! i"
      using i c by (cases i) (simp_all add: log_text_def h del: upt_Suc)
  qed
qed

lemma log_ok_tail: "log_ok s \<Longrightarrow> log_ok (s\<lparr>log_tail := (log_tail s + 1) mod PRINTK_BUF_SIZE\<rparr>)"
  by (simp add: log_ok_def unat_next)

text \<open>Adding one character: the oldest one is dropped when 8191 are waiting.\<close>

lemma log_put_correct:
  assumes ok: "log_ok s"
  shows "log_ok (log_put c s)"
    "log_text (log_put c s) = (if log_count s = 8191 then tl (log_text s) else log_text s) @ [c]"
proof -
  define s1 where "s1 = (if (log_head s + 1) mod PRINTK_BUF_SIZE = log_tail s
      then s\<lparr>log_tail := (log_tail s + 1) mod PRINTK_BUF_SIZE\<rparr> else s)"
  have full: "(log_head s + 1) mod PRINTK_BUF_SIZE = log_tail s \<longleftrightarrow> log_count s = 8191"
    using ok mod_pos [of "unat (log_head s)" 1]
    by (auto simp: log_count_cases word_unat_eq_iff unat_next log_ok_def split: if_splits)
  have s1: "log_ok s1" "log_text s1 = (if log_count s = 8191 then tl (log_text s) else log_text s)" "log_head s1 = log_head s"
  proof -
    show "log_ok s1" using ok log_ok_tail [OF ok] by (simp add: s1_def)
    have "log_tail s \<noteq> log_head s" if "log_count s = 8191" using log_empty_iff [OF ok] that by simp
    then show "log_text s1 = (if log_count s = 8191 then tl (log_text s) else log_text s)"
      using log_pop(2) [OF ok] by (simp add: s1_def full)
    show "log_head s1 = log_head s" by (simp add: s1_def)
  qed
  have n1: "log_count s1 < 8191"
  proof -
    have "log_count s1 = length (if log_count s = 8191 then tl (log_text s) else log_text s)" by (simp flip: s1(2))
    then show ?thesis using log_count_less [of s] by (auto split: if_splits)
  qed
  let ?s2 = "s1\<lparr>string_buffer := (string_buffer s1)(log_head s1 := c), log_head := (log_head s1 + 1) mod PRINTK_BUF_SIZE\<rparr>"
  have e: "log_put c s = ?s2" by (simp add: log_put_def s1_def Let_def)
  have h: "unat (log_head ?s2) = (unat (log_head s1) + 1) mod 8192" using s1(1) by (simp add: unat_next log_ok_def)
  show ok2: "log_ok (log_put c s)" using s1(1) h by (simp add: e log_ok_def)
  have c: "log_count ?s2 = Suc (log_count s1)"
    using n1 s1(1) mod_pos [of "unat (log_head s1)" 1] h unfolding log_count_cases [OF s1(1)] log_count_cases [OF ok2 [unfolded e]]
    by (auto simp: log_ok_def split: if_splits)
  have pos: "(of_nat ((unat (log_tail s1) + i) mod 8192) = log_head s1) \<longleftrightarrow> i = log_count s1" if "i \<le> log_count s1" for i
  proof -
    have "unat (of_nat ((unat (log_tail s1) + i) mod 8192) :: u64) = (unat (log_tail s1) + i) mod 8192"
      by (rule of_nat_inverse [OF refl]) (rule order_less_trans [OF mod_less_divisor], simp_all)
    then show ?thesis
      using that n1 s1(1) mod_pos [of "unat (log_tail s1)" i] log_count_cases [OF s1(1)]
      by (auto simp: log_ok_def word_unat_eq_iff split: if_splits)
  qed
  have "log_text ?s2 = log_text s1 @ [c]"
    unfolding log_text_def c using pos by simp
  then show "log_text (log_put c s) = (if log_count s = 8191 then tl (log_text s) else log_text s) @ [c]"
    by (simp add: e s1(2))
qed

section \<open>Reading\<close>

lemma surj_update: "s\<lparr>log_tail := log_tail s\<rparr> = s"
  by simp

lemma printk_read_loop_correct:
  assumes "log_ok s"
  shows "\<exists>t. printk_read_loop n s = (take n (log_text s), s\<lparr>log_tail := t\<rparr>)
    \<and> log_ok (s\<lparr>log_tail := t\<rparr>) \<and> log_text (s\<lparr>log_tail := t\<rparr>) = drop n (log_text s)"
  using assms
proof (induction n arbitrary: s)
  case 0
  then show ?case by (intro exI [of _ "log_tail s"]) simp
next
  case (Suc n)
  show ?case
  proof (cases "log_tail s = log_head s")
    case True
    then have "log_text s = []" using log_empty_iff [OF Suc.prems] by (simp flip: length_0_conv)
    moreover have "printk_read_loop (Suc n) s = ([], s)" using True by simp
    ultimately show ?thesis
      using Suc.prems by (intro exI [of _ "log_tail s"]) (simp only: surj_update, simp)
  next
    case False
    let ?s = "s\<lparr>log_tail := (log_tail s + 1) mod PRINTK_BUF_SIZE\<rparr>"
    obtain t where t: "printk_read_loop n ?s = (take n (log_text ?s), ?s\<lparr>log_tail := t\<rparr>)"
      "log_ok (?s\<lparr>log_tail := t\<rparr>)" "log_text (?s\<lparr>log_tail := t\<rparr>) = drop n (log_text ?s)"
      using Suc.IH [OF log_pop(1) [OF Suc.prems False]] by blast
    show ?thesis
      using t False log_pop(2) [OF Suc.prems False] by (intro exI [of _ t]) (simp add: Let_def)
  qed
qed

lemma printk_read_buf_correct:
  assumes "log_ok s"
  obtains t where "printk_read_buf n s = (take (unat n) (log_text s), s\<lparr>log_tail := t\<rparr>)"
    "log_ok (s\<lparr>log_tail := t\<rparr>)" "log_text (s\<lparr>log_tail := t\<rparr>) = drop (unat n) (log_text s)"
  using printk_read_loop_correct [OF assms] unfolding printk_read_buf_def by blast

section \<open>The terminal does not look at the log\<close>

definition set_log :: "(u64 \<Rightarrow> char) \<Rightarrow> u64 \<Rightarrow> u64 \<Rightarrow> console \<Rightarrow> console" where
  "set_log b h t s = s\<lparr>string_buffer := b, log_head := h, log_tail := t\<rparr>"

lemma set_log_sel [simp]:
  "term_fb (set_log b h t s) = term_fb s" "vram (set_log b h t s) = vram s" "term_font (set_log b h t s) = term_font s"
  "tty_buffer (set_log b h t s) = tty_buffer s" "tty_row (set_log b h t s) = tty_row s" "view_row (set_log b h t s) = view_row s"
  "cols (set_log b h t s) = cols s" "rows (set_log b h t s) = rows s" "term_cx (set_log b h t s) = term_cx s"
  "term_fg (set_log b h t s) = term_fg s" "term_bg (set_log b h t s) = term_bg s"
  by (simp_all add: set_log_def)

lemma set_log_upd:
  "(set_log b h t s)\<lparr>vram := v\<rparr> = set_log b h t (s\<lparr>vram := v\<rparr>)"
  "(set_log b h t s)\<lparr>tty_buffer := w\<rparr> = set_log b h t (s\<lparr>tty_buffer := w\<rparr>)"
  "(set_log b h t s)\<lparr>tty_row := r\<rparr> = set_log b h t (s\<lparr>tty_row := r\<rparr>)"
  "(set_log b h t s)\<lparr>view_row := r\<rparr> = set_log b h t (s\<lparr>view_row := r\<rparr>)"
  "(set_log b h t s)\<lparr>term_cx := r\<rparr> = set_log b h t (s\<lparr>term_cx := r\<rparr>)"
  by (simp_all add: set_log_def)

lemma for_up_commute:
  fixes a n :: "'a::len word"
  assumes "\<And>i s. body i (U s) = map_option U (body i s)"
  shows "for_up a n body (U s) = map_option U (for_up a n body s)"
proof (induction "unat n - unat a" arbitrary: a s)
  case 0
  then show ?case by (simp add: word_le_nat_alt)
next
  case (Suc k)
  then have lt: "a < n" by (simp add: word_less_nat_alt)
  have "k = unat n - unat (a + 1)" using Suc.hyps(2) lt by (simp add: unat_Suc_less)
  note ih = Suc.hyps(1) [OF this]
  show ?case using lt ih by (cases "body a s") (simp_all add: for_up_step assms)
qed

lemma putpixel_set_log: "fb_putpixel x y c (set_log b h t s) = set_log b h t (fb_putpixel x y c s)"
  by (simp add: fb_putpixel_def set_log_upd)

lemma fb_clear_set_log: "fb_clear c (set_log b h t s) = map_option (set_log b h t) (fb_clear c s)"
  unfolding fb_clear_def fb_fill_rect_def set_log_sel
  by (rule for_up_commute, rule for_up_commute) (simp add: putpixel_set_log)

lemma draw_glyph_set_log: "draw_glyph c x y (set_log b h t s) = map_option (set_log b h t) (draw_glyph c x y s)"
  unfolding draw_glyph_def Let_def set_log_sel
  by (rule for_up_commute, rule for_up_commute) (simp add: putpixel_set_log map_option_bind o_def cong: if_cong)

lemma tty_redraw_set_log: "tty_redraw (set_log b h t s) = map_option (set_log b h t) (tty_redraw s)"
proof -
  have "for_up 0 n (\<lambda>row s. for_up 0 (cols s)
          (\<lambda>col s. do { c \<leftarrow> get_char ((view_row s + row) mod MAX_ROWS) col s; if c = NUL then Some s else draw c col row s }) s)
        (set_log b h t s) = map_option (set_log b h t)
          (for_up 0 n (\<lambda>row s. for_up 0 (cols s)
          (\<lambda>col s. do { c \<leftarrow> get_char ((view_row s + row) mod MAX_ROWS) col s; if c = NUL then Some s else draw c col row s }) s) s)"
    if "\<And>c x y s. draw c x y (set_log b h t s) = map_option (set_log b h t) (draw c x y s)" for draw n s
    by (rule for_up_commute, unfold set_log_sel, rule for_up_commute) (simp add: that get_char_def)
  note loop = this [where draw = "\<lambda>c x y s. draw_glyph (u8_of c) (ucast (x * w)) (ucast (y * z)) s" for w z]
  show ?thesis
    unfolding tty_redraw_def Let_def
    by (cases "fb_clear (term_bg s) s") (simp_all add: fb_clear_set_log loop draw_glyph_set_log cong: if_cong)
qed

lemma draw_current_set_log: "draw_current c x (set_log b h t s) = map_option (set_log b h t) (draw_current c x s)"
  by (simp add: draw_current_def Let_def draw_glyph_set_log)

lemma tty_newline_set_log: "tty_newline (set_log b h t s) = map_option (set_log b h t) (tty_newline s)"
  by (simp add: tty_newline_def set_log_upd clear_line_def tty_redraw_set_log Let_def cong: if_cong)

lemma tty_putchar_set_log: "tty_putchar c (set_log b h t s) = map_option (set_log b h t) (tty_putchar c s)"
  by (simp add: tty_putchar_def Let_def tty_newline_set_log set_log_upd set_char_def draw_current_set_log map_option_bind bind_map_option o_def cong: if_cong)

lemma tty_write_set_log: "tty_write cs (set_log b h t s) = map_option (set_log b h t) (tty_write cs s)"
  by (induction cs arbitrary: s) (auto simp: tty_putchar_set_log split: bind_splits)

lemma tty_write_append: "tty_write (xs @ ys) s = Option.bind (tty_write xs s) (tty_write ys)"
  by (induction xs arbitrary: s) (auto split: bind_splits)

lemma tty_write_log:
  assumes "tty_write cs s = Some s2"
  shows "string_buffer s2 = string_buffer s" "log_head s2 = log_head s" "log_tail s2 = log_tail s"
proof -
  have "set_log (string_buffer s) (log_head s) (log_tail s) s = s" by (simp add: set_log_def)
  then have "Some s2 = map_option (set_log (string_buffer s) (log_head s) (log_tail s)) (tty_write cs s)"
    using tty_write_set_log [of cs "string_buffer s" "log_head s" "log_tail s" s] assms by simp
  then have e: "s2 = set_log (string_buffer s) (log_head s) (log_tail s) s2" using assms by simp
  show "string_buffer s2 = string_buffer s" using arg_cong [OF e, of string_buffer] by (simp add: set_log_def)
  show "log_head s2 = log_head s" using arg_cong [OF e, of log_head] by (simp add: set_log_def)
  show "log_tail s2 = log_tail s" using arg_cong [OF e, of log_tail] by (simp add: set_log_def)
qed

section \<open>Flushing\<close>

lemma tty_flush_correct:
  assumes "log_ok s"
  shows "tty_flush s = map_option (\<lambda>s'. s'\<lparr>log_tail := log_head s\<rparr>) (tty_write (log_text s) s)"
  using assms
proof (induction "log_count s" arbitrary: s rule: less_induct)
  case less
  obtain t where t: "printk_read_buf 128 s = (take 128 (log_text s), s\<lparr>log_tail := t\<rparr>)"
    "log_ok (s\<lparr>log_tail := t\<rparr>)" "log_text (s\<lparr>log_tail := t\<rparr>) = drop 128 (log_text s)"
    by (rule printk_read_buf_correct [OF less.prems, of 128]) (rule that, simp_all)
  show ?case
  proof (cases "log_text s = []")
    case True
    then have e: "log_tail s = log_head s" using log_empty_iff [OF less.prems] length_log_text [of s] by simp
    have "log_text (s\<lparr>log_tail := t\<rparr>) = []" using t(3) True by simp
    then have "t = log_head s" using log_empty_iff [OF t(2)] length_log_text [of "s\<lparr>log_tail := t\<rparr>"] by simp
    then show ?thesis using t(1) True by (subst tty_flush.simps) simp
  next
    case False
    let ?U = "set_log (string_buffer s) (log_head s) t"
    have U: "s\<lparr>log_tail := t\<rparr> = ?U s" by (simp add: set_log_def)
    have w: "tty_write (log_text s) s = Option.bind (tty_write (take 128 (log_text s)) s) (tty_write (drop 128 (log_text s)))"
      by (simp flip: tty_write_append)
    have f: "tty_flush s = Option.bind (map_option ?U (tty_write (take 128 (log_text s)) s)) tty_flush"
      using t(1) False by (subst tty_flush.simps) (simp add: U tty_write_set_log)
    show ?thesis
    proof (cases "tty_write (take 128 (log_text s)) s")
      case None
      then show ?thesis by (simp add: f w)
    next
      case (Some s2)
      note fr = tty_write_log [OF Some]
      have tx: "log_text (?U s2) = drop 128 (log_text s)" and ok: "log_ok (?U s2)"
        using t(2,3) by (simp_all add: log_text_def log_count_def log_ok_def set_log_def)
      have "log_count (?U s2) < log_count s" using tx False length_log_text [of "?U s2"] by (simp flip: length_0_conv)
      from less.hyps [OF this ok]
      have "tty_flush (?U s2) = map_option (\<lambda>s'. s'\<lparr>log_tail := log_head s\<rparr>) (map_option ?U (tty_write (drop 128 (log_text s)) s2))"
        by (simp add: tx tty_write_set_log) (simp add: set_log_def)
      moreover have "(?U s3)\<lparr>log_tail := log_head s\<rparr> = s3\<lparr>log_tail := log_head s\<rparr>" if "tty_write (drop 128 (log_text s)) s2 = Some s3" for s3
        using tty_write_log [OF that] fr by (simp add: set_log_def)
      ultimately show ?thesis using Some by (cases "tty_write (drop 128 (log_text s)) s2") (simp_all add: f w)
    qed
  qed
qed

end
