(* ===== verification/Console_Printk.thy ===== *)
theory Console_Printk
  imports Console_Log Kprintf_Props
begin

text \<open>
  What \<open>printk\<close> does: the log after any number of characters, and the text that reaches the terminal.
\<close>

definition keep_last :: "nat \<Rightarrow> 'a list \<Rightarrow> 'a list" where
  "keep_last n xs = drop (length xs - n) xs"

lemma keep_last_step:
  "0 < n \<Longrightarrow> length ys \<le> n \<Longrightarrow> (if length ys = n then tl ys else ys) @ [c] = keep_last n (ys @ [c])"
  by (cases ys) (auto simp: keep_last_def)

lemma keep_last_absorb: "keep_last n (keep_last n xs @ ys) = keep_last n (xs @ ys)"
proof -
  have e: "drop (length xs - n) xs @ ys = drop (length xs - n) (xs @ ys)" by simp
  have "length xs + length ys - (length xs - n) - n + (length xs - n) = length xs + length ys - n" by arith
  then show ?thesis unfolding keep_last_def e drop_drop length_drop length_append by (rule arg_cong)
qed

lemma log_puts_correct:
  assumes "log_ok s"
  shows "log_ok (fold log_put cs s) \<and> log_text (fold log_put cs s) = keep_last 8191 (log_text s @ cs)"
proof (induction cs rule: rev_induct)
  case Nil
  then show ?case using assms log_count_less [of s] by (simp add: keep_last_def)
next
  case (snoc c cs)
  let ?s = "fold log_put cs s"
  have "log_count ?s \<le> 8191" using log_count_less [of ?s] by simp
  have "log_text (log_put c ?s) = (if length (log_text ?s) = 8191 then tl (log_text ?s) else log_text ?s) @ [c]"
    unfolding length_log_text by (rule log_put_correct(2)) (use snoc.IH in simp)
  also have "\<dots> = keep_last 8191 (log_text ?s @ [c])"
    by (rule keep_last_step) (use \<open>log_count ?s \<le> 8191\<close> in simp_all)
  also have "\<dots> = keep_last 8191 (log_text s @ cs @ [c])" using snoc.IH keep_last_absorb [of 8191 "log_text s @ cs" "[c]"] by simp
  finally show ?case using log_put_correct(1) [of ?s c] snoc.IH by simp
qed

lemma log_put_set_log: "log_put c s = set_log (string_buffer (log_put c s)) (log_head (log_put c s)) (log_tail (log_put c s)) s"
  by (simp add: log_put_def set_log_def Let_def)

lemma log_puts_set_log: "\<exists>b h t. fold log_put cs s = set_log b h t s"
proof (induction cs rule: rev_induct)
  case Nil
  have "s = set_log (string_buffer s) (log_head s) (log_tail s) s" by (simp add: set_log_def)
  then show ?case by auto
next
  case (snoc c cs)
  then obtain b h t where e: "fold log_put cs s = set_log b h t s" by blast
  have "set_log b' h' t' (set_log b h t s) = set_log b' h' t' s" for b' h' t' by (simp add: set_log_def)
  then show ?case using log_put_set_log [of c "set_log b h t s"] e by auto
qed

section \<open>The copying loop\<close>

lemma copy_to_log:
  assumes "n \<le> 256"
  shows "for_up 0 (of_nat n :: u32) (\<lambda>i s. if i < 256 then Some (log_put (buf (ucast i)) s) else None) s
    = Some (fold log_put (map (\<lambda>i. buf (of_nat i)) [0..<n]) s)"
proof -
  have n: "unat (of_nat n :: u32) = n" by (rule of_nat_inverse [OF refl]) (use assms in simp)
  let ?P = "\<lambda>k s'. s' = fold log_put (map (\<lambda>i. buf (of_nat i)) [0..<k]) s"
  have "\<exists>s'. for_up 0 (of_nat n :: u32) (\<lambda>i s. if i < 256 then Some (log_put (buf (ucast i)) s) else None) s = Some s'
      \<and> ?P (unat (of_nat n :: u32)) s'"
  proof (rule for_up_rule)
    fix i :: u32 and s'
    assume i: "i < of_nat n" and P: "?P (unat i) s'"
    have "i < 256" using i n assms by (simp add: word_less_nat_alt)
    moreover have "(ucast i :: u64) = of_nat (unat i)" by (simp add: word_unat_eq_iff)
    ultimately show "\<exists>s''. (if i < 256 then Some (log_put (buf (ucast i)) s') else None) = Some s'' \<and> ?P (Suc (unat i)) s''"
      using P by simp
  qed simp_all
  then show ?thesis using n by auto
qed

lemma copy_overrun:
  assumes "256 < n" "n < 2 ^ 31"
  shows "for_up 0 (of_nat n :: u32) (\<lambda>i s. if i < 256 then Some (log_put (buf (ucast i)) s) else None) s = None"
proof (rule for_up_undefined [where m = 256 and P = "\<lambda>_ _. True"])
  have "unat (of_nat n :: u32) = n" by (rule of_nat_inverse [OF refl]) (use assms in simp)
  then show "256 < (of_nat n :: u32)" using assms by (simp add: word_less_nat_alt)
qed simp_all

section \<open>Printing\<close>

lemma signed_positive: "n < 2 ^ 31 \<Longrightarrow> (of_nat n :: u32) \<le>s 0 \<longleftrightarrow> n = 0"
proof -
  assume n: "n < 2 ^ 31"
  have "sint (of_nat n :: u32) = int n" using n by (simp add: signed_of_nat signed_take_bit_int_eq_self)
  then show ?thesis by (simp add: word_sle_eq)
qed

lemma printk_correct:
  assumes msg: "prints fmt va msg" "length msg \<le> 255" and log: "log_ok s" "log_text s = []"
  shows "\<exists>b h. (\<forall>s'. log_ok (set_log b h h s') \<and> log_text (set_log b h h s') = [])
    \<and> printk temp fmt va s = map_option (set_log b h h) (tty_write msg s)"
proof -
  obtain sk where sk: "snprintf False 256 fmt va \<lparr>sk_buffer = temp, sk_put = [], sk_fct = []\<rparr> = Some (of_nat (length msg), sk)"
    "sk_buffer sk = written 256 msg temp"
    by (rule snprintf_prints [OF msg(1), of 256 "\<lparr>sk_buffer = temp, sk_put = [], sk_fct = []\<rparr>"]) (use msg(2) in simp_all)
  have tl: "log_tail s = log_head s" using log_empty_iff [OF log(1)] log(2) length_log_text [of s] by simp
  have h: "unat (log_head s) < 8192" using log(1) by (simp add: log_ok_def)
  show ?thesis
  proof (cases "msg = []")
    case True
    then have "printk temp fmt va s = Some s" using sk(1) by (simp add: printk_def vsnprintf_def snprintf_def)
    moreover have "set_log (string_buffer s) (log_head s) (log_head s) s = s" using tl by (simp add: set_log_def)
    moreover have "log_ok (set_log (string_buffer s) (log_head s) (log_head s) s')
        \<and> log_text (set_log (string_buffer s) (log_head s) (log_head s) s') = []" for s'
      using h by (simp add: set_log_def log_ok_def log_text_def log_count_def)
    ultimately show ?thesis using True by (intro exI [of _ "string_buffer s"] exI [of _ "log_head s"]) simp
  next
    case False
    have "map (\<lambda>i. sk_buffer sk (of_nat i)) [0..<length msg] = msg"
    proof (rule nth_equalityI)
      fix i assume "i < length (map (\<lambda>i. sk_buffer sk (of_nat i)) [0..<length msg])"
      then have i: "i < length msg" by simp
      have "unat (of_nat i :: u64) = i" by (rule of_nat_inverse [OF refl]) (use i msg(2) in simp)
      then show "map (\<lambda>i. sk_buffer sk (of_nat i)) [0..<length msg] ! i = msg ! i"
        using i msg(2) by (simp add: sk(2) written_def Let_def)
    qed simp
    then have "printk temp fmt va s = tty_flush (fold log_put msg s)"
      using sk(1) False msg(2) copy_to_log [of "length msg" "sk_buffer sk" s]
      by (simp add: printk_def vsnprintf_def snprintf_def signed_positive)
    moreover obtain b h t where e: "fold log_put msg s = set_log b h t s" using log_puts_set_log by blast
    have ok: "log_ok (set_log b h t s)" "log_text (set_log b h t s) = msg"
      using log_puts_correct [OF log(1), of msg] log(2) msg(2) unfolding e by (simp_all add: keep_last_def)
    have "(set_log b h t s')\<lparr>log_tail := h\<rparr> = set_log b h h s'" for s' by (simp add: set_log_def)
    moreover have "log_head (set_log b h t s) = h" by (simp add: set_log_def)
    ultimately have "printk temp fmt va s = map_option (set_log b h h) (tty_write msg s)"
      using tty_flush_correct [OF ok(1)] unfolding e ok(2) by (simp add: tty_write_set_log option.map_comp o_def)
    moreover have "log_ok (set_log b h h s') \<and> log_text (set_log b h h s') = []" for s'
      using ok(1) by (simp add: set_log_def log_ok_def log_text_def log_count_def)
    ultimately show ?thesis by blast
  qed
qed

end
