(* ===== verification/Console_Screen.thy ===== *)
theory Console_Screen
  imports Console
begin

text \<open>
  What is on the screen: the picture the terminal draws as a function of the text buffer, and that
  drawing a glyph, clearing and redrawing paint exactly their part of it.
\<close>

section \<open>Geometry\<close>

abbreviation (input) "fwidth s \<equiv> unat (fb_width (term_fb s))"
abbreviation (input) "fheight s \<equiv> unat (fb_height (term_fb s))"
abbreviation (input) "gwidth s \<equiv> unat (psf_width (psf_header (term_font s)))"
abbreviation (input) "gheight s \<equiv> unat (psf_height (psf_header (term_font s)))"

definition stride :: "console \<Rightarrow> nat" where
  "stride s = unat (fb_pitch (term_fb s) div 4)"

text \<open>Every glyph has as many bytes as its lines need, and all of them are in the image.\<close>

definition font_ok :: "psf_font_t \<Rightarrow> bool" where
  "font_ok font \<longleftrightarrow>
     (let w = unat (psf_width (psf_header font)); h = unat (psf_height (psf_header font));
          b = unat (psf_bytesperglyph (psf_header font)); n = unat (psf_numglyph (psf_header font)) in
      0 < w \<and> 0 < h \<and> w + 7 < 2 ^ 32 \<and> h * ((w + 7) div 8) \<le> b \<and> 256 * b < 2 ^ 32
      \<and> max 1 n * b \<le> length (psf_glyphs font))"

definition geometry_ok :: "console \<Rightarrow> bool" where
  "geometry_ok s \<longleftrightarrow> font_ok (term_font s) \<and> fwidth s \<le> stride s \<and> fwidth s < 2 ^ 32 \<and> fheight s < 2 ^ 32
     \<and> fheight s * stride s \<le> 2 ^ 64 \<and> unat (cols s) * gwidth s \<le> fwidth s \<and> unat (rows s) * gheight s \<le> fheight s
     \<and> unat (cols s) \<le> 256 \<and> unat (rows s) \<le> 512"

lemma geometry_okD:
  assumes "geometry_ok s"
  shows "font_ok (term_font s)" "fwidth s \<le> stride s" "fwidth s < 2 ^ 32" "fheight s < 2 ^ 32" "fheight s * stride s \<le> 2 ^ 64"
    "unat (cols s) * gwidth s \<le> fwidth s" "unat (rows s) * gheight s \<le> fheight s" "unat (cols s) \<le> 256" "unat (rows s) \<le> 512"
    "0 < gwidth s" "0 < gheight s"
  using assms by (auto simp: geometry_ok_def font_ok_def Let_def)

section \<open>Painting\<close>

definition pixel :: "console \<Rightarrow> nat \<Rightarrow> nat \<Rightarrow> u32" where
  "pixel s x y = vram s (of_nat (y * stride s + x))"

definition paints :: "console \<Rightarrow> (nat \<Rightarrow> nat \<Rightarrow> u32) \<Rightarrow> console \<Rightarrow> bool" where
  "paints s f s' \<longleftrightarrow> s' = s\<lparr>vram := vram s'\<rparr> \<and> (\<forall>x y. x < fwidth s \<longrightarrow> y < fheight s \<longrightarrow> pixel s' x y = f x y)"

lemma paints_refl: "paints s (pixel s) s"
  by (simp add: paints_def)

lemma paints_cong:
  "paints s f s' \<Longrightarrow> (\<And>x y. x < fwidth s \<Longrightarrow> y < fheight s \<Longrightarrow> f x y = g x y) \<Longrightarrow> paints s g s'"
  by (simp add: paints_def)

lemma paints_ex_cong:
  "\<exists>s'. r = Some s' \<and> paints s f s' \<Longrightarrow> (\<And>x y. x < fwidth s \<Longrightarrow> y < fheight s \<Longrightarrow> f x y = g x y)
    \<Longrightarrow> \<exists>s'. r = Some s' \<and> paints s g s'"
  using paints_cong by blast

lemma paints_sel:
  assumes "paints s f s'"
  shows "term_fb s' = term_fb s" "term_font s' = term_font s" "tty_buffer s' = tty_buffer s" "tty_row s' = tty_row s"
    "view_row s' = view_row s" "cols s' = cols s" "rows s' = rows s" "term_cx s' = term_cx s" "term_fg s' = term_fg s"
    "term_bg s' = term_bg s" "stride s' = stride s"
proof -
  obtain v where v: "s' = s\<lparr>vram := v\<rparr>" using assms unfolding paints_def by blast
  show "term_fb s' = term_fb s" "term_font s' = term_font s" "tty_buffer s' = tty_buffer s" "tty_row s' = tty_row s"
    "view_row s' = view_row s" "cols s' = cols s" "rows s' = rows s" "term_cx s' = term_cx s" "term_fg s' = term_fg s"
    "term_bg s' = term_bg s" "stride s' = stride s" by (simp_all add: v stride_def)
qed

lemma paints_trans:
  assumes "paints s f s1" "paints s1 g s2"
  shows "paints s g s2"
proof -
  obtain v w where v: "s1 = s\<lparr>vram := v\<rparr>" "s2 = s1\<lparr>vram := w\<rparr>" using assms unfolding paints_def by blast
  then show ?thesis using assms(2) by (simp add: paints_def)
qed

lemma cell_inj:
  "x < n \<Longrightarrow> x' < n \<Longrightarrow> y * n + x = y' * n + x' \<longleftrightarrow> x = x' \<and> y = (y' :: nat)"
proof -
  assume a: "x < n" "x' < n"
  then have d: "(y * n + x) div n = y" "(y' * n + x') div n = y'" by simp_all
  show "y * n + x = y' * n + x' \<longleftrightarrow> x = x' \<and> y = y'" using d by (metis add_left_cancel)
qed

lemma pixel_bound: "geometry_ok s \<Longrightarrow> x < fwidth s \<Longrightarrow> y < fheight s \<Longrightarrow> y * stride s + x < 2 ^ 64"
proof -
  assume g: "geometry_ok s" and xy: "x < fwidth s" "y < fheight s"
  have "x < stride s" using geometry_okD(2) [OF g] xy(1) by simp
  then have "y * stride s + x < Suc y * stride s" by simp
  also have "\<dots> \<le> fheight s * stride s" using xy(2) by (intro mult_le_mono1) simp
  finally show ?thesis using geometry_okD(5) [OF g] by simp
qed

lemma putpixel_paints:
  assumes g: "geometry_ok s0" and p: "paints s0 f s" and xy: "unat X < fwidth s0" "unat Y < fheight s0"
  shows "paints s0 (\<lambda>x y. if x = unat X \<and> y = unat Y then c else f x y) (fb_putpixel X Y c s)"
proof -
  note sel = paints_sel [OF p]
  have "unat (of_nat (unat Y * stride s0 + unat X) :: u64) = unat Y * stride s0 + unat X"
    by (rule of_nat_inverse [OF refl]) (use pixel_bound [OF g xy] in simp)
  moreover have "Y * (fb_pitch (term_fb s) div 4) + X = of_nat (unat Y * stride s0 + unat X)"
    by (simp add: sel stride_def)
  ultimately have at: "unat (Y * (fb_pitch (term_fb s) div 4) + X) = unat Y * stride s0 + unat X" by simp
  have "pixel (fb_putpixel X Y c s) x y = (if x = unat X \<and> y = unat Y then c else f x y)" if "x < fwidth s0" "y < fheight s0" for x y
  proof -
    have "unat (of_nat (y * stride s0 + x) :: u64) = y * stride s0 + x"
      by (rule of_nat_inverse [OF refl]) (use pixel_bound [OF g that] in simp)
    then have "of_nat (y * stride s0 + x) = Y * (fb_pitch (term_fb s) div 4) + X \<longleftrightarrow> x = unat X \<and> y = unat Y"
      unfolding word_unat_eq_iff at using geometry_okD(2) [OF g] that xy cell_inj [of x "stride s0" "unat X" y "unat Y"] by simp
    then show ?thesis using p that by (simp add: fb_putpixel_def pixel_def paints_def sel stride_def)
  qed
  moreover have "fb_putpixel X Y c s = s0\<lparr>vram := vram (fb_putpixel X Y c s)\<rparr>"
  proof -
    obtain v where v: "s = s0\<lparr>vram := v\<rparr>" using p unfolding paints_def by blast
    show ?thesis by (simp add: fb_putpixel_def v)
  qed
  ultimately show ?thesis by (simp add: paints_def)
qed

text \<open>A loop whose steps paint disjoint regions paints their union.\<close>

lemma paint_loop:
  fixes n :: "'a::len word"
  assumes start: "paints s0 f s"
    and disj: "\<And>i j x y. reg i x y \<Longrightarrow> reg j x y \<Longrightarrow> i = j"
    and step: "\<And>i s h. i < n \<Longrightarrow> paints s0 h s \<Longrightarrow> (\<And>x y. reg (unat i) x y \<Longrightarrow> h x y = f x y)
      \<Longrightarrow> \<exists>s'. body i s = Some s' \<and> paints s0 (\<lambda>x y. if reg (unat i) x y then g x y else h x y) s'"
  shows "\<exists>s'. for_up 0 n body s = Some s' \<and> paints s0 (\<lambda>x y. if \<exists>k<unat n. reg k x y then g x y else f x y) s'"
proof (rule for_up_rule [where P = "\<lambda>m s. paints s0 (\<lambda>x y. if \<exists>k<m. reg k x y then g x y else f x y) s"])
  show "paints s0 (\<lambda>x y. if \<exists>k<unat (0 :: 'a word). reg k x y then g x y else f x y) s" using start by simp
  fix i :: "'a word" and s
  assume i: "i < n" and p: "paints s0 (\<lambda>x y. if \<exists>k<unat i. reg k x y then g x y else f x y) s"
  have "\<exists>s'. body i s = Some s' \<and> paints s0 (\<lambda>x y. if reg (unat i) x y then g x y
      else (if \<exists>k<unat i. reg k x y then g x y else f x y)) s'"
    by (rule step [OF i p]) (use disj in \<open>auto dest: disj\<close>)
  moreover have "(if reg (unat i) x y then g x y else (if \<exists>k<unat i. reg k x y then g x y else f x y))
      = (if \<exists>k<Suc (unat i). reg k x y then g x y else f x y)" for x y
    by (auto simp: less_Suc_eq)
  ultimately show "\<exists>s'. body i s = Some s' \<and> paints s0 (\<lambda>x y. if \<exists>k<Suc (unat i). reg k x y then g x y else f x y) s'"
    by simp
qed simp

section \<open>Clearing\<close>

lemma fb_clear_paints:
  assumes g: "geometry_ok s0" and p: "paints s0 f s"
  shows "\<exists>s'. fb_clear color s = Some s' \<and> paints s0 (\<lambda>_ _. color) s'"
proof -
  let ?w = "fb_width (term_fb s)" and ?h = "fb_height (term_fb s)"
  note sel = paints_sel [OF p]
  have "\<exists>s'. for_up 0 ?h (\<lambda>row. for_up 0 ?w (\<lambda>col s. Some (fb_putpixel col row color s))) s = Some s'
      \<and> paints s0 (\<lambda>x y. if \<exists>k<unat ?h. y = k \<and> x < unat ?w then color else f x y) s'"
  proof (rule paint_loop [OF p])
    fix i s h
    assume i: "i < ?h" and p1: "paints s0 h s" and same: "\<And>x y. y = unat i \<and> x < unat ?w \<Longrightarrow> h x y = f x y"
    have "\<exists>s'. for_up 0 ?w (\<lambda>col s. Some (fb_putpixel col i color s)) s = Some s'
        \<and> paints s0 (\<lambda>x y. if \<exists>k<unat ?w. x = k \<and> y = unat i then color else h x y) s'"
    proof (rule paint_loop [OF p1])
      fix j s h'
      assume j: "j < ?w" and p2: "paints s0 h' s"
      have "paints s0 (\<lambda>x y. if x = unat j \<and> y = unat i then color else h' x y) (fb_putpixel j i color s)"
        by (rule putpixel_paints [OF g p2]) (use i j in \<open>simp_all add: sel word_less_nat_alt\<close>)
      then show "\<exists>s'. Some (fb_putpixel j i color s) = Some s' \<and> paints s0 (\<lambda>x y. if x = unat j \<and> y = unat i then color else h' x y) s'"
        by blast
    qed simp
    then show "\<exists>s'. for_up 0 ?w (\<lambda>col s. Some (fb_putpixel col i color s)) s = Some s'
        \<and> paints s0 (\<lambda>x y. if y = unat i \<and> x < unat ?w then color else h x y) s'"
      by (rule paints_ex_cong) auto
  qed simp
  then show ?thesis
    unfolding fb_clear_def fb_fill_rect_def add_0
    by (rule paints_ex_cong) (auto simp: sel)
qed

section \<open>Glyphs\<close>

definition glyph_pixel :: "console \<Rightarrow> u8 \<Rightarrow> nat \<Rightarrow> nat \<Rightarrow> u32" where
  "glyph_pixel s c gx gy =
     (case glyph_byte (term_font s) c (of_nat gy) (of_nat gx) of
        Some byte \<Rightarrow> if byte AND drop_bit (gx mod 8) 0x80 \<noteq> 0 then term_fg s else term_bg s
      | None \<Rightarrow> term_bg s)"

lemma mult_fits:
  fixes a b :: u32
  assumes "unat a * unat b < 2 ^ 32"
  shows "unat (a * b) = unat a * unat b"
proof -
  have "unat (a * b) = (unat a * unat b) mod 2 ^ 32" by (simp add: unat_word_ariths)
  then show ?thesis using assms by simp
qed

lemma add_fits:
  fixes a b :: u32
  assumes "unat a + unat b < 2 ^ 32"
  shows "unat (a + b) = unat a + unat b"
proof -
  have "unat (a + b) = (unat a + unat b) mod 2 ^ 32" by (simp add: unat_word_ariths)
  then show ?thesis using assms by simp
qed

lemma glyph_byte_defined:
  assumes f: "font_ok font" and r: "unat row < unat (psf_height (psf_header font))" and c: "unat col < unat (psf_width (psf_header font))"
  shows "\<exists>byte. glyph_byte font ch row col = Some byte"
proof -
  let ?h = "psf_header font"
  define bpl where "bpl = (psf_width ?h + 7) div 8"
  define cc :: u8 where "cc = (if psf_numglyph ?h \<le> ucast ch then 0 else ch)"
  let ?w = "unat (psf_width ?h)" and ?b = "unat (psf_bytesperglyph ?h)" and ?n = "unat (psf_numglyph ?h)"
  have F: "?w + 7 < 2 ^ 32" "unat (psf_height ?h) * ((?w + 7) div 8) \<le> ?b" "256 * ?b < 2 ^ 32" "max 1 ?n * ?b \<le> length (psf_glyphs font)"
    using f by (simp_all add: font_ok_def Let_def)
  have "unat (psf_width ?h + 7) = ?w + 7" using add_fits [of "psf_width ?h" 7] F(1) by simp
  then have ub: "unat bpl = (?w + 7) div 8" by (simp add: bpl_def unat_div)
  have bpos: "unat col div 8 < unat bpl" using c unfolding ub by (simp add: div_less_iff_less_mult algebra_simps) presburger?
  have line: "unat row * unat bpl + unat col div 8 < unat (psf_height ?h) * unat bpl"
  proof -
    have "unat row * unat bpl + unat col div 8 < Suc (unat row) * unat bpl" using bpos by simp
    also have "\<dots> \<le> unat (psf_height ?h) * unat bpl" using r by (intro mult_le_mono1) simp
    finally show ?thesis .
  qed
  have small: "unat (psf_height ?h) * unat bpl \<le> ?b" using F(2) by (simp add: ub)
  have b32: "?b < 2 ^ 32" using F(3) by linarith
  have "unat (row * bpl) = unat row * unat bpl" by (rule mult_fits) (use line small b32 in linarith)
  moreover have "unat (col div 8) = unat col div 8" by (simp add: unat_div)
  ultimately have off: "unat (row * bpl + col div 8) = unat row * unat bpl + unat col div 8"
    using add_fits [of "row * bpl" "col div 8"] line small b32 by simp
  have u8: "unat (ucast c :: u32) = unat c \<and> unat c < 256" for c :: u8
  proof -
    have "unat c < 2 ^ 8" by (rule order_less_le_trans [OF unsigned_less]) simp
    then show ?thesis by (simp add: unsigned_ucast_eq take_bit_nat_eq_self_iff)
  qed
  have cc: "unat cc < max 1 ?n" "unat cc < 256" using u8 by (auto simp: cc_def word_le_nat_alt)
  have "unat (ucast cc :: u32) = unat cc" using u8 by simp
  moreover have "unat cc * ?b < 2 ^ 32" using F(3) cc(2) by (meson less_imp_le_nat mult_le_mono1 order_le_less_trans)
  ultimately have base: "unat (ucast cc * psf_bytesperglyph ?h) = unat cc * ?b" using mult_fits [of "ucast cc"] by simp
  have "unat cc * ?b + ?b \<le> max 1 ?n * ?b" using mult_le_mono1 [of "Suc (unat cc)" "max 1 ?n" ?b] cc(1) by simp
  then have "unat cc * ?b + (unat row * unat bpl + unat col div 8) < length (psf_glyphs font)" using line small F(4) by linarith
  then show ?thesis
    unfolding glyph_byte_def Let_def cc_def [symmetric] bpl_def [symmetric] base off by simp
qed

lemma glyph_pixel_paints:
  assumes g: "geometry_ok s0" and p: "paints s0 f s" and r: "row < psf_height (psf_header (term_font s0))"
    and c: "col < psf_width (psf_header (term_font s0))"
    and room: "unat px + gwidth s0 \<le> fwidth s0" "unat py + gheight s0 \<le> fheight s0"
  shows "\<exists>s'. do {
          byte \<leftarrow> glyph_byte (term_font s) ch row col;
          let color = (if byte AND drop_bit (unat (col mod 8)) 0x80 \<noteq> 0 then term_fg s else term_bg s);
          Some (fb_putpixel (px + ucast col) (py + ucast row) color s)
        } = Some s' \<and> paints s0 (\<lambda>x y. if x = unat px + unat col \<and> y = unat py + unat row
          then glyph_pixel s0 ch (unat col) (unat row) else f x y) s'"
proof -
  note sel = paints_sel [OF p]
  have rc: "unat row < gheight s0" "unat col < gwidth s0" using r c by (simp_all add: word_less_nat_alt)
  obtain byte where b: "glyph_byte (term_font s0) ch row col = Some byte"
    using glyph_byte_defined [OF geometry_okD(1) [OF g] rc] by blast
  have at: "unat (px + ucast col) = unat px + unat col" "unat (py + ucast row) = unat py + unat row"
    using unat_add_no_wrap [of px "ucast col"] unat_add_no_wrap [of py "ucast row"] rc room geometry_okD(3,4) [OF g] by simp_all
  have "unat (col mod 8) = unat col mod 8" by (simp add: unat_mod)
  then have col: "glyph_pixel s0 ch (unat col) (unat row) = (if byte AND drop_bit (unat (col mod 8)) 0x80 \<noteq> 0 then term_fg s0 else term_bg s0)"
    by (simp add: glyph_pixel_def b)
  have "paints s0 (\<lambda>x y. if x = unat (px + ucast col) \<and> y = unat (py + ucast row) then k else f x y)
      (fb_putpixel (px + ucast col) (py + ucast row) k s)" for k
    by (rule putpixel_paints [OF g p]) (use at rc room in linarith)+
  then show ?thesis by (simp add: sel b col at cong: if_cong)
qed

definition in_cell :: "console \<Rightarrow> nat \<Rightarrow> nat \<Rightarrow> nat \<Rightarrow> nat \<Rightarrow> bool" where
  "in_cell s X Y x y \<longleftrightarrow> X \<le> x \<and> x < X + gwidth s \<and> Y \<le> y \<and> y < Y + gheight s"

lemma draw_glyph_paints:
  assumes g: "geometry_ok s0" and p: "paints s0 f s"
    and room: "unat px + gwidth s0 \<le> fwidth s0" "unat py + gheight s0 \<le> fheight s0"
  shows "\<exists>s'. draw_glyph ch px py s = Some s' \<and> paints s0 (\<lambda>x y. if in_cell s0 (unat px) (unat py) x y
    then glyph_pixel s0 ch (x - unat px) (y - unat py) else f x y) s'"
proof -
  let ?h = "psf_height (psf_header (term_font s0))" and ?w = "psf_width (psf_header (term_font s0))"
  let ?G = "\<lambda>x y. glyph_pixel s0 ch (x - unat px) (y - unat py)"
  note sel = paints_sel [OF p]
  have inner: "\<exists>s'. for_up 0 ?w (\<lambda>col s. do {
          byte \<leftarrow> glyph_byte (term_font s) ch row col;
          let color = (if byte AND drop_bit (unat (col mod 8)) 0x80 \<noteq> 0 then term_fg s else term_bg s);
          Some (fb_putpixel (px + ucast col) (py + ucast row) color s)
        }) s = Some s' \<and> paints s0 (\<lambda>x y. if \<exists>k<unat ?w. x = unat px + k \<and> y = unat py + unat row then ?G x y else h x y) s'"
    if "row < ?h" "paints s0 h s" for row h s
  proof (rule paint_loop [OF that(2)])
    show "i = j" if "x = unat px + i \<and> y = unat py + unat row" "x = unat px + j \<and> y = unat py + unat row" for i j x y
      using that by simp
    fix i s h' assume i: "i < ?w" and p2: "paints s0 h' s"
    have "\<exists>s'. do {
          byte \<leftarrow> glyph_byte (term_font s) ch row i;
          let color = (if byte AND drop_bit (unat (i mod 8)) 0x80 \<noteq> 0 then term_fg s else term_bg s);
          Some (fb_putpixel (px + ucast i) (py + ucast row) color s)
        } = Some s' \<and> paints s0 (\<lambda>x y. if x = unat px + unat i \<and> y = unat py + unat row
          then glyph_pixel s0 ch (unat i) (unat row) else h' x y) s'"
      by (rule glyph_pixel_paints [OF g p2 that(1) i room])
    then show "\<exists>s'. do {
          byte \<leftarrow> glyph_byte (term_font s) ch row i;
          let color = (if byte AND drop_bit (unat (i mod 8)) 0x80 \<noteq> 0 then term_fg s else term_bg s);
          Some (fb_putpixel (px + ucast i) (py + ucast row) color s)
        } = Some s' \<and> paints s0 (\<lambda>x y. if x = unat px + unat i \<and> y = unat py + unat row then ?G x y else h' x y) s'"
      by (rule paints_ex_cong) auto
  qed
  have "\<exists>s'. for_up 0 ?h (\<lambda>row. for_up 0 ?w (\<lambda>col s. do {
          byte \<leftarrow> glyph_byte (term_font s) ch row col;
          let color = (if byte AND drop_bit (unat (col mod 8)) 0x80 \<noteq> 0 then term_fg s else term_bg s);
          Some (fb_putpixel (px + ucast col) (py + ucast row) color s)
        })) s = Some s' \<and> paints s0 (\<lambda>x y. if \<exists>r<unat ?h. y = unat py + r \<and> unat px \<le> x \<and> x < unat px + unat ?w then ?G x y else f x y) s'"
  proof (rule paint_loop [OF p])
    show "i = j" if "y = unat py + i \<and> unat px \<le> x \<and> x < unat px + unat ?w" "y = unat py + j \<and> unat px \<le> x \<and> x < unat px + unat ?w" for i j x y
      using that by simp
    fix i s h assume i: "i < ?h" and p1: "paints s0 h s"
    have "(\<exists>k<unat ?w. x = unat px + k \<and> y = unat py + unat i) \<longleftrightarrow> y = unat py + unat i \<and> unat px \<le> x \<and> x < unat px + unat ?w" for x y
      by (auto simp: le_iff_add)
    then show "\<exists>s'. for_up 0 ?w (\<lambda>col s. do {
          byte \<leftarrow> glyph_byte (term_font s) ch i col;
          let color = (if byte AND drop_bit (unat (col mod 8)) 0x80 \<noteq> 0 then term_fg s else term_bg s);
          Some (fb_putpixel (px + ucast col) (py + ucast i) color s)
        }) s = Some s' \<and> paints s0 (\<lambda>x y. if y = unat py + unat i \<and> unat px \<le> x \<and> x < unat px + unat ?w then ?G x y else h x y) s'"
      using inner [OF i p1] by simp
  qed
  moreover have "(\<exists>r<unat ?h. y = unat py + r \<and> unat px \<le> x \<and> x < unat px + unat ?w) \<longleftrightarrow> in_cell s0 (unat px) (unat py) x y" for x y
    by (auto simp: in_cell_def le_iff_add)
  ultimately show ?thesis by (simp add: draw_glyph_def Let_def sel)
qed

section \<open>The picture of the text\<close>

definition screen_of :: "console \<Rightarrow> nat \<Rightarrow> nat \<Rightarrow> u32" where
  "screen_of s x y =
     (if x < unat (cols s) * gwidth s \<and> y < unat (rows s) * gheight s then
        (let c = tty_buffer s ((view_row s + of_nat (y div gheight s)) mod MAX_ROWS) (of_nat (x div gwidth s)) in
         if c = NUL then term_bg s else glyph_pixel s (u8_of c) (x mod gwidth s) (y mod gheight s))
      else term_bg s)"

lemma cell_div: "0 < (n :: nat) \<Longrightarrow> c * n \<le> x \<and> x < c * n + n \<longleftrightarrow> x div n = c"
  by (metis add.commute div_nat_eqI dividend_less_times_div mult.commute mult_Suc_right times_div_less_eq_dividend)

lemma in_cell_div:
  assumes g: "geometry_ok s"
  shows "in_cell s (c * gwidth s) (r * gheight s) x y \<longleftrightarrow> x div gwidth s = c \<and> y div gheight s = r"
  using cell_div [of "gwidth s" c x] cell_div [of "gheight s" r y] geometry_okD(10,11) [OF g] by (auto simp: in_cell_def)

lemma text_cell_paints:
  assumes g: "geometry_ok s0" and p: "paints s0 h s" and r: "row < rows s0" and c: "col < cols s0"
    and bg: "\<And>x y. x div gwidth s0 = unat col \<and> y div gheight s0 = unat row \<Longrightarrow> h x y = term_bg s0"
  shows "\<exists>s'. do {
             c \<leftarrow> get_char ((view_row s + row) mod MAX_ROWS) col s;
             if c = NUL then Some s
             else draw_glyph (u8_of c) (ucast (col * psf_width (psf_header (term_font s0)))) (ucast (row * psf_height (psf_header (term_font s0)))) s
           } = Some s' \<and> paints s0 (\<lambda>x y. if x div gwidth s0 = unat col \<and> y div gheight s0 = unat row
             then screen_of s0 x y else h x y) s'"
proof -
  note sel = paints_sel [OF p]
  have rc: "Suc (unat row) \<le> unat (rows s0)" "Suc (unat col) \<le> unat (cols s0)" using r c by (simp_all add: word_less_nat_alt)
  define X where "X = unat col * gwidth s0"
  define Y where "Y = unat row * gheight s0"
  have room: "X + gwidth s0 \<le> unat (cols s0) * gwidth s0" "Y + gheight s0 \<le> unat (rows s0) * gheight s0"
    using mult_le_mono1 [OF rc(2), of "gwidth s0"] mult_le_mono1 [OF rc(1), of "gheight s0"] by (simp_all add: X_def Y_def)
  have at: "unat (col * psf_width (psf_header (term_font s0))) = X" "unat (row * psf_height (psf_header (term_font s0))) = Y"
    unfolding X_def Y_def by (rule mult_fits; use room geometry_okD(3,4,6,7) [OF g] in \<open>simp add: X_def Y_def\<close>)+
  let ?ch = "tty_buffer s0 ((view_row s0 + row) mod MAX_ROWS) col"
  have "col < 256" using rc(2) geometry_okD(8) [OF g] by (simp add: word_less_nat_alt)
  then have gc: "get_char ((view_row s + row) mod MAX_ROWS) col s = Some ?ch" by (simp add: get_char_def sel)
  have inside: "x < unat (cols s0) * gwidth s0 \<and> y < unat (rows s0) * gheight s0 \<and> in_cell s0 X Y x y
      \<and> x mod gwidth s0 = x - X \<and> y mod gheight s0 = y - Y"
    if "x div gwidth s0 = unat col \<and> y div gheight s0 = unat row" for x y
  proof -
    have i: "in_cell s0 X Y x y" using in_cell_div [OF g] that by (simp add: X_def Y_def)
    moreover have "x mod gwidth s0 = x - X" "y mod gheight s0 = y - Y"
      using that by (simp_all add: modulo_nat_def X_def Y_def mult.commute)
    ultimately show ?thesis using room by (auto simp: in_cell_def)
  qed
  have scr: "screen_of s0 x y = (if ?ch = NUL then term_bg s0 else glyph_pixel s0 (u8_of ?ch) (x - X) (y - Y))"
    if "x div gwidth s0 = unat col \<and> y div gheight s0 = unat row" for x y
    using inside [OF that] that by (simp add: screen_of_def Let_def)
  show ?thesis
  proof (cases "?ch = NUL")
    case True
    have "paints s0 (\<lambda>x y. if x div gwidth s0 = unat col \<and> y div gheight s0 = unat row then screen_of s0 x y else h x y) s"
      using p by (rule paints_cong) (use bg scr True in auto)
    then show ?thesis using gc True by simp
  next
    case False
    have "\<exists>s'. draw_glyph (u8_of ?ch) (ucast (col * psf_width (psf_header (term_font s0)))) (ucast (row * psf_height (psf_header (term_font s0)))) s = Some s'
        \<and> paints s0 (\<lambda>x y. if in_cell s0 X Y x y then glyph_pixel s0 (u8_of ?ch) (x - X) (y - Y) else h x y) s'"
      using draw_glyph_paints [OF g p, of "ucast (col * psf_width (psf_header (term_font s0)))"
          "ucast (row * psf_height (psf_header (term_font s0)))" "u8_of ?ch"] room geometry_okD(6,7) [OF g] by (simp add: at cong: if_cong)
    then have "\<exists>s'. draw_glyph (u8_of ?ch) (ucast (col * psf_width (psf_header (term_font s0)))) (ucast (row * psf_height (psf_header (term_font s0)))) s = Some s'
        \<and> paints s0 (\<lambda>x y. if x div gwidth s0 = unat col \<and> y div gheight s0 = unat row then screen_of s0 x y else h x y) s'"
      by (rule paints_ex_cong) (use scr False in_cell_div [OF g, of "unat col" "unat row", folded X_def Y_def] in auto)
    then show ?thesis using gc False by simp
  qed
qed

lemma tty_redraw_paints:
  assumes g: "geometry_ok s"
  shows "\<exists>s'. tty_redraw s = Some s' \<and> paints s (screen_of s) s'"
proof -
  obtain s1 where s1: "fb_clear (term_bg s) s = Some s1" "paints s (\<lambda>_ _. term_bg s) s1"
    using fb_clear_paints [OF g paints_refl] by blast
  note sel = paints_sel [OF s1(2)]
  let ?h = "psf_header (term_font s)"
  let ?cell = "\<lambda>row col s. do {
             c \<leftarrow> get_char ((view_row s + row) mod MAX_ROWS) col s;
             if c = NUL then Some s
             else draw_glyph (u8_of c) (ucast (col * psf_width ?h)) (ucast (row * psf_height ?h)) s
           }"
  have "\<exists>s'. for_up 0 (rows s) (\<lambda>row s. for_up 0 (cols s) (?cell row) s) s1 = Some s' \<and>
      paints s (\<lambda>x y. if \<exists>r<unat (rows s). x div gwidth s < unat (cols s) \<and> y div gheight s = r then screen_of s x y else term_bg s) s'"
  proof (rule paint_loop [OF s1(2)])
    fix row s2 h
    assume row: "row < rows s" and p: "paints s h s2"
      and bg: "\<And>x y. x div gwidth s < unat (cols s) \<and> y div gheight s = unat row \<Longrightarrow> h x y = term_bg s"
    have "\<exists>s'. for_up 0 (cols s) (?cell row) s2 = Some s' \<and>
        paints s (\<lambda>x y. if \<exists>c<unat (cols s). x div gwidth s = c \<and> y div gheight s = unat row then screen_of s x y else h x y) s'"
    proof (rule paint_loop [OF p])
      fix col s3 h'
      assume col: "col < cols s" and p2: "paints s h' s3"
        and same: "\<And>x y. x div gwidth s = unat col \<and> y div gheight s = unat row \<Longrightarrow> h' x y = h x y"
      show "\<exists>s'. ?cell row col s3 = Some s' \<and>
          paints s (\<lambda>x y. if x div gwidth s = unat col \<and> y div gheight s = unat row then screen_of s x y else h' x y) s'"
        by (rule text_cell_paints [OF g p2 row col]) (use same bg col in \<open>auto simp: word_less_nat_alt\<close>)
    qed simp
    then show "\<exists>s'. for_up 0 (cols s2) (?cell row) s2 = Some s' \<and>
        paints s (\<lambda>x y. if x div gwidth s < unat (cols s) \<and> y div gheight s = unat row then screen_of s x y else h x y) s'"
      unfolding paints_sel [OF p] by (rule paints_ex_cong) auto
  qed simp
  then have "\<exists>s'. for_up 0 (rows s) (\<lambda>row s. for_up 0 (cols s) (?cell row) s) s1 = Some s' \<and> paints s (screen_of s) s'"
    by (rule paints_ex_cong)
      (use geometry_okD(10,11) [OF g] in \<open>auto simp: screen_of_def div_less_iff_less_mult\<close>)
  then show ?thesis using s1(1) by (simp add: tty_redraw_def Let_def sel cong: if_cong)
qed

end
