(* ===== verification/Console_Term.thy ===== *)
theory Console_Term
  imports Console_Screen
begin

text \<open>
  The invariant of the terminal: the screen shows the lines of the text buffer from \<open>view_row\<close> on, and
  the visible lines below the current one are blank; every operation of the terminal keeps it.
\<close>

definition shows_text :: "console \<Rightarrow> bool" where
  "shows_text s \<longleftrightarrow> (\<forall>x y. x < fwidth s \<longrightarrow> y < fheight s \<longrightarrow> pixel s x y = screen_of s x y)"

text \<open>The line of the buffer shown as line \<open>k\<close> of the screen.\<close>

definition visible_line :: "console \<Rightarrow> nat \<Rightarrow> u32 \<Rightarrow> char" where
  "visible_line s k = tty_buffer s ((view_row s + of_nat k) mod MAX_ROWS)"

definition term_ok :: "console \<Rightarrow> bool" where
  "term_ok s \<longleftrightarrow> geometry_ok s \<and> shows_text s \<and> term_cx s \<le> cols s \<and> unat (view_row s) \<le> unat (tty_row s)
     \<and> unat (tty_row s) - unat (view_row s) < 512
     \<and> (\<forall>k c. k < unat (rows s) \<longrightarrow> unat (tty_row s) < unat (view_row s) + k \<longrightarrow> c < cols s \<longrightarrow> visible_line s k c = NUL)"

lemma term_okD:
  assumes "term_ok s"
  shows "geometry_ok s" "shows_text s" "term_cx s \<le> cols s" "unat (view_row s) \<le> unat (tty_row s)"
    "unat (tty_row s) - unat (view_row s) < 512"
    "k < unat (rows s) \<Longrightarrow> unat (tty_row s) < unat (view_row s) + k \<Longrightarrow> c < cols s \<Longrightarrow> visible_line s k c = NUL"
  using assms by (auto simp: term_ok_def)

text \<open>A pure change of the text keeps the geometry.\<close>

lemma geometry_ok_cong:
  "term_fb s' = term_fb s \<Longrightarrow> term_font s' = term_font s \<Longrightarrow> cols s' = cols s \<Longrightarrow> rows s' = rows s \<Longrightarrow> geometry_ok s' = geometry_ok s"
  by (simp add: geometry_ok_def stride_def)

lemma glyph_pixel_cong:
  "term_font s' = term_font s \<Longrightarrow> term_fg s' = term_fg s \<Longrightarrow> term_bg s' = term_bg s \<Longrightarrow> glyph_pixel s' = glyph_pixel s"
  by (simp add: glyph_pixel_def fun_eq_iff cong: option.case_cong if_cong)

lemma screen_of_visible:
  "screen_of s x y =
     (if x < unat (cols s) * gwidth s \<and> y < unat (rows s) * gheight s then
        (let c = visible_line s (y div gheight s) (of_nat (x div gwidth s)) in
         if c = NUL then term_bg s else glyph_pixel s (u8_of c) (x mod gwidth s) (y mod gheight s))
      else term_bg s)"
  by (simp add: screen_of_def visible_line_def)

lemma screen_of_cong:
  assumes "term_font s' = term_font s" "term_fg s' = term_fg s" "term_bg s' = term_bg s" "cols s' = cols s" "rows s' = rows s"
    "\<And>k c. k < unat (rows s) \<Longrightarrow> c < cols s \<Longrightarrow> visible_line s' k c = visible_line s k c" and g: "geometry_ok s"
  shows "screen_of s' = screen_of s"
proof -
  have "of_nat (x div gwidth s) < cols s" if "x < unat (cols s) * gwidth s" for x
  proof -
    have d: "x div gwidth s < unat (cols s)" using that geometry_okD(10) [OF g] by (simp add: div_less_iff_less_mult)
    have "unat (of_nat (x div gwidth s) :: u32) = x div gwidth s"
      by (rule of_nat_inverse [OF refl]) (use d geometry_okD(8) [OF g] in simp)
    then show ?thesis using d by (simp add: word_less_nat_alt)
  qed
  moreover have "y div gheight s < unat (rows s)" if "y < unat (rows s) * gheight s" for y
    using that geometry_okD(11) [OF g] by (simp add: div_less_iff_less_mult)
  ultimately show ?thesis
    unfolding fun_eq_iff screen_of_visible Let_def glyph_pixel_cong [OF assms(1-3)]
    using assms(1-6) by (simp cong: if_cong conj_cong)
qed

lemma screen_of_paints: "paints s f s' \<Longrightarrow> screen_of s' = screen_of s"
proof -
  assume p: "paints s f s'"
  show ?thesis
    unfolding screen_of_def fun_eq_iff Let_def
    using paints_sel [OF p] glyph_pixel_cong [of s' s] by (simp cong: if_cong)
qed

lemma shows_text_paints:
  assumes p: "paints s (screen_of s) s'"
  shows "shows_text s'"
  unfolding shows_text_def screen_of_paints [OF p] paints_sel(1) [OF p] using p by (simp add: paints_def)

lemma visible_line_paints:
  assumes p: "paints s f s'"
  shows "visible_line s' = visible_line s"
  unfolding visible_line_def fun_eq_iff paints_sel(3,5) [OF p] by simp

lemma term_ok_paints:
  assumes p: "paints s (screen_of s) s'" and g: "geometry_ok s" "term_cx s \<le> cols s" "unat (view_row s) \<le> unat (tty_row s)"
    "unat (tty_row s) - unat (view_row s) < 512"
    "\<And>k c. k < unat (rows s) \<Longrightarrow> unat (tty_row s) < unat (view_row s) + k \<Longrightarrow> c < cols s \<Longrightarrow> visible_line s k c = NUL"
  shows "term_ok s'"
  unfolding term_ok_def visible_line_paints [OF p] paints_sel [OF p]
  by (intro conjI allI impI g shows_text_paints [OF p]) (use geometry_ok_cong [of s' s] paints_sel [OF p] g(1) in simp)

lemma term_ok_cx:
  assumes "term_ok s" "cx \<le> cols s"
  shows "term_ok (s\<lparr>term_cx := cx\<rparr>)"
proof -
  let ?s = "s\<lparr>term_cx := cx\<rparr>"
  have v: "visible_line ?s = visible_line s" by (simp add: visible_line_def fun_eq_iff)
  have "screen_of ?s = screen_of s" by (rule screen_of_cong [OF _ _ _ _ _ _ term_okD(1) [OF assms(1)]]) (simp_all add: v)
  then have "shows_text ?s" using term_okD(2) [OF assms(1)] by (simp add: shows_text_def pixel_def stride_def)
  moreover have "geometry_ok ?s" using term_okD(1) [OF assms(1)] geometry_ok_cong [of ?s s] by simp
  ultimately show ?thesis using term_okD(4-6) [OF assms(1)] assms(2) unfolding term_ok_def v by simp
qed

section \<open>Rows\<close>

lemma unat_row:
  "unat ((v + of_nat k :: u32) mod MAX_ROWS) = (unat v + k) mod 512"
proof -
  have "unat ((v + of_nat k :: u32) mod MAX_ROWS) = (unat v + k) mod 2 ^ 32 mod 512"
    by (simp add: unat_mod MAX_ROWS_def unat_word_ariths unsigned_of_nat take_bit_eq_mod mod_add_right_eq)
  also have "\<dots> = (unat v + k) mod 512" by (rule mod_mod_cancel) simp
  finally show ?thesis .
qed

lemma mod_row_inj:
  assumes "(a + k) mod 512 = (a + l) mod 512" "k < 512" "l < 512"
  shows "k = (l :: nat)"
proof -
  have le: "i = j" if "i \<le> j" "(a + i) mod 512 = (a + j) mod 512" "j < 512" for i j
  proof -
    have "512 dvd (a + j) - (a + i)" using that(1,2) by (intro mod_eq_dvd_iff_nat [THEN iffD1]) simp_all
    then show ?thesis using that(1,3) by (auto dest: dvd_imp_le)
  qed
  show ?thesis using le [of k l] le [of l k] assms by (cases "k \<le> l") simp_all
qed

lemma visible_row:
  assumes "unat v \<le> unat t" "unat t - unat v < 512" "k < 512"
  shows "(v + of_nat k :: u32) mod MAX_ROWS = t mod MAX_ROWS \<longleftrightarrow> k = unat t - unat v"
proof -
  have "unat (t mod MAX_ROWS) = (unat v + (unat t - unat v)) mod 512" using assms(1) by (simp add: unat_mod MAX_ROWS_def)
  then show ?thesis
    using mod_row_inj [of "unat v" k "unat t - unat v"] assms(2,3) by (auto simp: word_unat_eq_iff unat_row)
qed

section \<open>Writing into the current line\<close>

lemma unat_lag: "unat (view_row s) \<le> unat (tty_row s) \<Longrightarrow> unat (tty_row s - view_row s) = unat (tty_row s) - unat (view_row s)"
  by (simp add: unat_sub word_le_nat_alt)

lemma put_char_ok:
  assumes ok: "term_ok s" and col: "col < cols s" and ch: "ch \<noteq> NUL" and cx: "cx \<le> cols s"
  shows "\<exists>s2. Option.bind (set_char (tty_row s mod MAX_ROWS) col ch s) (draw_current ch col) = Some s2
    \<and> term_ok (s2\<lparr>term_cx := cx\<rparr>) \<and> tty_buffer s2 = (tty_buffer s)(tty_row s mod MAX_ROWS := (tty_buffer s (tty_row s mod MAX_ROWS))(col := ch))
    \<and> s2 = s\<lparr>tty_buffer := tty_buffer s2, vram := vram s2\<rparr>"
proof -
  note k = term_okD [OF ok]
  note g = geometry_okD [OF k(1)]
  define lag where "lag = unat (tty_row s) - unat (view_row s)"
  define s1 where "s1 = s\<lparr>tty_buffer := (tty_buffer s)(tty_row s mod MAX_ROWS := (tty_buffer s (tty_row s mod MAX_ROWS))(col := ch))\<rparr>"
  have "col < 256" using col g(8) by (simp add: word_less_nat_alt)
  then have set: "set_char (tty_row s mod MAX_ROWS) col ch s = Some s1" by (simp add: set_char_def s1_def)
  have g1: "geometry_ok s1" using k(1) geometry_ok_cong [of s1 s] by (simp add: s1_def)
  have same: "term_fb s1 = term_fb s" "term_font s1 = term_font s" "cols s1 = cols s" "rows s1 = rows s" "tty_row s1 = tty_row s"
    "view_row s1 = view_row s" "term_bg s1 = term_bg s" "term_cx s1 = term_cx s" by (simp_all add: s1_def)
  have gp: "glyph_pixel s1 = glyph_pixel s" by (rule glyph_pixel_cong) (simp_all add: s1_def)
  have line: "visible_line s1 i c = (if i = lag \<and> c = col then ch else visible_line s i c)" if "i < unat (rows s)" for i c
  proof -
    have "(view_row s + of_nat i) mod MAX_ROWS = tty_row s mod MAX_ROWS \<longleftrightarrow> i = lag"
      using visible_row [OF k(4,5), of i] that g(9) by (simp add: lag_def)
    then show ?thesis by (cases "i = lag") (auto simp: visible_line_def s1_def)
  qed
  define X where "X = unat col * gwidth s"
  define Y where "Y = lag * gheight s"
  have below: "visible_line s1 i c = NUL" if "i < unat (rows s1)" "unat (tty_row s1) < unat (view_row s1) + i" "c < cols s1" for i c
  proof -
    have "i \<noteq> lag" using that(2) k(4) by (simp add: same lag_def)
    then show ?thesis using k(6) [of i c] that line [of i c] by (simp add: same)
  qed
  have old: "paints s1 (screen_of s) s1" by (rule paints_cong [OF paints_refl]) (use k(2) in \<open>simp add: shows_text_def same pixel_def stride_def s1_def\<close>)
  have new: "screen_of s1 x y = (if lag < unat (rows s) \<and> in_cell s1 X Y x y then glyph_pixel s1 (u8_of ch) (x - X) (y - Y) else screen_of s x y)" for x y
  proof -
    let ?gw = "gwidth s" and ?gh = "gheight s"
    have cell: "in_cell s1 X Y x y \<longleftrightarrow> x div ?gw = unat col \<and> y div ?gh = lag"
      using in_cell_div [OF g1, of "unat col" lag x y] by (simp add: same X_def Y_def)
    have area: "x < unat (cols s) * ?gw \<longleftrightarrow> x div ?gw < unat (cols s)" "y < unat (rows s) * ?gh \<longleftrightarrow> y div ?gh < unat (rows s)"
      using g(10,11) by (simp_all add: div_less_iff_less_mult)
    have col_eq: "of_nat (x div ?gw) = col \<longleftrightarrow> x div ?gw = unat col" if "x div ?gw < unat (cols s)"
    proof -
      have "unat (of_nat (x div ?gw) :: u32) = x div ?gw" by (rule of_nat_inverse [OF refl]) (use that g(8) in simp)
      then show ?thesis by (simp add: word_unat_eq_iff)
    qed
    show ?thesis
    proof (cases "lag < unat (rows s) \<and> in_cell s1 X Y x y")
      case True
      then have d: "x div ?gw = unat col" "y div ?gh = lag" by (simp_all add: cell)
      have "x mod ?gw = x - X" "y mod ?gh = y - Y" using d by (simp_all add: modulo_nat_def X_def Y_def mult.commute)
      moreover have "unat col < unat (cols s)" using col by (simp add: word_less_nat_alt)
      ultimately show ?thesis using True d ch by (simp add: screen_of_visible same area line col_eq Let_def)
    next
      case False
      have "visible_line s1 (y div ?gh) (of_nat (x div ?gw)) = visible_line s (y div ?gh) (of_nat (x div ?gw))"
        if "x div ?gw < unat (cols s)" "y div ?gh < unat (rows s)" using False that by (auto simp: line col_eq cell)
      then have "screen_of s1 x y = screen_of s x y" by (simp add: screen_of_visible same area gp Let_def)
      then show ?thesis using False by auto
    qed
  qed
  have "\<exists>s2. draw_current ch col s1 = Some s2 \<and> paints s1 (screen_of s1) s2"
  proof (cases "lag < unat (rows s)")
    case True
    let ?h = "psf_header (term_font s)" and ?v = "tty_row s - view_row s"
    have v: "unat ?v = lag" using unat_lag [OF k(4)] by (simp add: lag_def)
    have "Suc (unat col) * gwidth s \<le> unat (cols s) * gwidth s" using col by (intro mult_le_mono1) (simp add: word_less_nat_alt)
    moreover have "Suc lag * gheight s \<le> unat (rows s) * gheight s" using True by (intro mult_le_mono1) simp
    ultimately have room: "X + gwidth s \<le> fwidth s" "Y + gheight s \<le> fheight s" using g(6,7) by (simp_all add: X_def Y_def)
    have at: "unat (col * psf_width ?h) = X" "unat (?v * psf_height ?h) = Y"
      unfolding X_def Y_def v [symmetric] by (rule mult_fits; use room g(3,4) in \<open>simp add: X_def Y_def v\<close>)+
    have "draw_current ch col s1 = draw_glyph (u8_of ch) (ucast (col * psf_width ?h)) (ucast (?v * psf_height ?h)) s1"
      using True v by (simp add: draw_current_def Let_def same word_less_nat_alt)
    moreover have "\<exists>s2. draw_glyph (u8_of ch) (ucast (col * psf_width ?h)) (ucast (?v * psf_height ?h)) s1 = Some s2 \<and> paints s1 (screen_of s1) s2"
    proof (rule paints_ex_cong)
      show "\<exists>s2. draw_glyph (u8_of ch) (ucast (col * psf_width ?h)) (ucast (?v * psf_height ?h)) s1 = Some s2
          \<and> paints s1 (\<lambda>x y. if in_cell s1 X Y x y then glyph_pixel s1 (u8_of ch) (x - X) (y - Y) else screen_of s x y) s2"
        using draw_glyph_paints [OF g1 old, of "ucast (col * psf_width ?h)" "ucast (?v * psf_height ?h)" "u8_of ch"]
        unfolding unat_ucast_u32_u64 at same using room by blast
    qed (simp add: new True)
    ultimately show ?thesis by simp
  next
    case False
    then have "draw_current ch col s1 = Some s1"
      using unat_lag [OF k(4)] by (simp add: draw_current_def Let_def same lag_def word_less_nat_alt)
    moreover have "paints s1 (screen_of s1) s1" using old by (rule paints_cong) (simp add: new False)
    ultimately show ?thesis by blast
  qed
  then obtain s2 where s2: "draw_current ch col s1 = Some s2" "paints s1 (screen_of s1) s2" by blast
  have "term_ok s2"
    by (rule term_ok_paints [OF s2(2) g1]) (use k(3-5) below in \<open>simp_all add: same\<close>)
  then have "term_ok (s2\<lparr>term_cx := cx\<rparr>)" by (rule term_ok_cx) (use cx paints_sel(6) [OF s2(2)] same in simp)
  moreover have "s2 = s\<lparr>tty_buffer := tty_buffer s2, vram := vram s2\<rparr>"
  proof -
    obtain w where "s2 = s1\<lparr>vram := w\<rparr>" using s2(2) unfolding paints_def by blast
    then show ?thesis by (simp add: s1_def)
  qed
  ultimately show ?thesis using s2(1) paints_sel(3) [OF s2(2)] set by (simp add: s1_def)
qed

section \<open>Lines\<close>

lemma newline_ok:
  assumes ok: "term_ok s" and room: "unat (tty_row s) + 1 < 2 ^ 31"
  shows "\<exists>s2. tty_newline s = Some s2 \<and> term_ok s2 \<and> tty_row s2 = tty_row s + 1 \<and> term_cx s2 = 0
    \<and> term_fb s2 = term_fb s \<and> term_font s2 = term_font s \<and> cols s2 = cols s \<and> rows s2 = rows s
    \<and> tty_buffer s2 = (tty_buffer s)((tty_row s + 1) mod MAX_ROWS :=
        (\<lambda>c. if c < cols s then NUL else tty_buffer s ((tty_row s + 1) mod MAX_ROWS) c))"
proof -
  note k = term_okD [OF ok]
  note g = geometry_okD [OF k(1)]
  let ?r = "tty_row s + 1"
  have ur: "unat ?r = unat (tty_row s) + 1" using add_fits [of "tty_row s" 1] room by simp
  define lag where "lag = unat (tty_row s) - unat (view_row s)"
  define s1 where "s1 = s\<lparr>tty_row := ?r, term_cx := 0, tty_buffer := (tty_buffer s)(?r mod MAX_ROWS :=
    (\<lambda>c. if c < cols s then NUL else tty_buffer s (?r mod MAX_ROWS) c))\<rparr>"
  have "cols s \<le> 256" using g(8) by (simp add: word_le_nat_alt)
  then have clr: "clear_line (?r mod MAX_ROWS) (cols s) (s\<lparr>tty_row := ?r, term_cx := 0\<rparr>) = Some s1"
    by (simp add: clear_line_def s1_def cong: if_cong)
  have same: "term_fb s1 = term_fb s" "term_font s1 = term_font s" "cols s1 = cols s" "rows s1 = rows s" "tty_row s1 = ?r"
    "view_row s1 = view_row s" "term_bg s1 = term_bg s" "term_fg s1 = term_fg s" "term_cx s1 = 0" by (simp_all add: s1_def)
  have g1: "geometry_ok s1" using k(1) geometry_ok_cong [of s1 s] by (simp add: same)
  have lag1: "unat (?r - view_row s) = lag + 1" "unat ?r - unat (view_row s) = lag + 1" "unat (view_row s) \<le> unat ?r"
    using ur k(4) by (simp_all add: unat_sub word_le_nat_alt lag_def)
  have run: "tty_newline s = (if rows s \<le> ?r - view_row s then tty_redraw (s1\<lparr>view_row := view_row s + 1\<rparr>) else Some s1)"
    using clr by (simp add: tty_newline_def Let_def same)
  show ?thesis
  proof (cases "unat (rows s) \<le> lag + 1")
    case True
    define s2 where "s2 = s1\<lparr>view_row := view_row s + 1\<rparr>"
    have uv: "unat (view_row s + 1) = unat (view_row s) + 1" using add_fits [of "view_row s" 1] k(4) room by simp
    have g2: "geometry_ok s2" using g1 geometry_ok_cong [of s2 s1] by (simp add: s2_def)
    obtain s3 where s3: "tty_redraw s2 = Some s3" "paints s2 (screen_of s2) s3" using tty_redraw_paints [OF g2] by blast
    have "term_ok s3"
      by (rule term_ok_paints [OF s3(2) g2]) (use k(4,5) True uv ur in \<open>auto simp: s2_def same lag_def\<close>)
    then show ?thesis using run s3(1) True lag1(1) paints_sel [OF s3(2)] by (simp add: s2_def s1_def word_le_nat_alt)
  next
    case False
    have inj: "(view_row s + of_nat i) mod MAX_ROWS = ?r mod MAX_ROWS \<longleftrightarrow> i = lag + 1" if "i < unat (rows s)" for i
      using visible_row [of "view_row s" ?r i] lag1(2,3) that g(9) False by simp
    have line: "visible_line s1 i c = (if i = lag + 1 then NUL else visible_line s i c)" if "i < unat (rows s)" "c < cols s" for i c
      using inj [OF that(1)] that(2) by (auto simp: visible_line_def s1_def)
    have blank: "visible_line s (lag + 1) c = NUL" if "c < cols s" for c
      using k(6) [of "lag + 1" c] that False k(4) by (simp add: lag_def)
    have v: "visible_line s1 i c = visible_line s i c" if "i < unat (rows s)" "c < cols s" for i c
      using line [OF that] blank [OF that(2)] by simp
    have "screen_of s1 = screen_of s" by (rule screen_of_cong [OF _ _ _ _ _ _ k(1)]) (simp_all add: same v)
    then have sh: "shows_text s1" using k(2) by (simp add: shows_text_def pixel_def stride_def s1_def)
    have "visible_line s1 i c = NUL" if "i < unat (rows s)" "unat ?r < unat (view_row s) + i" "c < cols s" for i c
      using v [OF that(1,3)] k(6) [OF that(1) _ that(3)] that(2) ur by simp
    then have "term_ok s1" using g1 sh lag1 False g(9) unfolding term_ok_def same by simp
    then show ?thesis using run False lag1(1) by (simp add: s1_def word_le_nat_alt)
  qed
qed

section \<open>Writing\<close>

definition plain :: "char \<Rightarrow> bool" where
  "plain c \<longleftrightarrow> c \<noteq> NUL \<and> c \<noteq> CHR 0x0A \<and> c \<noteq> CHR 0x0D \<and> c \<noteq> CHR 0x08"

lemma plain_char_ok:
  assumes ok: "term_ok s" and c: "plain c" and room: "term_cx s < cols s"
  shows "\<exists>s'. tty_putchar c s = Some s' \<and> term_ok s'
    \<and> s' = s\<lparr>tty_buffer := (tty_buffer s)(tty_row s mod MAX_ROWS := (tty_buffer s (tty_row s mod MAX_ROWS))(term_cx s := c)),
        term_cx := term_cx s + 1, vram := vram s'\<rparr>"
proof -
  let ?b = "(tty_buffer s)(tty_row s mod MAX_ROWS := (tty_buffer s (tty_row s mod MAX_ROWS))(term_cx s := c))"
  have "term_cx s + 1 \<le> cols s" using room by (rule count_up_le)
  then obtain s2 where s2: "Option.bind (set_char (tty_row s mod MAX_ROWS) (term_cx s) c s) (draw_current c (term_cx s)) = Some s2"
    "term_ok (s2\<lparr>term_cx := term_cx s + 1\<rparr>)" "tty_buffer s2 = ?b" "s2 = s\<lparr>tty_buffer := tty_buffer s2, vram := vram s2\<rparr>"
    using put_char_ok [OF ok room] c unfolding plain_def by blast
  have cx: "term_cx s2 = term_cx s" using arg_cong [OF s2(4), of term_cx] by simp
  have "term_cx s < 256" using room geometry_okD(8) [OF term_okD(1) [OF ok]] by (simp add: word_less_nat_alt)
  then have "draw_current c (term_cx s) (s\<lparr>tty_buffer := ?b\<rparr>) = Some s2" using s2(1) by (simp add: set_char_def)
  then have "tty_putchar c s = Some (s2\<lparr>term_cx := term_cx s + 1\<rparr>)"
    using c room \<open>term_cx s < 256\<close> by (simp add: tty_putchar_def Let_def plain_def set_char_def cx)
  moreover have "s2\<lparr>term_cx := term_cx s + 1\<rparr> = s\<lparr>tty_buffer := ?b, term_cx := term_cx s + 1, vram := vram s2\<rparr>"
  proof -
    have "s2\<lparr>term_cx := term_cx s + 1\<rparr> = s\<lparr>tty_buffer := tty_buffer s2, vram := vram s2\<rparr>\<lparr>term_cx := term_cx s + 1\<rparr>" using s2(4) by simp
    then show ?thesis by (simp add: s2(3))
  qed
  ultimately show ?thesis using s2(2) by simp
qed

lemma putchar_ok:
  assumes ok: "term_ok s" and c: "c \<noteq> NUL" and room: "unat (tty_row s) + 1 < 2 ^ 31"
  shows "\<exists>s'. tty_putchar c s = Some s' \<and> term_ok s' \<and> unat (tty_row s') \<le> unat (tty_row s) + 1"
proof -
  consider "c = CHR 0x0A" | "c = CHR 0x0D" | "c = CHR 0x08" "term_cx s = 0" | "c = CHR 0x08" "0 < term_cx s"
    | "plain c" "term_cx s < cols s" | "plain c" "\<not> term_cx s < cols s"
    using c word_neq_0_conv [of "term_cx s"] unfolding plain_def by blast
  then show ?thesis
  proof cases
    case 1
    have "unat (tty_row s + 1) = unat (tty_row s) + 1" using add_fits [of "tty_row s" 1] room by simp
    then show ?thesis using newline_ok [OF ok room] 1 by (auto simp: tty_putchar_def)
  next
    case 2
    then show ?thesis using term_ok_cx [OF ok, of 0] by (simp add: tty_putchar_def)
  next
    case 3
    then show ?thesis using ok by (simp add: tty_putchar_def)
  next
    case 4
    let ?x = "term_cx s - 1"
    have x: "?x < cols s" "?x \<le> cols s"
    proof -
      have "unat ?x = unat (term_cx s) - 1" using 4(2) by (simp add: unat_sub word_le_nat_alt word_less_nat_alt)
      then show "?x < cols s" using 4(2) term_okD(3) [OF ok] by (simp add: word_less_nat_alt word_le_nat_alt)
      then show "?x \<le> cols s" by simp
    qed
    let ?s = "s\<lparr>term_cx := ?x\<rparr>"
    have ok1: "term_ok ?s" by (rule term_ok_cx [OF ok x(2)])
    have xc: "?x < cols ?s" "?x \<le> cols ?s" using x by simp_all
    obtain s2 where s2: "Option.bind (set_char (tty_row s mod MAX_ROWS) ?x CHR '' '' ?s) (draw_current CHR '' '' ?x) = Some s2"
      "term_ok (s2\<lparr>term_cx := ?x\<rparr>)" "s2 = ?s\<lparr>tty_buffer := tty_buffer s2, vram := vram s2\<rparr>"
      using put_char_ok [OF ok1 xc(1) _ xc(2), of "CHR '' ''"] by auto
    have sel: "term_cx s2 = ?x" "tty_row s2 = tty_row s" using arg_cong [OF s2(3), of term_cx] arg_cong [OF s2(3), of tty_row] by simp_all
    have same: "s2\<lparr>term_cx := ?x\<rparr> = s2" using sel(1) by simp
    have "?x < 256" using x(1) geometry_okD(8) [OF term_okD(1) [OF ok]] by (simp add: word_less_nat_alt)
    then have "tty_putchar c s = Some s2" using s2(1) 4 by (simp add: tty_putchar_def Let_def set_char_def)
    then show ?thesis using s2(2) same sel by simp
  next
    case 5
    obtain s' where s': "tty_putchar c s = Some s'" "term_ok s'"
      "s' = s\<lparr>tty_buffer := (tty_buffer s)(tty_row s mod MAX_ROWS := (tty_buffer s (tty_row s mod MAX_ROWS))(term_cx s := c)),
        term_cx := term_cx s + 1, vram := vram s'\<rparr>" using plain_char_ok [OF ok 5] by blast
    have "tty_row s' = tty_row s" using arg_cong [OF s'(3), of tty_row] by simp
    then show ?thesis using s'(1,2) by simp
  next
    case 6
    then show ?thesis using ok by (simp add: tty_putchar_def plain_def Let_def)
  qed
qed

lemma tty_write_ok:
  assumes "term_ok s" "NUL \<notin> set cs" "unat (tty_row s) + length cs < 2 ^ 31"
  shows "\<exists>s'. tty_write cs s = Some s' \<and> term_ok s' \<and> unat (tty_row s') \<le> unat (tty_row s) + length cs"
  using assms
proof (induction cs arbitrary: s)
  case (Cons c cs)
  obtain s1 where s1: "tty_putchar c s = Some s1" "term_ok s1" "unat (tty_row s1) \<le> unat (tty_row s) + 1"
    using putchar_ok [OF Cons.prems(1), of c] Cons.prems(2,3) by auto
  then show ?case using Cons.IH [of s1] Cons.prems(2,3) by fastforce
qed simp

section \<open>Scrolling, clearing, initialisation\<close>

lemma scroll_up_ok:
  assumes ok: "term_ok s" and near: "unat (tty_row s) - unat (view_row s) < 511"
  shows "\<exists>s'. tty_scroll_up s = Some s' \<and> term_ok s' \<and> tty_buffer s' = tty_buffer s
    \<and> unat (view_row s') = unat (view_row s) - 1 \<and> tty_row s' = tty_row s"
proof (cases "0 < view_row s")
  case True
  note k = term_okD [OF ok]
  define s1 where "s1 = s\<lparr>view_row := view_row s - 1\<rparr>"
  have uv: "unat (view_row s - 1) = unat (view_row s) - 1" "0 < unat (view_row s)"
    using True by (simp_all add: unat_sub word_le_nat_alt word_less_nat_alt)
  have g1: "geometry_ok s1" using k(1) geometry_ok_cong [of s1 s] by (simp add: s1_def)
  obtain s2 where s2: "tty_redraw s1 = Some s2" "paints s1 (screen_of s1) s2" using tty_redraw_paints [OF g1] by blast
  have "visible_line s1 i c = NUL" if h: "i < unat (rows s)" "unat (tty_row s) < unat (view_row s) - 1 + i" "c < cols s" for i c
  proof -
    obtain j where i: "i = Suc j" using h(2) k(4) by (cases i) auto
    have "visible_line s1 i c = visible_line s j c" by (simp add: visible_line_def s1_def i)
    then show ?thesis using k(6) [of j c] h uv i by simp
  qed
  then have "term_ok s2" by (intro term_ok_paints [OF s2(2) g1]) (use k(3-5) near uv in \<open>auto simp: s1_def\<close>)
  then show ?thesis using True s2(1) paints_sel [OF s2(2)] uv by (simp add: tty_scroll_up_def s1_def)
next
  case False
  then have "view_row s = 0" using word_neq_0_conv [of "view_row s"] by blast
  then show ?thesis using ok by (simp add: tty_scroll_up_def)
qed

lemma scroll_down_ok:
  assumes ok: "term_ok s" and small: "unat (tty_row s) < 2 ^ 31"
  shows "\<exists>s'. tty_scroll_down s = Some s' \<and> term_ok s' \<and> tty_buffer s' = tty_buffer s \<and> tty_row s' = tty_row s
    \<and> unat (view_row s') = (if unat (view_row s) + unat (rows s) < unat (tty_row s) then unat (view_row s) + 1 else unat (view_row s))"
proof -
  note k = term_okD [OF ok]
  note g = geometry_okD [OF k(1)]
  have cmp: "view_row s + rows s < tty_row s \<longleftrightarrow> unat (view_row s) + unat (rows s) < unat (tty_row s)"
    using add_fits [of "view_row s" "rows s"] k(4) g(9) small by (simp add: word_less_nat_alt)
  show ?thesis
  proof (cases "unat (view_row s) + unat (rows s) < unat (tty_row s)")
    case True
    define s1 where "s1 = s\<lparr>view_row := view_row s + 1\<rparr>"
    have uv: "unat (view_row s + 1) = unat (view_row s) + 1" using add_fits [of "view_row s" 1] k(4) small by simp
    have g1: "geometry_ok s1" using k(1) geometry_ok_cong [of s1 s] by (simp add: s1_def)
    obtain s2 where s2: "tty_redraw s1 = Some s2" "paints s1 (screen_of s1) s2" using tty_redraw_paints [OF g1] by blast
    have "term_ok s2" by (rule term_ok_paints [OF s2(2) g1]) (use k(3-5) True uv in \<open>auto simp: s1_def\<close>)
    then show ?thesis using True cmp s2(1) paints_sel [OF s2(2)] uv by (simp add: tty_scroll_down_def s1_def)
  next
    case False
    then show ?thesis using ok cmp by (simp add: tty_scroll_down_def)
  qed
qed

lemma blank_ok:
  assumes g: "geometry_ok s" and b: "tty_buffer s = (\<lambda>_ _. NUL)" and r: "tty_row s = 0" "view_row s = 0" "term_cx s = 0"
  shows "\<exists>s'. fb_clear (term_bg s) s = Some s' \<and> term_ok s' \<and> s' = s\<lparr>vram := vram s'\<rparr>"
proof -
  obtain s' where s': "fb_clear (term_bg s) s = Some s'" "paints s (\<lambda>_ _. term_bg s) s'"
    using fb_clear_paints [OF g paints_refl] by blast
  have v: "visible_line s k c = NUL" for k c by (simp add: visible_line_def b)
  have "screen_of s = (\<lambda>_ _. term_bg s)" by (simp add: fun_eq_iff screen_of_visible v)
  then have p: "paints s (screen_of s) s'" using s'(2) by simp
  have "term_ok s'" by (rule term_ok_paints [OF p g]) (simp_all add: r v)
  then show ?thesis using s'(1) p by (simp add: paints_def)
qed

lemma tty_init_ok:
  assumes font: "psf_load img = Some font" "font_ok font"
    and fb: "unat (fb_width fb) \<le> unat (fb_pitch fb div 4)" "unat (fb_width fb) < 2 ^ 32" "unat (fb_height fb) < 2 ^ 32"
      "unat (fb_height fb) * unat (fb_pitch fb div 4) \<le> 2 ^ 64"
    and grid: "unat (fb_width fb) div unat (psf_width (psf_header font)) \<le> 256"
      "unat (fb_height fb) div unat (psf_height (psf_header font)) \<le> 512"
  shows "\<exists>s'. tty_init fb img s = Some s' \<and> term_ok s' \<and> tty_buffer s' = (\<lambda>_ _. NUL) \<and> tty_row s' = 0 \<and> term_cx s' = 0
    \<and> cols s' = ucast (fb_width fb div ucast (psf_width (psf_header font))) \<and> log_head s' = log_head s \<and> log_tail s' = log_tail s"
proof -
  let ?h = "psf_header font"
  have pos: "0 < unat (psf_width ?h)" "0 < unat (psf_height ?h)" using font(2) by (simp_all add: font_ok_def Let_def)
  then have nz: "psf_width ?h \<noteq> 0" "psf_height ?h \<noteq> 0" by auto
  define s1 where "s1 = s\<lparr>term_fb := fb, term_font := font, cols := ucast (fb_width fb div ucast (psf_width ?h)),
    rows := ucast (fb_height fb div ucast (psf_height ?h)), term_cx := 0, tty_row := 0, view_row := 0, tty_buffer := (\<lambda>_ _. NUL)\<rparr>"
  have "unat (cols s1) = unat (fb_width fb) div unat (psf_width ?h)" "unat (rows s1) = unat (fb_height fb) div unat (psf_height ?h)"
    using grid by (simp_all add: s1_def unsigned_ucast_eq unat_div take_bit_nat_eq_self_iff)
  then have g: "geometry_ok s1" using font(2) fb grid by (simp add: geometry_ok_def stride_def s1_def)
  have "tty_init fb img s = fb_clear (term_bg s1) s1" using font(1) nz by (simp add: tty_init_def Let_def s1_def)
  moreover obtain v where v: "fb_clear (term_bg s1) s1 = Some (s1\<lparr>vram := v\<rparr>)" "term_ok (s1\<lparr>vram := v\<rparr>)"
  proof -
    obtain s' where "fb_clear (term_bg s1) s1 = Some s'" "term_ok s'" "s' = s1\<lparr>vram := vram s'\<rparr>"
      using blank_ok [OF g] by (auto simp: s1_def)
    then show thesis using that [of "vram s'"] by metis
  qed
  ultimately show ?thesis by (simp add: s1_def)
qed

section \<open>The text of the current line\<close>

definition line_text :: "console \<Rightarrow> char list" where
  "line_text s = map (\<lambda>c. tty_buffer s (tty_row s mod MAX_ROWS) (of_nat c)) [0..<unat (cols s)]"

lemma line_text_put:
  assumes "geometry_ok s" "x < cols s"
  shows "map (\<lambda>c. ((tty_buffer s r)(x := ch)) (of_nat c)) [0..<unat (cols s)]
    = (map (\<lambda>c. tty_buffer s r (of_nat c)) [0..<unat (cols s)])[unat x := ch]"
proof (rule nth_equalityI)
  fix i assume "i < length (map (\<lambda>c. ((tty_buffer s r)(x := ch)) (of_nat c)) [0..<unat (cols s)])"
  then have i: "i < unat (cols s)" by simp
  have "unat (of_nat i :: u32) = i" by (rule of_nat_inverse [OF refl]) (use i geometry_okD(8) [OF assms(1)] in simp)
  then have "of_nat i = x \<longleftrightarrow> i = unat x" by (simp add: word_unat_eq_iff)
  then show "map (\<lambda>c. ((tty_buffer s r)(x := ch)) (of_nat c)) [0..<unat (cols s)] ! i
    = (map (\<lambda>c. tty_buffer s r (of_nat c)) [0..<unat (cols s)])[unat x := ch] ! i"
    using i by (auto simp: nth_list_update)
qed simp

lemma write_plain:
  assumes "term_ok s" "\<forall>c\<in>set cs. plain c" "unat (term_cx s) + length cs \<le> unat (cols s)"
  shows "\<exists>s'. tty_write cs s = Some s' \<and> term_ok s' \<and> tty_row s' = tty_row s \<and> view_row s' = view_row s
    \<and> unat (term_cx s') = unat (term_cx s) + length cs
    \<and> line_text s' = take (unat (term_cx s)) (line_text s) @ cs @ drop (unat (term_cx s) + length cs) (line_text s)"
  using assms
proof (induction cs arbitrary: s)
  case (Cons c cs)
  have room: "term_cx s < cols s" using Cons.prems(3) by (simp add: word_less_nat_alt)
  define b where "b = (tty_buffer s)(tty_row s mod MAX_ROWS := (tty_buffer s (tty_row s mod MAX_ROWS))(term_cx s := c))"
  obtain s1 where s1: "tty_putchar c s = Some s1" "term_ok s1" "s1 = s\<lparr>tty_buffer := b, term_cx := term_cx s + 1, vram := vram s1\<rparr>"
    using plain_char_ok [OF Cons.prems(1) _ room, of c] Cons.prems(2) unfolding b_def by auto
  have sel: "tty_row s1 = tty_row s" "view_row s1 = view_row s" "cols s1 = cols s" "term_cx s1 = term_cx s + 1" "tty_buffer s1 = b"
    using arg_cong [OF s1(3), of tty_row] arg_cong [OF s1(3), of view_row] arg_cong [OF s1(3), of cols]
      arg_cong [OF s1(3), of term_cx] arg_cong [OF s1(3), of tty_buffer] by simp_all
  have cx: "unat (term_cx s + 1) = unat (term_cx s) + 1" using room by (simp add: unat_Suc_less)
  have l: "line_text s1 = (line_text s)[unat (term_cx s) := c]"
    using line_text_put [OF term_okD(1) [OF Cons.prems(1)] room, of "tty_row s mod MAX_ROWS" c]
    unfolding line_text_def sel b_def by simp
  have len: "length (line_text s) = unat (cols s)" by (simp add: line_text_def)
  obtain s' where s': "tty_write cs s1 = Some s'" "term_ok s'" "tty_row s' = tty_row s1" "view_row s' = view_row s1"
    "unat (term_cx s') = unat (term_cx s1) + length cs"
    "line_text s' = take (unat (term_cx s1)) (line_text s1) @ cs @ drop (unat (term_cx s1) + length cs) (line_text s1)"
    using Cons.IH [OF s1(2)] Cons.prems(2,3) by (auto simp: sel cx)
  have "take (Suc (unat (term_cx s))) ((line_text s)[unat (term_cx s) := c]) = take (unat (term_cx s)) (line_text s) @ [c]"
    using Cons.prems(3) len by (simp add: take_Suc_conv_app_nth)
  then show ?case using s1(1) s' sel cx l by (simp add: drop_update_swap)
qed simp

end
