(* ===== verification/Console_Props.thy ===== *)
theory Console_Props
  imports Console_Printk Console_Term
begin

text \<open>The properties of the console.\<close>

lemma term_ok_set_log [simp]: "term_ok (set_log b h t s) = term_ok s"
proof -
  let ?s = "set_log b h t s"
  have g: "geometry_ok ?s = geometry_ok s" by (rule geometry_ok_cong) simp_all
  have v: "visible_line ?s = visible_line s" by (simp add: visible_line_def fun_eq_iff)
  have "shows_text ?s = shows_text s" if "geometry_ok s"
  proof -
    have "screen_of ?s = screen_of s" by (rule screen_of_cong [OF _ _ _ _ _ _ that]) (simp_all add: v)
    then show ?thesis by (simp add: shows_text_def pixel_def stride_def)
  qed
  then show ?thesis unfolding term_ok_def g v set_log_sel by blast
qed

section \<open>A sample console\<close>

text \<open>
  A screen of 32 by 4 pixels and a font of two glyphs, 8 pixels wide and 1 pixel high: 4 columns
  and 4 rows of text.
\<close>

definition font_sample :: "u8 list" where
  "font_sample =
     [0x72, 0xb5, 0x4a, 0x86] @ [0, 0, 0, 0] @ [32, 0, 0, 0] @ [0, 0, 0, 0] @ [2, 0, 0, 0] @ [1, 0, 0, 0] @ [1, 0, 0, 0]
     @ [8, 0, 0, 0] @ [0, 0xaa]"

definition dark :: console where
  "dark = \<lparr>term_fb = fb_init 0 0 0, vram = (\<lambda>_. 0),
     term_font = \<lparr>psf_header = \<lparr>psf_magic = 0, psf_version = 0, psf_headersize = 0, psf_flags = 0, psf_numglyph = 0,
       psf_bytesperglyph = 0, psf_height = 0, psf_width = 0\<rparr>, psf_glyphs = []\<rparr>,
     tty_buffer = (\<lambda>_ _. NUL), tty_row = 0, view_row = 0, cols = 0, rows = 0, term_cx = 0, term_fg = 0xffffffff,
     term_bg = 0, string_buffer = (\<lambda>_. NUL), log_head = 0, log_tail = 0\<rparr>"

definition console_sample :: console where
  "console_sample = the (tty_init (fb_init 32 4 128) font_sample dark)"

lemma font_sample_load:
  "psf_load font_sample = Some \<lparr>psf_header = \<lparr>psf_magic = 0x864ab572, psf_version = 0, psf_headersize = 32, psf_flags = 0,
     psf_numglyph = 2, psf_bytesperglyph = 1, psf_height = 1, psf_width = 8\<rparr>, psf_glyphs = [0, 0xaa]\<rparr>"
  by (simp add: psf_load_def read_header_def le_u32_def font_sample_def)

lemma console_sample_ok:
  "term_ok console_sample" "tty_row console_sample = 0" "term_cx console_sample = 0" "cols console_sample = 4"
  "line_text console_sample = replicate 4 NUL" "log_ok console_sample" "log_text console_sample = []"
proof -
  obtain s' where s': "tty_init (fb_init 32 4 128) font_sample dark = Some s'" "term_ok s'" "tty_buffer s' = (\<lambda>_ _. NUL)"
    "tty_row s' = 0" "term_cx s' = 0" "cols s' = 4" "log_head s' = 0" "log_tail s' = 0"
    using tty_init_ok [OF font_sample_load, of "fb_init 32 4 128" dark] by (auto simp: font_ok_def fb_init_def unat_div dark_def)
  then have e: "console_sample = s'" by (simp add: console_sample_def)
  show "term_ok console_sample" "tty_row console_sample = 0" "term_cx console_sample = 0" "cols console_sample = 4"
    using s' e by simp_all
  show "line_text console_sample = replicate 4 NUL" using s' e by (simp add: line_text_def map_replicate_const)
  show "log_ok console_sample" "log_text console_sample = []" using s' e by (simp_all add: log_ok_def log_text_def log_count_def)
qed

section \<open>Properties\<close>

text \<open>
  C37: writing any characters but 0 to a terminal in order, with fewer than \<open>2 ^ 31\<close> lines, returns and
  keeps it in order: every pixel of the screen is the one the text buffer prescribes for the lines in
  view, and the lines below the current one are blank.
\<close>

theorem tty_write_shows:
  assumes "term_ok s" and "NUL \<notin> set cs" and "unat (tty_row s) + length cs < 2 ^ 31"
  shows "\<exists>s'. tty_write cs s = Some s' \<and> term_ok s'
    \<and> (\<forall>x y. x < fwidth s' \<longrightarrow> y < fheight s' \<longrightarrow> pixel s' x y = screen_of s' x y)"
  using tty_write_ok [OF assms] term_okD(2) unfolding shows_text_def by blast

theorem tty_write_shows_witness:
  "\<exists>s'. tty_write ([CHR ''h'', CHR ''i'', CHR 0x0A, CHR 0x08] @ ''flos'') console_sample = Some s' \<and> term_ok s'"
  using tty_write_shows [of console_sample "[CHR ''h'', CHR ''i'', CHR 0x0A, CHR 0x08] @ ''flos''"] console_sample_ok(1,2) by auto

text \<open>
  Scrolling keeps the terminal in order and moves the view one line up, not above the first
  line, or one line down, not below the last screen; going up this holds while the view is at most
  510 lines behind, since the buffer holds 512 lines.
\<close>

theorem tty_scroll_shows:
  assumes "term_ok s" and "unat (tty_row s) < 2 ^ 31" and "unat (tty_row s) - unat (view_row s) < 511"
  shows "(\<exists>s'. tty_scroll_up s = Some s' \<and> term_ok s' \<and> tty_buffer s' = tty_buffer s \<and> unat (view_row s') = unat (view_row s) - 1)
    \<and> (\<exists>s'. tty_scroll_down s = Some s' \<and> term_ok s' \<and> tty_buffer s' = tty_buffer s
      \<and> unat (view_row s') = (if unat (view_row s) + unat (rows s) < unat (tty_row s) then unat (view_row s) + 1 else unat (view_row s)))"
  using scroll_up_ok [OF assms(1,3)] scroll_down_ok [OF assms(1,2)] by blast

theorem tty_scroll_shows_witness:
  "(\<exists>s'. tty_scroll_up console_sample = Some s' \<and> term_ok s') \<and> (\<exists>s'. tty_scroll_down console_sample = Some s' \<and> term_ok s')"
  using tty_scroll_shows [OF console_sample_ok(1)] console_sample_ok(2) by auto



text \<open>
  C39: the kernel log is a bounded queue: characters added one by one are kept in order, the oldest
  dropped beyond 8191, and \<open>printk_read_buf\<close> takes the oldest ones out, as many as it is asked for
  or as there are.
\<close>

theorem kernel_log_queue:
  assumes "log_ok s"
  shows "log_ok (fold log_put cs s) \<and> log_text (fold log_put cs s) = keep_last 8191 (log_text s @ cs)
    \<and> (case printk_read_buf n s of (buf, s') \<Rightarrow> log_ok s' \<and> buf @ log_text s' = log_text s \<and> length buf = min (unat n) (length (log_text s)))"
proof -
  obtain t where t: "printk_read_buf n s = (take (unat n) (log_text s), s\<lparr>log_tail := t\<rparr>)"
    "log_ok (s\<lparr>log_tail := t\<rparr>)" "log_text (s\<lparr>log_tail := t\<rparr>) = drop (unat n) (log_text s)"
    by (rule printk_read_buf_correct [OF assms, of n]) (rule that)
  then show ?thesis using log_puts_correct [OF assms, of cs] by simp
qed

theorem kernel_log_queue_witness:
  "log_text (fold log_put ''flos'' dark) = ''flos'' \<and> fst (printk_read_buf 2 (fold log_put ''flos'' dark)) = ''fl''"
proof -
  have d: "log_ok dark" "log_text dark = []" by (simp_all add: dark_def log_ok_def log_text_def log_count_def)
  define w where "w = fold log_put ''flos'' dark"
  have a: "log_ok w" "log_text w = ''flos''"
    using kernel_log_queue [OF d(1), of "''flos''" 0] unfolding w_def [symmetric] by (simp_all add: d(2) keep_last_def)
  obtain buf s' where r: "printk_read_buf 2 w = (buf, s')" by fastforce
  have len: "length (log_text w) = 4" unfolding a(2) by simp
  have "buf @ log_text s' = ''flos''" "length buf = 2"
    using kernel_log_queue [OF a(1), of "[]" 2] len by (simp_all add: r a(2))
  then have "buf = ''fl''" by (cases buf; cases "tl buf") auto
  then show ?thesis using a(2) r unfolding w_def by simp
qed

text \<open>
  \<open>printk\<close> of a text longer than 256 characters reads beyond its 256-byte buffer, because the
  copying loop runs to the length of the text and not of what was stored.
\<close>

theorem printk_overrun:
  assumes "\<forall>out m p. vsnprintf_loop out m fmt va p = Some (emits out m msg p)" and "256 < length msg" and "length msg < 2 ^ 31"
  shows "printk temp fmt va s = None"
proof -
  have p: "prints fmt va msg" using assms(1) by (simp add: prints_def)
  obtain sk where "snprintf False 256 fmt va \<lparr>sk_buffer = temp, sk_put = [], sk_fct = []\<rparr> = Some (of_nat (length msg), sk)"
    by (rule snprintf_prints [OF p, of 256 "\<lparr>sk_buffer = temp, sk_put = [], sk_fct = []\<rparr>"]) (use assms(3) in simp_all)
  moreover have "msg \<noteq> []" using assms(2) by auto
  ultimately show ?thesis
    using copy_overrun [OF assms(2,3), of "sk_buffer sk" s] signed_positive [OF assms(3)]
    by (simp add: printk_def vsnprintf_def snprintf_def)
qed

theorem printk_overrun_witness:
  "printk (\<lambda>_. NUL) (replicate 300 CHR ''a'' @ [NUL]) [] dark = None"
proof -
  have "\<forall>c\<in>set (replicate 300 CHR ''a''). c \<noteq> CHR ''%'' \<and> c \<noteq> NUL" by simp
  then have "\<forall>out m p. vsnprintf_loop out m (replicate 300 CHR ''a'' @ [NUL]) [] p = Some (emits out m (replicate 300 CHR ''a'') p)"
    using prints_plain by simp
  moreover have "256 < length (replicate 300 CHR ''a'')" "length (replicate 300 CHR ''a'') < 2 ^ 31" by simp_all
  ultimately show ?thesis by (rule printk_overrun)
qed

end
