(* ===== verification/Madt.thy ===== *)
theory Madt
  imports Prelude
begin

text \<open>
  The interrupt controllers of the machine, read from the MADT table of ACPI:
  \<^verbatim>\<open>src/kernel/arch/x86_64/pic/apic/apic.c\<close> and its header. The table and the layout of its entries
  belong to the ACPI library, which is not part of the repository: what the code uses of them, the
  sizes, type codes and fields of the structures, is the parameter \<open>acpi_abi\<close>. The table is the list
  of bytes mapped at its address; a pointer into it is an offset. Reading past the bytes and writing
  past an array are undefined (\<open>None\<close>); log output has no counterpart.
\<close>

record acpi_abi =
  sizeof_entry_hdr :: nat
  entry_type :: "u8 list \<Rightarrow> u8"
  entry_length :: "u8 list \<Rightarrow> u8"
  type_lapic :: u8
  type_ioapic :: u8
  type_iso :: u8
  sizeof_lapic :: nat
  lapic_uid :: "u8 list \<Rightarrow> u8"
  lapic_id :: "u8 list \<Rightarrow> u8"
  lapic_flags :: "u8 list \<Rightarrow> u32"
  sizeof_ioapic :: nat
  ioapic_entry_id :: "u8 list \<Rightarrow> u8"
  ioapic_address :: "u8 list \<Rightarrow> u32"
  ioapic_gsi_base :: "u8 list \<Rightarrow> u32"
  sizeof_iso :: nat
  iso_bus :: "u8 list \<Rightarrow> u8"
  iso_source :: "u8 list \<Rightarrow> u8"
  iso_gsi :: "u8 list \<Rightarrow> u32"
  iso_entry_flags :: "u8 list \<Rightarrow> u16"
  sizeof_madt :: nat
  madt_length :: "u8 list \<Rightarrow> u32"

definition MAX_IOAPIC :: nat where "MAX_IOAPIC = 8"
definition MAX_ISO :: nat where "MAX_ISO = 32"
definition MAX_CPU :: nat where "MAX_CPU = 256"

record apic_cpu =
  apic_uid :: u8
  apic_id :: u8
  enabled :: u8

record apic_iso =
  source_irq :: u8
  gsi :: u8
  iso_flags :: u8

record ioapic_info =
  ioa_id :: u8
  ioa_addr :: u64
  gsi_base :: u32

text \<open>The arrays have \<open>MAX_IOAPIC\<close>, \<open>MAX_ISO\<close> and \<open>MAX_CPU\<close> elements.\<close>

record apic_info =
  ioapic :: "ioapic_info list"
  ioapic_count :: nat
  iso :: "apic_iso list"
  iso_count :: nat
  cpus :: "apic_cpu list"
  cpu_count :: nat

text \<open>A field of the structure of \<open>n\<close> bytes at offset \<open>pos\<close>.\<close>

definition rd :: "nat \<Rightarrow> (u8 list \<Rightarrow> 'a) \<Rightarrow> u8 list \<Rightarrow> nat \<Rightarrow> 'a option" where
  "rd n field mem pos = (if pos + n \<le> length mem then Some (field (take n (drop pos mem))) else None)"

definition store :: "'a list \<Rightarrow> nat \<Rightarrow> 'a \<Rightarrow> 'a list option" where
  "store xs i x = (if i < length xs then Some (xs[i := x]) else None)"

definition parse_lapic :: "acpi_abi \<Rightarrow> u8 list \<Rightarrow> nat \<Rightarrow> apic_info \<Rightarrow> apic_info option" where
  "parse_lapic abi mem lapic apic =
     do {
       len \<leftarrow> rd (sizeof_entry_hdr abi) (entry_length abi) mem lapic;
       if unat len < sizeof_lapic abi then Some apic
       else if MAX_CPU \<le> cpu_count apic then Some apic
       else
         do {
           uid \<leftarrow> rd (sizeof_lapic abi) (lapic_uid abi) mem lapic;
           id \<leftarrow> rd (sizeof_lapic abi) (lapic_id abi) mem lapic;
           flags \<leftarrow> rd (sizeof_lapic abi) (lapic_flags abi) mem lapic;
           cs \<leftarrow> store (cpus apic) (cpu_count apic)
             \<lparr>apic_uid = uid, apic_id = id, enabled = (if flags AND 1 \<noteq> 0 then 1 else 0)\<rparr>;
           Some (apic\<lparr>cpus := cs, cpu_count := cpu_count apic + 1\<rparr>)
         }
     }"

definition parse_ioapic :: "acpi_abi \<Rightarrow> u8 list \<Rightarrow> nat \<Rightarrow> apic_info \<Rightarrow> apic_info option" where
  "parse_ioapic abi mem ioa apic =
     do {
       len \<leftarrow> rd (sizeof_entry_hdr abi) (entry_length abi) mem ioa;
       if unat len < sizeof_ioapic abi then Some apic
       else if MAX_IOAPIC \<le> ioapic_count apic then Some apic
       else
         do {
           id \<leftarrow> rd (sizeof_ioapic abi) (ioapic_entry_id abi) mem ioa;
           address \<leftarrow> rd (sizeof_ioapic abi) (ioapic_address abi) mem ioa;
           base \<leftarrow> rd (sizeof_ioapic abi) (ioapic_gsi_base abi) mem ioa;
           is \<leftarrow> store (ioapic apic) (ioapic_count apic) \<lparr>ioa_id = id, ioa_addr = ucast address, gsi_base = base\<rparr>;
           Some (apic\<lparr>ioapic := is, ioapic_count := ioapic_count apic + 1\<rparr>)
         }
     }"

definition parse_iso :: "acpi_abi \<Rightarrow> u8 list \<Rightarrow> nat \<Rightarrow> apic_info \<Rightarrow> apic_info option" where
  "parse_iso abi mem is apic =
     do {
       len \<leftarrow> rd (sizeof_entry_hdr abi) (entry_length abi) mem is;
       if unat len < sizeof_iso abi then Some apic
       else
         do {
           bus \<leftarrow> rd (sizeof_iso abi) (iso_bus abi) mem is;
           if bus \<noteq> 0 then Some apic
           else if MAX_ISO < iso_count apic then Some apic
           else
             do {
               source \<leftarrow> rd (sizeof_iso abi) (iso_source abi) mem is;
               g \<leftarrow> rd (sizeof_iso abi) (iso_gsi abi) mem is;
               flags \<leftarrow> rd (sizeof_iso abi) (iso_entry_flags abi) mem is;
               xs \<leftarrow> store (iso apic) (iso_count apic) \<lparr>source_irq = source, gsi = ucast g, iso_flags = ucast flags\<rparr>;
               Some (apic\<lparr>iso := xs, iso_count := iso_count apic + 1\<rparr>)
             }
         }
     }"

definition parse_entry :: "acpi_abi \<Rightarrow> u8 list \<Rightarrow> nat \<Rightarrow> apic_info \<Rightarrow> apic_info option" where
  "parse_entry abi mem pos apic =
     do {
       ty \<leftarrow> rd (sizeof_entry_hdr abi) (entry_type abi) mem pos;
       if ty = type_lapic abi then parse_lapic abi mem pos apic
       else if ty = type_ioapic abi then parse_ioapic abi mem pos apic
       else if ty = type_iso abi then parse_iso abi mem pos apic
       else Some apic
     }"

partial_function (option) parse_entries :: "acpi_abi \<Rightarrow> u8 list \<Rightarrow> nat \<Rightarrow> nat \<Rightarrow> apic_info \<Rightarrow> apic_info option" where
  "parse_entries abi mem fin pos apic =
     (if pos + sizeof_entry_hdr abi \<le> fin then
        do {
          len \<leftarrow> rd (sizeof_entry_hdr abi) (entry_length abi) mem pos;
          if unat len < sizeof_entry_hdr abi then Some apic
          else if fin < pos + unat len then Some apic
          else do { apic \<leftarrow> parse_entry abi mem pos apic; parse_entries abi mem fin (pos + unat len) apic }
        }
      else Some apic)"

text \<open>\<open>table\<close> is what \<open>uacpi_table_find_by_signature\<close> finds; the entries follow the fixed part of the table.\<close>

definition parse_madt :: "acpi_abi \<Rightarrow> u8 list option \<Rightarrow> apic_info \<Rightarrow> apic_info option" where
  "parse_madt abi table apic =
     (case table of
        None \<Rightarrow> Some apic
      | Some mem \<Rightarrow>
          do {
            len \<leftarrow> rd (sizeof_madt abi) (madt_length abi) mem 0;
            parse_entries abi mem (unat len) (sizeof_madt abi) apic
          })"

definition apic_get_cpu_count :: "apic_info \<Rightarrow> nat" where
  "apic_get_cpu_count apic = cpu_count apic"

definition apic_boot :: apic_info where
  "apic_boot = \<lparr>ioapic = replicate MAX_IOAPIC \<lparr>ioa_id = 0, ioa_addr = 0, gsi_base = 0\<rparr>, ioapic_count = 0,
     iso = replicate MAX_ISO \<lparr>source_irq = 0, gsi = 0, iso_flags = 0\<rparr>, iso_count = 0,
     cpus = replicate MAX_CPU \<lparr>apic_uid = 0, apic_id = 0, enabled = 0\<rparr>, cpu_count = 0\<rparr>"

end
