(* ===== verification/Madt_Props.thy ===== *)
theory Madt_Props
  imports Madt
begin

text \<open>
  What reading the MADT finds: the table cut into its entries, and the processors, I/O APICs and
  interrupt overrides recorded for them.
\<close>

section \<open>The entries of a table\<close>

function split_entries :: "acpi_abi \<Rightarrow> u8 list \<Rightarrow> u8 list list" where
  "split_entries abi bs =
     (let h = sizeof_entry_hdr abi; n = unat (entry_length abi (take h bs)) in
      if length bs < h \<or> n < h \<or> length bs < n \<or> n = 0 then [] else take n bs # split_entries abi (drop n bs))"
  by pat_completeness auto
termination by (relation "measure (\<lambda>(abi, bs). length bs)") (auto simp: Let_def)

declare split_entries.simps [simp del]

definition entry_kind :: "acpi_abi \<Rightarrow> u8 list \<Rightarrow> u8" where
  "entry_kind abi e = entry_type abi (take (sizeof_entry_hdr abi) e)"

definition is_lapic :: "acpi_abi \<Rightarrow> u8 list \<Rightarrow> bool" where
  "is_lapic abi e \<longleftrightarrow> entry_kind abi e = type_lapic abi \<and> sizeof_lapic abi \<le> length e"

definition is_ioapic :: "acpi_abi \<Rightarrow> u8 list \<Rightarrow> bool" where
  "is_ioapic abi e \<longleftrightarrow> entry_kind abi e = type_ioapic abi \<and> sizeof_ioapic abi \<le> length e"

definition is_iso :: "acpi_abi \<Rightarrow> u8 list \<Rightarrow> bool" where
  "is_iso abi e \<longleftrightarrow> entry_kind abi e = type_iso abi \<and> sizeof_iso abi \<le> length e \<and> iso_bus abi (take (sizeof_iso abi) e) = 0"

definition cpu_of :: "acpi_abi \<Rightarrow> u8 list \<Rightarrow> apic_cpu" where
  "cpu_of abi e = (let b = take (sizeof_lapic abi) e in
     \<lparr>apic_uid = lapic_uid abi b, apic_id = lapic_id abi b, enabled = (if lapic_flags abi b AND 1 \<noteq> 0 then 1 else 0)\<rparr>)"

definition ioapic_of :: "acpi_abi \<Rightarrow> u8 list \<Rightarrow> ioapic_info" where
  "ioapic_of abi e = (let b = take (sizeof_ioapic abi) e in
     \<lparr>ioa_id = ioapic_entry_id abi b, ioa_addr = ucast (ioapic_address abi b), gsi_base = ioapic_gsi_base abi b\<rparr>)"

definition iso_of :: "acpi_abi \<Rightarrow> u8 list \<Rightarrow> apic_iso" where
  "iso_of abi e = (let b = take (sizeof_iso abi) e in
     \<lparr>source_irq = iso_source abi b, gsi = ucast (iso_gsi abi b), iso_flags = ucast (iso_entry_flags abi b)\<rparr>)"

text \<open>The type codes differ, and the header comes first in every entry.\<close>

definition abi_ok :: "acpi_abi \<Rightarrow> bool" where
  "abi_ok abi \<longleftrightarrow> 0 < sizeof_entry_hdr abi \<and> type_lapic abi \<noteq> type_ioapic abi \<and> type_lapic abi \<noteq> type_iso abi
     \<and> type_ioapic abi \<noteq> type_iso abi"

definition apic_ok :: "apic_info \<Rightarrow> bool" where
  "apic_ok a \<longleftrightarrow> length (cpus a) = 256 \<and> cpu_count a \<le> 256 \<and> length (ioapic a) = 8 \<and> ioapic_count a \<le> 8
     \<and> length (iso a) = 32 \<and> iso_count a \<le> 32"

definition cpus_of :: "apic_info \<Rightarrow> apic_cpu list" where "cpus_of a = take (cpu_count a) (cpus a)"
definition ioapics_of :: "apic_info \<Rightarrow> ioapic_info list" where "ioapics_of a = take (ioapic_count a) (ioapic a)"
definition isos_of :: "apic_info \<Rightarrow> apic_iso list" where "isos_of a = take (iso_count a) (iso a)"

text \<open>What one list of entries adds.\<close>

definition reads :: "acpi_abi \<Rightarrow> u8 list list \<Rightarrow> apic_info \<Rightarrow> apic_info \<Rightarrow> bool" where
  "reads abi es a a' \<longleftrightarrow> apic_ok a'
     \<and> cpus_of a' = take 256 (cpus_of a @ map (cpu_of abi) (filter (is_lapic abi) es))
     \<and> ioapics_of a' = take 8 (ioapics_of a @ map (ioapic_of abi) (filter (is_ioapic abi) es))
     \<and> isos_of a' = isos_of a @ map (iso_of abi) (filter (is_iso abi) es)"

lemma length_views:
  "apic_ok a \<Longrightarrow> length (cpus_of a) = cpu_count a" "apic_ok a \<Longrightarrow> length (ioapics_of a) = ioapic_count a"
  "apic_ok a \<Longrightarrow> length (isos_of a) = iso_count a"
  by (auto simp: apic_ok_def cpus_of_def ioapics_of_def isos_of_def)

lemma reads_Nil: "apic_ok a \<Longrightarrow> reads abi [] a a"
  using length_views [of a] by (simp add: reads_def) (simp add: apic_ok_def)

lemma take_append_take: "take n (take n xs @ ys) = take n (xs @ ys)"
  by (cases "length xs \<le> n") auto

lemma reads_Cons:
  assumes "reads abi [e] a a1" "reads abi es a1 a2"
  shows "reads abi (e # es) a a2"
proof -
  have c: "cpus_of a1 = take 256 (cpus_of a @ map (cpu_of abi) (filter (is_lapic abi) [e]))"
    "ioapics_of a1 = take 8 (ioapics_of a @ map (ioapic_of abi) (filter (is_ioapic abi) [e]))"
    "isos_of a1 = isos_of a @ map (iso_of abi) (filter (is_iso abi) [e])"
    using assms(1) by (simp_all only: reads_def)
  have s: "filter P (e # es) = filter P [e] @ filter P es" for P by simp
  show ?thesis
    using assms(2) unfolding reads_def s c map_append take_append_take by (simp only: append_assoc simp_thms)
qed

lemma take_singleton: "0 < k \<Longrightarrow> take k [x] = [x]"
  by (cases k) auto

lemma take_snoc_update: "n < length xs \<Longrightarrow> take (Suc n) (xs[n := x]) = take n xs @ [x]"
  by (simp add: take_Suc_conv_app_nth)

text \<open>The entry \<open>e\<close> lies at \<open>pos\<close>.\<close>

definition entry_at :: "u8 list \<Rightarrow> nat \<Rightarrow> u8 list \<Rightarrow> bool" where
  "entry_at mem pos e \<longleftrightarrow> pos + length e \<le> length mem \<and> take (length e) (drop pos mem) = e"

lemma rd_entry:
  assumes "entry_at mem pos e" "m \<le> length e"
  shows "rd m field mem pos = Some (field (take m e))"
proof -
  have "take m (take (length e) (drop pos mem)) = take m e" using assms(1) by (simp only: entry_at_def)
  then have "take m (drop pos mem) = take m e" using assms(2) by (simp add: min_def)
  then show ?thesis using assms by (simp add: rd_def entry_at_def)
qed

lemma parse_entry_correct:
  assumes abi: "abi_ok abi" and a: "apic_ok a" and e: "entry_at mem pos e" "length e = n" "n = unat (entry_length abi (take (sizeof_entry_hdr abi) e))"
    and h: "sizeof_entry_hdr abi \<le> n"
  shows "if is_iso abi e \<and> iso_count a = 32 then parse_entry abi mem pos a = None
    else \<exists>a'. parse_entry abi mem pos a = Some a' \<and> reads abi [e] a a'"
proof -
  have hd: "rd (sizeof_entry_hdr abi) (entry_type abi) mem pos = Some (entry_kind abi e)"
    "rd (sizeof_entry_hdr abi) (entry_length abi) mem pos = Some (entry_length abi (take (sizeof_entry_hdr abi) e))"
    using h e(2) by (simp_all add: entry_kind_def rd_entry [OF e(1)])
  note k = length_views [OF a]
  consider "entry_kind abi e = type_lapic abi" | "entry_kind abi e = type_ioapic abi" | "entry_kind abi e = type_iso abi"
    | "entry_kind abi e \<noteq> type_lapic abi" "entry_kind abi e \<noteq> type_ioapic abi" "entry_kind abi e \<noteq> type_iso abi" by blast
  then show ?thesis
  proof cases
    case 1
    have other: "\<not> is_ioapic abi e" "\<not> is_iso abi e" using 1 abi by (auto simp: is_ioapic_def is_iso_def abi_ok_def)
    show ?thesis
    proof (cases "n < sizeof_lapic abi \<or> 256 \<le> cpu_count a")
      case True
      then have "parse_entry abi mem pos a = Some a" using 1 hd e(3) by (auto simp: parse_entry_def parse_lapic_def MAX_CPU_def)
      moreover have "reads abi [e] a a"
        using True reads_Nil [OF a] other k a e(2) by (auto simp: reads_def is_lapic_def apic_ok_def)
      ultimately show ?thesis using other by simp
    next
      case False
      let ?a = "a\<lparr>cpus := (cpus a)[cpu_count a := cpu_of abi e], cpu_count := cpu_count a + 1\<rparr>"
      have "parse_entry abi mem pos a = Some ?a"
        using 1 hd e(2,3) False a
        by (simp add: parse_entry_def parse_lapic_def MAX_CPU_def store_def rd_entry [OF e(1)] apic_ok_def cpu_of_def Let_def not_less)
      moreover have "reads abi [e] a ?a"
        using 1 False other a k e(2) take_singleton [of "256 - cpu_count a" "cpu_of abi e"] take_snoc_update [of "cpu_count a" "cpus a" "cpu_of abi e"]
        by (simp add: reads_def is_lapic_def apic_ok_def cpus_of_def ioapics_of_def isos_of_def)
      ultimately show ?thesis using other by auto
    qed
  next
    case 2
    have other: "\<not> is_lapic abi e" "\<not> is_iso abi e" using 2 abi by (auto simp: is_lapic_def is_iso_def abi_ok_def)
    have t: "entry_kind abi e \<noteq> type_lapic abi" using 2 abi by (auto simp: abi_ok_def)
    show ?thesis
    proof (cases "n < sizeof_ioapic abi \<or> 8 \<le> ioapic_count a")
      case True
      then have "parse_entry abi mem pos a = Some a" using 2 t hd e(3) by (auto simp: parse_entry_def parse_ioapic_def MAX_IOAPIC_def)
      moreover have "reads abi [e] a a"
        using True reads_Nil [OF a] other k a e(2) by (auto simp: reads_def is_ioapic_def apic_ok_def)
      ultimately show ?thesis using other by simp
    next
      case False
      let ?a = "a\<lparr>ioapic := (ioapic a)[ioapic_count a := ioapic_of abi e], ioapic_count := ioapic_count a + 1\<rparr>"
      have "parse_entry abi mem pos a = Some ?a"
        using 2 t hd e(2,3) False a
        by (simp add: parse_entry_def parse_ioapic_def MAX_IOAPIC_def store_def rd_entry [OF e(1)] apic_ok_def ioapic_of_def Let_def not_less)
      moreover have "reads abi [e] a ?a"
        using 2 False other a k e(2) take_singleton [of "8 - ioapic_count a" "ioapic_of abi e"] take_snoc_update [of "ioapic_count a" "ioapic a" "ioapic_of abi e"]
        by (simp add: reads_def is_ioapic_def apic_ok_def cpus_of_def ioapics_of_def isos_of_def)
      ultimately show ?thesis using other by auto
    qed
  next
    case 3
    have other: "\<not> is_lapic abi e" "\<not> is_ioapic abi e" using 3 abi by (auto simp: is_lapic_def is_ioapic_def abi_ok_def)
    have t: "entry_kind abi e \<noteq> type_lapic abi" "entry_kind abi e \<noteq> type_ioapic abi" using 3 abi by (auto simp: abi_ok_def)
    show ?thesis
    proof (cases "is_iso abi e")
      case False
      then have "parse_entry abi mem pos a = Some a"
        using 3 t hd e(2,3) by (auto simp: parse_entry_def parse_iso_def is_iso_def not_less rd_entry [OF e(1)])
      moreover have "reads abi [e] a a" using False reads_Nil [OF a] other by (simp add: reads_def)
      ultimately show ?thesis using False by simp
    next
      case True
      let ?a = "a\<lparr>iso := (iso a)[iso_count a := iso_of abi e], iso_count := iso_count a + 1\<rparr>"
      have run: "parse_entry abi mem pos a = (if iso_count a < 32 then Some ?a else None)"
        using 3 t hd e(2,3) True a
        by (simp add: parse_entry_def parse_iso_def MAX_ISO_def store_def rd_entry [OF e(1)] apic_ok_def iso_of_def is_iso_def Let_def not_less)
      have "reads abi [e] a ?a" if "iso_count a < 32"
        using True that other a k take_snoc_update [of "iso_count a" "iso a" "iso_of abi e"]
        by (simp add: reads_def apic_ok_def cpus_of_def ioapics_of_def isos_of_def)
      then show ?thesis using run True a by (auto simp: apic_ok_def)
    qed
  next
    case 4
    then have "parse_entry abi mem pos a = Some a" using hd by (simp add: parse_entry_def)
    moreover have "reads abi [e] a a" using 4 reads_Nil [OF a] by (simp add: reads_def is_lapic_def is_ioapic_def is_iso_def)
    ultimately show ?thesis using 4 by (simp add: is_iso_def)
  qed
qed

lemma entry_at_prefix: "pos + n \<le> fin \<Longrightarrow> fin \<le> length mem \<Longrightarrow> entry_at mem pos (take n (drop pos (take fin mem)))"
  by (simp add: entry_at_def drop_take min_def)

lemma isos_count: "reads abi es a a' \<Longrightarrow> apic_ok a \<Longrightarrow> iso_count a' = iso_count a + length (filter (is_iso abi) es)"
  using length_views [of a] length_views [of a'] by (auto simp: reads_def dest: arg_cong [where f = length])

text \<open>The whole loop. It fails exactly when the overrides do not fit.\<close>

lemma parse_entries_correct:
  assumes abi: "abi_ok abi" and fin: "fin \<le> length mem" and a: "apic_ok a"
  shows "if iso_count a + length (filter (is_iso abi) (split_entries abi (drop pos (take fin mem)))) \<le> 32
    then \<exists>a'. parse_entries abi mem fin pos a = Some a' \<and> reads abi (split_entries abi (drop pos (take fin mem))) a a'
    else parse_entries abi mem fin pos a = None"
  using a
proof (induction "fin - pos" arbitrary: pos a rule: less_induct)
  case less
  let ?h = "sizeof_entry_hdr abi" and ?bs = "drop pos (take fin mem)"
  let ?n = "unat (entry_length abi (take ?h ?bs))" and ?e = "take (unat (entry_length abi (take ?h ?bs))) ?bs"
  have h: "0 < ?h" using abi by (simp add: abi_ok_def)
  have len: "length ?bs = fin - pos" using fin by simp
  have hd: "rd ?h (entry_length abi) mem pos = Some (entry_length abi (take ?h ?bs))" if "pos + ?h \<le> fin"
    using that fin by (simp add: rd_def drop_take min_def)
  show ?case
  proof (cases "pos + ?h \<le> fin \<and> ?h \<le> ?n \<and> pos + ?n \<le> fin")
    case False
    then have "split_entries abi ?bs = []" using len h by (subst split_entries.simps) (auto simp: Let_def)
    moreover have "parse_entries abi mem fin pos a = Some a"
      using False hd by (subst parse_entries.simps) (auto simp: not_le not_less)
    ultimately show ?thesis using reads_Nil [OF less.prems] less.prems by (simp add: apic_ok_def)
  next
    case True
    let ?es = "split_entries abi (drop (pos + ?n) (take fin mem))"
    have "\<not> (length ?bs < ?h \<or> ?n < ?h \<or> length ?bs < ?n \<or> ?n = 0)" using True h len by linarith
    then have sp: "split_entries abi ?bs = ?e # ?es"
      by (subst split_entries.simps) (simp only: Let_def if_False drop_drop add.commute)
    have "?n \<le> length ?bs" using True len by linarith
    then have en: "length ?e = ?n" by (simp only: length_take min_absorb2)
    have at: "entry_at mem pos ?e" using True fin by (blast intro: entry_at_prefix)
    have hn: "take ?h ?e = take ?h ?bs" using True by (simp add: min_def)
    have "?h \<le> ?n" "?n + pos \<le> fin" using True by auto
    note e = parse_entry_correct [OF abi less.prems at en, unfolded hn, OF refl this(1)]
    have step: "parse_entries abi mem fin pos a =
        Option.bind (parse_entry abi mem pos a) (parse_entries abi mem fin (pos + ?n))"
      using True hd by (subst parse_entries.simps) (simp add: not_less)
    show ?thesis
    proof (cases "is_iso abi ?e \<and> iso_count a = 32")
      case True
      then show ?thesis using e sp step by simp
    next
      case False
      then obtain a1 where a1: "parse_entry abi mem pos a = Some a1" "reads abi [?e] a a1" using e by auto
      have ok1: "apic_ok a1" using a1(2) by (simp add: reads_def)
      have c1: "iso_count a1 = iso_count a + length (filter (is_iso abi) [?e])" using isos_count [OF a1(2) less.prems] .
      have "fin - (pos + ?n) < fin - pos" using \<open>?h \<le> ?n\<close> \<open>?n + pos \<le> fin\<close> h by linarith
      from less.hyps [OF this ok1] show ?thesis
        using c1 a1(1) reads_Cons [OF a1(2)] step sp by (auto split: if_splits)
    qed
  qed
qed

section \<open>The properties\<close>

text \<open>The layout of the table that the ACPI specification gives, for the samples.\<close>

definition sample_u32 :: "nat \<Rightarrow> u8 list \<Rightarrow> u32" where
  "sample_u32 i bs = ucast (bs ! i) + 256 * ucast (bs ! (i + 1)) + 65536 * ucast (bs ! (i + 2)) + 16777216 * ucast (bs ! (i + 3))"

definition sample_abi :: acpi_abi where
  "sample_abi = \<lparr>sizeof_entry_hdr = 2, entry_type = (\<lambda>bs. bs ! 0), entry_length = (\<lambda>bs. bs ! 1),
     type_lapic = 0, type_ioapic = 1, type_iso = 2,
     sizeof_lapic = 8, lapic_uid = (\<lambda>bs. bs ! 2), lapic_id = (\<lambda>bs. bs ! 3), lapic_flags = sample_u32 4,
     sizeof_ioapic = 12, ioapic_entry_id = (\<lambda>bs. bs ! 2), ioapic_address = sample_u32 4, ioapic_gsi_base = sample_u32 8,
     sizeof_iso = 10, iso_bus = (\<lambda>bs. bs ! 2), iso_source = (\<lambda>bs. bs ! 3), iso_gsi = sample_u32 4,
     iso_entry_flags = (\<lambda>bs. ucast (bs ! 8) + 256 * ucast (bs ! 9)),
     sizeof_madt = 44, madt_length = sample_u32 4\<rparr>"

definition sample_madt :: "u8 list" where
  "sample_madt = [65, 80, 73, 67, 64, 0, 0, 0] @ replicate 36 0 @ [0, 8, 3, 5, 1, 0, 0, 0] @ [1, 12, 7, 0, 0, 0, 192, 254, 24, 0, 0, 0]"

text \<open>
  C40: Reading the MADT always ends and reads only the bytes of the table: with at most 32 interrupt
  overrides in it, the processors recorded are those of its local APIC entries, in the order of the
  table and at most 256 of them, the I/O APICs are the first 8 of its I/O APIC entries, and the overrides
  are all those of the ISA bus. With a 33rd override the guard lets the write run past the array.
\<close>

theorem parse_madt_spec:
  assumes "abi_ok abi" "sizeof_madt abi \<le> length mem"
    "unat (madt_length abi (take (sizeof_madt abi) mem)) \<le> length mem"
    "es = split_entries abi (drop (sizeof_madt abi) (take (unat (madt_length abi (take (sizeof_madt abi) mem))) mem))"
  shows "if length (filter (is_iso abi) es) \<le> 32
    then \<exists>a. parse_madt abi (Some mem) apic_boot = Some a
      \<and> cpus_of a = take 256 (map (cpu_of abi) (filter (is_lapic abi) es))
      \<and> ioapics_of a = take 8 (map (ioapic_of abi) (filter (is_ioapic abi) es))
      \<and> isos_of a = map (iso_of abi) (filter (is_iso abi) es)
      \<and> apic_get_cpu_count a = min 256 (length (filter (is_lapic abi) es))
    else parse_madt abi (Some mem) apic_boot = None"
proof -
  have ok: "apic_ok apic_boot" by (simp add: apic_ok_def apic_boot_def MAX_IOAPIC_def MAX_ISO_def MAX_CPU_def)
  have z: "cpus_of apic_boot = []" "ioapics_of apic_boot = []" "isos_of apic_boot = []" "iso_count apic_boot = 0"
    by (simp_all add: cpus_of_def ioapics_of_def isos_of_def apic_boot_def)
  have run: "parse_madt abi (Some mem) apic_boot
      = parse_entries abi mem (unat (madt_length abi (take (sizeof_madt abi) mem))) (sizeof_madt abi) apic_boot"
    using assms(2) by (simp add: parse_madt_def rd_def)
  have count: "apic_get_cpu_count a = min 256 (length (filter (is_lapic abi) es))" if "reads abi es apic_boot a" for a
    using that length_views(1) [of a] z by (simp add: reads_def apic_get_cpu_count_def min.commute)
  show ?thesis
    using parse_entries_correct [OF assms(1,3) ok, of "sizeof_madt abi"] count z
    unfolding run assms(4) [symmetric] by (auto simp: reads_def)
qed

lemma sample_entries:
  "split_entries sample_abi (drop 44 (take 64 sample_madt)) = [[0, 8, 3, 5, 1, 0, 0, 0], [1, 12, 7, 0, 0, 0, 192, 254, 24, 0, 0, 0]]"
  by (simp add: split_entries.simps sample_abi_def sample_madt_def)

lemma parse_madt_spec_witness:
  "\<exists>a. parse_madt sample_abi (Some sample_madt) apic_boot = Some a
     \<and> cpus_of a = [\<lparr>apic_uid = 3, apic_id = 5, enabled = 1\<rparr>]
     \<and> ioapics_of a = [\<lparr>ioa_id = 7, ioa_addr = 0xFEC00000, gsi_base = 24\<rparr>] \<and> isos_of a = [] \<and> apic_get_cpu_count a = 1"
proof -
  have len: "madt_length sample_abi (take 44 sample_madt) = 64" "sizeof_madt sample_abi = 44"
    "sizeof_madt sample_abi \<le> length sample_madt" "length sample_madt = 64" "unat (64 :: u32) = 64"
    by (simp_all add: sample_abi_def sample_madt_def sample_u32_def)
  have f: "filter (is_iso sample_abi) (split_entries sample_abi (drop 44 (take 64 sample_madt))) = []"
    "filter (is_lapic sample_abi) (split_entries sample_abi (drop 44 (take 64 sample_madt))) = [[0, 8, 3, 5, 1, 0, 0, 0]]"
    "filter (is_ioapic sample_abi) (split_entries sample_abi (drop 44 (take 64 sample_madt))) = [[1, 12, 7, 0, 0, 0, 192, 254, 24, 0, 0, 0]]"
    unfolding sample_entries
    by (simp_all add: is_iso_def is_lapic_def is_ioapic_def entry_kind_def sample_abi_def)
  have v: "cpu_of sample_abi [0, 8, 3, 5, 1, 0, 0, 0] = \<lparr>apic_uid = 3, apic_id = 5, enabled = 1\<rparr>"
    "ioapic_of sample_abi [1, 12, 7, 0, 0, 0, 192, 254, 24, 0, 0, 0] = \<lparr>ioa_id = 7, ioa_addr = 0xFEC00000, gsi_base = 24\<rparr>"
    by (simp_all add: cpu_of_def ioapic_of_def sample_abi_def sample_u32_def)
  have "abi_ok sample_abi" by (simp add: abi_ok_def sample_abi_def)
  then show ?thesis
    using parse_madt_spec [of sample_abi sample_madt, OF _ len(3) _ refl, unfolded len f] by (simp add: v len)
qed

end
