(* ===== verification/Hardware.thy ===== *)
theory Hardware
  imports Prelude
begin

text \<open>
  The hardware behind the drivers. Port and register accesses (\<^verbatim>\<open>arch/x86_64/asm/io.h\<close>, \<^verbatim>\<open>msr.h\<close> and
  the volatile accesses to memory-mapped registers) are the only way the code reaches a device; the
  devices themselves are not code of the repository. They are a parameter, a record of what each
  access does to a state \<open>'d\<close> of the outside world. What a property needs of them is a hypothesis
  that states documented behaviour of the chip.
\<close>

record 'd bus =
  bus_out :: "u16 \<Rightarrow> u8 \<Rightarrow> 'd \<Rightarrow> 'd"
  bus_in :: "u16 \<Rightarrow> 'd \<Rightarrow> u8 \<times> 'd"
  bus_store :: "u64 \<Rightarrow> u32 \<Rightarrow> 'd \<Rightarrow> 'd"
  bus_load :: "u64 \<Rightarrow> 'd \<Rightarrow> u32 \<times> 'd"
  bus_wrmsr :: "u32 \<Rightarrow> u64 \<Rightarrow> 'd \<Rightarrow> 'd"
  bus_rdmsr :: "u32 \<Rightarrow> 'd \<Rightarrow> u64"

definition outb :: "'d bus \<Rightarrow> u16 \<Rightarrow> u8 \<Rightarrow> 'd \<Rightarrow> 'd" where "outb b port val d = bus_out b port val d"
definition inb :: "'d bus \<Rightarrow> u16 \<Rightarrow> 'd \<Rightarrow> u8 \<times> 'd" where "inb b port d = bus_in b port d"
definition io_wait :: "'d bus \<Rightarrow> 'd \<Rightarrow> 'd" where "io_wait b d = outb b 0x80 0 d"

text \<open>\<open>rdmsr\<close> and \<open>wrmsr\<close> split a register into its two halves.\<close>

definition rdmsr :: "'d bus \<Rightarrow> u32 \<Rightarrow> 'd \<Rightarrow> u64" where
  "rdmsr b msr d = (let lo = ucast (bus_rdmsr b msr d) :: u32; hi = ucast (drop_bit 32 (bus_rdmsr b msr d)) :: u32 in
     push_bit 32 (ucast hi) OR ucast lo)"

definition wrmsr :: "'d bus \<Rightarrow> u32 \<Rightarrow> u64 \<Rightarrow> 'd \<Rightarrow> 'd" where
  "wrmsr b msr val d = (let lo = ucast val :: u32; hi = ucast (drop_bit 32 val) :: u32 in
     bus_wrmsr b msr (push_bit 32 (ucast hi) OR ucast lo) d)"

lemma halves: "push_bit 32 (ucast (ucast (drop_bit 32 (w :: u64)) :: u32)) OR ucast (ucast w :: u32) = w"
  by (rule bit_word_eqI) (auto simp: bit_simps)

lemma rdmsr_eq [simp]: "rdmsr b msr d = bus_rdmsr b msr d"
  by (simp add: rdmsr_def halves)

lemma wrmsr_eq [simp]: "wrmsr b msr val d = bus_wrmsr b msr val d"
  by (simp add: wrmsr_def halves)

end
