(* ===== verification/Pic.thy ===== *)
theory Pic
  imports Hardware
begin

text \<open>
  The two cascaded interrupt controllers: \<^verbatim>\<open>src/kernel/arch/x86_64/pic/pic.c\<close>. A shift by more than
  30 bits of the \<open>int\<close> 1 is undefined (\<open>None\<close>).
\<close>

definition PIC1_COMMAND :: u16 where "PIC1_COMMAND = 0x20"
definition PIC1_DATA :: u16 where "PIC1_DATA = 0x21"
definition PIC2_COMMAND :: u16 where "PIC2_COMMAND = 0xA0"
definition PIC2_DATA :: u16 where "PIC2_DATA = 0xA1"
definition PIC_EOI :: u8 where "PIC_EOI = 0x20"
definition ICW1_ICW4 :: u8 where "ICW1_ICW4 = 0x01"
definition ICW1_INIT :: u8 where "ICW1_INIT = 0x10"
definition ICW4_8086 :: u8 where "ICW4_8086 = 0x01"
definition CASCADE_IRQ :: nat where "CASCADE_IRQ = 2"

definition pic_signal_EOI :: "'d bus \<Rightarrow> u64 \<Rightarrow> 'd \<Rightarrow> 'd" where
  "pic_signal_EOI b irq d =
     (let d = (if 8 \<le> irq then outb b PIC2_COMMAND PIC_EOI d else d) in outb b PIC1_COMMAND PIC_EOI d)"

definition pic_remap :: "'d bus \<Rightarrow> u32 \<Rightarrow> u32 \<Rightarrow> 'd \<Rightarrow> 'd" where
  "pic_remap b offset1 offset2 d =
     (let d = outb b PIC1_COMMAND (ICW1_INIT OR ICW1_ICW4) d;
          d = io_wait b d;
          d = outb b PIC2_COMMAND (ICW1_INIT OR ICW1_ICW4) d;
          d = io_wait b d;
          d = outb b PIC1_DATA (ucast offset1) d;
          d = io_wait b d;
          d = outb b PIC2_DATA (ucast offset2) d;
          d = io_wait b d;
          d = outb b PIC1_DATA (push_bit CASCADE_IRQ 1) d;
          d = io_wait b d;
          d = outb b PIC2_DATA 2 d;
          d = io_wait b d;
          d = outb b PIC1_DATA ICW4_8086 d;
          d = io_wait b d;
          d = outb b PIC2_DATA ICW4_8086 d;
          d = io_wait b d;
          d = outb b PIC1_DATA 0xFF d
      in outb b PIC2_DATA 0xFF d)"

text \<open>\<open>1 << irq_line\<close>, kept to the 8 bits that are stored.\<close>

definition line_bit :: "u8 \<Rightarrow> u8 option" where
  "line_bit irq_line = (if unat irq_line \<le> 30 then Some (ucast (push_bit (unat irq_line) 1 :: u32)) else None)"

definition pic_irq_set_mask :: "'d bus \<Rightarrow> u8 \<Rightarrow> 'd \<Rightarrow> 'd option" where
  "pic_irq_set_mask b irq_line d =
     (let (port, line) = (if irq_line < 8 then (PIC1_DATA, irq_line) else (PIC2_DATA, irq_line - 8)) in
      do {
        m \<leftarrow> line_bit line;
        let (v, d) = inb b port d;
        Some (outb b port (v OR m) d)
      })"

definition pic_irq_clear_mask :: "'d bus \<Rightarrow> u8 \<Rightarrow> 'd \<Rightarrow> 'd option" where
  "pic_irq_clear_mask b irq_line d =
     (let (port, line) = (if irq_line < 8 then (PIC1_DATA, irq_line) else (PIC2_DATA, irq_line - 8)) in
      do {
        m \<leftarrow> line_bit line;
        let (v, d) = inb b port d;
        Some (outb b port (v AND NOT m) d)
      })"

definition pic_mask_all :: "'d bus \<Rightarrow> 'd \<Rightarrow> 'd" where
  "pic_mask_all b d = outb b PIC2_DATA 0xFF (outb b PIC1_DATA 0xFF d)"

section \<open>The chips, as documented\<close>

text \<open>
  An 8259 controller: the position in its initialisation sequence, the words that sequence sets, the
  interrupt mask and the lines in service.
\<close>

datatype icw_step = Ready | Await_icw2 bool | Await_icw3 bool | Await_icw4

record i8259 =
  ic_step :: icw_step
  ic_base :: u8
  ic_cascade :: u8
  ic_mode :: u8
  ic_mask :: u8
  ic_service :: "nat list"

text \<open>A non-specific end of interrupt closes the line in service with the highest priority.\<close>

definition i8259_command :: "u8 \<Rightarrow> i8259 \<Rightarrow> i8259" where
  "i8259_command v c =
     (if bit v 4 then c\<lparr>ic_step := Await_icw2 (bit v 0), ic_mask := 0, ic_service := []\<rparr>
      else if v = 0x20 then c\<lparr>ic_service := tl (ic_service c)\<rparr>
      else c)"

definition i8259_data :: "u8 \<Rightarrow> i8259 \<Rightarrow> i8259" where
  "i8259_data v c =
     (case ic_step c of
        Ready \<Rightarrow> c\<lparr>ic_mask := v\<rparr>
      | Await_icw2 w4 \<Rightarrow> c\<lparr>ic_base := v AND 0xF8, ic_step := Await_icw3 w4\<rparr>
      | Await_icw3 w4 \<Rightarrow> c\<lparr>ic_cascade := v, ic_step := (if w4 then Await_icw4 else Ready)\<rparr>
      | Await_icw4 \<Rightarrow> c\<lparr>ic_mode := v, ic_step := Ready\<rparr>)"

text \<open>The pair at their ports. Other ports do not reach them.\<close>

definition pair_out :: "u16 \<Rightarrow> u8 \<Rightarrow> i8259 \<times> i8259 \<Rightarrow> i8259 \<times> i8259" where
  "pair_out port v = (\<lambda>(m, s).
     if port = 0x20 then (i8259_command v m, s)
     else if port = 0x21 then (i8259_data v m, s)
     else if port = 0xA0 then (m, i8259_command v s)
     else if port = 0xA1 then (m, i8259_data v s)
     else (m, s))"

text \<open>
  \<open>chips\<close> shows the pair in the state of the world: writes reach it, and a data port reads back the
  mask of an initialised controller.
\<close>

definition pic_wired :: "'d bus \<Rightarrow> ('d \<Rightarrow> i8259 \<times> i8259) \<Rightarrow> bool" where
  "pic_wired b chips \<longleftrightarrow>
     (\<forall>port v d. chips (bus_out b port v d) = pair_out port v (chips d))
     \<and> (\<forall>port d. chips (snd (bus_in b port d)) = chips d)
     \<and> (\<forall>d. ic_step (fst (chips d)) = Ready \<longrightarrow> fst (bus_in b 0x21 d) = ic_mask (fst (chips d)))
     \<and> (\<forall>d. ic_step (snd (chips d)) = Ready \<longrightarrow> fst (bus_in b 0xA1 d) = ic_mask (snd (chips d)))"

text \<open>Line \<open>n\<close> of the pair is masked.\<close>

definition line_masked :: "i8259 \<times> i8259 \<Rightarrow> nat \<Rightarrow> bool" where
  "line_masked c n = (if n < 8 then bit (ic_mask (fst c)) n else bit (ic_mask (snd c)) (n - 8))"

definition pics_ready :: "i8259 \<times> i8259 \<Rightarrow> bool" where
  "pics_ready c \<longleftrightarrow> ic_step (fst c) = Ready \<and> ic_step (snd c) = Ready"

lemma wiredD:
  assumes "pic_wired b chips"
  shows "chips (outb b port v d) = pair_out port v (chips d)"
    and "chips (io_wait b d) = chips d"
    and "chips (snd (inb b port d)) = chips d"
    and "ic_step (fst (chips d)) = Ready \<Longrightarrow> fst (inb b 0x21 d) = ic_mask (fst (chips d))"
    and "ic_step (snd (chips d)) = Ready \<Longrightarrow> fst (inb b 0xA1 d) = ic_mask (snd (chips d))"
  using assms by (auto simp: pic_wired_def outb_def inb_def io_wait_def pair_out_def split: prod.splits)

lemmas pic_ports = PIC1_COMMAND_def PIC1_DATA_def PIC2_COMMAND_def PIC2_DATA_def

section \<open>What the driver makes of them\<close>

lemma pic_remap_correct:
  assumes "pic_wired b chips"
  shows "chips (pic_remap b offset1 offset2 d) =
    ((fst (chips d))\<lparr>ic_step := Ready, ic_base := ucast offset1 AND 0xF8, ic_cascade := 4, ic_mode := 1, ic_mask := 0xFF, ic_service := []\<rparr>,
     (snd (chips d))\<lparr>ic_step := Ready, ic_base := ucast offset2 AND 0xF8, ic_cascade := 2, ic_mode := 1, ic_mask := 0xFF, ic_service := []\<rparr>)"
  by (cases "chips d")
    (simp add: pic_remap_def wiredD [OF assms] pair_out_def i8259_command_def i8259_data_def pic_ports
      ICW1_INIT_def ICW1_ICW4_def ICW4_8086_def CASCADE_IRQ_def)

lemma line_bit_less: "line < 8 \<Longrightarrow> line_bit line = Some (push_bit (unat line) 1)"
proof -
  assume "line < 8"
  then have n: "unat line < 8" by (simp add: word_less_nat_alt)
  have "ucast (push_bit (unat line) (1 :: u32)) = (push_bit (unat line) 1 :: u8)"
    by (rule bit_word_eqI) (use n in \<open>auto simp: bit_simps\<close>)
  then show ?thesis using n by (simp add: line_bit_def)
qed

lemma bit_single: "bit (2 ^ n :: u8) k \<longleftrightarrow> k = n \<and> n < 8"
  by (auto simp: bit_simps)

text \<open>One line of the mask changes, the other fifteen keep their setting.\<close>

lemma pic_mask_correct:
  assumes "pic_wired b chips" "pics_ready (chips d)" "irq < 16"
  shows "\<exists>d'. pic_irq_set_mask b irq d = Some d' \<and> pics_ready (chips d')
      \<and> (\<forall>n<16. line_masked (chips d') n \<longleftrightarrow> n = unat irq \<or> line_masked (chips d) n)"
    and "\<exists>d'. pic_irq_clear_mask b irq d = Some d' \<and> pics_ready (chips d')
      \<and> (\<forall>n<16. line_masked (chips d') n \<longleftrightarrow> n \<noteq> unat irq \<and> line_masked (chips d) n)"
proof -
  obtain m s where c: "chips d = (m, s)" by fastforce
  have r: "ic_step m = Ready" "ic_step s = Ready" using assms(2) c by (simp_all add: pics_ready_def)
  note w = wiredD [OF assms(1)]
  have low: "unat irq < 8" if "irq < 8" using that by (simp add: word_less_nat_alt)
  have hi: "irq - 8 < 8" "unat (irq - 8) = unat irq - 8" "8 \<le> unat irq" "unat irq < 16" if "\<not> irq < 8"
  proof -
    have u: "8 \<le> unat irq" "unat irq < 16" using that assms(3) by (simp_all add: word_less_nat_alt)
    show "unat (irq - 8) = unat irq - 8" using u(1) by (simp add: unat_sub word_le_nat_alt)
    then show "irq - 8 < 8" using u by (simp add: word_less_nat_alt)
  qed (use that assms(3) in \<open>simp_all add: word_less_nat_alt\<close>)
  note sets = pic_irq_set_mask_def pic_irq_clear_mask_def Let_def case_prod_beta
  show "\<exists>d'. pic_irq_set_mask b irq d = Some d' \<and> pics_ready (chips d')
      \<and> (\<forall>n<16. line_masked (chips d') n \<longleftrightarrow> n = unat irq \<or> line_masked (chips d) n)"
  proof (cases "irq < 8")
    case True
    show ?thesis
      using True low r c w(4) [of d] by (auto simp: sets line_bit_less w pair_out_def pic_ports i8259_data_def
        pics_ready_def line_masked_def bit_or_iff bit_single)
  next
    case False
    show ?thesis
      using False hi r c w(5) [of d] by (auto simp: sets line_bit_less w pair_out_def pic_ports i8259_data_def
        pics_ready_def line_masked_def bit_or_iff bit_single)
  qed
  show "\<exists>d'. pic_irq_clear_mask b irq d = Some d' \<and> pics_ready (chips d')
      \<and> (\<forall>n<16. line_masked (chips d') n \<longleftrightarrow> n \<noteq> unat irq \<and> line_masked (chips d) n)"
  proof (cases "irq < 8")
    case True
    show ?thesis
      using True low r c w(4) [of d] by (auto simp: sets line_bit_less w pair_out_def pic_ports i8259_data_def
        pics_ready_def line_masked_def bit_and_iff bit_not_iff bit_single)
  next
    case False
    show ?thesis
      using False hi r c w(5) [of d] by (auto simp: sets line_bit_less w pair_out_def pic_ports i8259_data_def
        pics_ready_def line_masked_def bit_and_iff bit_not_iff bit_single)
  qed
qed

end
