(* ===== verification/Pit.thy ===== *)
theory Pit
  imports Pic
begin

text \<open>
  The interval timer: \<^verbatim>\<open>src/kernel/arch/x86_64/pic/pit.c\<close>. \<open>pit_sleep\<close> polls the counter; that it comes
  back is a property of the chip, so its loop is a partial function.
\<close>

definition PIT_CHANNEL0 :: u16 where "PIT_CHANNEL0 = 0x40"
definition PIT_COMMAND :: u16 where "PIT_COMMAND = 0x43"
definition PIT_FREQUENCY :: u64 where "PIT_FREQUENCY = 1193182"

definition pit_interrupt_handler :: "'d bus \<Rightarrow> u64 \<Rightarrow> 'd \<Rightarrow> u64 \<times> 'd" where
  "pit_interrupt_handler b pit_count d = (pit_count + 1, pic_signal_EOI b 0 d)"

text \<open>The divisor \<open>init_pit\<close> programs.\<close>

definition pit_divisor :: "u64 \<Rightarrow> u16" where
  "pit_divisor target_hz =
     (let target_hz = (if target_hz < 19 \<or> PIT_FREQUENCY < target_hz then 1000 else target_hz) in
      ucast (PIT_FREQUENCY div target_hz))"

text \<open>\<open>register\<close> is the call of \<open>register_interrupt_handler\<close> between programming the counter and unmasking.\<close>

definition init_pit :: "'d bus \<Rightarrow> u64 \<Rightarrow> ('d \<Rightarrow> 'd) \<Rightarrow> 'd \<Rightarrow> 'd option" where
  "init_pit b target_hz register d =
     (let divisor = pit_divisor target_hz;
          d = outb b PIT_COMMAND 0x34 d;
          d = outb b PIT_CHANNEL0 (ucast (divisor AND 0xFF)) d;
          d = outb b PIT_CHANNEL0 (ucast (drop_bit 8 divisor AND 0xFF)) d;
          d = register d
      in pic_irq_clear_mask b 0 d)"

definition pit_read_counter :: "'d bus \<Rightarrow> 'd \<Rightarrow> u16 \<times> 'd" where
  "pit_read_counter b d =
     (let d = outb b PIT_COMMAND 0x00 d;
          (lo, d) = inb b PIT_CHANNEL0 d;
          (hi, d) = inb b PIT_CHANNEL0 d
      in (push_bit 8 (ucast hi) OR ucast lo, d))"

definition elapsed :: "u16 \<Rightarrow> u16 \<Rightarrow> u64" where
  "elapsed last_tick current_tick =
     (if current_tick \<le> last_tick then ucast last_tick - ucast current_tick
      else ucast last_tick + (0xFFFF - ucast current_tick) + 1)"

partial_function (option) pit_sleep_loop :: "'d bus \<Rightarrow> u64 \<Rightarrow> u64 \<Rightarrow> u16 \<Rightarrow> 'd \<Rightarrow> 'd option" where
  "pit_sleep_loop b target_ticks accumulated_ticks last_tick d =
     (if accumulated_ticks < target_ticks then
        let (current_tick, d) = pit_read_counter b d in
        pit_sleep_loop b target_ticks (accumulated_ticks + elapsed last_tick current_tick) current_tick d
      else Some d)"

definition pit_program :: "'d bus \<Rightarrow> 'd \<Rightarrow> 'd" where
  "pit_program b d = outb b PIT_CHANNEL0 0xFF (outb b PIT_CHANNEL0 0xFF (outb b PIT_COMMAND 0x34 d))"

definition pit_sleep :: "'d bus \<Rightarrow> u32 \<Rightarrow> 'd \<Rightarrow> 'd option" where
  "pit_sleep b ms d =
     (let d = pit_program b d;
          target_ticks = (1193182 * ucast ms) div 1000;
          (last_tick, d) = pit_read_counter b d
      in pit_sleep_loop b target_ticks 0 last_tick d)"

section \<open>The chip, as documented\<close>

text \<open>
  \<open>ticks\<close> counts the input clock since the counter was loaded with \<open>0xFFFF\<close>. In mode 2 it counts from
  65535 down to 1 and starts over, which takes 65535 ticks. Reading takes some time, and less than a
  whole period goes by between two readings.
\<close>

definition pit_wired :: "'d bus \<Rightarrow> ('d \<Rightarrow> bool) \<Rightarrow> ('d \<Rightarrow> nat) \<Rightarrow> bool" where
  "pit_wired b programmed ticks \<longleftrightarrow>
     (\<forall>d. programmed (pit_program b d))
     \<and> (\<forall>d. programmed d \<longrightarrow>
          (let (v, d') = pit_read_counter b d in
           programmed d' \<and> unat v = 65535 - ticks d' mod 65535 \<and> ticks d < ticks d' \<and> ticks d' < ticks d + 65535))"

lemma pit_wiredD:
  assumes "pit_wired b programmed ticks"
  shows "programmed (pit_program b d)"
    and "programmed d \<Longrightarrow> pit_read_counter b d = (v, d') \<Longrightarrow> programmed d'"
    and "programmed d \<Longrightarrow> pit_read_counter b d = (v, d') \<Longrightarrow> unat v = 65535 - ticks d' mod 65535"
    and "programmed d \<Longrightarrow> pit_read_counter b d = (v, d') \<Longrightarrow> ticks d < ticks d' \<and> ticks d' < ticks d + 65535"
  using assms by (auto simp: pit_wired_def Let_def dest!: spec [of _ d])

text \<open>The ticks the code counts for the time from \<open>t\<close> to \<open>t'\<close>: one more each time the counter started over.\<close>

definition counted :: "nat \<Rightarrow> nat \<Rightarrow> nat" where
  "counted t t' = t' - t + (t' div 65535 - t div 65535)"

lemma counted_add: "t \<le> t' \<Longrightarrow> t' \<le> t'' \<Longrightarrow> counted t t'' = counted t t' + counted t' t''"
  using div_le_mono [of t t' 65535] div_le_mono [of t' t'' 65535] by (simp add: counted_def)

lemma unat_u16 [simp]: "unat (ucast (w :: u16) :: u64) = unat w" and u16_bound: "unat (w :: u16) \<le> 65535"
proof -
  have b: "unat w < 2 ^ LENGTH(16)" by (rule unsigned_less)
  then show "unat w \<le> 65535" by simp
  show "unat (ucast w :: u64) = unat w"
    using b by (simp add: unsigned_ucast_eq take_bit_nat_eq_self_iff)
qed

lemma elapsed_wrap:
  assumes "\<not> unat v' \<le> unat v"
  shows "unat (elapsed v v') = unat v + (65535 - unat v') + 1"
proof -
  define x :: u64 where "x = 0xFFFF - ucast v'"
  have b: "unat v \<le> 65535" "unat v' \<le> 65535" by (rule u16_bound)+
  then have x: "unat x = 65535 - unat v'" by (simp add: x_def unat_sub word_le_nat_alt)
  have "elapsed v v' = ucast v + x + 1" using assms by (simp add: elapsed_def x_def word_le_nat_alt)
  then show ?thesis using b by (simp add: unat_word_ariths x)
qed

lemma elapsed_correct:
  assumes "unat v = 65535 - t mod 65535" "unat v' = 65535 - t' mod 65535" "t < t'" "t' < t + 65535"
  shows "unat (elapsed v v') = counted t t'"
proof -
  have le: "v' \<le> v \<longleftrightarrow> unat v' \<le> unat v" by (simp add: word_le_nat_alt)
  define q r where "q = t div 65535" and "r = t mod 65535"
  have t: "t = 65535 * q + r" "r < 65535" by (simp_all add: q_def r_def)
  show ?thesis
  proof (cases "t' < 65535 * (q + 1)")
    case True
    then have d: "t' div 65535 = q" using t assms(3) by (intro div_nat_eqI) simp_all
    then have q': "t' div 65535 = q" "t' mod 65535 = t' - 65535 * q"
      by (simp_all add: minus_mult_div_eq_mod [symmetric])
    then have u: "unat v = 65535 - r" "unat v' = 65535 - (t' - 65535 * q)" using assms(1,2) by (simp_all add: r_def)
    have g: "t' - 65535 * q < 65535" using True by simp
    have "unat v' \<le> unat v" using u t assms(3) by linarith
    then have "unat (elapsed v v') = unat v - unat v'"
      by (simp add: elapsed_def le unat_sub word_le_nat_alt)
    also have "\<dots> = t' - t" using u g t assms(3) by linarith
    finally show ?thesis using q' by (simp add: counted_def q_def)
  next
    case False
    then have d: "t' div 65535 = q + 1" using t assms(4) by (intro div_nat_eqI) simp_all
    then have q': "t' div 65535 = q + 1" "t' mod 65535 = t' - 65535 * (q + 1)"
      by (simp_all add: minus_mult_div_eq_mod [symmetric])
    then have u: "unat v = 65535 - r" "unat v' = 65535 - (t' - 65535 * (q + 1))" using assms(1,2) by (simp_all add: r_def)
    have "65535 * (q + 1) \<le> t'" using False by simp
    then have g: "t' - 65535 * (q + 1) < r" using t assms(4) by (simp add: algebra_simps)
    have gt: "\<not> unat v' \<le> unat v" using u g t(2) by linarith
    have b: "unat v' \<le> 65535" "unat v \<le> 65535" using u by linarith+
    have "unat (elapsed v v') = unat v + (65535 - unat v') + 1" by (rule elapsed_wrap [OF gt])
    also have "\<dots> = t' - t + 1"
    proof -
      obtain s where "t' = 65535 * (q + 1) + s" using \<open>65535 * (q + 1) \<le> t'\<close> le_Suc_ex by blast
      then show ?thesis using u g t by simp
    qed
    finally show ?thesis using q' by (simp add: counted_def q_def)
  qed
qed

lemma elapsed_small: "unat (elapsed v v') \<le> 65536"
proof (cases "unat v' \<le> unat v")
  case True
  then show ?thesis using u16_bound [of v] by (simp add: elapsed_def unat_sub word_le_nat_alt)
next
  case False
  then show ?thesis using elapsed_wrap [OF False] u16_bound [of v'] by linarith
qed

text \<open>
  The loop returns. \<open>t0\<close> is the time at its start; the ticks it has counted are the time since then
  and the restarts of the counter.
\<close>

lemma pit_sleep_loop_correct:
  assumes wired: "pit_wired b programmed ticks"
    and "programmed d" "unat v0 = 65535 - ticks d mod 65535" "t0 \<le> ticks d" "unat acc = counted t0 (ticks d)"
    and "unat target < 2 ^ 63" "unat acc \<le> unat target + 65535"
  shows "\<exists>d'. pit_sleep_loop b target acc v0 d = Some d' \<and> programmed d'
    \<and> unat target \<le> counted t0 (ticks d') \<and> counted t0 (ticks d') \<le> unat target + 65535"
  using assms(2-)
proof (induction "unat target - unat acc" arbitrary: acc v0 d rule: less_induct)
  case less
  show ?case
  proof (cases "acc < target")
    case False
    then have "pit_sleep_loop b target acc v0 d = Some d" by (simp add: pit_sleep_loop.simps)
    then show ?thesis using False less.prems by (auto simp: word_less_nat_alt not_less)
  next
    case True
    obtain v d1 where r: "pit_read_counter b d = (v, d1)" by fastforce
    have h: "programmed d1" "unat v = 65535 - ticks d1 mod 65535" "ticks d < ticks d1" "ticks d1 < ticks d + 65535"
      using pit_wiredD(2-4) [OF wired less.prems(1) r] by blast+
    have e: "unat (elapsed v0 v) = counted (ticks d) (ticks d1)"
      by (rule elapsed_correct [OF less.prems(2) h(2-4)])
    have small: "unat (elapsed v0 v) \<le> 65536" by (rule elapsed_small)
    have lt: "unat acc < unat target" using True by (simp add: word_less_nat_alt)
    have sum: "unat (acc + elapsed v0 v) = unat acc + unat (elapsed v0 v)"
      using lt small less.prems(5) by (simp add: unat_word_ariths)
    have pos: "0 < unat (elapsed v0 v)" using e h(3) by (simp add: counted_def)
    have step: "pit_sleep_loop b target acc v0 d = pit_sleep_loop b target (acc + elapsed v0 v) v d1"
      using True r by (subst pit_sleep_loop.simps) simp
    show ?thesis
      unfolding step
    proof (rule less.hyps)
      show "unat target - unat (acc + elapsed v0 v) < unat target - unat acc" using sum pos lt by linarith
      show "unat (acc + elapsed v0 v) = counted t0 (ticks d1)"
        using sum e less.prems(3,4) h(3) counted_add [of t0 "ticks d" "ticks d1"] by simp
      show "unat (acc + elapsed v0 v) \<le> unat target + 65535" using sum small lt by linarith
      show "t0 \<le> ticks d1" using less.prems(3) h(3) by simp
    qed (use h less.prems in simp_all)
  qed
qed

lemma target_ticks: "unat ((1193182 * ucast ms) div 1000 :: u64) = 1193182 * unat (ms :: u32) div 1000"
proof -
  have "1193182 * unat ms < 2 ^ 64" proof -
    have "unat ms < 2 ^ LENGTH(32)" by (rule unsigned_less)
    then show ?thesis by simp
  qed
  then show ?thesis by (simp add: unat_div unat_word_ariths)
qed

text \<open>The divisor for a frequency in range fits its 16 bits, and the rate it gives is the next one at or above it.\<close>

lemma pit_divisor_correct:
  assumes "19 \<le> unat hz" "unat hz \<le> 1193182"
  shows "unat (pit_divisor hz) = 1193182 div unat hz" "0 < unat (pit_divisor hz)"
proof -
  have r: "\<not> (hz < 19 \<or> PIT_FREQUENCY < hz)" using assms by (auto simp: PIT_FREQUENCY_def word_less_nat_alt)
  have "1193182 div unat hz \<le> 1193182 div 19" by (rule div_le_mono2) (use assms in simp_all)
  then have b: "1193182 div unat hz < 65536" by simp
  show *: "unat (pit_divisor hz) = 1193182 div unat hz"
    using r b by (simp add: pit_divisor_def PIT_FREQUENCY_def unsigned_ucast_eq unat_div take_bit_nat_eq_self_iff)
  show "0 < unat (pit_divisor hz)" unfolding * using assms by (simp add: div_greater_zero_iff)
qed

end
