(* ===== verification/Descriptors.thy ===== *)
theory Descriptors
  imports Pic Loops
begin

text \<open>
  Segments and interrupt gates: \<^verbatim>\<open>src/kernel/arch/x86_64/gdt.c\<close>, \<^verbatim>\<open>gdt.h\<close>, \<^verbatim>\<open>interrupts/idt.c\<close> and
  \<^verbatim>\<open>idt.h\<close>. The tables are lists of the packed records the processor reads; loading a table register
  (assembly) sets the field of the state that stands for it. The addresses of the tables, of the
  per-CPU data and of the interrupt stubs are arguments. Writing past a table is undefined.
\<close>

record gdtr_t =
  gr_limit :: u16
  gr_ptr :: u64

record gdt_desc =
  gd_limit :: u16
  gd_base_low :: u16
  gd_base_mid :: u8
  gd_access :: u8
  gd_granularity :: u8
  gd_base_hi :: u8

record tss_t =
  ts_resv0 :: u32
  ts_rsp0 :: u64
  ts_rsp1 :: u64
  ts_rsp2 :: u64
  ts_resv1 :: u64
  ts_ist :: "u64 list"
  ts_resv2 :: u64
  ts_resv3 :: u16
  ts_iopb_offset :: u16

definition GDT_SEL :: "nat \<Rightarrow> u16" where "GDT_SEL entry = push_bit 3 (of_nat entry)"
definition GDT_ENTRY_NULL :: nat where "GDT_ENTRY_NULL = 0"
definition GDT_ENTRY_KERNEL_CS :: nat where "GDT_ENTRY_KERNEL_CS = 1"
definition GDT_ENTRY_KERNEL_DS :: nat where "GDT_ENTRY_KERNEL_DS = 2"
definition GDT_ENTRY_USER_DS :: nat where "GDT_ENTRY_USER_DS = 3"
definition GDT_ENTRY_USER_CS :: nat where "GDT_ENTRY_USER_CS = 4"
definition GDT_ENTRY_TSS_LO :: nat where "GDT_ENTRY_TSS_LO = 5"
definition GDT_ENTRY_TSS_HI :: nat where "GDT_ENTRY_TSS_HI = 6"
definition GDT_ENTRIES :: nat where "GDT_ENTRIES = 7"
definition KERNEL_CS :: u16 where "KERNEL_CS = GDT_SEL GDT_ENTRY_KERNEL_CS"

definition sizeof_gdt_desc :: nat where "sizeof_gdt_desc = 8"
definition sizeof_tss :: nat where "sizeof_tss = 104"

definition flat_desc :: "u8 \<Rightarrow> u8 \<Rightarrow> gdt_desc" where
  "flat_desc access granularity = \<lparr>gd_limit = 0xFFFF, gd_base_low = 0, gd_base_mid = 0,
     gd_access = access, gd_granularity = granularity, gd_base_hi = 0\<rparr>"

definition null_desc :: gdt_desc where
  "null_desc = \<lparr>gd_limit = 0, gd_base_low = 0, gd_base_mid = 0, gd_access = 0, gd_granularity = 0, gd_base_hi = 0\<rparr>"

definition gdt_template :: "gdt_desc list" where
  "gdt_template =
     [null_desc, flat_desc 0x9A 0xA0, flat_desc 0x92 0xC0, flat_desc 0xF2 0xC0, flat_desc 0xFA 0xA0,
      \<lparr>gd_limit = of_nat (sizeof_tss - 1), gd_base_low = 0, gd_base_mid = 0, gd_access = 0x89, gd_granularity = 0, gd_base_hi = 0\<rparr>,
      null_desc]"

record gdt_state =
  gdt_descs :: "gdt_desc list"
  tss :: tss_t
  gdtr :: "gdtr_t option"

definition init_boot_gdt :: "u64 \<Rightarrow> gdtr_t" where
  "init_boot_gdt template = \<lparr>gr_limit = of_nat (sizeof_gdt_desc * GDT_ENTRIES - 1), gr_ptr = template\<rparr>"

definition zero_tss :: tss_t where
  "zero_tss = \<lparr>ts_resv0 = 0, ts_rsp0 = 0, ts_rsp1 = 0, ts_rsp2 = 0, ts_resv1 = 0, ts_ist = replicate 7 0,
     ts_resv2 = 0, ts_resv3 = 0, ts_iopb_offset = 0\<rparr>"

text \<open>\<open>gdt\<close> and \<open>tss_base\<close> are the addresses of the table and the task segment of this CPU.\<close>

definition init_cpu_gdt :: "u64 \<Rightarrow> u64 \<Rightarrow> gdt_state \<Rightarrow> gdt_state" where
  "init_cpu_gdt gdt tss_base s =
     (let t = zero_tss\<lparr>ts_iopb_offset := of_nat sizeof_tss\<rparr>;
          lo = (gdt_template ! GDT_ENTRY_TSS_LO)
            \<lparr>gd_base_low := ucast (tss_base AND 0xFFFF),
             gd_base_mid := ucast (drop_bit 16 tss_base AND 0xFF),
             gd_base_hi := ucast (drop_bit 24 tss_base AND 0xFF)\<rparr>;
          hi = (gdt_template ! GDT_ENTRY_TSS_HI)
            \<lparr>gd_limit := ucast (drop_bit 32 tss_base AND 0xFFFF),
             gd_base_low := ucast (drop_bit 48 tss_base AND 0xFFFF)\<rparr>;
          r = \<lparr>gr_limit = of_nat (sizeof_gdt_desc * GDT_ENTRIES - 1), gr_ptr = gdt\<rparr>
      in s\<lparr>gdt_descs := gdt_template[GDT_ENTRY_TSS_LO := lo, GDT_ENTRY_TSS_HI := hi],
           gdtr := Some r, tss := t\<lparr>ts_rsp0 := tss_base\<rparr>\<rparr>)"

section \<open>Interrupt gates\<close>

definition IDT_MAX_DESCRIPTORS :: u16 where "IDT_MAX_DESCRIPTORS = 256"
definition IDT_GATE_INTERRUPT :: u8 where "IDT_GATE_INTERRUPT = 0x0E"
definition IDT_DPL0 :: u8 where "IDT_DPL0 = 0x00"
definition IDT_DPL3 :: u8 where "IDT_DPL3 = 0x60"
definition IDT_PRESENT :: u8 where "IDT_PRESENT = 0x80"
definition IDT_KERNEL_INTERRUPT :: u8 where "IDT_KERNEL_INTERRUPT = IDT_PRESENT OR IDT_DPL0 OR IDT_GATE_INTERRUPT"
definition IDT_USER_INTERRUPT :: u8 where "IDT_USER_INTERRUPT = IDT_PRESENT OR IDT_DPL3 OR IDT_GATE_INTERRUPT"
definition SYSCALL_INTERRUPT_X86_64 :: u16 where "SYSCALL_INTERRUPT_X86_64 = 0x80"

record idtr_t =
  ir_limit :: u16
  ir_base :: u64

record idt_desc =
  id_isr_low :: u16
  id_kernel_cs :: u16
  id_ist :: u8
  id_attributes :: u8
  id_isr_mid :: u16
  id_isr_high :: u32
  id_resv :: u32

definition sizeof_idt_desc :: u16 where "sizeof_idt_desc = 16"

record idt_state =
  idt :: "idt_desc list"
  vectors :: "bool list"
  idtr :: "idtr_t option"

definition idt_set_descriptor :: "u8 \<Rightarrow> u64 \<Rightarrow> u8 \<Rightarrow> idt_state \<Rightarrow> idt_state option" where
  "idt_set_descriptor vector isr flags s =
     (if unat vector < length (idt s) then
        Some (s\<lparr>idt := (idt s)[unat vector :=
          \<lparr>id_isr_low = ucast (isr AND 0xFFFF), id_kernel_cs = KERNEL_CS, id_ist = 0, id_attributes = flags,
           id_isr_mid = ucast (drop_bit 16 isr AND 0xFFFF), id_isr_high = ucast (drop_bit 32 isr AND 0xFFFFFFFF), id_resv = 0\<rparr>]\<rparr>)
      else None)"

definition set_vector :: "(nat \<Rightarrow> u64) \<Rightarrow> u16 \<Rightarrow> idt_state \<Rightarrow> idt_state option" where
  "set_vector stubs vector s =
     do {
       let flags = (if vector = SYSCALL_INTERRUPT_X86_64 then IDT_USER_INTERRUPT else IDT_KERNEL_INTERRUPT);
       s \<leftarrow> idt_set_descriptor (ucast vector) (stubs (unat vector)) flags s;
       if unat vector < length (vectors s) then Some (s\<lparr>vectors := (vectors s)[unat vector := True]\<rparr>) else None
     }"

text \<open>\<open>base\<close> is the address of the table, \<open>stubs\<close> the table of stub addresses built by the assembler.\<close>

definition init_idt :: "'d bus \<Rightarrow> u64 \<Rightarrow> (nat \<Rightarrow> u64) \<Rightarrow> idt_state \<times> 'd \<Rightarrow> (idt_state \<times> 'd) option" where
  "init_idt b base stubs = (\<lambda>(s, d).
     do {
       let r = \<lparr>ir_limit = sizeof_idt_desc * IDT_MAX_DESCRIPTORS - 1, ir_base = base\<rparr>;
       let d = pic_remap b 0x20 0x28 d;
       s \<leftarrow> for_up 0 256 (set_vector stubs) s;
       Some (s\<lparr>idtr := Some r\<rparr>, d)
     })"

section \<open>How the processor reads the tables\<close>

text \<open>The documented layout of a gate, of the access byte and of the two halves of a system descriptor.\<close>

definition gate_target :: "idt_desc \<Rightarrow> u64" where
  "gate_target g = push_bit 32 (ucast (id_isr_high g)) OR push_bit 16 (ucast (id_isr_mid g)) OR ucast (id_isr_low g)"

definition gate_present :: "idt_desc \<Rightarrow> bool" where "gate_present g \<longleftrightarrow> bit (id_attributes g) 7"
definition gate_dpl :: "idt_desc \<Rightarrow> u8" where "gate_dpl g = drop_bit 5 (id_attributes g) AND 3"
definition gate_type :: "idt_desc \<Rightarrow> u8" where "gate_type g = id_attributes g AND 0xF"

definition system_base :: "gdt_desc \<Rightarrow> gdt_desc \<Rightarrow> u64" where
  "system_base lo hi = ucast (gd_base_low lo) OR push_bit 16 (ucast (gd_base_mid lo)) OR push_bit 24 (ucast (gd_base_hi lo))
     OR push_bit 32 (ucast (gd_limit hi)) OR push_bit 48 (ucast (gd_base_low hi))"

definition is_code64 :: "gdt_desc \<Rightarrow> bool" where
  "is_code64 g \<longleftrightarrow> bit (gd_access g) 7 \<and> bit (gd_access g) 4 \<and> bit (gd_access g) 3 \<and> bit (gd_granularity g) 5 \<and> \<not> bit (gd_granularity g) 6"

definition is_data :: "gdt_desc \<Rightarrow> bool" where
  "is_data g \<longleftrightarrow> bit (gd_access g) 7 \<and> bit (gd_access g) 4 \<and> \<not> bit (gd_access g) 3 \<and> bit (gd_access g) 1"

definition desc_dpl :: "gdt_desc \<Rightarrow> u8" where "desc_dpl g = drop_bit 5 (gd_access g) AND 3"

definition selected :: "gdt_desc list \<Rightarrow> u16 \<Rightarrow> gdt_desc" where
  "selected g sel = g ! unat (drop_bit 3 sel)"

lemma mask_consts: "(0xFFFF :: u64) = mask 16" "(0xFF :: u64) = mask 8" "(0xFFFFFFFF :: u64) = mask 32"
  by (simp_all add: mask_eq_exp_minus_1)

lemma field_u8: "ucast (ucast (w AND mask 8) :: u8) = (take_bit 8 w :: u64)"
  and field_u16: "ucast (ucast (w AND mask 16) :: u16) = (take_bit 16 w :: u64)"
  and field_u32: "ucast (ucast (w AND mask 32) :: u32) = (take_bit 32 w :: u64)"
  by (rule bit_word_eqI; auto simp: bit_simps)+

lemma join_fields: "take_bit k w OR push_bit k (take_bit m (drop_bit k w)) = take_bit (k + m) (w :: u64)"
proof (rule bit_word_eqI)
  fix n assume "n < LENGTH(64)"
  then show "bit (take_bit k w OR push_bit k (take_bit m (drop_bit k w))) n = bit (take_bit (k + m) w) n"
    by (cases "n < k") (auto simp: bit_simps)
qed

lemma take_bit_64 [simp]: "take_bit 64 (w :: u64) = w"
  by (rule bit_word_eqI) (simp add: bit_simps)

lemma gate_address:
  "push_bit 32 (ucast (ucast (drop_bit 32 w AND 0xFFFFFFFF) :: u32)) OR push_bit 16 (ucast (ucast (drop_bit 16 w AND 0xFFFF) :: u16))
    OR ucast (ucast (w AND 0xFFFF) :: u16) = (w :: u64)"
  unfolding mask_consts field_u16 field_u32
  using join_fields [of 16 w 16] join_fields [of 32 w 32] by (simp add: or.commute or.left_commute or.assoc)

lemma tss_address:
  "ucast (ucast (w AND 0xFFFF) :: u16) OR push_bit 16 (ucast (ucast (drop_bit 16 w AND 0xFF) :: u8))
    OR push_bit 24 (ucast (ucast (drop_bit 24 w AND 0xFF) :: u8))
    OR push_bit 32 (ucast (ucast (drop_bit 32 w AND 0xFFFF) :: u16)) OR push_bit 48 (ucast (ucast (drop_bit 48 w AND 0xFFFF) :: u16)) = (w :: u64)"
  unfolding mask_consts field_u8 field_u16 by (simp add: join_fields flip: or.assoc)

lemma update_next: "length xs = k \<Longrightarrow> k < length ys \<Longrightarrow> (xs @ drop k ys)[k := x] = xs @ x # drop (Suc k) ys"
  by (simp add: list_update_append Cons_nth_drop_Suc [symmetric])

text \<open>The loop over the vectors.\<close>

definition gate_of :: "(nat \<Rightarrow> u64) \<Rightarrow> nat \<Rightarrow> idt_desc" where
  "gate_of stubs v = \<lparr>id_isr_low = ucast (stubs v AND 0xFFFF), id_kernel_cs = KERNEL_CS, id_ist = 0,
     id_attributes = (if v = 0x80 then IDT_USER_INTERRUPT else IDT_KERNEL_INTERRUPT),
     id_isr_mid = ucast (drop_bit 16 (stubs v) AND 0xFFFF), id_isr_high = ucast (drop_bit 32 (stubs v) AND 0xFFFFFFFF), id_resv = 0\<rparr>"

lemma set_vector_correct:
  assumes "length (idt s) = 256" "length (vectors s) = 256" "v < 256"
  shows "set_vector stubs v s = Some (s\<lparr>idt := (idt s)[unat v := gate_of stubs (unat v)], vectors := (vectors s)[unat v := True]\<rparr>)"
proof -
  have v: "unat v < 256" using assms(3) by (simp add: word_less_nat_alt)
  then have "unat (ucast v :: u8) = unat v" by (simp add: unsigned_ucast_eq take_bit_nat_eq_self_iff)
  moreover have "v = 0x80 \<longleftrightarrow> unat v = 0x80" by (simp add: word_unat_eq_iff)
  ultimately show ?thesis
    using v assms by (simp add: set_vector_def idt_set_descriptor_def gate_of_def SYSCALL_INTERRUPT_X86_64_def Let_def)
qed

lemma init_idt_correct:
  assumes "length (idt s) = 256" "length (vectors s) = 256"
  shows "init_idt b base stubs (s, d) = Some (s\<lparr>idt := map (gate_of stubs) [0..<256], vectors := replicate 256 True,
    idtr := Some \<lparr>ir_limit = 4095, ir_base = base\<rparr>\<rparr>, pic_remap b 0x20 0x28 d)"
proof -
  define P where "P n s' \<longleftrightarrow> s' = s\<lparr>idt := map (gate_of stubs) [0..<n] @ drop n (idt s), vectors := replicate n True @ drop n (vectors s)\<rparr>" for n s'
  have "\<exists>s'. for_up (0 :: u16) 256 (set_vector stubs) s = Some s' \<and> P (unat (256 :: u16)) s'"
  proof (rule for_up_rule)
    show "P (unat (0 :: u16)) s" by (simp add: P_def)
    show "(0 :: u16) \<le> 256" by simp
    fix i :: u16 and s' assume i: "0 \<le> i" "i < 256" and p: "P (unat i) s'"
    have n: "unat i < 256" using i(2) by (simp add: word_less_nat_alt)
    have l: "length (idt s') = 256" "length (vectors s') = 256" using p n assms by (simp_all add: P_def)
    have "P (Suc (unat i)) (s'\<lparr>idt := (idt s')[unat i := gate_of stubs (unat i)], vectors := (vectors s')[unat i := True]\<rparr>)"
      using p n assms by (simp add: P_def update_next replicate_append_same [symmetric] del: replicate.simps(2)) (simp add: replicate_app_Cons_same)
    then show "\<exists>s''. set_vector stubs i s' = Some s'' \<and> P (Suc (unat i)) s''"
      using set_vector_correct [OF l i(2)] by blast
  qed
  then have "for_up (0 :: u16) 256 (set_vector stubs) s = Some (s\<lparr>idt := map (gate_of stubs) [0..<256], vectors := replicate 256 True\<rparr>)"
    using assms by (auto simp: P_def)
  then show ?thesis by (simp add: init_idt_def sizeof_idt_desc_def IDT_MAX_DESCRIPTORS_def)
qed

end
