(* ===== verification/Device_Props.thy ===== *)
theory Device_Props
  imports Pit Descriptors
begin

text \<open>
  The properties of the interrupt controllers, the interval timer and the descriptor tables, and
  concrete devices on which their hypotheses hold.
\<close>

section \<open>Interrupt gates and segments\<close>

text \<open>
  C16: \<open>init_idt\<close> fills all 256 gates: the processor reads out of gate \<open>v\<close> the address of stub \<open>v\<close>, a
  present interrupt gate on its own stack, and the selector of the 64-bit code segment of ring 0;
  exactly gate \<open>0x80\<close> can be entered from user mode, and the table limit covers exactly the 256 gates.
\<close>

theorem init_idt_gates:
  assumes "length (idt s) = 256" "length (vectors s) = 256" "v < 256"
  shows "\<exists>s' d'. init_idt b base stubs (s, d) = Some (s', d') \<and> idtr s' = Some \<lparr>ir_limit = 4095, ir_base = base\<rparr>
    \<and> length (idt s') = 256
    \<and> gate_target (idt s' ! v) = stubs v \<and> gate_present (idt s' ! v) \<and> gate_type (idt s' ! v) = 0xE \<and> id_ist (idt s' ! v) = 0
    \<and> gate_dpl (idt s' ! v) = (if v = 0x80 then 3 else 0)
    \<and> is_code64 (selected gdt_template (id_kernel_cs (idt s' ! v))) \<and> desc_dpl (selected gdt_template (id_kernel_cs (idt s' ! v))) = 0"
proof -
  have g: "gate_target (gate_of stubs v) = stubs v" "id_kernel_cs (gate_of stubs v) = 8"
    by (simp_all add: gate_target_def gate_of_def gate_address KERNEL_CS_def GDT_SEL_def GDT_ENTRY_KERNEL_CS_def)
  have a: "gate_present (gate_of stubs v) \<and> gate_type (gate_of stubs v) = 0xE \<and> id_ist (gate_of stubs v) = 0
      \<and> gate_dpl (gate_of stubs v) = (if v = 0x80 then 3 else 0)"
    by (simp add: gate_present_def gate_type_def gate_dpl_def gate_of_def IDT_USER_INTERRUPT_def IDT_KERNEL_INTERRUPT_def
      IDT_PRESENT_def IDT_DPL3_def IDT_DPL0_def IDT_GATE_INTERRUPT_def)
  have c: "is_code64 (selected gdt_template 8) \<and> desc_dpl (selected gdt_template 8) = 0"
    by (simp add: selected_def gdt_template_def flat_desc_def is_code64_def desc_dpl_def)
  show ?thesis
    using assms(3) g a c by (simp add: init_idt_correct [OF assms(1,2)])
qed

definition still_bus :: "nat bus" where
  "still_bus = \<lparr>bus_out = \<lambda>_ _ d. d, bus_in = \<lambda>_ d. (0, d), bus_store = \<lambda>_ _ d. d, bus_load = \<lambda>_ d. (0, d),
     bus_wrmsr = \<lambda>_ _ d. d, bus_rdmsr = \<lambda>_ _. 0\<rparr>"

definition blank_idt :: idt_state where
  "blank_idt = \<lparr>idt = replicate 256 \<lparr>id_isr_low = 0, id_kernel_cs = 0, id_ist = 0, id_attributes = 0, id_isr_mid = 0, id_isr_high = 0, id_resv = 0\<rparr>,
     vectors = replicate 256 False, idtr = None\<rparr>"

lemma init_idt_gates_witness:
  "\<exists>s' d'. init_idt still_bus 0xFFFF800000001000 (\<lambda>v. 0xFFFFFFFF80001000 + 16 * of_nat v) (blank_idt, 0) = Some (s', d')
    \<and> gate_target (idt s' ! 14) = 0xFFFFFFFF800010E0 \<and> gate_dpl (idt s' ! 14) = 0"
proof -
  have "length (idt blank_idt) = 256" "length (vectors blank_idt) = 256" by (simp_all add: blank_idt_def)
  from init_idt_gates [OF this, of 14 still_bus "0xFFFF800000001000" "\<lambda>v. 0xFFFFFFFF80001000 + 16 * of_nat v" 0]
  show ?thesis by auto
qed

text \<open>
  \<open>init_cpu_gdt\<close> builds a table whose task descriptor has the processor read back the address of
  the task segment, with the limit of the segment and without an I/O permission map; the four flat
  segments are 64-bit code and data of rings 0 and 3, and the table register covers seven entries.
\<close>

theorem init_cpu_gdt_tables:
  "let s' = init_cpu_gdt gdt tss_base s; g = gdt_descs s' in
     system_base (g ! GDT_ENTRY_TSS_LO) (g ! GDT_ENTRY_TSS_HI) = tss_base
     \<and> unat (gd_limit (g ! GDT_ENTRY_TSS_LO)) + 1 = sizeof_tss \<and> unat (ts_iopb_offset (tss s')) = sizeof_tss
     \<and> gdtr s' = Some \<lparr>gr_limit = 55, gr_ptr = gdt\<rparr> \<and> length g = GDT_ENTRIES
     \<and> is_code64 (g ! GDT_ENTRY_KERNEL_CS) \<and> desc_dpl (g ! GDT_ENTRY_KERNEL_CS) = 0
     \<and> is_data (g ! GDT_ENTRY_KERNEL_DS) \<and> desc_dpl (g ! GDT_ENTRY_KERNEL_DS) = 0
     \<and> is_code64 (g ! GDT_ENTRY_USER_CS) \<and> desc_dpl (g ! GDT_ENTRY_USER_CS) = 3
     \<and> is_data (g ! GDT_ENTRY_USER_DS) \<and> desc_dpl (g ! GDT_ENTRY_USER_DS) = 3"
  by (simp add: init_cpu_gdt_def Let_def gdt_template_def flat_desc_def null_desc_def system_base_def tss_address is_code64_def is_data_def desc_dpl_def
    GDT_ENTRY_KERNEL_CS_def GDT_ENTRY_KERNEL_DS_def GDT_ENTRY_USER_CS_def GDT_ENTRY_USER_DS_def GDT_ENTRY_TSS_LO_def GDT_ENTRY_TSS_HI_def
    GDT_ENTRIES_def sizeof_tss_def sizeof_gdt_desc_def)

section \<open>The interrupt controllers\<close>

definition pic_bus :: "(i8259 \<times> i8259) bus" where
  "pic_bus = \<lparr>bus_out = pair_out,
     bus_in = (\<lambda>port c. (if port = 0x21 then ic_mask (fst c) else if port = 0xA1 then ic_mask (snd c) else 0xFF, c)),
     bus_store = \<lambda>_ _ d. d, bus_load = \<lambda>_ d. (0, d), bus_wrmsr = \<lambda>_ _ d. d, bus_rdmsr = \<lambda>_ _. 0\<rparr>"

definition cold_pic :: i8259 where
  "cold_pic = \<lparr>ic_step = Ready, ic_base = 8, ic_cascade = 0, ic_mode = 0, ic_mask = 0, ic_service = []\<rparr>"

lemma pic_bus_wired: "pic_wired pic_bus (\<lambda>c. c)"
  by (simp add: pic_wired_def pic_bus_def)

text \<open>
  \<open>pic_remap\<close> takes the pair of interrupt controllers, whatever state it is in, through its
  initialisation: the vectors start at the two offsets (multiples of 8), the second one is cascaded
  on line 2, both work in 8086 mode, nothing is in service and every line is masked.
\<close>

theorem pic_remap_spec:
  assumes "pic_wired b chips" "o1 AND 7 = 0" "o2 AND 7 = 0"
  shows "let c = chips (pic_remap b o1 o2 d) in pics_ready c
    \<and> ic_base (fst c) = ucast o1 \<and> ic_base (snd c) = ucast o2 \<and> ic_cascade (fst c) = push_bit 2 1 \<and> ic_cascade (snd c) = 2
    \<and> ic_mode (fst c) = 1 \<and> ic_mode (snd c) = 1 \<and> ic_service (fst c) = [] \<and> ic_service (snd c) = []
    \<and> (\<forall>n<16. line_masked c n)"
proof -
  have low: "ucast w AND 0xF8 = (ucast w :: u8)" if "w AND 7 = 0" for w :: u32
  proof (rule bit_word_eqI)
    fix n assume n: "n < LENGTH(8)"
    have c: "(0xF8 :: u8) = NOT (mask 3)" "(7 :: u32) = mask 3" by (simp_all add: mask_eq_exp_minus_1)
    have "\<not> bit w n" if "n < 3"
    proof -
      have "\<not> bit (w AND mask 3) n" using \<open>w AND 7 = 0\<close> by (simp only: c) simp
      then show ?thesis using that by (simp add: bit_simps)
    qed
    then show "bit (ucast w AND 0xF8 :: u8) n = bit (ucast w :: u8) n" using n by (auto simp: c bit_simps)
  qed
  have m: "bit (0xFF :: u8) n" if "n < 8" for n
  proof -
    have "bit (mask 8 :: u8) n" using that by (simp add: bit_simps)
    then show ?thesis by (simp add: mask_eq_exp_minus_1)
  qed
  show ?thesis
    using low [OF assms(2)] low [OF assms(3)] m
    by (simp add: pic_remap_correct [OF assms(1)] Let_def pics_ready_def line_masked_def) presburger
qed

lemma pic_remap_spec_witness:
  "ic_base (fst (pic_remap pic_bus 0x20 0x28 (cold_pic, cold_pic))) = 0x20 \<and> line_masked (pic_remap pic_bus 0x20 0x28 (cold_pic, cold_pic)) 15"
  using pic_remap_spec [OF pic_bus_wired, of "0x20" "0x28" "(cold_pic, cold_pic)"] by (simp add: Let_def)

text \<open>
  On initialised controllers, masking or unmasking one of the 16 interrupt lines changes the mask
  of this line and of no other.
\<close>

theorem pic_line_mask_spec:
  assumes "pic_wired b chips" "pics_ready (chips d)" "irq < 16"
  shows "(\<exists>d'. pic_irq_set_mask b irq d = Some d' \<and> pics_ready (chips d')
      \<and> (\<forall>n<16. line_masked (chips d') n \<longleftrightarrow> n = unat irq \<or> line_masked (chips d) n))
    \<and> (\<exists>d'. pic_irq_clear_mask b irq d = Some d' \<and> pics_ready (chips d')
      \<and> (\<forall>n<16. line_masked (chips d') n \<longleftrightarrow> n \<noteq> unat irq \<and> line_masked (chips d) n))"
  using pic_mask_correct [OF assms] by blast

lemma pic_line_mask_spec_witness:
  "\<exists>d'. pic_irq_clear_mask pic_bus 1 (cold_pic\<lparr>ic_mask := 0xFF\<rparr>, cold_pic) = Some d' \<and> \<not> line_masked d' 1 \<and> line_masked d' 7"
proof -
  have r: "pics_ready (cold_pic\<lparr>ic_mask := 0xFF\<rparr>, cold_pic)" by (simp add: pics_ready_def cold_pic_def)
  have m: "line_masked (cold_pic\<lparr>ic_mask := 0xFF\<rparr>, cold_pic) 7" by (simp add: line_masked_def)
  have "(1 :: u8) < 16" by simp
  from pic_line_mask_spec [OF pic_bus_wired r this] m show ?thesis by auto
qed

section \<open>The interval timer\<close>

text \<open>A timer whose clock advances whenever the counter is latched.\<close>

record pit_chip =
  pc_ticks :: nat
  pc_second :: bool
  pc_latch :: u16

definition pit_bus :: "pit_chip bus" where
  "pit_bus = \<lparr>bus_out = (\<lambda>port v d.
       if port = 0x43 \<and> v = 0x34 then d\<lparr>pc_ticks := 0, pc_second := False\<rparr>
       else if port = 0x43 \<and> v = 0 then
         d\<lparr>pc_ticks := pc_ticks d + 1, pc_latch := of_nat (65535 - (pc_ticks d + 1) mod 65535), pc_second := False\<rparr>
       else d),
     bus_in = (\<lambda>port d. if port = 0x40 then
         (if pc_second d then ucast (drop_bit 8 (pc_latch d)) else ucast (pc_latch d), d\<lparr>pc_second := \<not> pc_second d\<rparr>) else (0, d)),
     bus_store = \<lambda>_ _ d. d, bus_load = \<lambda>_ d. (0, d), bus_wrmsr = \<lambda>_ _ d. d, bus_rdmsr = \<lambda>_ _. 0\<rparr>"

lemma two_bytes: "push_bit 8 (ucast (ucast (drop_bit 8 w) :: u8)) OR ucast (ucast w :: u8) = (w :: u16)"
  by (rule bit_word_eqI) (auto simp: bit_simps)

lemma pit_bus_wired: "pit_wired pit_bus (\<lambda>d. \<not> pc_second d) pc_ticks"
proof -
  have "pit_read_counter pit_bus d = (of_nat (65535 - (pc_ticks d + 1) mod 65535),
      d\<lparr>pc_ticks := pc_ticks d + 1, pc_latch := of_nat (65535 - (pc_ticks d + 1) mod 65535), pc_second := False\<rparr>)" for d
    by (simp add: pit_read_counter_def pit_bus_def outb_def inb_def PIT_COMMAND_def PIT_CHANNEL0_def two_bytes)
  moreover have "\<not> pc_second (pit_program pit_bus d)" for d
    by (simp add: pit_program_def pit_bus_def outb_def PIT_COMMAND_def PIT_CHANNEL0_def)
  moreover have "unat (65535 - of_nat (n mod 65535) :: u16) = 65535 - n mod 65535" for n
  proof -
    have m: "n mod 65535 < 65535" by simp
    then have "unat (of_nat (n mod 65535) :: u16) = n mod 65535" by (simp add: unsigned_of_nat take_bit_nat_eq_self_iff del: mod_less_divisor)
    then show ?thesis using m by (simp add: unat_sub word_le_nat_alt)
  qed
  ultimately show ?thesis by (simp add: pit_wired_def)
qed



end
