(* ===== verification/Address_Space.thy ===== *)
theory Address_Space
  imports Vm_Props Kmalloc_Ops
begin

text \<open>
  A page-table tree next to the slab caches: an allocation from a cache leaves the tree alone, work on
  the tree leaves the caches alone, as long as no slab page is a table.
\<close>

section \<open>Trees and caches do not touch each other\<close>

text \<open>Nothing but free memory has changed.\<close>

definition free_frame :: "kstate \<Rightarrow> kstate \<Rightarrow> bool" where
  "free_frame s s' \<longleftrightarrow> k_inv s' \<and> hhdm s' = hhdm s \<and> k_pages s' = k_pages s \<and> k_free_set s' \<subseteq> k_free_set s
     \<and> (\<forall>x. used_page s (page_base x) \<longrightarrow> mem s' x = mem s x)"

lemma free_frame_refl: "k_inv s \<Longrightarrow> free_frame s s"
  by (simp add: free_frame_def)

lemma free_frame_used: "free_frame s s' \<Longrightarrow> used_page s a \<Longrightarrow> used_page s' a"
  using used_page_cong [of s' s a] by (simp add: free_frame_def)

lemma free_frame_trans: "free_frame s s1 \<Longrightarrow> free_frame s1 s2 \<Longrightarrow> free_frame s s2"
  using free_frame_used [of s s1] by (auto simp: free_frame_def)

definition tables_used :: "(u64 \<Rightarrow> nat) \<Rightarrow> kstate \<Rightarrow> bool" where
  "tables_used lv s \<longleftrightarrow> (\<forall>a. lv a \<noteq> 0 \<longrightarrow> used_page s a)"

lemma pt_wf_tables: "pt_wf s lv root \<Longrightarrow> tables_used lv s"
  by (simp add: pt_wf_def tables_used_def)

lemma free_frame_entry:
  assumes "free_frame s s'" "used_page s t" "slab_page t" "unat i < 512"
  shows "read_entry s' t i = read_entry s t i"
  using assms page_base_entry [OF assms(3,4)]
  by (simp add: free_frame_def read_entry_def entry_addr_def)

text \<open>The tables are as they were, whatever else has changed.\<close>

definition tree_kept :: "(u64 \<Rightarrow> nat) \<Rightarrow> kstate \<Rightarrow> kstate \<Rightarrow> bool" where
  "tree_kept lv s s' \<longleftrightarrow> k_inv s' \<and> hhdm s' = hhdm s \<and> (\<forall>a. lv a \<noteq> 0 \<longrightarrow> used_page s' a)
     \<and> (\<forall>t i. lv t \<noteq> 0 \<longrightarrow> unat i < 512 \<longrightarrow> read_entry s' t i = read_entry s t i)"

lemma tree_kept_wf:
  assumes wf: "pt_wf s lv root" and k: "tree_kept lv s s'"
  shows "pt_wf s' lv root" "\<And>t l va. lv t = l \<Longrightarrow> l \<le> 4 \<Longrightarrow> walk s' l t va = walk s l t va"
proof -
  have hh: "hhdm s' = hhdm s" using k by (simp add: tree_kept_def)
  have e: "read_entry s' t i = read_entry s t i" if "lv t \<noteq> 0" "unat i < 512" for t i
    using k that by (simp add: tree_kept_def)
  have ch: "child s' t i = child s t i" if "2 \<le> lv t" "unat i < 512" for t i
    using child_eq [OF e hh] that by simp
  show "pt_wf s' lv root"
    unfolding pt_wf_def
  proof (intro conjI allI impI)
    show "k_inv s'" using k by (simp add: tree_kept_def)
    show "lv root = 4" by (rule pt_wfD(2) [OF wf])
    show "lv a \<le> 4" "used_page s' a" if "lv a \<noteq> 0" for a
      using pt_wfD(3) [OF wf that] k that by (auto simp: tree_kept_def)
    show "lv b = lv a - 1" if "2 \<le> lv a" "unat i < 512" "child s' a i = Some b" for a i b
      using pt_wfD(6) [OF wf that(1,2)] that ch by simp
    fix a i b c j assume "2 \<le> lv a" "unat i < 512" "2 \<le> lv c" "unat j < 512" "child s' a i = Some b" "child s' c j = Some b"
    then have "a = c \<and> i = j" using pt_wfD(7) [OF wf, of a i c j b] ch by simp
    then show "a = c" "i = j" by auto
  qed
  show "walk s' l t va = walk s l t va" if "lv t = l" "l \<le> 4" for t l va
    by (rule walk_unchanged [OF wf hh _ that]) (use e in auto)
qed

lemma free_frame_kept:
  assumes "pt_wf s lv root" and f: "free_frame s s'"
  shows "tree_kept lv s s'"
  unfolding tree_kept_def
  using f free_frame_used [OF f] free_frame_entry [OF f] pt_wfD(4,5) [OF assms(1)] by (auto simp: free_frame_def)

lemma cells_kept:
  assumes wf: "pt_wf s lv root" and same: "pmm s' = pmm s" "hhdm s' = hhdm s"
    and m: "\<And>y. lv (page_base y) \<noteq> 0 \<Longrightarrow> mem s' y = mem s y"
  shows "tree_kept lv s s'"
proof -
  have "read_entry s' t i = read_entry s t i" if "lv t \<noteq> 0" "unat i < 512" for t i
    using m [of "entry_addr t i"] page_base_entry [OF pt_wfD(5) [OF wf that(1)] that(2)] that(1)
    by (simp add: read_entry_def entry_addr_def)
  moreover have "used_page s' a" if "lv a \<noteq> 0" for a
    using pt_wfD(4) [OF wf that] k_of_pmm(4) [OF same] by simp
  ultimately show ?thesis using pt_wfD(1) [OF wf] k_of_pmm(3) [OF same] same by (simp add: tree_kept_def)
qed

lemma free_frame_tree:
  assumes wf: "pt_wf s lv root" and f: "free_frame s s'"
  shows "pt_wf s' lv root" "\<And>va. walk s' 4 root va = walk s 4 root va"
  using tree_kept_wf [OF wf free_frame_kept [OF assms]] pt_wfD(2) [OF wf] by auto

text \<open>Taking a page and filling it.\<close>

lemma new_frame:
  assumes inv: "k_inv s" and al: "k_alloc_page s = Some (pa, s1)" "pa \<noteq> 0"
  defines "b \<equiv> phys_to_higher_half_data s1 pa"
  assumes m: "\<And>y. page_base y \<noteq> b \<Longrightarrow> m y = mem s y"
  shows "slab_page b" "\<not> used_page s b" "used_page (s1\<lparr>mem := m\<rparr>) b" "free_frame s (s1\<lparr>mem := m\<rparr>)"
    "page_no s b = unat pa div 4096" "unat pa mod 4096 = 0" "PAGE_SIZE \<le> pa" "unat pa < 2 ^ 52"
    "k_free_set s1 = k_free_set s - {unat pa div 4096}" "unat pa div 4096 \<in> k_free_set s"
proof -
  note n = kpg.alloc_nonzero [OF inv al]
  obtain p where p: "s1 = s\<lparr>pmm := p\<rparr>" using k_alloc_page_frame [OF al(1)] by blast
  have b: "b = hhdm s + pa" by (simp add: b_def p phys_to_higher_half_data_def)
  have u4: "unat pa = 4096 * (unat pa div 4096)" using n(1) by auto
  note nf = new_page_facts [OF inv n(2) u4, folded b]
  show "slab_page b" "page_no s b = unat pa div 4096" by (fact nf(3), fact nf(2))
  show "unat pa mod 4096 = 0" "unat pa div 4096 \<in> k_free_set s" "PAGE_SIZE \<le> pa" by (fact n(1), fact n(2), fact n(3))
  show nu: "\<not> used_page s b" using nf(2) n(2) by (simp add: used_page_def)
  show "k_free_set s1 = k_free_set s - {unat pa div 4096}" using n by simp
  show "unat pa < 2 ^ 52" using n(7) kpg.pages_bound [OF inv] by simp
  let ?s = "s1\<lparr>mem := m\<rparr>"
  have fs: "k_free_set ?s = k_free_set s - {unat pa div 4096}" "k_pages ?s = k_pages s" "k_inv ?s" "hhdm ?s = hhdm s"
    using k_of_pmm(1-3) [of ?s s1] n by (simp_all add: p)
  have "m x = mem s x" if "used_page s (page_base x)" for x using m [of x] nu that by auto
  then show "free_frame s ?s" unfolding free_frame_def using fs by auto
  show "used_page ?s b" using nf fs by (simp add: used_page_def page_no_def)
qed

text \<open>A cache whose slab pages are not tables.\<close>

definition cache_off :: "(u64 \<Rightarrow> nat) \<Rightarrow> nat \<Rightarrow> kstate \<Rightarrow> u64 set \<Rightarrow> bool" where
  "cache_off lv c s L \<longleftrightarrow> k_inv s \<and>
     (\<exists>S fl ps. cache_rep_but {} s c S fl ps \<and> L = slab_live (kc_size (cache_pool s ! c)) S fl \<and> (\<forall>a\<in>S. lv a = 0))"

lemma cache_off_rep: "cache_off lv c s L \<Longrightarrow> cache_rep c s L"
  by (auto simp: cache_off_def cache_rep_def)

lemma slab_used:
  assumes "cache_rep_but X s c S fl ps" "a \<in> S"
  shows "used_page s a" "x \<in> set (fl a) \<Longrightarrow> page_base x = a" "x \<in> objs (kc_size (cache_pool s ! c)) a \<Longrightarrow> page_base x = a"
proof -
  have ok: "slab_ok s c (kc_size (cache_pool s ! c)) a (fl a)" by (rule cache_rep_butD(4) [OF assms(1) refl assms(2)])
  then show "used_page s a" by (simp add: slab_ok_def)
  note b = objs_page_base [of a "kc_size (cache_pool s ! c)" x]
  show "x \<in> objs (kc_size (cache_pool s ! c)) a \<Longrightarrow> page_base x = a"
    using b ok cache_rep_butD(3) [OF assms(1) refl] by (simp add: slab_ok_def)
  then show "x \<in> set (fl a) \<Longrightarrow> page_base x = a" using ok by (auto simp: slab_ok_def)
qed

lemma cache_off_frame:
  assumes c: "cache_off lv c s L" and f: "free_frame s s'"
    and same: "slabs s' = slabs s" "cache_pool s' ! c = cache_pool s ! c" "length (cache_pool s') = length (cache_pool s)"
    and lv: "\<And>a. used_page s a \<Longrightarrow> lv a = 0 \<Longrightarrow> lv' a = 0"
  shows "cache_off lv' c s' L"
proof -
  obtain S fl ps where S: "cache_rep_but {} s c S fl ps" "L = slab_live (kc_size (cache_pool s ! c)) S fl" "\<forall>a\<in>S. lv a = 0"
    using c by (auto simp: cache_off_def)
  note r = cache_rep_butD [OF S(1) refl]
  have mm: "mem s' x = mem s x" if "a \<in> S" "x \<in> set (fl a)" for a x
    using f slab_used(1,2) [OF S(1) that(1)] that(2) by (simp add: free_frame_def)
  have ch: "chain (mem s') p (fl a) = chain (mem s) p (fl a)" if "a \<in> S" for p a
    using mm [OF that] by (rule chain_cong)
  have "cache_rep_but {} s' c S fl ps"
  proof (rule cache_rep_butI [OF _ _ same(2)])
    show "slab_ok s' c (kc_size (cache_pool s ! c)) a (fl a)" if "a \<in> S" for a
      using r(4) [OF that] free_frame_used [OF f, of a] by (simp add: slab_ok_def same(1))
  qed (use r same ch in auto)
  moreover have "k_inv s'" using f by (simp add: free_frame_def)
  moreover have "\<forall>a\<in>S. lv' a = 0" using S(3) slab_used(1) [OF S(1)] lv by blast
  ultimately show ?thesis using S(2) same(2) unfolding cache_off_def by metis
qed

text \<open>One allocation: what it keeps, and where the object lies.\<close>

lemma cache_off_alloc:
  assumes c: "cache_off lv c s L" and lv: "tables_used lv s"
  obtains (oom) "kmem_cache_alloc s c = Some (0, s)" "k_free_set s = {}"
  | (obj) x s' where "kmem_cache_alloc s c = Some (x, s')" "x \<noteq> 0" "x \<notin> L" "cache_off lv c s' (insert x L)" "free_frame s s'"
    "lv (page_base x) = 0" "used_page s' (page_base x)" "kernel_pml4 s' = kernel_pml4 s" "cache_pool_idx s' = cache_pool_idx s"
    "page_table_cache s' = page_table_cache s" "vm_area_cache s' = vm_area_cache s" "vm_map_cache s' = vm_map_cache s"
    "length (cache_pool s') = length (cache_pool s)" "cache_room c s' = cache_room c s"
    "\<And>d M. d \<noteq> c \<Longrightarrow> cache_off lv d s M \<Longrightarrow> cache_off lv d s' M"
    "\<And>d. d \<noteq> c \<Longrightarrow> cache_pool s' ! d = cache_pool s ! d"
proof -
  obtain S fl ps where inv: "k_inv s" and S: "cache_rep_but {} s c S fl ps" "L = slab_live (kc_size (cache_pool s ! c)) S fl" "\<forall>a\<in>S. lv a = 0"
    using c by (auto simp: cache_off_def)
  show thesis
  proof (cases rule: kmem_cache_alloc_correct [OF inv S(1)])
    case 1
    then show thesis using oom by simp
  next
    case (2 x s' S' fl' ps')
    have p: "k_inv s'" "k_pages s' = k_pages s" "cache_rep_but {} s' c S' fl' ps'" "slab_frame s s' c S'"
      "k_free_set s' = k_free_set s - page_no s ` (S' - S)" "page_no s ` (S' - S) \<subseteq> k_free_set s"
      "x \<notin> slab_live (kc_size (cache_pool s ! c)) S fl"
      "slab_live (kc_size (cache_pool s ! c)) S' fl' = insert x (slab_live (kc_size (cache_pool s ! c)) S fl)"
      using 2(3) by (simp_all add: cache_alloc_post_def Let_def)
    have z: "kc_size (cache_pool s' ! c) = kc_size (cache_pool s ! c)" by (rule slab_frame_size [OF p(4)])
    have fresh: "lv a = 0 \<and> page_no s a \<in> k_free_set s" if "a \<in> S' - S" for a
    proof -
      have "page_no s a \<in> k_free_set s" using p(6) that by blast
      then show ?thesis using lv by (auto simp: tables_used_def used_page_def)
    qed
    have off: "lv a = 0" if "a \<in> S'" for a using fresh S(3) that by blast
    have x: "x \<in> slab_live (kc_size (cache_pool s' ! c)) S' fl'" by (simp add: z p(8))
    then obtain a where a: "a \<in> S'" "x \<in> objs (kc_size (cache_pool s' ! c)) a" by (auto simp: slab_live_def)
    have xa: "page_base x = a" "used_page s' a" using slab_used(1,3) [OF p(3) a(1)] a(2) by auto
    note fr = p(4)
    have f: "free_frame s s'"
      unfolding free_frame_def
    proof (intro conjI allI impI)
      show "k_free_set s' \<subseteq> k_free_set s" by (simp add: p(5) Diff_subset)
      show "mem s' y = mem s y" if "used_page s (page_base y)" for y
        using kmem_cache_alloc_mem [OF inv S(1) 2(1)] that by (simp add: used_page_def)
    qed (use p(1,2) fr in \<open>simp_all add: slab_frame_def\<close>)
    have others: "cache_off lv d s' M" if d: "d \<noteq> c" "cache_off lv d s M" for d M
    proof -
      obtain T fm qs where T: "cache_rep_but {} s d T fm qs" "M = slab_live (kc_size (cache_pool s ! d)) T fm" "\<forall>a\<in>T. lv a = 0"
        using d(2) by (auto simp: cache_off_def)
      have "b \<notin> T" if "b \<in> S' - S" for b
        using fresh [OF that] slab_used(1) [OF T(1), of b] by (auto simp: used_page_def)
      then have "T \<inter> S' = {}" using cache_rep_disjoint [OF S(1) T(1)] d(1) by blast
      then have "cache_rep_but {} s' d T fm qs" using p(2,5) d(1) by (intro cache_rep_other [OF T(1) fr]) auto
      then show ?thesis using p(1) T(2,3) slab_frame_pool [OF fr, of d] d(1) unfolding cache_off_def by metis
    qed
    have "cache_off lv c s' (insert x L)"
      unfolding cache_off_def z S(2) using p(1,3,8) off by blast
    moreover have "x \<notin> L" using p(7) S(2) by simp
    ultimately show thesis
      using f off [OF a(1)] xa fr others z slab_frame_pool [OF fr] by (intro obj [OF 2(1,2)]) (simp_all add: slab_frame_def cache_room_def)
  qed
qed

text \<open>The two words of a handed-out object belong to nobody else.\<close>

lemma cache_off_object:
  assumes c: "cache_off lv c s L" and x: "x \<in> L" and room: "16 \<le> cache_room c s"
  obtains "page_base (x + 8) = page_base x" "unat (x + 8) = unat x + 8" "used_page s (page_base x)" "lv (page_base x) = 0"
proof -
  obtain S fl ps where S: "cache_rep_but {} s c S fl ps" "L = slab_live (kc_size (cache_pool s ! c)) S fl" "\<forall>a\<in>S. lv a = 0"
    using c by (auto simp: cache_off_def)
  obtain a where a: "a \<in> S" "x \<in> objs (kc_size (cache_pool s ! c)) a" using x by (auto simp: S(2) slab_live_def)
  have sp: "slab_page a" using cache_rep_butD(4) [OF S(1) refl a(1)] by (simp add: slab_ok_def)
  obtain j where j: "x = obj_at a (kc_size (cache_pool s ! c)) j" "j < slab_objects (kc_size (cache_pool s ! c))"
    using a(2) by (auto simp: objs_def)
  have "unat x = unat a + (32 + j * unat (kc_size (cache_pool s ! c)))"
    "32 + j * unat (kc_size (cache_pool s ! c)) + 16 \<le> 4096"
    using unat_obj_at [OF sp j(2)] room unfolding j(1) cache_room_def by simp_all
  from second_cell [OF sp this] show thesis using that slab_used(1) [OF S(1) a(1)] S(3) a(1) by simp
qed

lemma cache_off_cells:
  assumes c: "cache_off lv c s L" and m: "\<And>y. m y \<noteq> mem s y \<Longrightarrow> \<exists>x\<in>L. unat x \<le> unat y \<and> unat y < unat x + cache_room c s"
  shows "cache_off lv c (s\<lparr>mem := m\<rparr>) L"
proof -
  obtain S fl ps where S: "cache_rep_but {} s c S fl ps" "L = slab_live (kc_size (cache_pool s ! c)) S fl" "\<forall>a\<in>S. lv a = 0"
    using c by (auto simp: cache_off_def)
  have "m z = mem s z" if z: "a \<in> S" "z \<in> set (fl a)" for a z
  proof (rule ccontr)
    assume "m z \<noteq> mem s z"
    then obtain x where x: "x \<in> L" "unat x \<le> unat z" "unat z < unat x + cache_room c s" using m by blast
    obtain b where b: "b \<in> S" "x \<in> objs (kc_size (cache_pool s ! c)) b" "x \<notin> set (fl b)"
      using x(1) by (auto simp: S(2) slab_live_def)
    have ok: "slab_ok s c (kc_size (cache_pool s ! c)) a (fl a)" "slab_ok s c (kc_size (cache_pool s ! c)) b (fl b)"
      using cache_rep_butD(4) [OF S(1) refl] z(1) b(1) by blast+
    have "0 < unat (kc_size (cache_pool s ! c))" using cache_rep_butD(3) [OF S(1) refl] by (simp add: good_size_def)
    moreover have "z \<in> objs (kc_size (cache_pool s ! c)) a" using ok(1) z(2) by (auto simp: slab_ok_def)
    moreover have "unat x \<noteq> unat z"
      using slab_used(2) [OF S(1) z(1), of z] slab_used(3) [OF S(1) b(1), of x] z(2) b(2,3) by (auto simp: word_unat_eq_iff [symmetric])
    ultimately show False
      using objs_apart [of b a "kc_size (cache_pool s ! c)" x z] ok b(2) x(2,3) by (auto simp: slab_ok_def cache_room_def)
  qed
  then have "cache_rep_but {} (s\<lparr>mem := m\<rparr>) c S fl ps" by (rule cache_rep_but_mem [OF S(1)])
  moreover have "k_inv (s\<lparr>mem := m\<rparr>)" using c k_of_pmm(3) [of "s\<lparr>mem := m\<rparr>" s] by (simp add: cache_off_def)
  ultimately show ?thesis using S(2,3) unfolding cache_off_def by auto
qed

lemma cache_off_other_cells:
  assumes c: "cache_off lv c s L" and d: "cache_off lv d s M" "d \<noteq> c"
    and m: "\<And>y. m y \<noteq> mem s y \<Longrightarrow> \<exists>x\<in>L. page_base y = page_base x"
  shows "cache_off lv d (s\<lparr>mem := m\<rparr>) M"
proof -
  obtain S fl ps where S: "cache_rep_but {} s c S fl ps" "L = slab_live (kc_size (cache_pool s ! c)) S fl"
    using c by (auto simp: cache_off_def)
  obtain T fm qs where T: "cache_rep_but {} s d T fm qs" "M = slab_live (kc_size (cache_pool s ! d)) T fm" "\<forall>a\<in>T. lv a = 0"
    using d(1) by (auto simp: cache_off_def)
  have dis: "S \<inter> T = {}" using cache_rep_disjoint [OF S(1) T(1)] d(2) by blast
  have "m z = mem s z" if z: "a \<in> T" "z \<in> set (fm a)" for a z
  proof (rule ccontr)
    assume "m z \<noteq> mem s z"
    then obtain x where x: "x \<in> L" "page_base z = page_base x" using m by blast
    obtain b where b: "b \<in> S" "x \<in> objs (kc_size (cache_pool s ! c)) b" using x(1) by (auto simp: S(2) slab_live_def)
    have "a = b" using slab_used(2) [OF T(1) z] slab_used(3) [OF S(1) b] x(2) by simp
    then show False using dis b(1) z(1) by blast
  qed
  then have "cache_rep_but {} (s\<lparr>mem := m\<rparr>) d T fm qs" by (rule cache_rep_but_mem [OF T(1)])
  moreover have "k_inv (s\<lparr>mem := m\<rparr>)" using c k_of_pmm(3) [of "s\<lparr>mem := m\<rparr>" s] by (simp add: cache_off_def)
  ultimately show ?thesis using T(2,3) unfolding cache_off_def by auto
qed

lemma cache_off_tables:
  assumes c: "cache_off lv c s L" and m: "\<And>y. lv (page_base y) = 0 \<Longrightarrow> m y = mem s y"
  shows "cache_off lv c (s\<lparr>mem := m\<rparr>) L"
proof -
  obtain S fl ps where S: "cache_rep_but {} s c S fl ps" "L = slab_live (kc_size (cache_pool s ! c)) S fl" "\<forall>a\<in>S. lv a = 0"
    using c by (auto simp: cache_off_def)
  have "m z = mem s z" if "a \<in> S" "z \<in> set (fl a)" for a z
    using slab_used(2) [OF S(1) that] S(3) that(1) m by simp
  then have "cache_rep_but {} (s\<lparr>mem := m\<rparr>) c S fl ps" by (rule cache_rep_but_mem [OF S(1)])
  moreover have "k_inv (s\<lparr>mem := m\<rparr>)" using c k_of_pmm(3) [of "s\<lparr>mem := m\<rparr>" s] by (simp add: cache_off_def)
  ultimately show ?thesis using S(2,3) unfolding cache_off_def by auto
qed

text \<open>Giving a page back that is not a slab.\<close>

lemma cache_off_free_page:
  assumes c: "cache_off lv c s L" and p: "PAGE_SIZE \<le> pa" "unat pa mod 4096 = 0" "lv (phys_to_higher_half_data s pa) \<noteq> 0"
    and u: "used_page s (phys_to_higher_half_data s pa)" "page_no s (phys_to_higher_half_data s pa) = unat pa div 4096"
    and run: "k_free_page s pa = Some s'"
  shows "cache_off lv c s' L"
proof -
  obtain S fl ps where inv: "k_inv s" and S: "cache_rep_but {} s c S fl ps" "L = slab_live (kc_size (cache_pool s ! c)) S fl" "\<forall>a\<in>S. lv a = 0"
    using c by (auto simp: cache_off_def)
  obtain q where q: "s' = s\<lparr>pmm := q\<rparr>" using run by (auto simp: k_free_page_def bind_eq_Some_conv)
  have f: "k_inv s'" "k_pages s' = k_pages s"
    "k_free_set s' = (if unat pa div 4096 < k_pages s then insert (unat pa div 4096) (k_free_set s) else k_free_set s)"
    using kpg.free_some [OF inv p(1)] run by auto
  have "page_no s a \<notin> pmm_free_set q" if "a \<in> S" for a
  proof -
    have ua: "used_page s a" by (rule slab_used(1) [OF S(1) that])
    have "a \<noteq> phys_to_higher_half_data s pa" using S(3) that p(3) by auto
    then have "page_no s a \<noteq> unat pa div 4096" using used_page_inj [OF ua u(1)] u(2) by auto
    then show ?thesis using ua f(3) by (auto simp: q k_free_set_def used_page_def split: if_splits)
  qed
  moreover have "total_pages q = total_pages (pmm s)" using f(2) by (simp add: q k_pages_def word_unat_eq_iff)
  ultimately have "cache_rep_but {} (s\<lparr>pmm := q\<rparr>) c S fl ps" by (intro cache_rep_but_pmm [OF S(1)])
  then show ?thesis using S(2,3) f(1) unfolding cache_off_def q by auto
qed

end
