(* ===== verification/Vm_Create.thy ===== *)
theory Vm_Create
  imports Address_Space
begin

text \<open>
  Creating an address space: \<open>pmap_create_table\<close>, \<open>pmap_copy_kernel_mappings\<close> and \<open>vm_map_create\<close>.
\<close>

section \<open>Copying the kernel half\<close>

lemma index_u16: "(i :: u64) < 512 \<Longrightarrow> ucast (ucast i :: u16) = i \<and> unat (ucast i :: u16) = unat i"
proof -
  assume "i < 512"
  then have "unat i < 512" by (simp add: word_less_nat_alt)
  then have u: "unat (ucast i :: u16) = unat i" by (simp add: unsigned_ucast_eq unsigned_take_bit_eq take_bit_nat_eq_self_iff)
  then have "unat (ucast (ucast i :: u16) :: u64) = unat i"
    using \<open>unat i < 512\<close> by (simp add: unsigned_ucast_eq unsigned_take_bit_eq take_bit_nat_eq_self_iff)
  then show ?thesis using u by (simp add: word_unat_eq_iff)
qed

lemma copy_half_frame:
  assumes "slab_page dst" "i \<le> 512"
  shows "\<exists>m. copy_kernel_half s dst src i = s\<lparr>mem := m\<rparr> \<and> (\<forall>y. page_base y \<noteq> dst \<longrightarrow> m y = mem s y)"
  using assms(2)
proof (induction "512 - unat i" arbitrary: i s)
  case 0
  then have "i = 512" by (simp add: word_le_nat_alt word_unat_eq_iff)
  then show ?case by (intro exI [of _ "mem s"]) (simp add: copy_kernel_half.simps)
next
  case (Suc k)
  then have lt: "i < 512" by (simp add: word_less_nat_alt)
  define s1 where "s1 = write_cell s (dst + 8 * i) (mem s (src + 8 * i))"
  have u: "unat (i + 1) = Suc (unat i)" using lt by (rule unat_Suc_less)
  have "i + 1 \<le> 512" using lt by (rule count_up_le)
  moreover have "k = 512 - unat (i + 1)" using Suc.hyps(2) u by simp
  ultimately obtain m where m: "copy_kernel_half s1 dst src (i + 1) = s1\<lparr>mem := m\<rparr>" "\<forall>y. page_base y \<noteq> dst \<longrightarrow> m y = mem s1 y"
    using Suc.hyps(1) [of "i + 1" s1] by blast
  have "page_base (dst + 8 * i) = dst"
    using page_base_entry [OF assms(1), of "ucast i"] index_u16 [OF lt] lt by (simp add: entry_addr_def word_less_nat_alt)
  then have "\<forall>y. page_base y \<noteq> dst \<longrightarrow> m y = mem s y" using m(2) by (auto simp: s1_def write_cell_def)
  moreover have "copy_kernel_half s dst src i = s\<lparr>mem := m\<rparr>"
    using lt m(1) by (subst copy_kernel_half.simps) (simp add: s1_def [symmetric], simp add: s1_def write_cell_def)
  ultimately show ?case by blast
qed

lemma copy_half_entries:
  assumes "slab_page dst" "slab_page src" "dst \<noteq> src" "i \<le> 512" "slab_page t" "unat j < 512"
  shows "read_entry (copy_kernel_half s dst src i) t j = (if t = dst \<and> unat i \<le> unat j then read_entry s src j else read_entry s t j)"
  using assms(4)
proof (induction "512 - unat i" arbitrary: i s)
  case 0
  then have "i = 512" by (simp add: word_le_nat_alt word_unat_eq_iff)
  then show ?case using assms(6) by (simp add: copy_kernel_half.simps)
next
  case (Suc k)
  then have lt: "i < 512" by (simp add: word_less_nat_alt)
  have u: "unat (i + 1) = Suc (unat i)" using lt by (rule unat_Suc_less)
  note x = index_u16 [OF lt]
  define s1 where "s1 = write_entry s dst (ucast i) (read_entry s src (ucast i))"
  have "copy_kernel_half s dst src i = copy_kernel_half s1 dst src (i + 1)"
    using lt x by (subst copy_kernel_half.simps) (simp add: s1_def write_entry_def read_entry_def)
  moreover have "read_entry (copy_kernel_half s1 dst src (i + 1)) t j = (if t = dst \<and> Suc (unat i) \<le> unat j then read_entry s1 src j else read_entry s1 t j)"
    using Suc.hyps(1) [of "i + 1" s1] Suc.hyps(2) u count_up_le [OF lt] by simp
  moreover have "read_entry s1 t' j = (if t' = dst \<and> j = ucast i then read_entry s src (ucast i) else read_entry s t' j)" if "slab_page t'" for t'
    unfolding s1_def by (rule read_write_entry) (use assms that lt x in \<open>auto simp: word_less_nat_alt\<close>)
  moreover have "j = ucast i \<longleftrightarrow> unat j = unat i" using x by (auto simp: word_unat_eq_iff)
  ultimately show ?case using assms(2,3,5) by auto
qed

section \<open>A new table\<close>

text \<open>The cache the table structures come from; before its creation it is the next free entry of the pool.\<close>

definition table_cache :: "kstate \<Rightarrow> nat" where
  "table_cache s = (case page_table_cache s of Some c \<Rightarrow> c | None \<Rightarrow> cache_pool_idx s)"

definition table_cache_ok :: "(u64 \<Rightarrow> nat) \<Rightarrow> kstate \<Rightarrow> u64 set \<Rightarrow> bool" where
  "table_cache_ok lv s T \<longleftrightarrow>
     (case page_table_cache s of
        Some c \<Rightarrow> cache_off lv c s T \<and> 16 \<le> cache_room c s
      | None \<Rightarrow> T = {} \<and> cache_pool_idx s < length (cache_pool s))"

text \<open>A new cache of 16-byte objects has no slab at all, so none that is a table.\<close>

lemma create_cache_16:
  assumes "k_inv s" "cache_pool_idx s < length (cache_pool s)"
  obtains s' where "kmem_cache_create s 16 = Some (cache_pool_idx s, s')" "cache_off lv (cache_pool_idx s) s' {}" "cache_room (cache_pool_idx s) s' = 16"
    "pmm s' = pmm s" "mem s' = mem s" "slabs s' = slabs s" "hhdm s' = hhdm s" "kernel_pml4 s' = kernel_pml4 s"
    "page_table_cache s' = page_table_cache s" "vm_map_cache s' = vm_map_cache s" "vm_area_cache s' = vm_area_cache s"
    "\<And>d. d \<noteq> cache_pool_idx s \<Longrightarrow> cache_pool s' ! d = cache_pool s ! d" "length (cache_pool s') = length (cache_pool s)"
    "cache_pool_idx s' = Suc (cache_pool_idx s)"
proof -
  define c where "c = cache_pool_idx s"
  define kc where "kc = \<lparr>kc_size = 16, kc_obj_size = 16, kc_obj_per_slab = (PAGE_SIZE - SLAB_HDR) div 16,
    kc_partial = 0, kc_cpu_freelist = 0, kc_cpu_slab = 0\<rparr>"
  have up: "ALIGN_UP 16 8 = (16 :: u64)" by (simp add: ALIGN_UP_def ALIGN_DOWN_def)
  define s1 where "s1 = (put_cache s c kc)\<lparr>cache_pool_idx := c + 1\<rparr>"
  have run: "kmem_cache_create s 16 = Some (c, s1)"
    using assms(2) by (simp add: kmem_cache_create_def Let_def up s1_def c_def kc_def del: SLAB_HDR_eq)
  have kc's: "cache_pool s1 ! c = kc" using assms(2) by (simp add: s1_def put_cache_def c_def)
  have "cache_rep_but {} s1 c {} (\<lambda>_. []) []"
    by (rule cache_rep_butI [OF _ _ kc's]) (use assms(2) in \<open>simp_all add: kc_def s1_def c_def good_size_def\<close>)
  moreover have "k_inv s1" using assms(1) by (simp add: k_inv_def s1_def)
  ultimately have "cache_off lv c s1 {}" unfolding cache_off_def by (auto simp: slab_live_def)
  moreover have "cache_room c s1 = 16" by (simp add: cache_room_def kc's kc_def)
  ultimately show thesis using run by (intro that [of s1]) (simp_all add: s1_def put_cache_def c_def)
qed

lemma cache_off_handle [simp]:
  "cache_off lv c (s\<lparr>page_table_cache := x\<rparr>) L = cache_off lv c s L" "cache_off lv c (s\<lparr>vm_map_cache := x\<rparr>) L = cache_off lv c s L"
  "cache_off lv c (s\<lparr>kernel_pml4 := b\<rparr>) L = cache_off lv c s L" "cache_room c (s\<lparr>page_table_cache := x\<rparr>) = cache_room c s" "cache_room c (s\<lparr>vm_map_cache := x\<rparr>) = cache_room c s"
  by (simp_all add: cache_off_def cache_rep_but_def k_inv_def slab_ok_def used_page_def page_no_def k_pages_def k_free_set_def cache_room_def)

lemma ensure_correct:
  assumes "k_inv s" "table_cache_ok lv s T"
  obtains s' where "ensure_page_table_cache s = Some (table_cache s, s')" "cache_off lv (table_cache s) s' T" "16 \<le> cache_room (table_cache s) s'"
    "pmm s' = pmm s" "mem s' = mem s" "slabs s' = slabs s" "hhdm s' = hhdm s" "kernel_pml4 s' = kernel_pml4 s"
    "\<And>d. d \<noteq> table_cache s \<Longrightarrow> cache_pool s' ! d = cache_pool s ! d" "length (cache_pool s') = length (cache_pool s)"
proof (cases "page_table_cache s")
  case (Some c)
  then show thesis using assms that [of s] by (simp add: ensure_page_table_cache_def table_cache_def table_cache_ok_def)
next
  case None
  then have p: "cache_pool_idx s < length (cache_pool s)" "T = {}" using assms(2) by (simp_all add: table_cache_ok_def)
  obtain s1 where s1: "kmem_cache_create s 16 = Some (cache_pool_idx s, s1)" "cache_off lv (cache_pool_idx s) s1 {}" "cache_room (cache_pool_idx s) s1 = 16"
    "pmm s1 = pmm s" "mem s1 = mem s" "slabs s1 = slabs s" "hhdm s1 = hhdm s" "kernel_pml4 s1 = kernel_pml4 s"
    "\<And>d. d \<noteq> cache_pool_idx s \<Longrightarrow> cache_pool s1 ! d = cache_pool s ! d" "length (cache_pool s1) = length (cache_pool s)"
    by (rule create_cache_16 [OF assms(1) p(1)]) (rule that)
  have "table_cache s = cache_pool_idx s" using None by (simp add: table_cache_def)
  then show thesis using s1 None p(2)
    by (intro that [of "s1\<lparr>page_table_cache := Some (cache_pool_idx s)\<rparr>"]) (simp_all add: ensure_page_table_cache_def)
qed

text \<open>The kernel's own tables, if there are any yet, and what a new root has in common with them.\<close>

definition kernel_side :: "kstate \<Rightarrow> (u64 \<Rightarrow> nat) \<Rightarrow> bool" where
  "kernel_side s lv \<longleftrightarrow> k_inv s \<and> (if kernel_pml4 s = 0 then lv = (\<lambda>_. 0) else pt_wf s lv (kernel_pml4 s))"

definition new_levels :: "(u64 \<Rightarrow> nat) \<Rightarrow> u64 \<Rightarrow> u64 \<Rightarrow> u64 \<Rightarrow> nat" where
  "new_levels lv old b = (\<lambda>a. if a = b then 4 else if a = old then 0 else lv a)"

definition shares_kernel :: "kstate \<Rightarrow> kstate \<Rightarrow> u64 \<Rightarrow> bool" where
  "shares_kernel s s' b \<longleftrightarrow> (\<forall>va. walk s' 4 b va =
     (if kernel_pml4 s \<noteq> 0 \<and> 256 \<le> unat (level_idx 4 va) then walk s 4 (kernel_pml4 s) va else None))"

lemma kernel_side_tables: "kernel_side s lv \<Longrightarrow> tables_used lv s"
  by (auto simp: kernel_side_def tables_used_def split: if_splits dest: pt_wf_tables)

lemma kernel_side_kept:
  assumes "kernel_side s lv" "tree_kept lv s s'" "kernel_pml4 s' = kernel_pml4 s"
  shows "kernel_side s' lv"
  using assms tree_kept_wf(1) [OF _ assms(2)] by (auto simp: kernel_side_def tree_kept_def split: if_splits)

lemma free_frame_kernel: "kernel_side s lv \<Longrightarrow> free_frame s s' \<Longrightarrow> tree_kept lv s s'"
proof (cases "kernel_pml4 s = 0")
  case True
  then show "kernel_side s lv \<Longrightarrow> free_frame s s' \<Longrightarrow> tree_kept lv s s'"
    by (simp add: kernel_side_def tree_kept_def free_frame_def)
next
  case False
  then show "kernel_side s lv \<Longrightarrow> free_frame s s' \<Longrightarrow> tree_kept lv s s'"
    by (auto simp: kernel_side_def intro: free_frame_kept)
qed

lemma new_root:
  assumes ks: "kernel_side s lv" and f: "free_frame s s'" and b: "used_page s' b" "\<not> used_page s b"
    and e: "\<And>j. unat j < 512 \<Longrightarrow> read_entry s' b j =
      (if kernel_pml4 s \<noteq> 0 \<and> 256 \<le> unat j then read_entry s (kernel_pml4 s) j else 0)"
  shows "pt_wf s' (new_levels lv (kernel_pml4 s) b) b" "shares_kernel s s' b"
proof -
  let ?lv = "new_levels lv (kernel_pml4 s) b" and ?k = "kernel_pml4 s"
  have hh: "hhdm s' = hhdm s" and inv: "k_inv s'" using f by (simp_all add: free_frame_def)
  have kept: "tree_kept lv s s'" by (rule free_frame_kernel [OF ks f])
  have rd: "read_entry s' t i = read_entry s t i" if "lv t \<noteq> 0" "unat i < 512" for t i
    using kept that by (simp add: tree_kept_def)
  have ch: "child s' t i = child s t i" if "lv t \<noteq> 0" "unat i < 512" for t i
    by (rule child_eq [OF rd [OF that] hh])
  have lb: "lv b = 0" using kernel_side_tables [OF ks] b(2) by (auto simp: tables_used_def)
  have kb: "?k \<noteq> b" if "?k \<noteq> 0" using ks that lb by (auto simp: kernel_side_def dest: pt_wfD(2))
  have cb: "child s' b i = (if ?k \<noteq> 0 \<and> 256 \<le> unat i then child s ?k i else None)" if "unat i < 512" for i
    using e [OF that] hh by (simp add: child_def phys_to_higher_half_data_def Let_def)
  show "pt_wf s' ?lv b"
  proof (cases "?k = 0")
    case True
    then have "lv = (\<lambda>_. 0)" using ks by (simp add: kernel_side_def)
    then show ?thesis using cb True inv b(1) by (auto simp: pt_wf_def new_levels_def)
  next
    case False
    then have wf: "pt_wf s lv ?k" using ks by (simp add: kernel_side_def)
    have lk: "lv ?k = 4" by (rule pt_wfD(2) [OF wf])
    have down: "?lv c = ?lv a - 1 \<and> (\<exists>d. lv d = ?lv a \<and> child s d i = Some c \<and> (if a = b then d = ?k else d = a \<and> a \<noteq> ?k))"
      if x: "2 \<le> ?lv a" "unat i < 512" "child s' a i = Some c" for a i c
    proof (cases "a = b")
      case True
      then have c: "child s ?k i = Some c" using x cb by (auto split: if_splits)
      then have "lv c = 3" using pt_wfD(6) [OF wf _ x(2) c] lk by simp
      then have "?lv c = 3" using lb lk by (auto simp: new_levels_def)
      then show ?thesis using True c lk by (auto simp: new_levels_def)
    next
      case False
      then have a: "a \<noteq> ?k" "?lv a = lv a" using x(1) by (simp_all add: new_levels_def split: if_splits)
      have la: "2 \<le> lv a" "lv a \<le> 4" using x(1) a(2) pt_wfD(3) [OF wf, of a] by simp_all
      have c: "child s a i = Some c" using x(2,3) ch [of a i] la by simp
      have lc: "lv c = lv a - 1" by (rule pt_wfD(6) [OF wf la(1) x(2) c])
      have "c \<noteq> b" "c \<noteq> ?k" using lc la lb lk by auto
      then have "?lv c = lv a - 1" using lc by (simp add: new_levels_def)
      then show ?thesis using False c a by auto
    qed
    show ?thesis
      unfolding pt_wf_def
    proof (intro conjI allI impI)
      show "k_inv s'" by (rule inv)
      show "?lv b = 4" by (simp add: new_levels_def)
      show "?lv a \<le> 4" "used_page s' a" if "?lv a \<noteq> 0" for a
        using that b(1) pt_wfD(3) [OF wf, of a] kept by (auto simp: new_levels_def tree_kept_def split: if_splits)
      show "?lv c = ?lv a - 1" if "2 \<le> ?lv a" "unat i < 512" "child s' a i = Some c" for a i c
        using down [OF that] by simp
      fix a i c d j
      assume x: "2 \<le> ?lv a" "unat i < 512" "2 \<le> ?lv d" "unat j < 512" "child s' a i = Some c" "child s' d j = Some c"
      obtain a' where a': "lv a' = ?lv a" "child s a' i = Some c" "if a = b then a' = ?k else a' = a \<and> a \<noteq> ?k" using down [OF x(1,2,5)] by blast
      obtain d' where d': "lv d' = ?lv d" "child s d' j = Some c" "if d = b then d' = ?k else d' = d \<and> d \<noteq> ?k" using down [OF x(3,4,6)] by blast
      have "a' = d' \<and> i = j" using pt_wfD(7) [OF wf, of a' i d' j c] a'(1,2) d'(1,2) x by simp
      then show "a = d" "i = j" using a'(3) d'(3) by (auto split: if_splits)
    qed
  qed
  show "shares_kernel s s' b"
    unfolding shares_kernel_def
  proof
    fix va
    let ?i = "level_idx 4 va"
    have i: "unat ?i < 512" by (rule level_idx_less)
    show "walk s' 4 b va = (if ?k \<noteq> 0 \<and> 256 \<le> unat ?i then walk s 4 ?k va else None)"
    proof (cases "?k \<noteq> 0 \<and> 256 \<le> unat ?i")
      case True
      then have wf: "pt_wf s lv ?k" using ks by (simp add: kernel_side_def)
      have w: "walk s' 3 c va = walk s 3 c va" if "child s ?k ?i = Some c" for c
        using tree_kept_wf(2) [OF wf kept, of c 3] pt_wfD(6) [OF wf _ i that] pt_wfD(2) [OF wf] by simp
      have "walk s' (Suc 3) b va = walk s (Suc 3) ?k va"
        using True e [OF i] cb [OF i] w unfolding walk_step by (auto simp: numeral_eq_Suc split: option.split)
      then show ?thesis using True by simp
    next
      case False
      have "walk s' (Suc 3) b va = None" using False e [OF i] cb [OF i] unfolding walk_step by (auto simp: numeral_eq_Suc)
      then show ?thesis using False by auto
    qed
  qed
qed

text \<open>The page of a new root: cleared, then given the upper half of the kernel's root.\<close>

definition fill_root :: "kstate \<Rightarrow> u64 \<Rightarrow> kstate" where
  "fill_root s b = (let s = clear_page s b in if kernel_pml4 s = 0 then s else copy_kernel_half s b (kernel_pml4 s) 256)"

lemma fill_root_correct:
  assumes ks: "kernel_side s lv" and al: "k_alloc_page s = Some (pa, s1)" "pa \<noteq> 0"
  defines "b \<equiv> phys_to_higher_half_data s1 pa"
  obtains m where "fill_root s1 b = s1\<lparr>mem := m\<rparr>" "\<And>y. page_base y \<noteq> b \<Longrightarrow> m y = mem s y"
    "\<And>j. unat j < 512 \<Longrightarrow> read_entry (s1\<lparr>mem := m\<rparr>) b j =
      (if kernel_pml4 s \<noteq> 0 \<and> 256 \<le> unat j then read_entry s (kernel_pml4 s) j else 0)"
proof -
  obtain p where p: "s1 = s\<lparr>pmm := p\<rparr>" using k_alloc_page_frame [OF al(1)] by blast
  have inv: "k_inv s" using ks by (simp add: kernel_side_def)
  define m0 where "m0 = (\<lambda>a. if a - b < PAGE_SIZE then 0 else mem s a)"
  have sb: "slab_page b" unfolding b_def by (rule new_frame(1) [OF inv al, of "mem s"]) simp
  have c: "clear_page s1 b = s1\<lparr>mem := m0\<rparr>" by (simp add: clear_page_def m0_def p cong: if_cong)
  have m0: "m0 y = mem s y" if "page_base y \<noteq> b" for y using in_page_iff [OF sb] that by (simp add: m0_def)
  have f0: "free_frame s (s1\<lparr>mem := m0\<rparr>)" by (rule new_frame(4) [OF inv al m0]) (simp add: b_def)
  have z: "read_entry (s1\<lparr>mem := m0\<rparr>) b j = 0" if "unat j < 512" for j
    using page_base_entry [OF sb that] in_page_iff [OF sb] by (simp add: read_entry_def entry_addr_def [symmetric] m0_def)
  show thesis
  proof (cases "kernel_pml4 s = 0")
    case True
    then show thesis using that [of m0] c m0 z by (simp add: fill_root_def p)
  next
    case False
    then have wf: "pt_wf s lv (kernel_pml4 s)" using ks by (simp add: kernel_side_def)
    have k: "used_page s (kernel_pml4 s)" "slab_page (kernel_pml4 s)" using pt_wfD(2,4,5) [OF wf] by simp_all
    have nb: "b \<noteq> kernel_pml4 s" using new_frame(2) [OF inv al, of "mem s"] k(1) by (auto simp: b_def)
    obtain m where m: "copy_kernel_half (s1\<lparr>mem := m0\<rparr>) b (kernel_pml4 s) 256 = s1\<lparr>mem := m\<rparr>" "\<forall>y. page_base y \<noteq> b \<longrightarrow> m y = m0 y"
      using copy_half_frame [OF sb, of 256 "s1\<lparr>mem := m0\<rparr>" "kernel_pml4 s"] by auto
    have e: "read_entry (s1\<lparr>mem := m\<rparr>) b j = (if 256 \<le> unat j then read_entry s (kernel_pml4 s) j else 0)" if "unat j < 512" for j
      using copy_half_entries [OF sb k(2) nb _ sb that, of 256 "s1\<lparr>mem := m0\<rparr>"] m(1) z [OF that] free_frame_entry [OF f0 k that] by simp
    show thesis using that [of m] c m m0 e False by (simp add: fill_root_def p)
  qed
qed

lemma pmap_create_table_fill:
  "pmap_create_table s = do {
     (c, s0) \<leftarrow> ensure_page_table_cache s;
     (phys, s1) \<leftarrow> k_alloc_page s0;
     if phys = 0 then Some (None, s1)
     else do {
       let virt = phys_to_higher_half_data s1 phys;
       (table, s4) \<leftarrow> kmem_cache_alloc (fill_root s1 virt) c;
       if table = 0 then do { s5 \<leftarrow> k_free_page s4 phys; Some (None, s5) }
       else Some (Some \<lparr>pt_addr = table, pml4_virt = virt, pml4_phy = phys\<rparr>, write_cell (write_cell s4 table virt) (table + 8) phys)
     }
   }"
  unfolding pmap_create_table_def fill_root_def Let_def ..

lemma tree_kept_trans: "tree_kept lv s s1 \<Longrightarrow> tree_kept lv s1 s2 \<Longrightarrow> tree_kept lv s s2"
  by (simp add: tree_kept_def)

lemma cells_kernel:
  assumes "kernel_side s lv" "pmm s' = pmm s" "hhdm s' = hhdm s" "\<And>y. lv (page_base y) \<noteq> 0 \<Longrightarrow> mem s' y = mem s y"
  shows "tree_kept lv s s'"
proof (cases "kernel_pml4 s = 0")
  case True
  then show ?thesis using assms(1,3) k_of_pmm(3) [OF assms(2,3)] by (simp add: kernel_side_def tree_kept_def)
next
  case False
  then show ?thesis using assms by (intro cells_kept [of s lv "kernel_pml4 s"]) (auto simp: kernel_side_def)
qed

lemma cache_off_mono: "cache_off lv c s L \<Longrightarrow> (\<And>a. lv a = 0 \<Longrightarrow> lv' a = 0) \<Longrightarrow> cache_off lv' c s L"
  unfolding cache_off_def by metis

lemma shares_kept:
  assumes "shares_kernel s s1 b" "pt_wf s1 lv b" "tree_kept lv s1 s2"
  shows "shares_kernel s s2 b"
  using assms(1) tree_kept_wf(2) [OF assms(2,3)] pt_wfD(2) [OF assms(2)] by (simp add: shares_kernel_def)

lemma create_table_correct:
  assumes ks: "kernel_side s lv" and tc: "table_cache_ok lv s T" and d: "d \<noteq> table_cache s" "cache_off lv d s M"
  obtains (oom) s' where "pmap_create_table s = Some (None, s')" "tree_kept lv s s'" "kernel_pml4 s' = kernel_pml4 s"
    "cache_off lv d s' M"
  | (table) t s' where "pmap_create_table s = Some (Some t, s')" "tree_kept lv s s'" "kernel_pml4 s' = kernel_pml4 s"
    "lv (pml4_virt t) = 0" "pt_wf s' (new_levels lv (kernel_pml4 s) (pml4_virt t)) (pml4_virt t)" "shares_kernel s s' (pml4_virt t)"
    "pt_addr t \<notin> T" "cache_off (lv(pml4_virt t := 4)) (table_cache s) s' (insert (pt_addr t) T)" "cache_off (lv(pml4_virt t := 4)) d s' M"
    "mem s' (pt_addr t) = pml4_virt t" "mem s' (pt_addr t + 8) = pml4_phy t" "pml4_virt t = hhdm s + pml4_phy t"
    "\<And>j. unat j < 512 \<Longrightarrow> 256 \<le> unat j \<Longrightarrow> kernel_pml4 s \<noteq> 0 \<Longrightarrow> read_entry s' (pml4_virt t) j = read_entry s' (kernel_pml4 s) j"
proof -
  let ?c = "table_cache s" and ?k = "kernel_pml4 s"
  have inv: "k_inv s" using ks by (simp add: kernel_side_def)
  obtain s0 where s0: "ensure_page_table_cache s = Some (?c, s0)" "cache_off lv ?c s0 T" "16 \<le> cache_room ?c s0"
    "pmm s0 = pmm s" "mem s0 = mem s" "slabs s0 = slabs s" "hhdm s0 = hhdm s" "kernel_pml4 s0 = ?k"
    "\<And>d. d \<noteq> ?c \<Longrightarrow> cache_pool s0 ! d = cache_pool s ! d" "length (cache_pool s0) = length (cache_pool s)"
    by (rule ensure_correct [OF inv tc]) (rule that)
  have f0: "free_frame s s0" using inv s0(4,5,7) k_of_pmm(1-3) [OF s0(4)] by (simp add: free_frame_def)
  have k0: "tree_kept lv s s0" by (rule free_frame_kernel [OF ks f0])
  have ks0: "kernel_side s0 lv" by (rule kernel_side_kept [OF ks k0 s0(8)])
  have inv0: "k_inv s0" using ks0 by (simp add: kernel_side_def)
  have d0: "cache_off lv d s0 M" by (rule cache_off_frame [OF d(2) f0 s0(6) s0(9) [OF d(1)] s0(10)])
  show thesis
  proof (cases rule: kpg.alloc_cases [OF inv0])
    case 1
    then show thesis using s0(1) k0 s0(8) d0 by (intro oom [of s0]) (simp_all add: pmap_create_table_def)
  next
    case (2 n pa s1)
    define b where "b = phys_to_higher_half_data s1 pa"
    obtain p where p: "s1 = s0\<lparr>pmm := p\<rparr>" using k_alloc_page_frame [OF 2(2)] by blast
    have bh: "b = hhdm s + pa" by (simp add: b_def phys_to_higher_half_data_def p s0(7))
    obtain m where m: "fill_root s1 b = s1\<lparr>mem := m\<rparr>" "\<And>y. page_base y \<noteq> b \<Longrightarrow> m y = mem s0 y"
      "\<And>j. unat j < 512 \<Longrightarrow> read_entry (s1\<lparr>mem := m\<rparr>) b j = (if kernel_pml4 s0 \<noteq> 0 \<and> 256 \<le> unat j then read_entry s0 (kernel_pml4 s0) j else 0)"
      using fill_root_correct [OF ks0 2(2,4)] unfolding b_def by blast
    define s3 where "s3 = s1\<lparr>mem := m\<rparr>"
    note nf = new_frame [OF inv0 2(2,4) m(2) [unfolded b_def], folded b_def, folded s3_def]
    define lvu where "lvu = lv(b := 4)"
    define lvn where "lvn = new_levels lv ?k b"
    have wn: "pt_wf s3 lvn b" and sk0: "shares_kernel s0 s3 b"
      using new_root [OF ks0 nf(4,3,2) m(3) [folded s3_def]] s0(8) by (simp_all add: lvn_def)
    have s3: "kernel_pml4 s3 = ?k" "hhdm s3 = hhdm s" "slabs s3 = slabs s0" "cache_pool s3 = cache_pool s0"
      by (simp_all add: s3_def p s0(7,8))
    have k3: "tree_kept lv s0 s3" by (rule free_frame_kernel [OF ks0 nf(4)])
    then have k3s: "tree_kept lv s s3" by (rule tree_kept_trans [OF k0])
    have ks3: "kernel_side s3 lv" by (rule kernel_side_kept [OF ks k3s s3(1)])
    have inv3: "k_inv s3" using ks3 by (simp add: kernel_side_def)
    have lb: "lv b = 0" using kernel_side_tables [OF ks0] nf(2) by (auto simp: tables_used_def)
    have up: "lvu a = 0" if "used_page s0 a" "lv a = 0" for a using that nf(2) by (auto simp: lvu_def)
    have c3: "cache_off lvu ?c s3 T" by (rule cache_off_frame [OF s0(2) nf(4) s3(3) _ _ up]) (simp_all add: s3(4))
    have d3: "cache_off lvu d s3 M" by (rule cache_off_frame [OF d0 nf(4) s3(3) _ _ up]) (simp_all add: s3(4))
    have tu: "tables_used lvu s3" using k3 nf(3) by (auto simp: tables_used_def tree_kept_def lvu_def)
    have low: "lv a = 0" if "lvu a = 0" for a using that by (auto simp: lvu_def split: if_splits)
    have pn: "page_no s3 b = unat pa div 4096" using nf(5) by (simp add: page_no_def s3(2) s0(7))
    have sk3: "shares_kernel s s3 b"
    proof (cases "?k = 0")
      case True
      then show ?thesis using sk0 s0(8) by (simp add: shares_kernel_def)
    next
      case False
      then have "pt_wf s lv ?k" using ks by (simp add: kernel_side_def)
      then show ?thesis using sk0 s0(8) tree_kept_wf(2) [OF _ k0] pt_wfD(2) by (simp add: shares_kernel_def)
    qed
    have run: "pmap_create_table s = do {
        (table, s4) \<leftarrow> kmem_cache_alloc s3 ?c;
        if table = 0 then do { s5 \<leftarrow> k_free_page s4 pa; Some (None, s5) }
        else Some (Some \<lparr>pt_addr = table, pml4_virt = b, pml4_phy = pa\<rparr>, write_cell (write_cell s4 table b) (table + 8) pa) }"
      using s0(1) 2(2,4) m(1) by (simp add: pmap_create_table_fill b_def [symmetric] s3_def Let_def cong: if_cong)
    have lun: "lvn a = 0" if "lvu a = 0" for a using that by (auto simp: lvu_def lvn_def new_levels_def split: if_splits)
    show thesis
    proof (cases rule: cache_off_alloc [OF c3 tu])
      case 1
      obtain s5 where s5: "k_free_page s3 pa = Some s5" "k_inv s5" "k_pages s5 = k_pages s3"
        "k_free_set s5 = (if unat pa div 4096 < k_pages s3 then insert (unat pa div 4096) (k_free_set s3) else k_free_set s3)"
        using kpg.free_some [OF inv3 nf(7)] by blast
      obtain q where q: "s5 = s3\<lparr>pmm := q\<rparr>" using s5(1) by (auto simp: k_free_page_def bind_eq_Some_conv)
      have vb: "phys_to_higher_half_data s3 pa = b" by (simp add: phys_to_higher_half_data_def s3(2) bh)
      have d5: "cache_off lvu d s5 M"
        by (rule cache_off_free_page [OF d3 nf(7,6)]) (use vb nf(3) pn s5(1) in \<open>simp_all add: lvu_def\<close>)
      have "used_page s5 a" if "lv a \<noteq> 0" for a
      proof -
        have ua: "used_page s3 a" using k3 that by (simp add: tree_kept_def)
        moreover have "page_no s3 a \<noteq> unat pa div 4096" using used_page_inj [OF ua nf(3)] pn lb that by auto
        moreover have "page_no s5 a = page_no s3 a" "hhdm s5 = hhdm s3" by (simp_all add: q page_no_def)
        ultimately show ?thesis using s5(3,4) by (auto simp: used_page_def)
      qed
      then have "tree_kept lv s3 s5" using s5(2) by (simp add: tree_kept_def q read_entry_def)
      then have "tree_kept lv s s5" by (rule tree_kept_trans [OF k3s])
      moreover have "cache_off lv d s5 M" by (rule cache_off_mono [OF d5 low])
      ultimately show thesis using run 1(1) s5(1) s3(1) by (intro oom [of s5]) (simp_all add: q)
    next
      case o: (2 x s4)
      define s5 where "s5 = write_cell (write_cell s4 x b) (x + 8) pa"
      obtain m5 where m5: "s5 = s4\<lparr>mem := m5\<rparr>" "\<And>y. y \<noteq> x \<Longrightarrow> y \<noteq> x + 8 \<Longrightarrow> m5 y = mem s4 y"
        by (rule that [of "(mem s4)(x := b, x + 8 := pa)"]) (auto simp: s5_def write_cell_def)
      have room: "16 \<le> cache_room ?c s4" using o(14) s0(3) by (simp add: cache_room_def s3(4))
      obtain x8: "page_base (x + 8) = page_base x" "unat (x + 8) = unat x + 8"
        by (rule cache_off_object [OF o(4) insertI1 room]) (rule that)
      have y: "y = x \<or> y = x + 8" if "m5 y \<noteq> mem s4 y" for y using m5(2) that by blast
      have c5: "cache_off lvu ?c s5 (insert x T)"
        unfolding m5(1) by (rule cache_off_cells [OF o(4)]) (use y x8(2) room in force)
      have dc: "d \<noteq> ?c" by (rule d(1))
      have d5: "cache_off lvu d s5 M"
        unfolding m5(1) by (rule cache_off_other_cells [OF o(4) o(15) [OF dc d3] dc]) (use y x8(1) in force)
      have off: "mem s5 z = mem s4 z" if "lvu (page_base z) \<noteq> 0" for z
      proof -
        have "z \<noteq> x" "z \<noteq> x + 8" using that o(6) x8(1) by auto
        then show ?thesis using m5 by simp
      qed
      have w4: "pt_wf s4 lvn b" "tree_kept lvn s3 s4"
        using free_frame_tree(1) [OF wn o(5)] free_frame_kept [OF wn o(5)] by simp_all
      have k4: "tree_kept lv s3 s4" by (rule free_frame_kernel [OF ks3 o(5)])
      have ks4: "kernel_side s4 lv" by (rule kernel_side_kept [OF ks3 k4 o(8)])
      have e5: "pmm s5 = pmm s4" "hhdm s5 = hhdm s4" "kernel_pml4 s5 = kernel_pml4 s4" by (simp_all add: m5(1))
      have offn: "mem s5 y = mem s4 y" if "lvn (page_base y) \<noteq> 0" for y
        by (rule off, rule contrapos_nn [OF that], rule lun)
      have offk: "mem s5 y = mem s4 y" if "lv (page_base y) \<noteq> 0" for y
        by (rule off, rule contrapos_nn [OF that], rule low)
      have k5: "tree_kept lvn s4 s5" by (rule cells_kept [OF w4(1) e5(1,2)]) (rule offn)
      have kk5: "tree_kept lv s4 s5" by (rule cells_kernel [OF ks4 e5(1,2)]) (rule offk)
      have ne: "x + 8 \<noteq> x" using x8(2) by auto
      show thesis
      proof (rule table [of "\<lparr>pt_addr = x, pml4_virt = b, pml4_phy = pa\<rparr>" s5])
        show "pmap_create_table s = Some (Some \<lparr>pt_addr = x, pml4_virt = b, pml4_phy = pa\<rparr>, s5)"
          using run o(1,2) by (simp add: s5_def)
        show "tree_kept lv s s5" by (rule tree_kept_trans [OF tree_kept_trans [OF k3s k4] kk5])
        show "kernel_pml4 s5 = ?k" using e5(3) o(8) s3(1) by simp
        show "lv (pml4_virt \<lparr>pt_addr = x, pml4_virt = b, pml4_phy = pa\<rparr>) = 0" using lb by simp
        show "read_entry s5 (pml4_virt \<lparr>pt_addr = x, pml4_virt = b, pml4_phy = pa\<rparr>) j = read_entry s5 ?k j"
          if j: "unat j < 512" "256 \<le> unat j" "?k \<noteq> 0" for j
        proof -
          have "lv ?k = 4" using ks j(3) by (auto simp: kernel_side_def dest: pt_wfD(2))
          moreover have "lvn b = 4" by (simp add: lvn_def new_levels_def)
          ultimately have "read_entry s5 b j = read_entry s3 b j" "read_entry s5 ?k j = read_entry s0 ?k j"
            using k3 k4 kk5 w4(2) k5 j(1) by (simp_all add: tree_kept_def)
          then show ?thesis using m(3) [OF j(1), folded s3_def] j s0(8) by simp
        qed
        show "pt_wf s5 (new_levels lv ?k (pml4_virt \<lparr>pt_addr = x, pml4_virt = b, pml4_phy = pa\<rparr>)) (pml4_virt \<lparr>pt_addr = x, pml4_virt = b, pml4_phy = pa\<rparr>)"
          using tree_kept_wf(1) [OF w4(1) k5] by (simp add: lvn_def)
        show "shares_kernel s s5 (pml4_virt \<lparr>pt_addr = x, pml4_virt = b, pml4_phy = pa\<rparr>)"
          using shares_kept [OF sk3 wn tree_kept_trans [OF w4(2) k5]] by simp
      qed (use c5 d5 bh o(3) ne in \<open>simp_all add: lvu_def s5_def write_cell_def\<close>)
    qed
  qed
qed

section \<open>A new address space\<close>

lemma cache_off_free:
  assumes c: "cache_off lv c s L" and ks: "kernel_side s lv" and x: "x \<in> L"
  obtains s' where "kmem_cache_free s c x = Some s'" "tree_kept lv s s'" "kernel_pml4 s' = kernel_pml4 s"
proof -
  obtain S fl ps where inv: "k_inv s" and S: "cache_rep_but {} s c S fl ps" "L = slab_live (kc_size (cache_pool s ! c)) S fl" "\<forall>a\<in>S. lv a = 0"
    using c by (auto simp: cache_off_def)
  obtain s' where s': "kmem_cache_free s c x = Some s'" using kmem_cache_free_correct [OF inv S(1), of x] x S(2) by metis
  obtain a where "a \<in> S" "x \<in> objs (kc_size (cache_pool s ! c)) a" using x by (auto simp: S(2) slab_live_def)
  then have off: "lv (page_base x) = 0" using slab_used(3) [OF S(1)] S(3) by simp
  have k: "pmm s' = pmm s" "hhdm s' = hhdm s" "kernel_pml4 s' = kernel_pml4 s" "\<forall>y. y \<noteq> x \<longrightarrow> mem s' y = mem s y"
    using s' by (auto simp: kmem_cache_free_def Let_def put_cache_def put_slab_def set_fp_def write_cell_def bind_eq_Some_conv split: if_splits)
  show thesis
  proof (rule that [OF s' _ k(3)])
    show "tree_kept lv s s'" by (rule cells_kernel [OF ks k(1,2)]) (use k(4) off in force)
  qed
qed

lemma copy_again:
  assumes ks: "kernel_side s lv" and wf: "pt_wf s lvn b" and off: "lv b = 0"
    and e: "\<And>j. unat j < 512 \<Longrightarrow> 256 \<le> unat j \<Longrightarrow> kernel_pml4 s \<noteq> 0 \<Longrightarrow> read_entry s b j = read_entry s (kernel_pml4 s) j"
    and t: "pml4_virt t = b"
  obtains m where "pmap_copy_kernel_mappings s t = s\<lparr>mem := m\<rparr>" "tree_kept lv s (s\<lparr>mem := m\<rparr>)" "tree_kept lvn s (s\<lparr>mem := m\<rparr>)"
    "\<And>y. page_base y \<noteq> b \<Longrightarrow> m y = mem s y"
proof (cases "kernel_pml4 s = 0")
  case True
  then show thesis using ks pt_wfD(1,4) [OF wf] kernel_side_tables [OF ks]
    by (intro that [of "mem s"]) (simp_all add: pmap_copy_kernel_mappings_def tree_kept_def kernel_side_def tables_used_def)
next
  case False
  let ?k = "kernel_pml4 s"
  have wk: "pt_wf s lv ?k" using ks False by (simp add: kernel_side_def)
  have lb: "lvn b = 4" by (rule pt_wfD(2) [OF wf])
  have sb: "slab_page b" using pt_wfD(5) [OF wf] lb by simp
  have sk: "slab_page ?k" "b \<noteq> ?k" using pt_wfD(2,5) [OF wk] off by auto
  obtain m where m: "copy_kernel_half s b ?k 256 = s\<lparr>mem := m\<rparr>" "\<forall>y. page_base y \<noteq> b \<longrightarrow> m y = mem s y"
    using copy_half_frame [OF sb, of 256 s ?k] by auto
  have r: "read_entry (s\<lparr>mem := m\<rparr>) u j = read_entry s u j" if "slab_page u" "unat j < 512" for u j
    using copy_half_entries [OF sb sk _ that, of 256 s] e [OF that(2) _ False] m(1) by auto
  have "tree_kept lvn s (s\<lparr>mem := m\<rparr>)"
    using r pt_wfD(1,4,5) [OF wf] k_of_pmm(3,4) [of "s\<lparr>mem := m\<rparr>" s] by (simp add: tree_kept_def)
  moreover have "tree_kept lv s (s\<lparr>mem := m\<rparr>)"
    using r pt_wfD(1,4,5) [OF wk] k_of_pmm(3,4) [of "s\<lparr>mem := m\<rparr>" s] by (simp add: tree_kept_def)
  ultimately show thesis using m False t by (intro that [of m]) (simp_all add: pmap_copy_kernel_mappings_def)
qed

text \<open>What creating an address space needs: the two caches, apart from each other and from the tables.\<close>

definition create_ready :: "(u64 \<Rightarrow> nat) \<Rightarrow> kstate \<Rightarrow> bool" where
  "create_ready lv s \<longleftrightarrow> kernel_side s lv \<and> (\<exists>T. table_cache_ok lv s T)
     \<and> (\<exists>c L. vm_map_cache s = Some c \<and> c \<noteq> table_cache s \<and> cache_off lv c s L)"

lemma vm_map_create_correct:
  assumes "create_ready lv s"
  obtains (oom) s' where "vm_map_create s = Some (None, s')" "tree_kept lv s s'" "kernel_pml4 s' = kernel_pml4 s"
  | (space) m s' where "vm_map_create s = Some (Some m, s')" "tree_kept lv s s'" "kernel_pml4 s' = kernel_pml4 s" "areas m = []"
    "lv (pml4_virt (vm_pt m)) = 0" "pt_wf s' (new_levels lv (kernel_pml4 s) (pml4_virt (vm_pt m))) (pml4_virt (vm_pt m))"
    "shares_kernel s s' (pml4_virt (vm_pt m))" "pml4_virt (vm_pt m) = hhdm s + pml4_phy (vm_pt m)"
proof -
  obtain T c L where ks: "kernel_side s lv" and tc: "table_cache_ok lv s T" and c: "vm_map_cache s = Some c" "c \<noteq> table_cache s" "cache_off lv c s L"
    using assms by (auto simp: create_ready_def)
  show thesis
  proof (cases rule: cache_off_alloc [OF c(3) kernel_side_tables [OF ks]])
    case 1
    have "tree_kept lv s s" by (rule cells_kernel [OF ks]) simp_all
    then show thesis using 1 c(1) by (intro oom [of s]) (simp_all add: vm_map_create_def)
  next
    case a: (2 x s1)
    have k1: "tree_kept lv s s1" by (rule free_frame_kernel [OF ks a(5)])
    have ks1: "kernel_side s1 lv" by (rule kernel_side_kept [OF ks k1 a(8)])
    have tb: "table_cache s1 = table_cache s" by (simp add: table_cache_def a(9,10) split: option.split)
    have tc1: "table_cache_ok lv s1 T"
    proof (cases "page_table_cache s")
      case None
      then show ?thesis using tc a(9,10,13) by (simp add: table_cache_ok_def)
    next
      case (Some d)
      then have "d \<noteq> c" using c(2) by (simp add: table_cache_def)
      then show ?thesis using Some tc a(10,15,16) by (simp add: table_cache_ok_def cache_room_def)
    qed
    show thesis
    proof (cases rule: create_table_correct [OF ks1 tc1 c(2) [folded tb] a(4)])
      case t: (1 s2)
      have ks2: "kernel_side s2 lv" by (rule kernel_side_kept [OF ks1 t(2,3)])
      obtain s3 where s3: "kmem_cache_free s2 c x = Some s3" "tree_kept lv s2 s3" "kernel_pml4 s3 = kernel_pml4 s2"
        by (rule cache_off_free [OF t(4) ks2 insertI1]) (rule that)
      show thesis
      proof (rule oom)
        show "vm_map_create s = Some (None, s3)" using c(1) a(1,2) t(1) s3(1) by (simp add: vm_map_create_def)
        show "tree_kept lv s s3" by (rule tree_kept_trans [OF tree_kept_trans [OF k1 t(2)] s3(2)])
      qed (use s3(3) t(3) a(8) in simp)
    next
      case t: (2 t s2)
      let ?b = "pml4_virt t"
      have ks2: "kernel_side s2 lv" by (rule kernel_side_kept [OF ks1 t(2,3)])
      have e: "read_entry s2 ?b j = read_entry s2 (kernel_pml4 s2) j" if "unat j < 512" "256 \<le> unat j" "kernel_pml4 s2 \<noteq> 0" for j
        using t(13) that t(3) by simp
      obtain m where m: "pmap_copy_kernel_mappings s2 t = s2\<lparr>mem := m\<rparr>" "tree_kept lv s2 (s2\<lparr>mem := m\<rparr>)"
        "tree_kept (new_levels lv (kernel_pml4 s1) ?b) s2 (s2\<lparr>mem := m\<rparr>)"
        by (rule copy_again [OF ks2 t(5,4) e refl]) (assumption | rule that)+
      have kw: "walk s1 4 (kernel_pml4 s) va = walk s 4 (kernel_pml4 s) va" if "kernel_pml4 s \<noteq> 0" for va
      proof -
        have wk: "pt_wf s lv (kernel_pml4 s)" using ks that by (simp add: kernel_side_def)
        show ?thesis by (rule tree_kept_wf(2) [OF wk k1 pt_wfD(2) [OF wk]]) simp
      qed
      have sh: "shares_kernel s s2 ?b" using t(6) kw a(8) by (simp add: shares_kernel_def)
      show thesis
      proof (rule space)
        show "vm_map_create s = Some (Some \<lparr>vm_addr = x, vm_pt = t, areas = []\<rparr>, s2\<lparr>mem := m\<rparr>)"
          using c(1) a(1,2) t(1) m(1) by (simp add: vm_map_create_def)
        show "tree_kept lv s (s2\<lparr>mem := m\<rparr>)" by (rule tree_kept_trans [OF tree_kept_trans [OF k1 t(2)] m(2)])
        show "shares_kernel s (s2\<lparr>mem := m\<rparr>) (pml4_virt (vm_pt \<lparr>vm_addr = x, vm_pt = t, areas = []\<rparr>))"
          using shares_kept [OF sh t(5) m(3)] by simp
      qed (use t(3,4,12) a(8) tree_kept_wf(1) [OF t(5) m(3)] k1 in \<open>simp_all add: tree_kept_def\<close>)
    qed
  qed
qed

end
