(* ===== verification/Kernel_Map.thy ===== *)
theory Kernel_Map
  imports Vm_Map Memory_Map
begin

text \<open>
  The kernel's own address space: \<open>init_pmap\<close> and \<open>pmap_map_mmio\<close> of \<^verbatim>\<open>src/kernel/mm/pmap/pmap.c\<close>, and the
  mapping services of the ACPI glue, \<^verbatim>\<open>src/kernel/firmware/acpi.c\<close>. \<open>kernel_vm_map\<close> is passed along as a
  map, \<open>None\<close> while it is null; the addresses the linker gives the sections are a record. Loading
  \<open>cr3\<close>, registering the fault handler and log output are not part of this state.
\<close>

record kernel_image =
  kernel_start :: u64
  text_start :: u64
  text_end :: u64
  rodata_start :: u64
  rodata_end :: u64
  data_start :: u64
  kernel_end :: u64
  kernel_phys :: u64

section \<open>The initial mappings\<close>

definition map_entry :: "page_table_t \<Rightarrow> memory_map_entry_t \<Rightarrow> kstate \<Rightarrow> kstate option" where
  "map_entry t e s =
     (if me_type e = MEMMAP_BAD_MEMORY \<or> me_type e = MEMMAP_EXECUTABLE_AND_MODULES then Some s
      else
        do {
          let phys = me_base e;
          let flags = MMU_FLAG_WRITE OR MMU_FLAG_NO_EXEC OR MMU_FLAG_HUGE_OK;
          (_, s) \<leftarrow> pmap_map_range s t phys phys flags (me_length e);
          (_, s) \<leftarrow> pmap_map_range s t (phys_to_higher_half_data s phys) phys flags (me_length e);
          Some s
        })"

fun map_entries :: "page_table_t \<Rightarrow> memory_map_entry_t list \<Rightarrow> kstate \<Rightarrow> kstate option" where
  "map_entries t [] s = Some s"
| "map_entries t (e # es) s = do { s \<leftarrow> map_entry t e s; map_entries t es s }"

text \<open>\<open>KSECT\<close>.\<close>

definition map_section :: "page_table_t \<Rightarrow> kernel_image \<Rightarrow> u64 \<Rightarrow> u64 \<Rightarrow> u32 \<Rightarrow> kstate \<Rightarrow> kstate option" where
  "map_section t img lo hi flags s =
     do {
       (_, s) \<leftarrow> pmap_map_range s t lo (kernel_phys img + (lo - kernel_start img)) flags (hi - lo);
       Some s
     }"

definition map_kernel :: "page_table_t \<Rightarrow> memory_map_t \<Rightarrow> kernel_image \<Rightarrow> kstate \<Rightarrow> kstate option" where
  "map_kernel t mm img s =
     do {
       let n = unat (entry_count mm);
       s \<leftarrow> (if n \<le> length (mm_entries mm) then map_entries t (take n (mm_entries mm)) s else None);
       s \<leftarrow> map_section t img (kernel_start img) (text_start img) MMU_FLAG_NO_EXEC s;
       s \<leftarrow> map_section t img (text_start img) (text_end img) 0 s;
       s \<leftarrow> map_section t img (rodata_start img) (rodata_end img) MMU_FLAG_NO_EXEC s;
       map_section t img (data_start img) (kernel_end img) (MMU_FLAG_WRITE OR MMU_FLAG_NO_EXEC) s
     }"

definition init_pmap :: "memory_map_t \<Rightarrow> kernel_image \<Rightarrow> kstate \<Rightarrow> (vm_map \<times> kstate) outcome option" where
  "init_pmap mm img s =
     do {
       (space, s) \<leftarrow> vm_map_create s;
       case space of
         None \<Rightarrow> Some Halted
       | Some m \<Rightarrow>
           do {
             let s = s\<lparr>kernel_pml4 := pml4_virt (vm_pt m)\<rparr>;
             s \<leftarrow> map_kernel (vm_pt m) mm img s;
             Some (Running (m, s))
           }
     }"

partial_function (option) map_mmio_loop :: "page_table_t \<Rightarrow> u64 \<Rightarrow> u64 \<Rightarrow> u64 \<Rightarrow> u64 \<Rightarrow> kstate \<Rightarrow> kstate option" where
  "map_mmio_loop t virt phys sz off s =
     (if off < sz then
        do {
          (_, s) \<leftarrow> pmap_map_page s t (virt + off) (phys + off) (MMU_FLAG_WRITE OR MMU_FLAG_NO_EXEC OR MMU_FLAG_UC);
          map_mmio_loop t virt phys sz (off + PAGE_SIZE) s
        }
      else Some s)"

definition pmap_map_mmio :: "page_table_t \<Rightarrow> u64 \<Rightarrow> u64 \<Rightarrow> kstate \<Rightarrow> kstate option" where
  "pmap_map_mmio t phys sz s = (let virt = phys + hhdm s; sz = ALIGN_UP sz PAGE_SIZE in map_mmio_loop t virt phys sz 0 s)"

section \<open>Mapping for the ACPI library\<close>

definition uacpi_kernel_get_rsdp :: "kstate \<Rightarrow> u64 \<Rightarrow> u64" where
  "uacpi_kernel_get_rsdp s rsdp = higher_half_data_to_phys s rsdp"

definition uacpi_kernel_map :: "kstate \<Rightarrow> vm_map option \<Rightarrow> u64 \<Rightarrow> u64 \<Rightarrow> (u64 \<times> vm_map option \<times> kstate) option" where
  "uacpi_kernel_map s kernel_vm_map addr len =
     (let phys = ALIGN_DOWN addr PAGE_SIZE; offset = addr - phys; sz = ALIGN_UP (offset + len) PAGE_SIZE in
      do {
        (virt, kernel_vm_map, s) \<leftarrow> vm_map_allocate s kernel_vm_map sz (MMU_FLAG_WRITE OR MMU_FLAG_NO_EXEC);
        if virt = 0 then Some (0, kernel_vm_map, s)
        else
          do {
            m \<leftarrow> kernel_vm_map;
            (_, s) \<leftarrow> pmap_map_range s (vm_pt m) virt phys (MMU_FLAG_NO_EXEC OR MMU_FLAG_WRITE) sz;
            Some (virt + offset, kernel_vm_map, s)
          }
      })"

partial_function (option) unmap_pages :: "page_table_t \<Rightarrow> u64 \<Rightarrow> u64 \<Rightarrow> u64 \<Rightarrow> kstate \<Rightarrow> kstate option" where
  "unmap_pages t virt sz i s =
     (if i < sz then
        do { (_, s) \<leftarrow> pmap_unmap_page s t virt; unmap_pages t (virt + PAGE_SIZE) sz (i + PAGE_SIZE) s }
      else Some s)"

definition uacpi_kernel_unmap :: "kstate \<Rightarrow> vm_map option \<Rightarrow> u64 \<Rightarrow> u64 \<Rightarrow> (vm_map option \<times> kstate) option" where
  "uacpi_kernel_unmap s kernel_vm_map addr len =
     (let virt = ALIGN_DOWN addr PAGE_SIZE; offset = addr - virt; sz = ALIGN_UP (offset + len) PAGE_SIZE in
      do {
        (kernel_vm_map, s) \<leftarrow> vm_map_free_region s kernel_vm_map virt sz;
        if sz = 0 then Some (kernel_vm_map, s)
        else
          do {
            m \<leftarrow> kernel_vm_map;
            s \<leftarrow> unmap_pages (vm_pt m) virt sz 0 s;
            Some (kernel_vm_map, s)
          }
      })"

end
