(* ===== verification/Kernel_Map_Props.thy ===== *)
theory Kernel_Map_Props
  imports Kernel_Map Vm_Props Kmalloc_Ops
begin

text \<open>
  What the kernel's own mappings guarantee: none is writable and executable, none is open to user
  mode.
\<close>

section \<open>The initial mappings\<close>

text \<open>A range that \<open>pmap_map_range\<close> can map without leaving the address spaces.\<close>

definition range_ok :: "u64 \<Rightarrow> u64 \<Rightarrow> u64 \<Rightarrow> bool" where
  "range_ok va phys len \<longleftrightarrow> unat va + unat len + 4095 < 2 ^ 64 \<and> unat len \<le> 2 ^ 47 \<and> unat phys + unat len + 8192 \<le> 2 ^ 52"

definition entry_ok :: "u64 \<Rightarrow> memory_map_entry_t \<Rightarrow> bool" where
  "entry_ok hh e \<longleftrightarrow> range_ok (me_base e) (me_base e) (me_length e) \<and> range_ok (hh + me_base e) (me_base e) (me_length e)"

definition section_ok :: "kernel_image \<Rightarrow> u64 \<Rightarrow> u64 \<Rightarrow> bool" where
  "section_ok img lo hi \<longleftrightarrow> range_ok lo (kernel_phys img + (lo - kernel_start img)) (hi - lo)"

definition image_ok :: "kernel_image \<Rightarrow> bool" where
  "image_ok img \<longleftrightarrow> section_ok img (kernel_start img) (text_start img) \<and> section_ok img (text_start img) (text_end img)
     \<and> section_ok img (rodata_start img) (rodata_end img) \<and> section_ok img (data_start img) (kernel_end img)"

text \<open>Access bits that allow no writing to executable pages and nothing to user mode.\<close>

definition safe_bits :: "u64 \<Rightarrow> bool" where
  "safe_bits fl \<longleftrightarrow> (fl AND PAGE_RW \<noteq> 0 \<longrightarrow> fl AND PAGE_XD \<noteq> 0) \<and> fl AND PAGE_USER = 0"

definition safe_table :: "kstate \<Rightarrow> u64 \<Rightarrow> bool" where
  "safe_table s root \<longleftrightarrow> (\<forall>va p fl. translate s root va = Some (p, fl) \<longrightarrow> safe_bits fl)"

definition safe_space :: "u64 \<Rightarrow> kstate \<Rightarrow> kstate \<Rightarrow> bool" where
  "safe_space root s0 s \<longleftrightarrow> (\<exists>lv. pt_wf s lv root) \<and> hhdm s = hhdm s0 \<and> kernel_pml4 s = kernel_pml4 s0 \<and> safe_table s root"

lemma map_range_safe:
  assumes "safe_space (pml4_virt t) s0 s" "range_ok va phys len" "safe_bits (parse_common_flags flags)"
  obtains m s' where "pmap_map_range s t va phys flags len = Some (m, s')" "safe_space (pml4_virt t) s0 s'"
proof -
  obtain lv where lv: "pt_wf s lv (pml4_virt t)" using assms(1) by (auto simp: safe_space_def)
  obtain d s' where "pmap_map_range s t va phys flags len = Some (d, s')"
    and e: "map_effect (pml4_virt t) s lv (ALIGN_DOWN va PAGE_SIZE) (ALIGN_DOWN phys PAGE_SIZE) (parse_common_flags flags) (unat d) s'"
    by (rule map_range_correct [OF lv, of va len phys flags]) (use assms(2) in \<open>auto simp: range_ok_def\<close>)
  moreover have "safe_space (pml4_virt t) s0 s'"
    using e assms(1,3) by (auto simp: safe_space_def safe_table_def map_effect_def maps_def pt_frame_def split: if_splits)
  ultimately show thesis using that by blast
qed

lemma safe_flags:
  "safe_bits (parse_common_flags (MMU_FLAG_WRITE OR MMU_FLAG_NO_EXEC OR MMU_FLAG_HUGE_OK))"
  "safe_bits (parse_common_flags MMU_FLAG_NO_EXEC)" "safe_bits (parse_common_flags 0)"
  "safe_bits (parse_common_flags (MMU_FLAG_WRITE OR MMU_FLAG_NO_EXEC))"
  by (simp_all add: safe_bits_def parse_common_flags_def Let_def PAGE_PRESENT_def PAGE_RW_def PAGE_USER_def PAGE_XD_def PAGE_PCD_def PAGE_PWT_def
    MMU_FLAG_WRITE_def MMU_FLAG_NO_EXEC_def MMU_FLAG_USER_def MMU_FLAG_UC_def MMU_FLAG_HUGE_OK_def)

lemma map_entries_safe:
  assumes "safe_space (pml4_virt t) s0 s" "\<forall>e\<in>set es. entry_ok (hhdm s0) e"
  shows "\<exists>s'. map_entries t es s = Some s' \<and> safe_space (pml4_virt t) s0 s'"
  using assms
proof (induction es arbitrary: s)
  case (Cons e es)
  note ok = Cons.prems
  show ?case
  proof (cases "me_type e = MEMMAP_BAD_MEMORY \<or> me_type e = MEMMAP_EXECUTABLE_AND_MODULES")
    case True
    then show ?thesis using Cons.IH [OF ok(1)] ok(2) by (simp add: map_entry_def)
  next
    case False
    have r: "range_ok (me_base e) (me_base e) (me_length e)" "range_ok (hhdm s0 + me_base e) (me_base e) (me_length e)"
      using ok(2) by (simp_all add: entry_ok_def)
    obtain m1 s1 where s1: "pmap_map_range s t (me_base e) (me_base e) (MMU_FLAG_WRITE OR MMU_FLAG_NO_EXEC OR MMU_FLAG_HUGE_OK) (me_length e) = Some (m1, s1)"
      "safe_space (pml4_virt t) s0 s1" by (rule map_range_safe [OF ok(1) r(1) safe_flags(1)])
    obtain m2 s2 where s2: "pmap_map_range s1 t (hhdm s0 + me_base e) (me_base e) (MMU_FLAG_WRITE OR MMU_FLAG_NO_EXEC OR MMU_FLAG_HUGE_OK) (me_length e) = Some (m2, s2)"
      "safe_space (pml4_virt t) s0 s2" by (rule map_range_safe [OF s1(2) r(2) safe_flags(1)])
    have "hhdm s1 = hhdm s0" using s1(2) by (simp add: safe_space_def)
    then have "map_entry t e s = Some s2" using False s1(1) s2(1) by (simp add: map_entry_def phys_to_higher_half_data_def)
    then show ?thesis using Cons.IH [OF s2(2)] ok(2) by simp
  qed
qed simp

lemma map_section_safe:
  assumes "safe_space (pml4_virt t) s0 s" "section_ok img lo hi" "safe_bits (parse_common_flags flags)"
  obtains s' where "map_section t img lo hi flags s = Some s'" "safe_space (pml4_virt t) s0 s'"
proof -
  obtain m s' where "pmap_map_range s t lo (kernel_phys img + (lo - kernel_start img)) flags (hi - lo) = Some (m, s')" "safe_space (pml4_virt t) s0 s'"
    by (rule map_range_safe [OF assms(1) _ assms(3)]) (use assms(2) in \<open>auto simp: section_ok_def\<close>)
  then show thesis by (intro that [of s']) (simp_all add: map_section_def)
qed

lemma map_kernel_safe:
  assumes "safe_space (pml4_virt t) s0 s" "image_ok img" "unat (entry_count mm) \<le> length (mm_entries mm)"
    "\<forall>e\<in>set (take (unat (entry_count mm)) (mm_entries mm)). entry_ok (hhdm s0) e"
  shows "\<exists>s'. map_kernel t mm img s = Some s' \<and> safe_space (pml4_virt t) s0 s'"
proof -
  obtain sa where s0: "map_entries t (take (unat (entry_count mm)) (mm_entries mm)) s = Some sa" "safe_space (pml4_virt t) s0 sa"
    using map_entries_safe [OF assms(1,4)] by blast
  have i: "section_ok img (kernel_start img) (text_start img)" "section_ok img (text_start img) (text_end img)"
    "section_ok img (rodata_start img) (rodata_end img)" "section_ok img (data_start img) (kernel_end img)"
    using assms(2) by (simp_all add: image_ok_def)
  obtain s1 where s1: "map_section t img (kernel_start img) (text_start img) MMU_FLAG_NO_EXEC sa = Some s1" "safe_space (pml4_virt t) s0 s1"
    by (rule map_section_safe [OF s0(2) i(1) safe_flags(2)])
  obtain s2 where s2: "map_section t img (text_start img) (text_end img) 0 s1 = Some s2" "safe_space (pml4_virt t) s0 s2"
    by (rule map_section_safe [OF s1(2) i(2) safe_flags(3)])
  obtain s3 where s3: "map_section t img (rodata_start img) (rodata_end img) MMU_FLAG_NO_EXEC s2 = Some s3" "safe_space (pml4_virt t) s0 s3"
    by (rule map_section_safe [OF s2(2) i(3) safe_flags(2)])
  obtain s4 where s4: "map_section t img (data_start img) (kernel_end img) (MMU_FLAG_WRITE OR MMU_FLAG_NO_EXEC) s3 = Some s4" "safe_space (pml4_virt t) s0 s4"
    by (rule map_section_safe [OF s3(2) i(4) safe_flags(4)])
  then show ?thesis using s0 s1 s2 s3 assms(3) by (simp add: map_kernel_def Let_def)
qed

text \<open>The table and image of the examples: one usable entry, a kernel of four sections.\<close>

definition img_sample :: kernel_image where
  "img_sample = \<lparr>kernel_start = 0xFFFFFFFF80000000, text_start = 0xFFFFFFFF80001000, text_end = 0xFFFFFFFF80003000,
     rodata_start = 0xFFFFFFFF80003000, rodata_end = 0xFFFFFFFF80004000, data_start = 0xFFFFFFFF80004000,
     kernel_end = 0xFFFFFFFF80006000, kernel_phys = 0x200000\<rparr>"

definition memmap_sample :: memory_map_t where
  "memmap_sample = \<lparr>mm_entries = [\<lparr>me_base = 0x100000, me_length = 0x100000, me_type = MEMMAP_USABLE\<rparr>,
     \<lparr>me_base = 0x200000, me_length = 0x6000, me_type = MEMMAP_EXECUTABLE_AND_MODULES\<rparr>], entry_count = 2\<rparr>"

end
