(* ===== verification/Space_Props.thy ===== *)
theory Space_Props
  imports Vm_Create Kernel_Map_Props
begin

text \<open>
  Address spaces as a whole: what \<open>vm_map_create\<close> returns, and the address space the kernel boots with,
  from \<open>init_vm\<close> and \<open>init_pmap\<close> on.
\<close>

lemma translate_walk: "walk s' 4 b va = walk s 4 a va \<Longrightarrow> translate s' b va = translate s a va"
  by (simp add: translate_def)

lemma shares_translate:
  "shares_kernel s s' b \<Longrightarrow> translate s' b va =
     (if kernel_pml4 s \<noteq> 0 \<and> 256 \<le> unat (level_idx 4 va) then translate s (kernel_pml4 s) va else None)"
  by (simp add: shares_kernel_def translate_def)

lemma kept_translate:
  assumes "kernel_side s lv" "kernel_pml4 s \<noteq> 0" "tree_kept lv s s'"
  shows "translate s' (kernel_pml4 s) va = translate s (kernel_pml4 s) va"
proof -
  have wf: "pt_wf s lv (kernel_pml4 s)" using assms(1,2) by (simp add: kernel_side_def)
  show ?thesis by (rule translate_walk, rule tree_kept_wf(2) [OF wf assms(3) pt_wfD(2) [OF wf]]) simp
qed

section \<open>From no tables to the kernel's own\<close>

lemma init_vm_ready:
  assumes "k_inv s" "vm_area_cache s = None" "vm_map_cache s = None" "page_table_cache s = None" "kernel_pml4 s = 0"
    "cache_pool_idx s + 3 \<le> length (cache_pool s)"
  obtains s' where "init_vm s = Some s'" "create_ready (\<lambda>_. 0) s'" "kernel_pml4 s' = 0" "hhdm s' = hhdm s"
proof -
  let ?c = "cache_pool_idx s"
  have i: "?c < length (cache_pool s)" "unat (48 :: u64) \<le> 4064" using assms(6) by simp_all
  obtain s1 where s1: "kmem_cache_create s 48 = Some (?c, s1)" "cache_rep ?c s1 {}" "cache_pool_idx s1 = Suc ?c" "length (cache_pool s1) = length (cache_pool s)"
    "pmm s1 = pmm s" "hhdm s1 = hhdm s"
    using kmem_cache_create_correct [OF assms(1) i] by blast
  have h: "vm_map_cache s1 = None" "page_table_cache s1 = None" "kernel_pml4 s1 = 0"
    using s1(1) assms(3-5) by (auto simp: kmem_cache_create_def Let_def put_cache_def split: if_splits)
  define s2 where "s2 = s1\<lparr>vm_area_cache := Some ?c\<rparr>"
  have inv2: "k_inv s2" using assms(1) k_of_pmm(3) [of s2 s] s1(5,6) by (simp add: s2_def)
  have i2: "cache_pool_idx s2 < length (cache_pool s2)" using s1(3,4) assms(6) by (simp add: s2_def)
  obtain s3 where s3: "kmem_cache_create s2 16 = Some (cache_pool_idx s2, s3)" "cache_off (\<lambda>_. 0) (cache_pool_idx s2) s3 {}"
    "pmm s3 = pmm s2" "hhdm s3 = hhdm s2" "kernel_pml4 s3 = kernel_pml4 s2" "page_table_cache s3 = page_table_cache s2"
    "length (cache_pool s3) = length (cache_pool s2)" "cache_pool_idx s3 = Suc (cache_pool_idx s2)"
    by (rule create_cache_16 [OF inv2 i2]) (rule that)
  have run: "init_vm s = Some (s3\<lparr>vm_map_cache := Some (Suc ?c)\<rparr>)"
    using s1(1,3) s3(1) assms(2) h(1) by (simp add: init_vm_def s2_def)
  have "k_inv s3" using k_of_pmm(3) [OF s3(3,4)] inv2 by simp
  then have "create_ready (\<lambda>_. 0) (s3\<lparr>vm_map_cache := Some (Suc ?c)\<rparr>)"
    unfolding create_ready_def using s3 s1(3,4) h assms(6)
    by (auto simp: kernel_side_def table_cache_ok_def table_cache_def s2_def k_inv_def intro!: exI [of _ "{}"])
  then show thesis using run s3(4,5) s1(6) h(3) by (intro that [OF run]) (simp_all add: s2_def)
qed

section \<open>Properties\<close>

text \<open>
  C13: creating an address space next to the kernel's either fails and returns no space, or returns one
  without areas whose root is a new page. In the upper half of the address space it translates exactly as the
  kernel's tables do, in the lower half nothing is mapped, its tables are well formed, and either way
  the kernel's own translations are as before.
\<close>

theorem vm_map_create_spec:
  assumes "create_ready lv s" and "kernel_pml4 s \<noteq> 0"
  shows "\<exists>r s'. vm_map_create s = Some (r, s') \<and> kernel_pml4 s' = kernel_pml4 s
    \<and> (\<forall>va. translate s' (kernel_pml4 s) va = translate s (kernel_pml4 s) va)
    \<and> (\<forall>m. r = Some m \<longrightarrow> areas m = [] \<and> lv (pml4_virt (vm_pt m)) = 0
         \<and> (\<exists>lv'. pt_wf s' lv' (pml4_virt (vm_pt m)))
         \<and> (\<forall>va. translate s' (pml4_virt (vm_pt m)) va =
              (if 256 \<le> unat (level_idx 4 va) then translate s (kernel_pml4 s) va else None)))"
proof (cases rule: vm_map_create_correct [OF assms(1)])
  have ks: "kernel_side s lv" using assms(1) by (simp add: create_ready_def)
  note kt = kept_translate [OF ks assms(2)]
  case (1 s')
  then show ?thesis using kt by auto
next
  have ks: "kernel_side s lv" using assms(1) by (simp add: create_ready_def)
  note kt = kept_translate [OF ks assms(2)]
  case (2 m s')
  then show ?thesis using kt [OF 2(2)] shares_translate [OF 2(7)] assms(2) by auto
qed

text \<open>The example: a kernel root next to an empty cache of maps.\<close>

definition space_sample :: kstate where
  "space_sample = (snd (the (kmem_cache_create pt_sample 16)))\<lparr>kernel_pml4 := pml4_virt pt_table, vm_map_cache := Some 0\<rparr>"

lemma space_sample_ready: "create_ready pt_levels space_sample"
proof -
  have i: "cache_pool_idx pt_sample = 0" "length (cache_pool pt_sample) = 64" "page_table_cache pt_sample = None"
    by (simp_all add: pt_sample_def k_sample_def)
  obtain s where s: "kmem_cache_create pt_sample 16 = Some (0, s)" "cache_off pt_levels 0 s {}" "pmm s = pmm pt_sample" "mem s = mem pt_sample"
    "hhdm s = hhdm pt_sample" "page_table_cache s = None" "length (cache_pool s) = 64" "cache_pool_idx s = 1"
    using create_cache_16 [OF pt_wfD(1) [OF pt_sample_wf], of pt_levels] i by auto
  have e: "space_sample = s\<lparr>kernel_pml4 := pml4_virt pt_table, vm_map_cache := Some 0\<rparr>" by (simp add: space_sample_def s(1))
  have "tree_kept pt_levels pt_sample space_sample"
    by (rule cells_kept [OF pt_sample_wf]) (simp_all add: e s)
  then have wf: "pt_wf space_sample pt_levels (pml4_virt pt_table)" by (rule tree_kept_wf(1) [OF pt_sample_wf])
  then have "kernel_side space_sample pt_levels" by (simp add: kernel_side_def e pt_wfD(1)) (simp add: pt_table_def pt_root_def)
  moreover have "cache_off pt_levels 0 space_sample {}"
    using s(2) by (simp add: e)
  ultimately show ?thesis unfolding create_ready_def
    by (auto simp: table_cache_ok_def table_cache_def e s intro!: exI [of _ "{}"])
qed

theorem vm_map_create_spec_witness:
  "\<exists>r s'. vm_map_create space_sample = Some (r, s') \<and> kernel_pml4 s' = pt_root"
proof -
  have k: "kernel_pml4 space_sample = pt_root" by (simp add: space_sample_def pt_table_def)
  then have "kernel_pml4 space_sample \<noteq> 0" by (simp add: pt_root_def)
  from vm_map_create_spec [OF space_sample_ready this] show ?thesis using k by auto
qed

text \<open>
  C14: the address space the kernel boots with is protected. From a state with free pages and no address space,
  \<open>init_vm\<close> returns, and \<open>init_pmap\<close> either halts for want of memory or returns with the kernel's tables well
  formed, set as the kernel's own, and free of addresses that are writable and executable or open to user mode.
\<close>

theorem init_pmap_protected:
  assumes "k_inv s" and "vm_area_cache s = None" and "vm_map_cache s = None" and "page_table_cache s = None"
    and "kernel_pml4 s = 0" and "cache_pool_idx s + 3 \<le> length (cache_pool s)"
    and "image_ok img" and "unat (entry_count mm) \<le> length (mm_entries mm)"
    and "\<forall>e\<in>set (take (unat (entry_count mm)) (mm_entries mm)). entry_ok (hhdm s) e"
  shows "\<exists>s1. init_vm s = Some s1 \<and>
    (init_pmap mm img s1 = Some Halted
     \<or> (\<exists>m s' lv. init_pmap mm img s1 = Some (Running (m, s')) \<and> kernel_pml4 s' = pml4_virt (vm_pt m)
          \<and> pt_wf s' lv (pml4_virt (vm_pt m))
          \<and> (\<forall>va p fl. translate s' (pml4_virt (vm_pt m)) va = Some (p, fl) \<longrightarrow>
               (fl AND PAGE_RW = 0 \<or> fl AND PAGE_XD \<noteq> 0) \<and> fl AND PAGE_USER = 0)))"
proof -
  obtain s1 where s1: "init_vm s = Some s1" "create_ready (\<lambda>_. 0) s1" "kernel_pml4 s1 = 0" "hhdm s1 = hhdm s"
    by (rule init_vm_ready [OF assms(1-6)]) (rule that)
  show ?thesis
  proof (cases rule: vm_map_create_correct [OF s1(2)])
    case (1 s')
    then show ?thesis using s1(1) by (auto simp: init_pmap_def)
  next
    case c: (2 m s2)
    let ?b = "pml4_virt (vm_pt m)"
    define s3 where "s3 = s2\<lparr>kernel_pml4 := ?b\<rparr>"
    have "tree_kept (new_levels (\<lambda>_. 0) (kernel_pml4 s1) ?b) s2 s3"
      by (rule cells_kept [OF c(6)]) (simp_all add: s3_def)
    note w = tree_kept_wf [OF c(6) this]
    have "translate s3 ?b va = None" for va
      using translate_walk [OF w(2) [of ?b 4 va]] shares_translate [OF c(7), of va] s1(3) by (simp add: new_levels_def)
    then have safe: "safe_space ?b s3 s3" using w(1) by (auto simp: safe_space_def safe_table_def)
    have hh: "hhdm s3 = hhdm s" using c(2) s1(4) by (simp add: s3_def tree_kept_def)
    obtain s' where s': "map_kernel (vm_pt m) mm img s3 = Some s'" "safe_space ?b s3 s'"
      using map_kernel_safe [OF safe assms(7,8)] assms(9) hh by auto
    have "init_pmap mm img s1 = Some (Running (m, s'))" using c(1) s'(1) by (simp add: init_pmap_def s3_def Let_def)
    moreover have "kernel_pml4 s' = ?b" using s'(2) by (simp add: safe_space_def s3_def)
    ultimately show ?thesis using s1(1) s'(2) by (fastforce simp: safe_space_def safe_table_def safe_bits_def)
  qed
qed

theorem init_pmap_protected_witness: "\<exists>s1. init_vm k_sample = Some s1 \<and> (\<exists>r. init_pmap memmap_sample img_sample s1 = Some r)"
proof -
  have "vm_area_cache k_sample = None" "vm_map_cache k_sample = None" "page_table_cache k_sample = None"
    "kernel_pml4 k_sample = 0" "cache_pool_idx k_sample + 3 \<le> length (cache_pool k_sample)" by (simp_all add: k_sample_def)
  moreover have "image_ok img_sample" by (simp add: image_ok_def section_ok_def range_ok_def img_sample_def)
  moreover have "unat (entry_count memmap_sample) \<le> length (mm_entries memmap_sample)" by (simp add: memmap_sample_def)
  moreover have "\<forall>e\<in>set (take (unat (entry_count memmap_sample)) (mm_entries memmap_sample)). entry_ok (hhdm k_sample) e"
    by (simp add: memmap_sample_def entry_ok_def range_ok_def k_sample_def)
  ultimately show ?thesis using init_pmap_protected [OF k_sample_inv] by blast
qed

end
