(* ===== verification/Strings.thy ===== *)
theory Strings
  imports Loops
begin

text \<open>
  The memory and string functions, \<^verbatim>\<open>src/kernel/kernel/lib/string/\<close> and their copies in
  \<^verbatim>\<open>src/libc/string/\<close>. Memory is a function from addresses to bytes; a function that writes returns the
  new memory. The address it returns is its first argument and is left out.
\<close>

type_synonym bytes = "u64 \<Rightarrow> u8"

definition copy_byte :: "u64 \<Rightarrow> u64 \<Rightarrow> u64 \<Rightarrow> bytes \<Rightarrow> bytes" where
  "copy_byte dest src i m = m(dest + i := m (src + i))"

definition memcpy :: "u64 \<Rightarrow> u64 \<Rightarrow> u64 \<Rightarrow> bytes \<Rightarrow> bytes option" where
  "memcpy dest src n m = for_up 0 n (\<lambda>i m. Some (copy_byte dest src i m)) m"

definition memset :: "u64 \<Rightarrow> u32 \<Rightarrow> u64 \<Rightarrow> bytes \<Rightarrow> bytes option" where
  "memset s c n m = for_up 0 n (\<lambda>i m. Some (m(s + i := ucast c))) m"

text \<open>The downward loop of \<open>memmove\<close>.\<close>

function copy_down :: "u64 \<Rightarrow> u64 \<Rightarrow> u64 \<Rightarrow> bytes \<Rightarrow> bytes" where
  "copy_down dest src i m = (if i \<noteq> 0 then copy_down dest src (i - 1) (copy_byte dest src (i - 1) m) else m)"
  by pat_completeness auto
termination by (relation "measure (\<lambda>(dest, src, i, m). unat i)") (auto simp: unat_minus_one unat_gt_0)

declare copy_down.simps [simp del]

definition memmove :: "u64 \<Rightarrow> u64 \<Rightarrow> u64 \<Rightarrow> bytes \<Rightarrow> bytes option" where
  "memmove dest src n m =
     (if dest < src then for_up 0 n (\<lambda>i m. Some (copy_byte dest src i m)) m
      else Some (copy_down dest src n m))"

function memcmp_loop :: "bytes \<Rightarrow> u64 \<Rightarrow> u64 \<Rightarrow> u64 \<Rightarrow> u64 \<Rightarrow> int" where
  "memcmp_loop m s1 s2 n i =
     (if i < n then
        if m (s1 + i) \<noteq> m (s2 + i) then (if m (s1 + i) < m (s2 + i) then - 1 else 1)
        else memcmp_loop m s1 s2 n (i + 1)
      else 0)"
  by pat_completeness auto
termination by (relation "measure (\<lambda>(m, s1, s2, n, i). unat n - unat i)") auto

declare memcmp_loop.simps [simp del]

definition memcmp :: "bytes \<Rightarrow> u64 \<Rightarrow> u64 \<Rightarrow> u64 \<Rightarrow> int" where
  "memcmp m s1 s2 n = memcmp_loop m s1 s2 n 0"

partial_function (option) strlen_loop :: "bytes \<Rightarrow> u64 \<Rightarrow> u64 \<Rightarrow> u64 option" where
  "strlen_loop m s len = (if m (s + len) \<noteq> 0 then strlen_loop m s (len + 1) else Some len)"

definition strlen :: "bytes \<Rightarrow> u64 \<Rightarrow> u64 option" where
  "strlen m s = strlen_loop m s 0"

section \<open>What they do\<close>

text \<open>Bytes \<open>lo .. hi\<close> of the destination hold those of the source, all others are as before.\<close>

definition copied :: "u64 \<Rightarrow> u64 \<Rightarrow> nat \<Rightarrow> nat \<Rightarrow> bytes \<Rightarrow> bytes \<Rightarrow> bool" where
  "copied dest src lo hi m m' \<longleftrightarrow>
     (\<forall>a. m' a = (if lo \<le> unat (a - dest) \<and> unat (a - dest) < hi then m (src + (a - dest)) else m a))"

lemma offset: "unat (dest + i - dest) = unat i" "(a - dest = i) = (a = dest + i)" for dest :: u64
  by (auto simp: algebra_simps)

lemma copy_up:
  assumes clear: "\<And>i. i < n \<Longrightarrow> unat i \<le> unat (src + i - dest)"
  shows "\<exists>m'. for_up 0 n (\<lambda>i m. Some (copy_byte dest src i m)) m = Some m' \<and> copied dest src 0 (unat n) m m'"
proof -
  have "\<exists>m'. for_up 0 n (\<lambda>i m. Some (copy_byte dest src i m)) m = Some m' \<and> copied dest src 0 (unat n) m m'"
  proof (rule for_up_rule [where P = "\<lambda>k. copied dest src 0 k m"])
    show "copied dest src 0 (unat (0 :: u64)) m m" by (simp add: copied_def)
    fix i :: u64 and m' assume i: "i < n" and c: "copied dest src 0 (unat i) m m'"
    have "m' (src + i) = m (src + i)" using c clear [OF i] by (simp add: copied_def)
    moreover have "unat (a - dest) < Suc (unat i) \<longleftrightarrow> unat (a - dest) < unat i \<or> a = dest + i" for a
      using offset(2) [of a dest i] by (auto simp: less_Suc_eq word_unat_eq_iff)
    ultimately have "copied dest src 0 (Suc (unat i)) m (copy_byte dest src i m')"
      using c by (auto simp: copied_def copy_byte_def)
    then show "\<exists>s'. Some (copy_byte dest src i m') = Some s' \<and> copied dest src 0 (Suc (unat i)) m s'" by blast
  qed simp
  then show ?thesis .
qed

lemma copy_down_step:
  assumes clear: "\<And>i. i < n \<Longrightarrow> unat (src + i - dest) \<le> unat i \<or> unat n \<le> unat (src + i - dest)"
    and "i \<le> n" "copied dest src (unat i) (unat n) m m'"
  shows "copied dest src 0 (unat n) m (copy_down dest src i m')"
  using assms(2,3)
proof (induction "unat i" arbitrary: i m')
  case 0
  then have "i = 0" by (simp add: unat_eq_0)
  then show ?case using 0(3) by (simp add: copy_down.simps)
next
  case (Suc k)
  then have i0: "i \<noteq> 0" by auto
  then have u: "unat (i - 1) = k" using Suc.hyps(2) by (simp add: unat_minus_one)
  have lt: "i - 1 < n" using Suc.prems(1) Suc.hyps(2) u by (simp add: word_less_nat_alt word_le_nat_alt)
  have c: "copied dest src (Suc k) (unat n) m m'" using Suc.prems(2) Suc.hyps(2) by simp
  have "m' (src + (i - 1)) = m (src + (i - 1))"
    using c clear [OF lt] u by (auto simp: copied_def)
  moreover have "k \<le> unat (a - dest) \<and> unat (a - dest) < unat n \<longleftrightarrow>
      Suc k \<le> unat (a - dest) \<and> unat (a - dest) < unat n \<or> a = dest + (i - 1)" for a
    using offset(2) [of a dest "i - 1"] u lt by (auto simp: word_less_nat_alt word_unat_eq_iff le_eq_less_or_eq Suc_le_eq)
  ultimately have "copied dest src k (unat n) m (copy_byte dest src (i - 1) m')"
    using c by (auto simp: copied_def copy_byte_def)
  then have "copied dest src 0 (unat n) m (copy_down dest src (i - 1) (copy_byte dest src (i - 1) m'))"
    using Suc.hyps(1) [of "i - 1"] u lt by (simp add: word_le_nat_alt word_less_nat_alt)
  then show ?case using i0 by (subst copy_down.simps) simp
qed

lemma unat_shifted:
  fixes src dest i :: u64
  assumes "unat src + unat i < 2 ^ 64"
  shows "unat (src + i - dest) =
    (if unat dest \<le> unat src + unat i then unat src + unat i - unat dest else 2 ^ 64 + unat src + unat i - unat dest)"
proof -
  have u: "unat (src + i) = unat src + unat i" using assms by (simp add: unat_add_no_wrap)
  show ?thesis
  proof (cases "unat dest \<le> unat (src + i)")
    case True
    then show ?thesis using u by (simp add: unat_sub word_le_nat_alt)
  next
    case False
    then have "unat (src + i - dest) = 2 ^ 64 + unat (src + i) - unat dest"
      by (simp add: unat_sub_if_size word_size)
    then show ?thesis using False u by simp
  qed
qed

lemma memmove_correct:
  assumes "unat dest + unat n \<le> 2 ^ 64" and "unat src + unat n \<le> 2 ^ 64"
  shows "\<exists>m'. memmove dest src n m = Some m' \<and> copied dest src 0 (unat n) m m'"
proof -
  have s: "unat (src + i - dest) =
      (if unat dest \<le> unat src + unat i then unat src + unat i - unat dest else 2 ^ 64 + unat src + unat i - unat dest)" if "i < n" for i
    by (rule unat_shifted) (use that assms(2) in \<open>simp add: word_less_nat_alt\<close>)
  show ?thesis
  proof (cases "dest < src")
    case True
    have "unat i \<le> unat (src + i - dest)" if "i < n" for i
      using True s [OF that] by (simp add: word_less_nat_alt)
    then show ?thesis using copy_up [of n src dest m] True by (simp add: memmove_def)
  next
    case False
    have "unat (src + i - dest) \<le> unat i \<or> unat n \<le> unat (src + i - dest)" if "i < n" for i
      using False s [OF that] assms(1) that by (auto simp: word_less_nat_alt)
    then have "copied dest src 0 (unat n) m (copy_down dest src n m)"
      by (rule copy_down_step) (auto simp: copied_def)
    then show ?thesis using False by (simp add: memmove_def)
  qed
qed

section \<open>The others\<close>

lemma memcpy_correct:
  assumes "unat src + unat n \<le> 2 ^ 64" "unat dest + unat n \<le> unat src \<or> unat src + unat n \<le> unat dest" "unat dest + unat n \<le> 2 ^ 64"
  shows "memcpy dest src n m = memmove dest src n m"
    "\<exists>m'. memcpy dest src n m = Some m' \<and> copied dest src 0 (unat n) m m'"
proof -
  have "unat i \<le> unat (src + i - dest)" if "i < n" for i
  proof -
    have "unat (src + i - dest) =
      (if unat dest \<le> unat src + unat i then unat src + unat i - unat dest else 2 ^ 64 + unat src + unat i - unat dest)"
      by (rule unat_shifted) (use that assms(1) in \<open>simp add: word_less_nat_alt\<close>)
    then show ?thesis using assms that by (auto simp: word_less_nat_alt)
  qed
  then show c: "\<exists>m'. memcpy dest src n m = Some m' \<and> copied dest src 0 (unat n) m m'"
    unfolding memcpy_def by (rule copy_up)
  obtain m' where m': "memmove dest src n m = Some m'" "copied dest src 0 (unat n) m m'" using memmove_correct [OF assms(3,1)] by blast
  show "memcpy dest src n m = memmove dest src n m" using c m' by (auto simp: copied_def fun_eq_iff)
qed


lemma memset_correct:
  "\<exists>m'. memset s c n m = Some m' \<and> (\<forall>a. m' a = (if unat (a - s) < unat n then ucast c else m a))"
  unfolding memset_def
proof (rule for_up_rule [where P = "\<lambda>k m'. \<forall>a. m' a = (if unat (a - s) < k then ucast c else m a)"])
  fix i :: u64 and m' assume "i < n" "\<forall>a. m' a = (if unat (a - s) < unat i then ucast c else m a)"
  moreover have "unat (a - s) < Suc (unat i) \<longleftrightarrow> unat (a - s) < unat i \<or> a = s + i" for a
    using offset(2) [of a s i] by (auto simp: less_Suc_eq word_unat_eq_iff)
  ultimately show "\<exists>s'. Some (m'(s + i := ucast c)) = Some s' \<and> (\<forall>a. s' a = (if unat (a - s) < Suc (unat i) then ucast c else m a))"
    by auto
qed simp_all

text \<open>\<open>memcmp\<close> compares at the first difference, as unsigned bytes.\<close>

lemma memcmp_correct:
  "memcmp m s1 s2 n = (if \<forall>i<n. m (s1 + i) = m (s2 + i) then 0
     else let k = (LEAST k. m (s1 + of_nat k) \<noteq> m (s2 + of_nat k)) in if m (s1 + of_nat k) < m (s2 + of_nat k) then - 1 else 1)"
proof -
  have "memcmp_loop m s1 s2 n i = (if \<forall>i<n. m (s1 + i) = m (s2 + i) then 0
     else let k = (LEAST k. m (s1 + of_nat k) \<noteq> m (s2 + of_nat k)) in if m (s1 + of_nat k) < m (s2 + of_nat k) then - 1 else 1)"
    if "\<forall>j<i. m (s1 + j) = m (s2 + j)" "i \<le> n" for i
    using that
  proof (induction "unat n - unat i" arbitrary: i)
    case 0
    then have "i = n" by (simp add: word_le_nat_alt word_unat_eq_iff)
    then show ?case using 0(2) by (simp add: memcmp_loop.simps)
  next
    case (Suc d)
    then have lt: "i < n" by (simp add: word_less_nat_alt)
    show ?case
    proof (cases "m (s1 + i) = m (s2 + i)")
      case True
      have "\<forall>j<i + 1. m (s1 + j) = m (s2 + j)"
      proof (intro allI impI)
        fix j assume "j < i + 1"
        then have "j < i \<or> j = i" using unat_Suc_less [OF lt] by (auto simp: word_less_nat_alt less_Suc_eq word_unat_eq_iff)
        then show "m (s1 + j) = m (s2 + j)" using Suc.prems(1) True by blast
      qed
      then show ?thesis using Suc.hyps(1) [of "i + 1"] Suc.hyps(2) unat_Suc_less [OF lt] count_up_le [OF lt] lt True
        by (subst memcmp_loop.simps) simp
    next
      case False
      have "(LEAST k. m (s1 + of_nat k) \<noteq> m (s2 + of_nat k)) = unat i"
      proof (rule Least_equality)
        show "m (s1 + of_nat (unat i)) \<noteq> m (s2 + of_nat (unat i))" using False by simp
        fix y assume y: "m (s1 + of_nat y) \<noteq> m (s2 + of_nat y)"
        show "unat i \<le> y"
        proof (rule ccontr)
          assume "\<not> unat i \<le> y"
          moreover have "unat i < 2 ^ LENGTH(64)" by (rule unsigned_less)
          ultimately have "(of_nat y :: u64) < i" by (simp add: word_less_nat_alt unsigned_of_nat take_bit_nat_eq_self)
          then show False using Suc.prems(1) y by blast
        qed
      qed
      then show ?thesis using lt False by (subst memcmp_loop.simps) auto
    qed
  qed
  from this [of 0] show ?thesis by (simp add: memcmp_def)
qed

lemma strlen_correct:
  assumes "m (s + of_nat k) = 0" "\<forall>j<k. m (s + of_nat j) \<noteq> 0" "k < 2 ^ 64"
  shows "strlen m s = Some (of_nat k)"
proof -
  have "strlen_loop m s (of_nat i) = Some (of_nat k)" if "i \<le> k" for i
    using that
  proof (induction "k - i" arbitrary: i)
    case 0
    then show ?case using assms(1) by (simp add: strlen_loop.simps)
  next
    case (Suc d)
    then have "m (s + of_nat i) \<noteq> 0" using assms(2) by simp
    then show ?case using Suc.hyps(1) [of "Suc i"] Suc by (subst strlen_loop.simps) (simp add: add.commute)
  qed
  from this [of 0] show ?thesis by (simp add: strlen_def)
qed

section \<open>Properties\<close>

text \<open>
  C28: \<open>memmove\<close> copies every byte of the source range as it was before the call, whether or not and however
  the two ranges overlap, and changes no other byte.
\<close>

theorem memmove_spec:
  assumes "unat dest + unat n \<le> 2 ^ 64" and "unat src + unat n \<le> 2 ^ 64"
  shows "\<exists>m'. memmove dest src n m = Some m'
    \<and> (\<forall>a. m' a = (if unat (a - dest) < unat n then m (src + (a - dest)) else m a))"
  using memmove_correct [OF assms] by (auto simp: copied_def)

theorem memmove_spec_witness:
  "\<exists>m'. memmove 0x1002 0x1000 6 (\<lambda>a. ucast a) = Some m' \<and> m' 0x1007 = 5 \<and> m' 0x1001 = 1"
proof -
  have "unat (0x1002 :: u64) + unat (6 :: u64) \<le> 2 ^ 64" "unat (0x1000 :: u64) + unat (6 :: u64) \<le> 2 ^ 64" by simp_all
  from memmove_spec [OF this, of "\<lambda>a. ucast a"] obtain m' where
    "memmove 0x1002 0x1000 6 (\<lambda>a. ucast a) = Some m'"
    "\<forall>a. m' a = (if unat (a - 0x1002) < unat (6 :: u64) then ucast (0x1000 + (a - 0x1002)) else ucast a)" by auto
  moreover have "unat (0x1001 - 0x1002 :: u64) = 2 ^ 64 - 1" by (simp add: unsigned_minus_1_eq_mask mask_eq_exp_minus_1)
  ultimately show ?thesis by (intro exI [of _ m'] conjI) simp_all
qed

end
