(* ===== verification/Cpu.thy ===== *)
theory Cpu
  imports Prelude
begin

text \<open>
  The processor state the assembly files work on: registers, a stack of 64-bit cells, pushing and popping. The
  arithmetic flags are part of \<open>rflags\<close> only as far as the code sets them; memory is a function
  from cell addresses to cells.
\<close>

record cpu =
  rax :: u64
  rbx :: u64
  rcx :: u64
  rdx :: u64
  rsi :: u64
  rdi :: u64
  rbp :: u64
  r8 :: u64
  r9 :: u64
  r10 :: u64
  r11 :: u64
  r12 :: u64
  r13 :: u64
  r14 :: u64
  r15 :: u64
  rip :: u64
  cs :: u64
  rflags :: u64
  rsp :: u64
  ss :: u64

type_synonym cells = "u64 \<Rightarrow> u64"

definition FLAG_IF :: u64 where "FLAG_IF = 0x200"

text \<open>\<open>push\<close> and \<open>pop\<close>, one word and several.\<close>

definition push :: "u64 \<Rightarrow> cpu \<times> cells \<Rightarrow> cpu \<times> cells" where
  "push v = (\<lambda>(c, m). (c\<lparr>rsp := rsp c - 8\<rparr>, m(rsp c - 8 := v)))"

fun pushes :: "u64 list \<Rightarrow> cpu \<times> cells \<Rightarrow> cpu \<times> cells" where
  "pushes [] st = st"
| "pushes (v # vs) st = pushes vs (push v st)"

definition pop :: "(u64 \<Rightarrow> cpu \<Rightarrow> cpu) \<Rightarrow> cpu \<times> cells \<Rightarrow> cpu \<times> cells" where
  "pop f = (\<lambda>(c, m). (f (m (rsp c)) (c\<lparr>rsp := rsp c + 8\<rparr>), m))"

lemma pop_simp [simp]: "pop f (c, m) = (f (m (rsp c)) (c\<lparr>rsp := rsp c + 8\<rparr>), m)"
  by (simp add: pop_def)

section \<open>What a sequence of pushes leaves behind\<close>

lemma cell_neq:
  assumes "i < 2 ^ 60" "j < 2 ^ 60" "i \<noteq> j"
  shows "(sp :: u64) - 8 * of_nat i \<noteq> sp - 8 * of_nat j"
proof
  assume "sp - 8 * of_nat i = sp - 8 * of_nat j"
  then have "(of_nat (8 * i) :: u64) = of_nat (8 * j)" by simp
  moreover have "unat (of_nat (8 * i) :: u64) = 8 * i" "unat (of_nat (8 * j) :: u64) = 8 * j"
    using assms(1,2) by (simp_all only: unsigned_of_nat) (simp_all add: take_bit_nat_eq_self_iff)
  ultimately have "8 * i = 8 * j" by metis
  then show False using assms(3) by simp
qed

lemma pushes_correct:
  assumes "length vs < 2 ^ 59"
  shows "fst (pushes vs (c, m)) = c\<lparr>rsp := rsp c - 8 * of_nat (length vs)\<rparr>"
    and "\<And>i. i < length vs \<Longrightarrow> snd (pushes vs (c, m)) (rsp c - 8 * of_nat (Suc i)) = vs ! i"
    and "\<And>a. (\<And>i. i < length vs \<Longrightarrow> a \<noteq> rsp c - 8 * of_nat (Suc i)) \<Longrightarrow> snd (pushes vs (c, m)) a = m a"
proof -
  have "fst (pushes vs (c, m)) = c\<lparr>rsp := rsp c - 8 * of_nat (length vs)\<rparr>
    \<and> (\<forall>i<length vs. snd (pushes vs (c, m)) (rsp c - 8 * of_nat (Suc i)) = vs ! i)
    \<and> (\<forall>a. (\<forall>i<length vs. a \<noteq> rsp c - 8 * of_nat (Suc i)) \<longrightarrow> snd (pushes vs (c, m)) a = m a)"
    using assms
  proof (induction vs arbitrary: c m)
    case (Cons v vs)
    define c' where "c' = c\<lparr>rsp := rsp c - 8\<rparr>"
    define m' where "m' = m(rsp c - 8 := v)"
    have len: "length vs < 2 ^ 59" using Cons.prems by simp
    have IH1: "fst (pushes vs (c', m')) = c'\<lparr>rsp := rsp c' - 8 * of_nat (length vs)\<rparr>"
      and IH2: "\<And>i. i < length vs \<Longrightarrow> snd (pushes vs (c', m')) (rsp c' - 8 * of_nat (Suc i)) = vs ! i"
      and IH3: "\<And>a. \<forall>i<length vs. a \<noteq> rsp c' - 8 * of_nat (Suc i) \<Longrightarrow> snd (pushes vs (c', m')) a = m' a"
      using Cons.IH [OF len, of c' m'] by blast+
    have step: "rsp c' - 8 * of_nat (Suc i) = rsp c - 8 * of_nat (Suc (Suc i))" for i by (simp add: c'_def)
    have e: "pushes (v # vs) (c, m) = pushes vs (c', m')" by (simp add: push_def c'_def m'_def)
    show ?case
    proof (intro conjI allI impI)
      show "fst (pushes (v # vs) (c, m)) = c\<lparr>rsp := rsp c - 8 * of_nat (length (v # vs))\<rparr>"
        unfolding e IH1 by (simp add: c'_def algebra_simps)
      fix i assume i: "i < length (v # vs)"
      show "snd (pushes (v # vs) (c, m)) (rsp c - 8 * of_nat (Suc i)) = (v # vs) ! i"
      proof (cases i)
        case 0
        have "rsp c - 8 * of_nat (Suc 0) \<noteq> rsp c' - 8 * of_nat (Suc j)" if "j < length vs" for j
          unfolding step by (rule cell_neq) (use that len in simp_all)
        then have "snd (pushes vs (c', m')) (rsp c - 8 * of_nat (Suc 0)) = m' (rsp c - 8 * of_nat (Suc 0))" by (intro IH3) blast
        then show ?thesis unfolding e 0 by (simp add: m'_def)
      next
        case (Suc j)
        then have "snd (pushes vs (c', m')) (rsp c' - 8 * of_nat (Suc j)) = vs ! j" using IH2 i by simp
        then show ?thesis unfolding e Suc step by simp
      qed
    next
      fix a assume a: "\<forall>i<length (v # vs). a \<noteq> rsp c - 8 * of_nat (Suc i)"
      have "\<forall>i<length vs. a \<noteq> rsp c' - 8 * of_nat (Suc i)"
      proof (intro allI impI)
        fix i assume "i < length vs"
        then show "a \<noteq> rsp c' - 8 * of_nat (Suc i)" using a [rule_format, of "Suc i"] unfolding step by simp
      qed
      then have "snd (pushes vs (c', m')) a = m' a" by (rule IH3)
      then show "snd (pushes (v # vs) (c, m)) a = m a" using a [rule_format, of 0] unfolding e by (simp add: m'_def)
    qed
  qed simp
  then show "fst (pushes vs (c, m)) = c\<lparr>rsp := rsp c - 8 * of_nat (length vs)\<rparr>"
    "\<And>i. i < length vs \<Longrightarrow> snd (pushes vs (c, m)) (rsp c - 8 * of_nat (Suc i)) = vs ! i"
    "\<And>a. (\<And>i. i < length vs \<Longrightarrow> a \<noteq> rsp c - 8 * of_nat (Suc i)) \<Longrightarrow> snd (pushes vs (c, m)) a = m a" by blast+
qed

text \<open>Read upwards from the new top of the stack, the last word pushed comes first.\<close>

lemma pushes_read:
  assumes "length vs < 2 ^ 59" "k < length vs"
  shows "snd (pushes vs (c, m)) (rsp (fst (pushes vs (c, m))) + 8 * of_nat k) = rev vs ! k"
proof -
  let ?i = "length vs - Suc k"
  have "length vs = Suc ?i + k" using assms(2) by simp
  then have "(of_nat (length vs) :: u64) = of_nat (Suc ?i) + of_nat k" by (metis of_nat_add)
  then have e: "rsp (fst (pushes vs (c, m))) + 8 * of_nat k = rsp c - 8 * of_nat (Suc ?i)"
    unfolding pushes_correct(1) [OF assms(1)] by (simp add: algebra_simps del: of_nat_Suc)
  have r: "rev vs ! k = vs ! ?i" using assms(2) by (simp add: rev_nth)
  show ?thesis unfolding e r by (rule pushes_correct(2) [OF assms(1)]) (use assms(2) in simp)
qed

end
