(* ===== verification/Interrupts.thy ===== *)
theory Interrupts
  imports Cpu Descriptors Console Vm_Map
begin

text \<open>
  Interrupts from the entry stub to \<open>iretq\<close> (\<^verbatim>\<open>arch/x86_64/interrupts/isr.asm\<close>, \<^verbatim>\<open>idt.asm\<close>, \<^verbatim>\<open>isr.h\<close>, \<^verbatim>\<open>isr.c\<close>),
  with the handlers for page faults (\<^verbatim>\<open>mm/pmap/pmap.c\<close>), system calls (\<^verbatim>\<open>arch/x86_64/syscalls.c\<close>) and the
  keyboard (\<^verbatim>\<open>drivers/input/ps2/keyboard/keyboard.c\<close>). Log output is not part of the state, except where
  printing is what the code is for.
\<close>

section \<open>The frame\<close>

record interrupt_frame =
  fr_rax :: u64
  fr_rbx :: u64
  fr_rcx :: u64
  fr_rdx :: u64
  fr_rsi :: u64
  fr_rdi :: u64
  fr_rbp :: u64
  fr_r8 :: u64
  fr_r9 :: u64
  fr_r10 :: u64
  fr_r11 :: u64
  fr_r12 :: u64
  fr_r13 :: u64
  fr_r14 :: u64
  fr_r15 :: u64
  fr_int_no :: u64
  fr_error_code :: u64
  fr_rip :: u64
  fr_cs :: u64
  fr_rflags :: u64
  fr_rsp :: u64
  fr_ss :: u64

text \<open>The packed structure at \<open>base\<close>.\<close>

definition read_frame :: "cells \<Rightarrow> u64 \<Rightarrow> interrupt_frame" where
  "read_frame m base = \<lparr>fr_rax = m base, fr_rbx = m (base + 8), fr_rcx = m (base + 16), fr_rdx = m (base + 24),
     fr_rsi = m (base + 32), fr_rdi = m (base + 40), fr_rbp = m (base + 48), fr_r8 = m (base + 56), fr_r9 = m (base + 64),
     fr_r10 = m (base + 72), fr_r11 = m (base + 80), fr_r12 = m (base + 88), fr_r13 = m (base + 96), fr_r14 = m (base + 104),
     fr_r15 = m (base + 112), fr_int_no = m (base + 120), fr_error_code = m (base + 128), fr_rip = m (base + 136),
     fr_cs = m (base + 144), fr_rflags = m (base + 152), fr_rsp = m (base + 160), fr_ss = m (base + 168)\<rparr>"

section \<open>Entry and exit\<close>

text \<open>
  What the processor does first: it switches to the stack \<open>rsp0\<close> when it comes from user mode, aligns the
  stack and pushes the interrupted state, for some exceptions an error code as well. The gates are
  interrupt gates, so interrupts are off.
\<close>

definition pushes_error_code :: "nat \<Rightarrow> bool" where
  "pushes_error_code v \<longleftrightarrow> v \<in> {8, 10, 11, 12, 13, 14, 17, 21, 29, 30}"

definition deliver :: "u64 \<Rightarrow> nat \<Rightarrow> u64 \<Rightarrow> cpu \<times> cells \<Rightarrow> cpu \<times> cells" where
  "deliver rsp0 v err = (\<lambda>(c, m).
     let sp = (if cs c AND 3 = 3 then rsp0 else rsp c) AND NOT 0xF;
         (c', m) = pushes ([ss c, rsp c, rflags c, cs c, rip c] @ (if pushes_error_code v then [err] else [])) (c\<lparr>rsp := sp\<rparr>, m)
     in (c'\<lparr>cs := ucast KERNEL_CS, rflags := rflags c AND NOT FLAG_IF\<rparr>, m))"

text \<open>\<open>isr_err_stub\<close> and \<open>isr_no_err_stub\<close>.\<close>

definition err_stub :: "nat \<Rightarrow> bool" where "err_stub v \<longleftrightarrow> v \<in> {8, 10, 11, 12, 13, 14, 17, 30}"

definition isr_stub :: "nat \<Rightarrow> cpu \<times> cells \<Rightarrow> cpu \<times> cells" where
  "isr_stub v = pushes ((if err_stub v then [] else [0]) @ [of_nat v])"

definition pusha64 :: "cpu \<times> cells \<Rightarrow> cpu \<times> cells" where
  "pusha64 = (\<lambda>(c, m). pushes [r15 c, r14 c, r13 c, r12 c, r11 c, r10 c, r9 c, r8 c, rbp c, rdi c, rsi c, rdx c, rcx c, rbx c, rax c] (c, m))"

definition popa64 :: "cpu \<times> cells \<Rightarrow> cpu \<times> cells" where
  "popa64 st =
     (let st = pop (\<lambda>v. rax_update (\<lambda>_. v)) st; st = pop (\<lambda>v. rbx_update (\<lambda>_. v)) st; st = pop (\<lambda>v. rcx_update (\<lambda>_. v)) st;
          st = pop (\<lambda>v. rdx_update (\<lambda>_. v)) st; st = pop (\<lambda>v. rsi_update (\<lambda>_. v)) st; st = pop (\<lambda>v. rdi_update (\<lambda>_. v)) st;
          st = pop (\<lambda>v. rbp_update (\<lambda>_. v)) st; st = pop (\<lambda>v. r8_update (\<lambda>_. v)) st; st = pop (\<lambda>v. r9_update (\<lambda>_. v)) st;
          st = pop (\<lambda>v. r10_update (\<lambda>_. v)) st; st = pop (\<lambda>v. r11_update (\<lambda>_. v)) st; st = pop (\<lambda>v. r12_update (\<lambda>_. v)) st;
          st = pop (\<lambda>v. r13_update (\<lambda>_. v)) st; st = pop (\<lambda>v. r14_update (\<lambda>_. v)) st
      in pop (\<lambda>v. r15_update (\<lambda>_. v)) st)"

definition iretq :: "cpu \<times> cells \<Rightarrow> cpu \<times> cells" where
  "iretq = (\<lambda>(c, m). (c\<lparr>rip := m (rsp c), cs := m (rsp c + 8), rflags := m (rsp c + 16), rsp := m (rsp c + 24), ss := m (rsp c + 32)\<rparr>, m))"

text \<open>\<open>_isr_handler\<close> up to the call, with \<open>rdi\<close> pointing at the frame, and from its return on.\<close>

definition isr_enter :: "nat \<Rightarrow> cpu \<times> cells \<Rightarrow> cpu \<times> cells" where
  "isr_enter v st = (let (c, m) = pusha64 (isr_stub v st) in (c\<lparr>rdi := rsp c\<rparr>, m))"

definition isr_exit :: "cpu \<times> cells \<Rightarrow> cpu \<times> cells" where
  "isr_exit st = (let (c, m) = popa64 st in iretq (c\<lparr>rsp := rsp c + 16\<rparr>, m))"

section \<open>Dispatch\<close>

text \<open>
  A handler is a function on the frame and the part \<open>'k\<close> of the kernel's state it works on. \<open>Halted\<close> says that it
  does not come back.
\<close>

type_synonym 'k handler = "interrupt_frame \<Rightarrow> 'k \<Rightarrow> (interrupt_frame \<times> 'k) outcome option"

record 'k interrupts =
  interrupt_handlers :: "'k handler option list"
  interrupts_on :: bool

definition register_interrupt_handler :: "u8 \<Rightarrow> 'k handler \<Rightarrow> 'k interrupts \<Rightarrow> 'k interrupts" where
  "register_interrupt_handler vec h i =
     (let i = i\<lparr>interrupts_on := False\<rparr>;
          i = i\<lparr>interrupt_handlers := (interrupt_handlers i)[unat vec := Some h]\<rparr>
      in i\<lparr>interrupts_on := True\<rparr>)"

definition interrupt_handler :: "'k interrupts \<Rightarrow> 'k handler" where
  "interrupt_handler i frame k =
     (let v = unat (fr_int_no frame) in
      if length (interrupt_handlers i) \<le> v then None
      else do {
        r \<leftarrow> (case interrupt_handlers i ! v of Some h \<Rightarrow> h frame k | None \<Rightarrow> Some (Running (frame, k)));
        case r of
          Halted \<Rightarrow> Some Halted
        | Running (frame, k) \<Rightarrow> if fr_int_no frame \<le> 31 then Some Halted else Some (Running (frame, k))
      })"

section \<open>Handlers\<close>

text \<open>The page fault handler always works on the kernel's map; \<open>cr2\<close> is the address the processor reports.\<close>

definition pf_interrupt_handler :: "u64 \<Rightarrow> vm_map \<Rightarrow> kstate handler" where
  "pf_interrupt_handler cr2 kernel_vm_map frame s =
     do {
       r \<leftarrow> vm_fault_handler s kernel_vm_map cr2 (ucast (fr_error_code frame));
       case r of
         Halted \<Rightarrow> Some Halted
       | Running (Resolved, s) \<Rightarrow> Some (Running (frame, s))
       | Running (Segfault_task_exit, s) \<Rightarrow> Some Halted
     }"

text \<open>
  System calls. \<open>string_at\<close> reads the string at an address of the caller, \<open>temp\<close> is the stack buffer of
  \<open>printk\<close>. \<open>SYSCALL_READ\<close> falls through to \<open>SYSCALL_WRITE\<close>.
\<close>

definition SYSCALL_READ :: u32 where "SYSCALL_READ = 0"
definition SYSCALL_WRITE :: u32 where "SYSCALL_WRITE = 1"

definition syscall_dispatch ::
  "(u64 \<Rightarrow> char list) \<Rightarrow> (u64 \<Rightarrow> char) \<Rightarrow> u32 \<Rightarrow> u64 list \<Rightarrow> console \<Rightarrow> (u64 \<times> console) option" where
  "syscall_dispatch string_at temp num args con =
     (if num = SYSCALL_READ \<or> num = SYSCALL_WRITE then
        do { con \<leftarrow> printk temp (string_at (args ! 0)) [Word_arg (args ! 1)] con; Some (0xfeedcab, con) }
      else Some (- 1, con))"

definition syscall_interrupt_handler :: "(u64 \<Rightarrow> char list) \<Rightarrow> (u64 \<Rightarrow> char) \<Rightarrow> console handler" where
  "syscall_interrupt_handler string_at temp frame con =
     (let call_num = ucast (fr_rax frame);
          args = [fr_rdi frame, fr_rsi frame, fr_rdx frame, fr_r10 frame, fr_r8 frame, fr_r9 frame] in
      do {
        (r, con) \<leftarrow> syscall_dispatch string_at temp call_num args con;
        Some (Running (frame\<lparr>fr_rax := r\<rparr>, con))
      })"

definition init_syscalls :: "(u64 \<Rightarrow> char list) \<Rightarrow> (u64 \<Rightarrow> char) \<Rightarrow> console interrupts \<Rightarrow> console interrupts" where
  "init_syscalls string_at temp = register_interrupt_handler (ucast SYSCALL_INTERRUPT_X86_64) (syscall_interrupt_handler string_at temp)"

text \<open>The keyboard: Page Up and Page Down, which send \<open>0xE0\<close> first, scroll the terminal.\<close>

definition keyboard_irq_handler :: "'d bus \<Rightarrow> (bool \<times> console \<times> 'd) handler" where
  "keyboard_irq_handler b frame = (\<lambda>(extended_key, con, d).
     let (scancode, d) = inb b 0x60 d in
     if scancode = 0xE0 then Some (Running (frame, True, con, pic_signal_EOI b 1 d))
     else if extended_key then
       do {
         con \<leftarrow> (if scancode AND 0x80 = 0 then
                   if scancode = 0x49 then tty_scroll_up con else if scancode = 0x51 then tty_scroll_down con else Some con
                 else Some con);
         Some (Running (frame, False, con, pic_signal_EOI b 1 d))
       }
     else Some (Running (frame, extended_key, con, pic_signal_EOI b 1 d)))"

text \<open>\<open>init_keyboard\<close> empties the output buffer of the controller before the line is unmasked.\<close>

partial_function (option) drain_keyboard :: "'d bus \<Rightarrow> 'd \<Rightarrow> 'd option" where
  "drain_keyboard b d =
     (let (status, d) = inb b 0x64 d in
      if status AND 0x01 \<noteq> 0 then (let (_, d) = inb b 0x60 d in drain_keyboard b (io_wait b d)) else Some d)"

definition init_keyboard :: "'d bus \<Rightarrow> (bool \<times> console \<times> 'd) interrupts \<Rightarrow> 'd \<Rightarrow> ((bool \<times> console \<times> 'd) interrupts \<times> 'd) option" where
  "init_keyboard b i d =
     do {
       let i = register_interrupt_handler 0x21 (keyboard_irq_handler b) i;
       d \<leftarrow> drain_keyboard b d;
       d \<leftarrow> pic_irq_clear_mask b 1 d;
       Some (i, d)
     }"

end
