(* ===== verification/Interrupt_Props.thy ===== *)
theory Interrupt_Props
  imports Interrupts
begin

text \<open>
  Interrupts are transparent: entry builds the structure \<open>struct interrupt_frame\<close> describes, and leaving through
  \<open>iretq\<close> loads the processor from it.
\<close>

section \<open>Entry\<close>

lemma pushes_append: "pushes (xs @ ys) st = pushes ys (pushes xs st)"
  by (induction xs arbitrary: st) simp_all

lemma push_other: "rsp c' = rsp c \<Longrightarrow> snd (push v (c', m)) = snd (push v (c, m)) \<and> rsp (fst (push v (c', m))) = rsp (fst (push v (c, m)))"
  by (simp add: push_def)

lemma pushes_other: "rsp c' = rsp c \<Longrightarrow> snd (pushes vs (c', m)) = snd (pushes vs (c, m))"
proof (induction vs arbitrary: c c' m)
  case (Cons v vs)
  have "pushes (v # vs) (d, m) = pushes vs (d\<lparr>rsp := rsp d - 8\<rparr>, m(rsp d - 8 := v))" for d :: cpu by (simp add: push_def)
  then show ?case using Cons.IH [of "c'\<lparr>rsp := rsp c' - 8\<rparr>" "c\<lparr>rsp := rsp c - 8\<rparr>"] Cons.prems by simp
qed simp

text \<open>What the frame of an interrupt holds.\<close>

definition frame_of :: "nat \<Rightarrow> u64 \<Rightarrow> cpu \<Rightarrow> interrupt_frame" where
  "frame_of v err c = \<lparr>fr_rax = rax c, fr_rbx = rbx c, fr_rcx = rcx c, fr_rdx = rdx c, fr_rsi = rsi c, fr_rdi = rdi c,
     fr_rbp = rbp c, fr_r8 = r8 c, fr_r9 = r9 c, fr_r10 = r10 c, fr_r11 = r11 c, fr_r12 = r12 c, fr_r13 = r13 c,
     fr_r14 = r14 c, fr_r15 = r15 c, fr_int_no = of_nat v, fr_error_code = (if err_stub v then err else 0),
     fr_rip = rip c, fr_cs = cs c, fr_rflags = rflags c, fr_rsp = rsp c, fr_ss = ss c\<rparr>"

definition entry_words :: "nat \<Rightarrow> u64 \<Rightarrow> cpu \<Rightarrow> u64 list" where
  "entry_words v err c = [ss c, rsp c, rflags c, cs c, rip c, if err_stub v then err else 0, of_nat v,
     r15 c, r14 c, r13 c, r12 c, r11 c, r10 c, r9 c, r8 c, rbp c, rdi c, rsi c, rdx c, rcx c, rbx c, rax c]"

definition entry_stack :: "u64 \<Rightarrow> cpu \<Rightarrow> u64" where
  "entry_stack rsp0 c = (if cs c AND 3 = 3 then rsp0 else rsp c) AND NOT 0xF"

lemma enter_pushes:
  fixes c :: cpu and m :: cells and rsp0 err :: u64
  assumes "pushes_error_code v \<longleftrightarrow> err_stub v"
  defines "st \<equiv> pushes (entry_words v err c) (c\<lparr>rsp := entry_stack rsp0 c\<rparr>, m)"
  shows "snd (isr_enter v (deliver rsp0 v err (c, m))) = snd st"
    "fst (isr_enter v (deliver rsp0 v err (c, m))) =
       (fst st)\<lparr>cs := ucast KERNEL_CS, rflags := rflags c AND NOT FLAG_IF, rdi := rsp (fst st)\<rparr>"
proof -
  define L1 where "L1 = [ss c, rsp c, rflags c, cs c, rip c] @ (if err_stub v then [err] else [])"
  define L2 where "L2 = (if err_stub v then [] else [0]) @ [of_nat v :: u64]"
  define L3 where "L3 = [r15 c, r14 c, r13 c, r12 c, r11 c, r10 c, r9 c, r8 c, rbp c, rdi c, rsi c, rdx c, rcx c, rbx c, rax c]"
  let ?c0 = "c\<lparr>rsp := entry_stack rsp0 c\<rparr>"
  have L: "entry_words v err c = L1 @ L2 @ L3" by (simp add: entry_words_def L1_def L2_def L3_def)
  have len: "length L1 < 2 ^ 59" "length L2 < 2 ^ 59" "length L3 < 2 ^ 59" "length (L1 @ L2 @ L3) < 2 ^ 59"
    by (simp_all add: L1_def L2_def L3_def)
  obtain c1 m1 where 1: "pushes L1 (?c0, m) = (c1, m1)" by fastforce
  have c1: "c1 = ?c0\<lparr>rsp := entry_stack rsp0 c - 8 * of_nat (length L1)\<rparr>" using pushes_correct(1) [OF len(1), of ?c0 m] 1 by simp
  let ?c1 = "c1\<lparr>cs := ucast KERNEL_CS, rflags := rflags c AND NOT FLAG_IF\<rparr>"
  have d: "deliver rsp0 v err (c, m) = (?c1, m1)"
    using 1 assms(1) by (simp add: deliver_def L1_def entry_stack_def Let_def split: prod.split)
  obtain c2 m2 where 2: "pushes L2 (?c1, m1) = (c2, m2)" by fastforce
  have c2: "c2 = ?c1\<lparr>rsp := rsp c1 - 8 * of_nat (length L2)\<rparr>" using pushes_correct(1) [OF len(2), of ?c1 m1] 2 by simp
  have s: "isr_stub v (?c1, m1) = (c2, m2)" using 2 by (simp add: isr_stub_def L2_def)
  obtain c3 m3 where 3: "pushes L3 (c2, m2) = (c3, m3)" by fastforce
  have c3: "c3 = c2\<lparr>rsp := rsp c2 - 8 * of_nat (length L3)\<rparr>" using pushes_correct(1) [OF len(3), of c2 m2] 3 by simp
  have p: "pusha64 (c2, m2) = (c3, m3)" using 3 by (simp add: pusha64_def L3_def c2 c1)
  have "snd st = snd (pushes L3 (pushes L2 (c1, m1)))" by (simp add: st_def L pushes_append 1)
  also have "\<dots> = snd (pushes (L2 @ L3) (c1, m1))" by (simp add: pushes_append)
  also have "\<dots> = snd (pushes (L2 @ L3) (?c1, m1))" by (rule pushes_other) simp
  also have "\<dots> = m3" by (simp add: pushes_append 2 3)
  finally have m3: "snd st = m3" .
  have r: "rsp c3 = entry_stack rsp0 c - 8 * of_nat (length (L1 @ L2 @ L3))"
    by (simp add: c3 c2 c1 algebra_simps)
  have f: "fst st = ?c0\<lparr>rsp := entry_stack rsp0 c - 8 * of_nat (length (L1 @ L2 @ L3))\<rparr>"
    using pushes_correct(1) [OF len(4), of ?c0 m] by (simp add: st_def L)
  have e: "isr_enter v (deliver rsp0 v err (c, m)) = (c3\<lparr>rdi := rsp c3\<rparr>, m3)"
    unfolding d isr_enter_def s p by simp
  show "snd (isr_enter v (deliver rsp0 v err (c, m))) = snd st" unfolding e m3 by simp
  show "fst (isr_enter v (deliver rsp0 v err (c, m))) = (fst st)\<lparr>cs := ucast KERNEL_CS, rflags := rflags c AND NOT FLAG_IF, rdi := rsp (fst st)\<rparr>"
    unfolding e f using r c3 c2 c1 by simp
qed

lemma enter_frame:
  assumes "pushes_error_code v \<longleftrightarrow> err_stub v" "isr_enter v (deliver rsp0 v err (c, m)) = (c1, m1)"
  shows "read_frame m1 (rsp c1) = frame_of v err c" "rdi c1 = rsp c1" "rsp c1 = entry_stack rsp0 c - 176"
    "\<And>a. (\<And>i. i < 22 \<Longrightarrow> a \<noteq> entry_stack rsp0 c - 8 * of_nat (Suc i)) \<Longrightarrow> m1 a = m a"
proof -
  let ?c0 = "c\<lparr>rsp := entry_stack rsp0 c\<rparr>" and ?L = "entry_words v err c"
  have len: "length ?L < 2 ^ 59" "length ?L = 22" by (simp_all add: entry_words_def)
  note e = enter_pushes [OF assms(1), of rsp0 err c m]
  have f: "fst (pushes ?L (?c0, m)) = ?c0\<lparr>rsp := entry_stack rsp0 c - 176\<rparr>" using pushes_correct(1) [OF len(1), of ?c0 m] len(2) by simp
  have m1: "m1 = snd (pushes ?L (?c0, m))" using e(1) assms(2) by simp
  show r: "rsp c1 = entry_stack rsp0 c - 176" "rdi c1 = rsp c1" using e(2) assms(2) f by simp_all
  have w: "m1 (rsp c1 + 8 * of_nat k) = rev ?L ! k" if "k < 22" for k
    using pushes_read [OF len(1), of k ?c0 m] that len(2) f by (simp add: m1 r(1))
  have "m1 (rsp c1) = rax c" "m1 (rsp c1 + 8) = rbx c" "m1 (rsp c1 + 16) = rcx c" "m1 (rsp c1 + 24) = rdx c"
    "m1 (rsp c1 + 32) = rsi c" "m1 (rsp c1 + 40) = rdi c" "m1 (rsp c1 + 48) = rbp c" "m1 (rsp c1 + 56) = r8 c"
    "m1 (rsp c1 + 64) = r9 c" "m1 (rsp c1 + 72) = r10 c" "m1 (rsp c1 + 80) = r11 c" "m1 (rsp c1 + 88) = r12 c"
    "m1 (rsp c1 + 96) = r13 c" "m1 (rsp c1 + 104) = r14 c" "m1 (rsp c1 + 112) = r15 c"
    "m1 (rsp c1 + 120) = of_nat v" "m1 (rsp c1 + 128) = (if err_stub v then err else 0)" "m1 (rsp c1 + 136) = rip c"
    "m1 (rsp c1 + 144) = cs c" "m1 (rsp c1 + 152) = rflags c" "m1 (rsp c1 + 160) = rsp c" "m1 (rsp c1 + 168) = ss c"
    using w [of 0] w [of 1] w [of 2] w [of 3] w [of 4] w [of 5] w [of 6] w [of 7] w [of 8] w [of 9] w [of 10] w [of 11]
      w [of 12] w [of 13] w [of 14] w [of 15] w [of 16] w [of 17] w [of 18] w [of 19] w [of 20] w [of 21]
    by (simp_all add: entry_words_def)
  then show "read_frame m1 (rsp c1) = frame_of v err c" by (simp add: read_frame_def frame_of_def)
  fix a assume "\<And>i. i < 22 \<Longrightarrow> a \<noteq> entry_stack rsp0 c - 8 * of_nat (Suc i)"
  then show "m1 a = m a" using pushes_correct(3) [OF len(1), of a ?c0 m] len(2) by (simp add: m1)
qed

section \<open>Exit\<close>

definition cpu_of :: "interrupt_frame \<Rightarrow> cpu" where
  "cpu_of f = \<lparr>rax = fr_rax f, rbx = fr_rbx f, rcx = fr_rcx f, rdx = fr_rdx f, rsi = fr_rsi f, rdi = fr_rdi f, rbp = fr_rbp f,
     r8 = fr_r8 f, r9 = fr_r9 f, r10 = fr_r10 f, r11 = fr_r11 f, r12 = fr_r12 f, r13 = fr_r13 f, r14 = fr_r14 f, r15 = fr_r15 f,
     rip = fr_rip f, cs = fr_cs f, rflags = fr_rflags f, rsp = fr_rsp f, ss = fr_ss f\<rparr>"

lemma cpu_of_frame: "cpu_of (frame_of v err c) = c"
  by (simp add: cpu_of_def frame_of_def)

lemma exit_frame: "isr_exit (c, m) = (cpu_of (read_frame m (rsp c)), m)"
  by (cases c) (simp add: isr_exit_def popa64_def iretq_def Let_def read_frame_def cpu_of_def add.assoc)

section \<open>The whole way\<close>

lemma error_code_stubs: "v \<noteq> 21 \<Longrightarrow> v \<noteq> 29 \<Longrightarrow> pushes_error_code v \<longleftrightarrow> err_stub v"
  by (auto simp: pushes_error_code_def err_stub_def)

lemma read_frame_cong: "(\<And>k. k < 22 \<Longrightarrow> m2 (a + 8 * of_nat k) = m1 (a + 8 * of_nat k)) \<Longrightarrow> read_frame m2 a = read_frame m1 a"
proof -
  assume e: "\<And>k. k < 22 \<Longrightarrow> m2 (a + 8 * of_nat k) = m1 (a + 8 * of_nat k)"
  show "read_frame m2 a = read_frame m1 a"
    using e [of 0] e [of 1] e [of 2] e [of 3] e [of 4] e [of 5] e [of 6] e [of 7] e [of 8] e [of 9] e [of 10] e [of 11]
      e [of 12] e [of 13] e [of 14] e [of 15] e [of 16] e [of 17] e [of 18] e [of 19] e [of 20] e [of 21]
    by (simp add: read_frame_def)
qed

text \<open>
  C7: Interrupts are transparent. For every vector but 21 and 29, entry leaves on the stack exactly the structure
  \<open>struct interrupt_frame\<close> of the interrupted registers, with the vector and the error code (zero when
  the processor pushes none), and passes its address; memory outside the 22 words below the aligned stack pointer is
  as before. Whatever the handler does to registers and memory, if it comes back with this stack pointer then the
  processor continues with the state the frame then describes: when the 22 words are unchanged, with all registers,
  the flags and the stack pointer of the moment of the interrupt.
\<close>

theorem interrupt_transparent:
  assumes "v \<noteq> 21" "v \<noteq> 29"
    and enter: "isr_enter v (deliver rsp0 v err (c, m)) = (c1, m1)"
    and return: "rsp c2 = rsp c1"
  shows "read_frame m1 (rsp c1) = frame_of v err c \<and> rdi c1 = rsp c1
    \<and> (\<forall>a. (\<forall>i\<in>{1..22}. a \<noteq> entry_stack rsp0 c - 8 * of_nat i) \<longrightarrow> m1 a = m a)
    \<and> fst (isr_exit (c2, m2)) = cpu_of (read_frame m2 (rsp c1))
    \<and> ((\<forall>k<22. m2 (rsp c1 + 8 * of_nat k) = m1 (rsp c1 + 8 * of_nat k)) \<longrightarrow> fst (isr_exit (c2, m2)) = c)"
proof -
  note e = enter_frame [OF error_code_stubs [OF assms(1,2)] enter]
  have "\<forall>a. (\<forall>i\<in>{1..22}. a \<noteq> entry_stack rsp0 c - 8 * of_nat i) \<longrightarrow> m1 a = m a"
  proof (intro allI impI, rule e(4))
    fix a i assume "\<forall>i\<in>{1..22}. a \<noteq> entry_stack rsp0 c - 8 * of_nat i" "i < (22 :: nat)"
    then show "a \<noteq> entry_stack rsp0 c - 8 * of_nat (Suc i)" by (simp del: of_nat_Suc)
  qed
  moreover have x: "fst (isr_exit (c2, m2)) = cpu_of (read_frame m2 (rsp c1))" by (simp add: exit_frame return)
  moreover have "(\<forall>k<22. m2 (rsp c1 + 8 * of_nat k) = m1 (rsp c1 + 8 * of_nat k)) \<longrightarrow> fst (isr_exit (c2, m2)) = c"
  proof
    assume "\<forall>k<22. m2 (rsp c1 + 8 * of_nat k) = m1 (rsp c1 + 8 * of_nat k)"
    then have "read_frame m2 (rsp c1) = read_frame m1 (rsp c1)" by (intro read_frame_cong) simp
    then show "fst (isr_exit (c2, m2)) = c" by (simp add: x e(1) cpu_of_frame)
  qed
  ultimately show ?thesis using e(1,2) by blast
qed

text \<open>A page fault of a user program at \<open>0x401000\<close>, with error code 6.\<close>

definition user_cpu :: cpu where
  "user_cpu = \<lparr>rax = 1, rbx = 2, rcx = 3, rdx = 4, rsi = 5, rdi = 6, rbp = 7, r8 = 8, r9 = 9, r10 = 10, r11 = 11, r12 = 12,
     r13 = 13, r14 = 14, r15 = 15, rip = 0x401000, cs = 0x23, rflags = 0x202, rsp = 0x7FFF0008, ss = 0x1B\<rparr>"

theorem interrupt_transparent_witness:
  "let (c1, m1) = isr_enter 14 (deliver 0x9000 14 6 (user_cpu, \<lambda>_. 0)) in
   fr_rip (read_frame m1 (rsp c1)) = 0x401000 \<and> fr_error_code (read_frame m1 (rsp c1)) = 6 \<and> fst (isr_exit (c1, m1)) = user_cpu"
proof -
  obtain c1 m1 where e: "isr_enter 14 (deliver 0x9000 14 6 (user_cpu, \<lambda>_. 0)) = (c1, m1)" by fastforce
  have v: "(14 :: nat) \<noteq> 21" "(14 :: nat) \<noteq> 29" by simp_all
  note t = interrupt_transparent [OF v e refl]
  have f: "read_frame m1 (rsp c1) = frame_of 14 6 user_cpu" using t by blast
  have "fr_rip (read_frame m1 (rsp c1)) = 0x401000" "fr_error_code (read_frame m1 (rsp c1)) = 6"
    unfolding f by (simp_all add: frame_of_def user_cpu_def err_stub_def)
  moreover have "fst (isr_exit (c1, m1)) = user_cpu" using t [of m1] by blast
  ultimately show ?thesis unfolding e by simp
qed

end
