(* ===== verification/Lapic.thy ===== *)
theory Lapic
  imports Interrupts Kernel_Map Pit Sched
begin

text \<open>
  The local interrupt controller and its timer: \<^verbatim>\<open>src/kernel/arch/x86_64/pic/apic/lapic.c\<close>. The registers are
  reached through the bus. The timer interrupt drives the scheduler: every \<open>MAX_SLICES\<close> ticks the
  running task has used up its slice. Log output is not part of the state.
\<close>

definition LAPIC_REG_ID :: u32 where "LAPIC_REG_ID = 0x020"
definition LAPIC_REG_TPR :: u32 where "LAPIC_REG_TPR = 0x080"
definition LAPIC_REG_EOI :: u32 where "LAPIC_REG_EOI = 0x0B0"
definition LAPIC_REG_SVR :: u32 where "LAPIC_REG_SVR = 0x0F0"
definition LAPIC_REG_LVT_TIMER :: u32 where "LAPIC_REG_LVT_TIMER = 0x320"
definition LAPIC_REG_LVT_LINT0 :: u32 where "LAPIC_REG_LVT_LINT0 = 0x350"
definition LAPIC_REG_LVT_LINT1 :: u32 where "LAPIC_REG_LVT_LINT1 = 0x360"
definition LAPIC_REG_TIMER_INITIAL :: u32 where "LAPIC_REG_TIMER_INITIAL = 0x380"
definition LAPIC_REG_TIMER_CURRENT :: u32 where "LAPIC_REG_TIMER_CURRENT = 0x390"
definition LAPIC_REG_TIMER_DIVIDE :: u32 where "LAPIC_REG_TIMER_DIVIDE = 0x3E0"
definition LAPIC_LVT_DELIVERY_NMI :: u32 where "LAPIC_LVT_DELIVERY_NMI = push_bit 8 4"
definition LAPIC_LVT_DELIVERY_EXTINT :: u32 where "LAPIC_LVT_DELIVERY_EXTINT = push_bit 8 7"
definition LAPIC_LVT_MASKED :: u32 where "LAPIC_LVT_MASKED = push_bit 16 1"
definition LAPIC_TIMER_MODE_PERIODIC :: u32 where "LAPIC_TIMER_MODE_PERIODIC = push_bit 17 1"
definition LAPIC_SVR_ENABLE :: u32 where "LAPIC_SVR_ENABLE = push_bit 8 1"
definition INTERRUPT_TIMER_VECTOR :: u32 where "INTERRUPT_TIMER_VECTOR = 0x20"
definition MAX_SLICES :: u64 where "MAX_SLICES = 10"

record lapic =
  lapic_base :: u64
  counter :: u64
  lapic_ticks_per_ms :: u32

definition lapic_read :: "'d bus \<Rightarrow> lapic \<Rightarrow> u32 \<Rightarrow> 'd \<Rightarrow> u32 \<times> 'd" where
  "lapic_read b l reg d = bus_load b (lapic_base l + ucast reg) d"

definition lapic_write :: "'d bus \<Rightarrow> lapic \<Rightarrow> u32 \<Rightarrow> u32 \<Rightarrow> 'd \<Rightarrow> 'd" where
  "lapic_write b l reg val d = bus_store b (lapic_base l + ucast reg) val d"

definition lapic_eoi :: "'d bus \<Rightarrow> lapic \<Rightarrow> 'd \<Rightarrow> 'd" where
  "lapic_eoi b l d = lapic_write b l LAPIC_REG_EOI 0 d"

section \<open>Handlers\<close>

definition spurious_handler :: "'d bus \<Rightarrow> (lapic \<times> 'd \<times> sched) handler" where
  "spurious_handler b frame = (\<lambda>(l, d, s). Some (Running (frame, l, lapic_eoi b l d, s)))"

definition lapic_timer_handler :: "'d bus \<Rightarrow> (lapic \<times> 'd \<times> sched) handler" where
  "lapic_timer_handler b frame = (\<lambda>(l, d, s).
     do {
       let l = l\<lparr>counter := counter l + 1\<rparr>;
       let d = lapic_eoi b l d;
       let cur = current_task s;
       s \<leftarrow> upd_task cur (\<lambda>tk. tk\<lparr>tk_time_slice := tk_time_slice tk + 1\<rparr>) s;
       tk \<leftarrow> tasks s cur;
       s \<leftarrow> (if MAX_SLICES \<le> tk_time_slice tk then
               do { s \<leftarrow> upd_task cur (\<lambda>tk. tk\<lparr>tk_time_slice := 0\<rparr>) s; Some (s\<lparr>need_resched := True\<rparr>) }
             else Some s);
       s \<leftarrow> (if need_resched s then schedule s else Some s);
       Some (Running (frame, l, d, s))
     })"

section \<open>Setting it up\<close>

text \<open>The timer runs freely for 10 ms of the interval timer.\<close>

definition lapic_timer_calibrate :: "'d bus \<Rightarrow> lapic \<Rightarrow> 'd \<Rightarrow> (lapic \<times> 'd) option" where
  "lapic_timer_calibrate b l d =
     do {
       let d = lapic_write b l LAPIC_REG_TIMER_DIVIDE 0x3 d;
       let d = lapic_write b l LAPIC_REG_LVT_TIMER LAPIC_LVT_MASKED d;
       let d = lapic_write b l LAPIC_REG_TIMER_INITIAL 0xFFFFFFFF d;
       d \<leftarrow> pit_sleep b 10 d;
       let (left, d) = lapic_read b l LAPIC_REG_TIMER_CURRENT d;
       let ticks = 0xFFFFFFFF - left;
       let l = l\<lparr>lapic_ticks_per_ms := ticks div 10\<rparr>;
       Some (l, lapic_write b l LAPIC_REG_TIMER_INITIAL 0 d)
     }"

text \<open>\<open>kernel_pt\<close> is the page table of the kernel's map.\<close>

definition init_lapic ::
  "'d bus \<Rightarrow> page_table_t \<Rightarrow> (lapic \<times> 'd \<times> sched) interrupts \<Rightarrow> lapic \<Rightarrow> 'd \<Rightarrow> kstate
     \<Rightarrow> ((lapic \<times> 'd \<times> sched) interrupts \<times> lapic \<times> 'd \<times> kstate) option" where
  "init_lapic b kernel_pt i l d k =
     do {
       let msr = rdmsr b 0x1B d;
       let phys_base = msr AND 0xFFFFF000;
       k \<leftarrow> pmap_map_mmio kernel_pt phys_base PAGE_SIZE k;
       let d = wrmsr b 0x1B (msr OR push_bit 11 1) d;
       let l = l\<lparr>lapic_base := phys_base + hhdm k\<rparr>;
       let d = lapic_write b l LAPIC_REG_TPR 0 d;
       let d = lapic_write b l LAPIC_REG_LVT_LINT0 LAPIC_LVT_DELIVERY_EXTINT d;
       let d = lapic_write b l LAPIC_REG_LVT_LINT1 LAPIC_LVT_DELIVERY_NMI d;
       let d = lapic_write b l LAPIC_REG_SVR (LAPIC_SVR_ENABLE OR 0xFF) d;
       let (_, d) = lapic_read b l LAPIC_REG_ID d;
       let i = register_interrupt_handler 0xFF (spurious_handler b) i;
       let i = register_interrupt_handler (ucast INTERRUPT_TIMER_VECTOR) (lapic_timer_handler b) i;
       (l, d) \<leftarrow> lapic_timer_calibrate b l d;
       Some (i, l, d, k)
     }"

definition lapic_timer_start :: "'d bus \<Rightarrow> lapic \<Rightarrow> u32 \<Rightarrow> 'd \<Rightarrow> 'd option" where
  "lapic_timer_start b l hz d =
     (if hz = 0 then None
      else
        (let period = lapic_ticks_per_ms l * 1000 div hz;
             d = lapic_write b l LAPIC_REG_TIMER_DIVIDE 0x3 d;
             d = lapic_write b l LAPIC_REG_LVT_TIMER (LAPIC_TIMER_MODE_PERIODIC OR INTERRUPT_TIMER_VECTOR) d
         in Some (lapic_write b l LAPIC_REG_TIMER_INITIAL period d)))"

end
