(* ===== verification/Lapic_Props.thy ===== *)
theory Lapic_Props
  imports Lapic Sched_Props
begin

text \<open>
  Preemption: the timer interrupt of the local controller makes the scheduler take turns, whether or
  not a task ever yields.
\<close>

text \<open>What a timer interrupt does to the state behind it.\<close>

definition tick :: "'d bus \<Rightarrow> interrupt_frame \<Rightarrow> lapic \<times> 'd \<times> sched \<Rightarrow> (lapic \<times> 'd \<times> sched) option" where
  "tick b frame k =
     (case lapic_timer_handler b frame k of
        Some (Running (_, k')) \<Rightarrow> Some k'
      | _ \<Rightarrow> None)"

text \<open>A line of tasks, none of which has used up its slice.\<close>

definition in_time :: "sched \<Rightarrow> u64 list \<Rightarrow> bool" where
  "in_time s ts \<longleftrightarrow> in_line s ts \<and> \<not> need_resched s \<and> (\<forall>t\<in>set ts. \<exists>n. slices s t = Some n \<and> n < MAX_SLICES)"

definition used :: "sched \<Rightarrow> nat" where
  "used s = (case slices s (current_task s) of Some n \<Rightarrow> unat n | None \<Rightarrow> 0)"

text \<open>The time slice of a task is nothing the queue or the scheduler look at.\<close>

lemma slice_ok:
  assumes "sched_ok s q" "tasks s t = Some tk"
  shows "sched_ok (s\<lparr>tasks := (tasks s)(t \<mapsto> tk\<lparr>tk_time_slice := n\<rparr>)\<rparr>) q"
    "st (s\<lparr>tasks := (tasks s)(t \<mapsto> tk\<lparr>tk_time_slice := n\<rparr>)\<rparr>) = st s"
proof -
  let ?s = "s\<lparr>tasks := (tasks s)(t \<mapsto> tk\<lparr>tk_time_slice := n\<rparr>)\<rparr>"
  have r: "rq s q" using assms(1) by (simp add: sched_ok_def)
  have "rq ?s q" by (rule rq_upd_task [OF r assms(2)]) simp
  moreover have "vr ?s = vr s" by (auto simp: vr_def fun_eq_iff assms(2))
  moreover show st: "st ?s = st s" by (auto simp: st_def fun_eq_iff assms(2))
  moreover have "present ?s u" if "present s u" for u by (rule present_upd_task [OF that])
  ultimately show "sched_ok ?s q" using assms(1) by (simp add: sched_ok_def)
qed

lemma tick_correct:
  assumes L: "in_time s (t # ts)" and n: "slices s t = Some n"
  shows "\<exists>l' d' s'. tick b frame (l, d, s) = Some (l', d', s')
    \<and> (if n + 1 < MAX_SLICES then in_time s' (t # ts) \<and> slices s' t = Some (n + 1) else in_time s' (ts @ [t]))"
proof -
  obtain q where q: "sched_ok s q" "ts = q" "t = current_task s" "st s t = Some S_TASK_RUNNABLE"
    using L by (auto simp: in_time_def in_line_def)
  have nr: "\<not> need_resched s" and b: "\<And>u. u \<in> set (t # ts) \<Longrightarrow> \<exists>n. slices s u = Some n \<and> n < MAX_SLICES"
    using L by (auto simp: in_time_def)
  have tq: "t \<notin> set ts" using q by (simp add: sched_ok_def)
  obtain tk where tk: "tasks s t = Some tk" "tk_time_slice tk = n" using n by (auto simp: slices_def)
  define s1 where "s1 = s\<lparr>tasks := (tasks s)(t \<mapsto> tk\<lparr>tk_time_slice := n + 1\<rparr>)\<rparr>"
  have u1: "upd_task t (\<lambda>tk. tk\<lparr>tk_time_slice := tk_time_slice tk + 1\<rparr>) s = Some s1" by (simp add: upd_task_def tk s1_def)
  have t1: "tasks s1 t = Some (tk\<lparr>tk_time_slice := n + 1\<rparr>)" "need_resched s1 = need_resched s" by (simp_all add: s1_def)
  have nm: "n < MAX_SLICES" using b [of t] n by auto
  show ?thesis
  proof (cases "n + 1 < MAX_SLICES")
    case True
    then have lt: "\<not> MAX_SLICES \<le> n + 1" by simp
    have e: "tick b frame (l, d, s) = Some (l\<lparr>counter := counter l + 1\<rparr>, lapic_eoi b (l\<lparr>counter := counter l + 1\<rparr>) d, s1)"
      using lt nr by (simp add: tick_def lapic_timer_handler_def Let_def q(3) [symmetric] u1 t1)
    have ok: "sched_ok s1 q" "st s1 = st s" unfolding s1_def by (rule slice_ok [OF q(1) tk(1)])+
    have c: "current_task s1 = t" by (simp add: s1_def q(3))
    have sl: "slices s1 = (slices s)(t := Some (n + 1))" by (auto simp: slices_def s1_def fun_eq_iff)
    have "in_line s1 (t # ts)" unfolding in_line_def using ok q c by auto
    then have "in_time s1 (t # ts)" using b nr t1(2) True tq unfolding in_time_def sl by auto
    then show ?thesis using e True sl by auto
  next
    case False
    then have ge: "MAX_SLICES \<le> n + 1" by simp
    define s2 where "s2 = s\<lparr>tasks := (tasks s)(t \<mapsto> tk\<lparr>tk_time_slice := 0\<rparr>)\<rparr>"
    have u2: "upd_task t (\<lambda>tk. tk\<lparr>tk_time_slice := 0\<rparr>) s1 = Some s2" by (simp add: upd_task_def s1_def s2_def)
    have ok: "sched_ok s2 q" "st s2 = st s" unfolding s2_def by (rule slice_ok [OF q(1) tk(1)])+
    have c: "current_task s2 = t" by (simp add: s2_def q(3))
    have sl: "slices s2 = (slices s)(t := Some 0)" by (auto simp: slices_def s2_def fun_eq_iff)
    have f: "sched_ok (s2\<lparr>need_resched := True\<rparr>) q" using ok(1) by (simp add: sched_ok_def)
    have Q: "queue_after (s2\<lparr>need_resched := True\<rparr>) q = q @ [t]" using c ok(2) q(4) by (simp add: queue_after_def)
    obtain s' where s': "schedule (s2\<lparr>need_resched := True\<rparr>) = Some s'" "sched_ok s' (tl (q @ [t]))" "st s' = st s"
      "current_task s' = hd (q @ [t])" "\<not> need_resched s'" "slices s' = slices s2"
      by (rule schedule_correct [OF f]) (use Q ok(2) that in \<open>cases q; auto\<close>)
    have e: "tick b frame (l, d, s) = Some (l\<lparr>counter := counter l + 1\<rparr>, lapic_eoi b (l\<lparr>counter := counter l + 1\<rparr>) d, s')"
      using ge by (simp add: tick_def lapic_timer_handler_def Let_def q(3) [symmetric] u1 t1 u2 s'(1))
    have r: "st s (hd (q @ [t])) = Some S_TASK_RUNNABLE" using q by (cases q) (auto simp: sched_ok_def)
    have "in_line s' (q @ [t])"
      unfolding in_line_def by (intro exI [of _ "tl (q @ [t])"]) (use s' r in \<open>cases q; simp\<close>)
    then have "in_time s' (ts @ [t])"
      using b s'(5) tq unfolding in_time_def s'(6) sl q(2) [symmetric] by (auto simp: MAX_SLICES_def)
    then show ?thesis using e False by auto
  qed
qed

section \<open>A time slot\<close>

text \<open>The ticks until the running task has used up its slice are one turn.\<close>

definition slot :: "'d bus \<Rightarrow> interrupt_frame \<Rightarrow> lapic \<times> 'd \<times> sched \<Rightarrow> (lapic \<times> 'd \<times> sched) option" where
  "slot b frame = (\<lambda>(l, d, s). iterate (tick b frame) (10 - used s) (l, d, s))"

lemma slot_rest:
  "in_time s (t # ts) \<Longrightarrow> slices s t = Some n \<Longrightarrow> k = 10 - unat n
    \<Longrightarrow> \<exists>l' d' s'. iterate (tick b frame) k (l, d, s) = Some (l', d', s') \<and> in_time s' (ts @ [t])"
proof (induction k arbitrary: l d s n)
  case 0
  then have "n < MAX_SLICES" by (auto simp: in_time_def)
  then have "unat n < 10" by (simp add: MAX_SLICES_def word_less_nat_alt)
  then show ?case using 0 by simp
next
  case (Suc k)
  have "n < MAX_SLICES" using Suc.prems(1,2) by (auto simp: in_time_def)
  then have n: "unat n < 10" by (simp add: MAX_SLICES_def word_less_nat_alt)
  then have n1: "unat (n + 1) = unat n + 1" by (simp add: unat_word_ariths)
  obtain l' d' s' where t: "tick b frame (l, d, s) = Some (l', d', s')"
    "if n + 1 < MAX_SLICES then in_time s' (t # ts) \<and> slices s' t = Some (n + 1) else in_time s' (ts @ [t])"
    using tick_correct [OF Suc.prems(1,2), of b frame l d] by (elim exE conjE) (rule that)
  show ?case
  proof (cases "n + 1 < MAX_SLICES")
    case True
    then have "in_time s' (t # ts)" "slices s' t = Some (n + 1)" using t(2) by simp_all
    moreover have "k = 10 - unat (n + 1)" using Suc.prems(3) n1 by linarith
    ultimately have "\<exists>l'' d'' s''. iterate (tick b frame) k (l', d', s') = Some (l'', d'', s'') \<and> in_time s'' (ts @ [t])"
      by (rule Suc.IH)
    then show ?thesis using t(1) by simp
  next
    case False
    then have "10 \<le> unat n + 1" by (simp add: MAX_SLICES_def word_less_nat_alt n1)
    then have "k = 0" using Suc.prems(3) by simp
    then show ?thesis using t False by simp
  qed
qed

definition timed_line :: "lapic \<times> 'd \<times> sched \<Rightarrow> u64 list \<Rightarrow> bool" where
  "timed_line = (\<lambda>(l, d, s). in_time s)"

interpretation slots: round_robin timed_line "\<lambda>(l, d, s). current_task s" "slot b frame" for b :: "'d bus" and frame
proof unfold_locales
  fix k :: "lapic \<times> 'd \<times> sched" and ts
  assume "timed_line k ts"
  then show "ts \<noteq> [] \<and> (case k of (l, d, s) \<Rightarrow> current_task s) = hd ts"
    by (auto simp: timed_line_def in_time_def in_line_def)
next
  fix k :: "lapic \<times> 'd \<times> sched" and ts
  assume L: "timed_line k ts"
  obtain l d s where k: "k = (l, d, s)" by (cases k) auto
  obtain t us where ts: "ts = t # us" "t = current_task s" using L by (auto simp: timed_line_def k in_time_def in_line_def)
  have i: "in_time s (t # us)" using L by (simp add: timed_line_def k ts)
  obtain n where n: "slices s t = Some n" using i by (auto simp: in_time_def)
  have "10 - used s = 10 - unat n" using n by (simp add: used_def ts)
  from slot_rest [OF i n this, of b frame l d]
  show "\<exists>k'. slot b frame k = Some k' \<and> timed_line k' (rotate1 ts)"
    by (auto simp: slot_def k timed_line_def ts)
qed

lemma iterate_add: "iterate f (m + n) s = do { s' \<leftarrow> iterate f m s; iterate f n s' }"
proof (induction m arbitrary: s)
  case (Suc m)
  then have "iterate f (m + n) = (\<lambda>s. do { s' \<leftarrow> iterate f m s; iterate f n s' })" by (rule ext)
  then show ?case by (simp add: bind_assoc)
qed simp

lemma slots_ticks:
  "iterate (slot b frame) i k = Some k' \<Longrightarrow> \<exists>n \<le> 10 * i. iterate (tick b frame) n k = Some k'"
proof (induction i arbitrary: k)
  case (Suc i)
  obtain l d s where k: "k = (l, d, s)" by (cases k) auto
  obtain k1 where k1: "slot b frame k = Some k1" "iterate (slot b frame) i k1 = Some k'"
    using Suc.prems by (auto simp: bind_eq_Some_conv)
  obtain n where n: "n \<le> 10 * i" "iterate (tick b frame) n k1 = Some k'" using Suc.IH [OF k1(2)] by blast
  have "iterate (tick b frame) (10 - used s) k = Some k1" using k1(1) by (simp add: slot_def k)
  then have "iterate (tick b frame) (10 - used s + n) k = Some k'" using n(2) by (simp add: iterate_add)
  then show ?case using n(1) by (intro exI [of _ "10 - used s + n"]) simp
qed simp

section \<open>Property\<close>

text \<open>
  C11: Preemption is fair. When the queue is in the state the scheduler's steps keep it in and no runnable task has
  used up its ten ticks, timer interrupts alone, with no task ever yielding, bring the task at place
  \<open>i\<close> of the line to run within \<open>10 * i\<close> ticks, and none of these interrupts fails.
\<close>

theorem timer_preemption_fair:
  assumes "sched_ok s q" "st s (current_task s) = Some S_TASK_RUNNABLE" "\<not> need_resched s"
    and "\<forall>t\<in>set (current_task s # q). \<exists>n. slices s t = Some n \<and> n < MAX_SLICES" and "i \<le> length q"
  shows "\<exists>n \<le> 10 * i. \<exists>l' d' s'. iterate (tick b frame) n (l, d, s) = Some (l', d', s') \<and> current_task s' = (current_task s # q) ! i"
proof -
  have "timed_line (l, d, s) (current_task s # q)" using assms(1-4) by (auto simp: timed_line_def in_time_def in_line_def)
  moreover have "i < length (current_task s # q)" using assms(5) by simp
  ultimately obtain k' where "iterate (slot b frame) i (l, d, s) = Some k'" "(case k' of (l, d, s) \<Rightarrow> current_task s) = (current_task s # q) ! i"
    using slots.runs_in_turn [of "(l, d, s)" "current_task s # q" i b frame] by blast
  then show ?thesis using slots_ticks by (cases k') fastforce
qed

definition some_frame :: interrupt_frame where
  "some_frame = read_frame (\<lambda>_. 0) 0"

definition null_bus :: "nat bus" where
  "null_bus = \<lparr>bus_out = \<lambda>_ _ d. d, bus_in = \<lambda>_ d. (0, d), bus_store = \<lambda>_ _ d. d + 1, bus_load = \<lambda>_ d. (0, d),
     bus_wrmsr = \<lambda>_ _ d. d, bus_rdmsr = \<lambda>_ _. 0\<rparr>"

theorem timer_preemption_fair_witness:
  "\<exists>n \<le> 20. \<exists>l' d' s'. iterate (tick null_bus some_frame) n (\<lparr>lapic_base = 0, counter = 0, lapic_ticks_per_ms = 0\<rparr>, 0, three\<lparr>need_resched := False\<rparr>)
     = Some (l', d', s') \<and> current_task s' = 0x3000"
proof -
  let ?s = "three\<lparr>need_resched := False\<rparr>"
  have ok: "sched_ok ?s [0x2000, 0x3000]" using three_ok by (simp add: sched_ok_def)
  have c: "st ?s (current_task ?s) = Some S_TASK_RUNNABLE" "\<not> need_resched ?s" by (simp_all add: st_def three_def task_at_def)
  have l: "2 \<le> length [0x2000, 0x3000 :: u64]" by simp
  have sl: "\<forall>t\<in>set (current_task ?s # [0x2000, 0x3000]). \<exists>n. slices ?s t = Some n \<and> n < MAX_SLICES"
    by (simp add: slices_def three_def task_at_def MAX_SLICES_def)
  show ?thesis using timer_preemption_fair [OF ok c sl l, of null_bus some_frame] by simp
qed

end
