(* ===== verification/Task_Switch.thy ===== *)
theory Task_Switch
  imports Lapic Kmalloc
begin

text \<open>
  Making tasks and switching between them: \<^verbatim>\<open>src/kernel/arch/x86_64/sched/task.c\<close>, \<^verbatim>\<open>switch.asm\<close>,
  \<^verbatim>\<open>returns.asm\<close>, \<^verbatim>\<open>sched/task.c\<close> and the parts of \<^verbatim>\<open>runq.c\<close> and \<^verbatim>\<open>scheduler.c\<close> that create tasks. The
  machine is the processor, the heap with its memory, the scheduler's state and the address spaces, by
  their addresses. A compiled C routine that an assembly routine calls is its effect on this state; the
  registers it may use as scratch are left alone, and no property is about them.
\<close>

record machine =
  mc_cpu :: cpu
  mc_cr3 :: u64
  mc_heap :: kheap
  mc_sched :: sched
  mc_maps :: "u64 \<rightharpoonup> vm_map"

text \<open>What the linker knows: the addresses of code, and of per-CPU data.\<close>

record labels =
  at_kfork_return :: u64
  at_after_entry :: u64
  at_after_switch_pt :: u64
  at_utask_trampoline :: u64
  at_idle_task :: u64
  at_percpu_start :: u64
  at_preempt_count :: u64
  at_kernel_vm_map :: u64
  at_kernel_phys :: u64
  at_kernel_virt :: u64

text \<open>Instructions on the processor and the memory of the machine.\<close>

definition on_stack :: "(cpu \<times> cells \<Rightarrow> cpu \<times> cells) \<Rightarrow> machine \<Rightarrow> machine" where
  "on_stack f M =
     (let (c, m) = f (mc_cpu M, mem (heap (mc_heap M)))
      in M\<lparr>mc_cpu := c, mc_heap := (mc_heap M)\<lparr>heap := (heap (mc_heap M))\<lparr>mem := m\<rparr>\<rparr>\<rparr>)"

section \<open>The context switch\<close>

definition pmap_switch_pt :: "page_table_t \<Rightarrow> machine \<Rightarrow> machine" where
  "pmap_switch_pt t M = M\<lparr>mc_cr3 := pml4_phy t\<rparr>"

definition ret :: "cpu \<times> cells \<Rightarrow> cpu \<times> cells" where
  "ret = pop (\<lambda>v. rip_update (\<lambda>_. v))"

definition pop_callee_saved :: "cpu \<times> cells \<Rightarrow> cpu \<times> cells" where
  "pop_callee_saved st =
     (let st = pop (\<lambda>v. r15_update (\<lambda>_. v)) st; st = pop (\<lambda>v. r14_update (\<lambda>_. v)) st;
          st = pop (\<lambda>v. r13_update (\<lambda>_. v)) st; st = pop (\<lambda>v. r12_update (\<lambda>_. v)) st;
          st = pop (\<lambda>v. rbp_update (\<lambda>_. v)) st
      in pop (\<lambda>v. rbx_update (\<lambda>_. v)) st)"

text \<open>\<open>__switch_to\<close>; the per-CPU variables are set by \<open>switch_to\<close> of the scheduler's theory.\<close>

definition switch_registers :: "labels \<Rightarrow> u64 \<Rightarrow> u64 \<Rightarrow> machine \<Rightarrow> machine option" where
  "switch_registers lb prev next M =
     do {
       let c = mc_cpu M;
       let M = on_stack (pushes [rbx c, rbp c, r12 c, r13 c, r14 c, r15 c]) M;
       s \<leftarrow> upd_task prev (\<lambda>tk. tk\<lparr>tk_stack := rsp (mc_cpu M)\<rparr>) (mc_sched M);
       tk \<leftarrow> tasks s next;
       let M = M\<lparr>mc_cpu := (mc_cpu M)\<lparr>rsp := tk_stack tk\<rparr>\<rparr>;
       let M = on_stack (pushes [rdi (mc_cpu M), rax (mc_cpu M)]) M;
       s \<leftarrow> switch_to prev next s;
       vm \<leftarrow> mc_maps M (tk_vmap tk);
       let M = on_stack (push (at_after_switch_pt lb)) (M\<lparr>mc_sched := s\<rparr>);
       let M = pmap_switch_pt (vm_pt vm) M;
       let M = on_stack ret M;
       let M = on_stack (pop (\<lambda>v. rax_update (\<lambda>_. v))) M;
       let M = on_stack (pop (\<lambda>v. rdi_update (\<lambda>_. v))) M;
       let M = M\<lparr>mc_cpu := (mc_cpu M)\<lparr>r8 := at_preempt_count lb - at_percpu_start lb, r11 := at_percpu_start lb\<rparr>\<rparr>;
       Some (on_stack (\<lambda>st. ret (pop_callee_saved st)) M)
     }"

text \<open>\<open>__kfork_return\<close> up to the first instruction of the task.\<close>

definition kfork_return :: "labels \<Rightarrow> cpu \<times> cells \<Rightarrow> cpu \<times> cells" where
  "kfork_return lb st =
     (let st = pop (\<lambda>v. rdi_update (\<lambda>_. v)) st;
          (c, m) = pop (\<lambda>v. rax_update (\<lambda>_. v)) st;
          (c, m) = push (at_after_entry lb) (c\<lparr>rflags := rflags c OR FLAG_IF\<rparr>, m)
      in (c\<lparr>rip := rax c\<rparr>, m))"

text \<open>\<open>__execve_return\<close>, with the user segments of \<^verbatim>\<open>gdt.h\<close>.\<close>

definition USER_DS :: u16 where "USER_DS = GDT_SEL GDT_ENTRY_USER_DS"
definition USER_CS :: u16 where "USER_CS = GDT_SEL GDT_ENTRY_USER_CS"

definition execve_return :: "u64 \<Rightarrow> u64 \<Rightarrow> cpu \<times> cells \<Rightarrow> cpu \<times> cells" where
  "execve_return ent sp = (\<lambda>(c, m).
     (let (c, m) = push (rflags c) (c\<lparr>rdi := ent, rsi := sp\<rparr>, m);
          (c, m) = pop (\<lambda>v. rax_update (\<lambda>_. v)) (c, m);
          c = c\<lparr>rax := rax c OR 0x200\<rparr>
      in iretq (pushes [ucast USER_DS OR 3, rsi c, rax c, ucast USER_CS OR 3, rdi c] (c, m))))"

section \<open>Creating a task\<close>

definition KSTACK_PAGES :: u64 where "KSTACK_PAGES = 2"
definition KSTACK_SIZE :: u64 where "KSTACK_SIZE = KSTACK_PAGES * PAGE_SIZE"
definition sizeof_task :: u64 where "sizeof_task = 128"

definition null_task :: task where
  "null_task = \<lparr>tk_stack = 0, tk_kstack_top = 0, tk_tid = 0, tk_tgid = 0, tk_flags = 0, tk_vmap = 0, tk_state = S_TASK_INIT,
     tk_prio = 0, tk_vruntime = 0, tk_time_slice = 0, tk_thread = \<lparr>th_sp = 0, th_pc = 0\<rparr>, tk_stack_base = 0, tk_stack_size = 0\<rparr>"

text \<open>\<open>*--stack = v\<close>, for several words.\<close>

fun store_down :: "u64 list \<Rightarrow> u64 \<Rightarrow> kstate \<Rightarrow> u64 \<times> kstate" where
  "store_down [] stack k = (stack, k)"
| "store_down (v # vs) stack k = store_down vs (stack - 8) (write_cell k (stack - 8) v)"

definition ktask_spawn :: "labels \<Rightarrow> u64 \<Rightarrow> u64 \<Rightarrow> kheap \<times> sched \<Rightarrow> (u64 \<times> kheap \<times> sched) option" where
  "ktask_spawn lb entry args = (\<lambda>(h, s).
     do {
       (t, h) \<leftarrow> kmalloc sizeof_task h;
       if t = 0 then None
       else do {
         let s = s\<lparr>tasks := (tasks s)(t \<mapsto> null_task),
                   rb_nodes := (rb_nodes s)(node_of t \<mapsto> \<lparr>rb_parent_color = 0, rb_right = 0, rb_left = 0\<rparr>)\<rparr>;
         s \<leftarrow> upd_task t (\<lambda>tk. tk\<lparr>tk_flags := 0\<rparr>) s;
         let (tid, s) = alloc_tid s;
         s \<leftarrow> upd_task t (\<lambda>tk. tk\<lparr>tk_tid := tid\<rparr>) s;
         s \<leftarrow> upd_task t (\<lambda>tk. tk\<lparr>tk_tgid := tk_tid tk\<rparr>) s;
         (phys, k) \<leftarrow> k_alloc_pages (heap h) KSTACK_PAGES;
         let kstack = KSTACK_SIZE + phys_to_higher_half_data k phys;
         s \<leftarrow> upd_task t (\<lambda>tk. tk\<lparr>tk_stack_base := kstack - KSTACK_SIZE, tk_stack_size := KSTACK_SIZE, tk_kstack_top := kstack\<rparr>) s;
         s \<leftarrow> upd_task t (\<lambda>tk. tk\<lparr>tk_vmap := at_kernel_vm_map lb\<rparr>) s;
         let (stack, k) = store_down [entry, args, at_kfork_return lb] kstack k;
         let (stack, k) = store_down (replicate 6 0) stack k;
         s \<leftarrow> upd_task t (\<lambda>tk. tk\<lparr>tk_stack := stack\<rparr>) s;
         s \<leftarrow> upd_task t (\<lambda>tk. tk\<lparr>tk_state := S_TASK_INIT\<rparr>) s;
         Some (t, h\<lparr>heap := k\<rparr>, s)
       }
     })"

definition utask_spawn :: "labels \<Rightarrow> u64 \<Rightarrow> u64 \<Rightarrow> kheap \<times> sched \<Rightarrow> (u64 \<times> kheap \<times> sched) option" where
  "utask_spawn lb entry args = (\<lambda>(h, s).
     do {
       (start, h) \<leftarrow> kmalloc 16 h;
       if start = 0 then Some (0, h, s)
       else do {
         let h = h\<lparr>heap := write_cell (write_cell (heap h) start entry) (start + 8) args\<rparr>;
         (t, h, s) \<leftarrow> ktask_spawn lb (at_utask_trampoline lb) start (h, s);
         if t = 0 then do { h \<leftarrow> kfree start h; Some (0, h, s) }
         else Some (t, h, s)
       }
     })"

section \<open>Starting the scheduler\<close>

text \<open>\<open>init_runq\<close> and \<open>init_scheduler\<close> with their allocations.\<close>

definition init_scheduler :: "labels \<Rightarrow> kheap \<times> sched \<Rightarrow> (kheap \<times> sched) option" where
  "init_scheduler lb = (\<lambda>(h, s).
     do {
       let s = s\<lparr>need_resched := False\<rparr>;
       (rq, h) \<leftarrow> kmalloc 32 h;
       if rq = 0 then None
       else do {
         (idle, h, s) \<leftarrow> ktask_spawn lb (at_idle_task lb) 0 (h, s);
         s \<leftarrow> init_runq idle s;
         Some (h, s)
       }
     })"

definition sched_run_bsp :: "labels \<Rightarrow> 'd bus \<Rightarrow> u64 \<Rightarrow> lapic \<Rightarrow> 'd \<times> kheap \<times> sched \<Rightarrow> ('d \<times> kheap \<times> sched) option" where
  "sched_run_bsp lb b bsp l = (\<lambda>(d, h, s).
     do {
       (t, h, s) \<leftarrow> ktask_spawn lb bsp 0 (h, s);
       s \<leftarrow> task_wake t s;
       d \<leftarrow> lapic_timer_start b l 1000 d;
       s \<leftarrow> sched_yield s;
       Some (d, h, s)
     })"

section \<open>Becoming a user task\<close>

definition UTASK_ENTRY :: u64 where "UTASK_ENTRY = 0x1000"
definition UTASK_STACK_BOTTOM :: u64 where "UTASK_STACK_BOTTOM = 0x3000"
definition UTASK_STACK_TOP :: u64 where "UTASK_STACK_TOP = 0x5000"

text \<open>One turn of the loop that maps the stack.\<close>

definition map_user_stack_page :: "page_table_t \<Rightarrow> u64 \<Rightarrow> kstate \<Rightarrow> kstate option" where
  "map_user_stack_page pt off k =
     do {
       (phys, k) \<leftarrow> k_alloc_page k;
       let page = phys_to_higher_half_data k phys;
       (_, k) \<leftarrow> pmap_map_page k pt (UTASK_STACK_BOTTOM + off) (ALIGN_DOWN (higher_half_data_to_phys k page) PAGE_SIZE)
                  (MMU_FLAG_USER OR MMU_FLAG_WRITE OR MMU_FLAG_PRESENT);
       Some k
     }"

definition map_user_image :: "page_table_t \<Rightarrow> u64 \<Rightarrow> kstate \<Rightarrow> kstate option" where
  "map_user_image pt fn_phys k =
     do {
       (_, k) \<leftarrow> pmap_map_page k pt UTASK_ENTRY (ALIGN_DOWN fn_phys PAGE_SIZE) (MMU_FLAG_USER OR MMU_FLAG_PRESENT);
       (_, k) \<leftarrow> pmap_map_page k pt (UTASK_ENTRY + PAGE_SIZE) (ALIGN_DOWN (fn_phys + PAGE_SIZE) PAGE_SIZE) (MMU_FLAG_USER OR MMU_FLAG_PRESENT);
       k \<leftarrow> map_user_stack_page pt 0 k;
       map_user_stack_page pt PAGE_SIZE k
     }"

definition ktask_execve :: "labels \<Rightarrow> u64 \<Rightarrow> u64 \<Rightarrow> machine \<Rightarrow> machine option" where
  "ktask_execve lb fn args M =
     do {
       (vm, k) \<leftarrow> vm_map_create (heap (mc_heap M));
       vm \<leftarrow> vm;
       s \<leftarrow> upd_task (current_task (mc_sched M)) (\<lambda>tk. tk\<lparr>tk_vmap := vm_addr vm\<rparr>) (mc_sched M);
       let fn_phys = kernel_virt_to_phys (at_kernel_phys lb) (at_kernel_virt lb) fn;
       k \<leftarrow> map_user_image (vm_pt vm) fn_phys k;
       (code, h) \<leftarrow> kmalloc 48 ((mc_heap M)\<lparr>heap := k\<rparr>);
       (stack, h) \<leftarrow> kmalloc 48 h;
       if code = 0 \<or> stack = 0 then None
       else do {
         let vm = vm\<lparr>areas := map_user_vm_area_code_and_stack code stack (areas vm)\<rparr>;
         let M = pmap_switch_pt (vm_pt vm) (M\<lparr>mc_heap := h, mc_maps := (mc_maps M)(vm_addr vm \<mapsto> vm)\<rparr>);
         let M = M\<lparr>mc_sched := s\<lparr>preempt_count := preempt_count s - 1\<rparr>\<rparr>;
         let entry = UTASK_ENTRY + (fn AND (PAGE_SIZE - 1));
         Some (on_stack (execve_return entry UTASK_STACK_TOP) M)
       }
     }"

text \<open>The kernel side of a user task's start.\<close>

definition utask_trampoline :: "labels \<Rightarrow> u64 \<Rightarrow> machine \<Rightarrow> machine option" where
  "utask_trampoline lb arg M =
     do {
       let entry = mem (heap (mc_heap M)) arg;
       let args = mem (heap (mc_heap M)) (arg + 8);
       h \<leftarrow> kfree arg (mc_heap M);
       ktask_execve lb entry args (M\<lparr>mc_heap := h\<rparr>)
     }"

end
