(* ===== verification/Task_Context.thy ===== *)
theory Task_Context
  imports Task_Switch
begin

text \<open>
  What the context switch does to the processor, the stacks and the scheduler.
\<close>

abbreviation cells_of :: "machine \<Rightarrow> cells" where "cells_of M \<equiv> mem (heap (mc_heap M))"

lemma on_stack_simps [simp]:
  "mc_cpu (on_stack f M) = fst (f (mc_cpu M, cells_of M))" "cells_of (on_stack f M) = snd (f (mc_cpu M, cells_of M))"
  "mc_sched (on_stack f M) = mc_sched M" "mc_cr3 (on_stack f M) = mc_cr3 M" "mc_maps (on_stack f M) = mc_maps M"
  by (simp_all add: on_stack_def split: prod.split)

text \<open>The \<open>n\<close> cells below an address.\<close>

definition down :: "u64 \<Rightarrow> nat \<Rightarrow> u64 set" where
  "down sp n = (\<lambda>i. sp - 8 * of_nat i) ` {1..n}"

lemma pushes_frame: "length vs < 2 ^ 59 \<Longrightarrow> a \<notin> down (rsp c) (length vs) \<Longrightarrow> snd (pushes vs (c, m)) a = m a"
proof (rule pushes_correct(3), assumption)
  fix i assume "a \<notin> down (rsp c) (length vs)" "i < length vs"
  then show "a \<noteq> rsp c - 8 * of_nat (Suc i)" unfolding down_def by (auto simp del: of_nat_Suc)
qed

lemma down_numeral: "down sp 3 = {sp - 8, sp - 16, sp - 24}"
proof -
  have "{1..3} = {1, 2, 3 :: nat}" by auto
  then show ?thesis by (simp add: down_def)
qed

lemma switch_registers_correct:
  assumes run: "switch_registers lb a b M = Some M'" and b: "tasks (mc_sched M) b = Some tb" and ab: "a \<noteq> b"
    and m1: "m1 = snd (pushes [rbx (mc_cpu M), rbp (mc_cpu M), r12 (mc_cpu M), r13 (mc_cpu M), r14 (mc_cpu M), r15 (mc_cpu M)]
      (mc_cpu M, cells_of M))"
    and sp: "sp = tk_stack tb"
  obtains ta vm where "tasks (mc_sched M) a = Some ta" "mc_maps M (tk_vmap tb) = Some vm"
    "\<And>x. x \<notin> down sp 3 \<Longrightarrow> cells_of M' x = m1 x"
    "r15 (mc_cpu M') = m1 sp" "r14 (mc_cpu M') = m1 (sp + 8)" "r13 (mc_cpu M') = m1 (sp + 16)" "r12 (mc_cpu M') = m1 (sp + 24)"
    "rbp (mc_cpu M') = m1 (sp + 32)" "rbx (mc_cpu M') = m1 (sp + 40)" "rip (mc_cpu M') = m1 (sp + 48)" "rsp (mc_cpu M') = sp + 56"
    "rflags (mc_cpu M') = rflags (mc_cpu M)" "mc_cr3 M' = pml4_phy (vm_pt vm)"
    "tasks (mc_sched M') = (tasks (mc_sched M))(a \<mapsto> ta\<lparr>tk_stack := rsp (mc_cpu M) - 48\<rparr>)"
    "current_task (mc_sched M') = b" "tss_rsp0 (mc_sched M') = tk_kstack_top tb"
    "preempt_count (mc_sched M') = preempt_count (mc_sched M) - 1"
proof -
  let ?L = "[rbx (mc_cpu M), rbp (mc_cpu M), r12 (mc_cpu M), r13 (mc_cpu M), r14 (mc_cpu M), r15 (mc_cpu M)]"
  define M1 where "M1 = on_stack (pushes ?L) M"
  have c1: "mc_cpu M1 = (mc_cpu M)\<lparr>rsp := rsp (mc_cpu M) - 48\<rparr>"
    using pushes_correct(1) [of ?L "mc_cpu M" "cells_of M"] by (simp add: M1_def)
  have e1: "cells_of M1 = m1" "mc_sched M1 = mc_sched M" "mc_maps M1 = mc_maps M" by (simp_all add: M1_def m1)
  obtain ta where ta: "tasks (mc_sched M) a = Some ta"
    using run by (auto simp: switch_registers_def upd_task_def Let_def bind_eq_Some_conv M1_def [symmetric] e1)
  obtain vm where vm: "mc_maps M (tk_vmap tb) = Some vm"
    using run ab by (auto simp: switch_registers_def upd_task_def Let_def bind_eq_Some_conv M1_def [symmetric] e1 b switch_to_def)
  define m2 where "m2 = m1(sp - 8 := rdi (mc_cpu M), sp - 16 := rax (mc_cpu M), sp - 24 := at_after_switch_pt lb)"
  have m2: "m2 x = m1 x" if "x \<notin> down sp 3" for x using that by (simp add: m2_def down_numeral)
  have up: "sp \<notin> down sp 3" "sp + 8 \<notin> down sp 3" "sp + 16 \<notin> down sp 3" "sp + 24 \<notin> down sp 3" "sp + 32 \<notin> down sp 3"
    "sp + 40 \<notin> down sp 3" "sp + 48 \<notin> down sp 3"
    by (simp_all add: down_numeral)
  have reg: "m2 sp = m1 sp" "m2 (sp + 8) = m1 (sp + 8)" "m2 (sp + 16) = m1 (sp + 16)" "m2 (sp + 24) = m1 (sp + 24)"
    "m2 (sp + 32) = m1 (sp + 32)" "m2 (sp + 40) = m1 (sp + 40)" "m2 (sp + 48) = m1 (sp + 48)"
    by (rule m2 [OF up(1)] m2 [OF up(2)] m2 [OF up(3)] m2 [OF up(4)] m2 [OF up(5)] m2 [OF up(6)] m2 [OF up(7)])+
  have top: "m2 (sp - 24) = at_after_switch_pt lb" "m2 (sp - 16) = rax (mc_cpu M)" "m2 (sp - 8) = rdi (mc_cpu M)"
    by (simp_all add: m2_def)
  have M': "cells_of M' = m2 \<and> mc_cr3 M' = pml4_phy (vm_pt vm)
    \<and> mc_sched M' = (mc_sched M)\<lparr>tasks := (tasks (mc_sched M))(a \<mapsto> ta\<lparr>tk_stack := rsp (mc_cpu M) - 48\<rparr>), current_task := b,
        tss_rsp0 := tk_kstack_top tb, preempt_count := preempt_count (mc_sched M) - 1\<rparr>
    \<and> mc_cpu M' = (mc_cpu M)\<lparr>r8 := at_preempt_count lb - at_percpu_start lb, r11 := at_percpu_start lb, r15 := m1 sp, r14 := m1 (sp + 8),
        r13 := m1 (sp + 16), r12 := m1 (sp + 24), rbp := m1 (sp + 32), rbx := m1 (sp + 40), rip := m1 (sp + 48), rsp := sp + 56\<rparr>"
    using run ab ta vm unfolding switch_registers_def Let_def M1_def [symmetric]
    by (auto simp: c1 e1 upd_task_def b switch_to_def push_def ret_def pop_callee_saved_def Let_def pmap_switch_pt_def
        sp [symmetric] m2_def [symmetric] reg top add.assoc)
  show thesis
    by (rule that [OF ta vm]) (use M' m2 in simp_all)
qed

lemma switch_registers_runs:
  assumes "tasks (mc_sched M) a = Some ta" "tasks (mc_sched M) b = Some tb" "a \<noteq> b" "mc_maps M (tk_vmap tb) = Some vm"
  shows "\<exists>M'. switch_registers lb a b M = Some M' \<and> mc_maps M' = mc_maps M"
  using assms by (simp add: switch_registers_def upd_task_def Let_def switch_to_def pmap_switch_pt_def)

text \<open>What the six pushes of the outgoing task leave below its stack pointer.\<close>

lemma pushed_context:
  assumes "m1 = snd (pushes [rbx c, rbp c, r12 c, r13 c, r14 c, r15 c] (c, m))"
  shows "m1 (rsp c - 48) = r15 c" "m1 (rsp c - 40) = r14 c" "m1 (rsp c - 32) = r13 c" "m1 (rsp c - 24) = r12 c"
    "m1 (rsp c - 16) = rbp c" "m1 (rsp c - 8) = rbx c" "m1 (rsp c) = m (rsp c)"
    and "\<And>x. x \<notin> down (rsp c) 6 \<Longrightarrow> m1 x = m x"
proof -
  show "m1 (rsp c - 48) = r15 c" "m1 (rsp c - 40) = r14 c" "m1 (rsp c - 32) = r13 c" "m1 (rsp c - 24) = r12 c"
    "m1 (rsp c - 16) = rbp c" "m1 (rsp c - 8) = rbx c" "m1 (rsp c) = m (rsp c)"
    unfolding assms by (simp_all add: push_def)
  have len: "length [rbx c, rbp c, r12 c, r13 c, r14 c, r15 c] = 6" by simp
  show "m1 x = m x" if "x \<notin> down (rsp c) 6" for x
    unfolding assms using that pushes_frame [of "[rbx c, rbp c, r12 c, r13 c, r14 c, r15 c]" x c m, unfolded len] by simp
qed

text \<open>The saved context of a task whose stack pointer was \<open>sp\<close>: six registers and the return address.\<close>

definition context_cells :: "u64 \<Rightarrow> u64 set" where "context_cells sp = down (sp + 8) 7"

lemma context_cells_eq: "context_cells sp = {sp, sp - 8, sp - 16, sp - 24, sp - 32, sp - 40, sp - 48}"
proof -
  have "{1..7} = {1, 2, 3, 4, 5, 6, 7 :: nat}" by auto
  then show ?thesis by (simp add: context_cells_def down_def)
qed

end
