(* ===== verification/Kmalloc_Pages.thy ===== *)
theory Kmalloc_Pages
  imports Kmalloc_Rep
begin

text \<open>
  The heap beside other users of the page allocator: pages that someone else takes and writes to leave every
  block as it is. Blocks are aligned to 8 bytes.
\<close>

lemma heap_rep_aligned:
  assumes "heap_rep h B" "B p = Some m"
  shows "8 dvd unat p"
proof -
  obtain S fl ps R where r: "layout (kmalloc_caches h) (heap h) S fl ps R"
    "\<And>p m. B p = Some m \<longleftrightarrow> (\<exists>x t. whole (heap h) S fl R x t \<and> p = x + 16 \<and> m = t - 16)"
    by (rule heap_repE [OF assms(1)]) (rule that)
  obtain x t where x: "whole (heap h) S fl R x t" "p = x + 16" using assms(2) r(2) by blast
  have pg: "8 dvd unat a" if "slab_page a" for a
  proof -
    have "4096 dvd unat a" using that by (auto simp: slab_page_def)
    then show ?thesis by (rule dvd_trans [rotated]) simp
  qed
  have "8 dvd unat x"
    using x(1) unfolding whole_def
  proof (elim disjE exE conjE)
    fix i assume i: "i < 26" "x \<in> live S fl i"
    obtain a where a: "x \<in> objs (kmalloc_sizes ! i) a" "slab_page a" by (rule live_within [OF r(1) i]) (rule that)
    then obtain j where j: "x = obj_at a (kmalloc_sizes ! i) j" "j < slab_objects (kmalloc_sizes ! i)" by (auto simp: objs_def)
    have "8 dvd unat (kmalloc_sizes ! i)" using good_sizes [OF i(1)] by (simp add: good_size_def)
    then show ?thesis using unat_obj_at(1) [OF a(2) j(2)] pg [OF a(2)] unfolding j(1) by simp
  next
    fix k n assume "(k, n) \<in> R" "x = run_base (heap h) k"
    then show ?thesis using pg run_place(2) [OF r(1)] by blast
  qed
  moreover have "unat p = unat x + 16" using whole_end(2) [OF r(1) x(1)] x(2) by simp
  ultimately show ?thesis by simp
qed

lemma heap_rep_room:
  assumes "heap_rep h B" "B p = Some m"
  shows "unat p + m \<le> 2 ^ 64"
proof -
  obtain S fl ps R where r: "layout (kmalloc_caches h) (heap h) S fl ps R"
    "\<And>p m. B p = Some m \<longleftrightarrow> (\<exists>x t. whole (heap h) S fl R x t \<and> p = x + 16 \<and> m = t - 16)"
    by (rule heap_repE [OF assms(1)]) (rule that)
  obtain x t where "whole (heap h) S fl R x t" "p = x + 16" "m = t - 16" using assms(2) unfolding r(2) by blast
  then show ?thesis using whole_end [OF r(1)] whole_size [OF r(1)] by fastforce
qed

text \<open>Memory that is neither a header nor a free object can change.\<close>

lemma place_headers_kept:
  assumes H: "headers_but {} s S fl R" and k: "\<And>x. place s S fl R x \<Longrightarrow> m x = mem s x \<and> m (x + 8) = mem s (x + 8)"
  shows "headers_but {} (s\<lparr>mem := m\<rparr>) S fl R"
proof -
  have h: "header_type (s\<lparr>mem := m\<rparr>) x = header_type s x" "header_value (s\<lparr>mem := m\<rparr>) x = header_value s x"
    if "place s S fl R x" for x using k [OF that] by (simp_all add: header_type_def header_value_def)
  have b: "run_base (s\<lparr>mem := m\<rparr>) l = run_base s l" for l by (simp add: run_base_def)
  show ?thesis
    unfolding headers_but_def b
  proof (intro conjI allI impI ballI)
    fix i x assume i: "i < 26" "x \<in> live S fl i"
    then have "place s S fl R x" by (auto simp: place_def)
    then show "header_type (s\<lparr>mem := m\<rparr>) x = SLAB_BACKED" "header_value (s\<lparr>mem := m\<rparr>) x = of_nat i"
      using h H i by (simp_all add: headers_but_def)
  next
    fix r assume r: "r \<in> R"
    obtain l n where ln: "r = (l, n)" by (cases r)
    then have "place s S fl R (run_base s l)" using r by (auto simp: place_def)
    then show "case r of (l, n) \<Rightarrow> run_base s l \<notin> {} \<longrightarrow>
        header_type (s\<lparr>mem := m\<rparr>) (run_base s l) = PAGE_BACKED \<and> header_value (s\<lparr>mem := m\<rparr>) (run_base s l) = of_nat n"
      using h H r by (auto simp: headers_but_def ln)
  qed
qed

lemma layout_scribble:
  assumes L: "layout cs s S fl ps R" and k: "\<And>i a y. i < 26 \<Longrightarrow> a \<in> S i \<Longrightarrow> y \<in> set (fl i a) \<Longrightarrow> m y = mem s y"
  shows "layout cs (s\<lparr>mem := m\<rparr>) S fl ps R"
proof -
  have "cache_rep_but {} (s\<lparr>mem := m\<rparr>) (cs ! i) (S i) (fl i) (ps i)" if "i < 26" for i
    using layoutD(4) [OF L] k [OF that] that by (intro cache_rep_but_mem) (auto simp: classes_ok_def)
  moreover have "page_no (s\<lparr>mem := m\<rparr>) = page_no s" by (simp add: page_no_def fun_eq_iff)
  ultimately show ?thesis
    using L by (auto simp: layout_def classes_ok_def k_inv_def k_pages_def k_free_set_def)
qed

lemma heap_rep_take_pages:
  assumes rep: "heap_rep h B" and run: "k_alloc_pages (heap h) count = Some (phys, s1)" and nz: "phys \<noteq> 0" "count \<noteq> 0"
  obtains k where "unat phys = 4096 * k" "0 < k" "k + unat count \<le> k_pages s1" "k_inv s1" "hhdm s1 = hhdm (heap h)"
    "mem s1 = mem (heap h)" "run_of k (unat count) \<subseteq> k_free_set (heap h)" "k_free_set s1 = k_free_set (heap h) - run_of k (unat count)"
    "\<forall>m. (\<forall>y. page_no s1 (page_base y) \<notin> run_of k (unat count) \<longrightarrow> m y = mem s1 y) \<longrightarrow> heap_rep (h\<lparr>heap := s1\<lparr>mem := m\<rparr>\<rparr>) B"
proof -
  obtain S fl ps R where L: "layout (kmalloc_caches h) (heap h) S fl ps R" and H: "headers_but {} (heap h) S fl R"
    and B: "\<And>p m. B p = Some m \<longleftrightarrow> (\<exists>x t. whole (heap h) S fl R x t \<and> p = x + 16 \<and> m = t - 16)"
    by (rule heap_repE [OF rep]) (rule that)
  let ?s = "heap h" and ?n = "unat count"
  have inv: "pmm_inv (pmm ?s)" using layoutD(1) [OF L] by (simp add: k_inv_def)
  obtain q where q: "pmm_alloc_pages (pmm ?s) count = Some (phys, q)" "s1 = ?s\<lparr>pmm := q\<rparr>"
    using run by (auto simp: k_alloc_pages_def bind_eq_Some_conv)
  obtain k where k: "k \<noteq> 0" "alloc_run_post (pmm ?s) k ?n phys q"
    using pmm_alloc_pages_correct [OF inv nz(2)] q(1) nz(1) by auto
  have p: "pmm_inv q" "total_pages q = total_pages (pmm ?s)" "unat phys = 4096 * k"
    "run_of k ?n \<subseteq> k_free_set ?s" "pmm_free_set q = k_free_set ?s - run_of k ?n"
    using k(2) by (simp_all add: alloc_run_post_def k_free_set_def)
  have n: "0 < ?n" using nz(2) by (simp add: unat_gt_0)
  then have "k + ?n - 1 \<in> run_of k ?n" by (auto simp: run_of_def)
  then have kn: "k + ?n \<le> k_pages ?s" using kpg.avail_range [OF layoutD(1) [OF L]] p(4) n by fastforce
  have L1: "layout (kmalloc_caches h) s1 S fl ps R"
    unfolding q(2)
  proof (rule layout_pmm [OF L p(1,2) _ layoutD(5) [OF L]])
    show "page_no ?s a \<notin> pmm_free_set q" if "i < 26" "a \<in> S i" for i a using page_in_use [OF L that] p(5) by simp
    show "0 < l \<and> 0 < m \<and> l + m \<le> k_pages ?s \<and> run_of l m \<inter> pmm_free_set q = {} \<and> (\<forall>i<26. \<forall>a\<in>S i. page_no ?s a \<notin> run_of l m)"
      if "(l, m) \<in> R" for l m using layoutD(6) [OF L that] p(5) by auto
  qed
  have H1: "headers_but {} s1 S fl R"
    using H unfolding headers_but_def q(2) by (auto simp: header_type_def header_value_def run_base_def)
  have pl: "place s1 S fl R = place ?s S fl R" by (simp add: place_def q(2) run_base_def fun_eq_iff)
  have pn: "page_no s1 = page_no ?s" by (simp add: page_no_def q(2) fun_eq_iff)
  have rep': "heap_rep (h\<lparr>heap := s1\<lparr>mem := m\<rparr>\<rparr>) B" if m: "\<And>y. page_no s1 (page_base y) \<notin> run_of k ?n \<Longrightarrow> m y = mem s1 y" for m
  proof (rule heap_repI)
    have free: "m y = mem s1 y" if "i < 26" "a \<in> S i" "y \<in> set (fl i a)" for i a y
    proof (rule m)
      note f = free_object(2) [OF layoutD(4) [OF L] that]
      show "page_no s1 (page_base y) \<notin> run_of k ?n" unfolding pn f using page_in_use [OF L that(1,2)] p(4) by blast
    qed
    show "layout (kmalloc_caches (h\<lparr>heap := s1\<lparr>mem := m\<rparr>\<rparr>)) (heap (h\<lparr>heap := s1\<lparr>mem := m\<rparr>\<rparr>)) S fl ps R"
      using layout_scribble [OF L1 free] by simp
    have "m x = mem s1 x \<and> m (x + 8) = mem s1 (x + 8)" if "place s1 S fl R x" for x
      using m place_in_use [OF L that [unfolded pl]] p(4) unfolding pn by blast
    from place_headers_kept [OF H1 this]
    show "headers_but {} (heap (h\<lparr>heap := s1\<lparr>mem := m\<rparr>\<rparr>)) S fl R" by simp
    show "B p = Some j \<longleftrightarrow> (\<exists>x t. whole (heap (h\<lparr>heap := s1\<lparr>mem := m\<rparr>\<rparr>)) S fl R x t \<and> p = x + 16 \<and> j = t - 16)" for p j
      unfolding B by (simp add: whole_def q(2) run_base_def)
  qed
  show thesis
    by (rule that [OF p(3) _ _ layoutD(1) [OF L1] _ _ p(4)])
      (use k(1) kn p(2,5) rep' in \<open>auto simp: q(2) k_pages_def k_free_set_def\<close>)
qed

end
