(* ===== verification/Task_Spawn.thy ===== *)
theory Task_Spawn
  imports Task_Context Kmalloc_Pages Sched_Run
begin

text \<open>
  What \<open>ktask_spawn\<close> makes: a block of the heap for the task, two fresh pages for its stack, and on that
  stack the frame its first context switch takes apart.
\<close>

section \<open>The first frame\<close>

lemma store_down_append: "store_down (vs @ ws) p k = (let (p, k) = store_down vs p k in store_down ws p k)"
  by (induction vs arbitrary: p k) simp_all

lemma store_down_pushes:
  "store_down vs p k = (rsp (fst (pushes vs (c\<lparr>rsp := p\<rparr>, mem k))), k\<lparr>mem := snd (pushes vs (c\<lparr>rsp := p\<rparr>, mem k))\<rparr>)"
proof (induction vs arbitrary: p k)
  case (Cons v vs)
  show ?case by (simp add: push_def Cons.IH write_cell_def fun_upd_def)
qed simp

definition first_frame :: "labels \<Rightarrow> u64 \<Rightarrow> u64 \<Rightarrow> u64 list" where
  "first_frame lb entry args = [entry, args, at_kfork_return lb] @ replicate 6 0"

lemma store_first_frame:
  obtains m where "store_down (first_frame lb entry args) kst k = (kst - 72, k\<lparr>mem := m\<rparr>)"
    "m (kst - 8) = entry" "m (kst - 16) = args" "m (kst - 24) = at_kfork_return lb"
    "\<And>i. i < 6 \<Longrightarrow> m (kst - 72 + 8 * of_nat i) = 0" "\<And>y. y \<notin> down kst 9 \<Longrightarrow> m y = mem k y"
proof -
  let ?L = "first_frame lb entry args"
  have len: "length ?L = 9" "length ?L < 2 ^ 59" by (simp_all add: first_frame_def)
  fix c :: cpu
  define m where "m = snd (pushes ?L (c\<lparr>rsp := kst\<rparr>, mem k))"
  have e: "store_down ?L kst k = (kst - 72, k\<lparr>mem := m\<rparr>)"
    using pushes_correct(1) [OF len(2), of "c\<lparr>rsp := kst\<rparr>" "mem k"] len(1) by (simp add: store_down_pushes [of _ _ _ c] m_def)
  have g: "m (kst - 8 * of_nat (Suc i)) = ?L ! i" if "i < 9" for i
    using pushes_correct(2) [OF len(2), of i "c\<lparr>rsp := kst\<rparr>" "mem k"] that len(1) by (simp add: m_def del: of_nat_Suc)
  have w: "m (kst - 8) = entry" "m (kst - 16) = args" "m (kst - 24) = at_kfork_return lb"
    using g [of 0] g [of 1] g [of 2] by (simp_all add: first_frame_def)
  have z: "m (kst - 72 + 8 * of_nat i) = 0" if i: "i < 6" for i
  proof -
    have "9 = Suc (8 - i) + i" using i by simp
    then have "(9 :: u64) = of_nat (Suc (8 - i)) + of_nat i" by (metis of_nat_add of_nat_numeral)
    then have "8 * (9 :: u64) = 8 * of_nat (Suc (8 - i)) + 8 * of_nat i" by (metis distrib_left)
    then have "72 = 8 * of_nat (Suc (8 - i)) + (8 * of_nat i :: u64)" by (simp del: of_nat_Suc)
    then have "72 - 8 * of_nat i = (8 * of_nat (Suc (8 - i)) :: u64)" by (metis add_diff_cancel_right')
    moreover have "kst - 72 + z = kst - (72 - z)" for z :: u64 by simp
    ultimately have "m (kst - 72 + 8 * of_nat i) = m (kst - 8 * of_nat (Suc (8 - i)))" by metis
    also have "\<dots> = 0" using g [of "8 - i"] i by (simp add: first_frame_def nth_append del: of_nat_Suc)
    finally show ?thesis .
  qed
  have f: "m y = mem k y" if "y \<notin> down kst 9" for y
    using pushes_frame [OF len(2), of y "c\<lparr>rsp := kst\<rparr>" "mem k"] that by (simp add: m_def len(1))
  show thesis by (rule that [OF e w z f])
qed

section \<open>The new task\<close>

definition new_task :: "labels \<Rightarrow> u64 \<Rightarrow> u64 \<Rightarrow> task" where
  "new_task lb kst tid = \<lparr>tk_stack = kst - 72, tk_kstack_top = kst, tk_tid = tid, tk_tgid = tid, tk_flags = 0,
     tk_vmap = at_kernel_vm_map lb, tk_state = S_TASK_INIT, tk_prio = 0, tk_vruntime = 0, tk_time_slice = 0,
     tk_thread = \<lparr>th_sp = 0, th_pc = 0\<rparr>, tk_stack_base = kst - KSTACK_SIZE, tk_stack_size = KSTACK_SIZE\<rparr>"

definition with_task :: "u64 \<Rightarrow> task \<Rightarrow> sched \<Rightarrow> sched" where
  "with_task t tk s = s\<lparr>rb_nodes := (rb_nodes s)(node_of t \<mapsto> \<lparr>rb_parent_color = 0, rb_right = 0, rb_left = 0\<rparr>),
     next_tid := next_tid s + 1, tasks := (tasks s)(t \<mapsto> tk)\<rparr>"

lemma ktask_spawn_eq:
  "ktask_spawn lb entry args (h, s) =
     do {
       (t, h) \<leftarrow> kmalloc 128 h;
       if t = 0 then None
       else do {
         (phys, k) \<leftarrow> k_alloc_pages (heap h) 2;
         let kst = 8192 + phys_to_higher_half_data k phys;
         let (stack, k) = store_down (first_frame lb entry args) kst k;
         Some (t, h\<lparr>heap := k\<rparr>, with_task t ((new_task lb kst (next_tid s))\<lparr>tk_stack := stack\<rparr>) s)
       }
     }"
  by (simp add: ktask_spawn_def sizeof_task_def KSTACK_PAGES_def KSTACK_SIZE_def PAGE_SIZE_def upd_task_def alloc_tid_def
      first_frame_def store_down_append Let_def null_task_def new_task_def with_task_def fun_upd_upd
      cong: if_cong split: prod.split)

text \<open>The frame lies in the upper page of the two.\<close>

lemma down_in_page:
  assumes "slab_page a" "y \<in> down (a + 4096) 9"
  shows "page_base y = a"
proof -
  obtain i where i: "i \<in> {1..9}" "y = a + 4096 - 8 * of_nat i" using assms(2) by (auto simp: down_def)
  have room: "unat a + 4096 \<le> 2 ^ 64" using slab_page_room [OF assms(1)] by simp
  define w :: u64 where "w = of_nat (4096 - 8 * i)"
  have e: "y = a + w" using i by (simp add: w_def of_nat_diff)
  have u: "unat w = 4096 - 8 * i" by (simp add: w_def unsigned_of_nat take_bit_nat_eq_self_iff)
  have "1 \<le> i" "i \<le> 9" using i(1) by simp_all
  then have "unat a + (4096 - 8 * i) < 2 ^ 64" using room by linarith
  then have "unat y = unat a + (4096 - 8 * i)" unfolding e u [symmetric] by (rule unat_add_no_wrap)
  then show ?thesis by (rule page_base_at [OF assms(1)]) (use i(1) in simp)
qed

lemma ktask_spawn_correct:
  assumes rep: "heap_rep h B"
  obtains (no_task) "kmalloc 128 h = Some (0, h)" "ktask_spawn lb entry args (h, s) = None"
  | (no_stack) t h1 where "kmalloc 128 h = Some (t, h1)" "t \<noteq> 0" "k_alloc_pages (heap h1) 2 = Some (0, heap h1)"
      "\<exists>h' sp. ktask_spawn lb entry args (h, s) =
         Some (t, h', with_task t ((new_task lb (run_base (heap h1) 2) (next_tid s))\<lparr>tk_stack := sp\<rparr>) s)"
  | (spawned) t j h1 k k1 m where "kmalloc 128 h = Some (t, h1)" "t \<noteq> 0" "t \<notin> dom B" "128 \<le> j"
      "0 < k" "k + 2 \<le> k_pages k1" "{k, k + 1} \<subseteq> k_free_set (heap h1)" "k_free_set k1 = k_free_set (heap h1) - {k, k + 1}" "k_inv k1"
      "ktask_spawn lb entry args (h, s) =
         Some (t, h1\<lparr>heap := k1\<lparr>mem := m\<rparr>\<rparr>, with_task t (new_task lb (run_base k1 (k + 2)) (next_tid s)) s)"
      "heap_rep (h1\<lparr>heap := k1\<lparr>mem := m\<rparr>\<rparr>) (B(t \<mapsto> j))" "8 dvd unat t" "unat t + 128 \<le> 2 ^ 64"
      "m (run_base k1 (k + 2) - 8) = entry" "m (run_base k1 (k + 2) - 16) = args" "m (run_base k1 (k + 2) - 24) = at_kfork_return lb"
      "\<And>i. i < 6 \<Longrightarrow> m (run_base k1 (k + 2) - 72 + 8 * of_nat i) = 0"
proof -
  have sz: "unat (128 :: u64) \<le> 2 ^ 42" by simp
  obtain t h1 where t: "kmalloc 128 h = Some (t, h1)" "if t = 0 then h1 = h else t \<notin> dom B \<and> (\<exists>j\<ge>unat (128 :: u64). heap_rep h1 (B(t \<mapsto> j)))"
    using kheap.alloc_law [OF rep sz] by blast
  show thesis
  proof (cases "t = 0")
    case True
    then show thesis using t by (intro no_task) (simp_all add: ktask_spawn_eq)
  next
    case False
    then obtain j where j: "t \<notin> dom B" "128 \<le> j" "heap_rep h1 (B(t \<mapsto> j))" using t(2) by auto
    obtain S fl ps R where L: "layout (kmalloc_caches h1) (heap h1) S fl ps R" by (rule heap_repE [OF j(3)]) (rule that)
    have two: "(2 :: u64) \<noteq> 0" by simp
    have inv: "pmm_inv (pmm (heap h1))" using layoutD(1) [OF L] by (simp add: k_inv_def)
    consider "pmm_alloc_pages (pmm (heap h1)) 2 = Some (0, pmm (heap h1))"
      | k a q where "pmm_alloc_pages (pmm (heap h1)) 2 = Some (a, q)" "k \<noteq> 0" "unat a = 4096 * k"
      using pmm_alloc_pages_correct [OF inv two] by (auto simp: alloc_run_post_def)
    then obtain phys k1 where a: "k_alloc_pages (heap h1) 2 = Some (phys, k1)" "phys = 0 \<longrightarrow> k1 = heap h1"
    proof cases
      case 1
      then show thesis by (intro that [of 0 "heap h1"]) (simp_all add: k_alloc_pages_def)
    next
      case (2 k a q)
      then have "a \<noteq> 0" by auto
      then show thesis using 2 by (intro that [of a "(heap h1)\<lparr>pmm := q\<rparr>"]) (simp_all add: k_alloc_pages_def)
    qed
    show thesis
    proof (cases "phys = 0")
      case True
      have r: "8192 + phys_to_higher_half_data (heap h1) 0 = run_base (heap h1) 2"
        by (simp add: phys_to_higher_half_data_def run_base_def)
      have "\<exists>h' sp. ktask_spawn lb entry args (h, s) =
          Some (t, h', with_task t ((new_task lb (run_base (heap h1) 2) (next_tid s))\<lparr>tk_stack := sp\<rparr>) s)"
        unfolding ktask_spawn_eq using False True by (simp add: t(1) a r Let_def split: prod.split) metis
      then show thesis using no_stack [OF t(1) False] a True by simp
    next
      case ph: False
      obtain k where k: "unat phys = 4096 * k" "0 < k" "k + unat (2 :: u64) \<le> k_pages k1" "k_inv k1" "hhdm k1 = hhdm (heap h1)"
        "mem k1 = mem (heap h1)" "run_of k (unat (2 :: u64)) \<subseteq> k_free_set (heap h1)"
        "k_free_set k1 = k_free_set (heap h1) - run_of k (unat (2 :: u64))"
        "\<forall>m. (\<forall>y. page_no k1 (page_base y) \<notin> run_of k (unat (2 :: u64)) \<longrightarrow> m y = mem k1 y)
           \<longrightarrow> heap_rep (h1\<lparr>heap := k1\<lparr>mem := m\<rparr>\<rparr>) (B(t \<mapsto> j))"
        by (rule heap_rep_take_pages [OF j(3) a(1) ph two]) (rule that)
      have ro: "run_of k (unat (2 :: u64)) = {k, k + 1}" by (auto simp: run_of_def)
      have "phys = of_nat (4096 * k)" using of_nat_unat_id [of phys] unfolding k(1) by (rule sym)
      then have b: "8192 + phys_to_higher_half_data k1 phys = run_base k1 (k + 2)"
        by (simp add: phys_to_higher_half_data_def run_base_def algebra_simps)
      have k1p: "k + 1 < k_pages k1" "0 < k + 1" using k(3) by simp_all
      note up = run_base_page [OF k(4) k1p]
      have top: "run_base k1 (k + 2) = run_base k1 (k + 1) + 4096" by (simp add: run_base_def algebra_simps)
      obtain m where m: "store_down (first_frame lb entry args) (run_base k1 (k + 2)) k1 = (run_base k1 (k + 2) - 72, k1\<lparr>mem := m\<rparr>)"
        "m (run_base k1 (k + 2) - 8) = entry" "m (run_base k1 (k + 2) - 16) = args" "m (run_base k1 (k + 2) - 24) = at_kfork_return lb"
        "\<And>i. i < 6 \<Longrightarrow> m (run_base k1 (k + 2) - 72 + 8 * of_nat i) = 0" "\<And>y. y \<notin> down (run_base k1 (k + 2)) 9 \<Longrightarrow> m y = mem k1 y"
        by (rule store_first_frame) (rule that)
      have h: "heap_rep (h1\<lparr>heap := k1\<lparr>mem := m\<rparr>\<rparr>) (B(t \<mapsto> j))"
      proof (rule k(9) [rule_format], rule m(6))
        fix y assume y: "page_no k1 (page_base y) \<notin> run_of k (unat (2 :: u64))"
        show "y \<notin> down (run_base k1 (k + 2)) 9"
          using y down_in_page [OF up(2), of y] up(1) unfolding top ro by auto
      qed
      have al: "8 dvd unat t" by (rule heap_rep_aligned [OF j(3)]) simp
      have rm: "unat t + 128 \<le> 2 ^ 64" using heap_rep_room [OF j(3), of t] j(2) by simp
      have nt: "(new_task lb (run_base k1 (k + 2)) (next_tid s))\<lparr>tk_stack := run_base k1 (k + 2) - 72\<rparr> = new_task lb (run_base k1 (k + 2)) (next_tid s)"
        by (simp add: new_task_def)
      have e: "ktask_spawn lb entry args (h, s) =
         Some (t, h1\<lparr>heap := k1\<lparr>mem := m\<rparr>\<rparr>, with_task t (new_task lb (run_base k1 (k + 2)) (next_tid s)) s)"
        unfolding ktask_spawn_eq using False by (simp add: t(1) a(1) b m(1) nt del: add_2_eq_Suc add_2_eq_Suc')
      show thesis
        by (rule spawned [OF t(1) False j(1,2) k(2) _ _ _ k(4) e h al rm m(2-5)]) (use k(3,7,8) ro in simp_all)
    qed
  qed
qed

section \<open>The scheduler\<close>

lemma holds_other: "(\<And>a. a \<in> set (addrs T) \<Longrightarrow> h' a = h a) \<Longrightarrow> holds h' p T = holds h p T"
  by (induction T arbitrary: p) auto

lemma node_of_ok:
  assumes "8 dvd unat t" "unat t + 128 \<le> 2 ^ 64"
  shows "ok_addr (node_of t)"
proof -
  have e: "unat (t + 56) = unat t + 56" using unat_add_no_wrap [of t 56] assms(2) by simp
  have "unat ((t + 56) AND 3) = unat (t + 56) mod 4"
  proof -
    have "(t + 56) AND 3 = take_bit 2 (t + 56)" by (simp add: take_bit_eq_mask mask_eq_exp_minus_1)
    then show ?thesis by (simp add: unat_take_bit_mod)
  qed
  moreover have "(unat t + 56) mod 4 = 0" using assms(1) by presburger
  ultimately have "(t + 56) AND 3 = 0" unfolding e by (simp add: unat_eq_0)
  moreover have "t + 56 \<noteq> 0"
  proof
    assume "t + 56 = 0"
    then show False using e by simp
  qed
  ultimately show ?thesis unfolding ok_addr_def node_of_def NODE_OFFSET_def by (intro conjI)
qed

text \<open>A record and a node at an address that holds no task change nothing for the others.\<close>

lemma with_task_ok:
  assumes ok: "sched_ok s q" and new: "tasks s t = None" "t \<noteq> 0" "8 dvd unat t" "unat t + 128 \<le> 2 ^ 64"
  shows "sched_ok (with_task t tk s) q" "present (with_task t tk s) t"
    "tasks (with_task t tk s) = (tasks s)(t \<mapsto> tk)" "current_task (with_task t tk s) = current_task s" "rq_idle (with_task t tk s) = rq_idle s"
proof -
  let ?s = "with_task t tk s"
  obtain T where T: "cached_rep s T" "addrs T = map node_of q" and r: "num_threads s = of_nat (length q)" "sorted (map (vr s) q)"
    "\<forall>t\<in>set q. t \<noteq> 0 \<and> tasks s t \<noteq> None" using ok by (auto simp: sched_ok_def rq_def)
  have tq: "t \<notin> set q" using r(3) new(1) by auto
  have h: "holds (rb_nodes ?s) p T = holds (rb_nodes s) p T" for p
    by (rule holds_other) (use T(2) tq in \<open>auto simp: with_task_def\<close>)
  have "cached_rep ?s T" using T(1) h by (simp add: cached_rep_def rep_def) (simp add: with_task_def)
  moreover have v: "vr ?s u = vr s u" if "u \<noteq> t" for u using that by (simp add: vr_def with_task_def)
  then have "map (vr ?s) q = map (vr s) q" by (intro map_cong [OF refl]) (metis tq)
  moreover have "num_threads ?s = num_threads s" by (simp add: with_task_def)
  moreover have "\<forall>t\<in>set q. t \<noteq> 0 \<and> tasks ?s t \<noteq> None" using r(3) by (simp add: with_task_def)
  ultimately have rq: "rq ?s q" unfolding rq_def using T(2) r(1,2) by metis
  have p: "present ?s u" if "present s u" for u using that by (auto simp: present_def with_task_def)
  have st: "st ?s u = st s u" if "u \<noteq> t" for u using that by (simp add: st_def with_task_def)
  have f: "current_task ?s = current_task s" "rq_idle ?s = rq_idle s" by (simp_all add: with_task_def)
  have ne: "current_task s \<noteq> t" "rq_idle s \<noteq> t" using ok new(1) by (auto simp: sched_ok_def present_def)
  show "sched_ok ?s q"
    using ok rq p v st f ne tq unfolding sched_ok_def by (metis (no_types, lifting))
  have "ok_addr (node_of t)" by (rule node_of_ok [OF new(3,4)])
  then show "present ?s t" using new(2) by (simp add: present_def with_task_def)
  show "tasks ?s = (tasks s)(t \<mapsto> tk)" by (simp add: with_task_def)
  show "current_task ?s = current_task s" "rq_idle ?s = rq_idle s" by (rule f)+
qed

end
