(* ===== verification/Kmalloc_Sample.thy ===== *)
theory Kmalloc_Sample
  imports Kmalloc_Props Kmalloc_Pages
begin

text \<open>
  A sample heap with memory for two blocks of 128 bytes and for two pages beside them: what two tasks and
  a stack need.
\<close>

lemma alloc_new_slab_pmm:
  "alloc_new_slab s c = Some (x, s') \<Longrightarrow> pmm s' = pmm s \<or> (\<exists>a. pmm_alloc_page (pmm s) = Some (a, pmm s'))"
  by (auto simp: alloc_new_slab_def k_alloc_page_def bind_eq_Some_conv Let_def link_objects_frame put_slab_def put_cache_def set_fp_def
      frame_simps split: if_splits prod.splits)

lemma refill_take_pmm: "refill_take s c a = Some (x, s') \<Longrightarrow> pmm s' = pmm s"
  by (auto simp: refill_take_def bind_eq_Some_conv Let_def put_slab_def put_cache_def split: if_splits)

lemma kmem_cache_alloc_pmm:
  "kmem_cache_alloc s c = Some (x, s') \<Longrightarrow> pmm s' = pmm s \<or> (\<exists>a. pmm_alloc_page (pmm s) = Some (a, pmm s'))"
  by (auto simp: kmem_cache_alloc_def refill_def bind_eq_Some_conv Let_def put_slab_def put_cache_def
      split: if_splits dest!: refill_take_pmm dest: alloc_new_slab_pmm)

lemma task_size_class: "kmalloc_index (ALIGN_UP (128 + sizeof_alloc_header) 16) = 12"
  by code_simp

text \<open>A block for a task is there when a page is free, and takes one page at most.\<close>

lemma task_block:
  assumes rep: "heap_rep h B" and free: "k \<in> k_free_set (heap h)" "unat (cached_index (pmm (heap h))) \<le> k"
  obtains t j h1 where "kmalloc 128 h = Some (t, h1)" "t \<noteq> 0" "t \<notin> dom B" "heap_rep h1 (B(t \<mapsto> j))" "128 \<le> j"
    "pmm (heap h1) = pmm (heap h) \<or> (\<exists>a. pmm_alloc_page (pmm (heap h)) = Some (a, pmm (heap h1)))"
proof -
  have sz: "unat (128 :: u64) \<le> 2 ^ 42" by simp
  obtain t h1 where t: "kmalloc 128 h = Some (t, h1)"
    "if t = 0 then h1 = h \<and> ((128 :: u64) = 0 \<or> no_run h (request_pages 128))
     else t \<notin> dom B \<and> (\<exists>m\<ge>unat (128 :: u64). heap_rep h1 (B(t \<mapsto> m)))"
    using kmalloc_correct [OF rep sz] by (elim exE conjE) (rule that)
  have one: "request_pages 128 = 1" by code_simp
  have "\<not> no_run h (request_pages 128)" using free unfolding one no_run_def by (auto intro!: exI [of _ k])
  then have t0: "t \<noteq> 0" using t(2) by auto
  then obtain j where j: "t \<notin> dom B" "unat (128 :: u64) \<le> j" "heap_rep h1 (B(t \<mapsto> j))" using t(2) by auto
  obtain hdr s1 where s1: "kmem_cache_alloc (heap h) (kmalloc_caches h ! 12) = Some (hdr, s1)" "hdr \<noteq> 0" "pmm (heap h1) = pmm s1"
    using t(1) t0 unfolding kmalloc_def Let_def task_size_class
    by (auto simp: bind_eq_Some_conv write_header_def frame_simps split: if_splits)
  show thesis using that [OF t(1) t0 j(1,3)] j(2) kmem_cache_alloc_pmm [OF s1(1)] unfolding s1(3) by simp
qed

text \<open>Sixteen pages, 0 and 4 in use, as many more as \<open>bits\<close> tells.\<close>

definition pmm_large :: "u8 \<Rightarrow> u64 \<Rightarrow> pmm_state" where
  "pmm_large bits i = \<lparr>max_addressable = 0x10000, pm_bitmap = \<lparr>bm_size = 2, bm_map = [bits, 0]\<rparr>, total_pages = 16, cached_index = i\<rparr>"

lemma pmm_large_inv: "pmm_inv (pmm_large 0x11 5)"
  by (simp add: pmm_inv_defs pmm_large_def bm_capacity_def bm_used_def)

lemma pmm_large_alloc:
  "map_option fst (pmm_alloc_page (pmm_large 0x11 5)) = Some 0x5000" "map_option snd (pmm_alloc_page (pmm_large 0x11 5)) = Some (pmm_large 0x31 6)"
  "map_option fst (pmm_alloc_page (pmm_large 0x31 6)) = Some 0x6000" "map_option snd (pmm_alloc_page (pmm_large 0x31 6)) = Some (pmm_large 0x71 7)"
  by code_simp+

lemma pmm_large_two:
  "map_option fst (pmm_alloc_pages (pmm_large 0x11 5) 2) = Some 0x5000" "map_option fst (pmm_alloc_pages (pmm_large 0x31 6) 2) = Some 0x6000"
  "map_option fst (pmm_alloc_pages (pmm_large 0x71 7) 2) = Some 0x7000"
  by code_simp+

definition heap_large :: kheap where
  "heap_large = the (init_kmalloc \<lparr>kmalloc_caches = [], heap = k_sample\<lparr>pmm := pmm_large 0x11 5\<rparr>\<rparr>)"

lemma heap_large_rep: "heap_rep heap_large Map.empty" "pmm (heap heap_large) = pmm_large 0x11 5"
proof -
  let ?h = "\<lparr>kmalloc_caches = [], heap = k_sample\<lparr>pmm := pmm_large 0x11 5\<rparr>\<rparr>"
  have "k_inv (heap ?h)" using pmm_large_inv by (simp add: k_inv_def k_sample_def) (simp add: pmm_large_def)
  moreover have "cache_pool_idx (heap ?h) + 26 \<le> length (cache_pool (heap ?h))" by (simp add: k_sample_def)
  ultimately show "heap_rep heap_large Map.empty" "pmm (heap heap_large) = pmm_large 0x11 5"
    using init_kmalloc_correct [of ?h] by (auto simp: heap_large_def)
qed

lemma large_free:
  assumes "pmm (heap h) = pmm_large 0x11 5 \<or> pmm (heap h) = pmm_large 0x31 6 \<or> pmm (heap h) = pmm_large 0x71 7"
  shows "8 \<in> k_free_set (heap h)" "unat (cached_index (pmm (heap h))) \<le> 8"
    "\<exists>phys k1. k_alloc_pages (heap h) 2 = Some (phys, k1) \<and> phys \<noteq> 0"
  using assms pmm_large_two by (auto simp: k_free_set_def pmm_free_set_def bm_used_def k_alloc_pages_def) (auto simp: pmm_large_def)

text \<open>Two blocks for tasks, each with memory for a stack beside it.\<close>

lemma sample_task_block:
  obtains t j h1 phys k1 where "kmalloc 128 heap_large = Some (t, h1)" "t \<noteq> 0" "heap_rep h1 [t \<mapsto> j]" "128 \<le> j"
    "k_alloc_pages (heap h1) 2 = Some (phys, k1)" "phys \<noteq> 0" "pmm (heap h1) = pmm_large 0x11 5 \<or> pmm (heap h1) = pmm_large 0x31 6"
proof -
  have l: "pmm (heap heap_large) = pmm_large 0x11 5 \<or> pmm (heap heap_large) = pmm_large 0x31 6 \<or> pmm (heap heap_large) = pmm_large 0x71 7"
    by (simp add: heap_large_rep(2))
  obtain t j h1 where t: "kmalloc 128 heap_large = Some (t, h1)" "t \<noteq> 0" "heap_rep h1 [t \<mapsto> j]" "128 \<le> j"
    "pmm (heap h1) = pmm (heap heap_large) \<or> (\<exists>a. pmm_alloc_page (pmm (heap heap_large)) = Some (a, pmm (heap h1)))"
    by (rule task_block [OF heap_large_rep(1) large_free(1,2) [OF l]]) (rule that)
  have p: "pmm (heap h1) = pmm_large 0x11 5 \<or> pmm (heap h1) = pmm_large 0x31 6"
    using t(5) pmm_large_alloc(2) unfolding heap_large_rep(2) by auto
  then show thesis using large_free(3) [of h1] that t(1-4) by blast
qed

lemma sample_task_blocks:
  obtains t j h1 t2 j2 h2 phys k1 where "kmalloc 128 heap_large = Some (t, h1)" "t \<noteq> 0" "heap_rep h1 [t \<mapsto> j]" "128 \<le> j"
    "kmalloc 128 h1 = Some (t2, h2)" "t2 \<noteq> 0" "t2 \<noteq> t" "k_alloc_pages (heap h2) 2 = Some (phys, k1)" "phys \<noteq> 0"
proof -
  obtain t j h1 where t: "kmalloc 128 heap_large = Some (t, h1)" "t \<noteq> 0" "heap_rep h1 [t \<mapsto> j]" "128 \<le> j"
    "pmm (heap h1) = pmm_large 0x11 5 \<or> pmm (heap h1) = pmm_large 0x31 6"
    by (rule sample_task_block) (rule that)
  then have l: "pmm (heap h1) = pmm_large 0x11 5 \<or> pmm (heap h1) = pmm_large 0x31 6 \<or> pmm (heap h1) = pmm_large 0x71 7" by blast
  obtain t2 h2 where t2: "kmalloc 128 h1 = Some (t2, h2)" "t2 \<noteq> 0" "t2 \<notin> dom [t \<mapsto> j]"
    "pmm (heap h2) = pmm (heap h1) \<or> (\<exists>a. pmm_alloc_page (pmm (heap h1)) = Some (a, pmm (heap h2)))"
    by (rule task_block [OF t(3) large_free(1,2) [OF l]]) (rule that)
  have "pmm (heap h2) = pmm_large 0x11 5 \<or> pmm (heap h2) = pmm_large 0x31 6 \<or> pmm (heap h2) = pmm_large 0x71 7"
    using t2(4) t(5) pmm_large_alloc(2,4) by auto
  then show thesis using large_free(3) [of h2] that t(1-4) t2(1-3) by auto
qed

end
