(* ===== verification/Task_Props.thy ===== *)
theory Task_Props
  imports Task_Spawn Sched_Props Kmalloc_Sample Lapic_Props Interrupt_Props
begin

text \<open>
  The properties of tasks: the context switch, and the first steps of a new task.
\<close>

section \<open>Round trip\<close>

text \<open>
  C6: The context switch is a round trip. A task \<open>a\<close> that switches to \<open>b\<close> and is switched back to at any later
  time, from any task \<open>x\<close>, continues behind its call of \<open>__switch_to\<close> with the callee-saved registers and the
  stack pointer it had, its address space loaded, its kernel stack in the task segment and itself as the
  running task, provided that in between nothing wrote to the seven cells of its saved context or to its stack
  field, and that the words the two switches push onto other stacks do not lie there.
\<close>

theorem context_switch_roundtrip:
  assumes out: "switch_registers lb a b M = Some M1" "a \<noteq> b" "tasks (mc_sched M) b = Some tb"
    and kept: "\<forall>y\<in>context_cells (rsp (mc_cpu M)). cells_of M2 y = cells_of M1 y"
      "tasks (mc_sched M2) a = Some ta" "tasks (mc_sched M1) a = Some ta1" "tk_stack ta = tk_stack ta1"
    and return: "switch_registers lb x a M2 = Some M3" "x \<noteq> a"
    and apart: "context_cells (rsp (mc_cpu M)) \<inter> down (tk_stack tb) 3 = {}" "context_cells (rsp (mc_cpu M)) \<inter> down (rsp (mc_cpu M2)) 6 = {}"
  shows "rbx (mc_cpu M3) = rbx (mc_cpu M) \<and> rbp (mc_cpu M3) = rbp (mc_cpu M) \<and> r12 (mc_cpu M3) = r12 (mc_cpu M)
    \<and> r13 (mc_cpu M3) = r13 (mc_cpu M) \<and> r14 (mc_cpu M3) = r14 (mc_cpu M) \<and> r15 (mc_cpu M3) = r15 (mc_cpu M)
    \<and> rip (mc_cpu M3) = cells_of M (rsp (mc_cpu M)) \<and> rsp (mc_cpu M3) = rsp (mc_cpu M) + 8
    \<and> current_task (mc_sched M3) = a \<and> tss_rsp0 (mc_sched M3) = tk_kstack_top ta
    \<and> (\<exists>vm. mc_maps M2 (tk_vmap ta) = Some vm \<and> mc_cr3 M3 = pml4_phy (vm_pt vm))"
proof -
  let ?c = "mc_cpu M" and ?d = "mc_cpu M2"
  define m1 where "m1 = snd (pushes [rbx ?c, rbp ?c, r12 ?c, r13 ?c, r14 ?c, r15 ?c] (?c, cells_of M))"
  define m2 where "m2 = snd (pushes [rbx ?d, rbp ?d, r12 ?d, r13 ?d, r14 ?d, r15 ?d] (?d, cells_of M2))"
  note p1 = pushed_context [OF m1_def] and p2 = pushed_context [OF m2_def]
  have "(\<forall>y. y \<notin> down (tk_stack tb) 3 \<longrightarrow> cells_of M1 y = m1 y) \<and> tk_stack ta1 = rsp ?c - 48"
    by (rule switch_registers_correct [OF out(1,3,2) m1_def refl]) (use kept(3) in auto)
  then have o: "\<And>y. y \<notin> down (tk_stack tb) 3 \<Longrightarrow> cells_of M1 y = m1 y" "tk_stack ta = rsp ?c - 48"
    using kept(4) by simp_all
  have m: "m2 y = m1 y" if "y \<in> context_cells (rsp ?c)" for y
  proof -
    have "m2 y = cells_of M2 y" using p2(8) apart(2) that by blast
    also have "\<dots> = cells_of M1 y" using kept(1) that by blast
    also have "\<dots> = m1 y" using o(1) apart(1) that by blast
    finally show ?thesis .
  qed
  have r: "m2 (tk_stack ta) = r15 ?c" "m2 (tk_stack ta + 8) = r14 ?c" "m2 (tk_stack ta + 16) = r13 ?c" "m2 (tk_stack ta + 24) = r12 ?c"
    "m2 (tk_stack ta + 32) = rbp ?c" "m2 (tk_stack ta + 40) = rbx ?c" "m2 (tk_stack ta + 48) = cells_of M (rsp ?c)"
    using p1 m unfolding o(2) context_cells_eq by simp_all
  obtain vm where "mc_maps M2 (tk_vmap ta) = Some vm"
    "r15 (mc_cpu M3) = m2 (tk_stack ta)" "r14 (mc_cpu M3) = m2 (tk_stack ta + 8)" "r13 (mc_cpu M3) = m2 (tk_stack ta + 16)"
    "r12 (mc_cpu M3) = m2 (tk_stack ta + 24)" "rbp (mc_cpu M3) = m2 (tk_stack ta + 32)" "rbx (mc_cpu M3) = m2 (tk_stack ta + 40)"
    "rip (mc_cpu M3) = m2 (tk_stack ta + 48)" "rsp (mc_cpu M3) = tk_stack ta + 56" "mc_cr3 M3 = pml4_phy (vm_pt vm)"
    "current_task (mc_sched M3) = a" "tss_rsp0 (mc_sched M3) = tk_kstack_top ta"
    by (rule switch_registers_correct [OF return(1) kept(2) return(2) m2_def refl]) (rule that)
  then show ?thesis unfolding r using o(2) by auto
qed

definition sample_labels :: labels where
  "sample_labels = \<lparr>at_kfork_return = 0xFFFFFFFF80001000, at_after_entry = 0xFFFFFFFF80001005, at_after_switch_pt = 0xFFFFFFFF80002000,
     at_utask_trampoline = 0xFFFFFFFF80003000, at_idle_task = 0xFFFFFFFF80004000, at_percpu_start = 0xFFFFFFFF80100000,
     at_preempt_count = 0xFFFFFFFF80100010, at_kernel_vm_map = 0x800, at_kernel_phys = 0x100000, at_kernel_virt = 0xFFFFFFFF80000000\<rparr>"

definition sample_map :: vm_map where
  "sample_map = \<lparr>vm_addr = 0x800, vm_pt = \<lparr>pt_addr = 0x900, pml4_virt = 0xA000, pml4_phy = 0xB000\<rparr>, areas = []\<rparr>"

definition sample_machine :: machine where
  "sample_machine = \<lparr>mc_cpu = user_cpu\<lparr>rsp := 0x9000, rbx := 77\<rparr>, mc_cr3 = 0, mc_heap = \<lparr>kmalloc_caches = [], heap = k_sample\<rparr>,
     mc_sched = three, mc_maps = [0 \<mapsto> sample_map]\<rparr>"

theorem context_switch_roundtrip_witness:
  "\<exists>M1 M3. switch_registers sample_labels 0x1000 0x2000 sample_machine = Some M1
    \<and> switch_registers sample_labels 0x2000 0x1000 M1 = Some M3 \<and> rbx (mc_cpu M3) = 77 \<and> rsp (mc_cpu M3) = 0x9008"
proof -
  let ?M = sample_machine
  have t: "tasks (mc_sched ?M) 0x1000 = Some (task_at S_TASK_RUNNABLE)" "tasks (mc_sched ?M) 0x2000 = Some (task_at S_TASK_RUNNABLE)"
    by (simp_all add: sample_machine_def three_def)
  have k: "tk_stack (task_at S_TASK_RUNNABLE) = 0" "tk_vmap (task_at S_TASK_RUNNABLE) = 0" by (simp_all add: task_at_def)
  have v: "mc_maps ?M 0 = Some sample_map" "rsp (mc_cpu ?M) = 0x9000" "rbx (mc_cpu ?M) = 77" by (simp_all add: sample_machine_def)
  have ab: "(0x1000 :: u64) \<noteq> 0x2000" "(0x2000 :: u64) \<noteq> 0x1000" by simp_all
  obtain M1 where M1: "switch_registers sample_labels 0x1000 0x2000 ?M = Some M1" "mc_maps M1 = mc_maps ?M"
    using switch_registers_runs [OF t ab(1)] k v by auto
  obtain ta where ta: "tasks (mc_sched M1) 0x1000 = Some ta" "tk_vmap ta = 0" "rsp (mc_cpu M1) = 56"
    "tasks (mc_sched M1) 0x2000 = Some (task_at S_TASK_RUNNABLE)"
    by (rule switch_registers_correct [OF M1(1) t(2) ab(1) refl refl]) (auto simp: t k intro: that)
  obtain M3 where M3: "switch_registers sample_labels 0x2000 0x1000 M1 = Some M3"
    using switch_registers_runs [OF ta(4,1) ab(2)] M1(2) ta(2) v by auto
  have ap: "context_cells 0x9000 \<inter> down 0 3 = {}" "context_cells 0x9000 \<inter> down 56 6 = {}"
  proof -
    have "{1..6} = {1, 2, 3, 4, 5, 6 :: nat}" by auto
    then have "down 56 6 = {48, 40, 32, 24, 16, 8}" by (simp add: down_def)
    then show "context_cells 0x9000 \<inter> down 0 3 = {}" "context_cells 0x9000 \<inter> down 56 6 = {}"
      by (simp_all add: context_cells_eq down_numeral)
  qed
  have ap': "context_cells (rsp (mc_cpu ?M)) \<inter> down (tk_stack (task_at S_TASK_RUNNABLE)) 3 = {}"
    "context_cells (rsp (mc_cpu ?M)) \<inter> down (rsp (mc_cpu M1)) 6 = {}"
    using ap v(2) k(1) ta(3) by simp_all
  have "\<forall>y\<in>context_cells (rsp (mc_cpu ?M)). cells_of M1 y = cells_of M1 y" by simp
  note c = context_switch_roundtrip [OF M1(1) ab(1) t(2) this ta(1) ta(1) refl M3 ab(2) ap']
  have "rbx (mc_cpu M3) = 77" "rsp (mc_cpu M3) = 0x9008" using c v by simp_all
  then show ?thesis using M1(1) M3 by blast
qed

section \<open>Spawning\<close>


text \<open>A scheduler with nothing but the idle task, on the sample heap.\<close>

definition idle_only :: "u64 \<Rightarrow> sched" where
  "idle_only idle = with_task idle (task_at S_TASK_INIT) \<lparr>rb_nodes = Map.empty, rb_root = 0, rb_leftmost = 0, rq_idle = idle, num_threads = 0,
     tasks = Map.empty, current_task = idle, preempt_count = 0, need_resched = False, next_tid = 1, next_pid = 0, tss_rsp0 = 0\<rparr>"

lemma idle_only_ok:
  assumes "idle \<noteq> 0" "8 dvd unat idle" "unat idle + 128 \<le> 2 ^ 64"
  shows "sched_ok (idle_only idle) []"
proof -
  have p: "present (idle_only idle) idle"
    using node_of_ok [OF assms(2,3)] assms(1) by (simp add: idle_only_def with_task_def present_def)
  have "cached_rep (idle_only idle) Leaf" by (simp add: cached_rep_def rep_def rbt_def idle_only_def with_task_def)
  then have "rq (idle_only idle) []"
    by (auto simp: rq_def idle_only_def with_task_def intro!: exI [of _ Leaf])
  moreover have f: "current_task (idle_only idle) = idle" "rq_idle (idle_only idle) = idle" "st (idle_only idle) idle = Some S_TASK_INIT"
    by (simp_all add: idle_only_def with_task_def st_def task_at_def)
  ultimately show ?thesis using p by (simp add: sched_ok_def)
qed


lemma entry_aligned: "x = y + 4088 \<Longrightarrow> y mod 4096 = 0 \<Longrightarrow> x mod 16 = (8 :: nat)"
proof -
  assume x: "x = y + 4088" and "y mod 4096 = 0"
  then obtain q where "y = 4096 * q" by (auto simp: mod_eq_0_iff_dvd)
  then have "x = 8 + (256 * q + 255) * 16" using x by simp
  then show ?thesis by (simp only: mod_mult_self1) simp
qed

text \<open>
  C15: The first switch to a task that \<open>ktask_spawn\<close> made enters its function. Provided its stack and its stack field are
  as \<open>ktask_spawn\<close> left them, \<open>__switch_to\<close> returns into \<open>__kfork_return\<close>, and that calls \<open>entry\<close> with \<open>args\<close> as
  its first argument, interrupts on, the other callee-saved registers zero, the return address behind the call on top of
  its own stack and the stack aligned as the ABI wants it at a function's entry.
\<close>

theorem spawned_task_starts:
  assumes "heap_rep h B" "kmalloc 128 h = Some (t, h1)" "t \<noteq> 0" "k_alloc_pages (heap h1) 2 \<noteq> Some (0, heap h1)"
    and spawn: "ktask_spawn lb entry args (h, s) = Some (t', h', s')" "tasks s' t' = Some tk"
    and kept: "tasks (mc_sched M) t' = Some tk2" "tk_stack tk2 = tk_stack tk" "\<forall>y\<in>down (tk_kstack_top tk) 9. cells_of M y = mem (heap h') y"
    and switch: "switch_registers lb x t' M = Some M1" "x \<noteq> t'" "down (rsp (mc_cpu M)) 6 \<inter> down (tk_kstack_top tk) 9 = {}"
  shows "let (c, m) = kfork_return lb (mc_cpu M1, cells_of M1) in
     rip (mc_cpu M1) = at_kfork_return lb \<and> rip c = entry \<and> rdi c = args \<and> bit (rflags c) 9
     \<and> rsp c = tk_kstack_top tk - 8 \<and> m (rsp c) = at_after_entry lb \<and> unat (rsp c) mod 16 = 8
     \<and> rbx c = 0 \<and> rbp c = 0 \<and> r12 c = 0 \<and> r13 c = 0 \<and> r14 c = 0 \<and> r15 c = 0"
proof -
  obtain j k k1 m p where S: "ktask_spawn lb entry args (h, s) = Some (t, h1\<lparr>heap := k1\<lparr>mem := m\<rparr>\<rparr>, with_task t (new_task lb p (next_tid s)) s)"
    "k + 2 \<le> k_pages k1" "k_inv k1" "m (p - 8) = entry" "m (p - 16) = args"
    "m (p - 24) = at_kfork_return lb" "\<And>i. i < 6 \<Longrightarrow> m (p - 72 + 8 * of_nat i) = 0" and p: "p = run_base k1 (k + 2)"
    by (rule ktask_spawn_correct [OF assms(1), of lb entry args s]) (use assms(2-4) that in auto)
  have e: "t' = t" "h' = h1\<lparr>heap := k1\<lparr>mem := m\<rparr>\<rparr>" "s' = with_task t (new_task lb p (next_tid s)) s" using spawn(1) S(1) by auto
  have "tk = new_task lb p (next_tid s)" using spawn(2) unfolding e by (simp add: with_task_def)
  then have top: "tk_kstack_top tk = p" "tk_stack tk2 = p - 72" using kept(2) by (simp_all add: new_task_def)
  define c where "c = mc_cpu M"
  define m1 where "m1 = snd (pushes [rbx c, rbp c, r12 c, r13 c, r14 c, r15 c] (c, cells_of M))"
  have m1: "m1 y = m y" if "y \<in> down p 9" for y
  proof -
    have "m1 y = cells_of M y" using pushed_context(8) [OF m1_def] switch(3) that unfolding c_def top by blast
    then show ?thesis using kept(3) that unfolding top e(2) by simp
  qed
  have nine: "down p 9 = {p - 8, p - 16, p - 24, p - 32, p - 40, p - 48, p - 56, p - 64, p - 72}"
  proof -
    have "{1..9} = {1, 2, 3, 4, 5, 6, 7, 8, 9 :: nat}" by auto
    then show ?thesis by (simp add: down_def)
  qed
  have z: "m1 (p - 72) = 0" "m1 (p - 64) = 0" "m1 (p - 56) = 0" "m1 (p - 48) = 0" "m1 (p - 40) = 0" "m1 (p - 32) = 0"
    "m1 (p - 24) = at_kfork_return lb" "m1 (p - 16) = args" "m1 (p - 8) = entry"
    using m1 S(4-6) S(7) [of 0] S(7) [of 1] S(7) [of 2] S(7) [of 3] S(7) [of 4] S(7) [of 5] unfolding nine by simp_all
  have s: "r15 (mc_cpu M1) = 0" "r14 (mc_cpu M1) = 0" "r13 (mc_cpu M1) = 0" "r12 (mc_cpu M1) = 0" "rbp (mc_cpu M1) = 0" "rbx (mc_cpu M1) = 0"
    "rip (mc_cpu M1) = at_kfork_return lb" "rsp (mc_cpu M1) = p - 16" "cells_of M1 (p - 16) = args" "cells_of M1 (p - 8) = entry"
    by (rule switch_registers_correct [OF switch(1) kept(1) switch(2) m1_def [unfolded c_def] refl];
      use z in \<open>simp add: top down_numeral\<close>)+
  have a: "unat (p - 8) mod 16 = 8"
  proof -
    have k: "k + 1 < k_pages k1" "0 < k + 1" using S(2) by simp_all
    note b = run_base_page(2) [OF S(3) k]
    have t: "p - 8 = run_base k1 (k + 1) + 4088" by (simp add: p run_base_def algebra_simps)
    have r: "unat (run_base k1 (k + 1)) + 4096 \<le> 2 ^ 64" by (rule slab_page_room [OF b])
    have "unat (p - 8) = unat (run_base k1 (k + 1)) + unat (4088 :: u64)" unfolding t by (rule unat_add_no_wrap) (use r in simp)
    then have "unat (p - 8) = unat (run_base k1 (k + 1)) + 4088" by simp
    moreover have "unat (run_base k1 (k + 1)) mod 4096 = 0" using b by (simp add: slab_page_def)
    ultimately show ?thesis by (rule entry_aligned [OF _ _])
  qed
  have i: "bit (w OR FLAG_IF) 9" for w :: u64
  proof -
    have "bit (FLAG_IF :: u64) 9" by (simp add: FLAG_IF_def bit_iff_odd)
    then show ?thesis by (simp add: bit_simps)
  qed
  obtain c' m' where k: "kfork_return lb (mc_cpu M1, cells_of M1) = (c', m')" by fastforce
  have c': "rip c' = entry" "rdi c' = args" "rflags c' = rflags (mc_cpu M1) OR FLAG_IF" "rsp c' = p - 8" "m' (p - 8) = at_after_entry lb"
    "rbx c' = 0" "rbp c' = 0" "r12 c' = 0" "r13 c' = 0" "r14 c' = 0" "r15 c' = 0"
    using k s by (auto simp: kfork_return_def push_def Let_def)
  show ?thesis
    unfolding k top(1) Let_def prod.case
    unfolding c'(3,4)
    by (intro conjI s(7) c'(1,2,5-) a i refl)
qed

theorem spawned_task_starts_witness:
  "\<exists>t h' s' M M1. ktask_spawn sample_labels 0x1234 99 (heap_large, three) = Some (t, h', s') \<and> mc_heap M = h'
    \<and> switch_registers sample_labels (t + 8) t M = Some M1
    \<and> (let (c, m) = kfork_return sample_labels (mc_cpu M1, cells_of M1) in rip c = 0x1234 \<and> rdi c = 99)"
proof -
  obtain t j h1 phys k1 where t: "kmalloc 128 heap_large = Some (t, h1)" "t \<noteq> 0"
    "k_alloc_pages (heap h1) 2 = Some (phys, k1)" "phys \<noteq> 0"
    by (rule sample_task_block) (rule that)
  have nf: "k_alloc_pages (heap h1) 2 \<noteq> Some (0, heap h1)" using t(3,4) by simp
  obtain h' s' tk where S: "ktask_spawn sample_labels 0x1234 99 (heap_large, three) = Some (t, h', s')" "tasks s' t = Some tk"
      "tk_vmap tk = 0x800"
    by (rule ktask_spawn_correct [OF heap_large_rep(1), of sample_labels "0x1234" 99 three])
      (use t(1,2) nf that in \<open>auto simp: with_task_def new_task_def sample_labels_def\<close>)
  let ?s = "s'\<lparr>tasks := (tasks s')(t + 8 \<mapsto> task_at S_TASK_RUNNABLE)\<rparr>"
  let ?M = "\<lparr>mc_cpu = user_cpu\<lparr>rsp := tk_kstack_top tk + 48\<rparr>, mc_cr3 = 0, mc_heap = h', mc_sched = ?s, mc_maps = [0x800 \<mapsto> sample_map]\<rparr>"
  have ne: "t + 8 \<noteq> t" by simp
  have tk: "tasks (mc_sched ?M) t = Some tk" "tasks (mc_sched ?M) (t + 8) = Some (task_at S_TASK_RUNNABLE)" using S(2) by simp_all
  have vm: "mc_maps ?M (tk_vmap tk) = Some sample_map" by (simp add: S(3))
  obtain M1 where M1: "switch_registers sample_labels (t + 8) t ?M = Some M1" using switch_registers_runs [OF tk(2,1) ne vm] by blast
  have ap: "down (rsp (mc_cpu ?M)) 6 \<inter> down (tk_kstack_top tk) 9 = {}"
  proof -
    have "{1..6} = {1, 2, 3, 4, 5, 6 :: nat}" "{1..9} = {1, 2, 3, 4, 5, 6, 7, 8, 9 :: nat}" by auto
    then show ?thesis by (simp add: down_def)
  qed
  have "\<forall>y\<in>down (tk_kstack_top tk) 9. cells_of ?M y = mem (heap h') y" by simp
  from spawned_task_starts [OF heap_large_rep(1) t(1,2) nf S(1,2) tk(1) refl this M1 ne ap]
  show ?thesis using S(1) M1 by (intro exI [of _ t] exI [of _ h'] exI [of _ s'] exI [of _ ?M] exI [of _ M1]) auto
qed

end
