(* ===== verification/Spec2Isabelle.thy ===== *)
theory Spec2Isabelle
  imports Pmm_Init Vm_Props Rbtree_Props Sched_Props Kprintf_Props Kmalloc_Props Console_Props Madt_Props Device_Props Space_Props
    Strings Interrupt_Props Lapic_Props Task_Props
begin

text \<open>
  A verification library for the flos kernel: a small x86-64 kernel in C and assembly under
  \<^verbatim>\<open>src/kernel\<close>. Paths below are relative to that directory.

  \<^bold>\<open>The program.\<close> The boot loader hands the kernel a memory map, the offset at which physical memory is
  visible and a framebuffer. \<^verbatim>\<open>kernel/kmain.c\<close> then brings the parts up in turn: descriptor tables and
  interrupt gates, the physical page allocator, the slab allocator on top of it, the kernel's page
  tables, the heap on slab caches and page runs, the console, the interrupt controllers found through
  ACPI, the timers, and the scheduler, whose run queue is a red-black tree. From then on the kernel
  runs as a state machine: the local timer interrupts the running task, the handler counts slices and
  calls the scheduler, the scheduler picks the next task and the assembly switch changes stacks. User
  tasks enter through interrupts: page faults are served by the memory map of the task, system calls by
  a dispatcher.

  \<^bold>\<open>How the code is modelled.\<close>
  \<^item> A machine integer is a word of its width (\<open>u8\<close> to \<open>u64\<close>, theory \<open>Prelude\<close>); arithmetic wraps. A
    struct is a record, a routine a function on the state it touches, and the state is returned
    updated. Pointers stay 64-bit addresses where the code computes with them; otherwise a pointer to an
    array element is its index.
  \<^item> A result \<open>None\<close> is undefined behaviour: an access outside an object, a null pointer, a shift that
    is too wide. Where the kernel stops on purpose (\<open>hcf\<close>), the result is \<open>Halted\<close>. An error the code
    reports is the value the code returns (0, \<open>-1\<close>, a null pointer). The safety theorems show that
    \<open>None\<close> does not occur.
  \<^item> No loop carries fuel. Loops with a measure are functions with a termination proof; loops whose end
    depends on the data, on pointers or on a device (tree walks, insertion and erasure in the tree,
    waiting for the timer) are partial functions, \<open>None\<close> when they do not return, and the theorems
    about them conclude a result \<open>Some\<close>.
  \<^item> Devices are not part of the repository. A record of type \<open>bus\<close> says what port and register accesses
    do to the outside world; what a theorem needs of a chip is a hypothesis with an example chip that
    satisfies it. The ACPI table layout (\<open>acpi_abi\<close>), the section addresses of the linker and the code
    addresses of routines (\<open>labels\<close>) are parameters in the same way.

  \<^bold>\<open>Foundations.\<close>
  \<^item> \<open>Prelude\<close>: word types and lemmas on words, alignment and options; \<open>Loops\<close>: the counting loop on
    machine words and its invariant rule.
  \<^item> \<open>Page_Allocator\<close>, \<open>Object_Allocator\<close>, \<open>Block_Allocator\<close>, \<open>Round_Robin\<close>: the interfaces between the
    components, as locales, with the lemmas that follow from a contract alone. They are interpreted on
    the model where the provider is verified: \<open>pg\<close> in \<open>Pmm\<close> and \<open>kpg\<close> in \<open>Kstate\<close> (physical pages),
    \<open>slab\<close> in \<open>Slab_Ops\<close> (every slab cache), \<open>kheap\<close> in \<open>Kmalloc_Rep\<close> (the heap), \<open>turns\<close> in
    \<open>Sched_Props\<close> (tasks that yield) and \<open>slots\<close> in \<open>Lapic_Props\<close> (tasks that are preempted).

  \<^bold>\<open>Memory.\<close>
  \<^item> Physical pages: \<open>Bitmap\<close> (\<^verbatim>\<open>include/bitmap.h\<close>), \<open>Memory_Map\<close> (\<^verbatim>\<open>mm/memory_map.c\<close>), \<open>Pmm\<close> and
    \<open>Pmm_Init\<close> (\<^verbatim>\<open>mm/pmm/pmm.c\<close>). The state is the bitmap with \<open>cached_index\<close>. Allocation is next fit
    with wrap-around and complete; initialisation frees exactly the whole usable pages.
  \<^item> \<open>Kstate\<close> is the state all allocators share: memory as 64-bit cells, slab headers by address, the
    static pool of caches, the physical pages.
  \<^item> Slab allocator: \<open>Slab\<close> (\<^verbatim>\<open>mm/vm/slab.c\<close>), its invariant (\<open>Slab_Inv\<close>, \<open>Slab_Layout\<close>) and its
    contract (\<open>Slab_Ops\<close>): free lists threaded through memory, the three slab lists, objects that do not
    overlap, caches that do not disturb each other.
  \<^item> Heap: \<open>Kmalloc\<close> (\<^verbatim>\<open>kernel/lib/stdlib.c\<close>), its invariant and headers (\<open>Kmalloc_Inv\<close>, \<open>Kmalloc_Heap\<close>,
    \<open>Kmalloc_Ops\<close>), the block contract (\<open>Kmalloc_Rep\<close>), initialisation and failure (\<open>Kmalloc_Props\<close>),
    other users of pages beside the heap (\<open>Kmalloc_Pages\<close>) and a concrete heap (\<open>Kmalloc_Sample\<close>). The
    contract covers requests of up to $2^{42}$ bytes; larger ones reach the unchecked additions of the
    code.
  \<^item> Page tables: \<open>Pmap\<close> (\<^verbatim>\<open>arch/x86_64/mm/pmap/pmap.c\<close>); \<open>Pmap_Walk\<close> states what a tree of tables means by
    the walk the processor makes, \<open>Pmap_Ops\<close> and \<open>Pmap_Translate\<close> show mapping to be an update of that
    translation, and \<open>Pmap_Range\<close> does so for ranges in pages of three sizes and for unmapping.
  \<^item> Memory maps: \<open>Vm_Map\<close> (\<^verbatim>\<open>mm/vm/vm_map.c\<close>), the area list (\<open>Vm_Areas\<close>), freeing ranges
    (\<open>Vm_Range\<close>), search, faults and unmapping (\<open>Vm_Props\<close>), new address spaces (\<open>Address_Space\<close>,
    \<open>Vm_Create\<close>, \<open>Space_Props\<close>).
  \<^item> The kernel's own space: \<open>Kernel_Map\<close> (\<^verbatim>\<open>mm/pmap/pmap.c\<close> and the mapping services of
    \<^verbatim>\<open>firmware/acpi.c\<close>) and \<open>Kernel_Map_Props\<close>: no page is writable and executable, none is open to user
    mode.

  \<^bold>\<open>Tasks.\<close>
  \<^item> Red-black tree: \<open>Rbtree\<close> (\<^verbatim>\<open>kernel/lib/rbtree.c\<close>, \<^verbatim>\<open>include/rbtree.h\<close>,
    \<^verbatim>\<open>include/rbtree_augmented.h\<close>), nodes in a store with packed parent and colour. \<open>Rbtree_Rep\<close> relates
    the store to a tree; \<open>Rbtree_Rotate\<close>, \<open>Rbtree_Insert\<close>, \<open>Rbtree_Unlink\<close>, \<open>Rbtree_Erase\<close>,
    \<open>Rbtree_Walk\<close>, \<open>Rbtree_Find\<close>, \<open>Rbtree_Ops\<close> and \<open>Rbtree_Props\<close> show that the operations keep the
    colour invariants and do to the in-order sequence what they promise.
  \<^item> Scheduler: \<open>Sched\<close> (\<^verbatim>\<open>sched/runq.c\<close>, \<^verbatim>\<open>sched/scheduler.c\<close>, \<^verbatim>\<open>sched/task.c\<close>), the queue as a list
    (\<open>Sched_Queue\<close>), sample runs (\<open>Sched_Run\<close>), and \<open>Sched_Props\<close>: the state machine of scheduler
    events, its invariant, fairness, and what goes wrong when the running task exits.
  \<^item> Context switch: \<open>Cpu\<close> is the register file and a stack of cells, \<open>Task_Switch\<close> the assembly
    (\<^verbatim>\<open>arch/x86_64/sched/switch.asm\<close>, \<^verbatim>\<open>returns.asm\<close>) and the C around it
    (\<^verbatim>\<open>arch/x86_64/sched/task.c\<close>, \<^verbatim>\<open>sched/task.c\<close>) on the whole machine. \<open>Task_Context\<close> shows what a
    switch saves and restores, \<open>Task_Spawn\<close> what creating a task does to the heap and the pages, and
    \<open>Task_Props\<close> the round trip of a switch and the first steps of a new task.

  \<^bold>\<open>Interrupts and devices.\<close>
  \<^item> \<open>Interrupts\<close>: from the entry stub through dispatch to \<open>iretq\<close> (\<^verbatim>\<open>arch/x86_64/interrupts/\<close>,
    \<^verbatim>\<open>arch/x86_64/asm/stackops.asm\<close>), with the handlers for page faults, system calls
    (\<^verbatim>\<open>arch/x86_64/syscalls.c\<close>) and the keyboard; \<open>Interrupt_Props\<close>: an interrupt is transparent.
  \<^item> \<open>Lapic\<close> (\<^verbatim>\<open>arch/x86_64/pic/apic/lapic.c\<close>): the local controller, its calibration and the tick that
    drives the scheduler; \<open>Lapic_Props\<close>: ticks alone bring every waiting task to run.
  \<^item> \<open>Hardware\<close> (the bus), \<open>Pic\<close>, \<open>Pit\<close> (\<^verbatim>\<open>arch/x86_64/pic/\<close>), \<open>Descriptors\<close> (\<^verbatim>\<open>gdt.c\<close>,
    \<^verbatim>\<open>interrupts/idt.c\<close>) and their properties \<open>Device_Props\<close>.
  \<^item> \<open>Madt\<close> and \<open>Madt_Props\<close> (\<^verbatim>\<open>arch/x86_64/pic/apic/apic.c\<close>): reading the table of interrupt controllers.

  \<^bold>\<open>Output.\<close>
  \<^item> \<open>Kprintf\<close> (\<^verbatim>\<open>kernel/lib/kprintf/kprintf.c\<close>), \<open>Kprintf_Text\<close>, \<open>Kprintf_Digits\<close>, \<open>Kprintf_Props\<close>: the
    text of a format does not depend on where it goes, truncation, numerals.
  \<^item> \<open>Console\<close> (\<^verbatim>\<open>drivers/tty/tty.c\<close>, \<^verbatim>\<open>drivers/video/\<close>, \<^verbatim>\<open>kernel/lib/printk/printk.c\<close>), the kernel log as
    a queue (\<open>Console_Log\<close>, \<open>Console_Printk\<close>), the picture on the screen (\<open>Console_Screen\<close>,
    \<open>Console_Term\<close>) and \<open>Console_Props\<close>.
  \<^item> \<open>Strings\<close> (\<^verbatim>\<open>kernel/lib/string/\<close>): the five memory and string functions.

  \<^bold>\<open>Shared state and its views.\<close> The C program has one memory. The model splits it by what the code may
  reach: the heap and the page tables share the cells of \<open>kstate\<close>; the nodes of the run queue, which live
  inside task blocks, are the store of the scheduler, and a kernel stack is the cells of \<open>machine\<close>;
  video memory and the console buffers are fields of \<open>console\<close>. A component that calls another receives
  its state as an argument. The page-fault handler leaves the console out of its state, the console
  leaves the allocators out of its own: log output between two steps of memory management has no
  counterpart. There is one processor, so a per-CPU variable is a field.

  \<^bold>\<open>Not modelled.\<close>
  \<^item> \<^verbatim>\<open>boot/boot.c\<close> and \<^verbatim>\<open>kernel/kmain.c\<close>: they copy the answers of the boot loader and call the
    initialisers in turn; the answers are parameters of the initialisers.
  \<^item> The per-CPU areas (\<^verbatim>\<open>arch/x86_64/cpu/\<close>): addressing through a segment register.
  \<^item> The instructions \<open>invlpg\<close> and the effect of \<open>cr3\<close> on the translation cache; loading segment registers.
  \<^item> \<^verbatim>\<open>include/list.h\<close>, which the kernel does not call; the linked and RCU variants of the tree, likewise
    without a caller; the helper headers, which are macros for the compiler.
  \<^item> Floating-point output, which the configuration compiles out, and the rest of the ACPI glue: stubs,
    logging and one-line calls of the allocator.
  \<^item> The C library stubs and the build tools.
\<close>

end
